(* ===== verification/Prelude.thy ===== *)
theory Prelude
  imports Main "HOL-Library.Word" "HOL-Library.Monad_Syntax" "HOL-Library.Multiset"
begin

unbundle bit_operations_syntax

text \<open>
  Shared vocabulary of the development.

  A C object is the list of its bytes. A pointer into an object that is only read is the
  list of the bytes from the pointer to the end of the object, so that reading through a
  pointer past the end of its object is reading the empty list: such a read is a fault, and
  every routine that can fault returns an \<open>option\<close>, \<open>None\<close> being the fault. A C string
  with value \<open>s\<close> is the object \<open>cstr s\<close>, the bytes of \<open>s\<close> followed by the
  terminating NUL.

  The target is RV64: \<open>char\<close> is an unsigned byte, \<open>int\<close> has 32 bits, \<open>long\<close> and
  \<open>size_t\<close> have 64.
\<close>

section \<open>Types of the machine\<close>

type_synonym byte = "8 word"
type_synonym c_int = "32 word"
type_synonym c_long = "64 word"
type_synonym size_t = "64 word"

text \<open>Facts the components rewrite with; a component adds its own laws to them.\<close>

named_theorems cstr_simps \<open>evaluation of string routines on terminated strings\<close>
named_theorems inv_intros \<open>preservation of component invariants\<close>

abbreviation chr :: "char \<Rightarrow> byte" where
  "chr c \<equiv> of_char c"

abbreviation bytes :: "string \<Rightarrow> byte list" where
  "bytes s \<equiv> map of_char s"

definition cstr :: "byte list \<Rightarrow> byte list" where
  "cstr s = s @ [0]"

definition nonul :: "byte list \<Rightarrow> bool" where
  "nonul s \<longleftrightarrow> 0 \<notin> set s"

lemma nonul_Nil [simp]: "nonul []"
  by (simp add: nonul_def)

lemma nonul_Cons [simp]: "nonul (c # s) \<longleftrightarrow> c \<noteq> 0 \<and> nonul s"
  by (auto simp: nonul_def)

lemma nonul_append [simp]: "nonul (s @ t) \<longleftrightarrow> nonul s \<and> nonul t"
  by (auto simp: nonul_def)

lemma nonul_take [simp]: "nonul s \<Longrightarrow> nonul (take n s)"
  by (auto simp: nonul_def dest: in_set_takeD)

lemma nonul_drop [simp]: "nonul s \<Longrightarrow> nonul (drop n s)"
  by (auto simp: nonul_def dest: in_set_dropD)

lemma cstr_Nil [simp]: "cstr [] = [0]"
  by (simp add: cstr_def)

lemma cstr_Cons [simp]: "cstr (c # s) = c # cstr s"
  by (simp add: cstr_def)

lemma length_cstr [simp]: "length (cstr s) = Suc (length s)"
  by (simp add: cstr_def)

lemma cstr_neq_Nil [simp]: "cstr s \<noteq> []"
  by (simp add: cstr_def)

lemma drop_cstr [simp]: "n \<le> length s \<Longrightarrow> drop n (cstr s) = cstr (drop n s)"
  by (simp add: cstr_def)

lemma cstr_inject [simp]: "cstr s = cstr t \<longleftrightarrow> s = t"
  by (simp add: cstr_def)

section \<open>Options\<close>

text \<open>Searches return an offset relative to where they started.\<close>

lemma map_option_plus_0 [simp]: "map_option ((+) (0 :: nat)) x = x"
  by (cases x) auto

lemma map_option_plus_Suc [simp]: "map_option ((+) (Suc i)) x = map_option (\<lambda>n. Suc (i + n)) x"
  by (cases x) auto

section \<open>Bits of machine words\<close>

lemma bit_32_int: "bit (32::int) n \<longleftrightarrow> n = 5"
  using bit_exp_iff [of 5 n, where 'a = int] by (auto simp: possible_bit_def)

lemma bit_minus_33_int: "bit (- 33 :: int) n \<longleftrightarrow> n \<noteq> 5"
  using bit_32_int [of n] bit_not_int_iff [of 32 n] by simp

lemma or_32_set: "bit c 5 \<Longrightarrow> c OR 32 = (c :: c_int)"
  by (intro bit_word_eqI) (auto simp: bit_simps bit_32_int)

lemma or_32_clear: "\<not> bit c 5 \<Longrightarrow> c OR 32 = (c :: c_int) + 32"
proof -
  assume "\<not> bit c 5"
  then have "c AND 32 = 0"
    by (intro bit_word_eqI) (auto simp: bit_simps bit_32_int)
  then show ?thesis
    by (simp add: disjunctive_add_eq_or)
qed

lemma and_not_32_clear: "\<not> bit c 5 \<Longrightarrow> c AND - 33 = (c :: c_int)"
  by (intro bit_word_eqI) (auto simp: bit_simps bit_minus_33_int bit_32_int)

lemma and_not_32_set: "bit c 5 \<Longrightarrow> c AND - 33 = (c :: c_int) - 32"
proof -
  assume c: "bit c 5"
  then have "c = (c AND - 33) OR 32"
    by (intro bit_word_eqI) (auto simp: bit_simps bit_minus_33_int bit_32_int)
  also have "\<dots> = (c AND - 33) + 32"
    by (rule or_32_clear) (simp add: bit_simps bit_minus_33_int)
  finally show ?thesis by (simp add: algebra_simps)
qed

lemma bit_5_unat: "bit (c :: c_int) 5 \<longleftrightarrow> odd (unat c div 32)"
proof -
  have "bit c 5 \<longleftrightarrow> bit (unat c) 5"
    by (simp add: bit_unsigned_iff)
  then show ?thesis
    by (simp add: bit_iff_odd)
qed

lemma unat_bound: "unat (x :: 'a::len word) < 2 ^ LENGTH('a)"
  by (rule unsigned_less)

lemma unat_of_nat_small: "n < 2 ^ LENGTH('a) \<Longrightarrow> unat (of_nat n :: 'a::len word) = n"
  by (simp add: unat_of_nat)

lemma uint_pos: "x \<noteq> 0 \<Longrightarrow> 0 < uint (x :: 'a::len word)"
  by (metis order_le_less uint_0_iff uint_ge_0)

text \<open>The two's complement reading of a word of any width.\<close>

lemma sint_eq_if:
  fixes x :: "'a::len word"
  shows "sint x = (if uint x < 2 ^ (LENGTH('a) - 1) then uint x else uint x - 2 ^ LENGTH('a))"
proof -
  obtain n where n: "LENGTH('a) = Suc n"
    using len_gt_0 [where 'a = 'a] by (cases "LENGTH('a)") auto
  have lt: "uint x < 2 * 2 ^ n"
    using uint_lt2p [of x] by (simp add: n)
  have "bit (uint x) n \<longleftrightarrow> \<not> uint x < 2 ^ n"
  proof (cases "uint x < 2 ^ n")
    case False
    then have "uint x div 2 ^ n = 1"
      using lt by (intro int_div_pos_eq [where r = "uint x - 2 ^ n"]) auto
    with False show ?thesis by (simp add: bit_iff_odd)
  next
    case True
    then show ?thesis by (simp add: bit_iff_odd)
  qed
  moreover have "sint x = uint x - 2 ^ Suc n * of_bool (bit (uint x) n)"
    using lt by (simp add: sint_uint n signed_take_bit_eq_take_bit_minus take_bit_int_eq_self)
  ultimately show ?thesis by (simp add: n)
qed

text \<open>
  A signed comparison with bounds that are small and non-negative is the unsigned one.
\<close>

lemma sle_range:
  fixes a b c :: "'a::len word"
  assumes "uint a < 2 ^ (LENGTH('a) - 1)" and "uint b < 2 ^ (LENGTH('a) - 1)"
  shows "a \<le>s c \<and> c \<le>s b \<longleftrightarrow> a \<le> c \<and> c \<le> b"
proof -
  have "uint c < 2 ^ LENGTH('a)" and "0 \<le> uint a"
    by simp_all
  with assms show ?thesis
    unfolding word_sle_eq sint_eq_if word_le_def by (smt (verit))
qed

end
