(* ===== verification/Ctype.thy ===== *)
theory Ctype
  imports Prelude
begin

text \<open>
  Character classification and case conversion, \<open>src/src/libbrkc/ctype\<close>: one definition
  per file. The argument is the C \<open>int\<close> the code takes, a 32-bit word, so that the
  unsigned tricks of \<open>isalpha\<close>, \<open>tolower\<close> and \<open>toupper\<close> and the signed
  comparisons of the others are the ones the code performs. The results the code only uses
  as truth values are booleans.
\<close>

section \<open>Definitions\<close>

definition isdigit :: "c_int \<Rightarrow> bool" where
  "isdigit c \<longleftrightarrow> 48 \<le>s c \<and> c \<le>s 57"

definition isalpha :: "c_int \<Rightarrow> bool" where
  "isalpha c \<longleftrightarrow> (c OR 32) - 97 < 26"

definition isalnum :: "c_int \<Rightarrow> bool" where
  "isalnum c \<longleftrightarrow> isalpha c \<or> isdigit c"

definition isblank :: "c_int \<Rightarrow> bool" where
  "isblank c \<longleftrightarrow> c = 32 \<or> c = 9"

definition iscntrl :: "c_int \<Rightarrow> bool" where
  "iscntrl c \<longleftrightarrow> c < 32 \<or> c = 127"

definition isgraph :: "c_int \<Rightarrow> bool" where
  "isgraph c \<longleftrightarrow> 33 \<le>s c \<and> c \<le>s 126"

definition islower :: "c_int \<Rightarrow> bool" where
  "islower c \<longleftrightarrow> 97 \<le>s c \<and> c \<le>s 122"

definition isprint :: "c_int \<Rightarrow> bool" where
  "isprint c \<longleftrightarrow> 32 \<le>s c \<and> c \<le>s 126"

definition ispunct :: "c_int \<Rightarrow> bool" where
  "ispunct c \<longleftrightarrow> isgraph c \<and> \<not> isalnum c"

definition isspace :: "c_int \<Rightarrow> bool" where
  "isspace c \<longleftrightarrow> c = 32 \<or> c = 9 \<or> c = 10 \<or> c = 13 \<or> c = 11 \<or> c = 12"

definition isupper :: "c_int \<Rightarrow> bool" where
  "isupper c \<longleftrightarrow> 65 \<le>s c \<and> c \<le>s 90"

definition isxdigit :: "c_int \<Rightarrow> bool" where
  "isxdigit c \<longleftrightarrow> isdigit c \<or> (97 \<le>s c \<and> c \<le>s 102) \<or> (65 \<le>s c \<and> c \<le>s 70)"

definition tolower :: "c_int \<Rightarrow> c_int" where
  "tolower c = (if (c OR 32) - 97 < 26 then c OR 32 else c)"

definition toupper :: "c_int \<Rightarrow> c_int" where
  "toupper c = (if (c AND NOT 32) - 65 < 26 then c AND NOT 32 else c)"

lemmas ctype_defs =
  isdigit_def isalpha_def isalnum_def isblank_def iscntrl_def isgraph_def islower_def
  isprint_def ispunct_def isspace_def isupper_def isxdigit_def

section \<open>The unsigned range test\<close>

lemma range_97: "(x :: c_int) - 97 < 26 \<longleftrightarrow> 97 \<le> x \<and> x \<le> 122"
  by (unat_arith; simp; arith)

lemma range_65: "(x :: c_int) - 65 < 26 \<longleftrightarrow> 65 \<le> x \<and> x \<le> 90"
  by (unat_arith; simp; arith)

lemma upper_bit: "65 \<le> (c :: c_int) \<Longrightarrow> c \<le> 90 \<Longrightarrow> \<not> bit c 5"
proof -
  assume "65 \<le> c" "c \<le> 90"
  then have "65 \<le> unat c" "unat c \<le> 90"
    by (simp_all add: word_le_nat_alt)
  then have "unat c div 32 = 2" by arith
  then show ?thesis by (simp add: bit_5_unat)
qed

lemma lower_bit: "97 \<le> (c :: c_int) \<Longrightarrow> c \<le> 122 \<Longrightarrow> bit c 5"
proof -
  assume "97 \<le> c" "c \<le> 122"
  then have "97 \<le> unat c" "unat c \<le> 122"
    by (simp_all add: word_le_nat_alt)
  then have "unat c div 32 = 3" by arith
  then show ?thesis by (simp add: bit_5_unat)
qed

section \<open>What the classifiers decide\<close>

lemma isalpha_iff: "isalpha c \<longleftrightarrow> (97 \<le> c \<and> c \<le> 122) \<or> (65 \<le> c \<and> c \<le> 90)"
proof (cases "bit c 5")
  case True
  then show ?thesis
    by (auto simp: isalpha_def range_97 or_32_set dest: upper_bit)
next
  case False
  have "97 \<le> c + 32 \<and> c + 32 \<le> 122 \<longleftrightarrow> 65 \<le> c \<and> c \<le> 90"
    by (unat_arith; simp; arith)
  with False show ?thesis
    unfolding isalpha_def range_97 by (auto simp: or_32_clear dest: lower_bit)
qed

lemma isdigit_iff: "isdigit c \<longleftrightarrow> 48 \<le> c \<and> c \<le> 57"
  unfolding isdigit_def by (rule sle_range) simp_all

lemma islower_iff: "islower c \<longleftrightarrow> 97 \<le> c \<and> c \<le> 122"
  unfolding islower_def by (rule sle_range) simp_all

lemma isupper_iff: "isupper c \<longleftrightarrow> 65 \<le> c \<and> c \<le> 90"
  unfolding isupper_def by (rule sle_range) simp_all

lemma isgraph_iff: "isgraph c \<longleftrightarrow> 33 \<le> c \<and> c \<le> 126"
  unfolding isgraph_def by (rule sle_range) simp_all

lemma isprint_iff: "isprint c \<longleftrightarrow> 32 \<le> c \<and> c \<le> 126"
  unfolding isprint_def by (rule sle_range) simp_all

lemmas ctype_iff = isalpha_iff isdigit_iff islower_iff isupper_iff isgraph_iff isprint_iff

lemma isalpha_cases: "isalpha c \<longleftrightarrow> isupper c \<or> islower c"
  by (auto simp: ctype_iff)

lemma tolower_upper: "isupper c \<Longrightarrow> tolower c = c + 32"
proof -
  assume u: "isupper c"
  then have "\<not> bit c 5" by (auto simp: isupper_iff dest: upper_bit)
  moreover from u have "97 \<le> c + 32 \<and> c + 32 \<le> 122"
    unfolding isupper_iff by (unat_arith; simp)
  ultimately show ?thesis unfolding tolower_def range_97 by (simp add: or_32_clear)
qed

lemma tolower_other: "\<not> isupper c \<Longrightarrow> tolower c = c"
proof -
  assume u: "\<not> isupper c"
  show ?thesis
  proof (cases "islower c")
    case True
    then show ?thesis
      by (auto simp: tolower_def islower_iff or_32_set dest: lower_bit)
  next
    case False
    with u have "\<not> isalpha c" by (simp add: isalpha_cases)
    then show ?thesis by (simp add: tolower_def isalpha_def)
  qed
qed

lemma toupper_lower: "islower c \<Longrightarrow> toupper c = c - 32"
proof -
  assume u: "islower c"
  then have "bit c 5" by (auto simp: islower_iff dest: lower_bit)
  moreover from u have "65 \<le> c - 32 \<and> c - 32 \<le> 90"
    unfolding islower_iff by (unat_arith; simp)
  ultimately show ?thesis unfolding toupper_def range_65 by (simp add: and_not_32_set)
qed

lemma toupper_other: "\<not> islower c \<Longrightarrow> toupper c = c"
proof (cases "bit c 5")
  case True
  assume "\<not> islower c"
  moreover have "65 \<le> c - 32 \<and> c - 32 \<le> 90 \<longleftrightarrow> islower c"
    unfolding islower_iff by (unat_arith; simp; arith)
  ultimately show ?thesis
    using True unfolding toupper_def range_65 by (simp add: and_not_32_set)
next
  case False
  then show ?thesis unfolding toupper_def by (simp add: and_not_32_clear)
qed

lemmas case_conv = tolower_upper tolower_other toupper_lower toupper_other

section \<open>Properties\<close>

text \<open>
  For every \<open>int\<close> argument the bit tricks decide the ASCII classes: a letter is an upper
  or lower case letter, case conversion moves exactly the letters of the other case by 32, and
  the printable characters are the space, the alphanumerics and the punctuation, disjointly.
\<close>

theorem ctype_classes:
  "(isalpha c \<longleftrightarrow> isupper c \<or> islower c) \<and>
   tolower c = (if isupper c then c + 32 else c) \<and>
   toupper c = (if islower c then c - 32 else c) \<and>
   (isprint c \<longleftrightarrow> c = 32 \<or> isalnum c \<or> ispunct c) \<and>
   \<not> (isalnum c \<and> ispunct c) \<and> \<not> (iscntrl c \<and> isprint c)"
proof -
  have "isalnum c \<Longrightarrow> isprint c" and "isalnum c \<Longrightarrow> c \<noteq> 32"
    unfolding isalnum_def ctype_iff by (unat_arith; auto)+
  moreover have "isprint c \<longleftrightarrow> c = 32 \<or> isgraph c"
    unfolding isprint_iff isgraph_iff by (unat_arith; simp; arith)
  moreover have "iscntrl c \<Longrightarrow> \<not> isprint c"
    unfolding iscntrl_def isprint_iff by (unat_arith; simp)
  ultimately show ?thesis
    by (auto simp: isalpha_cases case_conv ispunct_def)
qed

end
