(* ===== verification/Strings_Read.thy ===== *)
theory Strings_Read
  imports Ctype "HOL-Library.List_Lexorder"
begin

text \<open>
  The routines of \<open>src/src/libbrkc/string\<close> that only read their arguments. A pointer is
  the list of the bytes from it to the end of its object, a read from the empty list is a
  fault (\<open>None\<close>). A result that is a pointer into the argument is the offset of that
  pointer, a null result is the inner \<open>None\<close>. Loop counters of type \<open>size_t\<close> are
  natural numbers: they never exceed the length of an object.
\<close>

section \<open>Definitions\<close>

fun strlen :: "byte list \<Rightarrow> nat option" where
  "strlen [] = None"
| "strlen (c # p) = (if c = 0 then Some 0 else map_option Suc (strlen p))"

fun strnlen :: "byte list \<Rightarrow> nat \<Rightarrow> nat option" where
  "strnlen p 0 = Some 0"
| "strnlen [] (Suc n) = None"
| "strnlen (c # p) (Suc n) = (if c = 0 then Some 0 else map_option Suc (strnlen p n))"

fun memchr_loop :: "byte list \<Rightarrow> byte \<Rightarrow> nat \<Rightarrow> nat \<Rightarrow> nat option option" where
  "memchr_loop p uc i 0 = Some None"
| "memchr_loop [] uc i (Suc n) = None"
| "memchr_loop (b # p) uc i (Suc n) = (if b = uc then Some (Some i) else memchr_loop p uc (Suc i) n)"

definition memchr :: "byte list \<Rightarrow> c_int \<Rightarrow> nat \<Rightarrow> nat option option" where
  "memchr s c n = memchr_loop s (ucast c) 0 n"

text \<open>\<open>memrchr\<close> walks from index \<open>n - 1\<close> down to 0.\<close>

fun memrchr_loop :: "byte list \<Rightarrow> byte \<Rightarrow> nat \<Rightarrow> nat option option" where
  "memrchr_loop p uc 0 = Some None"
| "memrchr_loop p uc (Suc i) =
     (if i < length p then if p ! i = uc then Some (Some i) else memrchr_loop p uc i else None)"

definition memrchr :: "byte list \<Rightarrow> c_int \<Rightarrow> nat \<Rightarrow> nat option option" where
  "memrchr s c n = memrchr_loop s (ucast c) n"

fun memcmp :: "byte list \<Rightarrow> byte list \<Rightarrow> nat \<Rightarrow> int option" where
  "memcmp p1 p2 0 = Some 0"
| "memcmp (a # p1) (b # p2) (Suc n) =
     (if a \<noteq> b then Some (if a > b then 1 else -1) else memcmp p1 p2 n)"
| "memcmp _ _ (Suc n) = None"

fun strcmp :: "byte list \<Rightarrow> byte list \<Rightarrow> int option" where
  "strcmp (a # s1) (b # s2) =
     (if a \<noteq> 0 \<and> a = b then strcmp s1 s2 else Some (uint a - uint b))"
| "strcmp _ _ = None"

fun strncmp :: "byte list \<Rightarrow> byte list \<Rightarrow> nat \<Rightarrow> int option" where
  "strncmp s1 s2 0 = Some 0"
| "strncmp (a # s1) (b # s2) (Suc n) =
     (if a \<noteq> 0 \<and> b \<noteq> 0 \<and> a = b then strncmp s1 s2 n else Some (uint a - uint b))"
| "strncmp _ _ (Suc n) = None"

definition lower :: "byte \<Rightarrow> int" where
  "lower c = sint (tolower (ucast c))"

fun strcasecmp :: "byte list \<Rightarrow> byte list \<Rightarrow> int option" where
  "strcasecmp (a # s1) (b # s2) =
     (if a \<noteq> 0 \<and> b \<noteq> 0 \<and> lower a = lower b then strcasecmp s1 s2
      else Some (lower a - lower b))"
| "strcasecmp _ _ = None"

fun strncasecmp :: "byte list \<Rightarrow> byte list \<Rightarrow> nat \<Rightarrow> int option" where
  "strncasecmp s1 s2 0 = Some 0"
| "strncasecmp (a # s1) (b # s2) (Suc n) =
     (if a \<noteq> 0 \<and> b \<noteq> 0 \<and> lower a = lower b then strncasecmp s1 s2 n
      else Some (lower a - lower b))"
| "strncasecmp _ _ (Suc n) = None"

fun strchr_loop :: "byte list \<Rightarrow> byte \<Rightarrow> nat \<Rightarrow> nat option option" where
  "strchr_loop [] uc i = None"
| "strchr_loop (b # s) uc i =
     (if b \<noteq> 0 then if b = uc then Some (Some i) else strchr_loop s uc (Suc i)
      else if uc = 0 then Some (Some i) else Some None)"

definition strchr :: "byte list \<Rightarrow> c_int \<Rightarrow> nat option option" where
  "strchr s c = strchr_loop s (ucast c) 0"

fun strrchr_loop :: "byte list \<Rightarrow> byte \<Rightarrow> nat \<Rightarrow> nat option \<Rightarrow> nat option option" where
  "strrchr_loop [] uc i lst = None"
| "strrchr_loop (b # s) uc i lst =
     (let lst = (if b = uc then Some i else lst)
      in if b \<noteq> 0 then strrchr_loop s uc (Suc i) lst else Some lst)"

definition strrchr :: "byte list \<Rightarrow> c_int \<Rightarrow> nat option option" where
  "strrchr s c = strrchr_loop s (ucast c) 0 None"

text \<open>
  The character set that \<open>strspn\<close> and \<open>strcspn\<close> build, an array of 256 flags, and their
  counting loops.
\<close>

fun span_map :: "byte list \<Rightarrow> (byte \<Rightarrow> bool) \<Rightarrow> (byte \<Rightarrow> bool) option" where
  "span_map [] cs = None"
| "span_map (b # s) cs = (if b \<noteq> 0 then span_map s (cs(b := True)) else Some cs)"

fun span_count :: "(byte \<Rightarrow> bool) \<Rightarrow> byte list \<Rightarrow> nat \<Rightarrow> nat option" where
  "span_count cs [] cnt = None"
| "span_count cs (b # s) cnt = (if cs b then span_count cs s (Suc cnt) else Some cnt)"

definition strspn :: "byte list \<Rightarrow> byte list \<Rightarrow> nat option" where
  "strspn s accept = do { cs \<leftarrow> span_map accept (\<lambda>_. False); span_count cs s 0 }"

definition strcspn :: "byte list \<Rightarrow> byte list \<Rightarrow> nat option" where
  "strcspn s reject = do { cs \<leftarrow> span_map reject (\<lambda>_. False); span_count (\<lambda>b. \<not> cs b) s 0 }"

text \<open>The search loop of \<open>strstr\<close>: \<open>k\<close> positions are left before \<open>end\<close>.\<close>

fun strstr_loop :: "byte list \<Rightarrow> byte list \<Rightarrow> nat \<Rightarrow> nat \<Rightarrow> nat \<Rightarrow> nat option option" where
  "strstr_loop p needle m i 0 = Some None"
| "strstr_loop p needle m i (Suc k) =
     (case memcmp p needle m of
        None \<Rightarrow> None
      | Some r \<Rightarrow> if r = 0 then Some (Some i) else strstr_loop (tl p) needle m (Suc i) k)"

definition strstr :: "byte list \<Rightarrow> byte list \<Rightarrow> nat option option" where
  "strstr haystack needle =
     (case needle of
        [] \<Rightarrow> None
      | c # _ \<Rightarrow>
          if c = 0 then Some (Some 0)
          else do {
            needle_len \<leftarrow> strlen needle;
            haystack_len \<leftarrow> strlen haystack;
            if needle_len > haystack_len then Some None
            else strstr_loop haystack needle needle_len 0 (haystack_len - needle_len + 1)
          })"

section \<open>Lengths and searches\<close>

lemma strlen_append [cstr_simps]: "nonul s \<Longrightarrow> strlen (s @ 0 # r) = Some (length s)"
  by (induction s) auto

lemma strlen_cstr [simp]: "nonul s \<Longrightarrow> strlen (cstr s) = Some (length s)"
  by (simp add: cstr_def strlen_append)

lemma strlen_Some: "strlen p = Some n \<Longrightarrow> n < length p \<and> p ! n = 0 \<and> nonul (take n p)"
  by (induction p arbitrary: n) (auto split: if_splits)

lemma strlen_None: "strlen p = None \<longleftrightarrow> 0 \<notin> set p"
  by (induction p) auto

lemma strnlen_append: "nonul s \<Longrightarrow> strnlen (s @ 0 # r) n = Some (min n (length s))"
proof (induction s arbitrary: n)
  case Nil
  then show ?case by (cases n) auto
next
  case (Cons a s)
  then show ?case by (cases n) auto
qed

lemma strnlen_take: "nonul s \<Longrightarrow> n \<le> length s \<Longrightarrow> strnlen (s @ r) n = Some n"
proof (induction s arbitrary: n)
  case Nil
  then show ?case by simp
next
  case (Cons a s)
  then show ?case by (cases n) auto
qed

text \<open>
  The position of the first byte that satisfies \<open>P\<close>: what the searching routines return.
\<close>

definition first_index :: "('a \<Rightarrow> bool) \<Rightarrow> 'a list \<Rightarrow> nat option" where
  "first_index P s =
     (let i = length (takeWhile (\<lambda>b. \<not> P b) s) in if i < length s then Some i else None)"

lemma first_index_Nil [simp]: "first_index P [] = None"
  by (simp add: first_index_def)

lemma first_index_Cons [simp]:
  "first_index P (b # s) = (if P b then Some 0 else map_option Suc (first_index P s))"
  by (simp add: first_index_def Let_def)

lemma first_index_Some:
  "first_index P s = Some i \<longleftrightarrow> i < length s \<and> P (s ! i) \<and> (\<forall>j<i. \<not> P (s ! j))"
proof (induction s arbitrary: i)
  case (Cons b s)
  then show ?case by (cases i) (auto simp: less_Suc_eq_0_disj)
qed simp

lemma first_index_None: "first_index P s = None \<longleftrightarrow> (\<forall>b \<in> set s. \<not> P b)"
  by (induction s) auto

lemma memchr_loop_eq:
  "n \<le> length p \<Longrightarrow>
     memchr_loop p uc i n = Some (map_option ((+) i) (first_index (\<lambda>b. b = uc) (take n p)))"
proof (induction p uc i n rule: memchr_loop.induct)
  case (3 b p uc i n)
  then show ?case
    by (cases "b = uc") (auto simp: option.map_comp comp_def)
qed auto

lemma memchr_eq:
  "n \<le> length p \<Longrightarrow> memchr p c n = Some (first_index (\<lambda>b. b = ucast c) (take n p))"
  by (simp add: memchr_def memchr_loop_eq)

lemma strchr_loop_eq:
  "nonul s \<Longrightarrow> strchr_loop (s @ 0 # r) uc i =
     Some (if uc = 0 then Some (i + length s) else map_option ((+) i) (first_index (\<lambda>b. b = uc) s))"
  by (induction s arbitrary: i) (auto simp: option.map_comp comp_def)

lemma strchr_append [cstr_simps]:
  "nonul s \<Longrightarrow> strchr (s @ 0 # r) c =
     Some (if ucast c = (0 :: byte) then Some (length s) else first_index (\<lambda>b. b = ucast c) s)"
  by (simp add: strchr_def strchr_loop_eq)

lemma strchr_cstr [simp]:
  "nonul s \<Longrightarrow> strchr (cstr s) c =
     Some (if ucast c = (0 :: byte) then Some (length s) else first_index (\<lambda>b. b = ucast c) s)"
  by (simp add: cstr_def strchr_append)

lemma strrchr_loop_eq:
  "nonul s \<Longrightarrow> strrchr_loop (s @ 0 # r) uc i lst =
     Some (if uc = 0 then Some (i + length s)
           else case first_index (\<lambda>b. b = uc) (rev s) of
                  None \<Rightarrow> lst | Some j \<Rightarrow> Some (i + (length s - Suc j)))"
proof (induction s arbitrary: i lst)
  case Nil
  then show ?case by simp
next
  case (Cons a s)
  have snoc: "first_index (\<lambda>b. b = uc) (t @ [a]) =
      (case first_index (\<lambda>b. b = uc) t of
         None \<Rightarrow> if a = uc then Some (length t) else None | Some j \<Rightarrow> Some j)" for t
    by (induction t) (auto split: option.splits)
  have "j < length s" if "first_index (\<lambda>b. b = uc) (rev s) = Some j" for j
    using that by (simp add: first_index_Some)
  with Cons show ?case
    by (auto simp: snoc Let_def Suc_diff_Suc split: option.splits)
qed

lemma strrchr_append [cstr_simps]:
  "nonul s \<Longrightarrow> strrchr (s @ 0 # r) c =
     Some (if ucast c = (0 :: byte) then Some (length s)
           else map_option (\<lambda>j. length s - Suc j) (first_index (\<lambda>b. b = ucast c) (rev s)))"
  by (simp add: strrchr_def strrchr_loop_eq split: option.split)

section \<open>Spans\<close>

lemma span_map_append:
  "nonul a \<Longrightarrow> span_map (a @ 0 # r) cs = Some (\<lambda>b. cs b \<or> b \<in> set a)"
  by (induction a arbitrary: cs) (auto simp: fun_eq_iff)

lemma span_count_Some:
  "span_count P s i = (if \<exists>b \<in> set s. \<not> P b then Some (i + length (takeWhile P s)) else None)"
  by (induction s arbitrary: i) auto

lemma strspn_append:
  "nonul s \<Longrightarrow> nonul a \<Longrightarrow>
     strspn (s @ 0 # r) (a @ 0 # r') = Some (length (takeWhile (\<lambda>b. b \<in> set a) s))"
  by (auto simp: strspn_def span_map_append span_count_Some nonul_def takeWhile_append
      takeWhile_eq_all_conv [THEN iffD2])

text \<open>
  \<open>strcspn\<close> never sets the flag of the terminating NUL, so what it returns depends on the
  bytes that follow the string.
\<close>

lemma strcspn_append:
  "nonul a \<Longrightarrow> strcspn p (a @ 0 # r) =
     (if \<exists>b \<in> set p. b \<in> set a then Some (length (takeWhile (\<lambda>b. b \<notin> set a) p)) else None)"
  by (simp add: strcspn_def span_map_append span_count_Some)

section \<open>Comparisons\<close>

lemma memcmp_eq:
  "n \<le> length p \<Longrightarrow> n \<le> length q \<Longrightarrow>
     memcmp p q n = Some (if take n p = take n q then 0 else if take n p > take n q then 1 else -1)"
proof (induction p q n rule: memcmp.induct)
  case (2 a p1 b p2 n)
  then show ?case by auto
qed auto

lemma memcmp_0_iff:
  "n \<le> length p \<Longrightarrow> n \<le> length q \<Longrightarrow> memcmp p q n = Some 0 \<longleftrightarrow> take n p = take n q"
  by (simp add: memcmp_eq)

lemma strcmp_append:
  "nonul s \<Longrightarrow> nonul t \<Longrightarrow>
     \<exists>d. strcmp (s @ 0 # r) (t @ 0 # r') = Some d \<and> (d < 0 \<longleftrightarrow> s < t) \<and> (d = 0 \<longleftrightarrow> s = t)"
proof (induction s arbitrary: t)
  case Nil
  show ?case
    using Nil.prems by (cases t) (auto dest: uint_pos simp: uint_0_iff)
next
  case (Cons a s)
  show ?case
  proof (cases t)
    case Nil
    with Cons.prems show ?thesis
      using uint_pos [of a] by auto
  next
    case (Cons b u)
    with Cons.prems Cons.IH [of u] show ?thesis
      by (auto simp: word_less_def word_uint_eq_iff [symmetric])
  qed
qed

lemma strcmp_0_iff: "nonul s \<Longrightarrow> nonul t \<Longrightarrow> strcmp (cstr s) (cstr t) = Some 0 \<longleftrightarrow> s = t"
  using strcmp_append [of s t "[]" "[]"] by (auto simp: cstr_def)

lemma strncmp_append:
  "nonul s \<Longrightarrow> nonul t \<Longrightarrow>
     \<exists>d. strncmp (s @ 0 # r) (t @ 0 # r') n = Some d \<and>
         (d < 0 \<longleftrightarrow> take n s < take n t) \<and> (d = 0 \<longleftrightarrow> take n s = take n t)"
proof (induction s arbitrary: t n)
  case Nil
  show ?case
    using Nil.prems by (cases t; cases n) (auto dest: uint_pos simp: uint_0_iff)
next
  case (Cons a s)
  show ?case
  proof (cases "t = [] \<or> n = 0")
    case True
    with Cons.prems show ?thesis
      using uint_pos [of a] by (cases n) auto
  next
    case False
    then obtain b u m where "t = b # u" "n = Suc m"
      by (cases t; cases n) auto
    with Cons.prems Cons.IH [of u m] show ?thesis
      by (auto simp: word_less_def word_uint_eq_iff [symmetric])
  qed
qed

lemma strncmp_0_iff:
  "nonul s \<Longrightarrow> nonul t \<Longrightarrow> strncmp (cstr s) (cstr t) n = Some 0 \<longleftrightarrow> take n s = take n t"
  using strncmp_append [of s t "[]" "[]" n] by (auto simp: cstr_def)

text \<open>Comparison without case is comparison of the lower-cased strings.\<close>

lemma lower_eq: "lower c = (if 65 \<le> c \<and> c \<le> 90 then uint c + 32 else uint c)"
proof -
  have u: "uint (ucast c :: c_int) = uint c"
    by (simp add: uint_up_ucast is_up)
  have c: "uint c < 256" "0 \<le> uint c"
    using uint_lt2p [of c] by simp_all
  have up: "isupper (ucast c) \<longleftrightarrow> 65 \<le> c \<and> c \<le> 90"
    by (simp add: isupper_iff word_le_def u)
  show ?thesis
  proof (cases "65 \<le> c \<and> c \<le> 90")
    case True
    then have "uint c \<le> 90" by (simp add: word_le_def)
    then have "uint (ucast c + 32 :: c_int) = uint c + 32"
      using u c by (simp add: uint_word_ariths)
    with True up c \<open>uint c \<le> 90\<close> show ?thesis
      by (simp add: lower_def tolower_upper sint_eq_if)
  next
    case False
    with up u c show ?thesis
      by (simp add: lower_def tolower_other sint_eq_if)
  qed
qed

lemma lower_0_iff [simp]: "lower c = 0 \<longleftrightarrow> c = 0"
  using uint_pos [of c] by (cases "c = 0") (auto simp: lower_eq word_le_def)

lemma lower_0 [simp]: "lower 0 = 0"
  by simp

lemma strcasecmp_0_iff:
  "nonul s \<Longrightarrow> nonul t \<Longrightarrow>
     strcasecmp (cstr s) (cstr t) = Some 0 \<longleftrightarrow> map lower s = map lower t"
proof (induction s arbitrary: t)
  case Nil
  then show ?case by (cases t) auto
next
  case (Cons a s)
  then show ?case by (cases t) auto
qed

lemma strncasecmp_0_iff:
  "nonul s \<Longrightarrow> nonul t \<Longrightarrow>
     strncasecmp (cstr s) (cstr t) n = Some 0 \<longleftrightarrow> map lower (take n s) = map lower (take n t)"
proof (induction s arbitrary: t n)
  case Nil
  then show ?case by (cases t; cases n) auto
next
  case (Cons a s)
  then show ?case by (cases t; cases n) auto
qed

section \<open>Substring search\<close>

lemma strstr_loop_eq:
  "m \<le> length needle \<Longrightarrow> m + k \<le> Suc (length p) \<Longrightarrow>
     strstr_loop p needle m i k =
       Some (if \<exists>j<k. take m (drop j p) = take m needle
             then Some (i + (LEAST j. take m (drop j p) = take m needle)) else None)"
proof (induction k arbitrary: p i)
  case 0
  then show ?case by simp
next
  case (Suc k)
  have m: "memcmp p needle m = Some 0 \<longleftrightarrow> take m p = take m needle"
    and s: "memcmp p needle m \<noteq> None"
    using Suc.prems by (simp_all add: memcmp_0_iff memcmp_eq)
  show ?case
  proof (cases "take m p = take m needle")
    case True
    then have "(LEAST j. take m (drop j p) = take m needle) = 0"
      by (intro Least_equality) auto
    with True m show ?thesis by auto
  next
    case False
    have tl: "take m (drop j (tl p)) = take m (drop (Suc j) p)" for j
      by (simp add: drop_Suc)
    have ex: "(\<exists>j<Suc k. take m (drop j p) = take m needle) \<longleftrightarrow>
        (\<exists>j<k. take m (drop (Suc j) p) = take m needle)"
      using False by (metis Suc_less_eq drop0 less_Suc_eq_0_disj)
    have least: "(LEAST j. take m (drop j p) = take m needle) =
        Suc (LEAST j. take m (drop (Suc j) p) = take m needle)"
      if "take m (drop (Suc j) p) = take m needle" for j
      using False that by (intro Least_Suc) auto
    have "strstr_loop p needle m i (Suc k) = strstr_loop (tl p) needle m (Suc i) k"
      using m s False by (auto split: option.splits)
    also have "\<dots> = Some (if \<exists>j<k. take m (drop (Suc j) p) = take m needle
        then Some (Suc i + (LEAST j. take m (drop (Suc j) p) = take m needle)) else None)"
      using Suc.IH [of "tl p" "Suc i"] Suc.prems by (simp add: tl)
    finally show ?thesis
      using least by (auto simp: ex)
  qed
qed

text \<open>\<open>occurs h n i\<close>: the bytes of \<open>n\<close> stand in \<open>h\<close> from offset \<open>i\<close> on.\<close>

definition occurs :: "byte list \<Rightarrow> byte list \<Rightarrow> nat \<Rightarrow> bool" where
  "occurs h n i \<longleftrightarrow> i + length n \<le> length h \<and> take (length n) (drop i h) = n"

lemma strstr_cstr:
  assumes "nonul h" and "nonul n"
  shows "strstr (cstr h) (cstr n) =
    Some (if \<exists>i. occurs h n i then Some (LEAST i. occurs h n i) else None)"
proof (cases n)
  case Nil
  have "(LEAST i. occurs h [] i) = 0" and "occurs h [] 0"
    by (auto simp: occurs_def intro: Least_equality)
  with Nil show ?thesis by (auto simp: strstr_def)
next
  case (Cons c n')
  let ?m = "length n"
  have "c \<noteq> 0" using assms Cons by simp
  show ?thesis
  proof (cases "?m > length h")
    case True
    then have "\<not> occurs h n i" for i by (simp add: occurs_def)
    with True Cons \<open>c \<noteq> 0\<close> assms show ?thesis
      by (auto simp: strstr_def)
  next
    case False
    let ?k = "length h - ?m + 1"
    have occ: "occurs h n i \<longleftrightarrow> i < ?k \<and> take ?m (drop i (cstr h)) = take ?m (cstr n)" for i
      using False by (auto simp: occurs_def cstr_def)
    let ?Q = "\<lambda>i. take ?m (drop i (cstr h)) = take ?m (cstr n)"
    have least: "(LEAST i. i < ?k \<and> ?Q i) = (LEAST i. ?Q i)" if "j < ?k" "?Q j" for j
    proof (rule Least_equality)
      have "(LEAST i. ?Q i) \<le> j" using that(2) by (rule Least_le)
      moreover have "?Q (LEAST i. ?Q i)" using that(2) by (rule LeastI)
      ultimately show "(LEAST i. ?Q i) < ?k \<and> ?Q (LEAST i. ?Q i)" using \<open>j < ?k\<close> by simp
    qed (auto intro: Least_le)
    have "strstr (cstr h) (cstr n) = strstr_loop (cstr h) (cstr n) ?m 0 ?k"
      using False Cons \<open>c \<noteq> 0\<close> assms by (simp add: strstr_def del: strstr_loop.simps)
    also have "\<dots> = Some (if \<exists>j<?k. ?Q j then Some (LEAST j. ?Q j) else None)"
      using False by (subst strstr_loop_eq) (auto simp del: strstr_loop.simps)
    finally have "strstr (cstr h) (cstr n) = Some (if \<exists>j<?k. ?Q j then Some (LEAST j. ?Q j) else None)" .
    moreover have "occurs h n = (\<lambda>i. i < ?k \<and> ?Q i)"
      by (simp add: fun_eq_iff occ)
    ultimately show ?thesis
      using least by (auto simp del: drop_cstr)
  qed
qed

section \<open>Properties\<close>

text \<open>
  C36. On terminated strings \<open>strstr\<close> does not fault and returns the first offset at which
  the needle occurs in the haystack, and a null pointer exactly when it occurs nowhere.
\<close>

theorem strstr_first_occurrence:
  assumes "nonul h" and "nonul n"
  shows "\<exists>r. strstr (cstr h) (cstr n) = Some r \<and>
    (case r of
       None \<Rightarrow> \<forall>i. \<not> occurs h n i
     | Some i \<Rightarrow> occurs h n i \<and> (\<forall>j<i. \<not> occurs h n j))"
  using strstr_cstr [OF assms] by (auto intro: LeastI dest: not_less_Least)

theorem strstr_first_occurrence_witness:
  "strstr (cstr (bytes ''banana'')) (cstr (bytes ''ana'')) = Some (Some 1) \<and>
   (\<exists>r. strstr (cstr (bytes ''banana'')) (cstr (bytes ''ana'')) = Some r \<and>
    (case r of
       None \<Rightarrow> \<forall>i. \<not> occurs (bytes ''banana'') (bytes ''ana'') i
     | Some i \<Rightarrow> occurs (bytes ''banana'') (bytes ''ana'') i \<and>
         (\<forall>j<i. \<not> occurs (bytes ''banana'') (bytes ''ana'') j)))"
  by (intro conjI strstr_first_occurrence) (code_simp, simp_all)

text \<open>
  \<open>strcmp\<close> and \<open>strncmp\<close> of terminated strings order them as their byte sequences
  (of \<open>strncmp\<close>, the first \<open>n\<close> bytes) are ordered lexicographically, bytes unsigned; the
  result is 0 exactly on equal strings and nothing beyond the terminators is read.
\<close>

theorem strcmp_lexicographic:
  assumes "nonul s" and "nonul t"
  shows "(\<exists>d. strcmp (cstr s) (cstr t) = Some d \<and> (d < 0 \<longleftrightarrow> s < t) \<and> (d = 0 \<longleftrightarrow> s = t)) \<and>
    (\<exists>d. strncmp (cstr s) (cstr t) n = Some d \<and>
       (d < 0 \<longleftrightarrow> take n s < take n t) \<and> (d = 0 \<longleftrightarrow> take n s = take n t))"
  using strcmp_append [OF assms, of "[]" "[]"] strncmp_append [OF assms, of "[]" "[]" n]
  by (simp add: cstr_def)

theorem strcmp_lexicographic_witness:
  "(\<exists>d. strcmp (cstr [200, 1]) (cstr [200]) = Some d \<and>
      (d < 0 \<longleftrightarrow> [200, 1] < [200 :: byte]) \<and> (d = 0 \<longleftrightarrow> [200, 1] = [200 :: byte])) \<and>
   (\<exists>d. strncmp (cstr [200, 1]) (cstr [200]) 1 = Some d \<and>
      (d < 0 \<longleftrightarrow> take 1 [200, 1] < take 1 [200 :: byte]) \<and>
      (d = 0 \<longleftrightarrow> take 1 [200, 1] = take 1 [200 :: byte]))"
  by (rule strcmp_lexicographic) simp_all

text \<open>
  \<open>strcspn\<close> does not stop at the end of its string: when no byte of the string is in
  the reject set, it reads past the terminating NUL. It faults if nothing follows the string,
  and otherwise returns a count that is larger than the length of the string.
\<close>

theorem strcspn_overruns:
  assumes "nonul s" and "nonul a" and "\<forall>b \<in> set s. b \<notin> set a"
  shows "strcspn (cstr s) (cstr a) = None \<and>
    (\<forall>r n. strcspn (cstr s @ r) (cstr a) = Some n \<longrightarrow> length s < n)"
proof -
  have a: "0 \<notin> set a" using assms(2) by (simp add: nonul_def)
  have "\<not> (\<exists>b \<in> set (cstr s). b \<in> set a)"
    using assms(3) a by (auto simp: cstr_def)
  moreover have "length s < length (takeWhile (\<lambda>b. b \<notin> set a) (cstr s @ r))" for r
    using assms(3) a by (auto simp: cstr_def takeWhile_append)
  ultimately show ?thesis
    using strcspn_append [OF assms(2), of _ "[]"] by (auto simp: cstr_def [of a])
qed

theorem strcspn_overruns_witness:
  "strcspn (cstr (bytes ''ab'')) (cstr (bytes ''='')) = None \<and>
   strcspn (cstr (bytes ''ab'') @ bytes ''c='') (cstr (bytes ''='')) = Some 4 \<and>
   length (bytes ''ab'') < (4 :: nat)"
proof -
  have r: "strcspn (cstr (bytes ''ab'') @ bytes ''c='') (cstr (bytes ''='')) = Some 4"
    by (simp add: strcspn_def)
  have "strcspn (cstr (bytes ''ab'')) (cstr (bytes ''='')) = None \<and>
    (\<forall>r n. strcspn (cstr (bytes ''ab'') @ r) (cstr (bytes ''='')) = Some n \<longrightarrow>
      length (bytes ''ab'') < n)"
    by (rule strcspn_overruns) simp_all
  with r show ?thesis by blast
qed

end
