(* ===== verification/Strings_Write.thy ===== *)
theory Strings_Write
  imports Strings_Read
begin

text \<open>
  The routines of \<open>src/src/libbrkc/string\<close> that write memory. Memory is one list of bytes
  and an address is an index into it, so that overlapping arguments are overlapping ranges
  of addresses; a read or write outside the list is a fault (\<open>None\<close>). The routines return
  the memory they leave; the destination pointer most of them return is their argument.
\<close>

section \<open>Memory\<close>

type_synonym mem = "byte list"

definition load :: "mem \<Rightarrow> nat \<Rightarrow> byte option" where
  "load m p = (if p < length m then Some (m ! p) else None)"

definition store :: "mem \<Rightarrow> nat \<Rightarrow> byte \<Rightarrow> mem option" where
  "store m p b = (if p < length m then Some (m[p := b]) else None)"

section \<open>Block routines\<close>

fun copy_up :: "mem \<Rightarrow> nat \<Rightarrow> nat \<Rightarrow> nat \<Rightarrow> mem option" where
  "copy_up m d s 0 = Some m"
| "copy_up m d s (Suc n) =
     do { b \<leftarrow> load m s; m \<leftarrow> store m d b; copy_up m (Suc d) (Suc s) n }"

fun copy_down :: "mem \<Rightarrow> nat \<Rightarrow> nat \<Rightarrow> nat \<Rightarrow> mem option" where
  "copy_down m d s 0 = Some m"
| "copy_down m d s (Suc i) =
     do { b \<leftarrow> load m (s + i); m \<leftarrow> store m (d + i) b; copy_down m d s i }"

definition memcpy :: "mem \<Rightarrow> nat \<Rightarrow> nat \<Rightarrow> nat \<Rightarrow> mem option" where
  "memcpy m dst src n = copy_up m dst src n"

definition memmove :: "mem \<Rightarrow> nat \<Rightarrow> nat \<Rightarrow> nat \<Rightarrow> mem option" where
  "memmove m d s n =
     (if d < s then copy_up m d s n
      else if d > s then copy_down m d s n
      else Some m)"

fun memset_loop :: "mem \<Rightarrow> nat \<Rightarrow> byte \<Rightarrow> nat \<Rightarrow> mem option" where
  "memset_loop m p uc 0 = Some m"
| "memset_loop m p uc (Suc n) = do { m \<leftarrow> store m p uc; memset_loop m (Suc p) uc n }"

definition memset :: "mem \<Rightarrow> nat \<Rightarrow> c_int \<Rightarrow> nat \<Rightarrow> mem option" where
  "memset m s c n = memset_loop m s (ucast c) n"

fun memswap :: "mem \<Rightarrow> nat \<Rightarrow> nat \<Rightarrow> nat \<Rightarrow> mem option" where
  "memswap m p1 p2 0 = Some m"
| "memswap m p1 p2 (Suc n) =
     do { t \<leftarrow> load m p1; u \<leftarrow> load m p2; m \<leftarrow> store m p1 u; m \<leftarrow> store m p2 t;
          memswap m (Suc p1) (Suc p2) n }"

section \<open>String routines\<close>

text \<open>
  The copying loop of \<open>strcpy\<close> stops after it has copied a NUL. Every turn reads a higher
  address, so it ends at the latest at the end of memory.
\<close>

function strcpy :: "mem \<Rightarrow> nat \<Rightarrow> nat \<Rightarrow> mem option" where
  "strcpy m dst src =
     (case load m src of
        None \<Rightarrow> None
      | Some b \<Rightarrow>
          (case store m dst b of
             None \<Rightarrow> None
           | Some m' \<Rightarrow> if b \<noteq> 0 then strcpy m' (Suc dst) (Suc src) else Some m'))"
  by pat_completeness auto
termination
  by (relation "measure (\<lambda>(m, dst, src). length m - src)")
    (auto simp: load_def store_def split: if_splits)

declare strcpy.simps [simp del]

definition strcat :: "mem \<Rightarrow> nat \<Rightarrow> nat \<Rightarrow> mem option" where
  "strcat m dst src = do { n \<leftarrow> strlen (drop dst m); strcpy m (dst + n) src }"

fun strncpy_pad :: "mem \<Rightarrow> nat \<Rightarrow> nat \<Rightarrow> mem option" where
  "strncpy_pad m d 0 = Some m"
| "strncpy_pad m d (Suc k) = do { m \<leftarrow> store m d 0; strncpy_pad m (Suc d) k }"

fun strncpy :: "mem \<Rightarrow> nat \<Rightarrow> nat \<Rightarrow> nat \<Rightarrow> mem option" where
  "strncpy m dst src 0 = Some m"
| "strncpy m dst src (Suc n) =
     do { b \<leftarrow> load m src;
          if b \<noteq> 0 then do { m \<leftarrow> store m dst b; strncpy m (Suc dst) (Suc src) n }
          else strncpy_pad m dst (Suc n) }"

text \<open>
  The loop that \<open>strlcpy\<close> and \<open>strncat\<close> share: copy at most \<open>n\<close> bytes, stop before a
  NUL. It returns the memory and the two advanced pointers.
\<close>

fun copy_str :: "mem \<Rightarrow> nat \<Rightarrow> nat \<Rightarrow> nat \<Rightarrow> (mem \<times> nat \<times> nat) option" where
  "copy_str m dst src 0 = Some (m, dst, src)"
| "copy_str m dst src (Suc n) =
     do { b \<leftarrow> load m src;
          if b \<noteq> 0 then do { m \<leftarrow> store m dst b; copy_str m (Suc dst) (Suc src) n }
          else Some (m, dst, src) }"

definition strncat :: "mem \<Rightarrow> nat \<Rightarrow> nat \<Rightarrow> nat \<Rightarrow> mem option" where
  "strncat m dst src n =
     do { len \<leftarrow> strlen (drop dst m);
          (m, d, s) \<leftarrow> copy_str m (dst + len) src n;
          store m d 0 }"

definition strlcpy :: "mem \<Rightarrow> nat \<Rightarrow> nat \<Rightarrow> nat \<Rightarrow> (mem \<times> nat) option" where
  "strlcpy m dst src sz =
     (if sz = 0 then do { n \<leftarrow> strlen (drop src m); Some (m, n) }
      else do {
        (m, d, s) \<leftarrow> copy_str m dst src (sz - 1);
        m \<leftarrow> store m d 0;
        n \<leftarrow> strlen (drop s m);
        Some (m, s - src + n)
      })"

definition strlcat :: "mem \<Rightarrow> nat \<Rightarrow> nat \<Rightarrow> nat \<Rightarrow> (mem \<times> nat) option" where
  "strlcat m dst src sz =
     do { len \<leftarrow> strnlen (drop dst m) sz;
          if len = sz then do { n \<leftarrow> strlen (drop src m); Some (m, sz + n) }
          else do { (m, n) \<leftarrow> strlcpy m (dst + len) src (sz - len); Some (m, len + n) } }"

text \<open>
  \<open>strdup\<close> and \<open>strndup\<close> take the allocator as a parameter: the address \<open>malloc\<close>
  returns for a size, or \<open>None\<close>.
\<close>

definition strdup :: "(nat \<Rightarrow> nat option) \<Rightarrow> mem \<Rightarrow> nat \<Rightarrow> (mem \<times> nat option) option" where
  "strdup malloc m s =
     do { len \<leftarrow> strlen (drop s m);
          case malloc (len + 1) of
            None \<Rightarrow> Some (m, None)
          | Some p \<Rightarrow> do { m \<leftarrow> memcpy m p s (len + 1); Some (m, Some p) } }"

definition strndup :: "(nat \<Rightarrow> nat option) \<Rightarrow> mem \<Rightarrow> nat \<Rightarrow> nat \<Rightarrow> (mem \<times> nat option) option" where
  "strndup malloc m s n =
     do { len \<leftarrow> strnlen (drop s m) n;
          case malloc (len + 1) of
            None \<Rightarrow> Some (m, None)
          | Some p \<Rightarrow> do { m \<leftarrow> memcpy m p s len; m \<leftarrow> store m (p + len) 0; Some (m, Some p) } }"

section \<open>Tokens\<close>

text \<open>
  \<open>strtok\<close> keeps \<open>saved_ptr\<close> between calls and overwrites the delimiter after a token. The
  delimiter string is only read.
\<close>

fun is_delim :: "byte \<Rightarrow> byte list \<Rightarrow> bool option" where
  "is_delim c [] = None"
| "is_delim c (d # ds) =
     (if d \<noteq> 0 then if c = d then Some True else is_delim c ds else Some False)"

text \<open>
  The two scanning loops: advance while the byte is not NUL and is (or is not) a delimiter.
\<close>

function tok_scan :: "bool \<Rightarrow> mem \<Rightarrow> nat \<Rightarrow> byte list \<Rightarrow> nat option" where
  "tok_scan skip m p delim =
     (case load m p of
        None \<Rightarrow> None
      | Some c \<Rightarrow>
          if c \<noteq> 0 then
            (case is_delim c delim of
               None \<Rightarrow> None
             | Some b \<Rightarrow> if b = skip then tok_scan skip m (Suc p) delim else Some p)
          else Some p)"
  by pat_completeness auto
termination
  by (relation "measure (\<lambda>(skip, m, p, delim). length m - p)")
    (auto simp: load_def split: if_splits)

declare tok_scan.simps [simp del]

record tok_state =
  tok_mem :: mem
  saved_ptr :: "nat option"

definition tok_next ::
    "mem \<Rightarrow> nat \<Rightarrow> byte list \<Rightarrow> (mem \<times> nat option \<times> nat option) option" where
  "tok_next m p delim =
     do { start \<leftarrow> tok_scan True m p delim;
          c \<leftarrow> load m start;
          if c = 0 then Some (m, None, None)
          else do {
            end \<leftarrow> tok_scan False m start delim;
            e \<leftarrow> load m end;
            if e \<noteq> 0 then do { m \<leftarrow> store m end 0; Some (m, Some (end + 1), Some start) }
            else Some (m, None, Some start)
          } }"

definition strtok :: "tok_state \<Rightarrow> nat option \<Rightarrow> byte list \<Rightarrow> (tok_state \<times> nat option) option" where
  "strtok st str delim =
     (case (case str of Some p \<Rightarrow> Some p | None \<Rightarrow> saved_ptr st) of
        None \<Rightarrow> Some (st, None)
      | Some p \<Rightarrow> do {
          (m, sv, tok) \<leftarrow> tok_next (tok_mem st) p delim;
          Some (st\<lparr>tok_mem := m, saved_ptr := sv\<rparr>, tok)
        })"

text \<open>
  The loop of a client, such as \<open>strtok(s, d)\<close> followed by \<open>strtok(NULL, d)\<close> until it
  returns a null pointer: the values of the tokens it sees. The fuel bounds the number of
  calls.
\<close>

fun strtok_all :: "nat \<Rightarrow> tok_state \<Rightarrow> nat option \<Rightarrow> byte list \<Rightarrow> byte list list option" where
  "strtok_all 0 st str delim = None"
| "strtok_all (Suc n) st str delim =
     (case strtok st str delim of
        None \<Rightarrow> None
      | Some (st', None) \<Rightarrow> Some []
      | Some (st', Some q) \<Rightarrow>
          map_option ((#) (takeWhile (\<lambda>b. b \<noteq> 0) (drop q (tok_mem st'))))
            (strtok_all n st' None delim))"

section \<open>Blocks of memory\<close>

text \<open>\<open>put m d bs\<close> is memory with the block \<open>bs\<close> written at \<open>d\<close>.\<close>

definition put :: "mem \<Rightarrow> nat \<Rightarrow> byte list \<Rightarrow> mem" where
  "put m d bs = take d m @ bs @ drop (d + length bs) m"

definition block :: "mem \<Rightarrow> nat \<Rightarrow> nat \<Rightarrow> byte list" where
  "block m p n = take n (drop p m)"

lemma length_put [simp]: "d + length bs \<le> length m \<Longrightarrow> length (put m d bs) = length m"
  by (simp add: put_def)

lemma length_block [simp]: "p + n \<le> length m \<Longrightarrow> length (block m p n) = n"
  by (simp add: block_def)

lemma put_Nil [simp]: "put m d [] = m"
  by (simp add: put_def)

lemma nth_put:
  "d + length bs \<le> length m \<Longrightarrow> i < length m \<Longrightarrow>
     put m d bs ! i = (if d \<le> i \<and> i < d + length bs then bs ! (i - d) else m ! i)"
  by (auto simp: put_def nth_append min_def)

lemma nth_block: "p + n \<le> length m \<Longrightarrow> i < n \<Longrightarrow> block m p n ! i = m ! (p + i)"
  by (simp add: block_def)

lemma block_put_same [simp]:
  "d + length bs \<le> length m \<Longrightarrow> n = length bs \<Longrightarrow> block (put m d bs) d n = bs"
  by (simp add: put_def block_def)

lemma block_put_disjoint:
  "d + length bs \<le> length m \<Longrightarrow> p + n \<le> length m \<Longrightarrow> p + n \<le> d \<or> d + length bs \<le> p \<Longrightarrow>
     block (put m d bs) p n = block m p n"
  by (rule nth_equalityI) (auto simp: nth_block nth_put)

lemma put_Cons:
  "d + Suc (length bs) \<le> length m \<Longrightarrow> put (m[d := b]) (Suc d) bs = put m d (b # bs)"
  by (rule nth_equalityI) (auto simp: nth_put nth_list_update nth_Cons')

lemma put_snoc:
  "d + Suc (length bs) \<le> length m \<Longrightarrow>
     put (m[d + length bs := b]) d bs = put m d (bs @ [b])"
  by (rule nth_equalityI) (auto simp: nth_put nth_list_update nth_append)

lemma put_put_append:
  "d + length as + length bs \<le> length m \<Longrightarrow>
     put (put m d as) (d + length as) bs = put m d (as @ bs)"
  by (rule nth_equalityI) (auto simp: nth_put nth_append)

lemma block_Suc: "p + Suc n \<le> length m \<Longrightarrow> block m p (Suc n) = m ! p # block m (Suc p) n"
  by (simp add: block_def Cons_nth_drop_Suc [symmetric])

lemma block_Suc_snoc: "p + Suc n \<le> length m \<Longrightarrow> block m p (Suc n) = block m p n @ [m ! (p + n)]"
  by (simp add: block_def take_Suc_conv_app_nth)

lemma block_update:
  "p + n \<le> length m \<Longrightarrow> d < p \<or> p + n \<le> d \<Longrightarrow> block (m[d := b]) p n = block m p n"
  by (rule nth_equalityI) (auto simp: nth_block)

lemma copy_up_eq:
  "d + n \<le> length m \<Longrightarrow> s + n \<le> length m \<Longrightarrow> d \<le> s \<or> s + n \<le> d \<Longrightarrow>
     copy_up m d s n = Some (put m d (block m s n))"
proof (induction n arbitrary: m d s)
  case 0
  then show ?case by (simp add: block_def)
next
  case (Suc n)
  let ?m = "m[d := m ! s]"
  have "copy_up ?m (Suc d) (Suc s) n = Some (put ?m (Suc d) (block ?m (Suc s) n))"
    using Suc.prems by (intro Suc.IH) auto
  moreover have "block ?m (Suc s) n = block m (Suc s) n"
    using Suc.prems by (intro block_update) auto
  ultimately show ?case
    using Suc.prems by (simp add: load_def store_def block_Suc put_Cons)
qed

lemma copy_down_eq:
  "d + n \<le> length m \<Longrightarrow> s + n \<le> length m \<Longrightarrow> s \<le> d \<or> d + n \<le> s \<Longrightarrow>
     copy_down m d s n = Some (put m d (block m s n))"
proof (induction n arbitrary: m)
  case 0
  then show ?case by (simp add: block_def)
next
  case (Suc n)
  let ?m = "m[d + n := m ! (s + n)]"
  have "copy_down ?m d s n = Some (put ?m d (block ?m s n))"
    using Suc.prems by (intro Suc.IH) auto
  moreover have "block ?m s n = block m s n"
    using Suc.prems by (intro block_update) auto
  moreover have "put ?m d (block m s n) = put m d (block m s n @ [m ! (s + n)])"
    using put_snoc [of d "block m s n" m "m ! (s + n)"] Suc.prems by simp
  ultimately show ?case
    using Suc.prems by (simp add: load_def store_def block_Suc_snoc)
qed

lemma memcpy_eq:
  "d + n \<le> length m \<Longrightarrow> s + n \<le> length m \<Longrightarrow> d \<le> s \<or> s + n \<le> d \<Longrightarrow>
     memcpy m d s n = Some (put m d (block m s n))"
  by (simp add: memcpy_def copy_up_eq)

lemma put_block_same: "d + n \<le> length m \<Longrightarrow> put m d (block m d n) = m"
  by (rule nth_equalityI) (auto simp: nth_put nth_block)

lemma memset_loop_eq:
  "p + n \<le> length m \<Longrightarrow> memset_loop m p uc n = Some (put m p (replicate n uc))"
  by (induction n arbitrary: m p) (auto simp: store_def put_Cons)

lemma memswap_eq:
  "p1 + n \<le> length m \<Longrightarrow> p2 + n \<le> length m \<Longrightarrow> p1 + n \<le> p2 \<or> p2 + n \<le> p1 \<Longrightarrow>
     memswap m p1 p2 n = Some (put (put m p1 (block m p2 n)) p2 (block m p1 n))"
proof (induction n arbitrary: m p1 p2)
  case 0
  then show ?case by (simp add: block_def)
next
  case (Suc n)
  let ?m = "m[p1 := m ! p2, p2 := m ! p1]"
  have b: "block ?m (Suc p1) n = block m (Suc p1) n" "block ?m (Suc p2) n = block m (Suc p2) n"
    using Suc.prems by (auto simp: block_update)
  have "memswap ?m (Suc p1) (Suc p2) n =
      Some (put (put ?m (Suc p1) (block ?m (Suc p2) n)) (Suc p2) (block ?m (Suc p1) n))"
    using Suc.prems by (intro Suc.IH) auto
  moreover have "put (put ?m (Suc p1) (block m (Suc p2) n)) (Suc p2) (block m (Suc p1) n) =
      put (put m p1 (m ! p2 # block m (Suc p2) n)) p2 (m ! p1 # block m (Suc p1) n)"
    using Suc.prems by (intro nth_equalityI) (auto simp: nth_put nth_list_update nth_Cons')
  ultimately show ?case
    using Suc.prems by (simp add: load_def store_def block_Suc b)
qed

section \<open>Strings in memory\<close>

definition str_at :: "mem \<Rightarrow> nat \<Rightarrow> byte list \<Rightarrow> bool" where
  "str_at m p s \<longleftrightarrow> nonul s \<and> p + length s < length m \<and> block m p (Suc (length s)) = cstr s"

lemma str_at_drop: "str_at m p s \<Longrightarrow> \<exists>r. drop p m = s @ 0 # r"
proof -
  assume "str_at m p s"
  then have "take (Suc (length s)) (drop p m) = s @ [0]"
    by (simp add: str_at_def block_def cstr_def)
  then have "drop p m = (s @ [0]) @ drop (Suc (length s)) (drop p m)"
    by (metis append_take_drop_id)
  then show ?thesis by simp
qed

lemma str_at_strlen [simp]: "str_at m p s \<Longrightarrow> strlen (drop p m) = Some (length s)"
  using str_at_drop [of m p s] by (auto simp: str_at_def strlen_append)

lemma str_at_strnlen: "str_at m p s \<Longrightarrow> strnlen (drop p m) n = Some (min n (length s))"
  using str_at_drop [of m p s] by (auto simp: str_at_def strnlen_append)

lemma str_at_Nil [simp]: "str_at m p [] \<longleftrightarrow> p < length m \<and> m ! p = 0"
  by (auto simp: str_at_def block_Suc) (simp_all add: block_def)

lemma str_at_Cons [simp]:
  "str_at m p (c # s) \<longleftrightarrow> p < length m \<and> c \<noteq> 0 \<and> m ! p = c \<and> str_at m (Suc p) s"
  by (auto simp: str_at_def block_Suc)

lemma str_at_suffix: "str_at m p s \<Longrightarrow> k \<le> length s \<Longrightarrow> str_at m (p + k) (drop k s)"
proof (induction k arbitrary: p s)
  case (Suc k)
  then obtain c t where "s = c # t" by (cases s) auto
  with Suc.prems Suc.IH [of "Suc p" t] show ?case by simp
qed simp

lemma str_at_put_disjoint:
  "str_at m p s \<Longrightarrow> d + length bs \<le> length m \<Longrightarrow> d + length bs \<le> p \<or> p + length s < d \<Longrightarrow>
     str_at (put m d bs) p s"
  using block_put_disjoint [of d bs m p "Suc (length s)"] by (auto simp: str_at_def)

lemma str_at_put:
  "nonul s \<Longrightarrow> p + length s + length r < length m \<Longrightarrow> str_at (put m p (s @ 0 # r)) p s"
  by (auto simp: str_at_def cstr_def intro!: nth_equalityI)
    (auto simp: nth_block nth_put nth_append less_Suc_eq)

lemma copy_str_eq:
  "str_at m src s \<Longrightarrow> dst + min n (length s) \<le> length m \<Longrightarrow>
     dst + min n (length s) \<le> src \<or> src + length s < dst \<Longrightarrow>
     copy_str m dst src n =
       Some (put m dst (take n s), dst + min n (length s), src + min n (length s))"
proof (induction n arbitrary: m dst src s)
  case 0
  then show ?case by simp
next
  case (Suc n)
  show ?case
  proof (cases s)
    case Nil
    with Suc.prems show ?thesis by (simp add: load_def)
  next
    case (Cons c t)
    let ?m = "m[dst := c]"
    have "put m dst [c] = ?m"
      using put_Cons [of dst "[]" m c] Suc.prems Cons by simp
    then have "str_at ?m (Suc src) t"
      using Suc.prems Cons str_at_put_disjoint [of m "Suc src" t dst "[c]"] by auto
    then have "copy_str ?m (Suc dst) (Suc src) n =
        Some (put ?m (Suc dst) (take n t), Suc dst + min n (length t), Suc src + min n (length t))"
      using Suc.prems Cons by (intro Suc.IH) auto
    then show ?thesis
      using Suc.prems Cons by (simp add: load_def store_def put_Cons)
  qed
qed

lemma store_put: "d + length bs < length m \<Longrightarrow> store (put m d bs) (d + length bs) b = Some (put m d (bs @ [b]))"
  using put_put_append [of d bs "[b]" m] put_Cons [of "d + length bs" "[]" "put m d bs" b]
  by (simp add: store_def)

lemma strlcpy_eq:
  assumes "str_at m src s" and "0 < n" and k: "k = min (n - 1) (length s)"
    and "dst + k < length m" and "dst + k < src \<or> src + length s < dst"
  shows "strlcpy m dst src n = Some (put m dst (cstr (take (n - 1) s)), length s)"
proof -
  have c: "copy_str m dst src (n - 1) = Some (put m dst (take (n - 1) s), dst + k, src + k)"
    unfolding k using assms by (intro copy_str_eq) auto
  have st: "store (put m dst (take (n - 1) s)) (dst + k) 0 = Some (put m dst (cstr (take (n - 1) s)))"
    using store_put [of dst "take (n - 1) s" m 0] assms(4) unfolding k
    by (simp add: cstr_def min.commute)
  have "str_at (put m dst (cstr (take (n - 1) s))) (src + k) (drop k s)"
    using assms by (intro str_at_suffix str_at_put_disjoint) auto
  then have "strlen (drop (src + k) (put m dst (cstr (take (n - 1) s)))) = Some (length s - k)"
    by simp
  then show ?thesis
    using c st k \<open>0 < n\<close> by (simp add: strlcpy_def)
qed

lemma strcpy_eq:
  "str_at m src s \<Longrightarrow> dst + length s < length m \<Longrightarrow> dst + length s < src \<or> src + length s < dst \<Longrightarrow>
     strcpy m dst src = Some (put m dst (cstr s))"
proof (induction s arbitrary: m dst src)
  case Nil
  then show ?case
    using put_Cons [of dst "[]" m 0] by (simp add: strcpy.simps [of m] load_def store_def)
next
  case (Cons c t)
  let ?m = "m[dst := c]"
  have "put m dst [c] = ?m"
    using put_Cons [of dst "[]" m c] Cons.prems by simp
  then have "str_at ?m (Suc src) t"
    using Cons.prems str_at_put_disjoint [of m "Suc src" t dst "[c]"] by auto
  then have "strcpy ?m (Suc dst) (Suc src) = Some (put ?m (Suc dst) (cstr t))"
    using Cons.prems by (intro Cons.IH) auto
  then show ?case
    using Cons.prems by (simp add: strcpy.simps [of m] load_def store_def put_Cons)
qed

lemma put_append_at:
  "p + k + length bs \<le> length m \<Longrightarrow> put m (p + k) bs = put m p (block m p k @ bs)"
  by (rule nth_equalityI) (auto simp: nth_put nth_append nth_block)

lemma str_at_block: "str_at m p s \<Longrightarrow> block m p (length s) = s"
  using str_at_drop [of m p s] by (auto simp: block_def)

lemma strcat_eq:
  assumes "str_at m dst s" and "str_at m src t" and "dst + length s + length t < length m"
    and "dst + length s + length t < src \<or> src + length t < dst"
  shows "strcat m dst src = Some (put m dst (cstr (s @ t)))"
proof -
  have "strcpy m (dst + length s) src = Some (put m (dst + length s) (cstr t))"
    using assms by (intro strcpy_eq) auto
  then show ?thesis
    using assms put_append_at [of dst "length s" "cstr t" m]
    by (simp add: strcat_def str_at_block) (simp add: cstr_def)
qed

lemma strlcat_eq:
  assumes "str_at m dst s" and "str_at m src t" and n: "length s < n"
    and k: "k = length s + min (n - length s - 1) (length t)"
    and "dst + k < length m" and "dst + k < src \<or> src + length t < dst"
  shows "strlcat m dst src n =
    Some (put m dst (cstr (s @ take (n - length s - 1) t)), length s + length t)"
proof -
  have "strlcpy m (dst + length s) src (n - length s) =
      Some (put m (dst + length s) (cstr (take (n - length s - 1) t)), length t)"
    using assms by (intro strlcpy_eq [OF assms(2)]) auto
  moreover have "put m (dst + length s) (cstr (take (n - length s - 1) t)) =
      put m dst (cstr (s @ take (n - length s - 1) t))"
    using assms put_append_at [of dst "length s" "cstr (take (n - length s - 1) t)" m]
    by (simp add: str_at_block) (simp add: cstr_def min.commute)
  ultimately show ?thesis
    using assms(1) n by (simp add: strlcat_def str_at_strnlen)
qed

lemma strdup_eq:
  assumes "str_at m s t" and "malloc (Suc (length t)) = Some p"
    and "p + length t < length m" and "p + length t < s \<or> s + length t < p"
  shows "strdup malloc m s = Some (put m p (cstr t), Some p)"
proof -
  have "memcpy m p s (Suc (length t)) = Some (put m p (block m s (Suc (length t))))"
    using assms by (intro memcpy_eq) (auto simp: str_at_def)
  then show ?thesis
    using assms by (simp add: strdup_def) (simp add: str_at_def)
qed

section \<open>The tokens of a string\<close>

text \<open>Reference: the maximal non-empty runs of bytes that are not delimiters.\<close>

function tokens :: "byte set \<Rightarrow> byte list \<Rightarrow> byte list list" where
  "tokens D s =
     (let t = dropWhile (\<lambda>b. b \<in> D) s
      in if t = [] then []
         else takeWhile (\<lambda>b. b \<notin> D) t # tokens D (drop 1 (dropWhile (\<lambda>b. b \<notin> D) t)))"
  by pat_completeness auto
termination
proof (relation "measure (\<lambda>(D, s). length s)", goal_cases)
  case (2 D s t)
  have "length (dropWhile (\<lambda>b. b \<notin> D) t) \<le> length t" and "length t \<le> length s"
    using 2(1) by (simp_all add: length_dropWhile_le)
  with 2(2) show ?case
    by (cases t) auto
qed simp

declare tokens.simps [simp del]

lemma is_delim_append: "nonul d \<Longrightarrow> c \<noteq> 0 \<Longrightarrow> is_delim c (d @ 0 # r) = Some (c \<in> set d)"
  by (induction d) auto

lemma tok_scan_eq:
  "str_at m p s \<Longrightarrow> nonul d \<Longrightarrow>
     tok_scan skip m p (cstr d) = Some (p + length (takeWhile (\<lambda>b. (b \<in> set d) = skip) s))"
proof (induction s arbitrary: p)
  case Nil
  then show ?case by (simp add: tok_scan.simps [of skip m p] load_def)
next
  case (Cons c s)
  then show ?case
    using is_delim_append [of d c "[]"]
    by (auto simp: tok_scan.simps [of skip m p] load_def cstr_def)
qed

lemma str_at_append_le: "str_at m p (s @ t) \<Longrightarrow> str_at m (p + length s) t"
  using str_at_suffix [of m p "s @ t" "length s"] by simp

lemma str_at_nth: "str_at m p (s @ t) \<Longrightarrow> load m (p + length s) = Some (if t = [] then 0 else hd t)"
  using str_at_append_le [of m p s t] by (cases t) (auto simp: load_def)

lemma str_at_cut:
  "str_at m q (w @ c # v) \<Longrightarrow>
     str_at (m[q + length w := 0]) q w \<and> str_at (m[q + length w := 0]) (Suc (q + length w)) v"
proof -
  assume a: "str_at m q (w @ c # v)"
  have p: "put m (q + length w) [0] = m[q + length w := 0]"
    using put_Cons [of "q + length w" "[]" m 0] a by (simp add: str_at_def)
  have "str_at m (Suc (q + length w)) v"
    using str_at_append_le [of m q "w @ [c]" v] a by simp
  then have "str_at (m[q + length w := 0]) (Suc (q + length w)) v"
    using str_at_put_disjoint [of m _ v "q + length w" "[0]"] a p by (auto simp: str_at_def)
  moreover have "m[q + length w := 0] = put m q (w @ [0])"
    using put_append_at [of q "length w" "[0]" m] p a str_at_drop [OF a]
    by (auto simp: str_at_def block_def)
  ultimately show ?thesis
    using str_at_put [of w q "[]" m] a by (auto simp: str_at_def)
qed

lemma str_at_value: "str_at m q w \<Longrightarrow> takeWhile (\<lambda>b. b \<noteq> 0) (drop q m) = w"
  using str_at_drop [of m q w] by (auto simp: str_at_def nonul_def takeWhile_append)

text \<open>
  One call: it returns the next token, terminated in place, and remembers where to go on.
\<close>

lemma tok_next_eq:
  assumes "str_at m p s" and "nonul d"
  defines "D \<equiv> \<lambda>b. b \<in> set d"
  defines "t \<equiv> dropWhile D s" and "q \<equiv> p + length (takeWhile D s)"
  defines "w \<equiv> takeWhile (\<lambda>b. \<not> D b) t" and "u \<equiv> dropWhile (\<lambda>b. \<not> D b) t"
  shows "str_at m q (w @ u)"
    and "tok_next m p (cstr d) =
      Some (if t = [] then (m, None, None)
            else if u = [] then (m, None, Some q)
            else (m[q + length w := 0], Some (Suc (q + length w)), Some q))"
proof -
  have "str_at m p (takeWhile D s @ t)"
    using assms(1) by (simp add: t_def)
  then have q: "str_at m q t" and ldq: "load m q = Some (if t = [] then 0 else hd t)"
    unfolding q_def by (rule str_at_append_le, rule str_at_nth)
  show wu: "str_at m q (w @ u)"
    using q by (simp add: w_def u_def)
  have scan1: "tok_scan True m p (cstr d) = Some q"
    using tok_scan_eq [OF assms(1,2), of True] by (simp add: q_def D_def)
  have scan2: "tok_scan False m q (cstr d) = Some (q + length w)"
    using tok_scan_eq [OF q assms(2), of False] by (simp add: w_def D_def)
  have lde: "load m (q + length w) = Some (if u = [] then 0 else hd u)"
    using wu by (rule str_at_nth)
  have "t \<noteq> [] \<Longrightarrow> hd t \<noteq> 0" "u \<noteq> [] \<Longrightarrow> hd u \<noteq> 0"
    using q wu by (metis hd_in_set nonul_append nonul_def str_at_def)+
  then show "tok_next m p (cstr d) =
      Some (if t = [] then (m, None, None)
            else if u = [] then (m, None, Some q)
            else (m[q + length w := 0], Some (Suc (q + length w)), Some q))"
    using scan1 scan2 ldq lde by (auto simp: tok_next_def store_def load_def split: if_splits)
qed

lemma strtok_all_tokens:
  "str_at (tok_mem st) p s \<Longrightarrow> nonul d \<Longrightarrow> length s < n \<Longrightarrow>
     (case str of Some q \<Rightarrow> Some q | None \<Rightarrow> saved_ptr st) = Some p \<Longrightarrow>
     strtok_all (Suc n) st str (cstr d) = Some (tokens (set d) s)"
proof (induction n arbitrary: st str p s)
  case 0
  then show ?case by simp
next
  case (Suc n)
  define D where "D \<equiv> \<lambda>b. b \<in> set d"
  define t where "t \<equiv> dropWhile D s"
  define q where "q \<equiv> p + length (takeWhile D s)"
  define w where "w \<equiv> takeWhile (\<lambda>b. \<not> D b) t"
  define u where "u \<equiv> dropWhile (\<lambda>b. \<not> D b) t"
  let ?m = "tok_mem st"
  note defs = D_def t_def q_def w_def u_def
  have wu: "str_at ?m q (w @ u)" and nxt: "tok_next ?m p (cstr d) =
      Some (if t = [] then (?m, None, None)
            else if u = [] then (?m, None, Some q)
            else (?m[q + length w := 0], Some (Suc (q + length w)), Some q))"
    unfolding defs using tok_next_eq [OF Suc.prems(1,2)] by blast+
  have tk: "tokens (set d) s = (if t = [] then [] else w # tokens (set d) (drop 1 u))"
    by (subst tokens.simps) (simp add: defs Let_def)
  have st: "strtok st str (cstr d) = map_option (\<lambda>(m, sv, tok). (st\<lparr>tok_mem := m, saved_ptr := sv\<rparr>, tok))
      (tok_next ?m p (cstr d))"
    unfolding strtok_def Suc.prems(4) by (simp add: nxt)
  consider "t = []" | "t \<noteq> []" "u = []" | c v where "t \<noteq> []" "u = c # v"
    by (cases t; cases u) auto
  then show ?case
  proof cases
    case 1
    then show ?thesis by (simp add: st nxt tk)
  next
    case 2
    have "tokens (set d) [] = []" by (subst tokens.simps) simp
    moreover have "strtok_all (Suc n) (st\<lparr>tok_mem := ?m, saved_ptr := None\<rparr>) None (cstr d) = Some []"
      by (simp add: strtok_def)
    ultimately show ?thesis
      using 2 wu str_at_value [of ?m q w] by (simp add: st nxt tk)
  next
    case (3 c v)
    let ?st = "st\<lparr>tok_mem := ?m[q + length w := 0], saved_ptr := Some (Suc (q + length w))\<rparr>"
    have cut: "str_at (tok_mem ?st) q w" "str_at (tok_mem ?st) (Suc (q + length w)) v"
      using str_at_cut [of ?m q w c v] wu 3 by simp_all
    have "length v < length s"
    proof -
      have "length u \<le> length t" "length t \<le> length s"
        unfolding u_def t_def by (rule length_dropWhile_le)+
      moreover have "length v < length u" using 3 by simp
      ultimately show ?thesis by linarith
    qed
    then have "strtok_all (Suc n) ?st None (cstr d) = Some (tokens (set d) v)"
      using cut Suc.prems by (intro Suc.IH) auto
    then show ?thesis
      using 3 str_at_value [OF cut(1)] by (simp add: st nxt tk del: strtok_all.simps(2))
        (simp add: st nxt)
  qed
qed

section \<open>Properties\<close>

text \<open>
  \<open>memmove\<close> copies a block to any place of memory, also when the two blocks overlap:
  the destination then holds the bytes the source held before the call, and the rest of memory
  is unchanged.
\<close>

theorem memmove_overlap:
  assumes "d + n \<le> length m" and "s + n \<le> length m"
  shows "\<exists>m'. memmove m d s n = Some m' \<and> length m' = length m \<and>
    block m' d n = block m s n \<and>
    (\<forall>i < length m. i < d \<or> d + n \<le> i \<longrightarrow> m' ! i = m ! i)"
proof -
  have "memmove m d s n = Some (put m d (block m s n))"
    using assms copy_up_eq [of d n m s] copy_down_eq [of d n m s] put_block_same [of d n m]
    by (cases "d = s") (auto simp: memmove_def)
  then show ?thesis
    using assms by (auto simp: nth_put)
qed

theorem memmove_overlap_witness:
  "memmove [1, 2, 3, 4, 5] 1 0 3 = Some [1, 1, 2, 3, 5] \<and>
   (\<exists>m'. memmove [1, 2, 3, 4, 5] 1 0 3 = Some m' \<and> length m' = length [1, 2, 3, 4, 5 :: byte] \<and>
    block m' 1 3 = block [1, 2, 3, 4, 5] 0 3 \<and>
    (\<forall>i < length [1, 2, 3, 4, 5 :: byte]. i < 1 \<or> 1 + 3 \<le> i \<longrightarrow> m' ! i = [1, 2, 3, 4, 5] ! i))"
proof -
  have "memmove [1, 2, 3, 4, 5] 1 0 3 = Some [1, 1, 2, 3, 5 :: byte]"
    by (simp add: memmove_def numeral_eq_Suc load_def store_def)
  moreover have "1 + 3 \<le> length [1, 2, 3, 4, 5 :: byte]" "0 + 3 \<le> length [1, 2, 3, 4, 5 :: byte]"
    by simp_all
  ultimately show ?thesis
    using memmove_overlap by blast
qed

text \<open>
  \<open>strlcpy\<close> into a buffer of \<open>n > 0\<close> bytes always terminates the buffer, copies as
  much of the string as fits, writes nowhere else and returns the length of the source, so that
  truncation is detected by a result of at least \<open>n\<close>.
\<close>

theorem strlcpy_truncates:
  assumes "str_at m src s" and "0 < n" and "dst + n \<le> length m"
    and "dst + n \<le> src \<or> src + length s < dst"
  shows "\<exists>m'. strlcpy m dst src n = Some (m', length s) \<and> length m' = length m \<and>
    str_at m' dst (take (n - 1) s) \<and>
    (\<forall>i < length m. i < dst \<or> dst + n \<le> i \<longrightarrow> m' ! i = m ! i)"
proof -
  let ?t = "take (n - 1) s"
  have len: "dst + length (cstr ?t) \<le> length m" "length (cstr ?t) \<le> n"
    using assms(2,3) by simp_all
  have "strlcpy m dst src n = Some (put m dst (cstr ?t), length s)"
    using assms by (intro strlcpy_eq [OF assms(1,2) refl]) auto
  moreover have "str_at (put m dst (cstr ?t)) dst ?t"
    using str_at_put [of ?t dst "[]" m] assms(1) len by (simp add: str_at_def cstr_def)
  ultimately show ?thesis
    using len by (auto simp: nth_put)
qed

theorem strlcpy_truncates_witness:
  "\<exists>m'. strlcpy [97, 98, 99, 0, 9, 9, 9] 4 0 3 = Some (m', length [97, 98, 99 :: byte]) \<and>
    length m' = length [97, 98, 99, 0, 9, 9, 9 :: byte] \<and> str_at m' 4 (take (3 - 1) [97, 98, 99]) \<and>
    (\<forall>i < length [97, 98, 99, 0, 9, 9, 9 :: byte]. i < 4 \<or> 4 + 3 \<le> i \<longrightarrow>
       m' ! i = [97, 98, 99, 0, 9, 9, 9] ! i)"
  by (rule strlcpy_truncates) simp_all

text \<open>
  C37. Calling \<open>strtok\<close> on a string and then with a null pointer until it returns a null
  pointer yields the maximal non-empty runs of non-delimiter bytes of the string, in order; at
  most \<open>length s + 2\<close> calls are made and none of them faults.
\<close>

theorem strtok_yields_tokens:
  assumes "str_at (tok_mem st) p s" and "nonul d"
  shows "strtok_all (length s + 2) st (Some p) (cstr d) = Some (tokens (set d) s)"
  using strtok_all_tokens [OF assms, of "length s + 1" "Some p"] by simp

theorem strtok_yields_tokens_witness:
  "strtok_all (length [97, 44, 44, 98 :: byte] + 2)
     \<lparr>tok_mem = [97, 44, 44, 98, 0], saved_ptr = None\<rparr> (Some 0) (cstr [44]) =
   Some (tokens (set [44]) [97, 44, 44, 98])"
  by (rule strtok_yields_tokens) simp_all

end
