(* ===== verification/Numconv.thy ===== *)
theory Numconv
  imports Strings_Read
begin

text \<open>
  Number conversion: \<open>src/src/libbrkc/stdlib/atoi.c\<close>, \<open>atol.c\<close>, \<open>atoll.c\<close>,
  \<open>strtol.c\<close>, \<open>abs.c\<close>, \<open>labs.c\<close>, \<open>llabs.c\<close>, and its client
  \<open>src/src/libbrkcmd/parse.c\<close>. A string argument is the list of the bytes from the
  pointer on; an end pointer is the list of the bytes that are left. \<open>errno\<close> is passed and
  returned. Unsigned arithmetic is on words of its width; a signed overflow, undefined in C, is
  \<open>None\<close> like a fault.
\<close>

section \<open>Definitions\<close>

datatype errno = ENONE | ERANGE | EINVAL | ENOMEM

abbreviation c_char :: "byte \<Rightarrow> c_int" where
  "c_char c \<equiv> ucast c"

text \<open>The value of a signed computation in \<open>w\<close> bits, if it does not overflow.\<close>

definition ck_signed :: "nat \<Rightarrow> int \<Rightarrow> int option" where
  "ck_signed w v = (if - (2 ^ (w - 1)) \<le> v \<and> v < 2 ^ (w - 1) then Some v else None)"

definition abs_w :: "nat \<Rightarrow> int \<Rightarrow> int option" where
  "abs_w w n = (if n < 0 then ck_signed w (- n) else Some n)"

definition abs_c :: "int \<Rightarrow> int option" where
  "abs_c n = abs_w 32 n"

definition labs :: "int \<Rightarrow> int option" where
  "labs n = abs_w 64 n"

definition llabs :: "int \<Rightarrow> int option" where
  "llabs n = abs_w 64 n"

fun skip_space :: "byte list \<Rightarrow> byte list option" where
  "skip_space [] = None"
| "skip_space (c # s) = (if isspace (c_char c) then skip_space s else Some (c # s))"

text \<open>An optional sign: whether it was a minus, and what follows.\<close>

fun take_sign :: "byte list \<Rightarrow> (bool \<times> byte list) option" where
  "take_sign [] = None"
| "take_sign (c # s) =
     (if c = chr CHR ''+'' then Some (False, s)
      else if c = chr CHR ''-'' then Some (True, s)
      else Some (False, c # s))"

fun ato_digits :: "nat \<Rightarrow> byte list \<Rightarrow> int \<Rightarrow> int option" where
  "ato_digits w [] acc = None"
| "ato_digits w (c # s) acc =
     (if isdigit (c_char c)
      then do { t \<leftarrow> ck_signed w (acc * 10);
                acc \<leftarrow> ck_signed w (t + (uint c - uint (chr CHR ''0'')));
                ato_digits w s acc }
      else Some acc)"

definition ato_w :: "nat \<Rightarrow> byte list \<Rightarrow> int option" where
  "ato_w w nptr =
     do { s \<leftarrow> skip_space nptr;
          (neg, s) \<leftarrow> take_sign s;
          acc \<leftarrow> ato_digits w s 0;
          if neg then ck_signed w (- acc) else Some acc }"

definition atoi :: "byte list \<Rightarrow> int option" where
  "atoi nptr = ato_w 32 nptr"

definition atol :: "byte list \<Rightarrow> int option" where
  "atol nptr = ato_w 64 nptr"

definition atoll :: "byte list \<Rightarrow> int option" where
  "atoll nptr = ato_w 64 nptr"

definition digit_value :: "byte \<Rightarrow> int \<Rightarrow> int" where
  "digit_value c base =
     (if chr CHR ''0'' \<le> c \<and> c \<le> chr CHR ''9''
      then let val = uint c - uint (chr CHR ''0'') in if val < base then val else -1
      else if chr CHR ''a'' \<le> c \<and> c \<le> chr CHR ''z''
      then let val = uint c - uint (chr CHR ''a'') + 10 in if val < base then val else -1
      else if chr CHR ''A'' \<le> c \<and> c \<le> chr CHR ''Z''
      then let val = uint c - uint (chr CHR ''A'') + 10 in if val < base then val else -1
      else -1)"

definition ULLONG_MAX :: "64 word" where
  "ULLONG_MAX = - 1"

text \<open>The digit loop: the accumulator saturates and \<open>overflow\<close> stays set.\<close>

fun digits_loop :: "byte list \<Rightarrow> int \<Rightarrow> 64 word \<Rightarrow> bool \<Rightarrow> (byte list \<times> 64 word \<times> bool) option" where
  "digits_loop [] base acc overflow = None"
| "digits_loop (c # s) base acc overflow =
     (let digit = digit_value c base
      in if digit \<ge> 0 then
           let (acc, overflow) =
                 (if acc > (ULLONG_MAX - word_of_int digit) div word_of_int base
                  then (ULLONG_MAX, True) else (acc, overflow));
               acc = (if \<not> overflow then acc * word_of_int base + word_of_int digit else acc)
           in digits_loop s base acc overflow
         else Some (c # s, acc, overflow))"

text \<open>The prefix of the number decides the base 0 and is skipped for base 16.\<close>

definition is_x :: "byte list \<Rightarrow> bool option" where
  "is_x s = (case s of [] \<Rightarrow> None | c # _ \<Rightarrow> Some (c = chr CHR ''x'' \<or> c = chr CHR ''X''))"

definition detect_base :: "int \<Rightarrow> byte list \<Rightarrow> (int \<times> byte list) option" where
  "detect_base base s =
     (case s of
        [] \<Rightarrow> None
      | c # t \<Rightarrow>
          if base = 0 then
            if c = chr CHR ''0'' then
              do { x \<leftarrow> is_x t; if x then Some (16, drop 2 s) else Some (8, s) }
            else Some (10, s)
          else if base = 16 then
            if c = chr CHR ''0'' then
              do { x \<leftarrow> is_x t; if x then Some (16, drop 2 s) else Some (16, s) }
            else Some (16, s)
          else Some (base, s))"

text \<open>
  The core returns the value, the sign, the end pointer (which is the position the scan has
  reached, also when no digit was found) and \<open>errno\<close>.
\<close>

definition strtoull_core ::
    "byte list \<Rightarrow> int \<Rightarrow> errno \<Rightarrow> (64 word \<times> bool \<times> byte list \<times> errno) option" where
  "strtoull_core nptr base errno =
     do { s \<leftarrow> skip_space nptr;
          (neg, s) \<leftarrow> take_sign s;
          (detected_base, s) \<leftarrow> detect_base base s;
          (s, acc, overflow) \<leftarrow> digits_loop s detected_base 0 False;
          if overflow then Some (ULLONG_MAX, neg, s, ERANGE) else Some (acc, neg, s, errno) }"

definition LONG_MAX :: int where
  "LONG_MAX = 2 ^ 63 - 1"

definition LONG_MIN :: int where
  "LONG_MIN = - (2 ^ 63)"

definition strtol :: "byte list \<Rightarrow> int \<Rightarrow> errno \<Rightarrow> (int \<times> byte list \<times> errno) option" where
  "strtol nptr base errno =
     do { (val, neg, s, errno) \<leftarrow> strtoull_core nptr base errno;
          if val > word_of_int LONG_MAX then
            if neg \<and> val = word_of_int LONG_MAX + 1 then Some (LONG_MIN, s, ENONE)
            else Some (if neg then LONG_MIN else LONG_MAX, s, ERANGE)
          else Some (if neg then - sint val else sint val, s, errno) }"

definition strtoll :: "byte list \<Rightarrow> int \<Rightarrow> errno \<Rightarrow> (int \<times> byte list \<times> errno) option" where
  "strtoll nptr base errno =
     do { (val, neg, s, errno) \<leftarrow> strtoull_core nptr base errno;
          if val > word_of_int LONG_MAX then
            if neg \<and> val = word_of_int LONG_MAX + 1 then Some (LONG_MIN, s, ENONE)
            else Some (if neg then LONG_MIN else LONG_MAX, s, ERANGE)
          else Some (if neg then - sint val else sint val, s, errno) }"

definition strtoul :: "byte list \<Rightarrow> int \<Rightarrow> errno \<Rightarrow> (64 word \<times> byte list \<times> errno) option" where
  "strtoul nptr base errno =
     do { (val, neg, s, errno) \<leftarrow> strtoull_core nptr base errno;
          if neg then Some (0 - val, s, errno)
          else if val > ULLONG_MAX then Some (ULLONG_MAX, s, ERANGE)
          else Some (val, s, errno) }"

definition strtoull :: "byte list \<Rightarrow> int \<Rightarrow> errno \<Rightarrow> (64 word \<times> byte list \<times> errno) option" where
  "strtoull nptr base errno =
     do { (val, neg, s, errno) \<leftarrow> strtoull_core nptr base errno;
          if neg then Some (0 - val, s, errno) else Some (val, s, errno) }"

section \<open>Command arguments\<close>

text \<open>
  The messages of \<open>brk_cmd_error\<close> are the error values. The \<open>errno\<close> that the conversion
  leaves is not read by the callers and is dropped.
\<close>

datatype parse_error = Invalid_number | Invalid_number_of "byte list" | Out_of_range "byte list"

text \<open>A null or empty argument string.\<close>

definition no_arg :: "byte list option \<Rightarrow> bool" where
  "no_arg s = (case s of None \<Rightarrow> True | Some t \<Rightarrow> take 1 t = [0])"

definition brk_cmd_parse_long ::
    "byte list option \<Rightarrow> int \<Rightarrow> int \<Rightarrow> (parse_error + int) option" where
  "brk_cmd_parse_long s mn mx =
     (if no_arg s then Some (Inl Invalid_number)
      else do {
        (n, end, e) \<leftarrow> strtol (the s) 10 ENONE;
        c \<leftarrow> (case end of [] \<Rightarrow> None | c # _ \<Rightarrow> Some c);
        Some (if c \<noteq> 0 then Inl (Invalid_number_of (the s))
              else if n < mn \<or> n > mx then Inl (Out_of_range (the s))
              else Inr n)
      })"

definition brk_cmd_parse_ulong ::
    "byte list option \<Rightarrow> 64 word \<Rightarrow> 64 word \<Rightarrow> (parse_error + 64 word) option" where
  "brk_cmd_parse_ulong s mn mx =
     (if no_arg s then Some (Inl Invalid_number)
      else do {
        (n, end, e) \<leftarrow> strtoul (the s) 10 ENONE;
        c \<leftarrow> (case end of [] \<Rightarrow> None | c # _ \<Rightarrow> Some c);
        Some (if c \<noteq> 0 then Inl (Invalid_number_of (the s))
              else if n < mn \<or> n > mx then Inl (Out_of_range (the s))
              else Inr n)
      })"

text \<open>The conversion to the kernel's \<open>pid_t\<close> is a parameter.\<close>

definition brk_cmd_parse_pid ::
    "(int \<Rightarrow> 'pid) \<Rightarrow> byte list option \<Rightarrow> (parse_error + 'pid) option" where
  "brk_cmd_parse_pid to_pid s =
     map_option (map_sum id to_pid) (brk_cmd_parse_long s 1 LONG_MAX)"

section \<open>The digit loop saturates\<close>

lemma digit_value_less: "digit_value c b < b \<or> digit_value c b = - 1"
  by (auto simp: digit_value_def Let_def)

lemma digit_value_nonneg_or: "0 \<le> digit_value c b \<or> digit_value c b = - 1"
  by (auto simp: digit_value_def Let_def word_le_def)

text \<open>The number a digit string denotes, and the state of the loop that has read it.\<close>

definition num_step :: "int \<Rightarrow> nat \<Rightarrow> byte \<Rightarrow> nat" where
  "num_step b n c = n * nat b + nat (digit_value c b)"

definition num :: "int \<Rightarrow> byte list \<Rightarrow> nat" where
  "num b ds = foldl (num_step b) 0 ds"

definition digits_of :: "int \<Rightarrow> byte list \<Rightarrow> bool" where
  "digits_of b ds \<longleftrightarrow> (\<forall>c \<in> set ds. 0 \<le> digit_value c b)"

definition sat :: "nat \<Rightarrow> 64 word \<times> bool" where
  "sat n = (if n < 2 ^ 64 then (of_nat n, False) else (ULLONG_MAX, True))"

lemma unat_ULLONG_MAX_minus:
  "d < 2 ^ 64 \<Longrightarrow> unat (ULLONG_MAX - of_nat d) = 2 ^ 64 - 1 - d"
proof -
  assume d: "d < 2 ^ 64"
  then have "unat (of_nat d :: 64 word) = d"
    by (simp add: unat_of_nat_small)
  moreover have "unat ULLONG_MAX = 2 ^ 64 - 1"
    by (simp add: ULLONG_MAX_def unsigned_minus_1_eq_mask mask_eq_exp_minus_1)
  moreover have "of_nat d \<le> ULLONG_MAX"
    by (simp add: ULLONG_MAX_def)
  ultimately show ?thesis
    by (simp add: unat_sub)
qed

lemma overflow_test:
  assumes "n < 2 ^ 64" and "0 < b" and "b \<le> 36" and "d < b"
  shows "(of_nat n :: 64 word) > (ULLONG_MAX - of_nat d) div of_nat b \<longleftrightarrow> 2 ^ 64 \<le> n * b + d"
proof -
  have "unat (of_nat n :: 64 word) = n" "unat (of_nat b :: 64 word) = b"
    using assms by (simp_all add: unat_of_nat_small)
  then have "(of_nat n :: 64 word) > (ULLONG_MAX - of_nat d) div of_nat b \<longleftrightarrow>
      (2 ^ 64 - 1 - d) div b < n"
    using assms by (simp add: word_less_nat_alt unat_div unat_ULLONG_MAX_minus)
  also have "\<dots> \<longleftrightarrow> 2 ^ 64 - 1 - d < n * b"
    using \<open>0 < b\<close> by (rule div_less_iff_less_mult)
  also have "\<dots> \<longleftrightarrow> 2 ^ 64 \<le> n * b + d"
    using assms by auto
  finally show ?thesis .
qed

lemma digits_loop_sat:
  "digits_of b ds \<Longrightarrow> digit_value c b < 0 \<Longrightarrow> 2 \<le> b \<Longrightarrow> b \<le> 36 \<Longrightarrow>
     digits_loop (ds @ c # r) b (fst (sat n)) (snd (sat n)) = Some (c # r, sat (foldl (num_step b) n ds))"
proof (induction ds arbitrary: n)
  case Nil
  then show ?case by (simp add: Let_def)
next
  case (Cons e ds)
  define k where "k = nat b"
  define d where "d = nat (digit_value e b)"
  have e: "digit_value e b = int d" "b = int k" "0 < k" "k \<le> 36" "2 \<le> k"
    using Cons.prems by (auto simp: digits_of_def d_def k_def)
  then have "d < k"
    using digit_value_less [of e b] by simp
  have step: "num_step b n e = n * k + d" for n
    by (simp add: num_step_def d_def k_def)
  let ?tst = "fst (sat n) > (ULLONG_MAX - of_nat d) div of_nat k"
  have upd: "(let (acc, overflow) = (if ?tst then (ULLONG_MAX, True) else sat n);
       acc = (if \<not> overflow then acc * of_nat k + of_nat d else acc) in (acc, overflow)) =
       sat (n * k + d)"
  proof (cases "n < 2 ^ 64")
    case True
    then have "?tst \<longleftrightarrow> 2 ^ 64 \<le> n * k + d"
      using overflow_test [OF True \<open>0 < k\<close> \<open>k \<le> 36\<close> \<open>d < k\<close>] by (simp add: sat_def)
    then show ?thesis
      using True by (auto simp: sat_def Let_def)
  next
    case False
    moreover have "n * 1 \<le> n * k"
      using \<open>0 < k\<close> by (intro mult_le_mono) auto
    ultimately have "\<not> n * k + d < 2 ^ 64" by linarith
    with False show ?thesis
      by (simp add: sat_def Let_def)
  qed
  have "digits_loop ((e # ds) @ c # r) b (fst (sat n)) (snd (sat n)) =
      (let (acc, overflow) = (if ?tst then (ULLONG_MAX, True) else sat n);
           acc = (if \<not> overflow then acc * of_nat k + of_nat d else acc)
       in digits_loop (ds @ c # r) b acc overflow)"
    using e by (simp add: Let_def split: prod.splits if_splits)
  also have "\<dots> = digits_loop (ds @ c # r) b (fst (sat (n * k + d))) (snd (sat (n * k + d)))"
    unfolding upd [symmetric] by (simp add: Let_def split: prod.splits)
  also have "\<dots> = Some (c # r, sat (foldl (num_step b) (n * k + d) ds))"
    using Cons.prems by (intro Cons.IH) (auto simp: digits_of_def)
  finally show ?case by (simp add: step)
qed

section \<open>The shape of a number\<close>

definition spaces :: "byte list \<Rightarrow> bool" where
  "spaces ws \<longleftrightarrow> (\<forall>c \<in> set ws. isspace (c_char c))"

definition sign_neg :: "byte list \<Rightarrow> bool option" where
  "sign_neg sg =
     (if sg = [] \<or> sg = bytes ''+'' then Some False else if sg = bytes ''-'' then Some True else None)"

lemma skip_space_append:
  "spaces ws \<Longrightarrow> \<not> isspace (c_char d) \<Longrightarrow> skip_space (ws @ d # r) = Some (d # r)"
  by (induction ws) (auto simp: spaces_def)

lemma digit_range: "0 \<le> digit_value c b \<Longrightarrow> 48 \<le> c \<and> c \<noteq> 0"
  by (auto simp: digit_value_def Let_def word_le_def split: if_splits)

lemma digit_not_space: "0 \<le> digit_value c b \<Longrightarrow> \<not> isspace (c_char c)"
proof -
  assume "0 \<le> digit_value c b"
  then have "48 \<le> uint c" using digit_range [of c b] by (simp add: word_le_def)
  moreover have "uint (c_char c) = uint c" by (simp add: uint_up_ucast is_up)
  ultimately show ?thesis by (auto simp: isspace_def word_uint_eq_iff)
qed

lemma digit_not_sign: "0 \<le> digit_value c b \<Longrightarrow> c \<noteq> 43 \<and> c \<noteq> 45"
  using digit_range [of c b] by (auto simp: word_le_def)

lemma detect_base_plain:
  "b \<noteq> 0 \<Longrightarrow> (b = 16 \<Longrightarrow> d \<noteq> chr CHR ''0'') \<Longrightarrow> detect_base b (d # r) = Some (b, d # r)"
  by (simp add: detect_base_def)

lemma strtoull_core_eq:
  assumes "spaces ws" and "sign_neg sg = Some neg" and "digits_of b ds" and "ds \<noteq> []"
    and "digit_value c b < 0" and "2 \<le> b" and "b \<le> 36" and "b = 16 \<Longrightarrow> hd ds \<noteq> chr CHR ''0''"
  shows "strtoull_core (ws @ sg @ ds @ c # r) b e =
    Some (fst (sat (num b ds)), neg, c # r, if num b ds < 2 ^ 64 then e else ERANGE)"
proof -
  obtain d ds' where ds: "ds = d # ds'" using \<open>ds \<noteq> []\<close> by (cases ds) auto
  then have d: "0 \<le> digit_value d b" using assms(3) by (simp add: digits_of_def)
  have space43: "\<not> isspace 43" "\<not> isspace 45" by (simp_all add: isspace_def)
  have "do { s \<leftarrow> skip_space (ws @ sg @ ds @ c # r); take_sign s } = Some (neg, ds @ c # r)"
    using assms(1,2) digit_not_space [OF d] digit_not_sign [OF d] space43
    by (auto simp: sign_neg_def ds skip_space_append split: if_splits)
  moreover have "detect_base b (ds @ c # r) = Some (b, ds @ c # r)"
    using assms(6,8) ds by (simp add: detect_base_plain)
  moreover have "digits_loop (ds @ c # r) b 0 False = Some (c # r, sat (num b ds))"
    using digits_loop_sat [OF assms(3,5,6,7), of r 0] by (simp add: sat_def num_def)
  ultimately show ?thesis
    by (auto simp: strtoull_core_def sat_def ULLONG_MAX_def split: bind_splits)
qed

section \<open>Properties\<close>

definition clamp_long :: "int \<Rightarrow> int" where
  "clamp_long x = max LONG_MIN (min LONG_MAX x)"



text \<open>
  \<open>brk_cmd_parse_long\<close> accepts an argument without any digit: a sole sign is parsed as
  the number 0, because the end pointer that \<open>strtol\<close> leaves is past the sign. The same
  holds for a string of white space.
\<close>

theorem parse_long_accepts_sign:
  assumes "spaces ws" and "sign_neg sg = Some neg" and "ws @ sg \<noteq> []"
    and "mn \<le> 0" and "0 \<le> mx"
  shows "brk_cmd_parse_long (Some (cstr (ws @ sg))) mn mx = Some (Inr 0)"
proof -
  have z: "\<not> isspace 0" "\<not> isspace 43" "\<not> isspace 45" by (simp_all add: isspace_def)
  have "do { s \<leftarrow> skip_space (cstr (ws @ sg)); take_sign s } = Some (neg, [0])"
    using assms(1,2) z by (auto simp: sign_neg_def cstr_def skip_space_append split: if_splits)
  moreover have "digit_value 0 10 = - 1" by (simp add: digit_value_def)
  ultimately have "strtoull_core (cstr (ws @ sg)) 10 ENONE = Some (0, neg, [0], ENONE)"
    by (auto simp: strtoull_core_def detect_base_def split: bind_splits)
  then have "strtol (cstr (ws @ sg)) 10 ENONE = Some (0, [0], ENONE)"
    by (simp add: strtol_def LONG_MAX_def)
  moreover have "\<not> no_arg (Some (cstr (ws @ sg)))"
    using assms(1,2,3) z(1)
    by (cases ws) (auto simp: no_arg_def sign_neg_def spaces_def split: if_splits)
  ultimately show ?thesis
    using assms(4,5) by (simp add: brk_cmd_parse_long_def)
qed

theorem parse_long_accepts_sign_witness:
  "brk_cmd_parse_long (Some (cstr ([] @ bytes ''-''))) (- 10) 10 = Some (Inr 0)"
  by (rule parse_long_accepts_sign [where neg = True]) (simp_all add: spaces_def sign_neg_def)

end
