(* ===== verification/Qsort.thy ===== *)
theory Qsort
  imports Strings_Read
begin

text \<open>
  Sorting and searching: \<open>src/src/libbrkc/stdlib/qsort.c\<close> (a heap sort) and
  \<open>bsearch.c\<close>. An array of \<open>nmemb\<close> elements of \<open>size\<close> bytes is the list of its
  elements and \<open>memswap\<close> of two elements exchanges two positions; the comparison function is
  a parameter with an \<open>int\<close> result. What the two routines need of a comparison function is
  the locale \<open>comparator\<close>, interpreted on the comparison by \<open>strcmp\<close>.
\<close>

section \<open>Definitions\<close>

type_synonym 'a compar = "'a \<Rightarrow> 'a \<Rightarrow> int"

definition memswap_elems :: "'a list \<Rightarrow> nat \<Rightarrow> nat \<Rightarrow> 'a list" where
  "memswap_elems base a b = base[a := base ! b, b := base ! a]"

definition largest_child :: "'a compar \<Rightarrow> 'a list \<Rightarrow> nat \<Rightarrow> nat \<Rightarrow> nat" where
  "largest_child compar xs nmemb i =
     (let l = 2 * i + 1; r = 2 * i + 2;
          largest = (if l < nmemb \<and> compar (xs ! l) (xs ! i) > 0 then l else i)
      in if r < nmemb \<and> compar (xs ! r) (xs ! largest) > 0 then r else largest)"

function heapify :: "'a compar \<Rightarrow> 'a list \<Rightarrow> nat \<Rightarrow> nat \<Rightarrow> 'a list" where
  "heapify compar xs nmemb i =
     (let largest = largest_child compar xs nmemb i
      in if largest \<noteq> i then heapify compar (memswap_elems xs i largest) nmemb largest else xs)"
  by pat_completeness auto
termination
  by (relation "measure (\<lambda>(compar, xs, nmemb, i). nmemb - i)")
    (auto simp: largest_child_def Let_def split: if_splits)

declare heapify.simps [simp del]

text \<open>The loop \<open>for (i = nmemb / 2 - 1; i >= 0; --i)\<close>, and the loop that extracts the maxima.\<close>

fun build_heap :: "'a compar \<Rightarrow> 'a list \<Rightarrow> nat \<Rightarrow> nat \<Rightarrow> 'a list" where
  "build_heap compar xs nmemb 0 = xs"
| "build_heap compar xs nmemb (Suc i) = build_heap compar (heapify compar xs nmemb i) nmemb i"

fun extract_loop :: "'a compar \<Rightarrow> 'a list \<Rightarrow> nat \<Rightarrow> 'a list" where
  "extract_loop compar xs 0 = xs"
| "extract_loop compar xs (Suc i) =
     extract_loop compar (heapify compar (memswap_elems xs 0 (Suc i)) (Suc i) 0) i"

text \<open>Null pointers for the array or the function, and short arrays, are left alone.\<close>

definition qsort :: "'a list option \<Rightarrow> 'a compar option \<Rightarrow> 'a list option" where
  "qsort base compar =
     (case (base, compar) of
        (Some xs, Some cmp) \<Rightarrow>
          if length xs \<le> 1 then base
          else Some (extract_loop cmp (build_heap cmp xs (length xs) (length xs div 2))
                       (length xs - 1))
      | _ \<Rightarrow> base)"

function bsearch_loop :: "('k \<Rightarrow> 'a \<Rightarrow> int) \<Rightarrow> 'k \<Rightarrow> 'a list \<Rightarrow> nat \<Rightarrow> nat \<Rightarrow> nat option" where
  "bsearch_loop compar key xs base nmemb =
     (if nmemb > 0 then
        let try = base + nmemb div 2; sign = compar key (xs ! try)
        in if sign < 0 then bsearch_loop compar key xs base (nmemb div 2)
           else if sign > 0 then bsearch_loop compar key xs (try + 1) (nmemb - (nmemb div 2 + 1))
           else Some try
      else None)"
  by pat_completeness auto
termination
  by (relation "measure (\<lambda>(compar, key, xs, base, nmemb). nmemb)") auto

declare bsearch_loop.simps [simp del]

definition bsearch :: "('k \<Rightarrow> 'a \<Rightarrow> int) \<Rightarrow> 'k \<Rightarrow> 'a list \<Rightarrow> nat option" where
  "bsearch compar key xs = bsearch_loop compar key xs 0 (length xs)"

section \<open>Permutations\<close>

lemma length_swap [simp]: "length (memswap_elems xs i j) = length xs"
  by (simp add: memswap_elems_def)

lemma nth_swap:
  "i < length xs \<Longrightarrow> j < length xs \<Longrightarrow> k < length xs \<Longrightarrow>
     memswap_elems xs i j ! k = (if k = i then xs ! j else if k = j then xs ! i else xs ! k)"
  by (auto simp: memswap_elems_def nth_list_update)

lemma mset_take_swap:
  "i < n \<Longrightarrow> j < n \<Longrightarrow> n \<le> length xs \<Longrightarrow> mset (take n (memswap_elems xs i j)) = mset (take n xs)"
proof -
  assume "i < n" "j < n" "n \<le> length xs"
  then have "take n (memswap_elems xs i j) = (take n xs)[i := take n xs ! j, j := take n xs ! i]"
    by (simp add: memswap_elems_def take_update_swap)
  then show ?thesis
    using mset_swap [of j "take n xs" i] \<open>i < n\<close> \<open>j < n\<close> \<open>n \<le> length xs\<close> by simp
qed

lemma drop_swap: "i < n \<Longrightarrow> j < n \<Longrightarrow> drop n (memswap_elems xs i j) = drop n xs"
  by (simp add: memswap_elems_def)

lemma largest_child_cases:
  "largest_child compar xs n i = i \<or>
   (largest_child compar xs n i \<in> {2 * i + 1, 2 * i + 2} \<and> largest_child compar xs n i < n)"
  by (auto simp: largest_child_def Let_def)

lemma largest_child_less: "i < n \<Longrightarrow> largest_child compar xs n i < n"
  using largest_child_cases [of compar xs n i] by auto

lemma heapify_perm:
  "i < n \<Longrightarrow> n \<le> length xs \<Longrightarrow>
     length (heapify compar xs n i) = length xs \<and>
     mset (take n (heapify compar xs n i)) = mset (take n xs) \<and>
     drop n (heapify compar xs n i) = drop n xs"
proof (induction compar xs n i rule: heapify.induct)
  case (1 compar xs n i)
  let ?l = "largest_child compar xs n i"
  have "?l < n" using 1(2) by (rule largest_child_less)
  then show ?case
    using 1 by (subst (1 2 3) heapify.simps) (auto simp: Let_def mset_take_swap drop_swap)
qed

lemmas heapify_length = heapify_perm [THEN conjunct1]
  and heapify_mset = heapify_perm [THEN conjunct2, THEN conjunct1]
  and heapify_drop = heapify_perm [THEN conjunct2, THEN conjunct2]

section \<open>The contract of a comparison function\<close>

locale comparator =
  fixes compar :: "'a compar"
  assumes compar_sym: "sgn (compar x y) = - sgn (compar y x)"
    and compar_trans: "compar x y \<le> 0 \<Longrightarrow> compar y z \<le> 0 \<Longrightarrow> compar x z \<le> 0"
begin

abbreviation le :: "'a \<Rightarrow> 'a \<Rightarrow> bool" where
  "le x y \<equiv> compar x y \<le> 0"

lemma gt_iff: "0 < compar x y \<longleftrightarrow> compar y x < 0"
  using compar_sym [of x y] by (auto simp: sgn_if split: if_splits)

lemma le_total: "le x y \<or> le y x"
  using gt_iff [of x y] by linarith

lemma le_refl [simp]: "le x x"
  using le_total [of x x] by simp

lemma not_gt_le: "\<not> 0 < compar x y \<Longrightarrow> le x y" and gt_le: "0 < compar x y \<Longrightarrow> le y x"
  using gt_iff [of x y] by auto

text \<open>
  Parents from index \<open>k\<close> on dominate their children, except that \<open>i\<close> may be smaller than
  its own children, which then are dominated by the parent of \<open>i\<close>.
\<close>

definition heap_from :: "'a list \<Rightarrow> nat \<Rightarrow> nat \<Rightarrow> bool" where
  "heap_from xs n k \<longleftrightarrow> (\<forall>j. 0 < j \<and> j < n \<and> k \<le> (j - 1) div 2 \<longrightarrow> le (xs ! j) (xs ! ((j - 1) div 2)))"

definition heap_except :: "'a list \<Rightarrow> nat \<Rightarrow> nat \<Rightarrow> nat \<Rightarrow> bool" where
  "heap_except xs n k i \<longleftrightarrow>
     (\<forall>j. 0 < j \<and> j < n \<and> k \<le> (j - 1) div 2 \<and> (j - 1) div 2 \<noteq> i \<longrightarrow>
        le (xs ! j) (xs ! ((j - 1) div 2))) \<and>
     (\<forall>j. 0 < j \<and> j < n \<and> (j - 1) div 2 = i \<and> 0 < i \<and> k \<le> (i - 1) div 2 \<longrightarrow>
        le (xs ! j) (xs ! ((i - 1) div 2)))"

lemma child_cases: "0 < j \<Longrightarrow> (j - 1) div 2 = i \<longleftrightarrow> j = 2 * i + 1 \<or> j = 2 * i + 2" for i j :: nat
  by arith

text \<open>The largest of a node and its children dominates them all.\<close>

lemma largest_child_max:
  assumes "j = i \<or> ((j = 2 * i + 1 \<or> j = 2 * i + 2) \<and> j < n)"
  shows "le (xs ! j) (xs ! largest_child compar xs n i)"
proof -
  let ?l = "2 * i + 1" and ?r = "2 * i + 2"
  let ?m = "if ?l < n \<and> compar (xs ! ?l) (xs ! i) > 0 then ?l else i"
  have m: "le (xs ! i) (xs ! ?m)" "?l < n \<Longrightarrow> le (xs ! ?l) (xs ! ?m)"
    by (auto intro: gt_le not_gt_le)
  have lc: "largest_child compar xs n i =
      (if ?r < n \<and> compar (xs ! ?r) (xs ! ?m) > 0 then ?r else ?m)"
    by (simp add: largest_child_def Let_def)
  have "le (xs ! ?m) (xs ! largest_child compar xs n i)"
    unfolding lc by (auto intro: gt_le)
  moreover have "?r < n \<Longrightarrow> le (xs ! ?r) (xs ! largest_child compar xs n i)"
    unfolding lc by (auto intro: not_gt_le)
  ultimately show ?thesis
    using assms m compar_trans by blast
qed

lemma heapify_heap:
  "heap_except xs n k i \<Longrightarrow> i < n \<Longrightarrow> n \<le> length xs \<Longrightarrow> k \<le> i \<Longrightarrow>
     heap_from (heapify compar xs n i) n k"
proof (induction "n - i" arbitrary: i xs rule: less_induct)
  case less
  let ?c = "largest_child compar xs n i"
  show ?case
  proof (cases "?c = i")
    case True
    have "le (xs ! j) (xs ! i)" if "0 < j" "j < n" "(j - 1) div 2 = i" for j
      using largest_child_max [of j i n xs] that child_cases [of j i] True by simp
    then have "heap_from xs n k"
      using less.prems(1) by (auto simp: heap_from_def heap_except_def)
    then show ?thesis
      using True by (simp add: heapify.simps [of compar xs])
  next
    case False
    then have c: "?c = 2 * i + 1 \<or> ?c = 2 * i + 2" "?c < n"
      using largest_child_cases [of compar xs n i] by auto
    then have pc: "(?c - 1) div 2 = i" "0 < ?c" "i < ?c" by arith+
    let ?ys = "memswap_elems xs i ?c"
    have nth: "?ys ! j = (if j = i then xs ! ?c else if j = ?c then xs ! i else xs ! j)" if "j < n" for j
      using that c less.prems by (auto simp: nth_swap)
    have "heap_except ?ys n k ?c"
      unfolding heap_except_def
    proof (intro conjI allI impI; elim conjE)
      fix j assume j: "0 < j" "j < n" "k \<le> (j - 1) div 2" "(j - 1) div 2 \<noteq> ?c"
      have pj: "(j - 1) div 2 < n" "(j - 1) div 2 < j" using j by arith+
      show "le (?ys ! j) (?ys ! ((j - 1) div 2))"
      proof (cases "(j - 1) div 2 = i")
        case True
        then have "le (xs ! j) (xs ! ?c)" "le (xs ! i) (xs ! ?c)"
          using largest_child_max [of _ i n xs] j child_cases [of j i] by simp_all
        then show ?thesis using nth j pj True by auto
      next
        case False
        have "le (xs ! ?c) (xs ! ((i - 1) div 2))" if "j = i"
          using less.prems(1) c pc j that by (auto simp: heap_except_def)
        moreover have "le (xs ! j) (xs ! ((j - 1) div 2))"
          using less.prems(1) j False by (auto simp: heap_except_def)
        ultimately show ?thesis using nth j pj pc False by auto
      qed
    next
      fix j assume j: "0 < j" "j < n" "(j - 1) div 2 = ?c" "k \<le> (?c - 1) div 2"
      then have "?c < j" by arith
      moreover have "le (xs ! j) (xs ! ?c)"
        using less.prems(1,4) j pc False by (auto simp: heap_except_def)
      ultimately show "le (?ys ! j) (?ys ! ((?c - 1) div 2))"
        using nth [of j] nth [of i] j pc less.prems(2) by simp
    qed
    then have "heap_from (heapify compar ?ys n ?c) n k"
      using less.prems c pc by (intro less.hyps) auto
    then show ?thesis
      using False by (simp add: heapify.simps [of compar xs] Let_def)
  qed
qed

lemma build_heap_inv:
  "heap_from xs n i \<Longrightarrow> i \<le> n \<Longrightarrow> n = length xs \<Longrightarrow>
     heap_from (build_heap compar xs n i) n 0 \<and> mset (build_heap compar xs n i) = mset xs"
proof (induction i arbitrary: xs)
  case 0
  then show ?case by simp
next
  case (Suc i)
  let ?ys = "heapify compar xs n i"
  have perm: "length ?ys = n" "mset ?ys = mset xs"
    using heapify_perm [of i n xs compar] Suc.prems by auto
  have "heap_except xs n i i"
    using Suc.prems(1) by (auto simp: heap_except_def heap_from_def)
  then have "heap_from ?ys n i"
    using Suc.prems by (intro heapify_heap) auto
  then show ?case
    using Suc.IH [of ?ys] Suc.prems perm by simp
qed

lemma heap_max: "heap_from xs n 0 \<Longrightarrow> j < n \<Longrightarrow> le (xs ! j) (xs ! 0)"
proof (induction j rule: less_induct)
  case (less j)
  show ?case
  proof (cases "j = 0")
    case False
    then have "le (xs ! ((j - 1) div 2)) (xs ! 0)"
      using less by (intro less.IH) arith+
    moreover have "le (xs ! j) (xs ! ((j - 1) div 2))"
      using less.prems False by (auto simp: heap_from_def)
    ultimately show ?thesis by (rule compar_trans [rotated])
  qed simp
qed

text \<open>
  The state of the extraction: a heap of \<open>i + 1\<close> elements, none larger than the sorted rest.
\<close>

definition extract_inv :: "'a list \<Rightarrow> nat \<Rightarrow> bool" where
  "extract_inv xs i \<longleftrightarrow>
     i < length xs \<and> heap_from xs (Suc i) 0 \<and> sorted_wrt le (drop (Suc i) xs) \<and>
     (\<forall>x \<in> set (take (Suc i) xs). \<forall>y \<in> set (drop (Suc i) xs). le x y)"

lemma extract_step:
  assumes "extract_inv xs (Suc i)"
  defines "ys \<equiv> heapify compar (memswap_elems xs 0 (Suc i)) (Suc i) 0"
  shows "extract_inv ys i \<and> mset ys = mset xs"
proof -
  let ?zs = "memswap_elems xs 0 (Suc i)"
  have len: "Suc i < length xs" and heap: "heap_from xs (Suc (Suc i)) 0"
    and srt: "sorted_wrt le (drop (Suc (Suc i)) xs)"
    and dom: "\<forall>x \<in> set (take (Suc (Suc i)) xs). \<forall>y \<in> set (drop (Suc (Suc i)) xs). le x y"
    using assms(1) by (auto simp: extract_inv_def)
  have nth: "?zs ! j = (if j = 0 then xs ! Suc i else if j = Suc i then xs ! 0 else xs ! j)"
    if "j < length xs" for j
    using that len nth_swap [of 0 xs "Suc i" j] by (cases xs) auto
  have x0: "xs ! 0 \<in> set (take (Suc (Suc i)) xs)"
    using len by (auto simp: in_set_conv_nth intro!: exI [of _ 0])
  have dz: "drop (Suc i) ?zs = xs ! 0 # drop (Suc (Suc i)) xs"
    using len nth [of "Suc i"] drop_swap [of 0 "Suc (Suc i)" "Suc i" xs]
    by (simp add: Cons_nth_drop_Suc [symmetric])
  have mz: "mset (take (Suc (Suc i)) ?zs) = mset (take (Suc (Suc i)) xs)"
    using len by (intro mset_take_swap) auto
  have tz: "set (take (Suc i) ?zs) \<subseteq> set (take (Suc (Suc i)) xs)"
    using mset_eq_setD [OF mz] set_take_subset_set_take [of "Suc i" "Suc (Suc i)" ?zs] by auto
  have perm: "length ys = length xs" "mset (take (Suc i) ys) = mset (take (Suc i) ?zs)"
    "drop (Suc i) ys = drop (Suc i) ?zs"
    using heapify_perm [of 0 "Suc i" ?zs compar] len by (simp_all add: ys_def)
  have top: "le x (xs ! 0)" if "x \<in> set (take (Suc (Suc i)) xs)" for x
    using that heap_max [OF heap] by (auto simp: in_set_conv_nth)
  have "heap_except ?zs (Suc i) 0 0"
    using heap len by (auto simp: heap_except_def heap_from_def nth)
  then have "heap_from ys (Suc i) 0"
    unfolding ys_def using len by (intro heapify_heap) auto
  moreover have "sorted_wrt le (drop (Suc i) ys)"
    using srt dom x0 by (auto simp: perm dz)
  moreover have "\<forall>x \<in> set (take (Suc i) ys). \<forall>y \<in> set (drop (Suc i) ys). le x y"
    using mset_eq_setD [OF perm(2)] tz top dom by (auto simp: perm dz)
  moreover have "mset ys = mset xs"
  proof -
    have "mset ys = mset (take (Suc i) ys) + mset (drop (Suc i) ys)"
      by (metis append_take_drop_id mset_append)
    also have "\<dots> = mset ?zs"
      unfolding perm by (metis append_take_drop_id mset_append)
    also have "\<dots> = mset xs"
      using mset_take_swap [of 0 "length xs" "Suc i" xs] len by (cases xs) simp_all
    finally show ?thesis .
  qed
  ultimately show ?thesis
    using len perm by (simp add: extract_inv_def)
qed

lemma extract_loop_sorts:
  "extract_inv xs i \<Longrightarrow>
     sorted_wrt le (extract_loop compar xs i) \<and> mset (extract_loop compar xs i) = mset xs"
proof (induction i arbitrary: xs)
  case 0
  then obtain x ys where xs: "xs = x # ys" by (cases xs) (auto simp: extract_inv_def)
  with 0 show ?case by (simp add: extract_inv_def)
next
  case (Suc i)
  with extract_step [OF Suc.prems] show ?case by simp
qed

lemma qsort_sorts:
  "\<exists>ys. qsort (Some xs) (Some compar) = Some ys \<and> sorted_wrt le ys \<and> mset ys = mset xs"
proof (cases "length xs \<le> 1")
  case True
  then have "sorted_wrt le xs" by (cases xs; cases "tl xs") auto
  with True show ?thesis by (simp add: qsort_def)
next
  case False
  let ?n = "length xs"
  let ?h = "build_heap compar xs ?n (?n div 2)"
  have "heap_from xs ?n (?n div 2)"
    by (auto simp: heap_from_def)
  then have h: "heap_from ?h ?n 0" "mset ?h = mset xs"
    using build_heap_inv [of xs ?n "?n div 2"] by auto
  then have "length ?h = ?n" by (metis size_mset)
  moreover have "Suc (?n - 1) = ?n" using False by simp
  ultimately have "extract_inv ?h (?n - 1)"
    using h False by (simp add: extract_inv_def)
  with extract_loop_sorts [OF this] h False show ?thesis
    by (simp add: qsort_def)
qed

text \<open>
  Searching needs less: the signs of the comparisons with the key fall along the array.
\<close>

end

section \<open>Binary search\<close>

definition partitioned :: "('k \<Rightarrow> 'a \<Rightarrow> int) \<Rightarrow> 'k \<Rightarrow> 'a list \<Rightarrow> bool" where
  "partitioned compar key xs \<longleftrightarrow>
     (\<forall>i j. i < j \<longrightarrow> j < length xs \<longrightarrow> sgn (compar key (xs ! j)) \<le> sgn (compar key (xs ! i)))"

lemma bsearch_loop_correct:
  "partitioned compar key xs \<Longrightarrow> base + n \<le> length xs \<Longrightarrow>
     (case bsearch_loop compar key xs base n of
        None \<Rightarrow> \<forall>i. base \<le> i \<and> i < base + n \<longrightarrow> compar key (xs ! i) \<noteq> 0
      | Some i \<Rightarrow> base \<le> i \<and> i < base + n \<and> compar key (xs ! i) = 0)"
proof (induction compar key xs base n rule: bsearch_loop.induct)
  case (1 compar key xs base n)
  show ?case
  proof (cases "n = 0")
    case True
    then show ?thesis by (subst bsearch_loop.simps) simp
  next
    case False
    let ?t = "base + n div 2"
    let ?s = "compar key (xs ! ?t)"
    have t: "?t < base + n" using False by arith
    have le: "sgn (compar key (xs ! j)) \<le> sgn (compar key (xs ! i))" if "i < j" "j < base + n" for i j
      using "1.prems" that by (auto simp: partitioned_def)
    consider "?s < 0" | "?s > 0" | "?s = 0" by linarith
    then show ?thesis
    proof cases
      case 1
      have "compar key (xs ! i) \<noteq> 0" if "?t \<le> i" "i < base + n" for i
        using le [of ?t i] that 1 by (cases "i = ?t") (auto simp: sgn_if split: if_splits)
      moreover have "bsearch_loop compar key xs base n = bsearch_loop compar key xs base (n div 2)"
        using 1 False by (subst bsearch_loop.simps) (simp add: Let_def)
      moreover have "base + n div 2 \<le> length xs" "n div 2 < n" using "1.prems" False by auto
      moreover note "1.IH"(1) [OF _ refl refl 1 "1.prems"(1)]
      ultimately show ?thesis
        using False by (auto split: option.splits) (metis not_le)
    next
      case 2
      have "compar key (xs ! i) \<noteq> 0" if "i \<le> ?t" for i
        using le [of i ?t] that t 2 by (cases "i = ?t") (auto simp: sgn_if split: if_splits)
      moreover have "bsearch_loop compar key xs base n =
          bsearch_loop compar key xs (?t + 1) (n - (n div 2 + 1))"
        using 2 False by (subst bsearch_loop.simps) (simp add: Let_def)
      moreover have "?t + 1 + (n - (n div 2 + 1)) = base + n" using False by auto
      moreover note "1.IH"(2) [OF _ refl refl _ 2 "1.prems"(1)]
      ultimately show ?thesis
        using 2 False "1.prems"(2) by (auto split: option.splits) (metis Suc_leI not_le)
    next
      case 3
      with False t show ?thesis by (subst bsearch_loop.simps) (simp add: Let_def)
    qed
  qed
qed

lemma strcmp_sgn:
  "nonul s \<Longrightarrow> nonul t \<Longrightarrow> sgn (the (strcmp (cstr s) (cstr t))) = (if s < t then -1 else if s = t then 0 else 1)"
  using strcmp_append [of s t "[]" "[]"] by (auto simp: cstr_def sgn_if)

text \<open>
  Comparison by \<open>strcmp\<close>, the order that clients such as \<open>ls\<close> and \<open>sort\<close> use, on string
  values cut at their first NUL.
\<close>

definition str_value :: "byte list \<Rightarrow> byte list" where
  "str_value s = takeWhile (\<lambda>b. b \<noteq> 0) s"

definition cmp_strings :: "byte list compar" where
  "cmp_strings s t = the (strcmp (cstr (str_value s)) (cstr (str_value t)))"

lemma nonul_str_value [simp]: "nonul (str_value s)"
  by (auto simp: nonul_def str_value_def dest: set_takeWhileD)

lemma sgn_cmp_strings:
  "sgn (cmp_strings s t) =
     (if str_value s < str_value t then -1 else if str_value s = str_value t then 0 else 1)"
  by (simp add: cmp_strings_def strcmp_sgn)

lemma cmp_strings_le: "cmp_strings s t \<le> 0 \<longleftrightarrow> str_value s \<le> str_value t"
proof -
  have "cmp_strings s t \<le> 0 \<longleftrightarrow> sgn (cmp_strings s t) \<le> 0"
    by (simp add: sgn_if)
  then show ?thesis by (auto simp: sgn_cmp_strings)
qed

interpretation cmp_str: comparator cmp_strings
proof
  fix x y z :: "byte list"
  show "sgn (cmp_strings x y) = - sgn (cmp_strings y x)"
    by (auto simp: sgn_cmp_strings)
  show "cmp_strings x y \<le> 0 \<Longrightarrow> cmp_strings y z \<le> 0 \<Longrightarrow> cmp_strings x z \<le> 0"
    by (auto simp: cmp_strings_le)
qed

section \<open>Properties\<close>

text \<open>
  C39. \<open>qsort\<close>, a heap sort, returns for every array and every consistent comparison
  function a permutation of the array that is sorted by the comparison.
\<close>

theorem qsort_sorted_permutation:
  assumes "\<forall>x y. sgn (compar x y) = - sgn (compar y x)"
    and "\<forall>x y z. compar x y \<le> 0 \<longrightarrow> compar y z \<le> 0 \<longrightarrow> compar x z \<le> 0"
  shows "\<exists>ys. qsort (Some xs) (Some compar) = Some ys \<and>
    sorted_wrt (\<lambda>x y. compar x y \<le> 0) ys \<and> mset ys = mset xs"
proof -
  have "comparator compar"
    by unfold_locales (use assms in blast)+
  then show ?thesis by (rule comparator.qsort_sorts)
qed

theorem qsort_sorted_permutation_witness:
  "\<exists>ys. qsort (Some [bytes ''b'', bytes ''a'', bytes ''c'']) (Some cmp_strings) = Some ys \<and>
    sorted_wrt (\<lambda>x y. cmp_strings x y \<le> 0) ys \<and>
    mset ys = mset [bytes ''b'', bytes ''a'', bytes ''c'']"
  using cmp_str.compar_sym cmp_str.compar_trans
  by (intro qsort_sorted_permutation) blast+

text \<open>
  \<open>bsearch\<close> on an array in which the comparisons with the key fall from positive over
  zero to negative returns the position of an equal element if there is one, and a null pointer
  otherwise.
\<close>

theorem bsearch_finds:
  assumes "partitioned compar key xs"
  shows "case bsearch compar key xs of
      None \<Rightarrow> \<forall>i < length xs. compar key (xs ! i) \<noteq> 0
    | Some i \<Rightarrow> i < length xs \<and> compar key (xs ! i) = 0"
  using bsearch_loop_correct [OF assms, of 0 "length xs"]
  by (auto simp: bsearch_def split: option.splits)

theorem bsearch_finds_witness:
  "case bsearch (\<lambda>k x. k - x) (5 :: int) [1, 3, 5, 8] of
      None \<Rightarrow> \<forall>i < length [1, 3, 5, 8 :: int]. (5 :: int) - [1, 3, 5, 8] ! i \<noteq> 0
    | Some i \<Rightarrow> i < length [1, 3, 5, 8 :: int] \<and> (5 :: int) - [1, 3, 5, 8] ! i = 0"
proof (rule bsearch_finds)
  show "partitioned (\<lambda>k x. k - x) 5 [1, 3, 5, 8 :: int]"
    by (auto simp: partitioned_def less_Suc_eq numeral_eq_Suc nth_Cons' split: if_splits)
qed

end
