(* ===== verification/Environ.thy ===== *)
theory Environ
  imports Numconv
begin

text \<open>
  The process environment: \<open>src/src/libbrkc/stdlib/env.c\<close>, and the exit handlers of
  \<open>exit.c\<close>. The state is the array \<open>environ\<close> (a null pointer, or the strings up to the
  null entry), whether it has been copied to the heap, and \<open>errno\<close>. Strings are their values
  without the NUL and are handed to the string routines as \<open>cstr\<close> objects. Whether the
  allocations of a call succeed is a parameter: \<open>ok k\<close> for the \<open>k\<close>-th of them.
\<close>

section \<open>Definitions\<close>

record env =
  environ :: "byte list list option"
  env_owned :: bool
  env_errno :: errno

definition env_ensure_owned :: "bool \<Rightarrow> env \<Rightarrow> int \<times> env" where
  "env_ensure_owned ok st =
     (if env_owned st then (0, st)
      else if \<not> ok then (- 1, st)
      else (0, st\<lparr>environ := Some (case environ st of None \<Rightarrow> [] | Some es \<Rightarrow> es),
                  env_owned := True\<rparr>))"

text \<open>The test on one entry: the name is a prefix and an equals sign follows it.\<close>

definition env_match :: "byte list \<Rightarrow> byte list \<Rightarrow> nat \<Rightarrow> bool option" where
  "env_match e name name_len =
     do { r \<leftarrow> strncmp (cstr e) (cstr name) name_len;
          if r = 0
          then if name_len < length (cstr e) then Some (cstr e ! name_len = chr CHR ''='') else None
          else Some False }"

fun env_find_loop :: "byte list list \<Rightarrow> byte list \<Rightarrow> nat \<Rightarrow> nat \<Rightarrow> nat option option" where
  "env_find_loop [] name name_len i = Some None"
| "env_find_loop (e # es) name name_len i =
     do { b \<leftarrow> env_match e name name_len;
          if b then Some (Some i) else env_find_loop es name name_len (Suc i) }"

text \<open>The index of the entry, the inner \<open>None\<close> standing for \<open>- 1\<close>.\<close>

definition env_find :: "env \<Rightarrow> byte list \<Rightarrow> nat \<Rightarrow> nat option option" where
  "env_find st name name_len =
     (case environ st of None \<Rightarrow> Some None | Some es \<Rightarrow> env_find_loop es name name_len 0)"

text \<open>A null pointer, an empty name or a name with an equals sign.\<close>

definition bad_name :: "byte list option \<Rightarrow> bool option" where
  "bad_name name =
     (case name of
        None \<Rightarrow> Some True
      | Some n \<Rightarrow>
          if cstr n ! 0 = 0 then Some True
          else do { r \<leftarrow> strchr (cstr n) (c_char (chr CHR ''='')); Some (r \<noteq> None) })"

definition getenv :: "env \<Rightarrow> byte list option \<Rightarrow> byte list option option" where
  "getenv st name =
     do { bad \<leftarrow> bad_name name;
          if bad then Some None
          else do {
            name_len \<leftarrow> strlen (cstr (the name));
            index \<leftarrow> env_find st (the name) name_len;
            case index of
              None \<Rightarrow> Some None
            | Some i \<Rightarrow> Some (Some (drop (name_len + 1) (the (environ st) ! i)))
          } }"

definition setenv ::
    "(nat \<Rightarrow> bool) \<Rightarrow> env \<Rightarrow> byte list option \<Rightarrow> byte list option \<Rightarrow> bool \<Rightarrow> (int \<times> env) option" where
  "setenv ok st name val overwrite =
     do { bad \<leftarrow> bad_name name;
          if bad \<or> val = None then Some (- 1, st\<lparr>env_errno := EINVAL\<rparr>)
          else do {
            name_len \<leftarrow> strlen (cstr (the name));
            index \<leftarrow> env_find st (the name) name_len;
            if index \<noteq> None \<and> \<not> overwrite then Some (0, st)
            else if \<not> ok 0 then Some (- 1, st)
            else let entry = the name @ [chr CHR ''=''] @ the val
              in case index of
                Some i \<Rightarrow> Some (0, st\<lparr>environ := Some ((the (environ st))[i := entry])\<rparr>)
              | None \<Rightarrow>
                  (let (rc, st) = env_ensure_owned (ok 1) st
                   in if rc \<noteq> 0 then Some (- 1, st)
                      else if \<not> ok 2 then Some (- 1, st)
                      else Some (0, st\<lparr>environ := Some (the (environ st) @ [entry])\<rparr>))
          } }"

text \<open>The loop of \<open>unsetenv\<close>: a matching entry is closed over by \<open>memmove\<close>.\<close>

function unset_loop :: "byte list list \<Rightarrow> byte list \<Rightarrow> nat \<Rightarrow> nat \<Rightarrow> byte list list option" where
  "unset_loop es name name_len i =
     (if i < length es then
        case env_match (es ! i) name name_len of
          None \<Rightarrow> None
        | Some b \<Rightarrow>
            if b then unset_loop (take i es @ drop (i + 1) es) name name_len i
            else unset_loop es name name_len (i + 1)
      else Some es)"
  by pat_completeness auto
termination
  by (relation "measure (\<lambda>(es, name, name_len, i). length es - i)") auto

declare unset_loop.simps [simp del]

definition unsetenv :: "env \<Rightarrow> byte list option \<Rightarrow> (int \<times> env) option" where
  "unsetenv st name =
     do { bad \<leftarrow> bad_name name;
          if bad then Some (- 1, st\<lparr>env_errno := EINVAL\<rparr>)
          else case environ st of
              None \<Rightarrow> Some (0, st)
            | Some es \<Rightarrow> do {
                name_len \<leftarrow> strlen (cstr (the name));
                es \<leftarrow> unset_loop es (the name) name_len 0;
                Some (0, st\<lparr>environ := Some es\<rparr>) } }"

section \<open>Exit handlers\<close>

definition ATEXIT_MAX :: nat where
  "ATEXIT_MAX = 32"

text \<open>The registered handlers, the latest first; a null pointer is refused.\<close>

definition atexit :: "'f list \<Rightarrow> 'f option \<Rightarrow> int \<times> 'f list" where
  "atexit funcs func =
     (case func of
        None \<Rightarrow> (- 1, funcs)
      | Some f \<Rightarrow> if length funcs \<ge> ATEXIT_MAX then (- 1, funcs) else (0, f # funcs))"

text \<open>
  \<open>exit\<close> flushes, runs the handlers and leaves by \<open>_exit\<close>: the actions in their order.
  A handler may register or remove handlers: its effect on the table is the parameter
  \<open>run\<close>, so the loop is bounded by a number of turns.
\<close>

datatype 'f exit_action = Fflush_all | Run 'f | Exit_now int

fun exit_loop :: "nat \<Rightarrow> ('f \<Rightarrow> 'f list \<Rightarrow> 'f list) \<Rightarrow> 'f list \<Rightarrow> 'f exit_action list option" where
  "exit_loop n run [] = Some []"
| "exit_loop 0 run (f # fs) = None"
| "exit_loop (Suc n) run (f # fs) = map_option ((#) (Run f)) (exit_loop n run (run f fs))"

definition exit_c :: "nat \<Rightarrow> ('f \<Rightarrow> 'f list \<Rightarrow> 'f list) \<Rightarrow> 'f list \<Rightarrow> int \<Rightarrow> 'f exit_action list option" where
  "exit_c n run funcs status =
     map_option (\<lambda>as. Fflush_all # as @ [Exit_now status]) (exit_loop n run funcs)"

section \<open>The environment as a map\<close>

definition valid_name :: "byte list \<Rightarrow> bool" where
  "valid_name k \<longleftrightarrow> nonul k \<and> k \<noteq> [] \<and> chr CHR ''='' \<notin> set k"

definition key_is :: "byte list \<Rightarrow> byte list \<Rightarrow> bool" where
  "key_is k e \<longleftrightarrow> take (length k) e = k \<and> length k < length e \<and> e ! length k = chr CHR ''=''"

definition env_wf :: "env \<Rightarrow> bool" where
  "env_wf st \<longleftrightarrow> (env_owned st \<longrightarrow> environ st \<noteq> None) \<and>
     (\<forall>es. environ st = Some es \<longrightarrow> (\<forall>e \<in> set es. nonul e))"

definition env_map :: "env \<Rightarrow> byte list \<Rightarrow> byte list option" where
  "env_map st k =
     (case environ st of
        None \<Rightarrow> None
      | Some es \<Rightarrow> map_option (drop (length k + 1)) (List.find (key_is k) es))"

lemma bad_name_valid: "valid_name k \<Longrightarrow> bad_name (Some k) = Some False"
proof -
  assume v: "valid_name k"
  then have "strchr (cstr k) (c_char (chr CHR ''='')) = Some None"
    by (auto simp: valid_name_def first_index_None)
  moreover have "cstr k ! 0 \<noteq> 0"
    using v by (cases k) (auto simp: valid_name_def)
  ultimately show ?thesis by (simp add: bad_name_def)
qed

lemma env_match_eq:
  assumes "nonul e" and "nonul k"
  shows "env_match e k (length k) = Some (key_is k e)"
proof -
  obtain d where d: "strncmp (cstr e) (cstr k) (length k) = Some d"
    "d = 0 \<longleftrightarrow> take (length k) e = k"
    using strncmp_append [OF assms, of "[]" "[]" "length k"] by (auto simp: cstr_def)
  show ?thesis
  proof (cases "take (length k) e = k")
    case True
    then obtain u where "e = k @ u" by (metis append_take_drop_id)
    with d show ?thesis
      by (cases u) (auto simp: env_match_def key_is_def cstr_def nth_append)
  next
    case False
    with d show ?thesis by (simp add: env_match_def key_is_def)
  qed
qed

lemma env_find_loop_eq:
  "\<forall>e \<in> set es. nonul e \<Longrightarrow> nonul k \<Longrightarrow>
     env_find_loop es k (length k) i = Some (map_option ((+) i) (first_index (key_is k) es))"
  by (induction es arbitrary: i) (auto simp: env_match_eq option.map_comp comp_def)

lemma find_first_index: "List.find P xs = map_option ((!) xs) (first_index P xs)"
  by (induction xs) (auto simp: option.map_comp comp_def)

lemma env_find_eq:
  "env_wf st \<Longrightarrow> nonul k \<Longrightarrow>
     env_find st k (length k) =
       Some (case environ st of None \<Rightarrow> None | Some es \<Rightarrow> first_index (key_is k) es)"
  by (auto simp: env_find_def env_wf_def env_find_loop_eq split: option.splits)

lemma getenv_eq: "env_wf st \<Longrightarrow> valid_name k \<Longrightarrow> getenv st (Some k) = Some (env_map st k)"
  by (auto simp: getenv_def bad_name_valid valid_name_def env_find_eq env_map_def
      find_first_index split: option.splits)

lemma unset_loop_eq:
  "\<forall>e \<in> set es. nonul e \<Longrightarrow> nonul k \<Longrightarrow> i \<le> length es \<Longrightarrow>
     unset_loop es k (length k) i = Some (take i es @ filter (\<lambda>e. \<not> key_is k e) (drop i es))"
proof (induction es k "length k" i rule: unset_loop.induct)
  case (1 es k i)
  show ?case
  proof (cases "i < length es")
    case True
    then have d: "drop i es = es ! i # drop (Suc i) es" by (simp add: Cons_nth_drop_Suc)
    have m: "env_match (es ! i) k (length k) = Some (key_is k (es ! i))"
      using True 1 by (intro env_match_eq) auto
    have e: "\<forall>e \<in> set (take i es @ drop (i + 1) es). nonul e"
      using 1 by (auto dest: in_set_takeD in_set_dropD)
    show ?thesis
    proof (cases "key_is k (es ! i)")
      case b: True
      have "unset_loop es k (length k) i = unset_loop (take i es @ drop (i + 1) es) k (length k) i"
        using True m b by (subst unset_loop.simps) simp
      also have "\<dots> = Some (take i es @ filter (\<lambda>e. \<not> key_is k e) (drop (Suc i) es))"
        using "1.hyps"(1) [OF True m b] e 1 True by simp
      finally show ?thesis by (simp add: d b)
    next
      case b: False
      have "unset_loop es k (length k) i = unset_loop es k (length k) (i + 1)"
        using True m b by (subst unset_loop.simps) simp
      then show ?thesis
        using "1.hyps"(2) [OF True m b] 1 True by (simp add: d b take_Suc_conv_app_nth)
    qed
  next
    case False
    with 1 show ?thesis by (subst unset_loop.simps) simp
  qed
qed

text \<open>An entry belongs to one name only.\<close>

lemma key_is_unique: "valid_name k \<Longrightarrow> valid_name k' \<Longrightarrow> key_is k e \<Longrightarrow> key_is k' e \<Longrightarrow> k = k'"
proof -
  have le: "length a \<le> length b" if "valid_name a" "key_is a e" "key_is b e" for a b
  proof (rule ccontr)
    assume "\<not> length a \<le> length b"
    then have l: "length b < length a" by simp
    have "a ! length b = take (length a) e ! length b"
      using that(2) by (simp add: key_is_def)
    also have "\<dots> = chr CHR ''=''"
      using l that(3) by (simp add: key_is_def)
    finally have "chr CHR ''='' \<in> set a"
      using l by (metis nth_mem)
    with that(1) show False by (simp add: valid_name_def)
  qed
  assume "valid_name k" "valid_name k'" "key_is k e" "key_is k' e"
  then have "length k = length k'" using le by (meson le_antisym)
  with \<open>key_is k e\<close> \<open>key_is k' e\<close> show ?thesis by (simp add: key_is_def)
qed

lemma key_is_entry: "key_is k (k @ [chr CHR ''=''] @ v)"
  by (simp add: key_is_def nth_append)

lemma key_is_entry_iff:
  "valid_name k \<Longrightarrow> valid_name k' \<Longrightarrow> key_is k' (k @ [chr CHR ''=''] @ v) \<longleftrightarrow> k' = k"
  using key_is_unique [of k k' "k @ [chr CHR ''=''] @ v"] key_is_entry by blast

lemma find_filter_key:
  "valid_name k \<Longrightarrow> valid_name k' \<Longrightarrow>
     List.find (key_is k') (filter (\<lambda>e. \<not> key_is k e) es) =
       (if k' = k then None else List.find (key_is k') es)"
  by (induction es) (auto dest: key_is_unique)

lemma find_update_key:
  "first_index (key_is k) es = Some i \<Longrightarrow> valid_name k \<Longrightarrow> valid_name k' \<Longrightarrow>
     List.find (key_is k') (es[i := k @ [chr CHR ''=''] @ v]) =
       (if k' = k then Some (k @ [chr CHR ''=''] @ v) else List.find (key_is k') es)"
proof (induction es arbitrary: i)
  case (Cons e es)
  show ?case
  proof (cases "key_is k e")
    case True
    with Cons.prems have "i = 0" by simp
    moreover have "key_is k' e \<Longrightarrow> k' = k"
      using key_is_unique [of k k' e] True Cons.prems by simp
    ultimately show ?thesis
      using key_is_entry_iff [of k k' v] Cons.prems by (simp del: append_Cons)
  next
    case False
    with Cons.prems obtain j where "i = Suc j" "first_index (key_is k) es = Some j" by auto
    with Cons.IH [of j] Cons.prems False show ?thesis by auto
  qed
qed simp

lemma find_append:
  "List.find P (xs @ ys) = (case List.find P xs of None \<Rightarrow> List.find P ys | Some x \<Rightarrow> Some x)"
  by (induction xs) auto

lemma find_None_first: "first_index P xs = None \<Longrightarrow> List.find P xs = None"
  by (simp add: find_first_index)

text \<open>Every branch of \<open>setenv\<close>, on a well-formed environment and a valid name.\<close>

lemma setenv_ok:
  assumes "env_wf st" and "valid_name k" and "nonul v" and "\<forall>i. ok i"
  shows "\<exists>st'. setenv ok st (Some k) (Some v) True = Some (0, st') \<and> env_wf st' \<and>
    env_errno st' = env_errno st \<and>
    (\<forall>k'. valid_name k' \<longrightarrow> env_map st' k' = (if k' = k then Some v else env_map st k'))"
proof -
  have k: "nonul k" using assms(2) by (simp add: valid_name_def)
  let ?e = "k @ [chr CHR ''=''] @ v"
  have e: "nonul ?e" "drop (length k + 1) ?e = v" using k assms(3) by simp_all
  let ?f = "case environ st of None \<Rightarrow> None | Some es \<Rightarrow> first_index (key_is k) es"
  have find: "env_find st k (length k) = Some ?f"
    using assms(1) k by (rule env_find_eq)
  show ?thesis
  proof (cases ?f)
    case (Some i)
    then obtain es where es: "environ st = Some es" "first_index (key_is k) es = Some i"
      by (cases "environ st") auto
    let ?st = "st\<lparr>environ := Some (es[i := ?e])\<rparr>"
    have "setenv ok st (Some k) (Some v) True = Some (0, ?st)"
      using assms find Some es k by (simp add: setenv_def bad_name_valid)
    moreover have "env_wf ?st"
      using assms(1) es e by (auto simp: env_wf_def dest!: set_update_subset_insert [THEN subsetD])
    moreover have "env_map ?st k' = (if k' = k then Some v else env_map st k')" if "valid_name k'" for k'
      using es e find_update_key [OF es(2) assms(2) that, of v] by (simp add: env_map_def)
    ultimately show ?thesis by auto
  next
    case None
    let ?es = "case environ st of None \<Rightarrow> [] | Some es \<Rightarrow> es"
    let ?st = "st\<lparr>environ := Some (?es @ [?e]), env_owned := True\<rparr>"
    have "setenv ok st (Some k) (Some v) True = Some (0, ?st)"
      using assms find None k
      by (auto simp: setenv_def bad_name_valid env_ensure_owned_def env_wf_def)
    moreover have "env_wf ?st"
      using assms(1) e by (cases "environ st") (auto simp: env_wf_def)
    moreover have "env_map ?st k' = (if k' = k then Some v else env_map st k')" if "valid_name k'" for k'
      using None key_is_entry_iff [OF assms(2) that, of v] e
      by (auto simp: env_map_def find_append find_None_first split: option.splits)
    ultimately show ?thesis by auto
  qed
qed

lemma unsetenv_ok:
  assumes "env_wf st" and "valid_name k"
  shows "\<exists>st'. unsetenv st (Some k) = Some (0, st') \<and> env_wf st' \<and>
    (\<forall>k'. valid_name k' \<longrightarrow> env_map st' k' = (if k' = k then None else env_map st k'))"
proof (cases "environ st")
  case None
  with assms show ?thesis by (auto simp: unsetenv_def bad_name_valid env_map_def)
next
  case (Some es)
  have k: "nonul k" using assms(2) by (simp add: valid_name_def)
  let ?st = "st\<lparr>environ := Some (filter (\<lambda>e. \<not> key_is k e) es)\<rparr>"
  have "unsetenv st (Some k) = Some (0, ?st)"
    using assms Some k unset_loop_eq [of es k 0]
    by (simp add: unsetenv_def bad_name_valid env_wf_def)
  moreover have "env_wf ?st" using assms(1) Some by (auto simp: env_wf_def)
  moreover have "env_map ?st k' = (if k' = k then None else env_map st k')" if "valid_name k'" for k'
    using find_filter_key [OF assms(2) that] Some by (simp add: env_map_def)
  ultimately show ?thesis by auto
qed

section \<open>The interface of an environment\<close>

text \<open>
  What clients such as the shell, \<open>env\<close> and \<open>login\<close> rely on: a store of values by name.
\<close>

locale env_store =
  fixes inv :: "'s \<Rightarrow> bool" and valid :: "'k \<Rightarrow> bool" and okv :: "'v \<Rightarrow> bool"
    and get :: "'s \<Rightarrow> 'k \<Rightarrow> 'v option" and set_val :: "'k \<Rightarrow> 'v \<Rightarrow> 's \<Rightarrow> 's" and unset :: "'k \<Rightarrow> 's \<Rightarrow> 's"
  assumes get_set: "inv s \<Longrightarrow> valid k \<Longrightarrow> okv v \<Longrightarrow> valid k' \<Longrightarrow>
      get (set_val k v s) k' = (if k' = k then Some v else get s k')"
    and get_unset: "inv s \<Longrightarrow> valid k \<Longrightarrow> valid k' \<Longrightarrow>
      get (unset k s) k' = (if k' = k then None else get s k')"
    and inv_set: "inv s \<Longrightarrow> valid k \<Longrightarrow> okv v \<Longrightarrow> inv (set_val k v s)"
    and inv_unset: "inv s \<Longrightarrow> valid k \<Longrightarrow> inv (unset k s)"
begin

text \<open>A sequence of assignments and removals acts as the updates of a map.\<close>

fun step :: "'k \<times> 'v option \<Rightarrow> 's \<Rightarrow> 's" where
  "step (k, Some v) s = set_val k v s"
| "step (k, None) s = unset k s"

fun run :: "('k \<times> 'v option) list \<Rightarrow> 's \<Rightarrow> 's" where
  "run [] s = s"
| "run (a # as) s = run as (step a s)"

definition ok_op :: "'k \<times> 'v option \<Rightarrow> bool" where
  "ok_op a \<longleftrightarrow> valid (fst a) \<and> (\<forall>v. snd a = Some v \<longrightarrow> okv v)"

lemma step_get:
  "inv s \<Longrightarrow> ok_op a \<Longrightarrow> valid k' \<Longrightarrow> get (step a s) k' = (if k' = fst a then snd a else get s k')"
  by (cases a; cases "snd a") (auto simp: ok_op_def get_set get_unset)

lemma step_inv: "inv s \<Longrightarrow> ok_op a \<Longrightarrow> inv (step a s)"
  by (cases a; cases "snd a") (auto simp: ok_op_def inv_set inv_unset)

lemma run_get:
  "inv s \<Longrightarrow> \<forall>a \<in> set as. ok_op a \<Longrightarrow> valid k' \<Longrightarrow>
     get (run as s) k' = (case map_of (rev as) k' of Some r \<Rightarrow> r | None \<Rightarrow> get s k')"
proof (induction as arbitrary: s)
  case (Cons a as)
  then have "get (run (a # as) s) k' =
      (case map_of (rev as) k' of Some r \<Rightarrow> r | None \<Rightarrow> get (step a s) k')"
    by (simp add: step_inv)
  also have "get (step a s) k' = (if k' = fst a then snd a else get s k')"
    using Cons.prems by (simp add: step_get)
  finally show ?case
    by (cases a) (auto simp: map_add_def split: option.splits)
qed simp

end

definition env_set :: "byte list \<Rightarrow> byte list \<Rightarrow> env \<Rightarrow> env" where
  "env_set k v st = snd (the (setenv (\<lambda>_. True) st (Some k) (Some v) True))"

definition env_unset :: "byte list \<Rightarrow> env \<Rightarrow> env" where
  "env_unset k st = snd (the (unsetenv st (Some k)))"

definition env_get :: "env \<Rightarrow> byte list \<Rightarrow> byte list option" where
  "env_get st k = the (getenv st (Some k))"

interpretation env: env_store env_wf valid_name nonul env_get env_set env_unset
proof
  fix st k v k'
  assume st: "env_wf st" "valid_name k"
  obtain st' where u: "unsetenv st (Some k) = Some (0, st')" "env_wf st'"
    "\<forall>k'. valid_name k' \<longrightarrow> env_map st' k' = (if k' = k then None else env_map st k')"
    using unsetenv_ok [OF st] by auto
  then show "env_wf (env_unset k st)"
    and "valid_name k' \<Longrightarrow> env_get (env_unset k st) k' = (if k' = k then None else env_get st k')"
    using st by (auto simp: env_unset_def env_get_def getenv_eq)
  assume "nonul v"
  then obtain st'' where s: "setenv (\<lambda>_. True) st (Some k) (Some v) True = Some (0, st'')" "env_wf st''"
    "\<forall>k'. valid_name k' \<longrightarrow> env_map st'' k' = (if k' = k then Some v else env_map st k')"
    using setenv_ok [OF st, of v "\<lambda>_. True"] by auto
  then show "env_wf (env_set k v st)"
    and "valid_name k' \<Longrightarrow> env_get (env_set k v st) k' = (if k' = k then Some v else env_get st k')"
    using st by (auto simp: env_set_def env_get_def getenv_eq)
qed

section \<open>Properties\<close>

text \<open>
  On a well-formed environment, setting a valid name with \<open>overwrite\<close> succeeds when the
  allocations do, keeps the environment well-formed and afterwards \<open>getenv\<close> returns the new
  value for the name and the old one for every other name; duplicates of the name that the
  kernel passed do not show through.
\<close>

theorem setenv_getenv:
  assumes "env_wf st" and "valid_name k" and "nonul v" and "valid_name k'" and "\<forall>i. ok i"
  shows "\<exists>st'. setenv ok st (Some k) (Some v) True = Some (0, st') \<and> env_wf st' \<and>
    getenv st' (Some k') = (if k' = k then Some (Some v) else getenv st (Some k'))"
  using setenv_ok [OF assms(1,2,3,5)] assms(1,4) by (auto simp: getenv_eq)

theorem setenv_getenv_witness:
  "\<exists>st'. setenv (\<lambda>_. True)
      \<lparr>environ = Some [bytes ''A=1'', bytes ''B=2''], env_owned = False, env_errno = ENONE\<rparr>
      (Some (bytes ''A'')) (Some (bytes ''7'')) True = Some (0, st') \<and> env_wf st' \<and>
    getenv st' (Some (bytes ''B'')) = (if bytes ''B'' = bytes ''A'' then Some (Some (bytes ''7''))
      else getenv \<lparr>environ = Some [bytes ''A=1'', bytes ''B=2''], env_owned = False,
        env_errno = ENONE\<rparr> (Some (bytes ''B'')))"
  by (rule setenv_getenv) (auto simp: env_wf_def valid_name_def)

text \<open>
  \<open>unsetenv\<close> of a valid name removes every entry of that name, duplicates included, and
  no other: afterwards \<open>getenv\<close> returns a null pointer for it and is unchanged elsewhere.
\<close>

theorem unsetenv_getenv:
  assumes "env_wf st" and "valid_name k" and "valid_name k'"
  shows "\<exists>st'. unsetenv st (Some k) = Some (0, st') \<and> env_wf st' \<and>
    getenv st' (Some k') = (if k' = k then Some None else getenv st (Some k'))"
  using unsetenv_ok [OF assms(1,2)] assms(1,3) by (auto simp: getenv_eq)

theorem unsetenv_getenv_witness:
  "\<exists>st'. unsetenv \<lparr>environ = Some [bytes ''A=1'', bytes ''A=2''], env_owned = False,
      env_errno = ENONE\<rparr> (Some (bytes ''A'')) = Some (0, st') \<and> env_wf st' \<and>
    getenv st' (Some (bytes ''A'')) = (if bytes ''A'' = bytes ''A'' then Some None
      else getenv \<lparr>environ = Some [bytes ''A=1'', bytes ''A=2''], env_owned = False,
        env_errno = ENONE\<rparr> (Some (bytes ''A'')))"
  by (rule unsetenv_getenv) (auto simp: env_wf_def valid_name_def)

text \<open>
  C40. Any sequence of assignments and removals of valid names acts on \<open>getenv\<close> as the same
  sequence of updates of a map: the last operation on a name decides, other names keep their
  values.
\<close>

theorem env_sequence:
  assumes "env_wf st" and "\<forall>a \<in> set as. env.ok_op a" and "valid_name k"
  shows "getenv (env.run as st) (Some k) =
    (case map_of (rev as) k of Some r \<Rightarrow> Some r | None \<Rightarrow> getenv st (Some k))"
proof -
  have "env_wf (env.run as st)"
    using assms(1,2) by (induction as arbitrary: st) (auto intro: env.step_inv)
  then show ?thesis
    using env.run_get [OF assms] assms
    by (auto simp: getenv_eq env_get_def split: option.splits)
qed

theorem env_sequence_witness:
  "getenv (env.run [(bytes ''A'', Some (bytes ''1'')), (bytes ''A'', None)]
      \<lparr>environ = None, env_owned = False, env_errno = ENONE\<rparr>) (Some (bytes ''A'')) =
    (case map_of (rev [(bytes ''A'', Some (bytes ''1'')), (bytes ''A'', None)]) (bytes ''A'') of
       Some r \<Rightarrow> Some r
     | None \<Rightarrow> getenv \<lparr>environ = None, env_owned = False, env_errno = ENONE\<rparr> (Some (bytes ''A'')))"
  by (rule env_sequence) (auto simp: env_wf_def valid_name_def env.ok_op_def)

end
