(* ===== verification/Bits.thy ===== *)
theory Bits
  imports Prelude
begin

text \<open>
  The compiler-runtime replacements of \<open>src/src/include/brk/bits.h\<close>: counting leading and
  trailing zeros of a 64-bit word with shifting loops, and byte swaps with masks.
\<close>

section \<open>Definitions\<close>

text \<open>
  The loops run on a word that is not zero and keep it so; the test for zero in front of them
  is the test of the callers.
\<close>

lemma shift_left_less:
  fixes v :: "64 word"
  assumes "v \<noteq> 0" and "\<not> bit v 63"
  shows "unat v < unat (push_bit 1 v)" and "unat (push_bit 1 v) = 2 * unat v"
proof -
  have "unat v < 2 ^ 63"
  proof (rule ccontr)
    assume a: "\<not> unat v < 2 ^ 63"
    have "unat v < 2 * 2 ^ 63" using unat_bound [of v] by simp
    with a have "unat v div 2 ^ 63 = 1" by (intro div_nat_eqI) auto
    then have "bit (unat v) 63" by (simp add: bit_iff_odd)
    with assms(2) show False by (simp add: bit_unsigned_iff)
  qed
  then show eq: "unat (push_bit 1 v) = 2 * unat v"
    by (simp add: push_bit_eq_mult unat_word_ariths)
  show "unat v < unat (push_bit 1 v)"
    unfolding eq using assms(1) by (simp add: unat_gt_0)
qed

function clz_loop :: "64 word \<Rightarrow> nat \<Rightarrow> nat" where
  "clz_loop v n = (if v = 0 \<or> bit v 63 then n else clz_loop (push_bit 1 v) (n + 1))"
  by pat_completeness auto
termination
proof (relation "measure (\<lambda>(v, n). 2 ^ 64 - unat v)", goal_cases)
  case (2 v n)
  then have "unat v < unat (push_bit 1 v)" by (intro shift_left_less) auto
  moreover have "unat (push_bit 1 v) < 2 ^ 64" using unat_bound [of "push_bit 1 v"] by simp
  ultimately show ?case by simp
qed simp

definition brk_clz64 :: "64 word \<Rightarrow> nat" where
  "brk_clz64 v = (if v = 0 then 64 else clz_loop v 0)"

lemma shift_right_less: "v \<noteq> 0 \<Longrightarrow> unat (drop_bit 1 v) < unat (v :: 64 word)"
proof -
  assume "v \<noteq> 0"
  then have "0 < unat v" by (simp add: unat_gt_0)
  moreover have "unat (drop_bit 1 v) = unat v div 2"
    by (simp add: drop_bit_eq_div unat_div)
  ultimately show ?thesis by simp
qed

function ctz_loop :: "64 word \<Rightarrow> nat \<Rightarrow> nat" where
  "ctz_loop v n = (if v = 0 \<or> bit v 0 then n else ctz_loop (drop_bit 1 v) (n + 1))"
  by pat_completeness auto
termination
  using shift_right_less by (relation "measure (\<lambda>(v, n). unat v)") auto

definition brk_ctz64 :: "64 word \<Rightarrow> nat" where
  "brk_ctz64 v = (if v = 0 then 64 else ctz_loop v 0)"

definition brk_bswap32 :: "32 word \<Rightarrow> 32 word" where
  "brk_bswap32 v =
     push_bit 24 (v AND 0x000000ff) OR push_bit 8 (v AND 0x0000ff00) OR
     drop_bit 8 (v AND 0x00ff0000) OR drop_bit 24 (v AND 0xff000000)"

definition brk_bswap16 :: "16 word \<Rightarrow> 16 word" where
  "brk_bswap16 v = push_bit 8 (v AND 0x00ff) OR drop_bit 8 (v AND 0xff00)"

declare clz_loop.simps [simp del] ctz_loop.simps [simp del]

section \<open>The position of the highest and of the lowest bit\<close>

lemma clz_loop_bounds:
  "v \<noteq> 0 \<Longrightarrow> \<exists>k \<le> 63. clz_loop v n = n + k \<and> 2 ^ (63 - k) \<le> unat v \<and> unat v < 2 ^ (64 - k)"
proof (induction v n rule: clz_loop.induct)
  case (1 v n)
  show ?case
  proof (cases "bit v 63")
    case True
    then have "bit (unat v) 63" by (simp add: bit_unsigned_iff)
    then have "2 ^ 63 \<le> unat v"
      by (metis bit_iff_odd div_less even_zero not_le)
    moreover have "unat v < 2 ^ 64" using unat_bound [of v] by simp
    ultimately show ?thesis
      using True by (intro exI [of _ 0]) (simp add: clz_loop.simps [of v])
  next
    case False
    let ?w = "push_bit 1 v"
    have w: "unat ?w = 2 * unat v" using 1 False by (intro shift_left_less) auto
    then have "?w \<noteq> 0" using 1 by (metis mult_eq_0_iff unat_0_iff zero_neq_numeral)
    then obtain k where k: "k \<le> 63" "clz_loop ?w (n + 1) = n + 1 + k" "2 ^ (63 - k) \<le> unat ?w"
      "unat ?w < 2 ^ (64 - k)"
      using 1 False by auto
    have "k < 63"
    proof (rule ccontr)
      assume "\<not> k < 63"
      with k(1) have "k = 63" by simp
      with k(4) w have "unat v = 0" by simp
      with 1 show False by (simp add: unat_0_iff)
    qed
    define j where "j = 62 - k"
    have j: "63 - k = Suc j" "64 - k = Suc (Suc j)" "63 - Suc k = j" "64 - Suc k = Suc j"
      using \<open>k < 63\<close> by (auto simp: j_def)
    have "clz_loop v n = n + Suc k"
      using 1 False k(2) by (simp add: clz_loop.simps [of v])
    moreover have "2 ^ (63 - Suc k) \<le> unat v" "unat v < 2 ^ (64 - Suc k)"
      using k(3,4) w j by simp_all
    ultimately show ?thesis
      using \<open>k < 63\<close> by (intro exI [of _ "Suc k"]) auto
  qed
qed

lemma brk_clz64_bounds:
  "v \<noteq> 0 \<Longrightarrow> brk_clz64 v \<le> 63 \<and> 2 ^ (63 - brk_clz64 v) \<le> unat v \<and> unat v < 2 ^ (64 - brk_clz64 v)"
  using clz_loop_bounds [of v 0] by (auto simp: brk_clz64_def)

lemma ctz_loop_first:
  "v \<noteq> 0 \<Longrightarrow> \<exists>k. ctz_loop v n = n + k \<and> bit v k \<and> (\<forall>i<k. \<not> bit v i)"
proof (induction v n rule: ctz_loop.induct)
  case (1 v n)
  show ?case
  proof (cases "bit v 0")
    case True
    then show ?thesis by (intro exI [of _ 0]) (simp add: ctz_loop.simps [of v])
  next
    case False
    let ?w = "drop_bit 1 v"
    have "?w \<noteq> 0"
    proof
      assume w: "?w = 0"
      have "bit v (Suc i) = bit ?w i" for i by (simp add: bit_drop_bit_eq)
      then have "\<not> bit v (Suc i)" for i unfolding w by simp
      with False have "v = 0"
        by (intro bit_word_eqI) (metis bit_0_eq bot_apply bot_bool_def not0_implies_Suc)
      with 1 show False by simp
    qed
    then obtain k where k: "ctz_loop ?w (n + 1) = n + 1 + k" "bit ?w k" "\<forall>i<k. \<not> bit ?w i"
      using 1 False by auto
    have "\<forall>i<Suc k. \<not> bit v i"
      using k(3) False by (auto simp: bit_drop_bit_eq less_Suc_eq_0_disj)
    moreover have "bit v (Suc k)" using k(2) by (simp add: bit_drop_bit_eq)
    ultimately show ?thesis
      using 1 False k(1) by (intro exI [of _ "Suc k"]) (simp add: ctz_loop.simps [of v])
  qed
qed

lemma brk_ctz64_first: "v \<noteq> 0 \<Longrightarrow> bit v (brk_ctz64 v) \<and> (\<forall>i < brk_ctz64 v. \<not> bit v i)"
  using ctz_loop_first [of v 0] by (auto simp: brk_ctz64_def)

end
