(* ===== verification/Tlsf.thy ===== *)
theory Tlsf
  imports Bits
begin

text \<open>
  The allocator of \<open>src/src/libbrkc/stdlib/malloc.c\<close>, a two-level segregated fit. The heap
  is split by type: block headers and free-list links are functions of the address of the
  block, the bytes of payloads a function of their address; the null pointer is address 0.
  Sizes and addresses are natural numbers below \<open>2 ^ 64\<close>; every addition that could wrap is
  behind a test in the code, and the test is in the model. The bitmaps are words of their
  width. The lists of active and of cached regions are lists, newest first. What \<open>mmap\<close>
  answers is a parameter (the attempt and the size give a base address or failure), and the
  calls of \<open>munmap\<close> are recorded.

  Constants are those of RV64: \<open>max_align_t\<close> is aligned to 16 bytes, a block header has 16,
  a region header 48.
\<close>

section \<open>Constants and data\<close>

definition TLSF_ALIGN :: nat where "TLSF_ALIGN = 16"
definition TLSF_SL_LOG2 :: nat where "TLSF_SL_LOG2 = 5"
definition TLSF_SL_COUNT :: nat where "TLSF_SL_COUNT = 32"
definition TLSF_FL_INDEX_MAX :: nat where "TLSF_FL_INDEX_MAX = 38"
definition TLSF_SMALL_BLOCK_SIZE :: nat where "TLSF_SMALL_BLOCK_SIZE = 32"
definition TLSF_MAX_BLOCK :: nat where "TLSF_MAX_BLOCK = 2 ^ 39"
definition TLSF_PAGE_SIZE :: nat where "TLSF_PAGE_SIZE = 4096"
definition TLSF_REGION_MIN :: nat where "TLSF_REGION_MIN = 65536"
definition TLSF_REGION_CACHE_MAX :: nat where "TLSF_REGION_CACHE_MAX = 4"
definition TLSF_REGION_CACHE_BYTES :: nat where "TLSF_REGION_CACHE_BYTES = 4194304"
definition TLSF_HEADER_SIZE :: nat where "TLSF_HEADER_SIZE = 16"
definition TLSF_MIN_BLOCK_SIZE :: nat where "TLSF_MIN_BLOCK_SIZE = 32"
definition TLSF_REGION_META_SIZE :: nat where "TLSF_REGION_META_SIZE = 48"
definition TLSF_REGION_OVERHEAD :: nat where "TLSF_REGION_OVERHEAD = 80"
definition SIZE_MAX :: nat where "SIZE_MAX = 2 ^ 64 - 1"

lemmas tlsf_consts =
  TLSF_ALIGN_def TLSF_SL_LOG2_def TLSF_SL_COUNT_def TLSF_FL_INDEX_MAX_def
  TLSF_SMALL_BLOCK_SIZE_def TLSF_MAX_BLOCK_def TLSF_PAGE_SIZE_def TLSF_REGION_MIN_def
  TLSF_REGION_CACHE_MAX_def TLSF_REGION_CACHE_BYTES_def TLSF_HEADER_SIZE_def
  TLSF_MIN_BLOCK_SIZE_def TLSF_REGION_META_SIZE_def TLSF_REGION_OVERHEAD_def SIZE_MAX_def

record tlsf_block =
  bsize :: nat
  prev_size :: nat

record tlsf_free_links =
  next_l :: nat
  prev_l :: nat

record tlsf_region =
  rbase :: nat
  rsize :: nat
  rfirst :: nat
  rend :: nat
  rusable :: nat

record tlsf =
  blk :: "nat \<Rightarrow> tlsf_block"
  lnk :: "nat \<Rightarrow> tlsf_free_links"
  free_list :: "nat \<Rightarrow> nat \<Rightarrow> nat"
  sl_bitmap :: "nat \<Rightarrow> 32 word"
  fl_bitmap :: "64 word"
  regions :: "tlsf_region list"
  region_cache :: "tlsf_region list"
  cache_count :: nat
  cache_bytes :: nat
  payload :: "nat \<Rightarrow> byte"
  munmaps :: "(nat \<times> nat) list"

section \<open>Size classes\<close>

definition tlsf_fls :: "nat \<Rightarrow> nat" where
  "tlsf_fls sz = 64 - 1 - brk_clz64 (of_nat sz)"

definition tlsf_ffs64 :: "64 word \<Rightarrow> nat" where
  "tlsf_ffs64 w = brk_ctz64 w"

definition tlsf_mapping_insert :: "nat \<Rightarrow> (nat \<times> nat) option" where
  "tlsf_mapping_insert sz =
     (if sz < TLSF_SMALL_BLOCK_SIZE then
        let sl = sz div TLSF_ALIGN in if sl < TLSF_SL_COUNT then Some (0, sl) else None
      else
        let f = tlsf_fls sz
        in if f > TLSF_FL_INDEX_MAX then None
           else Some (f, (sz div 2 ^ (f - TLSF_SL_LOG2)) mod TLSF_SL_COUNT))"

definition tlsf_mapping_search :: "nat \<Rightarrow> (nat \<times> nat) option" where
  "tlsf_mapping_search sz =
     (if sz < TLSF_SMALL_BLOCK_SIZE then tlsf_mapping_insert sz
      else
        let f = tlsf_fls sz
        in if f > TLSF_FL_INDEX_MAX then None
           else let round = 2 ^ (f - TLSF_SL_LOG2) - 1
             in if sz > SIZE_MAX - round then None else tlsf_mapping_insert (sz + round))"

definition tlsf_class_min :: "nat \<Rightarrow> nat \<Rightarrow> nat" where
  "tlsf_class_min fl sl =
     (if fl = 0 then sl * TLSF_ALIGN else 2 ^ fl + sl * 2 ^ (fl - TLSF_SL_LOG2))"

section \<open>Blocks\<close>

text \<open>The low bit of the size field marks an allocated block.\<close>

definition clear_used :: "nat \<Rightarrow> nat" where
  "clear_used s = 2 * (s div 2)"

definition set_used :: "nat \<Rightarrow> nat" where
  "set_used s = 2 * (s div 2) + 1"

definition tlsf_block_size :: "tlsf \<Rightarrow> nat \<Rightarrow> nat" where
  "tlsf_block_size st b = clear_used (bsize (blk st b))"

definition tlsf_block_is_free :: "tlsf \<Rightarrow> nat \<Rightarrow> bool" where
  "tlsf_block_is_free st b \<longleftrightarrow> even (bsize (blk st b))"

definition tlsf_block_payload :: "nat \<Rightarrow> nat" where
  "tlsf_block_payload b = b + TLSF_HEADER_SIZE"

definition tlsf_payload_block :: "nat \<Rightarrow> nat" where
  "tlsf_payload_block p = p - TLSF_HEADER_SIZE"

abbreviation set_bsize :: "nat \<Rightarrow> nat \<Rightarrow> tlsf \<Rightarrow> tlsf" where
  "set_bsize b s st \<equiv> st\<lparr>blk := (blk st)(b := (blk st b)\<lparr>bsize := s\<rparr>)\<rparr>"

abbreviation set_prev_size :: "nat \<Rightarrow> nat \<Rightarrow> tlsf \<Rightarrow> tlsf" where
  "set_prev_size b s st \<equiv> st\<lparr>blk := (blk st)(b := (blk st b)\<lparr>prev_size := s\<rparr>)\<rparr>"

abbreviation set_next :: "nat \<Rightarrow> nat \<Rightarrow> tlsf \<Rightarrow> tlsf" where
  "set_next b n st \<equiv> st\<lparr>lnk := (lnk st)(b := (lnk st b)\<lparr>next_l := n\<rparr>)\<rparr>"

abbreviation set_prev :: "nat \<Rightarrow> nat \<Rightarrow> tlsf \<Rightarrow> tlsf" where
  "set_prev b n st \<equiv> st\<lparr>lnk := (lnk st)(b := (lnk st b)\<lparr>prev_l := n\<rparr>)\<rparr>"

abbreviation set_head :: "nat \<Rightarrow> nat \<Rightarrow> nat \<Rightarrow> tlsf \<Rightarrow> tlsf" where
  "set_head fl sl b st \<equiv> st\<lparr>free_list := (free_list st)(fl := (free_list st fl)(sl := b))\<rparr>"

section \<open>Free lists\<close>

definition tlsf_free_insert :: "nat \<Rightarrow> tlsf \<Rightarrow> tlsf" where
  "tlsf_free_insert b st =
     (case tlsf_mapping_insert (tlsf_block_size st b) of
        None \<Rightarrow> st
      | Some (fl, sl) \<Rightarrow>
          (let st = set_prev b 0 st;
               h = free_list st fl sl;
               st = set_next b h st;
               st = (if h \<noteq> 0 then set_prev h b st else st);
               st = set_head fl sl b st;
               st = st\<lparr>sl_bitmap := (sl_bitmap st)(fl := sl_bitmap st fl OR push_bit sl 1)\<rparr>
           in st\<lparr>fl_bitmap := fl_bitmap st OR push_bit fl 1\<rparr>))"

definition tlsf_free_remove :: "nat \<Rightarrow> tlsf \<Rightarrow> tlsf" where
  "tlsf_free_remove b st =
     (case tlsf_mapping_insert (tlsf_block_size st b) of
        None \<Rightarrow> st
      | Some (fl, sl) \<Rightarrow>
          (let p = prev_l (lnk st b); n = next_l (lnk st b);
               st = (if p \<noteq> 0 then set_next p n st else set_head fl sl n st);
               st = (if n \<noteq> 0 then set_prev n p st else st)
           in if free_list st fl sl = 0 then
                let st = st\<lparr>sl_bitmap := (sl_bitmap st)(fl := sl_bitmap st fl AND NOT (push_bit sl 1))\<rparr>
                in if sl_bitmap st fl = 0
                   then st\<lparr>fl_bitmap := fl_bitmap st AND NOT (push_bit fl 1)\<rparr>
                   else st
              else st))"

definition tlsf_find :: "nat \<Rightarrow> tlsf \<Rightarrow> nat option" where
  "tlsf_find sz st =
     (if fl_bitmap st = 0 then None
      else case tlsf_mapping_search sz of
          None \<Rightarrow> None
        | Some (fl, sl) \<Rightarrow>
            (let sl_map = (ucast (sl_bitmap st fl) :: 64 word) AND push_bit sl (- 1);
                 out = (\<lambda>fl sl. if free_list st fl sl \<noteq> 0 then Some (free_list st fl sl) else None)
             in if sl_map = 0 then
                  if fl + 1 \<ge> 64 then None
                  else let fl_map = fl_bitmap st AND push_bit (fl + 1) (- 1)
                    in if fl_map = 0 then None
                       else let fl = tlsf_ffs64 fl_map
                         in out fl (tlsf_ffs64 (ucast (sl_bitmap st fl)))
                else out fl (tlsf_ffs64 sl_map)))"

definition tlsf_size_to_block :: "nat \<Rightarrow> nat option" where
  "tlsf_size_to_block sz =
     (if sz = 0 then None
      else if sz > SIZE_MAX - (TLSF_ALIGN - 1) then None
      else let aligned = (sz + TLSF_ALIGN - 1) div TLSF_ALIGN * TLSF_ALIGN
        in if aligned > SIZE_MAX - TLSF_HEADER_SIZE then None
           else let need = aligned + TLSF_HEADER_SIZE;
                    need = (if need < TLSF_MIN_BLOCK_SIZE then TLSF_MIN_BLOCK_SIZE else need)
             in if need \<ge> TLSF_MAX_BLOCK then None else Some need)"

section \<open>Regions\<close>

definition tlsf_region_find :: "nat \<Rightarrow> tlsf \<Rightarrow> tlsf_region option" where
  "tlsf_region_find addr st =
     List.find (\<lambda>r. addr \<ge> rbase r \<and> addr < rbase r + rsize r) (regions st)"

definition tlsf_region_remove :: "tlsf_region \<Rightarrow> tlsf \<Rightarrow> tlsf" where
  "tlsf_region_remove r st = st\<lparr>regions := remove1 r (regions st)\<rparr>"

definition tlsf_region_activate :: "nat \<Rightarrow> nat \<Rightarrow> tlsf \<Rightarrow> tlsf" where
  "tlsf_region_activate base sz st =
     (let start = base + TLSF_REGION_META_SIZE;
          first = start + TLSF_HEADER_SIZE;
          end = base + sz - TLSF_HEADER_SIZE;
          usable = end - first;
          st = st\<lparr>blk := (blk st)(
                 start := \<lparr>bsize = set_used TLSF_HEADER_SIZE, prev_size = 0\<rparr>,
                 first := \<lparr>bsize = usable, prev_size = TLSF_HEADER_SIZE\<rparr>,
                 end := \<lparr>bsize = set_used TLSF_HEADER_SIZE, prev_size = usable\<rparr>)\<rparr>;
          st = st\<lparr>regions := \<lparr>rbase = base, rsize = sz, rfirst = first, rend = end,
                 rusable = usable\<rparr> # regions st\<rparr>
      in tlsf_free_insert first st)"

definition munmap :: "nat \<Rightarrow> nat \<Rightarrow> tlsf \<Rightarrow> tlsf" where
  "munmap base sz st = st\<lparr>munmaps := munmaps st @ [(base, sz)]\<rparr>"

fun flush_loop :: "tlsf_region list \<Rightarrow> tlsf \<Rightarrow> tlsf" where
  "flush_loop [] st = st\<lparr>region_cache := []\<rparr>"
| "flush_loop (r # rs) st = flush_loop rs (munmap (rbase r) (rsize r) st)"

definition tlsf_region_cache_flush :: "tlsf \<Rightarrow> tlsf" where
  "tlsf_region_cache_flush st =
     (flush_loop (region_cache st) st)\<lparr>cache_count := 0, cache_bytes := 0\<rparr>"

definition tlsf_region_put_cache :: "tlsf_region \<Rightarrow> tlsf \<Rightarrow> tlsf" where
  "tlsf_region_put_cache r st =
     (if cache_count st \<ge> TLSF_REGION_CACHE_MAX \<or>
         rsize r > TLSF_REGION_CACHE_BYTES - cache_bytes st
      then munmap (rbase r) (rsize r) st
      else st\<lparr>region_cache := r # region_cache st, cache_count := cache_count st + 1,
              cache_bytes := cache_bytes st + rsize r\<rparr>)"

text \<open>The scan for the smallest cached region that is large enough, the first of equals.\<close>

fun best_fit :: "nat \<Rightarrow> tlsf_region list \<Rightarrow> tlsf_region option \<Rightarrow> tlsf_region option" where
  "best_fit min_usable [] best = best"
| "best_fit min_usable (r # rs) best =
     (if rusable r < min_usable then best_fit min_usable rs best
      else case best of
          None \<Rightarrow> best_fit min_usable rs (Some r)
        | Some b \<Rightarrow> best_fit min_usable rs (if rusable r < rusable b then Some r else Some b))"

definition tlsf_region_take_cache :: "nat \<Rightarrow> tlsf \<Rightarrow> tlsf_region option \<times> tlsf" where
  "tlsf_region_take_cache min_usable st =
     (case best_fit min_usable (region_cache st) None of
        None \<Rightarrow> (None, st)
      | Some r \<Rightarrow> (Some r, st\<lparr>region_cache := remove1 r (region_cache st),
                             cache_count := cache_count st - 1,
                             cache_bytes := cache_bytes st - rsize r\<rparr>))"

type_synonym mmap_fun = "nat \<Rightarrow> nat \<Rightarrow> nat option"

definition grow_size :: "nat \<Rightarrow> nat" where
  "grow_size class_min =
     (let sz = class_min + TLSF_REGION_OVERHEAD;
          sz = (if sz < TLSF_REGION_MIN then TLSF_REGION_MIN else sz);
          sz = (if sz > TLSF_MAX_BLOCK then TLSF_MAX_BLOCK else sz)
      in (sz + TLSF_PAGE_SIZE - 1) div TLSF_PAGE_SIZE * TLSF_PAGE_SIZE)"

text \<open>A failing \<open>mmap\<close> is tried once more after the cached regions have been unmapped.\<close>

definition map_pages :: "mmap_fun \<Rightarrow> nat \<Rightarrow> tlsf \<Rightarrow> nat option \<times> tlsf" where
  "map_pages mmap sz st =
     (case mmap 0 sz of
        Some base \<Rightarrow> (Some base, st)
      | None \<Rightarrow> (mmap 1 sz, tlsf_region_cache_flush st))"

text \<open>The results are whether a region was added (\<open>0\<close> in the code), and the state.\<close>

definition grow_map :: "mmap_fun \<Rightarrow> nat \<Rightarrow> tlsf \<Rightarrow> bool \<times> tlsf" where
  "grow_map mmap class_min st =
     (let sz = grow_size class_min
      in if sz < class_min + TLSF_REGION_OVERHEAD \<or> sz > TLSF_MAX_BLOCK then (False, st)
         else case map_pages mmap sz st of
             (None, st) \<Rightarrow> (False, st)
           | (Some base, st) \<Rightarrow>
               if base mod TLSF_ALIGN \<noteq> 0 then (False, munmap base sz st)
               else let usable = sz - TLSF_REGION_OVERHEAD
                 in if usable < class_min \<or> usable \<ge> TLSF_MAX_BLOCK
                    then (False, munmap base sz st)
                    else (True, tlsf_region_activate base sz st))"

definition tlsf_grow :: "mmap_fun \<Rightarrow> nat \<Rightarrow> tlsf \<Rightarrow> bool \<times> tlsf" where
  "tlsf_grow mmap min_size st =
     (case tlsf_mapping_search min_size of
        None \<Rightarrow> (False, st)
      | Some (fl, sl) \<Rightarrow>
          let class_min = tlsf_class_min fl sl
          in if class_min < min_size \<or> class_min > TLSF_MAX_BLOCK - TLSF_REGION_OVERHEAD
             then (False, st)
             else case tlsf_region_take_cache class_min st of
                 (Some r, st) \<Rightarrow> (True, tlsf_region_activate (rbase r) (rsize r) st)
               | (None, st) \<Rightarrow> grow_map mmap class_min st)"

section \<open>Splitting and merging\<close>

definition tlsf_split :: "nat \<Rightarrow> nat \<Rightarrow> tlsf \<Rightarrow> tlsf" where
  "tlsf_split b need st =
     (let sz = tlsf_block_size st b
      in if sz < need + TLSF_MIN_BLOCK_SIZE then st
         else
           let rest = sz - need;
               st = set_bsize b (if odd (bsize (blk st b)) then set_used need else need) st;
               tail = b + need;
               st = set_bsize tail rest st;
               st = set_prev_size tail need st;
               nxt = tail + rest;
               st = set_prev_size nxt rest st;
               st = (if tlsf_block_is_free st nxt then
                       let st = tlsf_free_remove nxt st;
                           st = set_bsize tail (rest + tlsf_block_size st nxt) st;
                           aft = nxt + tlsf_block_size st nxt
                       in set_prev_size aft (tlsf_block_size st tail) st
                     else st)
           in tlsf_free_insert tail st)"

definition tlsf_free_block :: "nat \<Rightarrow> tlsf \<Rightarrow> tlsf" where
  "tlsf_free_block b st =
     (let st = set_bsize b (clear_used (bsize (blk st b))) st;
          nxt = b + tlsf_block_size st b;
          st = (if tlsf_block_is_free st nxt then
                  let st = tlsf_free_remove nxt st
                  in set_bsize b (tlsf_block_size st b + tlsf_block_size st nxt) st
                else st);
          prv = b - prev_size (blk st b);
          (b, st) = (if tlsf_block_is_free st prv then
                  let st = tlsf_free_remove prv st
                  in (prv, set_bsize prv (tlsf_block_size st prv + tlsf_block_size st b) st)
                else (b, st));
          nxt = b + tlsf_block_size st b;
          st = set_prev_size nxt (tlsf_block_size st b) st
      in case tlsf_region_find b st of
          Some r \<Rightarrow>
            if b = rfirst r \<and> tlsf_block_size st b = rusable r
            then tlsf_region_put_cache r (tlsf_region_remove r st)
            else tlsf_free_insert b st
        | None \<Rightarrow> tlsf_free_insert b st)"

section \<open>The interface\<close>

definition malloc :: "mmap_fun \<Rightarrow> nat \<Rightarrow> tlsf \<Rightarrow> nat \<times> tlsf" where
  "malloc mmap sz st =
     (case tlsf_size_to_block sz of
        None \<Rightarrow> (0, st)
      | Some need \<Rightarrow>
          let (found, st) =
                (case tlsf_find need st of
                   Some b \<Rightarrow> (Some b, st)
                 | None \<Rightarrow>
                     let (grown, st) = tlsf_grow mmap need st
                     in if grown then (tlsf_find need st, st) else (None, st))
          in case found of
              None \<Rightarrow> (0, st)
            | Some b \<Rightarrow>
                let st = tlsf_free_remove b st;
                    st = tlsf_split b need st;
                    st = set_bsize b (set_used (bsize (blk st b))) st
                in (tlsf_block_payload b, st))"

definition free :: "nat \<Rightarrow> tlsf \<Rightarrow> tlsf" where
  "free ptr st =
     (if ptr = 0 then st
      else let b = tlsf_payload_block ptr
        in if tlsf_block_is_free st b then st else tlsf_free_block b st)"

definition calloc :: "mmap_fun \<Rightarrow> nat \<Rightarrow> nat \<Rightarrow> tlsf \<Rightarrow> nat \<times> tlsf" where
  "calloc mmap nmemb sz st =
     (if nmemb = 0 \<or> sz = 0 then (0, st)
      else if nmemb > SIZE_MAX div sz then (0, st)
      else let total = nmemb * sz; (ptr, st) = malloc mmap total st
        in if ptr \<noteq> 0
           then (ptr, st\<lparr>payload := (\<lambda>a. if ptr \<le> a \<and> a < ptr + total then 0 else payload st a)\<rparr>)
           else (ptr, st))"

definition copy_payload :: "nat \<Rightarrow> nat \<Rightarrow> nat \<Rightarrow> tlsf \<Rightarrow> tlsf" where
  "copy_payload dst src n st =
     st\<lparr>payload := (\<lambda>a. if dst \<le> a \<and> a < dst + n then payload st (src + (a - dst)) else payload st a)\<rparr>"

definition realloc_move :: "mmap_fun \<Rightarrow> nat \<Rightarrow> nat \<Rightarrow> tlsf \<Rightarrow> nat \<times> tlsf" where
  "realloc_move mmap ptr sz st =
     (let b = tlsf_payload_block ptr; (new_ptr, st) = malloc mmap sz st
      in if new_ptr = 0 then (0, st)
         else let capacity = tlsf_block_size st b - TLSF_HEADER_SIZE;
                  copy = (if capacity < sz then capacity else sz);
                  st = copy_payload new_ptr ptr copy st
           in (new_ptr, free ptr st))"

definition realloc :: "mmap_fun \<Rightarrow> nat \<Rightarrow> nat \<Rightarrow> tlsf \<Rightarrow> nat \<times> tlsf" where
  "realloc mmap ptr sz st =
     (if ptr = 0 then malloc mmap sz st
      else if sz = 0 then (0, free ptr st)
      else case tlsf_size_to_block sz of
          None \<Rightarrow> (0, st)
        | Some need \<Rightarrow>
            let b = tlsf_payload_block ptr
            in if need \<le> tlsf_block_size st b then (ptr, tlsf_split b need st)
               else
                 let nxt = b + tlsf_block_size st b
                 in if tlsf_block_is_free st nxt then
                      let total = tlsf_block_size st b;
                          total = (if tlsf_block_size st nxt \<le> SIZE_MAX - total
                                   then total + tlsf_block_size st nxt else 0)
                      in if total \<ge> need then
                           let st = tlsf_free_remove nxt st;
                               st = set_bsize b (set_used total) st;
                               st = set_prev_size (b + total) total st
                           in (ptr, tlsf_split b need st)
                         else realloc_move mmap ptr sz st
                    else realloc_move mmap ptr sz st)"

end
