(* ===== verification/Tlsf_Lists.thy ===== *)
theory Tlsf_Lists
  imports Tlsf
begin

text \<open>
  The size classes and the segregated free lists of the allocator: which sizes a class holds,
  why the search rounds up, what the free lists and the two bitmaps represent, and that
  inserting, removing and finding keep to it.
\<close>

section \<open>Size classes\<close>

lemma tlsf_fls_bounds:
  assumes "0 < sz" and "sz < 2 ^ 64"
  shows "tlsf_fls sz \<le> 63" and "2 ^ tlsf_fls sz \<le> sz" and "sz < 2 ^ Suc (tlsf_fls sz)"
proof -
  have u: "unat (of_nat sz :: 64 word) = sz" using assms by (simp add: unat_of_nat_small)
  with assms have "(of_nat sz :: 64 word) \<noteq> 0" by force
  note b = brk_clz64_bounds [OF this]
  then have "64 - brk_clz64 (of_nat sz) = Suc (63 - brk_clz64 (of_nat sz))" by arith
  with b have "brk_clz64 (of_nat sz) \<le> 63" "2 ^ (63 - brk_clz64 (of_nat sz)) \<le> sz"
    "sz < 2 ^ Suc (63 - brk_clz64 (of_nat sz))"
    by (metis u)+
  then show "tlsf_fls sz \<le> 63" "2 ^ tlsf_fls sz \<le> sz" "sz < 2 ^ Suc (tlsf_fls sz)"
    by (auto simp: tlsf_fls_def)
qed

lemma tlsf_fls_unique:
  assumes "2 ^ k \<le> sz" and "sz < 2 ^ Suc k" and "sz < 2 ^ 64"
  shows "tlsf_fls sz = k"
proof -
  have "0 < sz" using assms(1) by (metis gr0I not_less_zero power_eq_0_iff zero_neq_numeral le_zero_eq)
  note b = tlsf_fls_bounds [OF this assms(3)]
  have "k < Suc (tlsf_fls sz)" "tlsf_fls sz < Suc k"
    using b assms by (meson le_less_trans one_less_numeral_iff power_less_imp_less_exp semiring_norm(76))+
  then show ?thesis by simp
qed

lemma tlsf_fls_ge5:
  assumes "32 \<le> sz" and "sz < 2 ^ 64"
  shows "5 \<le> tlsf_fls sz"
proof (rule ccontr)
  assume "\<not> 5 \<le> tlsf_fls sz"
  then have "(2::nat) ^ Suc (tlsf_fls sz) \<le> 2 ^ 5" by (intro power_increasing) auto
  with tlsf_fls_bounds [of sz] assms show False by auto
qed

text \<open>
  A class at level \<open>fl\<close> covers \<open>2 ^ (fl - 5)\<close> sizes from its minimum.
\<close>

lemma mapping_insert_class:
  assumes "tlsf_mapping_insert sz = Some (fl, sl)" and "32 \<le> sz" and "sz < 2 ^ 64"
  shows "5 \<le> fl" and "fl \<le> 38" and "sl < 32" and "tlsf_class_min fl sl \<le> sz"
    and "sz < tlsf_class_min fl sl + 2 ^ (fl - 5)"
proof -
  have f: "fl = tlsf_fls sz" "sl = (sz div 2 ^ (fl - 5)) mod 32" "fl \<le> 38"
    using assms(1,2) by (auto simp: tlsf_mapping_insert_def tlsf_consts Let_def split: if_splits)
  have ge: "5 \<le> fl" using tlsf_fls_ge5 [OF assms(2,3)] f by simp
  show "5 \<le> fl" "fl \<le> 38" "sl < 32" using ge f by auto
  define q :: nat where "q = 2 ^ (fl - 5)"
  have q0: "0 < q" by (simp add: q_def)
  have p: "2 ^ fl = 32 * q" unfolding q_def
    using ge power_add [of "2::nat" 5 "fl - 5"] by simp
  have b: "32 * q \<le> sz" "sz < 64 * q"
    using tlsf_fls_bounds [of sz] assms f p by auto
  have d: "32 \<le> sz div q" "sz div q < 64"
    using b q0 by (simp_all add: less_eq_div_iff_mult_less_eq div_less_iff_less_mult)
  then have sl: "sl = sz div q - 32"
    unfolding f(2) q_def [symmetric] by (simp add: mod_if [of "sz div q"])
  have cm: "tlsf_class_min fl sl = sz div q * q"
    using ge d unfolding tlsf_class_min_def tlsf_consts sl p q_def [symmetric]
    by (simp add: diff_mult_distrib)
  show "tlsf_class_min fl sl \<le> sz" unfolding cm by (simp add: div_times_less_eq_dividend)
  show "sz < tlsf_class_min fl sl + 2 ^ (fl - 5)"
    unfolding cm q_def [symmetric] using q0 by (metis dividend_less_div_times add.commute)
qed

lemma mapping_insert_total:
  assumes "32 \<le> sz" and "sz < 2 ^ 39"
  shows "\<exists>fl sl. tlsf_mapping_insert sz = Some (fl, sl)"
proof -
  have "sz < 2 ^ 64" using assms by simp
  then have "2 ^ tlsf_fls sz < (2 :: nat) ^ 39"
    using tlsf_fls_bounds(2) [of sz] assms by (meson le_less_trans zero_less_numeral less_le_trans)
  then have "tlsf_fls sz < 39" by (meson power_less_imp_less_exp one_less_numeral_iff semiring_norm(76))
  then show ?thesis using assms by (auto simp: tlsf_mapping_insert_def tlsf_consts Let_def)
qed

lemma mapping_insert_range:
  assumes "tlsf_mapping_insert sz = Some (fl, sl)"
  shows "fl \<le> 38" and "sl < 32"
  using assms by (auto simp: tlsf_mapping_insert_def tlsf_consts Let_def split: if_splits)


lemma class_min_mono:
  assumes "5 \<le> fl" and "sl \<le> 32" and "fl < fl' \<or> fl = fl' \<and> sl \<le> sl'"
  shows "tlsf_class_min fl sl \<le> tlsf_class_min fl' sl'"
proof (cases "fl = fl'")
  case True
  then show ?thesis using assms by (auto simp: tlsf_class_min_def)
next
  case False
  with assms have lt: "Suc fl \<le> fl'" by simp
  have "2 ^ fl = 2 ^ 5 * (2 :: nat) ^ (fl - 5)"
    using assms(1) power_add [of "2::nat" 5 "fl - 5"] by simp
  moreover have "sl * 2 ^ (fl - 5) \<le> 32 * (2::nat) ^ (fl - 5)" using assms(2) by simp
  ultimately have "2 ^ fl + sl * 2 ^ (fl - 5) \<le> (2 :: nat) ^ Suc fl" by simp
  also have "\<dots> \<le> 2 ^ fl'" using lt by (rule power_increasing) simp
  finally show ?thesis using assms(1) lt by (simp add: tlsf_class_min_def tlsf_consts)
qed

lemma class_top: "5 \<le> fl \<Longrightarrow> tlsf_class_min fl sl + 2 ^ (fl - 5) = tlsf_class_min fl (Suc sl)"
  by (simp add: tlsf_class_min_def tlsf_consts)

text \<open>The search rounds the size up to the minimum of the class it returns.\<close>

lemma mapping_search_class:
  assumes s: "tlsf_mapping_search sz = Some (fl, sl)" and sz: "32 \<le> sz" "sz < 2 ^ 64"
  shows "5 \<le> fl" and "fl \<le> 38" and "sl < 32" and "sz \<le> tlsf_class_min fl sl"
proof -
  define f where "f = tlsf_fls sz"
  define q :: nat where "q = 2 ^ (f - 5)"
  have q0: "0 < q" by (simp add: q_def)
  have m: "tlsf_mapping_insert (sz + (q - 1)) = Some (fl, sl)" and lt: "sz + (q - 1) < 2 ^ 64"
    using s sz by (auto simp: tlsf_mapping_search_def tlsf_consts Let_def f_def q_def split: if_splits)
  have "32 \<le> sz + (q - 1)" using sz by simp
  note c = mapping_insert_class [OF m this lt]
  show "5 \<le> fl" "fl \<le> 38" "sl < 32" using c by auto
  have f5: "5 \<le> f" using tlsf_fls_ge5 [OF sz] by (simp add: f_def)
  have fb: "2 ^ f \<le> sz" "sz < 2 ^ Suc f" using tlsf_fls_bounds [of sz] sz by (auto simp: f_def)
  have fl: "fl = tlsf_fls (sz + (q - 1))"
    using m sz by (auto simp: tlsf_mapping_insert_def tlsf_consts Let_def split: if_splits)
  show "sz \<le> tlsf_class_min fl sl"
  proof (cases "sz + (q - 1) < 2 ^ Suc f")
    case True
    then have "fl = f" using fb lt unfolding fl by (intro tlsf_fls_unique) auto
    then have "sz + (q - 1) < tlsf_class_min f sl + q" using c(5) by (simp add: q_def)
    then have "sz < tlsf_class_min f sl + 1" using q0 by linarith
    then show ?thesis using \<open>fl = f\<close> by simp
  next
    case False
    moreover have "sz + (q - 1) < 2 ^ Suc fl"
      unfolding fl using lt sz by (intro tlsf_fls_bounds(3)) auto
    ultimately have "(2 :: nat) ^ Suc f < 2 ^ Suc fl" by linarith
    then have "Suc f \<le> fl" by (metis Suc_less_eq Suc_leI power_strict_increasing_iff one_less_numeral_iff semiring_norm(76))
    then have "2 ^ Suc f \<le> (2::nat) ^ fl" by (intro power_increasing) auto
    then show ?thesis using fb c(1) by (simp add: tlsf_class_min_def)
  qed
qed

text \<open>
  Hence every block whose class is the one the search returns, or a later one, is large
  enough: the head of a list can be taken without looking at its size.
\<close>

lemma good_fit:
  assumes "tlsf_mapping_search need = Some (fl, sl)" and "32 \<le> need" "need < 2 ^ 64"
    and "tlsf_mapping_insert sz = Some (fl', sl')" and "32 \<le> sz" "sz < 2 ^ 64"
    and "fl < fl' \<or> fl = fl' \<and> sl \<le> sl'"
  shows "need \<le> sz"
  using mapping_search_class [OF assms(1-3)] mapping_insert_class [OF assms(4-6)]
    class_min_mono [of fl sl fl' sl'] assms(7) by linarith

lemma size_to_block_bounds:
  assumes "tlsf_size_to_block sz = Some need"
  shows "32 \<le> need" and "sz + 16 \<le> need" and "16 dvd need" and "need < 2 ^ 39"
    and "need < sz + 48"
  using assms by (auto simp: tlsf_size_to_block_def tlsf_consts Let_def split: if_splits)


section \<open>Doubly linked segments\<close>

text \<open>
  \<open>dseg l p h xs e\<close>: from \<open>h\<close> the next links run through \<open>xs\<close> and reach \<open>e\<close>, and the
  previous links run back from the last of \<open>xs\<close> to \<open>p\<close>.
\<close>

fun dseg :: "(nat \<Rightarrow> tlsf_free_links) \<Rightarrow> nat \<Rightarrow> nat \<Rightarrow> nat list \<Rightarrow> nat \<Rightarrow> bool" where
  "dseg l p h [] e \<longleftrightarrow> h = e"
| "dseg l p h (x # xs) e \<longleftrightarrow> h = x \<and> x \<noteq> 0 \<and> prev_l (l x) = p \<and> dseg l x (next_l (l x)) xs e"

lemma dseg_append:
  "dseg l p h (xs @ ys) e \<longleftrightarrow> (\<exists>m. dseg l p h xs m \<and> dseg l (last (p # xs)) m ys e)"
  by (induction xs arbitrary: p h) auto

lemma dseg_cong:
  "(\<And>x. x \<in> set xs \<Longrightarrow> l x = l' x) \<Longrightarrow> dseg l p h xs e = dseg l' p h xs e"
  by (induction xs arbitrary: p h) auto

lemma dseg_upd_other [simp]:
  "y \<notin> set xs \<Longrightarrow> dseg (l(y := v)) p h xs e = dseg l p h xs e"
  by (rule dseg_cong) auto

lemma dseg_nonzero: "dseg l p h xs e \<Longrightarrow> 0 \<notin> set xs"
  by (induction xs arbitrary: p h) auto

lemma dseg_head: "dseg l p h xs 0 \<Longrightarrow> h = 0 \<longleftrightarrow> xs = []"
  by (cases xs) auto

lemma dseg_head_mem: "dseg l p h xs 0 \<Longrightarrow> h \<noteq> 0 \<Longrightarrow> h \<in> set xs"
  by (cases xs) auto

lemma dseg_set_prev:
  "dseg l p h (y # ys) e \<Longrightarrow> distinct (y # ys) \<Longrightarrow>
   dseg (l(y := (l y)\<lparr>prev_l := p'\<rparr>)) p' h (y # ys) e"
  by simp

lemma dseg_set_next:
  "dseg l p h xs e \<Longrightarrow> distinct xs \<Longrightarrow> xs \<noteq> [] \<Longrightarrow>
   dseg (l(last xs := (l (last xs))\<lparr>next_l := e'\<rparr>)) p h xs e'"
proof (induction xs arbitrary: p h)
  case (Cons x xs)
  then show ?case by (cases "xs = []") auto
qed simp

text \<open>The link updates of a removal, and that they take an element out of its segment.\<close>

definition unlink :: "nat \<Rightarrow> (nat \<Rightarrow> tlsf_free_links) \<Rightarrow> nat \<Rightarrow> tlsf_free_links" where
  "unlink b l =
     (let p = prev_l (l b); n = next_l (l b);
          l = (if p \<noteq> 0 then l(p := (l p)\<lparr>next_l := n\<rparr>) else l)
      in if n \<noteq> 0 then l(n := (l n)\<lparr>prev_l := p\<rparr>) else l)"

lemma dseg_unlink:
  assumes d: "dseg l 0 h (xs @ b # ys) 0" and dist: "distinct (xs @ b # ys)"
  shows "prev_l (l b) = 0 \<longleftrightarrow> xs = []"
    and "prev_l (l b) \<noteq> 0 \<Longrightarrow> prev_l (l b) \<in> set xs"
    and "next_l (l b) \<noteq> 0 \<Longrightarrow> next_l (l b) \<in> set ys"
    and "dseg (unlink b l) 0 (if prev_l (l b) \<noteq> 0 then h else next_l (l b)) (xs @ ys) 0"
proof -
  define n where "n = next_l (l b)"
  from d have x: "dseg l 0 h xs b" and pb: "prev_l (l b) = last (0 # xs)"
    and y: "dseg l b n ys 0" and nz: "0 \<notin> set (xs @ b # ys)"
    using dseg_nonzero [OF d] by (auto simp: dseg_append n_def)
  show p0: "prev_l (l b) = 0 \<longleftrightarrow> xs = []" using pb nz by (cases xs rule: rev_cases) auto
  show "prev_l (l b) \<noteq> 0 \<Longrightarrow> prev_l (l b) \<in> set xs"
    using pb p0 last_in_set [of xs] by auto
  show "next_l (l b) \<noteq> 0 \<Longrightarrow> next_l (l b) \<in> set ys"
    using y dseg_head_mem unfolding n_def by blast
  define l1 where "l1 = (if xs = [] then l else l(last xs := (l (last xs))\<lparr>next_l := n\<rparr>))"
  have y1: "dseg l1 b n ys 0"
    using y dist by (cases xs rule: rev_cases) (auto simp: l1_def)
  have x1: "dseg l1 0 (if xs = [] then n else h) xs n"
    using dseg_set_next [OF x] dist by (auto simp: l1_def)
  have u: "unlink b l = (if n \<noteq> 0 then l1(n := (l1 n)\<lparr>prev_l := last (0 # xs)\<rparr>) else l1)"
    using p0 pb by (cases "xs = []") (simp_all add: unlink_def n_def l1_def Let_def)
  have "dseg (unlink b l) 0 (if xs = [] then n else h) (xs @ ys) 0"
  proof (cases ys)
    case Nil
    then show ?thesis using x1 y1 by (simp add: dseg_append u)
  next
    case (Cons y ys')
    then have ny: "n = y" "y \<noteq> 0" using y by auto
    let ?l2 = "l1(y := (l1 y)\<lparr>prev_l := last (0 # xs)\<rparr>)"
    have "dseg ?l2 (last (0 # xs)) n (y # ys') 0"
      using dseg_set_prev [of l1 b n y ys' 0] y1 dist Cons by simp
    moreover have "dseg ?l2 0 (if xs = [] then n else h) xs n"
      using x1 dist Cons by (subst dseg_cong [of _ ?l2 l1]) auto
    ultimately show ?thesis using Cons ny u dseg_append by metis
  qed
  then show "dseg (unlink b l) 0 (if prev_l (l b) \<noteq> 0 then h else next_l (l b)) (xs @ ys) 0"
    using p0 by (simp add: n_def split: if_splits)
qed


section \<open>The free-list table\<close>

declare split_paired_All [simp del] split_paired_Ex [simp del]

text \<open>
  \<open>fl_rep st F\<close>: the list of class \<open>(fl, sl)\<close> holds the blocks \<open>F (fl, sl)\<close>, each of a size
  of that class, and the bitmaps mark exactly the non-empty lists and the non-empty levels.
\<close>

definition fl_rep :: "tlsf \<Rightarrow> (nat \<times> nat \<Rightarrow> nat list) \<Rightarrow> bool" where
  "fl_rep st F \<longleftrightarrow>
     (\<forall>fl sl. dseg (lnk st) 0 (free_list st fl sl) (F (fl, sl)) 0 \<and> distinct (F (fl, sl))) \<and>
     (\<forall>c. \<forall>b \<in> set (F c). tlsf_mapping_insert (tlsf_block_size st b) = Some c) \<and>
     (\<forall>fl sl. bit (sl_bitmap st fl) sl \<longleftrightarrow> F (fl, sl) \<noteq> []) \<and>
     (\<forall>fl. bit (fl_bitmap st) fl \<longleftrightarrow> sl_bitmap st fl \<noteq> 0)"

definition free_set :: "(nat \<times> nat \<Rightarrow> nat list) \<Rightarrow> nat set" where
  "free_set F = (\<Union>c. set (F c))"

lemma free_set_iff: "b \<in> free_set F \<longleftrightarrow> (\<exists>c. b \<in> set (F c))"
  by (simp add: free_set_def)

lemma fl_repD:
  assumes "fl_rep st F"
  shows "dseg (lnk st) 0 (free_list st fl sl) (F (fl, sl)) 0" and "distinct (F c)"
    and "b \<in> set (F c) \<Longrightarrow> tlsf_mapping_insert (tlsf_block_size st b) = Some c"
    and "bit (sl_bitmap st fl) sl \<longleftrightarrow> F (fl, sl) \<noteq> []"
    and "bit (fl_bitmap st) fl \<longleftrightarrow> sl_bitmap st fl \<noteq> 0"
  using assms by (cases c; auto simp: fl_rep_def)+

text \<open>A list depends only on the sizes of its blocks, their links, the heads and the bitmaps.\<close>

lemma fl_rep_cong:
  assumes "fl_rep st F" and "\<And>b. b \<in> free_set F \<Longrightarrow> tlsf_block_size st' b = tlsf_block_size st b"
    and "lnk st' = lnk st" "free_list st' = free_list st" "sl_bitmap st' = sl_bitmap st"
    "fl_bitmap st' = fl_bitmap st"
  shows "fl_rep st' F"
  using assms unfolding fl_rep_def free_set_iff by (metis (no_types, lifting))

lemma fl_rep_class_unique:
  assumes "fl_rep st F" and "b \<in> set (F c)" and "b \<in> set (F c')"
  shows "c = c'"
  using fl_repD(3) [OF assms(1,2)] fl_repD(3) [OF assms(1,3)] by simp

lemma free_insert_rep:
  assumes rep: "fl_rep st F" and new: "b \<notin> free_set F" and nz: "b \<noteq> 0"
    and m: "tlsf_mapping_insert (tlsf_block_size st b) = Some c"
  shows "fl_rep (tlsf_free_insert b st) (F(c := b # F c))"
proof -
  obtain fl sl where c: "c = (fl, sl)" by (cases c)
  note r = mapping_insert_range [OF m [unfolded c]]
  have nz': "sl_bitmap st fl OR 2 ^ sl \<noteq> 0"
  proof
    assume "sl_bitmap st fl OR 2 ^ sl = 0"
    then have "\<not> bit (sl_bitmap st fl OR 2 ^ sl) sl" by simp
    then show False using r by (simp add: bit_simps)
  qed
  let ?h = "free_list st fl sl" and ?st = "tlsf_free_insert b st" and ?F = "F(c := b # F c)"
  have hb: "?h \<noteq> 0 \<Longrightarrow> ?h \<in> set (F c)"
    using fl_repD(1) [OF rep, of fl sl] dseg_head_mem c by blast
  have bs: "b \<notin> set (F d)" for d using new by (simp add: free_set_def)
  have ld: "lnk ?st = (let l = (lnk st)(b := \<lparr>next_l = ?h, prev_l = 0\<rparr>)
                       in if ?h \<noteq> 0 then l(?h := (l ?h)\<lparr>prev_l := b\<rparr>) else l)"
    using m by (auto simp: tlsf_free_insert_def c Let_def fun_eq_iff)
  have other: "dseg (lnk ?st) 0 (free_list st fl' sl') (F (fl', sl')) 0" if "(fl', sl') \<noteq> c" for fl' sl'
  proof -
    have "?h \<noteq> 0 \<Longrightarrow> ?h \<notin> set (F (fl', sl'))"
      using hb fl_rep_class_unique [OF rep, of ?h c "(fl', sl')"] that by blast
    then show ?thesis using fl_repD(1) [OF rep, of fl' sl'] bs [of "(fl', sl')"]
      unfolding ld Let_def by (cases "?h = 0") simp_all
  qed
  have mine: "dseg (lnk ?st) 0 b (b # F c) 0"
  proof (cases "F c")
    case Nil
    then have "?h = 0" using fl_repD(1) [OF rep, of fl sl] dseg_head c by blast
    then show ?thesis using nz by (simp add: ld Nil)
  next
    case (Cons y ys)
    have d: "dseg (lnk st) 0 ?h (y # ys) 0" using fl_repD(1) [OF rep, of fl sl] c Cons by simp
    moreover have "distinct (y # ys)" "y \<noteq> b" "b \<notin> set ys"
      using fl_repD(2) [OF rep, of c] bs [of c] Cons by auto
    ultimately show ?thesis using nz by (simp add: ld Cons Let_def)
  qed
  show ?thesis
    unfolding fl_rep_def
  proof (intro conjI allI ballI)
    fix fl' sl'
    show "dseg (lnk ?st) 0 (free_list ?st fl' sl') (?F (fl', sl')) 0"
      using other [of fl' sl'] mine m
      by (cases "(fl', sl') = c") (auto simp: tlsf_free_insert_def c Let_def)
    show "distinct (?F (fl', sl'))" using fl_repD(2) [OF rep] bs by auto
    show "bit (sl_bitmap ?st fl') sl' \<longleftrightarrow> ?F (fl', sl') \<noteq> []"
      using fl_repD(4) [OF rep] m r
      by (auto simp: tlsf_free_insert_def c Let_def bit_simps)
    show "bit (fl_bitmap ?st) fl' \<longleftrightarrow> sl_bitmap ?st fl' \<noteq> 0"
      using fl_repD(5) [OF rep, of fl'] m r nz'
      by (auto simp: tlsf_free_insert_def c Let_def bit_simps)
  next
    fix c' b' assume "b' \<in> set (?F c')"
    then show "tlsf_mapping_insert (tlsf_block_size ?st b') = Some c'"
      using fl_repD(3) [OF rep] m
      by (auto simp: tlsf_free_insert_def c Let_def tlsf_block_size_def split: if_splits)
  qed
qed


lemma free_remove_rep:
  assumes rep: "fl_rep st F" and b: "b \<in> set (F c)"
  shows "fl_rep (tlsf_free_remove b st) (F(c := remove1 b (F c)))"
proof -
  obtain fl sl where c: "c = (fl, sl)" by (cases c)
  have m: "tlsf_mapping_insert (tlsf_block_size st b) = Some (fl, sl)"
    using fl_repD(3) [OF rep b] c by simp
  note r = mapping_insert_range [OF m]
  obtain xs ys where split: "F c = xs @ b # ys" using split_list [OF b] by blast
  have dist: "distinct (xs @ b # ys)" using fl_repD(2) [OF rep, of c] split by simp
  have rem: "remove1 b (F c) = xs @ ys" using split dist by (simp add: remove1_append)
  let ?h = "free_list st fl sl" and ?p = "prev_l (lnk st b)" and ?n = "next_l (lnk st b)"
  let ?st = "tlsf_free_remove b st" and ?F = "F(c := remove1 b (F c))"
  have "dseg (lnk st) 0 ?h (xs @ b # ys) 0" using fl_repD(1) [OF rep, of fl sl] split c by simp
  note u = dseg_unlink [OF this dist]
  have ld: "lnk ?st = unlink b (lnk st)"
    using m by (auto simp: tlsf_free_remove_def unlink_def Let_def)
  have hd: "free_list ?st = (free_list st)(fl := (free_list st fl)(sl := if ?p \<noteq> 0 then ?h else ?n))"
    using m by (auto simp: tlsf_free_remove_def Let_def fun_eq_iff)
  have new: "dseg (lnk ?st) 0 (free_list ?st fl sl) (xs @ ys) 0"
    using u(4) by (simp add: ld hd)
  have empty: "free_list ?st fl sl = 0 \<longleftrightarrow> xs @ ys = []" using dseg_head [OF new] .
  have sb: "sl_bitmap ?st = (if xs @ ys = [] then (sl_bitmap st)(fl := sl_bitmap st fl AND NOT (push_bit sl 1))
                             else sl_bitmap st)"
    using m empty unfolding hd by (auto simp: tlsf_free_remove_def Let_def)
  have fb: "fl_bitmap ?st = (if xs @ ys = [] \<and> sl_bitmap st fl AND NOT (push_bit sl 1) = 0
                             then fl_bitmap st AND NOT (push_bit fl 1) else fl_bitmap st)"
    using m empty unfolding hd by (auto simp: tlsf_free_remove_def Let_def)
  have bit_sl: "bit (sl_bitmap st fl) sl" using fl_repD(4) [OF rep, of fl sl] split c by simp
  have sz: "tlsf_block_size ?st = tlsf_block_size st"
    using m by (auto simp: tlsf_free_remove_def Let_def tlsf_block_size_def fun_eq_iff)
  have other: "dseg (lnk ?st) 0 (free_list st fl' sl') (F (fl', sl')) 0" if "(fl', sl') \<noteq> c" for fl' sl'
  proof -
    have "set (F c) \<inter> set (F (fl', sl')) = {}"
      using fl_rep_class_unique [OF rep] that by blast
    then have "?p \<noteq> 0 \<Longrightarrow> ?p \<notin> set (F (fl', sl'))" "?n \<noteq> 0 \<Longrightarrow> ?n \<notin> set (F (fl', sl'))"
      using u(2,3) split by auto
    then show ?thesis using fl_repD(1) [OF rep, of fl' sl']
      unfolding ld unlink_def Let_def by simp
  qed
  show ?thesis
    unfolding fl_rep_def
  proof (intro conjI allI ballI)
    fix fl' sl'
    show "dseg (lnk ?st) 0 (free_list ?st fl' sl') (?F (fl', sl')) 0"
    proof (cases "(fl', sl') = c")
      case True
      then show ?thesis using new rem c by simp
    next
      case False
      then have "free_list ?st fl' sl' = free_list st fl' sl'" by (auto simp: hd c)
      then show ?thesis using other [OF False] False by simp
    qed
    show "distinct (?F (fl', sl'))" using fl_repD(2) [OF rep] by (simp add: distinct_remove1)
    show "bit (sl_bitmap ?st fl') sl' \<longleftrightarrow> ?F (fl', sl') \<noteq> []"
      using fl_repD(4) [OF rep, of fl' sl'] r split rem
      by (auto simp: sb c bit_simps dest: bit_imp_le_length)
    show "bit (fl_bitmap ?st) fl' \<longleftrightarrow> sl_bitmap ?st fl' \<noteq> 0"
      using fl_repD(5) [OF rep, of fl'] r bit_sl
      by (auto simp: sb fb bit_simps dest: bit_imp_le_length)
  next
    fix c' b' assume "b' \<in> set (?F c')"
    then have "b' \<in> set (F c')" by (auto split: if_splits dest: set_remove1_subset [THEN subsetD])
    then show "tlsf_mapping_insert (tlsf_block_size ?st b') = Some c'"
      using fl_repD(3) [OF rep] sz by simp
  qed
qed

lemma free_set_insert: "free_set (F(c := b # F c)) = insert b (free_set F)"
  by (auto simp: free_set_iff split: if_splits)

lemma free_set_remove:
  assumes "fl_rep st F" and "b \<in> set (F c)"
  shows "free_set (F(c := remove1 b (F c))) = free_set F - {b}"
proof -
  have "set (remove1 b (F c)) = set (F c) - {b}" using fl_repD(2) [OF assms(1)] by (rule set_remove1_eq)
  moreover have "c' \<noteq> c \<Longrightarrow> b \<notin> set (F c')" for c'
    using fl_rep_class_unique [OF assms] by blast
  ultimately show ?thesis
    by (auto simp: free_set_iff split: if_splits) metis
qed


section \<open>Finding a block\<close>

lemma high_mask_bit: "bit (push_bit n (- 1) :: 64 word) i \<longleftrightarrow> n \<le> i \<and> i < 64"
  by (auto simp: bit_simps)

lemma tlsf_find_sound:
  assumes rep: "fl_rep st F" and f: "tlsf_find need st = Some b"
    and s: "tlsf_mapping_search need = Some (fl, sl)"
  obtains fl' sl' where "b \<in> set (F (fl', sl'))" and "fl < fl' \<or> fl = fl' \<and> sl \<le> sl'"
proof -
  let ?m = "(ucast (sl_bitmap st fl) :: 64 word) AND push_bit sl (- 1)"
  have head: "b \<in> set (F (i, j))" if "free_list st i j = b" "b \<noteq> 0" for i j
    using dseg_head_mem [OF fl_repD(1) [OF rep]] that by blast
  show ?thesis
  proof (cases "?m = 0")
    case False
    let ?j = "tlsf_ffs64 ?m"
    have "free_list st fl ?j = b" "b \<noteq> 0"
      using f s False by (auto simp: tlsf_find_def Let_def split: if_splits)
    then have "b \<in> set (F (fl, ?j))" by (rule head)
    moreover have "bit ?m ?j" using brk_ctz64_first [OF False] by (simp add: tlsf_ffs64_def)
    then have "sl \<le> ?j" unfolding bit_and_iff high_mask_bit by blast
    ultimately show ?thesis by (intro that) auto
  next
    case True
    let ?fm = "fl_bitmap st AND push_bit (fl + 1) (- 1)"
    have nz: "?fm \<noteq> 0" using f s True by (auto simp: tlsf_find_def Let_def split: if_splits)
    let ?i = "tlsf_ffs64 ?fm"
    have "bit ?fm ?i" using brk_ctz64_first [OF nz] by (simp add: tlsf_ffs64_def)
    then have "fl < ?i" unfolding bit_and_iff high_mask_bit by simp
    moreover have "free_list st ?i (tlsf_ffs64 (ucast (sl_bitmap st ?i))) = b" "b \<noteq> 0"
      using f s True nz by (auto simp: tlsf_find_def Let_def split: if_splits)
    then have "b \<in> set (F (?i, tlsf_ffs64 (ucast (sl_bitmap st ?i))))" by (rule head)
    ultimately show ?thesis by (intro that) auto
  qed
qed

lemma tlsf_find_complete:
  assumes rep: "fl_rep st F" and f: "tlsf_find need st = None"
    and s: "tlsf_mapping_search need = Some (fl, sl)"
    and later: "fl < fl' \<or> fl = fl' \<and> sl \<le> sl'"
  shows "F (fl', sl') = []"
proof (rule ccontr)
  assume ne: "F (fl', sl') \<noteq> []"
  then have b1: "bit (sl_bitmap st fl') sl'" using fl_repD(4) [OF rep] by simp
  then have "sl_bitmap st fl' \<noteq> 0" by (metis bit_0_eq bot_apply bot_bool_def)
  then have b2: "bit (fl_bitmap st) fl'" using fl_repD(5) [OF rep] by simp
  have r: "sl' < 32" "fl' < 64" using bit_imp_le_length [OF b1] bit_imp_le_length [OF b2] by auto
  have fb: "fl_bitmap st \<noteq> 0" using b2 by (metis bit_0_eq bot_apply bot_bool_def)
  have nonempty: "free_list st i j \<noteq> 0" if "bit (sl_bitmap st i) j" for i j
    using that fl_repD(4) [OF rep, of i j] dseg_head [OF fl_repD(1) [OF rep, of i j]] by simp
  have ub: "bit (ucast w :: 64 word) j \<longleftrightarrow> bit w j" for w :: "32 word" and j
    using bit_imp_le_length [of w j] by (auto simp: bit_simps)
  let ?m = "(ucast (sl_bitmap st fl) :: 64 word) AND push_bit sl (- 1)"
  show False
  proof (cases "?m = 0")
    case False
    have "bit ?m (tlsf_ffs64 ?m)" using brk_ctz64_first [OF False] by (simp add: tlsf_ffs64_def)
    then have "free_list st fl (tlsf_ffs64 ?m) \<noteq> 0" by (intro nonempty) (simp only: bit_and_iff ub)
    then show False using f s fb False by (auto simp: tlsf_find_def Let_def)
  next
    case True
    then have "\<not> bit ?m sl'" by (simp only: bit_0_eq bot_apply bot_bool_def) simp
    then have "fl = fl' \<Longrightarrow> \<not> sl \<le> sl'" using b1 r unfolding bit_and_iff high_mask_bit ub by simp
    with later have lt: "fl < fl'" by blast
    let ?fm = "fl_bitmap st AND push_bit (fl + 1) (- 1)"
    have "bit ?fm fl'" using b2 r lt unfolding bit_and_iff high_mask_bit by simp
    then have nz: "?fm \<noteq> 0" by (metis bit_0_eq bot_apply bot_bool_def)
    let ?i = "tlsf_ffs64 ?fm"
    have "bit ?fm ?i" using brk_ctz64_first [OF nz] by (simp add: tlsf_ffs64_def)
    then have "sl_bitmap st ?i \<noteq> 0" using fl_repD(5) [OF rep] unfolding bit_and_iff by blast
    then have z: "(ucast (sl_bitmap st ?i) :: 64 word) \<noteq> 0"
      by (metis bit_0_eq bit_eqI bot_apply bot_bool_def ub)
    let ?j = "tlsf_ffs64 (ucast (sl_bitmap st ?i))"
    have "bit (ucast (sl_bitmap st ?i) :: 64 word) ?j"
      using brk_ctz64_first [OF z] by (simp add: tlsf_ffs64_def)
    then have "free_list st ?i ?j \<noteq> 0" by (intro nonempty) (simp only: ub)
    then show False using f s fb True nz lt r by (auto simp: tlsf_find_def Let_def)
  qed
qed

end
