(* ===== verification/Tlsf_Heap.thy ===== *)
theory Tlsf_Heap
  imports Tlsf_Lists
begin

text \<open>
  The heap invariant of the allocator and what \<open>malloc\<close>, \<open>free\<close>, \<open>calloc\<close> and \<open>realloc\<close> do to
  it: blocks tile the mapped regions between two sentinels, each knows the size of the block
  before it, no two neighbours are both free, and the free lists hold exactly the free blocks.
  The steps of an operation break parts of it for a moment; the invariant has a set \<open>X\<close> of
  blocks that are marked free but out of the lists, and a set \<open>Y\<close> of blocks whose \<open>prev_size\<close>
  is stale.
\<close>

section \<open>Frame facts of the free lists\<close>

lemma free_remove_frame [simp]:
  "blk (tlsf_free_remove b st) = blk st" "regions (tlsf_free_remove b st) = regions st"
  "region_cache (tlsf_free_remove b st) = region_cache st"
  "cache_count (tlsf_free_remove b st) = cache_count st"
  "cache_bytes (tlsf_free_remove b st) = cache_bytes st"
  "payload (tlsf_free_remove b st) = payload st" "munmaps (tlsf_free_remove b st) = munmaps st"
  by (auto simp: tlsf_free_remove_def Let_def split: option.split)

lemma free_insert_frame [simp]:
  "blk (tlsf_free_insert b st) = blk st" "regions (tlsf_free_insert b st) = regions st"
  "region_cache (tlsf_free_insert b st) = region_cache st"
  "cache_count (tlsf_free_insert b st) = cache_count st"
  "cache_bytes (tlsf_free_insert b st) = cache_bytes st"
  "payload (tlsf_free_insert b st) = payload st" "munmaps (tlsf_free_insert b st) = munmaps st"
  by (auto simp: tlsf_free_insert_def Let_def split: option.split)

lemma free_list_sizes [simp]:
  "tlsf_block_size (tlsf_free_remove b st) = tlsf_block_size st"
  "tlsf_block_size (tlsf_free_insert b st) = tlsf_block_size st"
  by (simp_all add: fun_eq_iff tlsf_block_size_def)

lemma used_bit [simp]:
  "even (clear_used s)" "odd (set_used s)" "clear_used (clear_used s) = clear_used s"
  "clear_used (set_used s) = clear_used s" "even s \<Longrightarrow> clear_used s = s" "clear_used 17 = 16"
  by (auto simp: clear_used_def set_used_def)

section \<open>The invariant\<close>

definition bsz :: "(nat \<Rightarrow> tlsf_block) \<Rightarrow> nat \<Rightarrow> nat" where
  "bsz B b = clear_used (bsize (B b))"

lemma block_size_bsz: "tlsf_block_size st = bsz (blk st)"
  by (simp add: fun_eq_iff tlsf_block_size_def bsz_def)

definition region_wf :: "tlsf_region \<Rightarrow> bool" where
  "region_wf r \<longleftrightarrow>
     rfirst r = rbase r + 64 \<and> rend r + 16 = rbase r + rsize r \<and> rusable r + 80 = rsize r \<and>
     0 < rbase r \<and> 16 dvd rbase r \<and> 16 dvd rsize r \<and> 112 \<le> rsize r \<and> rsize r \<le> 2 ^ 39"

definition rdisj :: "tlsf_region \<Rightarrow> tlsf_region \<Rightarrow> bool" where
  "rdisj r r' \<longleftrightarrow> rbase r + rsize r \<le> rbase r' \<or> rbase r' + rsize r' \<le> rbase r"

definition regions_ok :: "tlsf_region list \<Rightarrow> bool" where
  "regions_ok rs \<longleftrightarrow>
     distinct rs \<and> (\<forall>r \<in> set rs. region_wf r) \<and>
     (\<forall>r \<in> set rs. \<forall>r' \<in> set rs. r \<noteq> r' \<longrightarrow> rdisj r r')"

definition rstart :: "tlsf_region \<Rightarrow> nat" where
  "rstart r = rbase r + 48"

abbreviation sentinels :: "tlsf_region set \<Rightarrow> nat set" where
  "sentinels R \<equiv> rstart ` R \<union> rend ` R"

text \<open>The set \<open>S\<close> of block addresses tiles every region, sentinels included.\<close>

definition tiling :: "nat set \<Rightarrow> (nat \<Rightarrow> tlsf_block) \<Rightarrow> tlsf_region set \<Rightarrow> nat set \<Rightarrow> bool" where
  "tiling Y B R S \<longleftrightarrow>
     (\<forall>b \<in> S. \<forall>c \<in> S. b < c \<longrightarrow> b + bsz B b \<le> c) \<and>
     (\<forall>b \<in> S. 0 < bsz B b \<and> 16 dvd b \<and> 16 dvd bsz B b) \<and>
     (\<forall>b \<in> S. b \<notin> rend ` R \<longrightarrow> b + bsz B b \<in> S) \<and>
     (\<forall>c \<in> S. c \<notin> rstart ` R \<longrightarrow> (\<exists>b \<in> S. b + bsz B b = c)) \<and>
     (\<forall>b \<in> S. b \<notin> rend ` R \<longrightarrow> b + bsz B b \<notin> Y \<longrightarrow> prev_size (B (b + bsz B b)) = bsz B b) \<and>
     (\<forall>r \<in> R. rstart r \<in> S \<and> rend r \<in> S \<and> bsize (B (rstart r)) = 17 \<and> bsize (B (rend r)) = 17) \<and>
     (\<forall>b \<in> S. b \<notin> sentinels R \<longrightarrow> 32 \<le> bsz B b) \<and>
     (\<forall>b \<in> S. \<exists>r \<in> R. rstart r \<le> b \<and> b + bsz B b \<le> rbase r + rsize r) \<and>
     (\<forall>r \<in> R. region_wf r) \<and> (\<forall>r \<in> R. \<forall>r' \<in> R. r \<noteq> r' \<longrightarrow> rdisj r r')"

definition is_free :: "nat set \<Rightarrow> (nat \<Rightarrow> tlsf_block) \<Rightarrow> nat \<Rightarrow> bool" where
  "is_free X B b \<longleftrightarrow> even (bsize (B b)) \<and> b \<notin> X"

definition marks :: "nat set \<Rightarrow> (nat \<Rightarrow> tlsf_block) \<Rightarrow> (nat \<times> nat \<Rightarrow> nat list) \<Rightarrow> nat set \<Rightarrow> bool" where
  "marks X B F S \<longleftrightarrow>
     free_set F = {b \<in> S. is_free X B b} \<and>
     (\<forall>b \<in> S. is_free X B b \<longrightarrow> b + bsz B b \<in> S \<longrightarrow> \<not> is_free X B (b + bsz B b))"

definition heap :: "nat set \<Rightarrow> nat set \<Rightarrow> tlsf \<Rightarrow> (nat \<times> nat \<Rightarrow> nat list) \<Rightarrow> nat set \<Rightarrow> bool" where
  "heap X Y st F S \<longleftrightarrow>
     regions_ok (regions st @ region_cache st) \<and>
     tiling Y (blk st) (set (regions st)) S \<and> fl_rep st F \<and> marks X (blk st) F S \<and>
     cache_count st = length (region_cache st) \<and>
     cache_bytes st = sum_list (map rsize (region_cache st)) \<and>
     cache_count st \<le> TLSF_REGION_CACHE_MAX \<and> cache_bytes st \<le> TLSF_REGION_CACHE_BYTES"

text \<open>The blocks handed out: marked used, and no sentinels.\<close>

definition live :: "tlsf \<Rightarrow> nat set \<Rightarrow> nat set" where
  "live st S = {b \<in> S. odd (bsize (blk st b)) \<and> b \<notin> sentinels (set (regions st))}"

lemma tilingD:
  assumes "tiling Y B R S"
  shows "b \<in> S \<Longrightarrow> c \<in> S \<Longrightarrow> b < c \<Longrightarrow> b + bsz B b \<le> c"
    and "b \<in> S \<Longrightarrow> 0 < bsz B b" and "b \<in> S \<Longrightarrow> 16 dvd b" and "b \<in> S \<Longrightarrow> 16 dvd bsz B b"
    and "b \<in> S \<Longrightarrow> b \<notin> rend ` R \<Longrightarrow> b + bsz B b \<in> S"
    and "b \<in> S \<Longrightarrow> b \<notin> rstart ` R \<Longrightarrow> \<exists>c \<in> S. c + bsz B c = b"
    and "b \<in> S \<Longrightarrow> b \<notin> rend ` R \<Longrightarrow> b + bsz B b \<notin> Y \<Longrightarrow> prev_size (B (b + bsz B b)) = bsz B b"
    and "r \<in> R \<Longrightarrow> rstart r \<in> S" and "r \<in> R \<Longrightarrow> rend r \<in> S"
    and "r \<in> R \<Longrightarrow> bsize (B (rstart r)) = 17" and "r \<in> R \<Longrightarrow> bsize (B (rend r)) = 17"
    and "b \<in> S \<Longrightarrow> b \<notin> sentinels R \<Longrightarrow> 32 \<le> bsz B b"
    and "b \<in> S \<Longrightarrow> \<exists>r \<in> R. rstart r \<le> b \<and> b + bsz B b \<le> rbase r + rsize r"
    and "r \<in> R \<Longrightarrow> region_wf r" and "r \<in> R \<Longrightarrow> r' \<in> R \<Longrightarrow> r \<noteq> r' \<Longrightarrow> rdisj r r'"
  using assms unfolding tiling_def by blast+

lemma next_inj:
  assumes "tiling Y B R S" and "b \<in> S" "c \<in> S" "b + bsz B b = c + bsz B c"
  shows "b = c"
  using tilingD(1) [OF assms(1), of b c] tilingD(1) [OF assms(1), of c b]
    tilingD(2) [OF assms(1), of b] tilingD(2) [OF assms(1), of c] assms(2-4)
  by (cases b c rule: linorder_cases) auto

lemma even_not_sentinel:
  assumes "tiling Y B R S" and "even (bsize (B b))"
  shows "b \<notin> sentinels R"
  using tilingD(10,11) [OF assms(1)] assms(2) by (auto simp: image_iff)

text \<open>The successor of a block that is no end sentinel is no start sentinel.\<close>

lemma next_not_start:
  assumes t: "tiling Y B R S" and b: "b \<in> S"
  shows "b + bsz B b \<notin> rstart ` R"
proof
  assume "b + bsz B b \<in> rstart ` R"
  then obtain r where r: "r \<in> R" "b + bsz B b = rstart r" by auto
  obtain r' where r': "r' \<in> R" "rstart r' \<le> b" "b + bsz B b \<le> rbase r' + rsize r'"
    using tilingD(13) [OF t b] by blast
  show False
    using r r' tilingD(2) [OF t b] tilingD(15) [OF t r(1) r'(1)] tilingD(14) [OF t r(1)]
      tilingD(14) [OF t r'(1)]
    by (cases "r = r'") (auto simp: rdisj_def rstart_def region_wf_def)
qed

text \<open>A block and its successor lie in the same region.\<close>

lemma next_same_region:
  assumes t: "tiling Y B R S" and b: "b \<in> S" and n: "b + bsz B b \<in> S"
    and r: "r \<in> R" "rstart r \<le> b" "b + bsz B b \<le> rbase r + rsize r"
  shows "b + bsz B b + bsz B (b + bsz B b) \<le> rbase r + rsize r"
proof -
  obtain r' where r': "r' \<in> R" "rstart r' \<le> b + bsz B b"
    "b + bsz B b + bsz B (b + bsz B b) \<le> rbase r' + rsize r'"
    using tilingD(13) [OF t n] by blast
  show ?thesis
  proof (cases "r = r'")
    case False
    show ?thesis
      using tilingD(15) [OF t r(1) r'(1) False] r(2,3) r'(2,3) unfolding rdisj_def rstart_def by linarith
  qed (use r' in simp)
qed

section \<open>Steps on the tiling\<close>

lemma bsz_upd: "bsz (B(x := v)) y = (if y = x then clear_used (bsize v) else bsz B y)"
  by (simp add: bsz_def)

text \<open>Refreshing a \<open>prev_size\<close>.\<close>

lemma tiling_set_prev:
  assumes t: "tiling Y B R S" and b: "b \<in> S" "b \<notin> rend ` R" and a: "a = b + bsz B b" "s = bsz B b"
  shows "tiling (Y - {a}) (B(a := (B a)\<lparr>prev_size := s\<rparr>)) R S"
proof -
  let ?B = "B(a := (B a)\<lparr>prev_size := s\<rparr>)"
  have sz: "bsz ?B = bsz B" by (auto simp: fun_eq_iff bsz_def)
  have "prev_size (?B (c + bsz B c)) = bsz B c"
    if "c \<in> S" "c \<notin> rend ` R" "c + bsz B c \<notin> Y - {a}" for c
    using that next_inj [OF t that(1) b(1)] tilingD(7) [OF t that(1,2)] a by auto
  then show ?thesis using t unfolding tiling_def sz by auto
qed

text \<open>Changing the mark of a block, not its size.\<close>

lemma tiling_set_mark:
  assumes t: "tiling Y B R S" and b: "b \<notin> sentinels R" and v: "clear_used v = bsz B b"
  shows "tiling Y (B(b := (B b)\<lparr>bsize := v\<rparr>)) R S"
proof -
  let ?B = "B(b := (B b)\<lparr>bsize := v\<rparr>)"
  have sz: "bsz ?B = bsz B" using v by (auto simp: fun_eq_iff bsz_def)
  have pr: "prev_size (?B c) = prev_size (B c)" for c by simp
  have "bsize (?B (rstart r)) = bsize (B (rstart r))" "bsize (?B (rend r)) = bsize (B (rend r))"
    if "r \<in> R" for r using b that by auto
  then show ?thesis using t unfolding tiling_def sz pr by auto
qed

text \<open>Joining a block with its successor.\<close>

lemma tiling_merge:
  assumes t: "tiling Y B R S" and b: "b \<in> S" "b \<notin> sentinels R"
    and n: "n = b + bsz B b" "n \<notin> sentinels R" and v: "clear_used v = bsz B b + bsz B n"
  shows "tiling (insert (n + bsz B n) Y) (B(b := (B b)\<lparr>bsize := v\<rparr>)) R (S - {n})"
proof -
  let ?B = "B(b := (B b)\<lparr>bsize := v\<rparr>)"
  have nS: "n \<in> S" using tilingD(5) [OF t b(1)] b n by simp
  have pos: "0 < bsz B b" "0 < bsz B n" using tilingD(2) [OF t] b nS by auto
  have bn: "b < n" "b \<noteq> n" using pos n by auto
  have szb: "bsz ?B b = bsz B b + bsz B n" using v by (simp add: bsz_def)
  have szo: "bsz ?B c = bsz B c" if "c \<noteq> b" for c using that by (simp add: bsz_def)
  have pr: "prev_size (?B c) = prev_size (B c)" for c by simp
  have nn: "n + bsz B n \<in> S" using tilingD(5) [OF t nS] n by simp
  have nb: "b + bsz ?B b = n + bsz B n" using szb n by simp
  show ?thesis
    unfolding tiling_def
  proof (intro conjI ballI impI)
    fix x y assume "x \<in> S - {n}" "y \<in> S - {n}" "x < y"
    then show "x + bsz ?B x \<le> y"
      using tilingD(1) [OF t, of x y] tilingD(1) [OF t, of n y] nS n nb szo [of x] b(1)
      by (cases "x = b") auto
  next
    fix x assume x: "x \<in> S - {n}"
    show "0 < bsz ?B x" "16 dvd bsz ?B x" "16 dvd x"
      using x tilingD(2,3,4) [OF t, of x] tilingD(4) [OF t nS] tilingD(4) [OF t b(1)] pos szb szo [of x]
      by (cases "x = b"; auto)+
    show "x + bsz ?B x \<in> S - {n}" if "x \<notin> rend ` R"
      using x that nb nn pos szo [of x] tilingD(5) [OF t, of x] next_inj [OF t, of x b] n b(1)
      by (cases "x = b") (auto simp: add.assoc)
    show "prev_size (?B (x + bsz ?B x)) = bsz ?B x"
      if "x \<notin> rend ` R" "x + bsz ?B x \<notin> insert (n + bsz B n) Y"
      using that x nb szo [of x] tilingD(7) [OF t, of x] unfolding pr by (cases "x = b") auto
    show "\<exists>c \<in> S - {n}. c + bsz ?B c = x" if ns: "x \<notin> rstart ` R"
    proof -
      obtain c where c: "c \<in> S" "c + bsz B c = x" using tilingD(6) [OF t, of x] x ns by blast
      show ?thesis
      proof (cases "c = n")
        case True
        then show ?thesis using c nb b(1) bn by (intro bexI [of _ b]) auto
      next
        case False
        then have "c \<noteq> b" using c x n by auto
        then show ?thesis using c False szo by (intro bexI [of _ c]) auto
      qed
    qed
    show "32 \<le> bsz ?B x" if "x \<notin> sentinels R"
      using x that tilingD(12) [OF t, of x] szb szo [of x] by (cases "x = b") auto
    show "\<exists>r \<in> R. rstart r \<le> x \<and> x + bsz ?B x \<le> rbase r + rsize r"
    proof (cases "x = b")
      case True
      then show ?thesis
        using tilingD(13) [OF t b(1)] next_same_region [OF t b(1)] nS n nb by metis
    next
      case False
      then show ?thesis using x szo tilingD(13) [OF t, of x] by auto
    qed
  next
    fix r assume "r \<in> R"
    moreover from this have "rstart r \<noteq> n" "rend r \<noteq> n" "rstart r \<noteq> b" "rend r \<noteq> b"
      using b(2) n(2) by blast+
    ultimately show "rstart r \<in> S - {n}" "rend r \<in> S - {n}" "bsize (?B (rstart r)) = 17"
      "bsize (?B (rend r)) = 17"
      using tilingD(8-11) [OF t] by simp_all
    show "region_wf r" using tilingD(14) [OF t] \<open>r \<in> R\<close> .
    show "rdisj r r'" if "r' \<in> R" "r \<noteq> r'" for r' using tilingD(15) [OF t \<open>r \<in> R\<close> that] .
  qed
qed


text \<open>Cutting a block in two.\<close>

lemma tiling_split:
  assumes t: "tiling Y B R S" and b: "b \<in> S" "b \<notin> sentinels R"
    and need: "32 \<le> need" "16 dvd need" "need + 32 \<le> bsz B b" and v: "clear_used v = need"
    and rest: "bsz B b = need + rest" and tail: "tail = b + need"
  shows "tail \<notin> S" and "tail \<notin> sentinels R"
    and "tiling (insert (b + bsz B b) Y)
           (B(b := (B b)\<lparr>bsize := v\<rparr>, tail := \<lparr>bsize = rest, prev_size = need\<rparr>)) R (insert tail S)"
proof -
  let ?B = "B(b := (B b)\<lparr>bsize := v\<rparr>, tail := \<lparr>bsize = rest, prev_size = need\<rparr>)"
  have d: "16 dvd bsz B b" "16 dvd b" using tilingD(3,4) [OF t b(1)] by auto
  then have dr: "16 dvd rest" using need rest by (metis dvd_add_right_iff)
  then have ev: "even rest" using dvd_trans [of 2 16 rest] by simp
  have tb: "b < tail" "tail < b + bsz B b" using need tail by auto
  show tS: "tail \<notin> S" using tilingD(1) [OF t b(1), of tail] tb by auto
  then show ts: "tail \<notin> sentinels R" using tilingD(8,9) [OF t] by auto
  have szb: "bsz ?B b = need" using v tb by (simp add: bsz_def)
  have szt: "bsz ?B tail = rest" using ev by (simp add: bsz_def)
  have szo: "bsz ?B c = bsz B c" if "c \<in> S" "c \<noteq> b" for c using that tS by (auto simp: bsz_def)
  have nb: "tail + rest = b + bsz B b" using tail rest by simp
  have nS: "b + bsz B b \<in> S" using tilingD(5) [OF t b(1)] b by simp
  have pr: "prev_size (?B c) = prev_size (B c)" if "c \<noteq> tail" for c using that by simp
  show "tiling (insert (b + bsz B b) Y) ?B R (insert tail S)"
    unfolding tiling_def
  proof (intro conjI ballI impI)
    fix x y assume xy: "x \<in> insert tail S" "y \<in> insert tail S" "x < y"
    consider "x = tail" "y \<in> S" | "x = b" "y = tail" | "x \<in> S" "x \<noteq> b" "y = tail"
      | "x = b" "y \<in> S" | "x \<in> S" "x \<noteq> b" "y \<in> S"
      using xy by auto
    then show "x + bsz ?B x \<le> y"
    proof cases
      case 1
      then show ?thesis using szt nb tilingD(1) [OF t b(1), of y] tb xy by auto
    next
      case 2
      then show ?thesis using szb tail by simp
    next
      case 3
      then have "x < b" using tilingD(1) [OF t b(1), of x] tb xy by (cases "b < x") auto
      then show ?thesis using tilingD(1) [OF t, of x b] 3 b szo tb by auto
    next
      case 4
      then show ?thesis using szb tilingD(1) [OF t b(1), of y] xy need by auto
    next
      case 5
      then show ?thesis using szo tilingD(1) [OF t, of x y] xy by auto
    qed
  next
    fix x assume x: "x \<in> insert tail S"
    consider "x = tail" | "x = b" | "x \<in> S" "x \<noteq> b" "x \<noteq> tail" using x tS by auto
    note cs = this
    show "0 < bsz ?B x" "16 dvd bsz ?B x" "16 dvd x"
      using need rest dr d szt szb szo tilingD(2-4) [OF t, of x] tail
      by (cases rule: cs; auto)+
    show "x + bsz ?B x \<in> insert tail S" if "x \<notin> rend ` R"
      using nS szt szb szo tilingD(5) [OF t, of x] that
      by (cases rule: cs) (simp_all add: nb tail [symmetric])
    show "prev_size (?B (x + bsz ?B x)) = bsz ?B x"
      if a: "x \<notin> rend ` R" "x + bsz ?B x \<notin> insert (b + bsz B b) Y"
    proof (cases rule: cs)
      case 1
      then show ?thesis using a nb szt by simp
    next
      case 2
      then show ?thesis using szb tail by simp
    next
      case 3
      then have "x + bsz B x \<noteq> tail" using tilingD(5) [OF t, of x] a tS by auto
      then show ?thesis using tilingD(7) [OF t, of x] a 3 szo pr by auto
    qed
    show "\<exists>c \<in> insert tail S. c + bsz ?B c = x" if ns: "x \<notin> rstart ` R"
    proof (cases "x = tail")
      case True
      then show ?thesis using b(1) szb tail by (intro bexI [of _ b]) auto
    next
      case False
      then obtain c where c: "c \<in> S" "c + bsz B c = x" using tilingD(6) [OF t, of x] x ns by blast
      show ?thesis
        using c szo [of c] szt nb by (cases "c = b") (auto intro: bexI [of _ tail] bexI [of _ c])
    qed
    show "32 \<le> bsz ?B x" if "x \<notin> sentinels R"
      using that szt szb szo need rest tilingD(12) [OF t, of x] by (cases rule: cs) auto
    show "\<exists>r \<in> R. rstart r \<le> x \<and> x + bsz ?B x \<le> rbase r + rsize r"
    proof -
      obtain y where y: "y \<in> S" "y \<le> x" "x + bsz ?B x \<le> y + bsz B y"
        using szt szb szo nb tail need b(1) by (cases rule: cs) auto
      then show ?thesis using tilingD(13) [OF t y(1)] by force
    qed
  next
    fix r assume r: "r \<in> R"
    then have "rstart r \<noteq> b" "rend r \<noteq> b" "rstart r \<noteq> tail" "rend r \<noteq> tail" using b(2) ts by blast+
    then show "rstart r \<in> insert tail S" "rend r \<in> insert tail S" "bsize (?B (rstart r)) = 17"
      "bsize (?B (rend r)) = 17"
      using tilingD(8-11) [OF t r] by simp_all
    show "region_wf r" using tilingD(14) [OF t r] .
    show "rdisj r r'" if "r' \<in> R" "r \<noteq> r'" for r' using tilingD(15) [OF t r that] .
  qed
qed


section \<open>Steps on the heap\<close>

lemma heapD:
  assumes "heap X Y st F S"
  shows "regions_ok (regions st @ region_cache st)" and "tiling Y (blk st) (set (regions st)) S"
    and "fl_rep st F" and "marks X (blk st) F S"
  using assms unfolding heap_def by auto

lemma heap_free_iff:
  "heap X Y st F S \<Longrightarrow> b \<in> free_set F \<longleftrightarrow> b \<in> S \<and> is_free X (blk st) b"
  unfolding heap_def marks_def by auto

lemma is_free_cong: "b \<in> S \<Longrightarrow> X \<inter> S = X' \<inter> S \<Longrightarrow> is_free X B b = is_free X' B b"
  unfolding is_free_def by auto

text \<open>Only the members of \<open>X\<close> that are blocks matter.\<close>

lemma heap_restrict:
  assumes "heap X Y st F S" and "X \<inter> S = X' \<inter> S"
  shows "heap X' Y st F S"
proof -
  have "marks X' (blk st) F S"
    using heapD(4) [OF assms(1)] is_free_cong [OF _ assms(2)] unfolding marks_def by (auto cong: conj_cong)
  then show ?thesis using assms(1) unfolding heap_def by blast
qed

text \<open>A change of block headers that leaves the listed blocks as they are.\<close>

lemma heap_blk:
  assumes h: "heap X Y st F S" and t: "tiling Y' B (set (regions st)) S'" and m: "marks X' B F S'"
    and sz: "\<And>b. b \<in> free_set F \<Longrightarrow> bsz B b = bsz (blk st) b"
  shows "heap X' Y' (st\<lparr>blk := B\<rparr>) F S'"
proof -
  have "fl_rep (st\<lparr>blk := B\<rparr>) F"
    using sz by (intro fl_rep_cong [OF heapD(3) [OF h]]) (auto simp: block_size_bsz)
  then show ?thesis using h t m unfolding heap_def by simp
qed

lemma heap_set_prev:
  assumes h: "heap X Y st F S" and b: "b \<in> S" "b \<notin> rend ` set (regions st)"
    and a: "a = b + tlsf_block_size st b" "s = tlsf_block_size st b"
  shows "heap X (Y - {a}) (set_prev_size a s st) F S"
proof (rule heap_blk [OF h])
  let ?B = "(blk st)(a := (blk st a)\<lparr>prev_size := s\<rparr>)"
  show "tiling (Y - {a}) ?B (set (regions st)) S"
    using a by (intro tiling_set_prev [OF heapD(2) [OF h] b]) (auto simp: block_size_bsz)
  have sz: "bsz ?B = bsz (blk st)" and fr: "is_free X ?B = is_free X (blk st)"
    by (auto simp: fun_eq_iff bsz_def is_free_def)
  show "marks X ?B F S" using heapD(4) [OF h] unfolding marks_def sz fr .
  show "bsz ?B c = bsz (blk st) c" for c by (simp add: sz)
qed

lemma heap_take:
  assumes h: "heap X Y st F S" and b: "b \<in> S" "is_free X (blk st) b"
  obtains F' where "heap (insert b X) Y (tlsf_free_remove b st) F' S"
proof -
  obtain c where c: "b \<in> set (F c)" using heap_free_iff [OF h, of b] b unfolding free_set_iff by blast
  let ?F = "F(c := remove1 b (F c))"
  have fr: "is_free (insert b X) (blk st) x \<longleftrightarrow> is_free X (blk st) x \<and> x \<noteq> b" for x
    by (auto simp: is_free_def)
  have "marks (insert b X) (blk st) ?F S"
    using heapD(4) [OF h] free_set_remove [OF heapD(3) [OF h] c] unfolding marks_def fr by auto
  then have "heap (insert b X) Y (tlsf_free_remove b st) ?F S"
    using h free_remove_rep [OF heapD(3) [OF h] c] unfolding heap_def by simp
  then show thesis by (rule that)
qed

lemma block_size_range:
  assumes h: "heap X Y st F S" and b: "b \<in> S" "b \<notin> sentinels (set (regions st))"
  shows "32 \<le> tlsf_block_size st b" and "tlsf_block_size st b < 2 ^ 39" and "0 < b"
    and "16 dvd b" and "16 dvd tlsf_block_size st b"
proof -
  note t = heapD(2) [OF h]
  show "32 \<le> tlsf_block_size st b" "16 dvd b" "16 dvd tlsf_block_size st b"
    using tilingD(3,4,12) [OF t b(1)] b by (auto simp: block_size_bsz)
  obtain r where r: "r \<in> set (regions st)" "rstart r \<le> b" "b + bsz (blk st) b \<le> rbase r + rsize r"
    using tilingD(13) [OF t b(1)] by blast
  with tilingD(14) [OF t r(1)] show "tlsf_block_size st b < 2 ^ 39" "0 < b"
    by (auto simp: region_wf_def rstart_def block_size_bsz)
qed

lemma heap_put:
  assumes h: "heap X Y st F S" and b: "b \<in> S" "b \<in> X" "even (bsize (blk st b))"
    and before: "\<And>c. c \<in> S \<Longrightarrow> c + tlsf_block_size st c = b \<Longrightarrow> \<not> is_free X (blk st) c"
    and after: "\<not> is_free X (blk st) (b + tlsf_block_size st b)"
  obtains F' where "heap (X - {b}) Y (tlsf_free_insert b st) F' S"
proof -
  have ns: "b \<notin> sentinels (set (regions st))" using even_not_sentinel [OF heapD(2) [OF h] b(3)] .
  note r = block_size_range [OF h b(1) ns]
  obtain c where c: "tlsf_mapping_insert (tlsf_block_size st b) = Some c"
    using mapping_insert_total [OF r(1,2)] by blast
  have new: "b \<notin> free_set F" using heap_free_iff [OF h] b by (auto simp: is_free_def)
  let ?F = "F(c := b # F c)"
  have fr: "is_free (X - {b}) (blk st) x \<longleftrightarrow> is_free X (blk st) x \<or> x = b" for x
    using b by (auto simp: is_free_def)
  have "0 < bsz (blk st) b" using tilingD(2) [OF heapD(2) [OF h] b(1)] .
  then have "marks (X - {b}) (blk st) ?F S"
    using heapD(4) [OF h] before after b(1) unfolding marks_def fr free_set_insert block_size_bsz by auto
  then have "heap (X - {b}) Y (tlsf_free_insert b st) ?F S"
    using h free_insert_rep [OF heapD(3) [OF h] new _ c] r(3) unfolding heap_def by simp
  then show thesis by (rule that)
qed


lemma heap_merge:
  assumes h: "heap X Y st F S" and b: "b \<in> S" "b \<notin> sentinels (set (regions st))"
    and nf: "\<not> is_free X (blk st) b" and n: "n = b + tlsf_block_size st b" "n \<in> X"
      "n \<notin> sentinels (set (regions st))"
    and v: "clear_used v = tlsf_block_size st b + tlsf_block_size st n"
      "even v \<longleftrightarrow> even (bsize (blk st b))"
  shows "heap X (insert (n + tlsf_block_size st n) Y) (set_bsize b v st) F (S - {n})"
proof (rule heap_blk [OF h])
  note t = heapD(2) [OF h]
  let ?B = "(blk st)(b := (blk st b)\<lparr>bsize := v\<rparr>)"
  show "tiling (insert (n + tlsf_block_size st n) Y) ?B (set (regions st)) (S - {n})"
    using n v unfolding block_size_bsz by (intro tiling_merge [OF t b]) auto
  have fr: "is_free X ?B c = is_free X (blk st) c" for c using v by (auto simp: is_free_def)
  have szo: "bsz ?B c = bsz (blk st) c" if "c \<noteq> b" for c using that by (simp add: bsz_def)
  have "n \<notin> free_set F" using heap_free_iff [OF h, of n] n(2) by (simp add: is_free_def)
  show "marks X ?B F (S - {n})"
    unfolding marks_def fr
  proof (intro conjI ballI impI)
    show "free_set F = {c \<in> S - {n}. is_free X (blk st) c}"
      using heapD(4) [OF h] \<open>n \<notin> free_set F\<close> unfolding marks_def by blast
    fix c assume "c \<in> S - {n}" "is_free X (blk st) c" "c + bsz ?B c \<in> S - {n}"
    moreover from this have "c \<noteq> b" using nf by auto
    ultimately show "\<not> is_free X (blk st) (c + bsz ?B c)"
      using heapD(4) [OF h] szo [of c] unfolding marks_def by simp
  qed
  show "bsz ?B c = bsz (blk st) c" if "c \<in> free_set F" for c
    using that heap_free_iff [OF h, of c] nf szo by (cases "c = b") auto
qed

lemma block_fields: "(B :: tlsf_block)\<lparr>bsize := x, prev_size := y\<rparr> = \<lparr>bsize = x, prev_size = y\<rparr>"
  by (cases B) simp

lemma heap_split:
  assumes h: "heap X Y st F S" and b: "b \<in> S" "b \<notin> sentinels (set (regions st))"
    and nf: "\<not> is_free X (blk st) b"
    and need: "32 \<le> need" "16 dvd need" "need + 32 \<le> tlsf_block_size st b"
    and v: "clear_used v = need" "even v \<longleftrightarrow> even (bsize (blk st b))"
    and rest: "rest = tlsf_block_size st b - need" and tail: "tail = b + need"
  shows "heap (insert tail X) (insert (b + tlsf_block_size st b) Y)
           (set_prev_size tail need (set_bsize tail rest (set_bsize b v st))) F (insert tail S)"
    and "tail \<notin> S" and "tail \<notin> sentinels (set (regions st))"
proof -
  note t = heapD(2) [OF h]
  let ?B = "(blk st)(b := (blk st b)\<lparr>bsize := v\<rparr>, tail := \<lparr>bsize = rest, prev_size = need\<rparr>)"
  have "bsz (blk st) b = need + rest" using rest need by (simp add: block_size_bsz)
  note sp = tiling_split [OF t b need [unfolded block_size_bsz] v(1) this tail]
  show tS: "tail \<notin> S" and "tail \<notin> sentinels (set (regions st))" using sp by auto
  have fr: "is_free (insert tail X) ?B c \<longleftrightarrow> is_free X (blk st) c \<and> c \<noteq> tail" for c
    using v by (auto simp: is_free_def)
  have szo: "bsz ?B c = bsz (blk st) c" if "c \<noteq> b" "c \<noteq> tail" for c using that by (simp add: bsz_def)
  have "marks (insert tail X) ?B F (insert tail S)"
    using heapD(4) [OF h] nf tS szo unfolding marks_def fr by auto metis
  moreover have "bsz ?B c = bsz (blk st) c" if "c \<in> free_set F" for c
    using that heap_free_iff [OF h, of c] nf tS szo by (cases "c = b") auto
  ultimately have "heap (insert tail X) (insert (b + bsz (blk st) b) Y) (st\<lparr>blk := ?B\<rparr>) F (insert tail S)"
    using sp(3) by (intro heap_blk [OF h])
  then show "heap (insert tail X) (insert (b + tlsf_block_size st b) Y)
      (set_prev_size tail need (set_bsize tail rest (set_bsize b v st))) F (insert tail S)"
    using need tail by (simp add: block_size_bsz block_fields)
qed

lemma heap_set_mark:
  assumes h: "heap X Y st F S" and b: "b \<in> S" "b \<notin> sentinels (set (regions st))"
    and nf: "\<not> is_free X (blk st) b" and v: "clear_used v = tlsf_block_size st b"
    and X': "insert b X' = insert b X" "b \<in> X' \<or> odd v"
  shows "heap X' Y (set_bsize b v st) F S"
proof (rule heap_blk [OF h])
  note t = heapD(2) [OF h]
  let ?B = "(blk st)(b := (blk st b)\<lparr>bsize := v\<rparr>)"
  show "tiling Y ?B (set (regions st)) S"
    using v unfolding block_size_bsz by (rule tiling_set_mark [OF t b(2)])
  have fr: "is_free X' ?B c = is_free X (blk st) c" for c
    using X' nf by (cases "c = b") (auto simp: is_free_def)
  have sz: "bsz ?B = bsz (blk st)" using v by (auto simp: fun_eq_iff bsz_def block_size_bsz)
  show "marks X' ?B F S" using heapD(4) [OF h] unfolding marks_def fr sz .
  show "bsz ?B c = bsz (blk st) c" for c by (simp add: sz)
qed

text \<open>The predecessor that \<open>prev_size\<close> points to.\<close>

lemma heap_prev:
  assumes h: "heap X Y st F S" and b: "b \<in> S" "b \<notin> sentinels (set (regions st))" "b \<notin> Y"
  shows "b - prev_size (blk st b) \<in> S"
    and "b - prev_size (blk st b) + tlsf_block_size st (b - prev_size (blk st b)) = b"
    and "b - prev_size (blk st b) < b"
proof -
  note t = heapD(2) [OF h]
  obtain c where c: "c \<in> S" "c + bsz (blk st) c = b" using tilingD(6) [OF t b(1)] b by blast
  have "c \<notin> rend ` set (regions st)"
  proof
    assume "c \<in> rend ` set (regions st)"
    then obtain r where r: "r \<in> set (regions st)" "c = rend r" by auto
    then have cb: "b = rbase r + rsize r"
      using c tilingD(11) [OF t r(1)] tilingD(14) [OF t r(1)] by (simp add: bsz_def region_wf_def)
    obtain r' where r': "r' \<in> set (regions st)" "rstart r' \<le> b" "b + bsz (blk st) b \<le> rbase r' + rsize r'"
      using tilingD(13) [OF t b(1)] by blast
    have "0 < bsz (blk st) b" using tilingD(2) [OF t b(1)] .
    then show False
      using cb r' tilingD(15) [OF t r(1) r'(1)] unfolding rdisj_def rstart_def
      by (cases "r = r'") auto
  qed
  then have "prev_size (blk st b) = bsz (blk st) c" using tilingD(7) [OF t c(1)] c b by simp
  then show "b - prev_size (blk st b) \<in> S"
    "b - prev_size (blk st b) + tlsf_block_size st (b - prev_size (blk st b)) = b"
    "b - prev_size (blk st b) < b"
    using c tilingD(2) [OF t c(1)] by (auto simp: block_size_bsz)
qed


section \<open>Splitting\<close>

text \<open>The used blocks, and that an operation leaves them alone except for some.\<close>

definition used :: "tlsf \<Rightarrow> nat set \<Rightarrow> nat set" where
  "used st S = {b \<in> S. odd (bsize (blk st b))}"

definition same_env :: "tlsf \<Rightarrow> tlsf \<Rightarrow> bool" where
  "same_env st st' \<longleftrightarrow>
     regions st' = regions st \<and> region_cache st' = region_cache st \<and> payload st' = payload st \<and>
     munmaps st' = munmaps st"

definition keeps_used :: "nat set \<Rightarrow> tlsf \<Rightarrow> nat set \<Rightarrow> tlsf \<Rightarrow> nat set \<Rightarrow> bool" where
  "keeps_used E st S st' S' \<longleftrightarrow>
     used st' S' - E = used st S - E \<and> (\<forall>c \<in> used st S - E. bsize (blk st' c) = bsize (blk st c))"

lemma keeps_used_trans:
  "keeps_used E st S st' S' \<Longrightarrow> keeps_used E st' S' st'' S'' \<Longrightarrow> keeps_used E st S st'' S''"
  by (simp add: keeps_used_def)

lemma same_env_trans: "same_env st st' \<Longrightarrow> same_env st' st'' \<Longrightarrow> same_env st st''"
  by (simp add: same_env_def)

text \<open>A fresh free block \<open>tail\<close> is merged with its successor if that is free, and listed.\<close>

lemma absorb_next:
  assumes h: "heap X {} st F S" and tail: "tail \<in> S" "tail \<in> X" "even (bsize (blk st tail))"
    and before: "\<And>c. c \<in> S \<Longrightarrow> c + tlsf_block_size st c = tail \<Longrightarrow> \<not> is_free X (blk st) c"
    and nxt: "nxt = tail + tlsf_block_size st tail" "nxt \<notin> X"
    and st': "st' = (if tlsf_block_is_free st nxt then
                       let st = tlsf_free_remove nxt st;
                           st = set_bsize tail (tlsf_block_size st tail + tlsf_block_size st nxt) st;
                           aft = nxt + tlsf_block_size st nxt
                       in set_prev_size aft (tlsf_block_size st tail) st
                     else st)"
  obtains F' S' where "heap (X - {tail}) {} (tlsf_free_insert tail st') F' S'"
    and "same_env st st'" and "keeps_used {} st S st' S'" and "S' \<subseteq> S" and "S - {nxt} \<subseteq> S'"
    and "\<And>c. c \<noteq> tail \<Longrightarrow> bsize (blk st' c) = bsize (blk st c)" and "even (bsize (blk st' tail))"
proof (cases "tlsf_block_is_free st nxt")
  case False
  have "\<not> is_free X (blk st) (tail + tlsf_block_size st tail)"
    using False nxt by (simp add: is_free_def tlsf_block_is_free_def)
  from heap_put [OF h tail before this] obtain F'
    where "heap (X - {tail}) {} (tlsf_free_insert tail st) F' S" by blast
  then show thesis using that [of F' S] st' False tail
    by (simp add: same_env_def keeps_used_def)
next
  case True
  note t = heapD(2) [OF h]
  let ?R = "set (regions st)"
  have ts: "tail \<notin> sentinels ?R" using even_not_sentinel [OF t tail(3)] .
  have nS: "nxt \<in> S" using tilingD(5) [OF t tail(1)] ts nxt by (simp add: block_size_bsz)
  have ne: "even (bsize (blk st nxt))" using True by (simp add: tlsf_block_is_free_def)
  have ns: "nxt \<notin> sentinels ?R" using even_not_sentinel [OF t ne] .
  have nf: "is_free X (blk st) nxt" using ne nxt by (simp add: is_free_def)
  have nt: "nxt \<noteq> tail" using tilingD(2) [OF t tail(1)] nxt by (simp add: block_size_bsz)
  have an: "\<not> is_free X (blk st) (nxt + tlsf_block_size st nxt)"
    using heapD(4) [OF h] nS nf tilingD(5) [OF t nS] ns unfolding marks_def block_size_bsz by auto
  obtain F1 where h1: "heap (insert nxt X) {} (tlsf_free_remove nxt st) F1 S"
    using heap_take [OF h nS nf] .
  define st1 where "st1 = tlsf_free_remove nxt st"
  define tot where "tot = tlsf_block_size st tail + tlsf_block_size st nxt"
  define st2 where "st2 = set_bsize tail tot st1"
  define aft where "aft = nxt + tlsf_block_size st nxt"
  have sz1: "tlsf_block_size st1 = tlsf_block_size st" by (simp add: st1_def block_size_bsz)
  have ev: "even tot" by (simp add: tot_def tlsf_block_size_def)
  have "heap (insert nxt X) {nxt + tlsf_block_size st1 nxt} st2 F1 (S - {nxt})"
    unfolding st2_def
    by (rule heap_merge [OF h1 [folded st1_def] tail(1)])
      (use tail ts ns nxt ev in \<open>simp_all add: is_free_def sz1 tot_def st1_def\<close>)
  then have h2: "heap (insert nxt X) {aft} st2 F1 (S - {nxt})" by (simp add: sz1 aft_def)
  have sz2: "tlsf_block_size st2 tail = tot" "tlsf_block_size st2 nxt = tlsf_block_size st nxt"
    using ev nt by (simp_all add: st2_def tlsf_block_size_def st1_def)
  have st'_eq: "st' = set_prev_size aft tot st2"
    unfolding st' aft_def by (simp only: True if_True Let_def st1_def [symmetric] sz1
      tot_def [symmetric] st2_def [symmetric] sz2)
  have env: "same_env st st'" by (simp add: same_env_def st'_eq st2_def st1_def)
  have at: "aft = tail + tlsf_block_size st2 tail" using nxt sz2 by (simp add: aft_def tot_def)
  have h3: "heap (insert nxt X) {} st' F1 (S - {nxt})"
  proof -
    have "regions st2 = regions st" by (simp add: st2_def st1_def)
    then have "heap (insert nxt X) ({aft} - {aft}) (set_prev_size aft tot st2) F1 (S - {nxt})"
      using tail(1) ts nt at sz2(1) by (intro heap_set_prev [OF h2, of tail]) simp_all
    then show ?thesis unfolding st'_eq by simp
  qed
  have bs: "bsize (blk st' c) = (if c = tail then tot else bsize (blk st c))" for c
    by (simp add: st'_eq st2_def st1_def)
  have sz': "tlsf_block_size st' tail = tot" "\<And>c. c \<noteq> tail \<Longrightarrow> tlsf_block_size st' c = tlsf_block_size st c"
    using ev by (simp_all add: tlsf_block_size_def bs)
  have before': "\<not> is_free (insert nxt X) (blk st') c"
    if "c \<in> S - {nxt}" "c + tlsf_block_size st' c = tail" for c
    using that before [of c] sz' tail by (cases "c = tail") (auto simp: is_free_def bs)
  have after': "\<not> is_free (insert nxt X) (blk st') (tail + tlsf_block_size st' tail)"
  proof -
    have "tail + tlsf_block_size st' tail = nxt + tlsf_block_size st nxt"
      using sz'(1) nxt(1) by (simp add: tot_def)
    then show ?thesis using an tail(2) unfolding is_free_def bs by (simp split: if_splits)
  qed
  obtain F' where h4: "heap (insert nxt X - {tail}) {} (tlsf_free_insert tail st') F' (S - {nxt})"
    by (rule heap_put [OF h3 _ _ _ before' after']) (use tail nt ev in \<open>simp_all add: bs\<close>)
  have "heap (X - {tail}) {} (tlsf_free_insert tail st') F' (S - {nxt})"
    using heap_restrict [OF h4, of "X - {tail}"] by auto
  moreover have "keeps_used {} st S st' (S - {nxt})"
    using ne ev tail by (auto simp: keeps_used_def used_def bs)
  ultimately show thesis using that env ev bs by auto
qed


lemma split_heap:
  assumes h: "heap X {} st F S" and b: "b \<in> S" "b \<notin> sentinels (set (regions st))"
    and nf: "\<not> is_free X (blk st) b" and X: "X \<subseteq> {b}"
    and need: "32 \<le> need" "16 dvd need" "need \<le> tlsf_block_size st b"
  obtains F' S' where "heap X {} (tlsf_split b need st) F' S'" and "same_env st (tlsf_split b need st)"
    and "keeps_used {b} st S (tlsf_split b need st) S'" and "b \<in> S'"
    and "even (bsize (blk (tlsf_split b need st) b)) = even (bsize (blk st b))"
    and "need \<le> tlsf_block_size (tlsf_split b need st) b"
    and "tlsf_block_size (tlsf_split b need st) b \<le> tlsf_block_size st b"
    and "tlsf_block_size (tlsf_split b need st) b < need + 32"
proof (cases "tlsf_block_size st b < need + TLSF_MIN_BLOCK_SIZE")
  case True
  then have "tlsf_split b need st = st" by (simp add: tlsf_split_def)
  then show thesis using that [of F S] h need b True
    by (simp add: same_env_def keeps_used_def tlsf_consts)
next
  case False
  note t = heapD(2) [OF h]
  let ?sz = "tlsf_block_size st b"
  have need3: "need + 32 \<le> ?sz" using False by (simp add: tlsf_consts)
  have ev: "even need" using need(2) dvd_trans [of 2 16 need] by simp
  define v where "v = (if odd (bsize (blk st b)) then set_used need else need)"
  have v: "clear_used v = need" "even v \<longleftrightarrow> even (bsize (blk st b))" using ev by (auto simp: v_def)
  define rest where "rest = ?sz - need"
  define tail where "tail = b + need"
  define st1 where "st1 = set_prev_size tail need (set_bsize tail rest (set_bsize b v st))"
  define nxt where "nxt = tail + rest"
  note sp = heap_split [OF h b nf need(1,2) need3 v rest_def tail_def, folded st1_def]
  have er: "even rest" using ev by (simp add: rest_def tlsf_block_size_def)
  have tb: "tail \<noteq> b" using need(1) by (simp add: tail_def)
  have nb: "nxt = b + ?sz" using need3 by (simp add: nxt_def tail_def rest_def)
  have nS: "nxt \<in> S" using tilingD(5) [OF t b(1)] b nb by (simp add: block_size_bsz)
  define st2 where "st2 = set_prev_size nxt rest st1"
  have nt: "nxt \<noteq> tail" "nxt \<noteq> b" using need3 by (simp_all add: nxt_def rest_def tail_def)
  have sz1: "tlsf_block_size st1 tail = rest" using er tb by (simp add: st1_def tlsf_block_size_def)
  have h2: "heap (insert tail X) {} st2 F (insert tail S)"
  proof -
    have "regions st1 = regions st" by (simp add: st1_def)
    then have "heap (insert tail X) ({nxt} - {nxt}) (set_prev_size nxt rest st1) F (insert tail S)"
      using sp(3) sz1 nxt_def by (intro heap_set_prev [OF sp(1) [folded nb], of tail]) simp_all
    then show ?thesis unfolding st2_def by simp
  qed
  have bs: "bsize (blk st2 c) = (if c = tail then rest else if c = b then v else bsize (blk st c))" for c
    using tb by (simp add: st2_def st1_def)
  have sz2: "tlsf_block_size st2 tail = rest" "tlsf_block_size st2 b = need"
    "\<And>c. c \<noteq> tail \<Longrightarrow> c \<noteq> b \<Longrightarrow> tlsf_block_size st2 c = tlsf_block_size st c"
    using er tb v by (simp_all add: tlsf_block_size_def bs)
  define st3 where "st3 = (if tlsf_block_is_free st2 nxt then
                       let st = tlsf_free_remove nxt st2;
                           st = set_bsize tail (tlsf_block_size st tail + tlsf_block_size st nxt) st;
                           aft = nxt + tlsf_block_size st nxt
                       in set_prev_size aft (tlsf_block_size st tail) st
                     else st2)"
  have eq: "tlsf_split b need st = tlsf_free_insert tail st3"
    using False unfolding tlsf_split_def st3_def
    by (simp only: Let_def if_False v_def [symmetric] rest_def [symmetric] tail_def [symmetric]
        nxt_def [symmetric] st1_def [symmetric] st2_def [symmetric] free_list_sizes sz2)
  have "\<not> is_free (insert tail X) (blk st2) c"
    if "c \<in> insert tail S" "c + tlsf_block_size st2 c = tail" for c
  proof -
    have "c = b" using next_inj [OF heapD(2) [OF h2] that(1), of b] that(2) b sz2 tb tail_def
      by (simp add: block_size_bsz)
    then show ?thesis using nf tb v by (auto simp: is_free_def bs)
  qed
  then obtain F' S' where r: "heap (insert tail X - {tail}) {} (tlsf_free_insert tail st3) F' S'"
    "same_env st2 st3" "keeps_used {} st2 (insert tail S) st3 S'" "S' \<subseteq> insert tail S"
    "insert tail S - {nxt} \<subseteq> S'" "\<And>c. c \<noteq> tail \<Longrightarrow> bsize (blk st3 c) = bsize (blk st2 c)"
    "even (bsize (blk st3 tail))"
    using absorb_next [OF h2 _ _ _ _ _ _ st3_def] bs er sz2 nxt_def X nt by auto blast
  have "heap X {} (tlsf_free_insert tail st3) F' S'" proof -
    have "insert tail X - {tail} = X" using X tb by auto
    then show ?thesis using r(1) by simp
  qed
  moreover have "same_env st st3" using r(2) by (simp add: same_env_def st2_def st1_def)
  moreover have "keeps_used {b} st S st3 S'"
    using r(3) er sp(2) tb by (auto simp: keeps_used_def used_def bs split: if_splits)
  moreover have "tlsf_block_size st3 b = need" "bsize (blk st3 b) = v"
    using r(6) [of b] tb sz2(2) by (simp_all add: tlsf_block_size_def bs)
  moreover have "b \<in> S'" using r(5) b(1) nt by blast
  ultimately show thesis using that [of F' S'] v need3
    by (simp add: eq same_env_def keeps_used_def used_def)
qed


section \<open>Regions\<close>

definition mk_region :: "nat \<Rightarrow> nat \<Rightarrow> tlsf_region" where
  "mk_region base sz = \<lparr>rbase = base, rsize = sz, rfirst = base + 64, rend = base + sz - 16,
     rusable = sz - 80\<rparr>"

lemma region_wf_mk: "region_wf r \<Longrightarrow> r = mk_region (rbase r) (rsize r)"
  by (cases r) (auto simp: region_wf_def mk_region_def)

lemma mk_region_wf:
  "0 < base \<Longrightarrow> 16 dvd base \<Longrightarrow> 16 dvd sz \<Longrightarrow> 112 \<le> sz \<Longrightarrow> sz \<le> 2 ^ 39 \<Longrightarrow> region_wf (mk_region base sz)"
  by (simp add: region_wf_def mk_region_def)

lemma block_in_region:
  assumes t: "tiling Y B R S" and b: "b \<in> S"
  obtains r where "r \<in> R" and "rstart r \<le> b" and "b < rbase r + rsize r"
    and "b + bsz B b \<le> rbase r + rsize r"
  using tilingD(2,13) [OF t b] by (metis add.commute add_leE le_less_linear le_add_same_cancel2 leD less_le_trans
    less_add_same_cancel1)

lemma tiling_add_region:
  assumes t: "tiling {} B R S" and wf: "region_wf r" and new: "r \<notin> R"
    and dj: "\<And>r'. r' \<in> R \<Longrightarrow> rdisj r r'"
    and B': "B' = B(rstart r := \<lparr>bsize = 17, prev_size = 0\<rparr>,
                    rfirst r := \<lparr>bsize = rusable r, prev_size = 16\<rparr>,
                    rend r := \<lparr>bsize = 17, prev_size = rusable r\<rparr>)"
  shows "tiling {} B' (insert r R) (S \<union> {rstart r, rfirst r, rend r})"
    and "S \<inter> {rstart r, rfirst r, rend r} = {}"
proof -
  have a: "rfirst r = rstart r + 16" "rend r = rfirst r + rusable r" "rend r + 16 = rbase r + rsize r"
    "rstart r = rbase r + 48" "32 \<le> rusable r" and d: "16 dvd rstart r" "16 dvd rfirst r" "16 dvd rend r"
    "16 dvd rusable r"
    using wf by (auto simp: region_wf_def rstart_def) presburger+
  have ev: "even (rusable r)" using d(4) by presburger
  have out: "b + bsz B b \<le> rbase r \<or> rbase r + rsize r \<le> b" if b: "b \<in> S" for b
    using block_in_region [OF t b] dj unfolding rdisj_def rstart_def
    by (metis add_leE le_trans add_lessD1 linorder_not_le order_trans)
  have ns: "b \<noteq> rstart r" "b \<noteq> rfirst r" "b \<noteq> rend r" if b: "b \<in> S" for b
    using out [OF b] tilingD(2) [OF t b] a by auto
  then show "S \<inter> {rstart r, rfirst r, rend r} = {}" by blast
  have szo: "bsz B' b = bsz B b" "B' b = B b" if "b \<in> S" for b using ns [OF that] by (auto simp: bsz_def B')
  have szn: "bsz B' (rstart r) = 16" "bsz B' (rfirst r) = rusable r" "bsz B' (rend r) = 16"
    using a ev by (auto simp: bsz_def B')
  let ?N = "{rstart r, rfirst r, rend r}"
  have ends: "b \<notin> rend ` insert r R \<longleftrightarrow> b \<notin> rend ` R" "b \<notin> rstart ` insert r R \<longleftrightarrow> b \<notin> rstart ` R"
    if "b \<in> S" for b using ns [OF that] by auto
  have nw: "x \<notin> rend ` R" "x \<notin> rstart ` R" if "x \<in> ?N" for x
    using that ns tilingD(8,9) [OF t] by auto
  have low: "rbase r < x \<and> x + bsz B' x \<le> rbase r + rsize r \<and> 0 < bsz B' x" if "x \<in> ?N" for x
    using that szn a by auto
  show "tiling {} B' (insert r R) (S \<union> ?N)"
    unfolding tiling_def
  proof (intro conjI ballI impI)
    fix x y assume xy: "x \<in> S \<union> ?N" "y \<in> S \<union> ?N" "x < y"
    consider "x \<in> S" "y \<in> S" | "x \<in> S" "y \<in> ?N" | "x \<in> ?N" "y \<in> S" | "x \<in> ?N" "y \<in> ?N" using xy by blast
    then show "x + bsz B' x \<le> y"
    proof cases
      case 1
      then show ?thesis using tilingD(1) [OF t] xy szo by simp
    next
      case 2
      then show ?thesis using out [of x] low [of y] xy szo [of x] by auto
    next
      case 3
      then show ?thesis using out [of y] low [of x] xy tilingD(2) [OF t, of y] by auto
    next
      case 4
      then show ?thesis using xy a szn by auto
    qed
  next
    fix x assume x: "x \<in> S \<union> ?N"
    consider "x \<in> S" | "x = rstart r" | "x = rfirst r" | "x = rend r" using x by blast
    note cs = this
    show "0 < bsz B' x" "16 dvd bsz B' x" "16 dvd x"
      using tilingD(2-4) [OF t, of x] szo [of x] szn a d by (cases rule: cs; simp)+
    show "x + bsz B' x \<in> S \<union> ?N" if "x \<notin> rend ` insert r R"
      using that tilingD(5) [OF t, of x] szo [of x] szn a ends [of x] by (cases rule: cs) auto
    show "prev_size (B' (x + bsz B' x)) = bsz B' x" if "x \<notin> rend ` insert r R"
      using that tilingD(5,7) [OF t, of x] szo [of x] szo [of "x + bsz B x"] szn a ends [of x] ev
      by (cases rule: cs) (auto simp: B')
    show "\<exists>c \<in> S \<union> ?N. c + bsz B' c = x" if nst: "x \<notin> rstart ` insert r R"
    proof (cases rule: cs)
      case 1
      then obtain c where "c \<in> S" "c + bsz B c = x" using tilingD(6) [OF t, of x] nst by auto
      then show ?thesis using szo [of c] by (intro bexI [of _ c]) auto
    next
      case 2
      then show ?thesis using nst by auto
    next
      case 3
      then show ?thesis using szn a by auto
    next
      case 4
      then show ?thesis using szn a by auto
    qed
    show "32 \<le> bsz B' x" if "x \<notin> sentinels (insert r R)"
      using that tilingD(12) [OF t, of x] szo [of x] szn a by (cases rule: cs) auto
    show "\<exists>r' \<in> insert r R. rstart r' \<le> x \<and> x + bsz B' x \<le> rbase r' + rsize r'"
      using tilingD(13) [OF t, of x] szo [of x] szn a by (cases rule: cs) auto
  next
    fix r' assume r': "r' \<in> insert r R"
    show "rstart r' \<in> S \<union> ?N" "rend r' \<in> S \<union> ?N" using r' tilingD(8,9) [OF t, of r'] by auto
    show "bsize (B' (rstart r')) = 17" "bsize (B' (rend r')) = 17"
      using r' tilingD(8-11) [OF t, of r'] szo [of "rstart r'"] szo [of "rend r'"] a
      by (cases "r' = r"; auto simp: B')+
    show "region_wf r'" using r' wf tilingD(14) [OF t] by auto
    show "rdisj r' r''" if "r'' \<in> insert r R" "r' \<noteq> r''" for r''
      using r' that dj tilingD(15) [OF t] by (auto simp: rdisj_def)
  qed
qed


lemma activate_heap:
  assumes h: "heap {} {} st F S" and ok: "regions_ok (r # regions st @ region_cache st)"
  obtains F' S' where "heap {} {} (tlsf_region_activate (rbase r) (rsize r) st) F' S'"
    and "live (tlsf_region_activate (rbase r) (rsize r) st) S' = live st S"
    and "\<And>b. b \<in> live st S \<Longrightarrow>
           bsize (blk (tlsf_region_activate (rbase r) (rsize r) st) b) = bsize (blk st b)"
    and "payload (tlsf_region_activate (rbase r) (rsize r) st) = payload st"
    and "rfirst r \<in> S'" and "even (bsize (blk (tlsf_region_activate (rbase r) (rsize r) st) (rfirst r)))"
    and "tlsf_block_size (tlsf_region_activate (rbase r) (rsize r) st) (rfirst r) = rusable r"
proof -
  note t = heapD(2) [OF h]
  have wf: "region_wf r" and new: "r \<notin> set (regions st)"
    and dj: "\<And>r'. r' \<in> set (regions st) \<Longrightarrow> rdisj r r'"
    using ok by (auto simp: regions_ok_def)
  let ?N = "{rstart r, rfirst r, rend r}"
  define B where "B = (blk st)(rstart r := \<lparr>bsize = 17, prev_size = 0\<rparr>,
                    rfirst r := \<lparr>bsize = rusable r, prev_size = 16\<rparr>,
                    rend r := \<lparr>bsize = 17, prev_size = rusable r\<rparr>)"
  note add = tiling_add_region [OF t wf new dj B_def]
  define st1 where "st1 = st\<lparr>blk := B, regions := r # regions st\<rparr>"
  have a: "rstart r < rfirst r" "rfirst r < rend r" "rfirst r = rstart r + 16"
    "rend r = rfirst r + rusable r" "even (rusable r)"
    using wf by (auto simp: region_wf_def rstart_def) presburger
  have act: "tlsf_region_activate (rbase r) (rsize r) st = tlsf_free_insert (rfirst r) st1"
  proof -
    have "r = mk_region (rbase r) (rsize r)" using region_wf_mk [OF wf] .
    then have m: "\<lparr>rbase = rbase r, rsize = rsize r, rfirst = rfirst r, rend = rend r,
        rusable = rusable r\<rparr> = r" by (cases r) simp
    have p: "rbase r + 48 = rstart r" "rstart r + 16 = rfirst r"
      "rbase r + rsize r - 16 = rend r" "rend r - rfirst r = rusable r" "set_used 16 = 17"
      using wf by (auto simp: region_wf_def rstart_def set_used_def)
    show ?thesis
      unfolding tlsf_region_activate_def Let_def st1_def B_def TLSF_HEADER_SIZE_def
        TLSF_REGION_META_SIZE_def p m by simp
  qed
  have old: "B b = blk st b" if "b \<in> S" for b using that add(2) by (auto simp: B_def)
  have fr: "is_free {rfirst r} B b \<longleftrightarrow> b \<in> S \<and> is_free {} (blk st) b" if "b \<in> S \<union> ?N" for b
    using that old add(2) a by (auto simp: is_free_def B_def)
  have "marks {rfirst r} B F (S \<union> ?N)"
    unfolding marks_def
  proof (intro conjI ballI impI)
    show "free_set F = {b \<in> S \<union> ?N. is_free {rfirst r} B b}"
      using heapD(4) [OF h] fr unfolding marks_def by blast
    fix b assume b: "b \<in> S \<union> ?N" "is_free {rfirst r} B b" "b + bsz B b \<in> S \<union> ?N"
    then have "b \<in> S" "is_free {} (blk st) b" using fr by auto
    then show "\<not> is_free {rfirst r} B (b + bsz B b)"
      using heapD(4) [OF h] fr [OF b(3)] old [of b] unfolding marks_def bsz_def by auto
  qed
  moreover have "fl_rep st1 F"
    using heap_free_iff [OF h] old
    by (intro fl_rep_cong [OF heapD(3) [OF h]]) (auto simp: st1_def tlsf_block_size_def)
  ultimately have h1: "heap {rfirst r} {} st1 F (S \<union> ?N)"
    using h ok add(1) unfolding heap_def st1_def by simp
  have nb: "\<not> is_free {rfirst r} (blk st1) c"
    if "c \<in> S \<union> ?N" "c + tlsf_block_size st1 c = rfirst r" for c
  proof -
    have "c = rstart r"
      using next_inj [OF heapD(2) [OF h1] that(1), of "rstart r"] that(2) a
      by (simp add: block_size_bsz) (simp add: st1_def bsz_def B_def)
    then show ?thesis using a by (simp add: is_free_def st1_def B_def)
  qed
  have bf: "bsize (B (rfirst r)) = rusable r" "bsize (B (rend r)) = 17" "bsize (B (rstart r)) = 17"
    using a by (auto simp: B_def)
  have af: "\<not> is_free {rfirst r} (blk st1) (rfirst r + tlsf_block_size st1 (rfirst r))"
    using a bf by (simp add: is_free_def st1_def tlsf_block_size_def)
  obtain F' where h2: "heap ({rfirst r} - {rfirst r}) {} (tlsf_free_insert (rfirst r) st1) F' (S \<union> ?N)"
    by (rule heap_put [OF h1 _ _ _ nb af]) (use a bf in \<open>simp_all add: st1_def\<close>)
  have "live st1 (S \<union> ?N) = live st S"
    using old add(2) bf a(5) by (auto simp: live_def st1_def)
  then show thesis
    using h2 bf a(5) old
    by (intro that [of F' "S \<union> ?N"]) (auto simp: act st1_def live_def tlsf_block_size_def)
qed


section \<open>Growing the heap\<close>

text \<open>
  A result of \<open>mmap\<close> is a non-null address whose mapping overlaps no region the allocator
  holds.
\<close>

definition mmap_fresh :: "mmap_fun \<Rightarrow> tlsf \<Rightarrow> bool" where
  "mmap_fresh mmap st \<longleftrightarrow>
     (\<forall>k sz base. mmap k sz = Some base \<longrightarrow>
        0 < base \<and> (\<forall>r \<in> set (regions st @ region_cache st). rdisj (mk_region base sz) r))"

lemma best_fit_mem:
  "best_fit m rs best = Some r \<Longrightarrow> (r \<in> set rs \<and> m \<le> rusable r) \<or> best = Some r"
  by (induction m rs best rule: best_fit.induct) (auto split: if_splits option.splits)

lemma flush_loop_eq: "flush_loop rs st = st\<lparr>region_cache := [], munmaps := munmaps st @ map (\<lambda>r. (rbase r, rsize r)) rs\<rparr>"
  by (induction rs st rule: flush_loop.induct) (simp_all add: munmap_def)

text \<open>Changes of the cache of regions and of the record of unmappings.\<close>

lemma heap_env:
  assumes h: "heap X Y st F S" and ok: "regions_ok (regions st @ rc)"
    and "n = length rc" "m = sum_list (map rsize rc)" "n \<le> 4" "m \<le> 4194304"
  shows "heap X Y (st\<lparr>region_cache := rc, cache_count := n, cache_bytes := m, munmaps := u\<rparr>) F S"
proof -
  have "fl_rep (st\<lparr>region_cache := rc, cache_count := n, cache_bytes := m, munmaps := u\<rparr>) F"
    by (rule fl_rep_cong [OF heapD(3) [OF h]]) (simp_all add: tlsf_block_size_def)
  then show ?thesis using h ok assms(3-6) unfolding heap_def by (simp add: tlsf_consts)
qed

lemma grow_size_props:
  assumes "c \<le> 2 ^ 39 - 80"
  shows "4096 dvd grow_size c" and "65536 \<le> grow_size c"
proof -
  show "4096 dvd grow_size c" by (simp add: grow_size_def tlsf_consts Let_def)
  show "65536 \<le> grow_size c"
    using assms by (auto simp: grow_size_def tlsf_consts Let_def)
qed

text \<open>What a step of the allocator keeps: the live blocks with their sizes, and the payloads.\<close>

definition keeps_live :: "tlsf \<Rightarrow> nat set \<Rightarrow> tlsf \<Rightarrow> nat set \<Rightarrow> bool" where
  "keeps_live st S st' S' \<longleftrightarrow>
     live st' S' = live st S \<and> (\<forall>b \<in> live st S. bsize (blk st' b) = bsize (blk st b)) \<and>
     payload st' = payload st"

lemma take_cache_heap:
  assumes h: "heap {} {} st F S" and tk: "tlsf_region_take_cache m st = (Some r, st')"
  shows "heap {} {} st' F S" and "regions_ok (r # regions st' @ region_cache st')"
    and "m \<le> rusable r" and "keeps_live st S st' S"
proof -
  have r: "r \<in> set (region_cache st)" "m \<le> rusable r"
    and st': "st' = st\<lparr>region_cache := remove1 r (region_cache st),
                      cache_count := cache_count st - 1, cache_bytes := cache_bytes st - rsize r\<rparr>"
    using tk best_fit_mem [of m "region_cache st" None r]
    by (auto simp: tlsf_region_take_cache_def split: option.splits)
  show "m \<le> rusable r" by (rule r(2))
  have ok: "regions_ok (regions st @ region_cache st)" using heapD(1) [OF h] .
  obtain xs ys where sp: "region_cache st = xs @ r # ys" using split_list [OF r(1)] by blast
  have rm: "remove1 r (region_cache st) = xs @ ys" using ok sp by (auto simp: regions_ok_def remove1_append)
  have c: "cache_count st = length (region_cache st)" "cache_count st \<le> 4"
    "cache_bytes st = sum_list (map rsize (region_cache st))" "cache_bytes st \<le> 4194304"
    using h unfolding heap_def by (auto simp: tlsf_consts)
  show "regions_ok (r # regions st' @ region_cache st')"
    using ok by (auto simp: regions_ok_def st' rm sp)
  have "heap {} {} (st\<lparr>region_cache := xs @ ys, cache_count := cache_count st - 1,
      cache_bytes := cache_bytes st - rsize r, munmaps := munmaps st\<rparr>) F S"
    by (rule heap_env [OF h]) (use ok c sp in \<open>auto simp: regions_ok_def\<close>)
  then show "heap {} {} st' F S" by (simp add: st' rm)
  show "keeps_live st S st' S" by (simp add: keeps_live_def live_def st')
qed


lemma keeps_live_refl [simp]: "keeps_live st S st S"
  by (simp add: keeps_live_def)

lemma keeps_live_trans:
  "keeps_live st S st' S' \<Longrightarrow> keeps_live st' S' st'' S'' \<Longrightarrow> keeps_live st S st'' S''"
  by (simp add: keeps_live_def)

lemma heap_munmap:
  assumes h: "heap X Y st F S"
  shows "heap X Y (munmap base sz st) F S"
proof -
  have "heap X Y (st\<lparr>region_cache := region_cache st, cache_count := cache_count st,
     cache_bytes := cache_bytes st, munmaps := munmaps st @ [(base, sz)]\<rparr>) F S"
    using h by (intro heap_env [OF h]) (auto simp: heap_def tlsf_consts)
  then show ?thesis by (simp add: munmap_def)
qed

lemma heap_flush:
  assumes h: "heap X Y st F S"
  shows "heap X Y (tlsf_region_cache_flush st) F S"
proof -
  have "regions_ok (regions st @ [])" using heapD(1) [OF h] by (auto simp: regions_ok_def)
  then have "heap X Y (st\<lparr>region_cache := [], cache_count := 0, cache_bytes := 0,
     munmaps := munmaps st @ map (\<lambda>r. (rbase r, rsize r)) (region_cache st)\<rparr>) F S"
    by (intro heap_env [OF h]) auto
  also have "st\<lparr>region_cache := [], cache_count := 0, cache_bytes := 0,
     munmaps := munmaps st @ map (\<lambda>r. (rbase r, rsize r)) (region_cache st)\<rparr> = tlsf_region_cache_flush st"
    by (rule tlsf.equality) (simp_all add: tlsf_region_cache_flush_def flush_loop_eq)
  finally show ?thesis .
qed

lemma keeps_live_env [simp]:
  "keeps_live st S (munmap base sz st) S" "keeps_live st S (tlsf_region_cache_flush st) S"
  by (simp_all add: keeps_live_def live_def munmap_def tlsf_region_cache_flush_def flush_loop_eq)

text \<open>Adding a region makes a free block of its usable size.\<close>

definition has_free :: "nat \<Rightarrow> tlsf \<Rightarrow> nat set \<Rightarrow> bool" where
  "has_free m st S \<longleftrightarrow> (\<exists>b \<in> S. is_free {} (blk st) b \<and> m \<le> tlsf_block_size st b)"

lemma activate_keeps:
  assumes h: "heap {} {} st F S" and ok: "regions_ok (r # regions st @ region_cache st)"
    and m: "m \<le> rusable r"
  shows "\<exists>F' S'. heap {} {} (tlsf_region_activate (rbase r) (rsize r) st) F' S' \<and>
           keeps_live st S (tlsf_region_activate (rbase r) (rsize r) st) S' \<and>
           has_free m (tlsf_region_activate (rbase r) (rsize r) st) S'"
proof (rule activate_heap [OF h ok], intro exI conjI)
  fix F' S'
  let ?st = "tlsf_region_activate (rbase r) (rsize r) st"
  assume a: "heap {} {} ?st F' S'" "live ?st S' = live st S"
    "\<And>b. b \<in> live st S \<Longrightarrow> bsize (blk ?st b) = bsize (blk st b)" "payload ?st = payload st"
    "rfirst r \<in> S'" "even (bsize (blk ?st (rfirst r)))" "tlsf_block_size ?st (rfirst r) = rusable r"
  show "heap {} {} ?st F' S'" by (rule a(1))
  show "keeps_live st S ?st S'" using a(2-4) by (simp add: keeps_live_def)
  show "has_free m ?st S'"
    using a(5-7) m unfolding has_free_def is_free_def by (intro bexI [of _ "rfirst r"]) simp_all
qed

lemma map_region_heap:
  assumes h: "heap {} {} st F S" and base: "0 < base" "16 dvd base" and sz: "4096 dvd sz" "65536 \<le> sz" "sz \<le> 2 ^ 39"
    and dj: "\<And>r. r \<in> set (regions st @ region_cache st) \<Longrightarrow> rdisj (mk_region base sz) r"
    and m: "m \<le> sz - 80"
  shows "\<exists>F' S'. heap {} {} (tlsf_region_activate base sz st) F' S' \<and>
           keeps_live st S (tlsf_region_activate base sz st) S' \<and>
           has_free m (tlsf_region_activate base sz st) S'"
proof -
  let ?r = "mk_region base sz"
  have "16 dvd sz" using sz(1) dvd_trans [of 16 4096 sz] by simp
  then have wf: "region_wf ?r" using base sz by (intro mk_region_wf) auto
  have "\<not> rdisj ?r ?r" using sz by (simp add: rdisj_def mk_region_def)
  then have "?r \<notin> set (regions st @ region_cache st)" using dj by blast
  moreover have "rdisj r ?r" if "r \<in> set (regions st @ region_cache st)" for r
    using dj [OF that] by (auto simp: rdisj_def)
  ultimately have ok: "regions_ok (?r # regions st @ region_cache st)"
    using wf dj heapD(1) [OF h] unfolding regions_ok_def by simp
  show ?thesis using activate_keeps [OF h ok, of m] m by (simp add: mk_region_def)
qed

lemma map_pages_heap:
  assumes h: "heap {} {} st F S" and fresh: "mmap_fresh mmap st"
    and m: "map_pages mmap sz st = (base, st')"
  shows "heap {} {} st' F S" and "keeps_live st S st' S"
    and "base = Some a \<Longrightarrow> 0 < a"
    and "base = Some a \<Longrightarrow> r \<in> set (regions st' @ region_cache st') \<Longrightarrow> rdisj (mk_region a sz) r"
proof -
  have st': "st' = (case mmap 0 sz of None \<Rightarrow> tlsf_region_cache_flush st | Some b \<Rightarrow> st)"
    and b: "base = Some a \<Longrightarrow> \<exists>k. mmap k sz = Some a" for a
    using m by (auto simp: map_pages_def split: option.splits)
  show "heap {} {} st' F S" "keeps_live st S st' S"
    using h heap_flush [OF h] by (auto simp: st' split: option.split)
  have "set (regions st' @ region_cache st') \<subseteq> set (regions st @ region_cache st)"
    by (auto simp: st' tlsf_region_cache_flush_def flush_loop_eq split: option.splits)
  then show "base = Some a \<Longrightarrow> 0 < a"
    "base = Some a \<Longrightarrow> r \<in> set (regions st' @ region_cache st') \<Longrightarrow> rdisj (mk_region a sz) r"
    using fresh b unfolding mmap_fresh_def by blast+
qed

lemma grow_map_heap:
  assumes h: "heap {} {} st F S" and fresh: "mmap_fresh mmap st" and c: "c \<le> 2 ^ 39 - 80"
    and g: "grow_map mmap c st = (ok, st')"
  shows "\<exists>F' S'. heap {} {} st' F' S' \<and> keeps_live st S st' S' \<and> (ok \<longrightarrow> has_free c st' S')"
proof -
  define sz where "sz = grow_size c"
  obtain base st1 where mp: "map_pages mmap sz st = (base, st1)" by force
  note mh = map_pages_heap [OF h fresh mp]
  note gs = grow_size_props [OF c, folded sz_def]
  consider "ok = False" "st' = st" | "ok = False" "st' = st1"
    | a where "base = Some a" "ok = False" "st' = munmap a sz st1"
    | a where "base = Some a" "ok = True" "st' = tlsf_region_activate a sz st1"
        "16 dvd a" "c \<le> sz - 80" "sz \<le> 2 ^ 39"
    using g mp unfolding grow_map_def sz_def [symmetric] Let_def
    by (auto simp: tlsf_consts mod_eq_0_iff_dvd not_less split: if_splits option.splits)
  then show ?thesis
  proof cases
    case 1
    then show ?thesis using h keeps_live_refl by blast
  next
    case 2
    then show ?thesis using mh(1,2) by blast
  next
    case 3
    then show ?thesis using heap_munmap [OF mh(1)] keeps_live_trans [OF mh(2) keeps_live_env(1)] by blast
  next
    case 4
    have "\<exists>F' S'. heap {} {} st' F' S' \<and> keeps_live st1 S st' S' \<and> has_free c st' S'"
      unfolding 4(3) by (rule map_region_heap [OF mh(1)]) (use 4 mh(3,4) gs in auto)
    then show ?thesis using keeps_live_trans [OF mh(2)] by blast
  qed
qed

lemma grow_heap:
  assumes h: "heap {} {} st F S" and fresh: "mmap_fresh mmap st"
    and g: "tlsf_grow mmap need st = (ok, st')"
  shows "\<exists>F' S'. heap {} {} st' F' S' \<and> keeps_live st S st' S' \<and>
     (ok \<longrightarrow> (\<exists>fl sl. tlsf_mapping_search need = Some (fl, sl) \<and> has_free (tlsf_class_min fl sl) st' S'))"
proof (cases "tlsf_mapping_search need")
  case None
  then show ?thesis using g h by (auto simp: tlsf_grow_def intro!: exI [of _ F] exI [of _ S])
next
  case (Some c)
  obtain fl sl where c: "c = (fl, sl)" by (cases c)
  define m where "m = tlsf_class_min fl sl"
  have same: ?thesis if "ok = False" "st' = st"
    using that h by (auto intro!: exI [of _ F] exI [of _ S])
  show ?thesis
  proof (cases "m < need \<or> m > TLSF_MAX_BLOCK - TLSF_REGION_OVERHEAD")
    case True
    then show ?thesis using g Some c by (intro same) (auto simp: tlsf_grow_def m_def Let_def)
  next
    case False
    obtain ro st1 where tk: "tlsf_region_take_cache m st = (ro, st1)" by force
    show ?thesis
    proof (cases ro)
      case (Some r)
      have eq: "ok = True" "st' = tlsf_region_activate (rbase r) (rsize r) st1"
        using g False tk Some \<open>tlsf_mapping_search need = Some c\<close> c
        by (auto simp: tlsf_grow_def m_def Let_def)
      note k = take_cache_heap [OF h tk [unfolded Some]]
      from activate_keeps [OF k(1) k(2) k(3)] k(4) eq \<open>tlsf_mapping_search need = Some c\<close> c
      show ?thesis unfolding m_def by (blast intro: keeps_live_trans)
    next
      case None
      then have st1: "st1 = st"
        using tk by (auto simp: tlsf_region_take_cache_def split: option.splits)
      have eq: "grow_map mmap m st = (ok, st')" "m \<le> 2 ^ 39 - 80"
        using g False tk None st1 \<open>tlsf_mapping_search need = Some c\<close> c
        by (auto simp: tlsf_grow_def m_def Let_def tlsf_consts)
      from grow_map_heap [OF h fresh eq(2,1)] \<open>tlsf_mapping_search need = Some c\<close> c
      show ?thesis unfolding m_def by blast
    qed
  qed
qed


section \<open>Allocation\<close>

lemma live_used: "live st S = used st S - sentinels (set (regions st))"
  by (auto simp: live_def used_def)

lemma alloc_block:
  assumes h: "heap {} {} st F S" and b: "b \<in> S" "is_free {} (blk st) b"
    and need: "32 \<le> need" "16 dvd need" "need \<le> tlsf_block_size st b"
    and st': "st' = (let st = tlsf_free_remove b st; st = tlsf_split b need st
                     in set_bsize b (set_used (bsize (blk st b))) st)"
  shows "\<exists>F' S'. heap {} {} st' F' S' \<and> payload st' = payload st \<and> b \<notin> live st S \<and>
           live st' S' = insert b (live st S) \<and> (\<forall>c \<in> live st S. bsize (blk st' c) = bsize (blk st c)) \<and>
           need \<le> tlsf_block_size st' b \<and> tlsf_block_size st' b < need + 32"
proof -
  obtain F1 where h1: "heap {b} {} (tlsf_free_remove b st) F1 S" using heap_take [OF h b] .
  have bs: "b \<notin> sentinels (set (regions st))"
    using even_not_sentinel [OF heapD(2) [OF h], of b] b(2) by (simp add: is_free_def)
  define st1 where "st1 = tlsf_split b need (tlsf_free_remove b st)"
  obtain F2 S2 where r: "heap {b} {} st1 F2 S2" "same_env (tlsf_free_remove b st) st1"
    "keeps_used {b} (tlsf_free_remove b st) S st1 S2" "b \<in> S2"
    "need \<le> tlsf_block_size st1 b" "tlsf_block_size st1 b < need + 32"
    unfolding st1_def
    by (rule split_heap [OF h1 b(1)]) (use bs need in \<open>auto simp: is_free_def\<close>)
  have st'_eq: "st' = set_bsize b (set_used (bsize (blk st1 b))) st1" by (simp add: st' st1_def Let_def)
  have env: "regions st1 = regions st" "payload st1 = payload st" using r(2) by (auto simp: same_env_def)
  have h2: "heap {} {} st' F2 S2"
    unfolding st'_eq
    by (rule heap_set_mark [OF r(1) r(4)]) (use bs env in \<open>auto simp: is_free_def tlsf_block_size_def\<close>)
  have nl: "b \<notin> live st S" using b(2) by (simp add: live_def is_free_def)
  have "used st' S2 = insert b (used st S)"
    using r(3,4) b(2) by (auto simp: keeps_used_def used_def st'_eq is_free_def)
  then have "live st' S2 = insert b (live st S)"
    using bs by (auto simp: live_used st'_eq env)
  moreover have "bsize (blk st' c) = bsize (blk st c)" if "c \<in> live st S" for c
    using that r(3) nl by (auto simp: live_used keeps_used_def used_def st'_eq)
  moreover have "tlsf_block_size st' b = tlsf_block_size st1 b" by (simp add: st'_eq tlsf_block_size_def)
  ultimately show ?thesis using h2 nl r(5,6) env by (intro exI [of _ F2] exI [of _ S2]) (simp add: st'_eq)
qed

lemma find_heap:
  assumes h: "heap {} {} st F S" and need: "32 \<le> need" "need < 2 ^ 39"
  shows "tlsf_find need st = Some b \<Longrightarrow> b \<in> S \<and> is_free {} (blk st) b \<and> need \<le> tlsf_block_size st b"
    and "tlsf_find need st = None \<Longrightarrow> tlsf_mapping_search need = Some (fl, sl) \<Longrightarrow>
           \<not> has_free (tlsf_class_min fl sl) st S"
proof -
  note rep = heapD(3) [OF h]
  have free: "c \<in> S \<and> is_free {} (blk st) c" if "c \<in> set (F k)" for c k
    using that heap_free_iff [OF h, of c] by (auto simp: free_set_iff)
  have rng: "32 \<le> tlsf_block_size st c" "tlsf_block_size st c < 2 ^ 64"
    if "c \<in> S" "is_free {} (blk st) c" for c
    using block_size_range(1,2) [OF h that(1)] that(2) even_not_sentinel [OF heapD(2) [OF h], of c]
    by (auto simp: is_free_def)
  assume f: "tlsf_find need st = Some b"
  then obtain fl sl where s: "tlsf_mapping_search need = Some (fl, sl)"
    by (auto simp: tlsf_find_def split: if_splits option.splits)
  obtain fl' sl' where b: "b \<in> set (F (fl', sl'))" "fl < fl' \<or> fl = fl' \<and> sl \<le> sl'"
    using tlsf_find_sound [OF rep f s] .
  have "need \<le> tlsf_block_size st b"
    using good_fit [OF s need(1) _ fl_repD(3) [OF rep b(1)] rng b(2)] free [OF b(1)] need by simp
  then show "b \<in> S \<and> is_free {} (blk st) b \<and> need \<le> tlsf_block_size st b" using free [OF b(1)] by simp
next
  note rep = heapD(3) [OF h]
  assume f: "tlsf_find need st = None" and s: "tlsf_mapping_search need = Some (fl, sl)"
  show "\<not> has_free (tlsf_class_min fl sl) st S"
  proof
    assume "has_free (tlsf_class_min fl sl) st S"
    then obtain c where c: "c \<in> S" "is_free {} (blk st) c" "tlsf_class_min fl sl \<le> tlsf_block_size st c"
      by (auto simp: has_free_def)
    then obtain k where k: "c \<in> set (F k)" using heap_free_iff [OF h, of c] by (auto simp: free_set_iff)
    obtain fl' sl' where kk: "k = (fl', sl')" by (cases k)
    have rng: "32 \<le> tlsf_block_size st c" "tlsf_block_size st c < 2 ^ 64"
      using block_size_range(1,2) [OF h c(1)] c(2) even_not_sentinel [OF heapD(2) [OF h], of c]
      by (auto simp: is_free_def)
    have "\<not> (fl < fl' \<or> fl = fl' \<and> sl \<le> sl')"
      using tlsf_find_complete [OF rep f s] k kk by fastforce
    moreover note m = mapping_insert_class [OF fl_repD(3) [OF rep k, unfolded kk] rng]
    ultimately have "tlsf_class_min fl' (Suc sl') \<le> tlsf_class_min fl sl"
      by (intro class_min_mono) auto
    then show False using m(1,5) c(3) class_top [of fl' sl'] by simp
  qed
qed


definition malloc_post :: "nat \<Rightarrow> tlsf \<Rightarrow> nat set \<Rightarrow> nat \<Rightarrow> tlsf \<Rightarrow> nat set \<Rightarrow> bool" where
  "malloc_post sz st S p st' S' \<longleftrightarrow>
     payload st' = payload st \<and> (\<forall>b \<in> live st S. bsize (blk st' b) = bsize (blk st b)) \<and>
     (if p = 0 then live st' S' = live st S
      else 16 dvd p \<and> p - 16 \<notin> live st S \<and> live st' S' = insert (p - 16) (live st S) \<and>
           sz + 16 \<le> tlsf_block_size st' (p - 16) \<and> tlsf_block_size st' (p - 16) < sz + 80)"

lemma alloc_found:
  assumes h: "heap {} {} st F S" and h1: "heap {} {} st1 F1 S1" and k: "keeps_live st S st1 S1"
    and need: "tlsf_size_to_block sz = Some need" and f: "tlsf_find need st1 = Some b"
    and st': "st' = (let st = tlsf_free_remove b st1; st = tlsf_split b need st
                     in set_bsize b (set_used (bsize (blk st b))) st)"
  shows "\<exists>F' S'. heap {} {} st' F' S' \<and> malloc_post sz st S (tlsf_block_payload b) st' S'"
proof -
  note n = size_to_block_bounds [OF need]
  note b = find_heap(1) [OF h1 n(1,4) f]
  obtain F' S' where r: "heap {} {} st' F' S'" "payload st' = payload st1" "b \<notin> live st1 S1"
    "live st' S' = insert b (live st1 S1)" "\<forall>c \<in> live st1 S1. bsize (blk st' c) = bsize (blk st1 c)"
    "need \<le> tlsf_block_size st' b" "tlsf_block_size st' b < need + 32"
    using alloc_block [OF h1 _ _ n(1,3) _ st'] b by blast
  have "16 dvd b" using tilingD(3) [OF heapD(2) [OF h1]] b by blast
  then have "malloc_post sz st S (tlsf_block_payload b) st' S'"
    using r k n(2,5) by (simp add: malloc_post_def keeps_live_def tlsf_block_payload_def tlsf_consts)
  with r(1) show ?thesis by blast
qed

lemma malloc_heap:
  assumes h: "heap {} {} st F S" and fresh: "mmap_fresh mmap st" and m: "malloc mmap sz st = (p, st')"
  shows "\<exists>F' S'. heap {} {} st' F' S' \<and> malloc_post sz st S p st' S'"
proof -
  have post0: "malloc_post sz st S 0 s T" if "keeps_live st S s T" for s T
    using that by (simp add: malloc_post_def keeps_live_def)
  show ?thesis
  proof (cases "tlsf_size_to_block sz")
    case None
    then show ?thesis using m h post0 [of st S] by (auto simp: malloc_def)
  next
    case (Some need)
    note need = this
    show ?thesis
    proof (cases "tlsf_find need st")
      case (Some b)
      then show ?thesis
        using alloc_found [OF h h keeps_live_refl need Some refl] m need
        by (auto simp: malloc_def Let_def)
    next
      case None
      obtain g st1 where g: "tlsf_grow mmap need st = (g, st1)" by force
      obtain F1 S1 where r: "heap {} {} st1 F1 S1" "keeps_live st S st1 S1"
        using grow_heap [OF h fresh g] by blast
      show ?thesis
      proof (cases "g \<and> tlsf_find need st1 \<noteq> None")
        case True
        then obtain b where b: "tlsf_find need st1 = Some b" by auto
        show ?thesis
          using alloc_found [OF h r need b refl] m need None g True b
          by (auto simp: malloc_def Let_def)
      next
        case False
        then have "p = 0" "st' = st1" using m need None g by (auto simp: malloc_def Let_def split: if_splits)
        then show ?thesis using r post0 by blast
      qed
    qed
  qed
qed


section \<open>Release\<close>

lemma heap_weaken:
  assumes h: "heap X Y st F S" and sub: "Y \<subseteq> Y'"
  shows "heap X Y' st F S"
proof -
  have "\<forall>b \<in> S. b \<notin> rend ` set (regions st) \<longrightarrow> b + bsz (blk st) b \<notin> Y' \<longrightarrow>
      prev_size (blk st (b + bsz (blk st) b)) = bsz (blk st) b"
    using tilingD(7) [OF heapD(2) [OF h]] sub by blast
  then have "tiling Y' (blk st) (set (regions st)) S"
    using heapD(2) [OF h] unfolding tiling_def by (elim conjE, intro conjI) assumption+
  then show ?thesis using h unfolding heap_def by blast
qed

text \<open>A block out of the lists, with the \<open>prev_size\<close> of its successor possibly stale.\<close>

definition pending :: "nat \<Rightarrow> tlsf \<Rightarrow> (nat \<times> nat \<Rightarrow> nat list) \<Rightarrow> nat set \<Rightarrow> bool" where
  "pending b st F S \<longleftrightarrow>
     heap {b} {b + tlsf_block_size st b} st F S \<and> b \<in> S \<and> even (bsize (blk st b)) \<and>
     \<not> is_free {b} (blk st) (b + tlsf_block_size st b)"

lemma join_next:
  assumes h: "heap {b} {} st F S" and b: "b \<in> S" "even (bsize (blk st b))"
    and nxt: "nxt = b + tlsf_block_size st b"
    and st': "st' = (if tlsf_block_is_free st nxt then
                       let st = tlsf_free_remove nxt st
                       in set_bsize b (tlsf_block_size st b + tlsf_block_size st nxt) st
                     else st)"
  shows "\<exists>F' S'. pending b st' F' S' \<and> same_env st st' \<and> keeps_used {} st S st' S'"
proof (cases "tlsf_block_is_free st nxt")
  case False
  then have "pending b st F S"
    using h b nxt heap_weaken [OF h, of "{nxt}"] by (simp add: pending_def is_free_def tlsf_block_is_free_def)
  then show ?thesis using False st' by (auto simp: same_env_def keeps_used_def)
next
  case True
  note t = heapD(2) [OF h]
  let ?R = "set (regions st)"
  have bs: "b \<notin> sentinels ?R" using even_not_sentinel [OF t b(2)] .
  have nS: "nxt \<in> S" using tilingD(5) [OF t b(1)] bs nxt by (simp add: block_size_bsz)
  have nb: "nxt \<noteq> b" using tilingD(2) [OF t b(1)] nxt by (simp add: block_size_bsz)
  have nf: "is_free {b} (blk st) nxt" using True nb by (simp add: is_free_def tlsf_block_is_free_def)
  have ns: "nxt \<notin> sentinels ?R" using even_not_sentinel [OF t] nf by (auto simp: is_free_def)
  have an: "\<not> is_free {b} (blk st) (nxt + tlsf_block_size st nxt)"
    using heapD(4) [OF h] nS nf tilingD(5) [OF t nS] ns unfolding marks_def block_size_bsz by auto
  obtain F1 where h1: "heap {nxt, b} {} (tlsf_free_remove nxt st) F1 S" using heap_take [OF h nS nf] .
  define tot where "tot = tlsf_block_size st b + tlsf_block_size st nxt"
  have ev: "even tot" by (simp add: tot_def tlsf_block_size_def)
  have st'_eq: "st' = set_bsize b tot (tlsf_free_remove nxt st)"
    using True unfolding st' Let_def by (simp add: tot_def)
  have "heap {nxt, b} {nxt + tlsf_block_size (tlsf_free_remove nxt st) nxt} st' F1 (S - {nxt})"
    unfolding st'_eq
    by (rule heap_merge [OF h1 b(1)])
      (use b bs ns nxt ev in \<open>simp_all add: is_free_def tot_def\<close>)
  moreover have sz: "tlsf_block_size st' b = tot" using ev by (simp add: st'_eq tlsf_block_size_def)
  moreover have "b + tot = nxt + tlsf_block_size st nxt" using nxt by (simp add: tot_def)
  ultimately have h2: "heap {nxt, b} {b + tlsf_block_size st' b} st' F1 (S - {nxt})" by simp
  have "heap {b} {b + tlsf_block_size st' b} st' F1 (S - {nxt})"
    by (rule heap_restrict [OF h2]) auto
  moreover have "\<not> is_free {b} (blk st') (b + tlsf_block_size st' b)"
    using an \<open>b + tot = _\<close> unfolding sz by (simp add: is_free_def st'_eq split: if_splits)
  ultimately have "pending b st' F1 (S - {nxt})"
    using b nb ev unfolding pending_def by (simp add: st'_eq)
  moreover have "keeps_used {} st S st' (S - {nxt})"
    using nf b ev by (auto simp: keeps_used_def used_def st'_eq is_free_def)
  moreover have "same_env st st'" by (simp add: same_env_def st'_eq)
  ultimately show ?thesis by blast
qed

lemma join_prev:
  assumes p: "pending b st F S" and prv: "prv = b - prev_size (blk st b)"
    and st': "(b', st') = (if tlsf_block_is_free st prv then
                  let st = tlsf_free_remove prv st
                  in (prv, set_bsize prv (tlsf_block_size st prv + tlsf_block_size st b) st)
                else (b, st))"
  shows "\<exists>F' S'. pending b' st' F' S' \<and> same_env st st' \<and> keeps_used {} st S st' S' \<and>
           (\<forall>c \<in> S'. c + tlsf_block_size st' c = b' \<longrightarrow> \<not> is_free {b'} (blk st') c)"
proof -
  have h: "heap {b} {b + tlsf_block_size st b} st F S" and b: "b \<in> S" "even (bsize (blk st b))"
    and nn: "\<not> is_free {b} (blk st) (b + tlsf_block_size st b)" using p by (auto simp: pending_def)
  note t = heapD(2) [OF h]
  let ?R = "set (regions st)"
  have bs: "b \<notin> sentinels ?R" using even_not_sentinel [OF t b(2)] .
  have "0 < tlsf_block_size st b" using tilingD(2) [OF t b(1)] by (simp add: block_size_bsz)
  then have pv: "prv \<in> S" "prv + tlsf_block_size st prv = b" "prv \<noteq> b"
    using heap_prev [OF h b(1) bs] prv by auto
  show ?thesis
  proof (cases "tlsf_block_is_free st prv")
    case False
    then have "b' = b" "st' = st" using st' by auto
    moreover have "\<not> is_free {b} (blk st) c" if "c \<in> S" "c + tlsf_block_size st c = b" for c
      using next_inj [OF t that(1) pv(1)] that(2) pv(2) False
      by (simp add: block_size_bsz is_free_def tlsf_block_is_free_def)
    ultimately show ?thesis using p by (auto simp: same_env_def keeps_used_def)
  next
    case True
    have pf: "is_free {b} (blk st) prv" using True pv by (simp add: is_free_def tlsf_block_is_free_def)
    have ps: "prv \<notin> sentinels ?R" using even_not_sentinel [OF t] pf by (auto simp: is_free_def)
    obtain F1 where h1: "heap {prv, b} {b + tlsf_block_size st b} (tlsf_free_remove prv st) F1 S"
      using heap_take [OF h pv(1) pf] .
    define tot where "tot = tlsf_block_size st prv + tlsf_block_size st b"
    have ev: "even tot" by (simp add: tot_def tlsf_block_size_def)
    have eq: "b' = prv" "st' = set_bsize prv tot (tlsf_free_remove prv st)"
      using True st' by (simp_all add: Let_def tot_def)
    have sz: "tlsf_block_size st' prv = tot" "\<And>c. c \<noteq> prv \<Longrightarrow> tlsf_block_size st' c = tlsf_block_size st c"
      using ev by (simp_all add: eq tlsf_block_size_def)
    have nx: "prv + tot = b + tlsf_block_size st b" using pv by (simp add: tot_def)
    have "heap {prv, b} (insert (b + tlsf_block_size (tlsf_free_remove prv st) b)
        {b + tlsf_block_size st b}) st' F1 (S - {b})"
      unfolding eq(2)
      by (rule heap_merge [OF h1 pv(1)])
        (use pv ps bs ev pf in \<open>simp_all add: is_free_def tot_def\<close>)
    then have h2: "heap {prv, b} {prv + tlsf_block_size st' prv} st' F1 (S - {b})" by (simp add: sz nx)
    have h3: "heap {prv} {prv + tlsf_block_size st' prv} st' F1 (S - {b})"
      by (rule heap_restrict [OF h2]) auto
    have af: "\<not> is_free {prv} (blk st') (prv + tlsf_block_size st' prv)"
      using nn tilingD(2) [OF t b(1)] unfolding sz nx
      by (auto simp: is_free_def eq block_size_bsz split: if_splits)
    have "pending prv st' F1 (S - {b})"
      using h3 af pv ev unfolding pending_def by (simp add: eq)
    moreover have "\<not> is_free {prv} (blk st') c"
      if c: "c \<in> S - {b}" "c + tlsf_block_size st' c = prv" for c
    proof (cases "c = prv")
      case False
      then have "\<not> is_free {b} (blk st) c"
        using heapD(4) [OF h] c sz(2) [OF False] pf pv(1) unfolding marks_def block_size_bsz by auto
      then show ?thesis using c False by (auto simp: is_free_def eq)
    qed (simp add: is_free_def)
    moreover have "keeps_used {} st S st' (S - {b})"
      using pf b ev by (auto simp: keeps_used_def used_def eq is_free_def)
    moreover have "same_env st st'" by (simp add: same_env_def eq)
    ultimately show ?thesis unfolding eq(1) by blast
  qed
qed


text \<open>A region whose blocks have all been joined into one.\<close>

lemma tiling_remove_region:
  assumes t: "tiling {} B R S" and r: "r \<in> R" "rfirst r \<in> S" "bsz B (rfirst r) = rusable r"
  shows "tiling {} B (R - {r}) (S - {rstart r, rfirst r, rend r})"
proof -
  let ?N = "{rstart r, rfirst r, rend r}"
  have a: "rfirst r = rstart r + 16" "rend r = rfirst r + rusable r" "rend r + 16 = rbase r + rsize r"
    "rstart r = rbase r + 48" "32 \<le> rusable r"
    using tilingD(14) [OF t r(1)] by (auto simp: region_wf_def rstart_def)
  have sz: "bsz B (rstart r) = 16" "bsz B (rend r) = 16"
    using tilingD(10,11) [OF t r(1)] by (simp_all add: bsz_def)
  have inr: "c \<in> ?N" if "c \<in> S" "rstart r \<le> c" "c < rbase r + rsize r" for c
  proof -
    have "rstart r < c \<Longrightarrow> rfirst r \<le> c" "rfirst r < c \<Longrightarrow> rend r \<le> c"
      "rend r < c \<Longrightarrow> rbase r + rsize r \<le> c"
      using that tilingD(1) [OF t tilingD(8) [OF t r(1)], of c] tilingD(1) [OF t r(2), of c]
        tilingD(1) [OF t tilingD(9) [OF t r(1)], of c] sz a r(3) by auto
    with that show ?thesis by (metis insertCI le_neq_implies_less not_le)
  qed
  have reg: "\<exists>r' \<in> R - {r}. rstart r' \<le> c \<and> c + bsz B c \<le> rbase r' + rsize r'"
    if c: "c \<in> S - ?N" for c
  proof -
    obtain r' where r': "r' \<in> R" "rstart r' \<le> c" "c < rbase r' + rsize r'"
      "c + bsz B c \<le> rbase r' + rsize r'" using block_in_region [OF t, of c] c by blast
    then have "r' \<noteq> r" using inr [of c] c by blast
    then show ?thesis using r' by blast
  qed
  have out: "\<not> (rbase r < c \<and> c \<le> rbase r + rsize r)"
    if "r' \<in> R - {r}" "rstart r' \<le> c" "c < rbase r' + rsize r'" for c r'
    using that tilingD(15) [OF t r(1), of r'] by (auto simp: rdisj_def rstart_def)
  have ends: "c \<in> rend ` (R - {r}) \<longleftrightarrow> c \<in> rend ` R" "c \<in> rstart ` (R - {r}) \<longleftrightarrow> c \<in> rstart ` R"
    if "c \<in> S - ?N" for c using that by auto
  have nx: "c + bsz B c \<in> S - ?N" if c: "c \<in> S - ?N" "c \<notin> rend ` R" for c
  proof -
    have n: "c + bsz B c \<in> S" using tilingD(5) [OF t, of c] c by blast
    obtain r' where r': "r' \<in> R - {r}" "rstart r' \<le> c" "c + bsz B c \<le> rbase r' + rsize r'"
      using reg [OF c(1)] by blast
    have "c + bsz B c + bsz B (c + bsz B c) \<le> rbase r' + rsize r'"
      using next_same_region [OF t, of c r'] c n r' by blast
    then have "\<not> (rbase r < c + bsz B c \<and> c + bsz B c \<le> rbase r + rsize r)"
      using r' tilingD(2) [OF t n] by (intro out [OF r'(1)]) auto
    then show ?thesis using n a by auto
  qed
  show ?thesis
    unfolding tiling_def
  proof (intro conjI ballI impI)
    fix x y assume "x \<in> S - ?N" "y \<in> S - ?N" "x < y"
    then show "x + bsz B x \<le> y" using tilingD(1) [OF t] by blast
  next
    fix x assume x: "x \<in> S - ?N"
    show "0 < bsz B x" "16 dvd bsz B x" "16 dvd x" using x tilingD(2-4) [OF t, of x] by auto
    show "x + bsz B x \<in> S - ?N" if "x \<notin> rend ` (R - {r})" using nx [OF x] ends [OF x] that by blast
    show "prev_size (B (x + bsz B x)) = bsz B x" if "x \<notin> rend ` (R - {r})"
      using tilingD(7) [OF t, of x] x ends [OF x] that by blast
    show "\<exists>c \<in> S - ?N. c + bsz B c = x" if ns: "x \<notin> rstart ` (R - {r})"
    proof -
      obtain c where c: "c \<in> S" "c + bsz B c = x" using tilingD(6) [OF t, of x] x ends [OF x] ns by blast
      obtain r' where r': "r' \<in> R - {r}" "rstart r' \<le> x" "x + bsz B x \<le> rbase r' + rsize r'"
        using reg [OF x] by blast
      have "\<not> (rbase r < x \<and> x \<le> rbase r + rsize r)"
        using r' tilingD(2) [OF t, of x] x by (intro out [OF r'(1)]) auto
      then have "c \<notin> ?N" using c a sz r(3) by auto
      then show ?thesis using c by blast
    qed
    show "32 \<le> bsz B x" if "x \<notin> sentinels (R - {r})"
      using tilingD(12) [OF t, of x] x ends [OF x] that by blast
    show "\<exists>r' \<in> R - {r}. rstart r' \<le> x \<and> x + bsz B x \<le> rbase r' + rsize r'" by (rule reg [OF x])
  next
    fix r' assume r': "r' \<in> R - {r}"
    have "rstart r' < rbase r' + rsize r'" "rend r' < rbase r' + rsize r'" "rstart r' \<le> rend r'"
      using r' tilingD(14) [OF t, of r'] by (auto simp: region_wf_def rstart_def)
    then have "\<not> (rbase r < rstart r' \<and> rstart r' \<le> rbase r + rsize r)"
      "\<not> (rbase r < rend r' \<and> rend r' \<le> rbase r + rsize r)"
      using out [OF r', of "rstart r'"] out [OF r', of "rend r'"] by simp_all
    then show "rstart r' \<in> S - ?N" "rend r' \<in> S - ?N"
      using r' tilingD(8,9) [OF t, of r'] a by auto
    show "bsize (B (rstart r')) = 17" "bsize (B (rend r')) = 17" "region_wf r'"
      using r' tilingD(10,11,14) [OF t, of r'] by auto
    show "rdisj r' r''" if "r'' \<in> R - {r}" "r' \<noteq> r''" for r''
      using r' that tilingD(15) [OF t, of r' r''] by auto
  qed
qed

lemma region_find_mem:
  "tlsf_region_find a st = Some r \<Longrightarrow> r \<in> set (regions st)"
  by (auto simp: tlsf_region_find_def find_Some_iff)

lemma release_region:
  assumes h: "heap {b} {} st F S" and b: "b \<in> S" and r: "r \<in> set (regions st)" "b = rfirst r"
      "tlsf_block_size st b = rusable r"
    and st': "st' = tlsf_region_put_cache r (tlsf_region_remove r st)"
  shows "\<exists>F' S'. heap {} {} st' F' S' \<and> live st' S' = live st S - {b} \<and> blk st' = blk st \<and>
           payload st' = payload st"
proof -
  note t = heapD(2) [OF h]
  let ?N = "{rstart r, rfirst r, rend r}"
  define st1 where "st1 = tlsf_region_remove r st"
  have ok: "regions_ok (regions st @ region_cache st)" using heapD(1) [OF h] .
  obtain xs ys where sp: "regions st = xs @ r # ys" using split_list [OF r(1)] by blast
  have rm: "remove1 r (regions st) = xs @ ys" "set (xs @ ys) = set (regions st) - {r}"
    using ok sp by (auto simp: regions_ok_def remove1_append)
  have t1: "tiling {} (blk st) (set (xs @ ys)) (S - ?N)"
    unfolding rm(2) by (rule tiling_remove_region [OF t r(1)]) (use b r in \<open>auto simp: block_size_bsz\<close>)
  have nN: "\<not> is_free {b} (blk st) c" if "c \<in> ?N" for c
    using that tilingD(10,11) [OF t r(1)] r(2) by (auto simp: is_free_def)
  have fr: "is_free {} (blk st) c \<longleftrightarrow> is_free {b} (blk st) c" if "c \<in> S - ?N" for c
    using that r(2) by (auto simp: is_free_def)
  have m1: "marks {} (blk st) F (S - ?N)"
    unfolding marks_def
  proof (intro conjI ballI impI)
    show "free_set F = {c \<in> S - ?N. is_free {} (blk st) c}"
    proof (rule set_eqI)
      fix c
      show "c \<in> free_set F \<longleftrightarrow> c \<in> {c \<in> S - ?N. is_free {} (blk st) c}"
        using heap_free_iff [OF h, of c] nN [of c] fr [of c] by (cases "c \<in> ?N") blast+
    qed
    fix c assume "c \<in> S - ?N" "is_free {} (blk st) c" "c + bsz (blk st) c \<in> S - ?N"
    then show "\<not> is_free {} (blk st) (c + bsz (blk st) c)"
      using heapD(4) [OF h] fr unfolding marks_def by blast
  qed
  have rep: "fl_rep st1 F"
    by (rule fl_rep_cong [OF heapD(3) [OF h]]) (simp_all add: st1_def tlsf_region_remove_def tlsf_block_size_def)
  have s1: "regions st1 = xs @ ys" "blk st1 = blk st" "region_cache st1 = region_cache st"
    "cache_count st1 = cache_count st" "cache_bytes st1 = cache_bytes st"
    by (simp_all add: st1_def tlsf_region_remove_def rm)
  have ok1: "regions_ok ((xs @ ys) @ region_cache st)" "regions_ok ((xs @ ys) @ r # region_cache st)"
    using ok unfolding sp by (auto simp: regions_ok_def)
  have h1: "heap {} {} st1 F (S - ?N)"
    using h t1 m1 rep ok1(1) unfolding heap_def s1 by simp
  have "heap {} {} st' F (S - ?N)"
  proof (cases "cache_count st1 \<ge> 4 \<or> rsize r > 4194304 - cache_bytes st1")
    case True
    then have "st' = munmap (rbase r) (rsize r) st1"
      by (auto simp: st' st1_def [symmetric] tlsf_region_put_cache_def tlsf_consts)
    then show ?thesis using heap_munmap [OF h1] by simp
  next
    case False
    have c: "cache_count st1 = length (region_cache st1)" "cache_bytes st1 \<le> 4194304"
      "cache_bytes st1 = sum_list (map rsize (region_cache st1))"
      using h1 unfolding heap_def by (auto simp: tlsf_consts)
    have eq: "st' = st1\<lparr>region_cache := r # region_cache st1, cache_count := cache_count st1 + 1,
              cache_bytes := cache_bytes st1 + rsize r, munmaps := munmaps st1\<rparr>"
      using False by (auto simp: st' st1_def [symmetric] tlsf_region_put_cache_def tlsf_consts)
    show ?thesis
      unfolding eq
      by (rule heap_env [OF h1])
        (use False c ok1(2) in \<open>auto simp: s1\<close>)
  qed
  moreover have st'_f: "blk st' = blk st" "payload st' = payload st" "regions st' = xs @ ys"
    by (auto simp: st' tlsf_region_put_cache_def tlsf_region_remove_def munmap_def rm)
  moreover have "live st' (S - ?N) = live st S - {b}"
  proof -
    have R: "set (regions st') = set (regions st) - {r}" using rm(2) by (simp only: st'_f(3))
    have "c \<in> sentinels (set (regions st) - {r}) \<longleftrightarrow> c \<in> sentinels (set (regions st))" if "c \<notin> ?N" for c
      using that by blast
    then show ?thesis using r(1,2) unfolding live_def R st'_f(1) by blast
  qed
  ultimately show ?thesis by blast
qed


definition free_post :: "nat \<Rightarrow> tlsf \<Rightarrow> nat set \<Rightarrow> tlsf \<Rightarrow> nat set \<Rightarrow> bool" where
  "free_post b st S st' S' \<longleftrightarrow>
     payload st' = payload st \<and> live st' S' = live st S - {b} \<and>
     (\<forall>c \<in> live st S - {b}. bsize (blk st' c) = bsize (blk st c))"

lemma free_block_heap:
  assumes h: "heap {} {} st F S" and b: "b \<in> live st S"
  shows "\<exists>F' S'. heap {} {} (tlsf_free_block b st) F' S' \<and> free_post b st S (tlsf_free_block b st) S'"
proof -
  have bS: "b \<in> S" and bs: "b \<notin> sentinels (set (regions st))" and bo: "odd (bsize (blk st b))"
    using b by (auto simp: live_def)
  define st1 where "st1 = set_bsize b (clear_used (bsize (blk st b))) st"
  have h1: "heap {b} {} st1 F S"
    unfolding st1_def
    by (rule heap_set_mark [OF h bS bs]) (use bo in \<open>auto simp: is_free_def tlsf_block_size_def\<close>)
  have k1: "keeps_used {b} st S st1 S" by (auto simp: keeps_used_def used_def st1_def)
  define nxt where "nxt = b + tlsf_block_size st1 b"
  define st2 where "st2 = (if tlsf_block_is_free st1 nxt then
                  let st = tlsf_free_remove nxt st1
                  in set_bsize b (tlsf_block_size st b + tlsf_block_size st nxt) st
                else st1)"
  obtain F2 S2 where r2: "pending b st2 F2 S2" "same_env st1 st2" "keeps_used {} st1 S st2 S2"
    using join_next [OF h1 bS _ nxt_def st2_def] by (auto simp: st1_def)
  define prv where "prv = b - prev_size (blk st2 b)"
  obtain b3 st3 where st3: "(b3, st3) = (if tlsf_block_is_free st2 prv then
                  let st = tlsf_free_remove prv st2
                  in (prv, set_bsize prv (tlsf_block_size st prv + tlsf_block_size st b) st)
                else (b, st2))" by (metis surj_pair)
  obtain F3 S3 where r3: "pending b3 st3 F3 S3" "same_env st2 st3" "keeps_used {} st2 S2 st3 S3"
    "\<And>c. c \<in> S3 \<Longrightarrow> c + tlsf_block_size st3 c = b3 \<Longrightarrow> \<not> is_free {b3} (blk st3) c"
    using join_prev [OF r2(1) prv_def st3] by blast
  define st4 where "st4 = set_prev_size (b3 + tlsf_block_size st3 b3) (tlsf_block_size st3 b3) st3"
  have p3: "heap {b3} {b3 + tlsf_block_size st3 b3} st3 F3 S3" "b3 \<in> S3" "even (bsize (blk st3 b3))"
    "\<not> is_free {b3} (blk st3) (b3 + tlsf_block_size st3 b3)" using r3(1) by (auto simp: pending_def)
  have "b3 \<notin> sentinels (set (regions st3))" using even_not_sentinel [OF heapD(2) [OF p3(1)] p3(3)] .
  then have h4: "heap {b3} {} st4 F3 S3"
    using heap_set_prev [OF p3(1,2) _ refl refl] by (simp add: st4_def)
  have bs4: "bsize (blk st4 c) = bsize (blk st3 c)" for c by (simp add: st4_def)
  have sz4: "tlsf_block_size st4 = tlsf_block_size st3" and fr4: "is_free X (blk st4) = is_free X (blk st3)" for X
    by (simp_all add: fun_eq_iff tlsf_block_size_def is_free_def bs4)
  have env: "regions st4 = regions st" "payload st4 = payload st"
    using r2(2) r3(2) by (auto simp: same_env_def st4_def st1_def)
  have us: "used st4 S3 = used st S - {b}" and same: "\<And>c. c \<in> used st S - {b} \<Longrightarrow> bsize (blk st4 c) = bsize (blk st c)"
    using r2(3) r3(3) by (auto simp: keeps_used_def bs4 used_def st1_def split: if_splits)
  then have lv: "live st4 S3 = live st S - {b}" by (auto simp: live_used env)
  have same': "bsize (blk st4 c) = bsize (blk st c)" if "c \<in> live st S - {b}" for c
    using that same by (auto simp: live_used)
  have b3: "b3 \<notin> live st S - {b}" using p3(3) bs4 lv by (auto simp: live_def)
  have eq: "tlsf_free_block b st =
    (case tlsf_region_find b3 st4 of
       Some r \<Rightarrow> if b3 = rfirst r \<and> tlsf_block_size st4 b3 = rusable r
                 then tlsf_region_put_cache r (tlsf_region_remove r st4) else tlsf_free_insert b3 st4
     | None \<Rightarrow> tlsf_free_insert b3 st4)"
    unfolding tlsf_free_block_def Let_def st1_def [symmetric] nxt_def [symmetric]
      st2_def [unfolded Let_def, symmetric] prv_def [symmetric] st3 [unfolded Let_def, symmetric]
    by (simp only: prod.case st4_def [symmetric])
  show ?thesis
  proof (cases "\<exists>r. tlsf_region_find b3 st4 = Some r \<and> b3 = rfirst r \<and> tlsf_block_size st4 b3 = rusable r")
    case True
    then obtain r where r: "tlsf_region_find b3 st4 = Some r" "b3 = rfirst r" "tlsf_block_size st4 b3 = rusable r"
      by blast
    have "\<exists>F' S'. heap {} {} (tlsf_free_block b st) F' S' \<and> live (tlsf_free_block b st) S' = live st4 S3 - {b3} \<and>
        blk (tlsf_free_block b st) = blk st4 \<and> payload (tlsf_free_block b st) = payload st4"
      by (rule release_region [OF h4 p3(2) region_find_mem [OF r(1)] r(2,3)]) (simp add: eq r(1) r(2,3) [symmetric])
    then show ?thesis using lv b3 same' env unfolding free_post_def by auto
  next
    case False
    then have eq': "tlsf_free_block b st = tlsf_free_insert b3 st4"
      unfolding eq by (auto split: option.split)
    obtain F5 where h5: "heap ({b3} - {b3}) {} (tlsf_free_insert b3 st4) F5 S3"
      by (rule heap_put [OF h4 p3(2)]) (use p3 r3(4) in \<open>simp_all add: sz4 fr4 bs4\<close>)
    have "live (tlsf_free_insert b3 st4) S3 = live st4 S3" by (simp add: live_def)
    then have "free_post b st S (tlsf_free_insert b3 st4) S3"
      using lv same' env unfolding free_post_def by simp
    then show ?thesis using h5 unfolding eq' by auto
  qed
qed


section \<open>Resizing\<close>

text \<open>Resizing a live block in place: it stays live, has the room, and nothing else changes.\<close>

definition in_place :: "nat \<Rightarrow> nat \<Rightarrow> tlsf \<Rightarrow> nat set \<Rightarrow> tlsf \<Rightarrow> nat set \<Rightarrow> bool" where
  "in_place need b st S st' S' \<longleftrightarrow>
     payload st' = payload st \<and> live st' S' = live st S \<and> need \<le> tlsf_block_size st' b \<and>
     (\<forall>c \<in> live st S - {b}. bsize (blk st' c) = bsize (blk st c))"

lemma live_odd: "b \<in> live st S \<Longrightarrow> \<not> is_free X (blk st) b"
  by (simp add: live_def is_free_def)

lemma shrink_heap:
  assumes h: "heap {} {} st F S" and b: "b \<in> live st S"
    and need: "32 \<le> need" "16 dvd need" "need \<le> tlsf_block_size st b"
  shows "\<exists>F' S'. heap {} {} (tlsf_split b need st) F' S' \<and> in_place need b st S (tlsf_split b need st) S'"
proof -
  have b': "b \<in> S" "b \<notin> sentinels (set (regions st))" "odd (bsize (blk st b))" using b by (auto simp: live_def)
  define st1 where "st1 = tlsf_split b need st"
  obtain F' S' where r: "heap {} {} st1 F' S'" "same_env st st1" "keeps_used {b} st S st1 S'" "b \<in> S'"
    "even (bsize (blk st1 b)) = even (bsize (blk st b))" "need \<le> tlsf_block_size st1 b"
    unfolding st1_def
    by (rule split_heap [OF h b'(1,2) live_odd [OF b] _ need]) auto
  have "used st1 S' = used st S" using r(3-5) b' by (auto simp: keeps_used_def used_def)
  then have "live st1 S' = live st S" using r(2) by (simp add: live_used same_env_def)
  moreover have "\<forall>c \<in> live st S - {b}. bsize (blk st1 c) = bsize (blk st c)"
    using r(3) by (auto simp: keeps_used_def live_used)
  ultimately have "in_place need b st S st1 S'" using r(2,6) by (simp add: in_place_def same_env_def)
  then show ?thesis using r(1) unfolding st1_def by blast
qed

lemma expand_heap:
  assumes h: "heap {} {} st F S" and b: "b \<in> live st S"
    and nxt: "nxt = b + tlsf_block_size st b" "tlsf_block_is_free st nxt"
    and tot: "tot = tlsf_block_size st b + tlsf_block_size st nxt"
    and need: "32 \<le> need" "16 dvd need" "need \<le> tot"
    and st1: "st1 = set_prev_size (b + tot) tot (set_bsize b (set_used tot) (tlsf_free_remove nxt st))"
  shows "\<exists>F' S'. heap {} {} (tlsf_split b need st1) F' S' \<and> in_place need b st S (tlsf_split b need st1) S'"
proof -
  have b': "b \<in> S" "b \<notin> sentinels (set (regions st))" "odd (bsize (blk st b))" using b by (auto simp: live_def)
  note t = heapD(2) [OF h]
  have nS: "nxt \<in> S" using tilingD(5) [OF t b'(1)] b' nxt by (simp add: block_size_bsz)
  have nf: "is_free {} (blk st) nxt" using nxt by (simp add: is_free_def tlsf_block_is_free_def)
  have ns: "nxt \<notin> sentinels (set (regions st))" using even_not_sentinel [OF t] nf by (auto simp: is_free_def)
  have nb: "nxt \<noteq> b" using tilingD(2) [OF t b'(1)] nxt by (simp add: block_size_bsz)
  obtain F1 where h1: "heap {nxt} {} (tlsf_free_remove nxt st) F1 S" using heap_take [OF h nS nf] .
  have ev: "even tot" by (simp add: tot tlsf_block_size_def)
  have bt: "b + tot = nxt + tlsf_block_size st nxt" using nxt(1) tot by simp
  define st0 where "st0 = set_bsize b (set_used tot) (tlsf_free_remove nxt st)"
  have "heap {nxt} {nxt + tlsf_block_size (tlsf_free_remove nxt st) nxt} st0 F1 (S - {nxt})"
    unfolding st0_def
    by (rule heap_merge [OF h1 b'(1)]) (use b' ns nxt(1) ev tot in \<open>simp_all add: is_free_def\<close>)
  then have h2: "heap {nxt} {b + tot} st0 F1 (S - {nxt})" using bt by simp
  have sz0: "tlsf_block_size st0 b = tot" using ev by (simp add: st0_def tlsf_block_size_def)
  have "heap {nxt} ({b + tot} - {b + tot}) st1 F1 (S - {nxt})"
    unfolding st1 st0_def [symmetric]
    by (rule heap_set_prev [OF h2, of b]) (use b' nb sz0 in \<open>simp_all add: st0_def\<close>)
  then have h3': "heap {nxt} {} st1 F1 (S - {nxt})" by simp
  have h3: "heap {} {} st1 F1 (S - {nxt})" by (rule heap_restrict [OF h3']) auto
  have bs1: "bsize (blk st1 c) = (if c = b then set_used tot else bsize (blk st c))" for c by (simp add: st1)
  have env: "regions st1 = regions st" "payload st1 = payload st" by (simp_all add: st1)
  have l1: "live st1 (S - {nxt}) = live st S"
    using b nf by (auto simp: live_def bs1 env is_free_def)
  have sz1: "tlsf_block_size st1 b = tot" using ev by (simp add: tlsf_block_size_def bs1)
  obtain F' S' where r: "heap {} {} (tlsf_split b need st1) F' S'"
    "in_place need b st1 (S - {nxt}) (tlsf_split b need st1) S'"
    using shrink_heap [OF h3 _ need(1,2), of b] b l1 need(3) sz1 by metis
  then have "in_place need b st S (tlsf_split b need st1) S'"
    by (simp add: in_place_def l1 env bs1)
  then show ?thesis using r(1) by blast
qed


text \<open>
  What \<open>realloc\<close> promises for a live block \<open>b\<close>: on failure nothing changes; on success the block
  is replaced by one with the room, holding the old bytes, and no other live block changes.
\<close>

definition realloc_post :: "nat \<Rightarrow> nat \<Rightarrow> tlsf \<Rightarrow> nat set \<Rightarrow> nat \<Rightarrow> tlsf \<Rightarrow> nat set \<Rightarrow> bool" where
  "realloc_post sz b st S p st' S' \<longleftrightarrow>
     (\<forall>c \<in> live st S - {b}. bsize (blk st' c) = bsize (blk st c) \<and>
        (\<forall>a. c + 16 \<le> a \<and> a < c + tlsf_block_size st c \<longrightarrow> payload st' a = payload st a)) \<and>
     (if p = 0
      then live st' S' = live st S \<and> bsize (blk st' b) = bsize (blk st b) \<and> payload st' = payload st
      else 16 dvd p \<and> live st' S' = insert (p - 16) (live st S - {b}) \<and>
           sz + 16 \<le> tlsf_block_size st' (p - 16) \<and>
           (\<forall>i < min sz (tlsf_block_size st b - 16). payload st' (p + i) = payload st (b + 16 + i)))"

lemma in_place_post:
  assumes h: "heap {} {} st F S" and b: "b \<in> live st S" and ip: "in_place need b st S st' S'"
    and need: "sz + 16 \<le> need"
  shows "realloc_post sz b st S (b + 16) st' S'"
proof -
  have "16 dvd b" using b tilingD(3) [OF heapD(2) [OF h]] by (auto simp: live_def)
  then show ?thesis using ip need b by (auto simp: realloc_post_def in_place_def add.commute)
qed

lemma move_heap:
  assumes h: "heap {} {} st F S" and fresh: "mmap_fresh mmap st" and b: "b \<in> live st S"
    and m: "realloc_move mmap (b + 16) sz st = (p, st')"
  shows "\<exists>F' S'. heap {} {} st' F' S' \<and> realloc_post sz b st S p st' S'"
proof -
  obtain q st1 where q: "malloc mmap sz st = (q, st1)" by force
  obtain F1 S1 where r: "heap {} {} st1 F1 S1" "malloc_post sz st S q st1 S1"
    using malloc_heap [OF h fresh q] by blast
  have pb: "tlsf_payload_block (b + 16) = b" by (simp add: tlsf_payload_block_def tlsf_consts)
  have szb: "bsize (blk st1 c) = bsize (blk st c)" if "c \<in> live st S" for c
    using r(2) that by (auto simp: malloc_post_def)
  show ?thesis
  proof (cases "q = 0")
    case True
    then have "p = 0" "st' = st1" using m q by (auto simp: realloc_move_def)
    then show ?thesis using r True szb b
      by (intro exI [of _ F1] exI [of _ S1]) (auto simp: realloc_post_def malloc_post_def)
  next
    case False
    define n where "n = min sz (tlsf_block_size st b - 16)"
    define st2 where "st2 = copy_payload q (b + 16) n st1"
    have n: "n = (if tlsf_block_size st1 b - TLSF_HEADER_SIZE < sz then tlsf_block_size st1 b - TLSF_HEADER_SIZE else sz)"
      using szb [OF b] by (simp add: n_def tlsf_block_size_def tlsf_consts)
    have eq: "p = q" "st' = free (b + 16) st2"
      using m False q unfolding realloc_move_def pb st2_def n by (auto simp: Let_def)
    have c2: "blk st2 = blk st1" "regions st2 = regions st1" "live st2 S1 = live st1 S1"
      by (simp_all add: st2_def copy_payload_def live_def)
    have "fl_rep st2 F1"
      by (rule fl_rep_cong [OF heapD(3) [OF r(1)]]) (simp_all add: st2_def copy_payload_def tlsf_block_size_def)
    then have h2: "heap {} {} st2 F1 S1"
      using r(1) unfolding heap_def by (simp add: st2_def copy_payload_def)
    have post: "16 dvd q" "q - 16 \<notin> live st S" "live st1 S1 = insert (q - 16) (live st S)"
      "sz + 16 \<le> tlsf_block_size st1 (q - 16)" "payload st1 = payload st"
      using r(2) False by (auto simp: malloc_post_def)
    have q16: "16 \<le> q" using post(1) False by (auto elim: dvdE)
    have b2: "b \<in> live st2 S1" using b post(3) c2 by simp
    have "free (b + 16) st2 = tlsf_free_block b st2"
      using b2 by (simp add: free_def pb Let_def tlsf_block_is_free_def live_def)
    then obtain F3 S3 where h3: "heap {} {} st' F3 S3" "free_post b st2 S1 st' S3"
      using free_block_heap [OF h2 b2] eq by auto
    have f: "payload st' = payload st2" "live st' S3 = insert (q - 16) (live st S) - {b}"
      "\<And>c. c \<in> live st1 S1 - {b} \<Longrightarrow> bsize (blk st' c) = bsize (blk st1 c)"
      using h3(2) c2 post(3) by (auto simp: free_post_def)
    have nb: "q - 16 \<noteq> b" using post(2) b by blast
    have pay: "payload st2 a = (if q \<le> a \<and> a < q + n then payload st (b + 16 + (a - q)) else payload st a)" for a
      using post(5) by (simp add: st2_def copy_payload_def)
    have lS: "c \<in> S1" if "c \<in> live st1 S1" for c using that by (auto simp: live_def)
    have other: "payload st' a = payload st a"
      if c: "c \<in> live st S - {b}" "c + 16 \<le> a" "a < c + tlsf_block_size st c" for c a
    proof -
      have s: "tlsf_block_size st1 c = tlsf_block_size st c" using szb [of c] c by (simp add: tlsf_block_size_def)
      have "c \<in> S1" "q - 16 \<in> S1" "c \<noteq> q - 16" using lS post c by auto
      then have "c + tlsf_block_size st c \<le> q - 16 \<or> q - 16 + tlsf_block_size st1 (q - 16) \<le> c"
        using tilingD(1) [OF heapD(2) [OF r(1)], of c "q - 16"]
          tilingD(1) [OF heapD(2) [OF r(1)], of "q - 16" c] s
        by (cases c "q - 16" rule: linorder_cases) (auto simp: block_size_bsz)
      moreover have "n \<le> sz" by (simp add: n_def)
      ultimately have "\<not> (q \<le> a \<and> a < q + n)" using c post(4) q16 by auto
      then show ?thesis unfolding f(1) pay by (simp only: if_False)
    qed
    have "bsize (blk st' (q - 16)) = bsize (blk st1 (q - 16))" using f(3) post(3) nb by simp
    then have "sz + 16 \<le> tlsf_block_size st' (q - 16)" using post(4) by (simp add: tlsf_block_size_def)
    moreover have "\<forall>i < n. payload st' (q + i) = payload st (b + 16 + i)" using f(1) pay by simp
    moreover have "live st' S3 = insert (q - 16) (live st S - {b})" using f(2) nb by auto
    moreover have "bsize (blk st' c) = bsize (blk st c)" if "c \<in> live st S - {b}" for c
      using f(3) [of c] szb [of c] that post(3) by auto
    ultimately have "realloc_post sz b st S q st' S3"
      using False other post(1) unfolding realloc_post_def n_def by simp
    then show ?thesis using h3(1) eq by blast
  qed
qed


lemma realloc_heap:
  assumes h: "heap {} {} st F S" and fresh: "mmap_fresh mmap st" and b: "b \<in> live st S" and sz: "sz \<noteq> 0"
    and m: "realloc mmap (b + 16) sz st = (p, st')"
  shows "\<exists>F' S'. heap {} {} st' F' S' \<and> realloc_post sz b st S p st' S'"
proof (cases "tlsf_size_to_block sz")
  case None
  then have "p = 0" "st' = st" using m sz by (auto simp: realloc_def)
  then show ?thesis using h by (intro exI [of _ F] exI [of _ S]) (simp add: realloc_post_def)
next
  case (Some need)
  note n = size_to_block_bounds [OF Some]
  have pb: "tlsf_payload_block (b + 16) = b" by (simp add: tlsf_payload_block_def tlsf_consts)
  define nxt where "nxt = b + tlsf_block_size st b"
  define tot where "tot = tlsf_block_size st b + tlsf_block_size st nxt"
  have mv: "p = p \<Longrightarrow> realloc_move mmap (b + 16) sz st = (p, st') \<Longrightarrow> ?thesis"
    using move_heap [OF h fresh b] .
  consider "need \<le> tlsf_block_size st b"
    | "\<not> need \<le> tlsf_block_size st b" "tlsf_block_is_free st nxt" "need \<le> tot"
        "tlsf_block_size st nxt \<le> SIZE_MAX - tlsf_block_size st b"
    | "realloc_move mmap (b + 16) sz st = (p, st')"
    using m sz Some n(1) unfolding realloc_def pb Let_def nxt_def [symmetric] tot_def [symmetric]
    by (auto split: if_splits)
  then show ?thesis
  proof cases
    case 1
    then have "p = b + 16" "st' = tlsf_split b need st" using m sz Some by (auto simp: realloc_def pb Let_def)
    then show ?thesis using shrink_heap [OF h b n(1,3) 1] in_place_post [OF h b _ n(2)] by blast
  next
    case 2
    define st1 where "st1 = set_prev_size (b + tot) tot (set_bsize b (set_used tot) (tlsf_free_remove nxt st))"
    have "p = b + 16" "st' = tlsf_split b need st1"
      using m sz Some 2 unfolding realloc_def pb Let_def nxt_def [symmetric] tot_def [symmetric] st1_def
      by (simp_all add: tot_def [symmetric])
    then show ?thesis
      using expand_heap [OF h b nxt_def 2(2) tot_def n(1,3) 2(3) st1_def] in_place_post [OF h b _ n(2)] by blast
  next
    case 3
    then show ?thesis using mv by blast
  qed
qed


section \<open>Success\<close>

lemma mapping_search_total:
  assumes "32 \<le> need" and "need < 2 ^ 38"
  shows "\<exists>fl sl. tlsf_mapping_search need = Some (fl, sl) \<and> 32 * tlsf_class_min fl sl \<le> 33 * need"
proof -
  define f where "f = tlsf_fls need"
  define q :: nat where "q = 2 ^ (f - 5)"
  have f5: "5 \<le> f" using tlsf_fls_ge5 [of need] assms by (simp add: f_def)
  have fb: "2 ^ f \<le> need" using tlsf_fls_bounds(2) [of need] assms by (simp add: f_def)
  then have "(2 :: nat) ^ f < 2 ^ 38" using assms by linarith
  then have f38: "f < 38" by (meson power_less_imp_less_exp one_less_numeral_iff semiring_norm(76))
  have "2 ^ f = 32 * q" using f5 power_add [of "2 :: nat" 5 "f - 5"] by (simp add: q_def)
  then have qn: "32 * q \<le> need" using fb by simp
  have "need + (q - 1) < 2 ^ 39" using assms qn by simp
  then obtain fl sl where m: "tlsf_mapping_insert (need + (q - 1)) = Some (fl, sl)"
    using mapping_insert_total [of "need + (q - 1)"] assms by auto
  have lt: "need + (q - 1) < 2 ^ 64" using assms qn by auto
  have "\<not> need > SIZE_MAX - (q - 1)" using assms qn by (simp add: SIZE_MAX_def)
  then have s: "tlsf_mapping_search need = Some (fl, sl)"
    using m assms f38 by (simp add: tlsf_mapping_search_def tlsf_consts Let_def f_def [symmetric] q_def)
  have "tlsf_class_min fl sl \<le> need + (q - 1)" using mapping_insert_class(4) [OF m _ lt] assms by simp
  then show ?thesis using s qn assms by (intro exI [of _ fl] exI [of _ sl]) auto
qed

lemma grow_succeeds:
  assumes h: "heap {} {} st F S" and need: "32 \<le> need" "need < 2 ^ 38"
    and maps: "\<And>n. \<exists>base. mmap 0 n = Some base \<and> 16 dvd base"
  shows "fst (tlsf_grow mmap need st)"
proof -
  obtain fl sl where s: "tlsf_mapping_search need = Some (fl, sl)" "32 * tlsf_class_min fl sl \<le> 33 * need"
    using mapping_search_total [OF need] by blast
  define c where "c = tlsf_class_min fl sl"
  have nc: "need \<le> c" using mapping_search_class(4) [OF s(1) need(1)] need(2) by (simp add: c_def)
  have c39: "c \<le> 2 ^ 39 - 2 * 4096" using s(2) need(2) by (simp add: c_def)
  obtain ro st1 where tk: "tlsf_region_take_cache c st = (ro, st1)" by force
  show ?thesis
  proof (cases ro)
    case (Some r)
    then show ?thesis using s tk nc c39 by (simp add: tlsf_grow_def c_def [symmetric] Let_def tlsf_consts)
  next
    case None
    obtain base where base: "mmap 0 (grow_size c) = Some base" "16 dvd base" using maps by blast
    have "c + 80 \<le> grow_size c" "grow_size c \<le> 2 ^ 39"
      using c39 by (auto simp: grow_size_def tlsf_consts Let_def)
    then have "fst (grow_map mmap c st1)"
      using base by (simp add: grow_map_def map_pages_def Let_def tlsf_consts mod_eq_0_iff_dvd) linarith
    then show ?thesis
      using s tk None nc c39 by (simp add: tlsf_grow_def c_def [symmetric] Let_def tlsf_consts)
  qed
qed

lemma malloc_nonnull:
  assumes h: "heap {} {} st F S" and fresh: "mmap_fresh mmap st" and sz: "0 < sz" "sz \<le> 2 ^ 37"
    and maps: "\<And>n. \<exists>base. mmap 0 n = Some base \<and> 16 dvd base"
  shows "fst (malloc mmap sz st) \<noteq> 0"
proof -
  have "(sz + 15) div 16 \<le> (2 ^ 37 + 15) div 16" using sz by (intro div_le_mono) simp
  then have "tlsf_size_to_block sz \<noteq> None"
    using sz by (simp add: tlsf_size_to_block_def tlsf_consts Let_def add.commute)
  then obtain need where need: "tlsf_size_to_block sz = Some need" by blast
  note n = size_to_block_bounds [OF need]
  have n38: "need < 2 ^ 38" using n(5) sz by simp
  show ?thesis
  proof (cases "tlsf_find need st")
    case (Some b)
    then show ?thesis using need by (simp add: malloc_def Let_def tlsf_block_payload_def tlsf_consts)
  next
    case None
    obtain g st1 where g: "tlsf_grow mmap need st = (g, st1)" by force
    have gt: g using grow_succeeds [OF h n(1) n38, of mmap] maps g by simp
    obtain F1 S1 fl sl where r: "heap {} {} st1 F1 S1" "tlsf_mapping_search need = Some (fl, sl)"
      "has_free (tlsf_class_min fl sl) st1 S1"
      using grow_heap [OF h fresh g] gt by blast
    then obtain b where "tlsf_find need st1 = Some b"
      using find_heap(2) [OF r(1) n(1,4)] by (cases "tlsf_find need st1") auto
    then show ?thesis
      using need None g gt by (simp add: malloc_def Let_def tlsf_block_payload_def tlsf_consts)
  qed
qed

section \<open>The interface\<close>

definition tlsf_init :: tlsf where
  "tlsf_init = \<lparr>blk = (\<lambda>_. \<lparr>bsize = 0, prev_size = 0\<rparr>), lnk = (\<lambda>_. \<lparr>next_l = 0, prev_l = 0\<rparr>),
     free_list = (\<lambda>_ _. 0), sl_bitmap = (\<lambda>_. 0), fl_bitmap = 0, regions = [], region_cache = [],
     cache_count = 0, cache_bytes = 0, payload = (\<lambda>_. 0), munmaps = []\<rparr>"

lemma heap_init: "heap {} {} tlsf_init (\<lambda>_. []) {}"
  by (simp add: heap_def tlsf_init_def regions_ok_def tiling_def fl_rep_def marks_def free_set_def)

lemma live_init: "live tlsf_init {} = {}"
  by (simp add: live_def)

text \<open>A kernel that always maps at one fixed, aligned address.\<close>

definition mmap_at :: "nat \<Rightarrow> mmap_fun" where
  "mmap_at base = (\<lambda>k sz. Some base)"

lemma mmap_at_fresh: "0 < base \<Longrightarrow> mmap_fresh (mmap_at base) tlsf_init"
  by (simp add: mmap_fresh_def mmap_at_def tlsf_init_def)

text \<open>
  C2. \<open>malloc\<close> keeps the heap invariant. It either returns a null pointer and leaves the live
  blocks as they are, or returns an aligned pointer to a block that was not live, is live now,
  and has room for the requested size plus its header (and wastes less than 64 bytes); no other
  live block and no payload changes.
\<close>

theorem malloc_correct:
  assumes "heap {} {} st F S" and "mmap_fresh mmap st"
  shows "\<exists>F' S'. heap {} {} (snd (malloc mmap sz st)) F' S' \<and>
           malloc_post sz st S (fst (malloc mmap sz st)) (snd (malloc mmap sz st)) S'"
  using malloc_heap [OF assms, of sz "fst (malloc mmap sz st)" "snd (malloc mmap sz st)"] by simp

theorem malloc_correct_witness:
  "\<exists>F' S'. heap {} {} (snd (malloc (mmap_at 65536) 100 tlsf_init)) F' S' \<and>
     malloc_post 100 tlsf_init {} (fst (malloc (mmap_at 65536) 100 tlsf_init))
       (snd (malloc (mmap_at 65536) 100 tlsf_init)) S'"
  by (rule malloc_correct [OF heap_init mmap_at_fresh]) simp

text \<open>
  C6. \<open>malloc\<close> of up to 128 GiB succeeds whenever the kernel maps: the class the search starts
  in is served by every region that \<open>tlsf_grow\<close> adds, so the second search finds a block.
\<close>

theorem malloc_succeeds:
  assumes h: "heap {} {} st F S" and fresh: "mmap_fresh mmap st" and sz: "0 < sz" "sz \<le> 2 ^ 37"
    and maps: "\<And>n. \<exists>base. mmap 0 n = Some base \<and> 16 dvd base"
  shows "fst (malloc mmap sz st) \<noteq> 0"
  using malloc_nonnull [OF h fresh sz, of] maps by blast

theorem malloc_succeeds_witness: "fst (malloc (mmap_at 65536) 1000 tlsf_init) \<noteq> 0"
  by (rule malloc_succeeds [OF heap_init mmap_at_fresh]) (simp_all add: mmap_at_def)

text \<open>A heap with one live block, for the witnesses.\<close>

definition one_block :: tlsf where
  "one_block = snd (malloc (mmap_at 65536) 1000 tlsf_init)"

lemma one_block_live: "\<exists>F S b. heap {} {} one_block F S \<and> b \<in> live one_block S"
proof -
  have fr: "mmap_fresh (mmap_at 65536) tlsf_init" by (simp add: mmap_at_fresh)
  have "fst (malloc (mmap_at 65536) 1000 tlsf_init) \<noteq> 0"
    by (rule malloc_nonnull [OF heap_init fr]) (simp_all add: mmap_at_def)
  moreover obtain F' S' where "heap {} {} one_block F' S'"
    "malloc_post 1000 tlsf_init {} (fst (malloc (mmap_at 65536) 1000 tlsf_init)) one_block S'"
    using malloc_heap [OF heap_init fr, of 1000] unfolding one_block_def by (metis surjective_pairing)
  ultimately have "heap {} {} one_block F' S' \<and>
      fst (malloc (mmap_at 65536) 1000 tlsf_init) - 16 \<in> live one_block S'"
    by (simp add: malloc_post_def)
  then show ?thesis by blast
qed




text \<open>
  C4. \<open>realloc\<close> of a live block to a non-zero size keeps the heap invariant. On failure the
  heap is unchanged; on success the block is resized in place or moved, its first bytes up to
  the smaller of the two sizes are those it had, and no other live block changes its size or
  its bytes.
\<close>

theorem realloc_correct:
  assumes "heap {} {} st F S" and "mmap_fresh mmap st" and "b \<in> live st S" and "sz \<noteq> 0"
  shows "\<exists>F' S'. heap {} {} (snd (realloc mmap (b + 16) sz st)) F' S' \<and>
           realloc_post sz b st S (fst (realloc mmap (b + 16) sz st)) (snd (realloc mmap (b + 16) sz st)) S'"
  using realloc_heap [OF assms, of "fst (realloc mmap (b + 16) sz st)" "snd (realloc mmap (b + 16) sz st)"]
  by simp


theorem realloc_correct_witness:
  "\<exists>S b F' S'. b \<in> live one_block S \<and>
     heap {} {} (snd (realloc (\<lambda>_ _. None) (b + 16) 5000 one_block)) F' S' \<and>
     realloc_post 5000 b one_block S (fst (realloc (\<lambda>_ _. None) (b + 16) 5000 one_block))
       (snd (realloc (\<lambda>_ _. None) (b + 16) 5000 one_block)) S'"
proof -
  obtain F S b where o: "heap {} {} one_block F S" "b \<in> live one_block S" using one_block_live by blast
  have "mmap_fresh (\<lambda>_ _. None) one_block" by (simp add: mmap_fresh_def)
  from realloc_correct [OF o(1) this o(2), of 5000] o(2) show ?thesis by auto
qed

text \<open>
  The client's view: a sequence of calls, with the set of pointers that were handed out and
  not given back. \<open>calloc\<close> also clears what it hands out.
\<close>

inductive alloc_run :: "tlsf \<Rightarrow> nat set \<Rightarrow> bool" where
  run_init: "alloc_run tlsf_init {}"
| run_malloc: "alloc_run st P \<Longrightarrow> mmap_fresh mmap st \<Longrightarrow> malloc mmap sz st = (p, st') \<Longrightarrow>
    alloc_run st' (if p = 0 then P else insert p P)"
| run_calloc: "alloc_run st P \<Longrightarrow> mmap_fresh mmap st \<Longrightarrow> calloc mmap n sz st = (p, st') \<Longrightarrow>
    alloc_run st' (if p = 0 then P else insert p P)"
| run_free: "alloc_run st P \<Longrightarrow> p \<in> P \<Longrightarrow> alloc_run (free p st) (P - {p})"
| run_free_null: "alloc_run st P \<Longrightarrow> alloc_run (free 0 st) P"
| run_realloc: "alloc_run st P \<Longrightarrow> mmap_fresh mmap st \<Longrightarrow> p \<in> P \<Longrightarrow> sz \<noteq> 0 \<Longrightarrow>
    realloc mmap p sz st = (q, st') \<Longrightarrow> alloc_run st' (if q = 0 then P else insert q (P - {p}))"
| run_store: "alloc_run st P \<Longrightarrow> alloc_run (st\<lparr>payload := m\<rparr>) P"

lemma heap_payload: "heap X Y st F S \<Longrightarrow> heap X Y (st\<lparr>payload := m\<rparr>) F S"
proof -
  assume h: "heap X Y st F S"
  have "fl_rep (st\<lparr>payload := m\<rparr>) F"
    by (rule fl_rep_cong [OF heapD(3) [OF h]]) (simp_all add: tlsf_block_size_def)
  then show ?thesis using h unfolding heap_def by simp
qed

lemma live_payload [simp]: "live (st\<lparr>payload := m\<rparr>) S = live st S"
  by (simp add: live_def)

lemma malloc_run_step:
  assumes h: "heap {} {} st F S" and P: "P = (\<lambda>b. b + 16) ` live st S" and fresh: "mmap_fresh mmap st"
    and m: "malloc mmap sz st = (p, st')"
  shows "\<exists>F' S'. heap {} {} st' F' S' \<and> (if p = 0 then P else insert p P) = (\<lambda>b. b + 16) ` live st' S'"
proof -
  obtain F' S' where r: "heap {} {} st' F' S'" "malloc_post sz st S p st' S'"
    using malloc_heap [OF h fresh m] by blast
  then have "p \<noteq> 0 \<Longrightarrow> p - 16 + 16 = p" by (auto simp: malloc_post_def elim: dvdE)
  then show ?thesis using r P by (auto simp: malloc_post_def intro!: exI [of _ F'] exI [of _ S'] split: if_splits)
qed

lemma calloc_cases:
  assumes "calloc mmap n sz st = (p, st')" and "malloc mmap (n * sz) st = (q, st1)"
  obtains "p = 0" "st' = st" | "p = 0" "q = 0" "st' = st1"
    | "p = q" "q \<noteq> 0" "n * sz \<le> SIZE_MAX"
      "st' = st1\<lparr>payload := (\<lambda>a. if p \<le> a \<and> a < p + n * sz then 0 else payload st1 a)\<rparr>"
proof (cases "n = 0 \<or> sz = 0 \<or> n > SIZE_MAX div sz")
  case True
  then have "calloc mmap n sz st = (0, st)" by (auto simp: calloc_def)
  then show thesis using that(1) assms(1) by simp
next
  case False
  then have "n * sz \<le> SIZE_MAX" by (simp add: not_less) (metis div_times_less_eq_dividend le_trans mult_le_mono1)
  then show thesis using that(2,3) assms False by (cases "q = 0") (auto simp: calloc_def)
qed

lemma alloc_run_heap:
  "alloc_run st P \<Longrightarrow> \<exists>F S. heap {} {} st F S \<and> P = (\<lambda>b. b + 16) ` live st S"
proof (induction rule: alloc_run.induct)
  case run_init
  then show ?case using heap_init live_init by (metis image_empty)
next
  case (run_malloc st P mmap sz p st')
  then show ?case using malloc_run_step by blast
next
  case (run_calloc st P mmap n sz p st')
  from run_calloc.IH obtain F S where h: "heap {} {} st F S" "P = (\<lambda>b. b + 16) ` live st S" by blast
  obtain q st1 where q: "malloc mmap (n * sz) st = (q, st1)" by force
  obtain F1 S1 where r: "heap {} {} st1 F1 S1" "(if q = 0 then P else insert q P) = (\<lambda>b. b + 16) ` live st1 S1"
    using malloc_run_step [OF h run_calloc.hyps(2) q] by blast
  from calloc_cases [OF run_calloc.hyps(3) q] show ?case
  proof cases
    case 1
    then show ?thesis using h by (simp, blast)
  next
    case 2
    then show ?thesis using r by (simp, blast)
  next
    case 3
    then have "heap {} {} st' F1 S1" "(if p = 0 then P else insert p P) = (\<lambda>b. b + 16) ` live st' S1"
      using r heap_payload [OF r(1)] by simp_all
    then show ?thesis by blast
  qed
next
  case (run_free st P p)
  from run_free.IH obtain F S where h: "heap {} {} st F S" "P = (\<lambda>b. b + 16) ` live st S" by blast
  then obtain b where b: "p = b + 16" "b \<in> live st S" using run_free.hyps by blast
  have "free p st = tlsf_free_block b st"
    using b by (simp add: free_def tlsf_payload_block_def tlsf_consts Let_def tlsf_block_is_free_def live_def)
  then obtain F' S' where r: "heap {} {} (free p st) F' S'" "free_post b st S (free p st) S'"
    using free_block_heap [OF h(1) b(2)] by auto
  have "P - {p} = (\<lambda>b. b + 16) ` (live st S - {b})" using h(2) b by auto
  then have "P - {p} = (\<lambda>b. b + 16) ` live (free p st) S'" using r(2) by (simp add: free_post_def)
  then show ?case using r(1) by blast
next
  case (run_free_null st P)
  then show ?case by (simp add: free_def)
next
  case (run_realloc st P mmap p sz q st')
  from run_realloc.IH obtain F S where h: "heap {} {} st F S" "P = (\<lambda>b. b + 16) ` live st S" by blast
  then obtain b where b: "p = b + 16" "b \<in> live st S" using run_realloc.hyps by blast
  obtain F' S' where r: "heap {} {} st' F' S'" "realloc_post sz b st S q st' S'"
    using realloc_heap [OF h(1) run_realloc.hyps(2) b(2) run_realloc.hyps(4)] run_realloc.hyps(5) b by blast
  then have q: "q \<noteq> 0 \<Longrightarrow> q - 16 + 16 = q" by (auto simp: realloc_post_def elim: dvdE)
  have pd: "P - {p} = (\<lambda>b. b + 16) ` (live st S - {b})" using h(2) b by auto
  have "(if q = 0 then P else insert q (P - {p})) = (\<lambda>b. b + 16) ` live st' S'"
  proof (cases "q = 0")
    case True
    then show ?thesis using r(2) h(2) by (simp add: realloc_post_def)
  next
    case False
    then show ?thesis using r(2) q unfolding pd by (simp add: realloc_post_def)
  qed
  then show ?case using r(1) by blast
next
  case (run_store st P m)
  then show ?case using heap_payload by (metis live_payload)
qed


text \<open>For every heap there is a kernel that can map, for the witness below.\<close>

lemma fresh_exists:
  "\<exists>mmap. mmap_fresh mmap st \<and> (\<forall>n. \<exists>base. mmap 0 n = Some base \<and> 16 dvd base)"
proof -
  let ?R = "set (regions st @ region_cache st)"
  define base where "base = 16 * (1 + (\<Sum>r \<in> ?R. rbase r + rsize r))"
  have "rbase r + rsize r \<le> base" if "r \<in> ?R" for r
  proof -
    have "rbase r + rsize r \<le> (\<Sum>r \<in> ?R. rbase r + rsize r)" using that by (intro member_le_sum) auto
    then show ?thesis by (simp add: base_def)
  qed
  then have "mmap_fresh (mmap_at base) st"
    by (auto simp: mmap_fresh_def mmap_at_def rdisj_def mk_region_def) (simp_all add: base_def)
  moreover have "16 dvd base" by (simp add: base_def)
  ultimately show ?thesis by (intro exI [of _ "mmap_at base"]) (simp add: mmap_at_def)
qed

lemma alloc_run_more:
  assumes "alloc_run st P"
  shows "\<exists>st' p. alloc_run st' (insert p P) \<and> p \<notin> P"
proof -
  obtain F S where h: "heap {} {} st F S" and P: "P = (\<lambda>b. b + 16) ` live st S"
    using alloc_run_heap [OF assms] by blast
  obtain mmap where fr: "mmap_fresh mmap st" and mp: "\<forall>n. \<exists>base. mmap 0 n = Some base \<and> 16 dvd base"
    using fresh_exists by blast
  obtain p st' where m: "malloc mmap 100 st = (p, st')" by force
  have p0: "p \<noteq> 0" using malloc_nonnull [OF h fr, of 100] mp m by simp
  obtain S' where "malloc_post 100 st S p st' S'" using malloc_heap [OF h fr m] by blast
  then have "p \<notin> P" using p0 by (auto simp: P malloc_post_def)
  then show ?thesis using run_malloc [OF assms fr m] p0 by auto
qed

lemma two_pointers: "\<exists>st p q. alloc_run st {p, q} \<and> p < q"
proof -
  obtain st p where "alloc_run st {p}" using alloc_run_more [OF run_init] by blast
  then obtain st' q where "alloc_run st' {q, p}" "q \<noteq> p" using alloc_run_more by blast
  then show ?thesis by (cases "p < q") (metis insert_commute, metis linorder_neqE_nat)
qed

text \<open>
  C5. After any sequence of calls of \<open>malloc\<close>, \<open>calloc\<close>, \<open>realloc\<close> and \<open>free\<close> (each pointer freed
  or resized at most once while held) and of arbitrary stores to payloads, the pointers held
  are aligned to 16 and not null, and the payloads of two of them never overlap.
\<close>

theorem alloc_run_disjoint:
  assumes run: "alloc_run st P"
  shows "(\<forall>p \<in> P. 16 dvd p \<and> 0 < p) \<and>
    (\<forall>p \<in> P. \<forall>q \<in> P. p < q \<longrightarrow> p + (tlsf_block_size st (p - 16) - 16) \<le> q)"
proof -
  obtain F S where h: "heap {} {} st F S" and P: "P = (\<lambda>b. b + 16) ` live st S"
    using alloc_run_heap [OF run] by blast
  note t = heapD(2) [OF h]
  show ?thesis using tilingD(1,3) [OF t] by (fastforce simp: P live_def block_size_bsz)
qed

theorem alloc_run_disjoint_witness:
  "\<exists>st p q. alloc_run st {p, q} \<and> p < q \<and> 16 dvd p \<and> p + (tlsf_block_size st (p - 16) - 16) \<le> q"
proof -
  obtain st p q where r: "alloc_run st {p, q}" "p < q" using two_pointers by blast
  from alloc_run_disjoint [OF r(1)] r show ?thesis by auto
qed

end
