(* ===== verification/Printf.thy ===== *)
theory Printf
  imports Prelude
begin

text \<open>
  Formatted output: \<open>src/src/libbrkc/stdio/vfprintf.c\<close> and \<open>vsnprintf.c\<close>. Text is a list of
  characters; a C string argument is read through \<open>str\<close>, which gives the string at an address.
  A \<open>va_list\<close> is the list of the 64-bit argument slots that are left; reading past its end, and
  a signed overflow in the conversion of an argument, are undefined in C and \<open>None\<close> here.
  Streams are abstract: a stream is a state with the function that writes to it.
\<close>

section \<open>Writing to a stream\<close>

text \<open>
  A write function answers with the number of characters it took, or fails (a negative result
  in the code).
\<close>

type_synonym 's wfn = "'s \<Rightarrow> string \<Rightarrow> nat option \<times> 's"

record 's fmt_context =
  stream :: 's
  cnt :: nat
  stores :: "(64 word \<times> nat \<times> int) list"

function out :: "'s wfn \<Rightarrow> 's fmt_context \<Rightarrow> string \<Rightarrow> 's fmt_context" where
  "out wfn ctx buf =
     (if buf = [] then ctx
      else case wfn (stream ctx) buf of
          (None, s) \<Rightarrow> ctx\<lparr>stream := s\<rparr>
        | (Some n, s) \<Rightarrow>
            if n = 0 then ctx\<lparr>stream := s\<rparr>
            else out wfn (ctx\<lparr>stream := s, cnt := cnt ctx + n\<rparr>) (drop n buf))"
  by pat_completeness auto
termination by (relation "measure (\<lambda>(w, c, b). length b)") auto

declare out.simps [simp del]

primrec pad :: "'s wfn \<Rightarrow> 's fmt_context \<Rightarrow> nat \<Rightarrow> char \<Rightarrow> 's fmt_context" where
  "pad wfn ctx 0 c = ctx"
| "pad wfn ctx (Suc n) c = pad wfn (out wfn ctx [c]) n c"

section \<open>Digits\<close>

text \<open>The digits are put in front of \<open>s\<close>, the last first.\<close>

function fmt_u :: "nat \<Rightarrow> string \<Rightarrow> string \<Rightarrow> string" where
  "fmt_u x s d = (let s = d ! (x mod 10) # s; x = x div 10 in if x > 0 then fmt_u x s d else s)"
  by pat_completeness auto
termination by (relation "measure (\<lambda>(x, s, d). x)") auto

function fmt_o :: "nat \<Rightarrow> string \<Rightarrow> string \<Rightarrow> string" where
  "fmt_o x s d = (let s = d ! (x mod 8) # s; x = x div 8 in if x > 0 then fmt_o x s d else s)"
  by pat_completeness auto
termination by (relation "measure (\<lambda>(x, s, d). x)") auto

function fmt_x :: "nat \<Rightarrow> string \<Rightarrow> string \<Rightarrow> string" where
  "fmt_x x s d = (let s = d ! (x mod 16) # s; x = x div 16 in if x > 0 then fmt_x x s d else s)"
  by pat_completeness auto
termination by (relation "measure (\<lambda>(x, s, d). x)") auto

declare fmt_u.simps [simp del] fmt_o.simps [simp del] fmt_x.simps [simp del]

section \<open>Conversion specifications\<close>

datatype pstate =
    STATE_INVALID | STATE_START | STATE_LPRE | STATE_LLPRE | STATE_HPRE | STATE_HHPRE
  | STATE_ZPRE | STATE_JPRE | STATE_TPRE | STATE_STOP
  | STATE_CHAR | STATE_UCHAR | STATE_SHORT | STATE_USHORT | STATE_INT | STATE_UINT
  | STATE_LONG | STATE_ULONG | STATE_LLONG | STATE_ULLONG | STATE_PTR | STATE_SIZE_T
  | STATE_PTRDIFF_T | STATE_INTMAX | STATE_UINTMAX | STATE_T_UINT
  | STATE_N_INT | STATE_N_CHAR | STATE_N_SHORT | STATE_N_LONG | STATE_N_LLONG
  | STATE_N_INTMAX | STATE_N_SIZE | STATE_N_PTRDIFF

text \<open>The row of a length prefix: the states for signed, unsigned and \<open>n\<close> conversions.\<close>

definition int_row :: "pstate \<Rightarrow> pstate \<Rightarrow> pstate \<Rightarrow> char \<Rightarrow> pstate" where
  "int_row sg uns nst c =
     (if c \<in> set ''di'' then sg else if c \<in> set ''uxXo'' then uns
      else if c = CHR ''n'' then nst else STATE_INVALID)"

fun states :: "pstate \<Rightarrow> char \<Rightarrow> pstate" where
  "states STATE_START c =
     (if c = CHR ''l'' then STATE_LPRE else if c = CHR ''h'' then STATE_HPRE
      else if c = CHR ''z'' then STATE_ZPRE else if c = CHR ''j'' then STATE_JPRE
      else if c = CHR ''t'' then STATE_TPRE
      else if c \<in> set ''sp'' then STATE_PTR else if c = CHR ''c'' then STATE_INT
      else int_row STATE_INT STATE_UINT STATE_N_INT c)"
| "states STATE_LPRE c =
     (if c = CHR ''l'' then STATE_LLPRE else int_row STATE_LONG STATE_ULONG STATE_N_LONG c)"
| "states STATE_LLPRE c = int_row STATE_LLONG STATE_ULLONG STATE_N_LLONG c"
| "states STATE_HPRE c =
     (if c = CHR ''l'' then STATE_HHPRE else int_row STATE_SHORT STATE_USHORT STATE_N_SHORT c)"
| "states STATE_HHPRE c = int_row STATE_CHAR STATE_UCHAR STATE_N_CHAR c"
| "states STATE_ZPRE c = int_row STATE_PTRDIFF_T STATE_SIZE_T STATE_N_SIZE c"
| "states STATE_JPRE c = int_row STATE_INTMAX STATE_UINTMAX STATE_N_INTMAX c"
| "states STATE_TPRE c = int_row STATE_PTRDIFF_T STATE_T_UINT STATE_N_PTRDIFF c"
| "states _ c = STATE_INVALID"

definition OOB :: "char \<Rightarrow> bool" where
  "OOB c \<longleftrightarrow> of_char c < (65 :: nat) \<or> of_char c > (122 :: nat)"

text \<open>The states the loop goes on in.\<close>

definition is_prefix :: "pstate \<Rightarrow> bool" where
  "is_prefix st \<longleftrightarrow> st \<in> {STATE_START, STATE_LPRE, STATE_LLPRE, STATE_HPRE, STATE_HHPRE, STATE_ZPRE,
     STATE_JPRE, STATE_TPRE, STATE_STOP}"

text \<open>\<open>None\<close> is the jump to \<open>invalid\<close>; the end of the string is out of bounds.\<close>

fun run_states :: "pstate \<Rightarrow> char \<Rightarrow> string \<Rightarrow> (pstate \<times> char \<times> string) option" where
  "run_states st pch s =
     (if is_prefix st then
        (case s of
           [] \<Rightarrow> None
         | c # s \<Rightarrow> if OOB c then None else run_states (states st c) c s)
      else Some (st, pch, s))"

declare run_states.simps [simp del]

record flags =
  ZERO_PAD :: bool
  LEFT_ALIGN :: bool
  MARK_POS :: bool
  ALT_FORM :: bool
  PAD_POS :: bool

definition no_flags :: flags where
  "no_flags = \<lparr>ZERO_PAD = False, LEFT_ALIGN = False, MARK_POS = False, ALT_FORM = False, PAD_POS = False\<rparr>"

fun parse_flags :: "flags \<Rightarrow> string \<Rightarrow> flags \<times> string" where
  "parse_flags fl [] = (fl, [])"
| "parse_flags fl (c # s) =
     (if c = CHR '' '' then parse_flags (fl\<lparr>PAD_POS := True\<rparr>) s
      else if c = CHR ''+'' then parse_flags (fl\<lparr>MARK_POS := True\<rparr>) s
      else if c = CHR ''-'' then parse_flags (fl\<lparr>LEFT_ALIGN := True\<rparr>) s
      else if c = CHR ''0'' then parse_flags (fl\<lparr>ZERO_PAD := True\<rparr>) s
      else if c = CHR ''#'' then parse_flags (fl\<lparr>ALT_FORM := True\<rparr>) s
      else (fl, c # s))"

definition is_dig :: "char \<Rightarrow> bool" where
  "is_dig c \<longleftrightarrow> (48 :: nat) \<le> of_char c \<and> of_char c \<le> (57 :: nat)"

definition dig_val :: "char \<Rightarrow> nat" where
  "dig_val c = of_char c - 48"

text \<open>Decimal numbers of a width or a precision wrap around at \<open>size_t\<close>.\<close>

fun read_size :: "nat \<Rightarrow> string \<Rightarrow> nat \<times> string" where
  "read_size w [] = (w, [])"
| "read_size w (c # s) =
     (if is_dig c then read_size ((w * 10 + dig_val c) mod 2 ^ 64) s else (w, c # s))"

type_synonym va_list = "64 word list"

fun va_int :: "va_list \<Rightarrow> (int \<times> va_list) option" where
  "va_int [] = None"
| "va_int (a # ap) = Some (sint (ucast a :: 32 word), ap)"

record fspec =
  fl :: flags
  width :: nat
  has_width :: bool
  prec :: nat
  has_prec :: bool

fun parse_width :: "flags \<Rightarrow> string \<Rightarrow> va_list \<Rightarrow> ((flags \<times> bool \<times> nat) \<times> string \<times> va_list) option" where
  "parse_width f [] ap = Some ((f, False, 0), [], ap)"
| "parse_width f (c # s) ap =
     (if c = CHR ''*'' then
        do { (fw, ap) \<leftarrow> va_int ap;
             Some (if fw < 0 then (f\<lparr>LEFT_ALIGN := True\<rparr>, True, nat (- fw)) else (f, True, nat fw), s, ap) }
      else if is_dig c then
        let (w, s) = read_size (dig_val c) s in Some ((f, True, w), s, ap)
      else Some ((f, False, 0), c # s, ap))"

fun parse_prec :: "string \<Rightarrow> va_list \<Rightarrow> ((bool \<times> nat) \<times> string \<times> va_list) option" where
  "parse_prec (c # s) ap =
     (if c = CHR ''.'' then
        (case s of
           d # s' \<Rightarrow>
             if d = CHR ''*'' then
               do { (pr, ap) \<leftarrow> va_int ap;
                    Some (if pr \<ge> 0 then (True, nat pr) else (False, 0), s', ap) }
             else let (p, s) = read_size 0 s in Some ((True, p), s, ap)
         | [] \<Rightarrow> Some ((True, 0), [], ap))
      else Some ((False, 0), c # s, ap))"
| "parse_prec [] ap = Some ((False, 0), [], ap)"


section \<open>Arguments\<close>

definition is_n :: "pstate \<Rightarrow> bool" where
  "is_n st \<longleftrightarrow> st \<in> {STATE_N_INT, STATE_N_CHAR, STATE_N_SHORT, STATE_N_LONG, STATE_N_LLONG,
     STATE_N_INTMAX, STATE_N_SIZE, STATE_N_PTRDIFF}"

text \<open>The object that \<open>%n\<close> stores to, in bytes, and the value stored: the address, the size, the count.\<close>

definition n_size :: "pstate \<Rightarrow> nat" where
  "n_size st = (if st = STATE_N_INT then 4 else if st = STATE_N_CHAR then 1
     else if st = STATE_N_SHORT then 2 else 8)"

fun pop_n :: "va_list \<Rightarrow> pstate \<Rightarrow> nat \<Rightarrow> ((64 word \<times> nat \<times> int) \<times> va_list) option" where
  "pop_n [] st n = None"
| "pop_n (a # ap) st n = Some ((a, n_size st, int n mod 2 ^ (8 * n_size st)), ap)"

text \<open>
  Signed arguments of \<open>w\<close> bits become a magnitude and a sign. In \<open>int\<close> and wider the negation of
  the least value overflows. A \<open>signed char\<close> or \<open>short\<close> is negated in \<open>int\<close> and converted back.
\<close>

definition neg_arg :: "nat \<Rightarrow> int \<Rightarrow> (64 word \<times> bool) option" where
  "neg_arg w v =
     (if v < 0 then if v = - (2 ^ (w - 1)) then None else Some (of_int (- v), True)
      else Some (of_int v, False))"

definition pop_arg :: "va_list \<Rightarrow> pstate \<Rightarrow> ((64 word \<times> bool) \<times> va_list) option" where
  "pop_arg ap st =
     (case ap of
        [] \<Rightarrow> None
      | a # ap \<Rightarrow>
          map_option (\<lambda>r. (r, ap))
          (case st of
             STATE_CHAR \<Rightarrow> let c = sint (ucast a :: 8 word)
               in Some (if c < 0 then (of_int (sint (of_int (- c) :: 8 word)), True) else (of_int c, False))
           | STATE_SHORT \<Rightarrow> let c = sint (ucast a :: 16 word)
               in Some (if c < 0 then (of_int (sint (of_int (- c) :: 16 word)), True) else (of_int c, False))
           | STATE_INT \<Rightarrow> neg_arg 32 (sint (ucast a :: 32 word))
           | STATE_LONG \<Rightarrow> neg_arg 64 (sint a)
           | STATE_LLONG \<Rightarrow> neg_arg 64 (sint a)
           | STATE_PTRDIFF_T \<Rightarrow> neg_arg 64 (sint a)
           | STATE_INTMAX \<Rightarrow> Some (if sint a < 0 then (- a, True) else (a, False))
           | STATE_UCHAR \<Rightarrow> Some (ucast (ucast a :: 32 word), False)
           | STATE_USHORT \<Rightarrow> Some (ucast (ucast a :: 32 word), False)
           | STATE_UINT \<Rightarrow> Some (ucast (ucast a :: 32 word), False)
           | _ \<Rightarrow> Some (a, False)))"

section \<open>Conversions\<close>

definition lower_digits :: string where "lower_digits = ''0123456789abcdef''"
definition upper_digits :: string where "upper_digits = ''0123456789ABCDEF''"

text \<open>
  The digits, the radix prefix, and the specification, which some conversions change.
\<close>

definition raw_number :: "fspec \<Rightarrow> char \<Rightarrow> nat \<Rightarrow> string \<times> string \<times> fspec" where
  "raw_number sp pch i =
     (if pch \<in> set ''idu'' then (fmt_u i [] lower_digits, [], sp\<lparr>fl := (fl sp)\<lparr>ALT_FORM := False\<rparr>\<rparr>)
      else if pch = CHR ''o'' then
        (fmt_o i [] lower_digits, if ALT_FORM (fl sp) then ''0'' else [],
         if ALT_FORM (fl sp) \<and> prec sp > 0 then sp\<lparr>prec := prec sp - 1\<rparr> else sp)
      else if pch = CHR ''x'' then (fmt_x i [] lower_digits, if ALT_FORM (fl sp) then ''0x'' else [], sp)
      else if pch = CHR ''X'' then (fmt_x i [] upper_digits, if ALT_FORM (fl sp) then ''0X'' else [], sp)
      else (fmt_x i [] lower_digits, ''0x'', sp\<lparr>fl := no_flags\<lparr>ALT_FORM := True\<rparr>\<rparr>))"

text \<open>Padding and sign of a number: sign, zeroes and spaces on the right.\<close>

definition number_layout :: "fspec \<Rightarrow> bool \<Rightarrow> nat \<Rightarrow> nat \<Rightarrow> string \<times> nat \<times> nat" where
  "number_layout sp lt0 radix_len raw_len =
     (let f = fl sp;
          zero = ZERO_PAD f \<and> \<not> (has_prec sp \<or> LEFT_ALIGN f);
          lzero_pad = (if has_prec sp \<and> prec sp > raw_len then prec sp - raw_len else 0);
          sign = (if PAD_POS f then '' '' else []);
          sign = (if lt0 then ''-'' else sign);
          sign = (if MARK_POS f then ''+'' else sign);
          total_len = length sign + radix_len + lzero_pad + raw_len
      in if has_width sp \<and> width sp > total_len
         then (sign, if zero then width sp - total_len else lzero_pad,
               if LEFT_ALIGN f then width sp - total_len else 0)
         else (sign, lzero_pad, 0))"

definition put_number :: "'s wfn \<Rightarrow> 's fmt_context \<Rightarrow> fspec \<Rightarrow> char \<Rightarrow> 64 word \<times> bool \<Rightarrow> 's fmt_context" where
  "put_number wfn ctx sp pch arg =
     (let (raw, radix, sp) = raw_number sp pch (unat (fst arg));
          (sign, lzero_pad, rspace_pad) = number_layout sp (snd arg) (length radix) (length raw);
          ctx = out wfn ctx sign;
          ctx = out wfn ctx radix;
          ctx = pad wfn ctx lzero_pad CHR ''0'';
          ctx = out wfn ctx raw
      in pad wfn ctx rspace_pad CHR '' '')"

definition put_string :: "'s wfn \<Rightarrow> 's fmt_context \<Rightarrow> fspec \<Rightarrow> string \<Rightarrow> 's fmt_context" where
  "put_string wfn ctx sp s =
     (let raw = (if has_prec sp \<and> prec sp < length s then take (prec sp) s else s);
          gap = (if has_width sp \<and> width sp > length raw then width sp - length raw else 0);
          ctx = (if LEFT_ALIGN (fl sp) then ctx else pad wfn ctx gap CHR '' '');
          ctx = out wfn ctx raw
      in if LEFT_ALIGN (fl sp) then pad wfn ctx gap CHR '' '' else ctx)"

definition put_arg ::
  "'s wfn \<Rightarrow> (64 word \<Rightarrow> string) \<Rightarrow> 's fmt_context \<Rightarrow> fspec \<Rightarrow> char \<Rightarrow> 64 word \<times> bool \<Rightarrow> 's fmt_context"
where
  "put_arg wfn str ctx sp pch arg =
     (if pch = CHR ''s'' then put_string wfn ctx sp (if fst arg \<noteq> 0 then str (fst arg) else ''(null)'')
      else if pch = CHR ''c'' then out wfn ctx [char_of (unat (fst arg))]
      else put_number wfn ctx sp pch arg)"

text \<open>
  One conversion, after the percent sign. \<open>Inl\<close> is the jump to \<open>invalid\<close>.
\<close>

definition conversion ::
  "'s wfn \<Rightarrow> (64 word \<Rightarrow> string) \<Rightarrow> 's fmt_context \<Rightarrow> string \<Rightarrow> va_list \<Rightarrow>
   ('s fmt_context + 's fmt_context \<times> string \<times> va_list) option"
where
  "conversion wfn str ctx s ap =
     (let (f, s) = parse_flags no_flags s
      in do { ((f, hw, w), s, ap) \<leftarrow> parse_width f s ap;
              ((hp, p), s, ap) \<leftarrow> parse_prec s ap;
              let sp = \<lparr>fl = f, width = w, has_width = hw, prec = p, has_prec = hp\<rparr>;
              if s \<noteq> [] \<and> hd s = CHR ''%'' then Some (Inr (out wfn ctx ''%'', tl s, ap))
              else case run_states STATE_START CHR 0x00 s of
                  None \<Rightarrow> Some (Inl ctx)
                | Some (st, pch, s) \<Rightarrow>
                    if st = STATE_INVALID then Some (Inl ctx)
                    else if is_n st then
                      do { (w, ap) \<leftarrow> pop_n ap st (cnt ctx);
                           Some (Inr (ctx\<lparr>stores := stores ctx @ [w]\<rparr>, s, ap)) }
                    else
                      do { (arg, ap) \<leftarrow> pop_arg ap st;
                           Some (Inr (put_arg wfn str ctx sp pch arg, s, ap)) } })"


lemma parse_flags_length: "length (snd (parse_flags f s)) \<le> length s"
  by (induction f s rule: parse_flags.induct) auto

lemma read_size_length: "length (snd (read_size w s)) \<le> length s"
  by (induction w s rule: read_size.induct) auto

lemma parse_width_length: "parse_width f s ap = Some (r, s', ap') \<Longrightarrow> length s' \<le> length s"
  using read_size_length
  by (induction f s ap rule: parse_width.induct)
    (auto simp: bind_eq_Some_conv split: if_splits prod.splits, metis le_SucI snd_conv)

lemma parse_prec_length: "parse_prec s ap = Some (r, s', ap') \<Longrightarrow> length s' \<le> length s"
  using read_size_length [of 0 "tl s"]
  by (induction s ap rule: parse_prec.induct)
    (auto simp: bind_eq_Some_conv split: if_splits prod.splits list.splits)

lemma run_states_length: "run_states st c s = Some (st', c', s') \<Longrightarrow> length s' \<le> length s"
proof (induction st c s rule: run_states.induct)
  case (1 st c s)
  then show ?case
    by (subst (asm) (2) run_states.simps) (auto split: if_splits list.splits intro: le_SucI)
qed

lemma conversion_length:
  assumes "conversion wfn str ctx s ap = Some (Inr (ctx', s', ap'))"
  shows "length s' \<le> length s"
proof -
  obtain f s1 where 1: "parse_flags no_flags s = (f, s1)" by force
  obtain f2 hw w s2 ap2 where 2: "parse_width f s1 ap = Some ((f2, hw, w), s2, ap2)"
    using assms 1 by (auto simp: conversion_def bind_eq_Some_conv)
  obtain hp p s3 ap3 where 3: "parse_prec s2 ap2 = Some ((hp, p), s3, ap3)"
    using assms 1 2 by (auto simp: conversion_def bind_eq_Some_conv)
  have le: "length s3 \<le> length s"
    using parse_flags_length [of no_flags s] parse_width_length [OF 2] parse_prec_length [OF 3] 1 by simp
  have "length s' \<le> length s3"
    using assms 1 2 3 run_states_length [of STATE_START "CHR 0x00" s3]
    by (auto simp: conversion_def bind_eq_Some_conv Let_def split: if_splits option.splits)
  with le show ?thesis by simp
qed

text \<open>The loop over the format. The flag tells whether the format was valid.\<close>

function printf_loop ::
  "'s wfn \<Rightarrow> (64 word \<Rightarrow> string) \<Rightarrow> 's fmt_context \<Rightarrow> string \<Rightarrow> va_list \<Rightarrow> (bool \<times> 's fmt_context) option"
where
  "printf_loop wfn str ctx [] ap = Some (True, ctx)"
| "printf_loop wfn str ctx (c # s) ap =
     (if c \<noteq> CHR ''%'' then printf_loop wfn str (out wfn ctx [c]) s ap
      else case conversion wfn str ctx s ap of
          None \<Rightarrow> None
        | Some (Inl ctx) \<Rightarrow> Some (False, ctx)
        | Some (Inr (ctx, s, ap)) \<Rightarrow> printf_loop wfn str ctx s ap)"
  by pat_completeness auto
termination
  by (relation "measure (\<lambda>(w, m, c, s, ap). length s)") (auto simp: less_Suc_eq_le dest: conversion_length)

text \<open>The result of the call: \<open>(int)ctx.cnt\<close>, or \<open>-1\<close>.\<close>

definition printf_core ::
  "'s wfn \<Rightarrow> (64 word \<Rightarrow> string) \<Rightarrow> 's \<Rightarrow> string \<Rightarrow> va_list \<Rightarrow> (int \<times> 's fmt_context) option"
where
  "printf_core wfn str st format ap =
     (case printf_loop wfn str \<lparr>stream = st, cnt = 0, stores = []\<rparr> format ap of
        None \<Rightarrow> None
      | Some (ok, ctx) \<Rightarrow> Some (if ok then sint (of_nat (cnt ctx) :: 32 word) else -1, ctx))"

definition vfprintf ::
  "'s wfn \<Rightarrow> (64 word \<Rightarrow> string) \<Rightarrow> 's \<Rightarrow> string \<Rightarrow> va_list \<Rightarrow> (int \<times> 's fmt_context) option"
where
  "vfprintf wfn str st format ap = printf_core wfn str st format ap"

section \<open>Printing to a buffer\<close>

text \<open>The stream of \<open>vsnprintf\<close>: the caller's buffer and how much of it is used.\<close>

record sbuf =
  sb_buf :: string
  sb_used :: nat
  sb_size :: nat

text \<open>The loop: copied so far, and what is left to copy.\<close>

function snprintf_write_loop :: "sbuf \<Rightarrow> string \<Rightarrow> nat \<Rightarrow> nat option \<times> sbuf" where
  "snprintf_write_loop st buf tot =
     (if buf = [] then (Some tot, st)
      else let room = sb_size st - sb_used st
        in if room = 0 then (Some (tot + length buf), st)
           else let chunk = min (length buf) room;
                    st = st\<lparr>sb_buf := take (sb_used st) (sb_buf st) @ take chunk buf @ drop (sb_used st + chunk) (sb_buf st),
                            sb_used := sb_used st + chunk\<rparr>
             in snprintf_write_loop st (drop chunk buf) (tot + chunk))"
  by pat_completeness auto
termination by (relation "measure (\<lambda>(st, b, t). length b)") auto

definition snprintf_write :: "sbuf \<Rightarrow> string \<Rightarrow> nat option \<times> sbuf" where
  "snprintf_write st buf =
     (if sb_size st = 0 then (Some (length buf), st) else snprintf_write_loop st buf 0)"

text \<open>The buffer, unless it is a null pointer, holds at least \<open>sz\<close> characters.\<close>

definition vsnprintf ::
  "(64 word \<Rightarrow> string) \<Rightarrow> string option \<Rightarrow> nat \<Rightarrow> string \<Rightarrow> va_list \<Rightarrow> (int \<times> string option) option"
where
  "vsnprintf str buf sz format ap =
     (if sz > 0 \<and> buf = None then Some (-1, buf)
      else case vfprintf snprintf_write str
                  \<lparr>sb_buf = (case buf of None \<Rightarrow> [] | Some b \<Rightarrow> b), sb_used = 0, sb_size = sz\<rparr> format ap of
          None \<Rightarrow> None
        | Some (n, ctx) \<Rightarrow>
            let b = sb_buf (stream ctx)
            in Some (n, if n < 0 \<or> sz = 0 then map_option (\<lambda>_. b) buf
                        else if nat n \<ge> sz then Some (b[sz - 1 := CHR 0x00])
                        else Some (b[nat n := CHR 0x00])))"

definition snprintf ::
  "(64 word \<Rightarrow> string) \<Rightarrow> string option \<Rightarrow> nat \<Rightarrow> string \<Rightarrow> va_list \<Rightarrow> (int \<times> string option) option"
where
  "snprintf str buf sz format ap = vsnprintf str buf sz format ap"


declare snprintf_write_loop.simps [simp del]

section \<open>Streams that take everything\<close>

text \<open>
  The reference stream keeps the text itself. A stream that takes everything represents a text,
  and a write extends it; formatting to such a stream is formatting to the reference stream.
\<close>

definition text_write :: "string wfn" where
  "text_write t b = (Some (length b), t @ b)"

locale text_sink =
  fixes wfn :: "'s wfn" and rep :: "'s \<Rightarrow> string \<Rightarrow> bool"
  assumes accept: "rep s t \<Longrightarrow> b \<noteq> [] \<Longrightarrow> \<exists>s'. wfn s b = (Some (length b), s') \<and> rep s' (t @ b)"
begin

definition crel :: "'s fmt_context \<Rightarrow> string fmt_context \<Rightarrow> bool" where
  "crel c t \<longleftrightarrow> rep (stream c) (stream t) \<and> cnt c = cnt t \<and> stores c = stores t"

lemma out_rel:
  assumes "crel c t"
  shows "crel (out wfn c b) (out text_write t b)"
proof (cases "b = []")
  case True
  then show ?thesis using assms by (simp add: out.simps)
next
  case False
  then obtain s' where "wfn (stream c) b = (Some (length b), s')" "rep s' (stream t @ b)"
    using accept [of "stream c" "stream t" b] assms by (auto simp: crel_def)
  then show ?thesis
    using False assms
    by (subst (1 2) out.simps) (simp add: out.simps [of _ _ "[]"] text_write_def crel_def)
qed

lemma pad_rel: "crel c t \<Longrightarrow> crel (pad wfn c n ch) (pad text_write t n ch)"
  by (induction n arbitrary: c t) (auto intro: out_rel)

lemma put_arg_rel:
  "crel c t \<Longrightarrow> crel (put_arg wfn str c sp pch arg) (put_arg text_write str t sp pch arg)"
  by (auto simp: put_arg_def put_string_def put_number_def Let_def split: prod.split
      intro!: out_rel pad_rel)

lemma conversion_rel:
  assumes r: "crel c t"
  shows "rel_option (rel_sum crel (rel_prod crel (=))) (conversion wfn str c s ap) (conversion text_write str t s ap)"
proof -
  obtain f s1 where 1: "parse_flags no_flags s = (f, s1)" by force
  show ?thesis
  proof (cases "parse_width f s1 ap")
    case None
    then show ?thesis using 1 by (simp add: conversion_def)
  next
    case (Some x)
    obtain f2 hw w s2 ap2 where 2: "x = ((f2, hw, w), s2, ap2)" by (metis prod.exhaust)
    show ?thesis
    proof (cases "parse_prec s2 ap2")
      case None
      then show ?thesis using 1 2 Some by (simp add: conversion_def)
    next
      case (Some y)
      obtain hp p s3 ap3 where 3: "y = ((hp, p), s3, ap3)" by (metis prod.exhaust)
      have n: "cnt c = cnt t" using r by (simp add: crel_def)
      have st: "crel (c\<lparr>stores := stores c @ [z]\<rparr>) (t\<lparr>stores := stores t @ [z]\<rparr>)" for z
        using r by (simp add: crel_def)
      show ?thesis
        using 1 2 3 Some \<open>parse_width f s1 ap = Some x\<close> r st out_rel [OF r] put_arg_rel [OF r]
        by (auto simp: conversion_def Let_def n split: option.split Option.bind_splits)
    qed
  qed
qed

lemma printf_rel:
  "crel c t \<Longrightarrow> rel_option (rel_prod (=) crel) (printf_loop wfn str c s ap) (printf_loop text_write str t s ap)"
proof (induction "length s" arbitrary: c t s ap rule: less_induct)
  case less
  show ?case
  proof (cases s)
    case Nil
    then show ?thesis using less.prems by simp
  next
    case (Cons ch s0)
    show ?thesis
    proof (cases "ch = CHR ''%''")
      case False
      then show ?thesis using less.hyps [OF _ out_rel [OF less.prems]] Cons by simp
    next
      case True
      have "rel_option (rel_sum crel (rel_prod crel (=))) (conversion wfn str c s0 ap) (conversion text_write str t s0 ap)"
        by (rule conversion_rel [OF less.prems])
      then show ?thesis
      proof (cases rule: option.rel_cases)
        case None
        then show ?thesis using True Cons by simp
      next
        case (Some x y)
        from Some(3) show ?thesis
        proof (cases rule: rel_sum.cases)
          case (1 a b)
          then show ?thesis using True Cons Some by simp
        next
          case (2 a b)
          note Inr = this
          obtain c' s' ap' where a: "a = (c', s', ap')" by (metis prod.exhaust)
          obtain t' where b: "b = (t', s', ap')" "crel c' t'" using Inr a by (auto elim: rel_prod.cases)
          have "length s' < length s" using conversion_length [of wfn str c s0 ap c' s' ap'] Some Inr a Cons by simp
          from less.hyps [OF this b(2)] show ?thesis using True Cons Some Inr a b by simp
        qed
      qed
    qed
  qed
qed

end


section \<open>The reference stream\<close>

lemma out_text:
  "out text_write t b = t\<lparr>stream := stream t @ b, cnt := cnt t + length b\<rparr>"
  by (subst out.simps) (simp add: text_write_def out.simps [of _ _ "[]"])

lemma pad_text:
  "pad text_write t n c = t\<lparr>stream := stream t @ replicate n c, cnt := cnt t + n\<rparr>"
  by (induction n arbitrary: t) (auto simp: out_text)

text \<open>The number of characters is counted.\<close>

lemma put_arg_counts:
  assumes "cnt t = length (stream t)"
  shows "cnt (put_arg text_write str t sp pch arg) = length (stream (put_arg text_write str t sp pch arg))"
  using assms by (simp add: put_arg_def put_string_def put_number_def Let_def out_text pad_text split: prod.split)

lemma conversion_counts:
  assumes "cnt t = length (stream t)"
  shows "conversion text_write str t s ap = Some (Inr (t', s', ap')) \<Longrightarrow> cnt t' = length (stream t')"
    and "conversion text_write str t s ap = Some (Inl t') \<Longrightarrow> cnt t' = length (stream t')"
  using assms put_arg_counts [OF assms]
  by (auto simp: conversion_def bind_eq_Some_conv Let_def out_text split: prod.splits if_splits option.splits)

lemma printf_counts:
  "cnt t = length (stream t) \<Longrightarrow> printf_loop text_write str t s ap = Some (ok, t') \<Longrightarrow> cnt t' = length (stream t')"
proof (induction "length s" arbitrary: t s ap rule: less_induct)
  case less
  show ?case
  proof (cases s)
    case Nil
    then show ?thesis using less.prems by simp
  next
    case (Cons c s0)
    show ?thesis
    proof (cases "c = CHR ''%''")
      case False
      then show ?thesis using less.hyps [of s0 "out text_write t [c]" ap] less.prems Cons by (simp add: out_text)
    next
      case True
      note conv = conversion_counts [OF less.prems(1), of str s0 ap]
      show ?thesis
      proof (cases "conversion text_write str t s0 ap")
        case None
        then show ?thesis using less.prems Cons True by simp
      next
        case (Some r)
        show ?thesis
        proof (cases r)
          case (Inl a)
          then show ?thesis using less.prems Cons True Some conv(2) by auto
        next
          case (Inr x)
          obtain t1 s1 ap1 where x: "x = (t1, s1, ap1)" by (metis prod.exhaust)
          have "length s1 < length s" using conversion_length [of text_write str t s0 ap t1 s1 ap1] Some Inr x Cons by simp
          from less.hyps [OF this] show ?thesis using less.prems Cons True Some Inr x conv(1) by simp
        qed
      qed
    qed
  qed
qed

text \<open>What a format prints: whether it is valid, and the text.\<close>

definition format_text :: "(64 word \<Rightarrow> string) \<Rightarrow> string \<Rightarrow> va_list \<Rightarrow> (bool \<times> string) option" where
  "format_text str format ap =
     map_option (map_prod id stream) (printf_loop text_write str \<lparr>stream = [], cnt = 0, stores = []\<rparr> format ap)"

section \<open>The buffer of \<open>vsnprintf\<close>\<close>

definition sbuf_rep :: "nat \<Rightarrow> string \<Rightarrow> sbuf \<Rightarrow> string \<Rightarrow> bool" where
  "sbuf_rep sz b0 st t \<longleftrightarrow>
     sb_size st = sz \<and> sz \<le> length b0 \<and> sb_used st = min (length t) sz \<and>
     sb_buf st = take sz t @ drop (min (length t) sz) b0"

lemma snprintf_write_rep:
  assumes "sbuf_rep sz b0 st t" and b: "b \<noteq> []"
  shows "\<exists>st'. snprintf_write st b = (Some (length b), st') \<and> sbuf_rep sz b0 st' (t @ b)"
proof -
  have r: "sb_size st = sz" "sz \<le> length b0" "sb_used st = min (length t) sz"
    "sb_buf st = take sz t @ drop (min (length t) sz) b0" using assms(1) by (auto simp: sbuf_rep_def)
  show ?thesis
  proof (cases "sz \<le> length t")
    case True
    then have "snprintf_write st b = (Some (length b), st)"
      using r b by (simp add: snprintf_write_def snprintf_write_loop.simps)
    then show ?thesis using r True by (simp add: sbuf_rep_def)
  next
    case False
    define n where "n = min (length b) (sz - length t)"
    define st1 where "st1 = st\<lparr>sb_buf := t @ take n b @ drop (length t + n) b0, sb_used := length t + n\<rparr>"
    have n: "0 < n" "n \<le> length b" "length t + n \<le> sz" using False b by (auto simp: n_def)
    have "snprintf_write st b = snprintf_write_loop st1 (drop n b) n"
      using r False b n
      by (subst snprintf_write_def, subst snprintf_write_loop.simps) (simp add: n_def st1_def Let_def add.commute)
    also have "\<dots> = (Some (length b), st1)"
      using r n by (subst snprintf_write_loop.simps) (auto simp: st1_def n_def)
    finally show ?thesis
      using r n False by (auto simp: st1_def sbuf_rep_def n_def min_def)
  qed
qed

interpretation sb: text_sink snprintf_write "sbuf_rep sz b0"
  by unfold_locales (rule snprintf_write_rep)

lemma snprintf_text:
  assumes sz: "sz \<le> length b" and f: "format_text str f ap = Some (ok, txt)"
  shows "\<exists>c. printf_loop snprintf_write str
            \<lparr>stream = \<lparr>sb_buf = b, sb_used = 0, sb_size = sz\<rparr>, cnt = 0, stores = []\<rparr> f ap = Some (ok, c) \<and>
          sbuf_rep sz b (stream c) txt \<and> cnt c = length txt"
proof -
  let ?c = "\<lparr>stream = \<lparr>sb_buf = b, sb_used = 0, sb_size = sz\<rparr>, cnt = 0, stores = []\<rparr>"
  let ?t = "\<lparr>stream = [], cnt = 0, stores = []\<rparr> :: string fmt_context"
  obtain t where t: "printf_loop text_write str ?t f ap = Some (ok, t)" "stream t = txt"
    using f by (auto simp: format_text_def)
  have "sb.crel sz b ?c ?t" using sz by (simp add: sb.crel_def sbuf_rep_def)
  from sb.printf_rel [OF this, of str f ap] t obtain c where c:
    "printf_loop snprintf_write str ?c f ap = Some (ok, c)" "sb.crel sz b c t"
    by (auto simp: option_rel_Some2 rel_prod_sel)
  moreover have "cnt t = length txt" using printf_counts [OF _ t(1)] t(2) by simp
  ultimately show ?thesis using t(2) by (auto simp: sb.crel_def)
qed

lemma snprintf_buffer:
  assumes sz: "0 < sz" "sz \<le> length b" and f: "format_text str f ap = Some (True, txt)"
    and len: "length txt < 2 ^ 31"
  shows "snprintf str (Some b) sz f ap =
    Some (int (length txt),
      Some (take (sz - 1) txt @ [CHR 0x00] @ drop (min (length txt) (sz - 1) + 1) b))"
proof -
  obtain c where c: "printf_loop snprintf_write str
      \<lparr>stream = \<lparr>sb_buf = b, sb_used = 0, sb_size = sz\<rparr>, cnt = 0, stores = []\<rparr> f ap = Some (True, c)"
    "sbuf_rep sz b (stream c) txt" "cnt c = length txt"
    using snprintf_text [OF sz(2) f] by blast
  have n: "sint (of_nat (length txt) :: 32 word) = int (length txt)"
    using len by (simp add: sint_eq_if unsigned_of_nat take_bit_nat_eq_self)
  have buf: "sb_buf (stream c) = take sz txt @ drop (min (length txt) sz) b" using c(2) by (simp add: sbuf_rep_def)
  have v: "snprintf str (Some b) sz f ap = Some (int (length txt),
      if length txt \<ge> sz then Some ((sb_buf (stream c))[sz - 1 := CHR 0x00])
      else Some ((sb_buf (stream c))[length txt := CHR 0x00]))"
    using sz c n by (simp add: snprintf_def vsnprintf_def vfprintf_def printf_core_def Let_def)
  show ?thesis
  proof (cases "sz \<le> length txt")
    case True
    then have "take sz txt = take (sz - 1) txt @ [txt ! (sz - 1)]"
      using sz by (metis Suc_diff_1 Suc_le_lessD take_Suc_conv_app_nth)
    then show ?thesis using True sz by (simp add: v buf list_update_append)
  next
    case False
    then have "drop (length txt) b = b ! length txt # drop (Suc (length txt)) b"
      using sz by (simp add: Cons_nth_drop_Suc)
    then show ?thesis using False sz by (simp add: v buf list_update_append)
  qed
qed


text \<open>
  C12. \<open>snprintf\<close> to a buffer of at least \<open>sz > 0\<close> characters writes only its first \<open>sz\<close>
  characters, leaves there as much of the formatted text as fits and a terminating NUL, and
  returns the length of the whole text, whether or not it was truncated.
\<close>

theorem snprintf_truncates:
  assumes sz: "0 < sz" "sz \<le> length b" and f: "format_text str f ap = Some (True, txt)"
    and len: "length txt < 2 ^ 31"
  shows "snprintf str (Some b) sz f ap =
    Some (int (length txt),
      Some (take (sz - 1) txt @ [CHR 0x00] @ drop (min (length txt) (sz - 1) + 1) b))"
  using assms by (rule snprintf_buffer)

text \<open>Evaluation of concrete formats.\<close>

lemmas fmt_simps =
  format_text_def conversion_def Let_def run_states.simps is_prefix_def OOB_def int_row_def
  is_n_def is_dig_def put_arg_def put_number_def put_string_def raw_number_def number_layout_def
  no_flags_def out_text pad_text pop_arg_def

theorem snprintf_truncates_witness:
  "snprintf (\<lambda>_. ''hello'') (Some ''________'') 4 ''%s!'' [1] =
     Some (6, Some (''hel'' @ [CHR 0x00] @ ''____''))"
proof -
  have "format_text (\<lambda>_. ''hello'') ''%s!'' [1] = Some (True, ''hello!'')" by (simp add: fmt_simps)
  from snprintf_truncates [OF _ _ this, of 4 "''________''"] show ?thesis by simp
qed

section \<open>Numbers\<close>

definition dec :: "nat \<Rightarrow> string" where
  "dec x = fmt_u x [] lower_digits"

lemma fmt_u_append: "fmt_u x s d = fmt_u x [] d @ s"
proof (induction x arbitrary: s rule: less_induct)
  case (less x)
  show ?case
  proof (cases "x div 10 > 0")
    case True
    then have "x div 10 < x" by simp
    from less.IH [OF this, of "d ! (x mod 10) # s"] less.IH [OF this, of "[d ! (x mod 10)]"]
    show ?thesis using True by (subst (1 2) fmt_u.simps) (simp add: Let_def)
  qed (simp add: fmt_u.simps)
qed

lemma dec_rec: "dec x = (if x < 10 then [lower_digits ! x] else dec (x div 10) @ [lower_digits ! (x mod 10)])"
  unfolding dec_def
  by (subst fmt_u.simps) (use fmt_u_append [of "x div 10" "[lower_digits ! (x mod 10)]"] in \<open>auto simp: Let_def\<close>)

lemma digit_char:
  assumes "n < 10"
  shows "of_char (lower_digits ! n) = (48 + n :: nat)"
proof -
  have "n \<in> set [0..<10]" using assms by simp
  then show ?thesis by (auto simp: lower_digits_def upt_rec)
qed

text \<open>
  The digits of any 64-bit number fit the 32 characters of the conversion buffer, in every
  radix.
\<close>

theorem digits_fit:
  fixes x :: "64 word"
  shows "length (fmt_u (unat x) [] d) \<le> 32 \<and> length (fmt_o (unat x) [] d) \<le> 32 \<and>
         length (fmt_x (unat x) [] d) \<le> 32"
proof -
  have u: "x < 10 ^ Suc k \<Longrightarrow> length (fmt_u x s d) \<le> length s + Suc k" for x k s
  proof (induction k arbitrary: x s)
    case (Suc k)
    then have "x div 10 < 10 ^ Suc k" by (simp add: div_less_iff_less_mult mult.commute)
    with Suc.IH [of "x div 10" "d ! (x mod 10) # s"] show ?case by (subst fmt_u.simps) (simp add: Let_def)
  qed (simp add: fmt_u.simps)
  have o: "x < 8 ^ Suc k \<Longrightarrow> length (fmt_o x s d) \<le> length s + Suc k" for x k s
  proof (induction k arbitrary: x s)
    case (Suc k)
    then have "x div 8 < 8 ^ Suc k" by (simp add: div_less_iff_less_mult mult.commute)
    with Suc.IH [of "x div 8" "d ! (x mod 8) # s"] show ?case by (subst fmt_o.simps) (simp add: Let_def)
  qed (simp add: fmt_o.simps)
  have h: "x < 16 ^ Suc k \<Longrightarrow> length (fmt_x x s d) \<le> length s + Suc k" for x k s
  proof (induction k arbitrary: x s)
    case (Suc k)
    then have "x div 16 < 16 ^ Suc k" by (simp add: div_less_iff_less_mult mult.commute)
    with Suc.IH [of "x div 16" "d ! (x mod 16) # s"] show ?case by (subst fmt_x.simps) (simp add: Let_def)
  qed (simp add: fmt_x.simps)
  have "unat x < 2 ^ 64" using unat_bound [of x] by simp
  then have "unat x < 10 ^ Suc 31" "unat x < 8 ^ Suc 31" "unat x < 16 ^ Suc 31" by simp_all
  then show ?thesis using u [of "unat x" 31 "[]"] o [of "unat x" 31 "[]"] h [of "unat x" 31 "[]"] by simp
qed

lemma format_d:
  "format_text str ''%d'' [a] =
     map_option (\<lambda>(m, neg). (True, (if neg then ''-'' else []) @ dec (unat m)))
       (neg_arg 32 (sint (ucast a :: 32 word)))"
  by (cases "neg_arg 32 (sint (ucast a :: 32 word))") (auto simp: fmt_simps dec_def)

text \<open>The argument slot of an \<open>int\<close>.\<close>

definition slot :: "int \<Rightarrow> 64 word" where
  "slot i = of_int i"

lemma sint_slot:
  assumes "- (2 ^ 31) \<le> i" and "i < 2 ^ 31"
  shows "sint (ucast (slot i) :: 32 word) = i"
proof -
  have "(ucast (slot i) :: 32 word) = of_int i"
    by (intro bit_word_eqI) (simp add: slot_def bit_simps)
  moreover have "signed_take_bit 31 i = i" using assms by (intro signed_take_bit_int_eq_self) auto
  ultimately show ?thesis by (simp add: signed_of_int)
qed

lemma format_d_int:
  assumes "- (2 ^ 31) < i" and "i < 2 ^ 31"
  shows "format_text str ''%d'' [slot i] = Some (True, (if i < 0 then ''-'' else []) @ dec (nat \<bar>i\<bar>))"
proof -
  have "unat (of_int \<bar>i\<bar> :: 64 word) = nat \<bar>i\<bar>"
  proof -
    have "take_bit 64 \<bar>i\<bar> = \<bar>i\<bar>" using assms by (intro take_bit_int_eq_self) auto
    then show ?thesis by (simp add: unsigned_of_int)
  qed
  then show ?thesis using assms by (cases "i < 0") (simp_all add: format_d sint_slot neg_arg_def)
qed

lemma raw_number_width:
  "fst (raw_number (sp\<lparr>has_width := b, width := w\<rparr>) pch i) = fst (raw_number sp pch i)"
  "fst (snd (raw_number (sp\<lparr>has_width := b, width := w\<rparr>) pch i)) = fst (snd (raw_number sp pch i))"
  by (simp_all add: raw_number_def)

lemma layout_width:
  assumes "\<not> ZERO_PAD (fl sp)" and "\<not> LEFT_ALIGN (fl sp)"
  shows "number_layout (snd (snd (raw_number (sp\<lparr>has_width := True, width := w\<rparr>) pch i))) lt0 n m =
         number_layout (snd (snd (raw_number (sp\<lparr>has_width := False, width := w\<rparr>) pch i))) lt0 n m"
proof -
  define dec_conv where "dec_conv \<longleftrightarrow> pch \<in> set ''idu''"
  have o: "ZERO_PAD no_flags = False" "LEFT_ALIGN no_flags = False" by (simp_all add: no_flags_def)
  show ?thesis
    unfolding raw_number_def dec_conv_def [symmetric]
    using assms o by (cases dec_conv; cases "pch = CHR ''o''"; cases "pch = CHR ''x''"; cases "pch = CHR ''X''")
      (simp_all add: number_layout_def Let_def)
qed

text \<open>
  A field width without the flags \<open>0\<close> and \<open>-\<close> has no effect on a number, whatever the
  conversion and the argument: the padding with blanks on the left is never computed, so
  \<open>%5d\<close> prints the same as \<open>%d\<close> (C requires the result to be padded).
\<close>

theorem width_ignored:
  assumes "\<not> ZERO_PAD (fl sp)" and "\<not> LEFT_ALIGN (fl sp)"
  shows "put_number text_write t (sp\<lparr>has_width := True, width := w\<rparr>) pch arg =
         put_number text_write t (sp\<lparr>has_width := False, width := w\<rparr>) pch arg"
  using layout_width [OF assms] raw_number_width
  by (simp add: put_number_def Let_def split_beta)

theorem width_ignored_witness:
  "put_number text_write \<lparr>stream = [], cnt = 0, stores = []\<rparr>
     (\<lparr>fl = no_flags, width = 0, has_width = False, prec = 0, has_prec = False\<rparr>\<lparr>has_width := True, width := 5\<rparr>)
     CHR ''d'' (7, False) =
   \<lparr>stream = ''7'', cnt = 1, stores = []\<rparr>"
  by (subst width_ignored)
    (simp_all add: no_flags_def put_number_def raw_number_def number_layout_def out_text pad_text fmt_u.simps lower_digits_def)


end
