(* ===== verification/Stdio.thy ===== *)
theory Stdio
  imports Printf
begin

text \<open>
  Buffered streams: \<open>src/src/libbrkc/stdio\<close>. The kernel is a parameter: an \<open>os\<close> gives the effect
  of \<open>read\<close>, \<open>write\<close> and \<open>lseek\<close> on a state of the world of any type. Streams are not null
  pointers, except where the code gives that case a meaning (\<open>fflush\<close>). A stream has one buffer
  for reading and writing; its read pointers are offsets into it, absent when they are null.

  \<open>fault\<close> is no state of the program: it is set when the code would store outside of its buffer
  or loop forever, and the theorems show that it is not.
\<close>

section \<open>Streams\<close>

record 'w os =
  os_write :: "'w \<Rightarrow> int \<Rightarrow> string \<Rightarrow> int \<times> 'w"
  os_read :: "'w \<Rightarrow> int \<Rightarrow> nat \<Rightarrow> string option \<times> 'w"
  os_lseek :: "'w \<Rightarrow> int \<Rightarrow> int \<Rightarrow> nat \<Rightarrow> int \<times> 'w"

record io_file =
  fbuf :: "string option"
  buf_used :: nat
  buf_size :: nat
  rptr :: "(nat \<times> nat) option"
  fd :: int
  io_eof :: bool
  io_err :: bool
  io_sync :: bool

record 'w io =
  strm :: io_file
  world :: 'w
  fault :: bool

abbreviation upd_strm :: "(io_file \<Rightarrow> io_file) \<Rightarrow> 'w io \<Rightarrow> 'w io" where
  "upd_strm f s \<equiv> s\<lparr>strm := f (strm s)\<rparr>"

definition SEEK_SET :: nat where "SEEK_SET = 0"
definition SEEK_CUR :: nat where "SEEK_CUR = 1"

section \<open>Flushing\<close>

function wbuf_loop :: "'w os \<Rightarrow> int \<Rightarrow> string \<Rightarrow> 'w \<Rightarrow> bool \<times> 'w" where
  "wbuf_loop os d p w =
     (if p = [] then (True, w)
      else case os_write os w d p of
          (n, w) \<Rightarrow> if n < 0 then (False, w) else if n = 0 then (False, w)
                    else wbuf_loop os d (drop (nat n) p) w)"
  by pat_completeness auto
termination by (relation "measure (\<lambda>(os, d, p, w). length p)") auto

declare wbuf_loop.simps [simp del]

definition stdio_flush_wbuf :: "'w os \<Rightarrow> 'w io \<Rightarrow> int \<times> 'w io" where
  "stdio_flush_wbuf os s =
     (let f = strm s
      in if fd f < 0 \<or> buf_used f = 0 then (0, s)
         else case fbuf f of
             None \<Rightarrow> (0, s)
           | Some b \<Rightarrow>
               (case wbuf_loop os (fd f) (take (buf_used f) b) (world s) of
                  (True, w) \<Rightarrow> (0, s\<lparr>strm := f\<lparr>buf_used := 0\<rparr>, world := w\<rparr>)
                | (False, w) \<Rightarrow> (-1, s\<lparr>strm := f\<lparr>io_err := True\<rparr>, world := w\<rparr>)))"

definition stdio_purge_readbuf :: "'w os \<Rightarrow> 'w io \<Rightarrow> int \<times> 'w io" where
  "stdio_purge_readbuf os s =
     (let f = strm s; drop_ptrs = (\<lambda>s. (0, upd_strm (\<lambda>f. f\<lparr>rptr := None\<rparr>) s))
      in if fd f < 0 then (0, s)
         else case rptr f of
             Some (p, e) \<Rightarrow>
               if p < e then
                 (case os_lseek os (world s) (fd f) (- int (e - p)) SEEK_CUR of
                    (r, w) \<Rightarrow> if r < 0 then (-1, s\<lparr>strm := f\<lparr>io_err := True\<rparr>, world := w\<rparr>)
                              else drop_ptrs (s\<lparr>world := w\<rparr>))
               else drop_ptrs s
           | None \<Rightarrow> drop_ptrs s)"

definition fflush :: "'w os \<Rightarrow> 'w io \<Rightarrow> int \<times> 'w io" where
  "fflush os s =
     (case stdio_flush_wbuf os s of
        (r, s) \<Rightarrow> if r < 0 then (-1, s)
          else case stdio_purge_readbuf os s of (r, s) \<Rightarrow> if r < 0 then (-1, s) else (0, s))"

text \<open>\<open>fflush(NULL)\<close>: both standard output streams, on one world.\<close>

definition fflush_null :: "'w os \<Rightarrow> io_file \<Rightarrow> io_file \<Rightarrow> 'w \<Rightarrow> int \<times> io_file \<times> io_file \<times> 'w" where
  "fflush_null os out_f err_f w =
     (case fflush os \<lparr>strm = out_f, world = w, fault = False\<rparr> of
        (a, s) \<Rightarrow> case fflush os \<lparr>strm = err_f, world = world s, fault = False\<rparr> of
           (b, s') \<Rightarrow> (if a < 0 \<or> b < 0 then -1 else 0, strm s, strm s', world s'))"

section \<open>Writing\<close>

text \<open>A store into the buffer at \<open>buf_used\<close>.\<close>

definition buf_put :: "string \<Rightarrow> 'w io \<Rightarrow> 'w io" where
  "buf_put cs s =
     (let f = strm s; u = buf_used f
      in case fbuf f of
          Some b \<Rightarrow>
            if u + length cs \<le> length b
            then s\<lparr>strm := f\<lparr>fbuf := Some (take u b @ cs @ drop (u + length cs) b), buf_used := u + length cs\<rparr>\<rparr>
            else s\<lparr>fault := True\<rparr>
        | None \<Rightarrow> if cs = [] then s else s\<lparr>fault := True\<rparr>)"

abbreviation set_err :: "'w io \<Rightarrow> 'w io" where
  "set_err s \<equiv> upd_strm (\<lambda>f. f\<lparr>io_err := True\<rparr>) s"

abbreviation buf_full :: "'w io \<Rightarrow> bool" where
  "buf_full s \<equiv> buf_used (strm s) \<ge> buf_size (strm s)"

text \<open>When no room is left even after a flush the loop never ends.\<close>

function file_write_sync_loop :: "'w os \<Rightarrow> 'w io \<Rightarrow> string \<Rightarrow> bool \<times> 'w io" where
  "file_write_sync_loop os s buf =
     (if buf = [] \<or> fault s then (\<not> fault s, s)
      else
        let chunk = min (length buf) (buf_size (strm s) - buf_used (strm s));
            s' = buf_put (take chunk buf) s;
            (r, s') = (if buf_full s' then fflush os s' else (0, s'))
        in if r < 0 then (False, set_err s')
           else if chunk = 0 then
             if buf_full s' then (False, s'\<lparr>fault := True\<rparr>)
             else file_write_sync_loop os s' buf
           else file_write_sync_loop os s' (drop chunk buf))"
  by pat_completeness auto
termination
proof (relation "measure (\<lambda>(os, s, b). 2 * length b + (if buf_full s then 1 else 0))", goal_cases)
  case (2 os s buf x xa y xb xc)
  then show ?case by (auto simp: min_def split: if_splits)
next
  case (3 os s buf x xa y xb xc)
  then show ?case by (cases buf) (auto simp: min_def split: if_splits)
qed auto


declare file_write_sync_loop.simps [simp del]

definition file_write_sync :: "'w os \<Rightarrow> 'w io \<Rightarrow> string \<Rightarrow> nat option \<times> 'w io" where
  "file_write_sync os s buf =
     (case file_write_sync_loop os s buf of
        (False, s) \<Rightarrow> (None, s)
      | (True, s) \<Rightarrow>
          case fflush os s of (r, s) \<Rightarrow> if r < 0 then (None, set_err s) else (Some (length buf), s))"

fun file_write_loop :: "'w os \<Rightarrow> 'w io \<Rightarrow> string \<Rightarrow> bool \<times> 'w io" where
  "file_write_loop os s [] = (True, s)"
| "file_write_loop os s (c # cs) =
     (let (r, s) = (if buf_full s then fflush os s else (0, s))
      in if r < 0 then (False, set_err s)
         else
           let s = buf_put [c] s;
               (r, s) = (if c = CHR 0x0A then fflush os s else (0, s))
           in if r < 0 then (False, set_err s) else file_write_loop os s cs)"

definition file_write :: "'w os \<Rightarrow> 'w io \<Rightarrow> string \<Rightarrow> nat option \<times> 'w io" where
  "file_write os s buf =
     (case file_write_loop os s buf of
        (False, s) \<Rightarrow> (None, s)
      | (True, s) \<Rightarrow> (Some (length buf), s))"

definition stdio_file_write :: "'w os \<Rightarrow> 'w io \<Rightarrow> string \<Rightarrow> nat option \<times> 'w io" where
  "stdio_file_write os s buf =
     (if io_err (strm s) then (None, s)
      else case stdio_purge_readbuf os s of
          (r, s) \<Rightarrow>
            if r < 0 then (None, s)
            else if buf = [] then (Some 0, s)
            else if io_sync (strm s) then file_write_sync os s buf
            else file_write os s buf)"

text \<open>\<open>data\<close> is the object the pointer leads to; the product of the sizes wraps around.\<close>

definition fwrite :: "'w os \<Rightarrow> string \<Rightarrow> nat \<Rightarrow> nat \<Rightarrow> 'w io \<Rightarrow> nat \<times> 'w io" where
  "fwrite os data sz nmemb s =
     (if sz = 0 \<or> nmemb = 0 then (0, s)
      else
        let n = sz * nmemb mod 2 ^ 64
        in if n > length data then (0, s\<lparr>fault := True\<rparr>)
           else case stdio_file_write os s (take n data) of
               (None, s) \<Rightarrow> (0, s)
             | (Some w, s) \<Rightarrow> (w div sz, s))"

definition EOF :: int where "EOF = -1"

definition fputs :: "'w os \<Rightarrow> string \<Rightarrow> 'w io \<Rightarrow> int \<times> 'w io" where
  "fputs os str s =
     (let n = length str; (w, s) = fwrite os str 1 n s in (if w = n then 0 else EOF, s))"

definition fprintf ::
  "'w os \<Rightarrow> (64 word \<Rightarrow> string) \<Rightarrow> string \<Rightarrow> va_list \<Rightarrow> 'w io \<Rightarrow> (int \<times> 'w io) option"
where
  "fprintf os str format ap s =
     map_option (\<lambda>(n, ctx). (n, stream ctx)) (vfprintf (stdio_file_write os) str s format ap)"

definition fputc :: "'w os \<Rightarrow> int \<Rightarrow> 'w io \<Rightarrow> (int \<times> 'w io) option" where
  "fputc os c s = fprintf os (\<lambda>_. []) ''%c'' [slot c] s"

definition putc :: "'w os \<Rightarrow> int \<Rightarrow> 'w io \<Rightarrow> (int \<times> 'w io) option" where
  "putc os c s = fputc os c s"

definition puts :: "'w os \<Rightarrow> string \<Rightarrow> 'w io \<Rightarrow> (int \<times> 'w io) option" where
  "puts os str s =
     (case fputs os str s of
        (r, s) \<Rightarrow> if r = EOF then Some (EOF, s)
          else map_option (\<lambda>(r, s). (if r = EOF then EOF else 0, s)) (fputc os 10 s))"

section \<open>Reading\<close>

text \<open>The unread characters of the buffer.\<close>

definition buffered :: "io_file \<Rightarrow> string" where
  "buffered f = (case (rptr f, fbuf f) of (Some (p, e), Some b) \<Rightarrow> drop p (take e b) | _ \<Rightarrow> [])"

definition fill_buf :: "string \<Rightarrow> 'w io \<Rightarrow> 'w io" where
  "fill_buf d s =
     (let f = strm s
      in case fbuf f of
          Some b \<Rightarrow> if length d \<le> length b
            then s\<lparr>strm := f\<lparr>fbuf := Some (d @ drop (length d) b), rptr := Some (0, length d)\<rparr>\<rparr>
            else s\<lparr>fault := True\<rparr>
        | None \<Rightarrow> s\<lparr>fault := True\<rparr>)"

definition skip_read :: "nat \<Rightarrow> 'w io \<Rightarrow> 'w io" where
  "skip_read n s = upd_strm (\<lambda>f. f\<lparr>rptr := map_option (map_prod (\<lambda>p. p + n) id) (rptr f)\<rparr>) s"

abbreviation set_eof :: "'w io \<Rightarrow> 'w io" where
  "set_eof s \<equiv> upd_strm (\<lambda>f. f\<lparr>io_eof := True\<rparr>) s"

abbreviation unbuffered :: "'w io \<Rightarrow> bool" where
  "unbuffered s \<equiv> fbuf (strm s) = None \<or> buf_size (strm s) = 0"

lemma buffered_fill: "\<not> fault (fill_buf d s) \<Longrightarrow> buffered (strm (fill_buf d s)) = d"
  by (auto simp: fill_buf_def buffered_def Let_def split: option.splits if_splits)

lemma read_progress: "xs \<noteq> [] \<Longrightarrow> m < l \<Longrightarrow> Suc (2 * (l - (m + length xs))) < 2 * l"
  by (cases xs) auto

text \<open>The result is what was stored at \<open>p\<close>.\<close>

function fread_loop :: "'w os \<Rightarrow> nat \<Rightarrow> 'w io \<Rightarrow> string \<Rightarrow> string \<times> 'w io" where
  "fread_loop os left s acc =
     (if left = 0 \<or> fault s then (acc, s)
      else
        let chunk = take left (buffered (strm s));
            s = skip_read (length chunk) s;
            acc = acc @ chunk;
            left = left - length chunk
        in if left = 0 then (acc, s)
           else
             case os_read os (world s) (fd (strm s)) (if unbuffered s then left else buf_size (strm s)) of
               (None, w) \<Rightarrow> (acc, set_err (s\<lparr>world := w\<rparr>))
             | (Some d, w) \<Rightarrow>
                 if d = [] then (acc, set_eof (s\<lparr>world := w\<rparr>))
                 else if unbuffered s then fread_loop os (left - length d) (s\<lparr>world := w\<rparr>) (acc @ d)
                 else fread_loop os left (fill_buf d (s\<lparr>world := w\<rparr>)) acc)"
  by pat_completeness auto
termination
proof (relation "measure (\<lambda>(os, n, s, a). if fault s then 0 else 2 * n + (if buffered (strm s) = [] then 1 else 0) + 1)",
    goal_cases)
  case 2
  then show ?case
    using read_progress [where m = 0] by (auto simp: min_def split: if_splits intro!: read_progress)
next
  case 3
  then show ?case
    using read_progress [where m = 0] by (auto simp: min_def buffered_fill split: if_splits)
qed auto

declare fread_loop.simps [simp del]

definition fread :: "'w os \<Rightarrow> nat \<Rightarrow> nat \<Rightarrow> 'w io \<Rightarrow> (nat \<times> string) \<times> 'w io" where
  "fread os sz nmemb s =
     (if sz = 0 \<or> nmemb = 0 then ((0, []), s)
      else if io_err (strm s) then ((0, []), s)
      else case stdio_flush_wbuf os s of
          (r, s) \<Rightarrow>
            if r < 0 then ((0, []), s)
            else case fread_loop os (sz * nmemb mod 2 ^ 64) s [] of
                (d, s) \<Rightarrow> ((length d div sz, d), s))"

definition fgetc :: "'w os \<Rightarrow> 'w io \<Rightarrow> int \<times> 'w io" where
  "fgetc os s =
     (if io_err (strm s) then (EOF, s)
      else case stdio_flush_wbuf os s of
          (r, s) \<Rightarrow>
            if r < 0 then (EOF, s)
            else case buffered (strm s) of
                c # _ \<Rightarrow> (of_char c, skip_read 1 s)
              | [] \<Rightarrow>
                  if io_eof (strm s) then (EOF, s)
                  else case os_read os (world s) (fd (strm s)) (if unbuffered s then 1 else buf_size (strm s)) of
                      (None, w) \<Rightarrow> (EOF, set_err (s\<lparr>world := w\<rparr>))
                    | (Some [], w) \<Rightarrow> (EOF, set_eof (s\<lparr>world := w\<rparr>))
                    | (Some (c # d), w) \<Rightarrow>
                        if unbuffered s then (of_char c, s\<lparr>world := w\<rparr>)
                        else (of_char c, skip_read 1 (fill_buf (c # d) (s\<lparr>world := w\<rparr>))))"

definition getc :: "'w os \<Rightarrow> 'w io \<Rightarrow> int \<times> 'w io" where
  "getc os s = fgetc os s"

definition ferror :: "'w io \<Rightarrow> bool" where
  "ferror s = io_err (strm s)"

definition feof :: "'w io \<Rightarrow> bool" where
  "feof s = io_eof (strm s)"

definition clearerr :: "'w io \<Rightarrow> 'w io" where
  "clearerr s = upd_strm (\<lambda>f. f\<lparr>io_eof := False, io_err := False\<rparr>) s"

text \<open>\<open>fgets\<close> with room for \<open>n\<close> more characters; \<open>None\<close> is the null pointer.\<close>

fun fgets_loop :: "'w os \<Rightarrow> nat \<Rightarrow> string \<Rightarrow> 'w io \<Rightarrow> string option \<times> 'w io" where
  "fgets_loop os 0 acc s = (Some acc, s)"
| "fgets_loop os (Suc n) acc s =
     (case fgetc os s of
        (c, s) \<Rightarrow>
          if c = EOF then
            if ferror s then (None, s) else if acc = [] then (None, s) else (Some acc, s)
          else
            let acc = acc @ [char_of (nat c)]
            in if c = 10 then (Some acc, s) else fgets_loop os n acc s)"

definition fgets :: "'w os \<Rightarrow> int \<Rightarrow> 'w io \<Rightarrow> string option \<times> 'w io" where
  "fgets os sz s = (if sz \<le> 0 then (None, s) else fgets_loop os (nat (sz - 1)) [] s)"

section \<open>Positioning\<close>

definition fseek :: "'w os \<Rightarrow> int \<Rightarrow> nat \<Rightarrow> 'w io \<Rightarrow> int \<times> 'w io" where
  "fseek os off whence s =
     (if fd (strm s) < 0 then (-1, s)
      else case fflush os s of
          (r, s) \<Rightarrow>
            if r < 0 then (-1, s)
            else case os_lseek os (world s) (fd (strm s)) off whence of
                (r, w) \<Rightarrow> if r < 0 then (-1, s\<lparr>world := w\<rparr>)
                  else (0, upd_strm (\<lambda>f. f\<lparr>io_eof := False\<rparr>) (s\<lparr>world := w\<rparr>)))"

definition rewind :: "'w os \<Rightarrow> 'w io \<Rightarrow> 'w io" where
  "rewind os s = snd (fseek os 0 SEEK_SET (clearerr s))"

definition ftell :: "'w os \<Rightarrow> 'w io \<Rightarrow> int \<times> 'w io" where
  "ftell os s =
     (if fd (strm s) < 0 then (-1, s)
      else case fflush os s of
          (r, s) \<Rightarrow>
            if r < 0 then (-1, s)
            else case os_lseek os (world s) (fd (strm s)) 0 SEEK_CUR of
                (p, w) \<Rightarrow> (if p < 0 then -1 else p, s\<lparr>world := w\<rparr>))"

section \<open>Lines\<close>

text \<open>
  \<open>getdelim\<close>: the capacity of the line buffer grows as the code grows it; \<open>room\<close> says whether
  \<open>realloc\<close> succeeds for a size. The state of the loop is the capacity and the characters read.
  The result is the capacity and the line; the input is finite, and \<open>fuel\<close> bounds the
  characters read.
\<close>

definition grow_cap :: "nat \<Rightarrow> nat \<Rightarrow> nat" where
  "grow_cap cap len =
     (if len + 2 > cap then
        let ncap = (if cap \<noteq> 0 then cap * 2 else 128) in if ncap < len + 2 then len + 2 else ncap
      else cap)"

datatype getdelim_result = Line nat string | No_line | No_memory | Read_error | Out_of_fuel

fun getdelim_loop ::
  "'w os \<Rightarrow> (nat \<Rightarrow> bool) \<Rightarrow> char \<Rightarrow> nat \<Rightarrow> nat \<Rightarrow> string \<Rightarrow> 'w io \<Rightarrow> getdelim_result \<times> 'w io"
where
  "getdelim_loop os room delim 0 cap acc s = (Out_of_fuel, s)"
| "getdelim_loop os room delim (Suc fuel) cap acc s =
     (let ncap = grow_cap cap (length acc)
      in if ncap \<noteq> cap \<and> \<not> room ncap then (No_memory, s)
         else case fread os 1 1 s of
             ((nr, d), s) \<Rightarrow>
               if nr = 0 then
                 if ferror s then (Read_error, s)
                 else if acc = [] then (No_line, s) else (Line ncap acc, s)
               else
                 let acc = acc @ d
                 in if hd d = delim then (Line ncap acc, s)
                    else getdelim_loop os room delim fuel ncap acc s)"

definition getdelim ::
  "'w os \<Rightarrow> (nat \<Rightarrow> bool) \<Rightarrow> nat \<Rightarrow> nat option \<Rightarrow> char \<Rightarrow> 'w io \<Rightarrow> getdelim_result \<times> 'w io"
where
  "getdelim os room fuel cap delim s =
     getdelim_loop os room delim fuel (case cap of None \<Rightarrow> 0 | Some n \<Rightarrow> n) [] s"

definition getline ::
  "'w os \<Rightarrow> (nat \<Rightarrow> bool) \<Rightarrow> nat \<Rightarrow> nat option \<Rightarrow> 'w io \<Rightarrow> getdelim_result \<times> 'w io"
where
  "getline os room fuel cap s = getdelim os room fuel cap CHR 0x0A s"

section \<open>Opening\<close>

text \<open>The open flags as sets of names; \<open>None\<close> is the error \<open>EINVAL\<close>.\<close>

datatype oflag = O_RDONLY | O_WRONLY | O_RDWR | O_CREAT | O_TRUNC | O_APPEND

fun mode_loop :: "nat option \<Rightarrow> bool \<Rightarrow> string \<Rightarrow> (nat option \<times> bool) option" where
  "mode_loop acc pl [] = Some (acc, pl)"
| "mode_loop acc pl (m # ms) =
     (if m = CHR ''r'' then mode_loop (Some 0) pl ms
      else if m = CHR ''w'' then mode_loop (Some 1) pl ms
      else if m = CHR ''a'' then mode_loop (Some 2) pl ms
      else if m = CHR ''+'' then mode_loop acc True ms
      else if m = CHR ''b'' then mode_loop acc pl ms
      else None)"

definition mode_to_flags :: "string \<Rightarrow> oflag set option" where
  "mode_to_flags mode =
     (if mode = [] then None
      else case mode_loop None False mode of
          None \<Rightarrow> None
        | Some (None, pl) \<Rightarrow> None
        | Some (Some acc, pl) \<Rightarrow>
            if acc = 0 then Some {if pl then O_RDWR else O_RDONLY}
            else if acc = 1 then Some {if pl then O_RDWR else O_WRONLY, O_CREAT, O_TRUNC}
            else Some {if pl then O_RDWR else O_WRONLY, O_CREAT, O_APPEND})"

text \<open>A stream on an open file, as \<open>fopen\<close> and the standard streams initialise it.\<close>

definition new_file :: "int \<Rightarrow> string \<Rightarrow> bool \<Rightarrow> io_file" where
  "new_file d buf sync = \<lparr>fbuf = Some buf, buf_used = 0, buf_size = 1024, rptr = None, fd = d,
     io_eof = False, io_err = False, io_sync = sync\<rparr>"

text \<open>
  \<open>fopen\<close>: \<open>open_fd\<close> answers for the path and flags, \<open>alloc\<close> says whether the first and the
  second \<open>malloc\<close> succeed, \<open>buf\<close> is the fresh buffer. The second result is the descriptor
  that is closed again.
\<close>

definition fopen ::
  "(oflag set \<Rightarrow> int) \<Rightarrow> bool \<times> bool \<Rightarrow> string \<Rightarrow> string \<Rightarrow> io_file option \<times> int option"
where
  "fopen open_fd alloc buf mode =
     (case mode_to_flags mode of
        None \<Rightarrow> (None, None)
      | Some flags \<Rightarrow>
          let d = open_fd flags
          in if d < 0 then (None, None)
             else if \<not> fst alloc then (None, Some d)
             else if \<not> snd alloc then (None, Some d)
             else (Some (new_file d buf False), None))"

text \<open>\<open>fclose\<close>: whether the stream was released, and the result. \<open>std\<close>: a standard stream.\<close>

definition fclose :: "'w os \<Rightarrow> bool \<Rightarrow> 'w io \<Rightarrow> (int \<times> bool) \<times> 'w io" where
  "fclose os std s =
     (if std then ((-1, False), s)
      else case fflush os s of (r, s) \<Rightarrow> if r < 0 then ((-1, False), s) else ((0, True), s))"

end
