(* ===== verification/Stdio_Streams.thy ===== *)
theory Stdio_Streams
  imports Stdio
begin

text \<open>
  What streams do with the characters: nothing is lost, duplicated or reordered on the way
  through the buffer, whatever the sizes of the transfers the kernel makes. The kernel's part of
  the contract is two locales, one for a descriptor that is written and one for one that is
  read; a file, as the list of its characters and an offset, meets both.
\<close>

section \<open>The kernel's contract\<close>

text \<open>
  A write to the descriptor \<open>d\<close> takes at least one of the characters offered, from the front;
  \<open>sent\<close> is what was written so far.
\<close>

locale sink_os =
  fixes os :: "'w os" and d :: int and sent :: "'w \<Rightarrow> string" and good :: "'w \<Rightarrow> bool"
  assumes nonneg: "0 \<le> d"
    and write_ok: "good w \<Longrightarrow> p \<noteq> [] \<Longrightarrow> os_write os w d p = (n, w') \<Longrightarrow>
      0 < n \<and> n \<le> int (length p) \<and> sent w' = sent w @ take (nat n) p \<and> good w'"

text \<open>A read returns the next characters, at least one if there are any; \<open>rest\<close> is what is left.\<close>

locale source_os =
  fixes os :: "'w os" and d :: int and rest :: "'w \<Rightarrow> string" and good :: "'w \<Rightarrow> bool"
  assumes read_ok: "good w \<Longrightarrow> 0 < n \<Longrightarrow> os_read os w d n = (r, w') \<Longrightarrow>
      (\<exists>x. r = Some x \<and> length x \<le> n \<and> rest w = x @ rest w' \<and> (x = [] \<longrightarrow> rest w = [])) \<and> good w'"

text \<open>A regular file with its offset, for any descriptor.\<close>

definition file_os :: "(string \<times> nat) os" where
  "file_os =
     \<lparr>os_write = (\<lambda>(c, p) d b.
        (int (length b), (take p c @ replicate (p - length c) CHR 0x00 @ b @ drop (p + length b) c, p + length b))),
      os_read = (\<lambda>(c, p) d n. let x = take n (drop p c) in (Some x, (c, p + length x))),
      os_lseek = (\<lambda>(c, p) d off wh.
        let q = (if wh = SEEK_SET then off else if wh = SEEK_CUR then int p + off else int (length c) + off)
        in if q < 0 then (-1, (c, p)) else (q, (c, nat q)))\<rparr>"

definition file_sent :: "string \<times> nat \<Rightarrow> string" where
  "file_sent w = take (snd w) (fst w)"

definition file_rest :: "string \<times> nat \<Rightarrow> string" where
  "file_rest w = drop (snd w) (fst w)"

definition file_good :: "string \<times> nat \<Rightarrow> bool" where
  "file_good w \<longleftrightarrow> snd w \<le> length (fst w)"

interpretation fsink: sink_os file_os 1 file_sent file_good
proof
  fix w p n and w' :: "string \<times> nat"
  assume "file_good w" "p \<noteq> []" "os_write file_os w 1 p = (n, w')"
  then show "0 < n \<and> n \<le> int (length p) \<and> file_sent w' = file_sent w @ take (nat n) p \<and> file_good w'"
    by (cases w) (auto simp: file_os_def file_sent_def file_good_def)
qed simp

interpretation fsource: source_os file_os d file_rest file_good
proof
  fix w n r and w' :: "string \<times> nat"
  assume a: "file_good w" "0 < n" "os_read file_os w d n = (r, w')"
  obtain c p where w: "w = (c, p)" by (cases w)
  have r: "r = Some (take n (drop p c))" "w' = (c, p + min n (length c - p))"
    using a by (auto simp: file_os_def w Let_def min.commute)
  have "drop p c = take n (drop p c) @ drop (p + min n (length c - p)) c"
  proof (cases "n \<le> length c - p")
    case True
    then show ?thesis by (simp add: min_def) (metis append_take_drop_id drop_drop add.commute)
  qed (use a w in \<open>simp add: file_good_def\<close>)
  then show "(\<exists>x. r = Some x \<and> length x \<le> n \<and> file_rest w = x @ file_rest w' \<and> (x = [] \<longrightarrow> file_rest w = [])) \<and> file_good w'"
    using a r w by (auto simp: file_rest_def file_good_def min_def)
qed

section \<open>Writing\<close>

definition pending :: "io_file \<Rightarrow> string" where
  "pending f = (case fbuf f of Some b \<Rightarrow> take (buf_used f) b | None \<Rightarrow> [])"

definition out_ok :: "int \<Rightarrow> 'w io \<Rightarrow> bool" where
  "out_ok d s \<longleftrightarrow>
     (\<exists>b. fbuf (strm s) = Some b \<and> length b = buf_size (strm s)) \<and> 0 < buf_size (strm s) \<and>
     buf_used (strm s) \<le> buf_size (strm s) \<and> fd (strm s) = d \<and> rptr (strm s) = None \<and>
     \<not> io_err (strm s) \<and> \<not> fault s"

context sink_os
begin

lemma flush_loop_sent:
  "good w \<Longrightarrow> \<exists>w'. wbuf_loop os d p w = (True, w') \<and> sent w' = sent w @ p \<and> good w'"
proof (induction "length p" arbitrary: p w rule: less_induct)
  case less
  show ?case
  proof (cases "p = []")
    case True
    then show ?thesis using less.prems by (simp add: wbuf_loop.simps)
  next
    case False
    obtain n w1 where w: "os_write os w d p = (n, w1)" by force
    note k = write_ok [OF less.prems False w]
    then have "length (drop (nat n) p) < length p" using False by auto
    from less.hyps [OF this, of w1] k obtain w' where
      "wbuf_loop os d (drop (nat n) p) w1 = (True, w')" "sent w' = sent w1 @ drop (nat n) p" "good w'" by blast
    then show ?thesis using False k w by (subst wbuf_loop.simps) simp
  qed
qed

text \<open>Everything sent or pending, in order.\<close>

definition written :: "'w io \<Rightarrow> string" where
  "written s = sent (world s) @ pending (strm s)"

lemma fflush_ok:
  assumes ok: "out_ok d s" and g: "good (world s)"
  shows "\<exists>s'. fflush os s = (0, s') \<and> out_ok d s' \<and> good (world s') \<and> buf_used (strm s') = 0 \<and>
    buf_size (strm s') = buf_size (strm s) \<and> io_sync (strm s') = io_sync (strm s) \<and>
    sent (world s') = written s \<and> pending (strm s') = []"
proof -
  obtain b where b: "fbuf (strm s) = Some b" "length b = buf_size (strm s)" using ok by (auto simp: out_ok_def)
  obtain w' where w': "wbuf_loop os d (take (buf_used (strm s)) b) (world s) = (True, w')"
    "sent w' = sent (world s) @ take (buf_used (strm s)) b" "good w'" using flush_loop_sent [OF g] by blast
  have fdd: "fd (strm s) = d" "rptr (strm s) = None" using ok by (auto simp: out_ok_def)
  show ?thesis
    using ok b w' g fdd nonneg
    by (cases "buf_used (strm s) = 0")
      (auto simp: fflush_def stdio_flush_wbuf_def stdio_purge_readbuf_def Let_def out_ok_def pending_def written_def)
qed

lemma buf_put_ok:
  assumes ok: "out_ok d s" and room: "buf_used (strm s) + length cs \<le> buf_size (strm s)"
  shows "out_ok d (buf_put cs s) \<and> world (buf_put cs s) = world s \<and> written (buf_put cs s) = written s @ cs \<and>
    buf_size (strm (buf_put cs s)) = buf_size (strm s) \<and> buf_used (strm (buf_put cs s)) = buf_used (strm s) + length cs \<and>
    io_sync (strm (buf_put cs s)) = io_sync (strm s)"
  using assms by (auto simp: buf_put_def out_ok_def Let_def written_def pending_def)

text \<open>The state between two writes: a good stream on a good world that has taken \<open>t\<close>.\<close>

definition has_text :: "'w io \<Rightarrow> string \<Rightarrow> bool" where
  "has_text s t \<longleftrightarrow> out_ok d s \<and> good (world s) \<and> written s = t"

lemma has_text_flush:
  assumes "has_text s t"
  shows "\<exists>s'. fflush os s = (0, s') \<and> has_text s' t \<and> buf_used (strm s') = 0 \<and>
    buf_size (strm s') = buf_size (strm s) \<and> sent (world s') = t"
  using assms fflush_ok [of s] by (auto simp: has_text_def written_def)

lemma has_text_put:
  assumes "has_text s t" and "buf_used (strm s) + length cs \<le> buf_size (strm s)"
  shows "has_text (buf_put cs s) (t @ cs)" and "buf_size (strm (buf_put cs s)) = buf_size (strm s)"
    and "buf_used (strm (buf_put cs s)) = buf_used (strm s) + length cs"
  using assms buf_put_ok [of s cs] by (auto simp: has_text_def)

lemma has_text_size: "has_text s t \<Longrightarrow> 0 < buf_size (strm s)"
  by (simp add: has_text_def out_ok_def)

lemma flush_if:
  assumes "has_text s t"
  obtains s' where "(if c then fflush os s else (0, s)) = (0, s')" and "has_text s' t"
    and "buf_size (strm s') = buf_size (strm s)" and "c \<Longrightarrow> buf_used (strm s') = 0" and "\<not> c \<Longrightarrow> s' = s"
  using has_text_flush [OF assms] assms by (cases c) auto

lemma file_write_loop_ok:
  "has_text s t \<Longrightarrow> \<exists>s'. file_write_loop os s buf = (True, s') \<and> has_text s' (t @ buf)"
proof (induction buf arbitrary: s t)
  case (Cons c cs)
  obtain s1 where s1: "(if buf_full s then fflush os s else (0, s)) = (0, s1)" "has_text s1 t"
    "buf_size (strm s1) = buf_size (strm s)" "buf_full s \<Longrightarrow> buf_used (strm s1) = 0" "\<not> buf_full s \<Longrightarrow> s1 = s"
    using flush_if [OF Cons.prems, of "buf_full s"] by metis
  have room: "buf_used (strm s1) + length [c] \<le> buf_size (strm s1)"
    using s1 has_text_size [OF s1(2)] by (cases "buf_full s") auto
  obtain s2 where s2: "(if c = CHR 0x0A then fflush os (buf_put [c] s1) else (0, buf_put [c] s1)) = (0, s2)"
    "has_text s2 (t @ [c])"
    using flush_if [OF has_text_put(1) [OF s1(2) room], of "c = CHR 0x0A"] by metis
  from Cons.IH [OF s2(2)] show ?case using s1(1) s2(1) by (simp add: Let_def)
qed simp

lemma sync_loop_ok:
  "has_text s t \<Longrightarrow> \<exists>s'. file_write_sync_loop os s buf = (True, s') \<and> has_text s' (t @ buf)"
proof (induction "2 * length buf + (if buf_full s then 1 else 0)" arbitrary: s t buf rule: less_induct)
  case less
  have nf: "\<not> fault s" using less.prems by (simp add: has_text_def out_ok_def)
  show ?case
  proof (cases "buf = []")
    case True
    then show ?thesis using less.prems nf by (simp add: file_write_sync_loop.simps)
  next
    case False
    define chunk where "chunk = min (length buf) (buf_size (strm s) - buf_used (strm s))"
    define s1 where "s1 = buf_put (take chunk buf) s"
    have used: "buf_used (strm s) \<le> buf_size (strm s)" using less.prems by (simp add: has_text_def out_ok_def)
    then have room: "buf_used (strm s) + length (take chunk buf) \<le> buf_size (strm s)" by (simp add: chunk_def)
    note p = has_text_put [OF less.prems room, folded s1_def]
    obtain s2 where s2: "(if buf_full s1 then fflush os s1 else (0, s1)) = (0, s2)" "has_text s2 (t @ take chunk buf)"
      "buf_size (strm s2) = buf_size (strm s1)" "buf_full s1 \<Longrightarrow> buf_used (strm s2) = 0" "\<not> buf_full s1 \<Longrightarrow> s2 = s1"
      using flush_if [OF p(1), of "buf_full s1"] by metis
    have nfull: "\<not> buf_full s2" using s2(3-5) has_text_size [OF s2(2)] by (cases "buf_full s1") auto
    have step: "file_write_sync_loop os s buf =
      (if chunk = 0 then if buf_full s2 then (False, s2\<lparr>fault := True\<rparr>) else file_write_sync_loop os s2 buf
       else file_write_sync_loop os s2 (drop chunk buf))"
      unfolding file_write_sync_loop.simps [of os s buf] chunk_def [symmetric] Let_def s1_def [symmetric] s2(1)
      using False nf by simp
    show ?thesis
    proof (cases "chunk = 0")
      case True
      then have "buf_full s" using used False by (cases buf) (auto simp: chunk_def min_def split: if_splits)
      then have "2 * length buf + (if buf_full s2 then 1 else 0) < 2 * length buf + (if buf_full s then 1 else 0)"
        using nfull by simp
      from less.hyps [OF this] s2(2) True obtain s' where "file_write_sync_loop os s2 buf = (True, s')" "has_text s' (t @ buf)"
        by auto
      then show ?thesis using True nfull unfolding step by simp
    next
      case nz: False
      then have "2 * length (drop chunk buf) + (if buf_full s2 then 1 else 0) < 2 * length buf + (if buf_full s then 1 else 0)"
        using nfull False by (cases buf) auto
      from less.hyps [OF this s2(2)] obtain s' where
        "file_write_sync_loop os s2 (drop chunk buf) = (True, s')" "has_text s' (t @ buf)" by auto
      then show ?thesis using nz unfolding step by simp
    qed
  qed
qed

lemma file_write_ok:
  assumes "has_text s t"
  shows "\<exists>s'. stdio_file_write os s buf = (Some (length buf), s') \<and> has_text s' (t @ buf)"
proof -
  have pre: "\<not> io_err (strm s)" "stdio_purge_readbuf os s = (0, s)"
  proof -
    have "rptr (strm s) = None" "\<not> io_err (strm s)" using assms by (simp_all add: has_text_def out_ok_def)
    then show "\<not> io_err (strm s)" "stdio_purge_readbuf os s = (0, s)"
      by (simp_all add: stdio_purge_readbuf_def Let_def)
  qed
  show ?thesis
  proof (cases "buf = []")
    case True
    then show ?thesis using pre assms by (simp add: stdio_file_write_def)
  next
    case False
    show ?thesis
    proof (cases "io_sync (strm s)")
      case True
      obtain s1 where s1: "file_write_sync_loop os s buf = (True, s1)" "has_text s1 (t @ buf)"
        using sync_loop_ok [OF assms] by blast
      obtain s2 where "fflush os s1 = (0, s2)" "has_text s2 (t @ buf)" using has_text_flush [OF s1(2)] by blast
      then show ?thesis using s1 True False pre by (simp add: stdio_file_write_def file_write_sync_def)
    next
      case nsync: False
      then show ?thesis
        using file_write_loop_ok [OF assms, of buf] False pre by (auto simp: stdio_file_write_def file_write_def)
    qed
  qed
qed

lemma fwrite_ok:
  assumes "has_text s t" and "length data = sz * n" and "sz * n < 2 ^ 64" and "0 < sz"
  shows "\<exists>s'. fwrite os data sz n s = (n, s') \<and> has_text s' (t @ data)"
proof (cases "n = 0")
  case True
  then show ?thesis using assms by (simp add: fwrite_def)
next
  case False
  obtain s' where "stdio_file_write os s data = (Some (length data), s')" "has_text s' (t @ data)"
    using file_write_ok [OF assms(1)] by blast
  then show ?thesis using False assms by (simp add: fwrite_def Let_def)
qed

end

sublocale sink_os \<subseteq> text_sink "stdio_file_write os" has_text
  by unfold_locales (rule file_write_ok)

section \<open>Reading\<close>

definition in_ok :: "int \<Rightarrow> 'w io \<Rightarrow> bool" where
  "in_ok d s \<longleftrightarrow>
     (\<exists>b. fbuf (strm s) = Some b \<and> length b = buf_size (strm s) \<and>
          (case rptr (strm s) of None \<Rightarrow> True | Some (p, e) \<Rightarrow> p \<le> e \<and> e \<le> length b)) \<and>
     0 < buf_size (strm s) \<and> buf_used (strm s) = 0 \<and> fd (strm s) = d \<and> \<not> io_err (strm s) \<and> \<not> fault s"

lemma no_pending_flush: "buf_used (strm s) = 0 \<Longrightarrow> stdio_flush_wbuf os s = (0, s)"
  by (simp add: stdio_flush_wbuf_def Let_def)

lemma skip_read_ok:
  assumes "in_ok d s" and "n \<le> length (buffered (strm s))"
  shows "in_ok d (skip_read n s)" and "buffered (strm (skip_read n s)) = drop n (buffered (strm s))"
    and "world (skip_read n s) = world s" and "io_eof (strm (skip_read n s)) = io_eof (strm s)"
proof -
  obtain b where b: "fbuf (strm s) = Some b" "length b = buf_size (strm s)"
    "case rptr (strm s) of None \<Rightarrow> True | Some (p, e) \<Rightarrow> p \<le> e \<and> e \<le> length b"
    using assms(1) by (auto simp: in_ok_def)
  show "world (skip_read n s) = world s" "io_eof (strm (skip_read n s)) = io_eof (strm s)"
    by (simp_all add: skip_read_def)
  show "in_ok d (skip_read n s)" "buffered (strm (skip_read n s)) = drop n (buffered (strm s))"
    using assms b by (auto simp: in_ok_def skip_read_def buffered_def add.commute split: option.splits prod.splits)
qed

lemma fill_buf_ok:
  assumes "in_ok d s" and "length x \<le> buf_size (strm s)"
  shows "in_ok d (fill_buf x s)" and "buffered (strm (fill_buf x s)) = x"
    and "world (fill_buf x s) = world s" and "io_eof (strm (fill_buf x s)) = io_eof (strm s)"
    and "buf_size (strm (fill_buf x s)) = buf_size (strm s)"
  using assms by (auto simp: in_ok_def fill_buf_def buffered_def Let_def)

context source_os
begin

text \<open>A readable stream with \<open>u\<close> still to come; the end-of-file mark is only set at the end.\<close>

definition has_input :: "'w io \<Rightarrow> string \<Rightarrow> bool" where
  "has_input s u \<longleftrightarrow> in_ok d s \<and> good (world s) \<and> buffered (strm s) @ rest (world s) = u \<and>
     (io_eof (strm s) \<longrightarrow> u = [])"

lemma has_input_skip:
  assumes "has_input s u" and "n \<le> length (buffered (strm s))"
  shows "has_input (skip_read n s) (drop n u)"
  using assms skip_read_ok [of d s n] by (auto simp: has_input_def)

text \<open>Reading into the empty buffer changes nothing of what is to come.\<close>

lemma has_input_fill:
  assumes h: "has_input s u" and e: "buffered (strm s) = []"
    and r: "os_read os (world s) (fd (strm s)) (buf_size (strm s)) = (x, w)"
  shows "u = [] \<Longrightarrow> x = Some [] \<and> has_input (set_eof (s\<lparr>world := w\<rparr>)) []"
    and "u \<noteq> [] \<Longrightarrow> \<exists>y. x = Some y \<and> y \<noteq> [] \<and> has_input (fill_buf y (s\<lparr>world := w\<rparr>)) u \<and>
           buffered (strm (fill_buf y (s\<lparr>world := w\<rparr>))) = y"
proof -
  have i: "in_ok d s" "good (world s)" "rest (world s) = u" "0 < buf_size (strm s)" "fd (strm s) = d"
    using h e by (auto simp: has_input_def in_ok_def)
  obtain y where y: "x = Some y" "length y \<le> buf_size (strm s)" "u = y @ rest w" "y = [] \<longrightarrow> u = []" "good w"
    using read_ok [OF i(2) i(4) r [unfolded i(5)]] unfolding i(3) by blast
  have iw: "in_ok d (s\<lparr>world := w\<rparr>)" using i(1) by (simp add: in_ok_def)
  show "u = [] \<Longrightarrow> x = Some [] \<and> has_input (set_eof (s\<lparr>world := w\<rparr>)) []"
  proof -
    assume u: "u = []"
    have "in_ok d (set_eof (s\<lparr>world := w\<rparr>))" using i(1) by (simp add: in_ok_def)
    moreover have "buffered (strm (set_eof (s\<lparr>world := w\<rparr>))) = []" using e by (simp add: buffered_def)
    ultimately show ?thesis using y u by (simp add: has_input_def)
  qed
  show "u \<noteq> [] \<Longrightarrow> \<exists>y. x = Some y \<and> y \<noteq> [] \<and> has_input (fill_buf y (s\<lparr>world := w\<rparr>)) u \<and>
      buffered (strm (fill_buf y (s\<lparr>world := w\<rparr>))) = y"
  proof -
    assume u: "u \<noteq> []"
    have f: "in_ok d (fill_buf y (s\<lparr>world := w\<rparr>))" "buffered (strm (fill_buf y (s\<lparr>world := w\<rparr>))) = y"
      "world (fill_buf y (s\<lparr>world := w\<rparr>)) = w" "io_eof (strm (fill_buf y (s\<lparr>world := w\<rparr>))) = io_eof (strm s)"
      using fill_buf_ok [OF iw, of y] y(2) by simp_all
    have "\<not> io_eof (strm s)" using h u by (auto simp: has_input_def)
    then have "has_input (fill_buf y (s\<lparr>world := w\<rparr>)) u" using f y by (simp add: has_input_def)
    then show ?thesis using f y u by blast
  qed
qed

lemma has_input_buf:
  "has_input s u \<Longrightarrow> \<not> unbuffered s \<and> buf_used (strm s) = 0 \<and> \<not> io_err (strm s) \<and> \<not> fault s"
  by (auto simp: has_input_def in_ok_def)

lemma fgetc_ok:
  assumes h: "has_input s u"
  shows "u = [] \<Longrightarrow> \<exists>s'. fgetc os s = (EOF, s') \<and> has_input s' []"
    and "u = c # cs \<Longrightarrow> \<exists>s'. fgetc os s = (of_char c, s') \<and> has_input s' cs"
proof -
  note b = has_input_buf [OF h]
  then obtain b0 where b0: "fbuf (strm s) = Some b0" "buf_size (strm s) \<noteq> 0" by auto
  have fl: "stdio_flush_wbuf os s = (0, s)" using b by (simp add: no_pending_flush)
  obtain x w where r: "os_read os (world s) (fd (strm s)) (buf_size (strm s)) = (x, w)" by force
  note f = has_input_fill [OF h _ r]
  {
    assume u: "u = []"
    then have e: "buffered (strm s) = []" using h by (simp add: has_input_def)
    show "\<exists>s'. fgetc os s = (EOF, s') \<and> has_input s' []"
      using f(1) [OF e u] b b0 fl e r h u by (auto simp: fgetc_def)
  next
    assume u: "u = c # cs"
    show "\<exists>s'. fgetc os s = (of_char c, s') \<and> has_input s' cs"
    proof (cases "buffered (strm s)")
      case Nil
      from f(2) [OF Nil] u obtain y where y: "x = Some y" "y \<noteq> []"
        "has_input (fill_buf y (s\<lparr>world := w\<rparr>)) u" "buffered (strm (fill_buf y (s\<lparr>world := w\<rparr>))) = y" by blast
      obtain c' y' where yc: "y = c' # y'" using y(2) by (cases y) auto
      have "c' = c" using y(3,4) u yc by (auto simp: has_input_def)
      moreover have "\<not> io_eof (strm s)" using h u by (auto simp: has_input_def)
      moreover have "has_input (skip_read 1 (fill_buf y (s\<lparr>world := w\<rparr>))) cs"
        using has_input_skip [OF y(3), of 1] y(4) u yc by simp
      ultimately show ?thesis using b b0 fl Nil r y(1) yc by (simp add: fgetc_def)
    next
      case (Cons c' y')
      then have "c' = c" using h u by (simp add: has_input_def)
      moreover have "has_input (skip_read 1 s) cs" using has_input_skip [OF h, of 1] Cons u by simp
      ultimately show ?thesis using b fl Cons by (simp add: fgetc_def)
    qed
  }
qed

end

lemma of_char_10: "of_char c = (10 :: int) \<longleftrightarrow> c = CHR 0x0A"
proof -
  have "(10 :: int) = of_char (CHR 0x0A)" by simp
  then show ?thesis by (metis of_char_eq_iff)
qed

lemma of_char_int: "(of_char c :: int) = int (of_char c)"
  using of_nat_of_char [of c, where 'a = int] by (rule sym)

lemma char_of_nat_of_char: "char_of (nat (of_char c)) = (c :: char)"
  by (metis char_of_char nat_int of_char_int)

lemma of_char_not_EOF: "of_char c \<noteq> EOF"
  using of_char_int [of c] by (simp add: EOF_def)

text \<open>A line in at most \<open>n\<close> characters, its newline included.\<close>

fun line_upto :: "nat \<Rightarrow> string \<Rightarrow> string" where
  "line_upto 0 u = []"
| "line_upto (Suc n) [] = []"
| "line_upto (Suc n) (c # u) = (if c = CHR 0x0A then [c] else c # line_upto n u)"

text \<open>A line with the delimiter that ends it, or all that is left.\<close>

fun line_delim :: "char \<Rightarrow> string \<Rightarrow> string" where
  "line_delim x [] = []"
| "line_delim x (c # u) = (if c = x then [c] else c # line_delim x u)"

context source_os
begin

lemma fgets_loop_ok:
  "has_input s u \<Longrightarrow> acc \<noteq> [] \<or> u \<noteq> [] \<or> n = 0 \<Longrightarrow>
   \<exists>s'. fgets_loop os n acc s = (Some (acc @ line_upto n u), s') \<and> has_input s' (drop (length (line_upto n u)) u)"
proof (induction n arbitrary: acc s u)
  case (Suc n)
  show ?case
  proof (cases u)
    case Nil
    obtain s' where s': "fgetc os s = (EOF, s')" "has_input s' []" using fgetc_ok(1) [OF Suc.prems(1) Nil] by blast
    then have "\<not> ferror s'" using has_input_buf [OF s'(2)] by (simp add: ferror_def)
    then show ?thesis using s' Suc.prems Nil by simp
  next
    case (Cons c cs)
    obtain s' where s': "fgetc os s = (of_char c, s')" "has_input s' cs" using fgetc_ok(2) [OF Suc.prems(1) Cons] by blast
    show ?thesis
    proof (cases "c = CHR 0x0A")
      case True
      then show ?thesis
        using s' Cons of_char_not_EOF [of c] of_char_10 [of c] char_of_nat_of_char [of c] by (simp add: Let_def)
    next
      case False
      from Suc.IH [OF s'(2), of "acc @ [c]"] obtain s'' where
        "fgets_loop os n (acc @ [c]) s' = (Some ((acc @ [c]) @ line_upto n cs), s'')"
        "has_input s'' (drop (length (line_upto n cs)) cs)" by blast
      then show ?thesis
        using s' Cons False of_char_not_EOF [of c] of_char_10 [of c] char_of_nat_of_char [of c] by (simp add: Let_def)
    qed
  qed
qed simp

lemma fread_loop_ok:
  "has_input s u \<Longrightarrow>
   \<exists>s'. fread_loop os n s acc = (acc @ take n u, s') \<and> has_input s' (drop n u)"
proof (induction "2 * n + (if buffered (strm s) = [] then 1 else 0)" arbitrary: n s u acc rule: less_induct)
  case less
  note b = has_input_buf [OF less.prems]
  then obtain b0 where b0: "fbuf (strm s) = Some b0" "buf_size (strm s) \<noteq> 0" by auto
  show ?case
  proof (cases "n = 0")
    case True
    then show ?thesis using less.prems by (simp add: fread_loop.simps)
  next
    case False
    define B where "B = buffered (strm s)"
    define chunk where "chunk = take n B"
    define s1 where "s1 = skip_read (length chunk) s"
    define u1 where "u1 = drop (length chunk) u"
    obtain R where u: "u = B @ R" using less.prems by (auto simp: has_input_def B_def)
    have h1: "has_input s1 u1" unfolding s1_def u1_def
      by (rule has_input_skip [OF less.prems]) (simp add: chunk_def B_def)
    obtain b1 where ub0: "fbuf (strm s1) = Some b1" "buf_size (strm s1) \<noteq> 0" using has_input_buf [OF h1] by auto
    have nf: "\<not> fault s" using b by simp
    have tk: "take n u = chunk @ take (n - length chunk) u1" "drop n u = drop (n - length chunk) u1"
      by (auto simp: u chunk_def u1_def min_def)
    show ?thesis
    proof (cases "n - length chunk = 0")
      case True
      then have "fread_loop os n s acc = (acc @ chunk, s1)"
        using False nf
        by (subst fread_loop.simps) (simp add: Let_def B_def [symmetric] chunk_def [symmetric] s1_def [symmetric])
      then show ?thesis using h1 True tk by auto
    next
      case nz: False
      have e1: "buffered (strm s1) = []"
      proof -
        have "chunk = B" using nz by (simp add: chunk_def min_def split: if_splits)
        then show ?thesis
          using skip_read_ok(2) [of d s "length chunk"] less.prems by (simp add: s1_def B_def has_input_def)
      qed
      obtain x w where r: "os_read os (world s1) (fd (strm s1)) (buf_size (strm s1)) = (x, w)" by force
      have step: "fread_loop os n s acc =
        (case x of None \<Rightarrow> (acc @ chunk, set_err (s1\<lparr>world := w\<rparr>))
         | Some y \<Rightarrow> if y = [] then (acc @ chunk, set_eof (s1\<lparr>world := w\<rparr>))
                    else fread_loop os (n - length chunk) (fill_buf y (s1\<lparr>world := w\<rparr>)) (acc @ chunk))"
        unfolding fread_loop.simps [of os n s acc] B_def [symmetric] chunk_def [symmetric] Let_def s1_def [symmetric]
        using False nf nz ub0 r by (simp split: option.split)
      show ?thesis
      proof (cases "u1 = []")
        case True
        then show ?thesis using has_input_fill(1) [OF h1 e1 r] step tk by simp
      next
        case ne: False
        from has_input_fill(2) [OF h1 e1 r ne] obtain y where y: "x = Some y" "y \<noteq> []"
          "has_input (fill_buf y (s1\<lparr>world := w\<rparr>)) u1" "buffered (strm (fill_buf y (s1\<lparr>world := w\<rparr>))) = y" by blast
        have "2 * (n - length chunk) + (if buffered (strm (fill_buf y (s1\<lparr>world := w\<rparr>))) = [] then 1 else 0)
            < 2 * n + (if buffered (strm s) = [] then 1 else 0)"
          using y(2,4) nz by (cases "B = []") (auto simp: chunk_def B_def min_def)
        from less.hyps [OF this y(3), of "acc @ chunk"] show ?thesis using step y tk by simp
      qed
    qed
  qed
qed

lemma fread_ok:
  assumes "has_input s u" and "0 < sz" and "0 < n" and "sz * n < 2 ^ 64"
  shows "\<exists>s'. fread os sz n s = ((length (take (sz * n) u) div sz, take (sz * n) u), s') \<and> has_input s' (drop (sz * n) u)"
proof -
  note b = has_input_buf [OF assms(1)]
  have "stdio_flush_wbuf os s = (0, s)" using b by (simp add: no_pending_flush)
  moreover obtain s' where "fread_loop os (sz * n) s [] = (take (sz * n) u, s')" "has_input s' (drop (sz * n) u)"
    using fread_loop_ok [OF assms(1), of "sz * n" "[]"] by auto
  ultimately show ?thesis using b assms(2-4) by (simp add: fread_def)
qed

lemma getdelim_loop_ok:
  "has_input s u \<Longrightarrow> acc \<noteq> [] \<or> u \<noteq> [] \<Longrightarrow> length u < fuel \<Longrightarrow>
   \<exists>s' cap'. getdelim_loop os (\<lambda>_. True) x fuel cap acc s = (Line cap' (acc @ line_delim x u), s') \<and>
     length (acc @ line_delim x u) < cap' \<and> has_input s' (drop (length (line_delim x u)) u)"
proof (induction fuel arbitrary: acc s u cap)
  case (Suc fuel)
  define ncap where "ncap = grow_cap cap (length acc)"
  have cap: "length acc + 2 \<le> ncap" by (auto simp: ncap_def grow_cap_def Let_def)
  obtain s' where s': "fread os 1 1 s = ((length (take 1 u), take 1 u), s')" "has_input s' (drop 1 u)"
    using fread_ok [OF Suc.prems(1), of 1 1] by auto
  have ne: "\<not> ferror s'" using has_input_buf [OF s'(2)] by (simp add: ferror_def)
  show ?case
  proof (cases u)
    case Nil
    then show ?thesis using s' ne Suc.prems(2) cap by (simp add: Let_def ncap_def [symmetric])
  next
    case (Cons c cs)
    show ?thesis
    proof (cases "c = x")
      case True
      then show ?thesis using s' Cons cap by (simp add: Let_def ncap_def [symmetric])
    next
      case False
      from Suc.IH [of s' cs "acc @ [c]" ncap] s' Cons Suc.prems(3) obtain s'' cap' where
        "getdelim_loop os (\<lambda>_. True) x fuel ncap (acc @ [c]) s' = (Line cap' ((acc @ [c]) @ line_delim x cs), s'')"
        "length ((acc @ [c]) @ line_delim x cs) < cap'" "has_input s'' (drop (length (line_delim x cs)) cs)" by auto
      then show ?thesis using s' Cons False by (simp add: Let_def ncap_def [symmetric])
    qed
  qed
qed simp

end

section \<open>Properties\<close>

fun fwrite_all :: "'w os \<Rightarrow> string list \<Rightarrow> 'w io \<Rightarrow> 'w io" where
  "fwrite_all os [] s = s"
| "fwrite_all os (x # xs) s = fwrite_all os xs (snd (fwrite os x 1 (length x) s))"

context sink_os
begin

lemma fwrite_all_ok:
  "has_text s t \<Longrightarrow> \<forall>x \<in> set xs. length x < 2 ^ 64 \<Longrightarrow> has_text (fwrite_all os xs s) (t @ concat xs)"
proof (induction xs arbitrary: s t)
  case (Cons x xs)
  obtain s' where "fwrite os x 1 (length x) s = (length x, s')" "has_text s' (t @ x)"
    using fwrite_ok [OF Cons.prems(1), of x 1 "length x"] Cons.prems(2) by auto
  then show ?case using Cons.IH [of s' "t @ x"] Cons.prems(2) by simp
qed simp

text \<open>Formatting to the stream.\<close>

lemma printf_ok:
  assumes h: "has_text s t" and f: "format_text str f ap = Some (ok, txt)"
  shows "\<exists>c. printf_loop (stdio_file_write os) str \<lparr>stream = s, cnt = 0, stores = []\<rparr> f ap = Some (ok, c) \<and>
     has_text (stream c) (t @ txt) \<and> cnt c = length txt"
proof -
  let ?rep = "\<lambda>s x. has_text s (t @ x)"
  let ?c = "\<lparr>stream = s, cnt = 0, stores = []\<rparr>" and ?t = "\<lparr>stream = [], cnt = 0, stores = []\<rparr> :: string fmt_context"
  have sink: "text_sink (stdio_file_write os) ?rep"
    by (rule text_sink.intro) (metis file_write_ok append_assoc)
  obtain x where x: "printf_loop text_write str ?t f ap = Some (ok, x)" "stream x = txt"
    using f by (auto simp: format_text_def)
  have "text_sink.crel ?rep ?c ?t" using h by (simp add: text_sink.crel_def [OF sink])
  from text_sink.printf_rel [OF sink this, of str f ap] x obtain c where c:
    "printf_loop (stdio_file_write os) str ?c f ap = Some (ok, c)" "text_sink.crel ?rep c x"
    by (auto simp: option_rel_Some2 rel_prod_sel)
  moreover have "cnt x = length txt" using printf_counts [OF _ x(1)] x(2) by simp
  ultimately show ?thesis using x(2) by (auto simp: text_sink.crel_def [OF sink])
qed

end

text \<open>
  C7. Whatever the kernel takes per \<open>write\<close>, any sequence of \<open>fwrite\<close> calls on a stream followed
  by \<open>fflush\<close> succeeds and delivers exactly the characters written, in order, after those
  already sent; no store goes outside of the stream's buffer and no loop fails to end.
\<close>

theorem fwrite_order:
  assumes "sink_os os d sent good" and "out_ok d s" and "good (world s)" and "buf_used (strm s) = 0"
    and "\<forall>x \<in> set xs. length x < 2 ^ 64"
  shows "\<exists>s'. fflush os (fwrite_all os xs s) = (0, s') \<and> sent (world s') = sent (world s) @ concat xs \<and> \<not> fault s'"
proof -
  have h: "sink_os.has_text d sent good s (sent (world s))"
    using assms(2-4)
    by (auto simp: sink_os.has_text_def [OF assms(1)] sink_os.written_def [OF assms(1)] pending_def split: option.split)
  have "sink_os.has_text d sent good (fwrite_all os xs s) (sent (world s) @ concat xs)"
    using sink_os.fwrite_all_ok [OF assms(1) h] assms(5) by blast
  from sink_os.has_text_flush [OF assms(1) this] show ?thesis
    by (auto simp: sink_os.has_text_def [OF assms(1)] out_ok_def)
qed

text \<open>A new stream on descriptor 1 and an empty file.\<close>

definition io_new :: "bool \<Rightarrow> (string \<times> nat) io" where
  "io_new sync = \<lparr>strm = new_file 1 (replicate 1024 CHR ''?'') sync, world = ([], 0), fault = False\<rparr>"

lemma io_new_ok: "out_ok 1 (io_new b)" "file_good (world (io_new b))" "buf_used (strm (io_new b)) = 0"
  by (simp_all add: out_ok_def io_new_def new_file_def file_good_def)

theorem fwrite_order_witness:
  "\<exists>s'. fflush file_os (fwrite_all file_os [''ab'', [], ''c''] (io_new False)) = (0, s') \<and>
     file_sent (world s') = file_sent (world (io_new False)) @ concat [''ab'', [], ''c''] \<and> \<not> fault s'"
  by (rule fwrite_order [OF fsink.sink_os_axioms io_new_ok]) simp

text \<open>
  C8. \<open>fprintf\<close> to a stream, buffered or synchronous, delivers exactly the text that formatting
  yields, and returns its length.
\<close>

theorem fprintf_delivers:
  assumes "sink_os os d sent good" and "out_ok d s" and "good (world s)" and "buf_used (strm s) = 0"
    and f: "format_text str format ap = Some (True, txt)" and "length txt < 2 ^ 31"
  shows "\<exists>s1 s2. fprintf os str format ap s = Some (int (length txt), s1) \<and> fflush os s1 = (0, s2) \<and>
           sent (world s2) = sent (world s) @ txt"
proof -
  have h: "sink_os.has_text d sent good s (sent (world s))"
    using assms(2-4)
    by (auto simp: sink_os.has_text_def [OF assms(1)] sink_os.written_def [OF assms(1)] pending_def split: option.split)
  obtain c where c: "printf_loop (stdio_file_write os) str \<lparr>stream = s, cnt = 0, stores = []\<rparr> format ap = Some (True, c)"
    "sink_os.has_text d sent good (stream c) (sent (world s) @ txt)" "cnt c = length txt"
    using sink_os.printf_ok [OF assms(1) h f] by blast
  have n: "sint (of_nat (length txt) :: 32 word) = int (length txt)"
    using assms(6) by (simp add: sint_eq_if unsigned_of_nat take_bit_nat_eq_self)
  have "fprintf os str format ap s = Some (int (length txt), stream c)"
    using c n by (simp add: fprintf_def vfprintf_def printf_core_def)
  then show ?thesis using sink_os.has_text_flush [OF assms(1) c(2)] by blast
qed

theorem fprintf_delivers_witness:
  "\<exists>s1 s2. fprintf file_os (\<lambda>_. ''you'') ''hi %s!'' [1] (io_new True) = Some (int (length ''hi you!''), s1) \<and>
     fflush file_os s1 = (0, s2) \<and> file_sent (world s2) = file_sent (world (io_new True)) @ ''hi you!''"
  by (rule fprintf_delivers [OF fsink.sink_os_axioms io_new_ok]) (simp_all add: fmt_simps neg_arg_def)

text \<open>
  C9. \<open>fgets\<close> with a size \<open>n > 1\<close> returns the next line with its newline, cut at \<open>n - 1\<close>
  characters, and leaves exactly the rest to be read; at the end of the input it returns a
  null pointer. The sizes of the kernel's transfers and of the buffer have no influence.
\<close>

theorem fgets_lines:
  assumes "source_os os d rest good" and "in_ok d s" and "good (world s)" and "\<not> io_eof (strm s)"
    and u: "u = buffered (strm s) @ rest (world s)" and n: "1 < n"
  shows "\<exists>s'. fgets os n s = (if u = [] then None else Some (line_upto (nat (n - 1)) u), s') \<and>
           buffered (strm s') @ rest (world s') = drop (length (line_upto (nat (n - 1)) u)) u \<and> \<not> fault s'"
proof -
  have h: "source_os.has_input d rest good s u"
    using assms(2-5) by (simp add: source_os.has_input_def [OF assms(1)])
  obtain m where m: "nat (n - 1) = Suc m" using n by (cases "nat (n - 1)") auto
  show ?thesis
  proof (cases "u = []")
    case True
    obtain s' where s': "fgetc os s = (EOF, s')" "source_os.has_input d rest good s' []"
      using source_os.fgetc_ok(1) [OF assms(1) h True] by blast
    then have "\<not> ferror s'" "\<not> fault s'"
      using source_os.has_input_buf [OF assms(1) s'(2)] by (simp_all add: ferror_def)
    moreover have "buffered (strm s') @ rest (world s') = []"
      using s'(2) by (simp add: source_os.has_input_def [OF assms(1)])
    ultimately show ?thesis using True n m s'(1) by (simp add: fgets_def)
  next
    case False
    obtain s' where s': "fgets_loop os (nat (n - 1)) [] s = (Some (line_upto (nat (n - 1)) u), s')"
      "source_os.has_input d rest good s' (drop (length (line_upto (nat (n - 1)) u)) u)"
      using source_os.fgets_loop_ok [OF assms(1) h, of "[]" "nat (n - 1)"] False by auto
    then show ?thesis
      using False n source_os.has_input_buf [OF assms(1) s'(2)]
      by (auto simp: fgets_def source_os.has_input_def [OF assms(1)])
  qed
qed

text \<open>A new stream on a file that holds a text.\<close>

definition io_on :: "string \<Rightarrow> (string \<times> nat) io" where
  "io_on t = \<lparr>strm = new_file 0 (replicate 1024 CHR ''?'') False, world = (t, 0), fault = False\<rparr>"

lemma io_on_ok:
  "in_ok 0 (io_on t)" "file_good (world (io_on t))" "\<not> io_eof (strm (io_on t))"
  "t = buffered (strm (io_on t)) @ file_rest (world (io_on t))"
  by (simp_all add: in_ok_def io_on_def new_file_def file_good_def buffered_def file_rest_def)

theorem fgets_lines_witness:
  "\<exists>s'. fgets file_os 80 (io_on ''ab\<newline>c'') =
       (if ''ab\<newline>c'' = [] then None else Some (line_upto (nat (80 - 1)) ''ab\<newline>c''), s') \<and>
     buffered (strm s') @ file_rest (world s') = drop (length (line_upto (nat (80 - 1)) ''ab\<newline>c'')) ''ab\<newline>c'' \<and> \<not> fault s'"
  by (rule fgets_lines [OF fsource.source_os_axioms io_on_ok]) simp

text \<open>
  C10. \<open>getdelim\<close> returns the characters up to and with the delimiter (or all that are left) for
  input of any length, in a buffer that has room for the terminating NUL, and leaves exactly the
  rest; fuel beyond the length of the input suffices.
\<close>

theorem getdelim_line:
  assumes "source_os os d rest good" and "in_ok d s" and "good (world s)" and "\<not> io_eof (strm s)"
    and u: "u = buffered (strm s) @ rest (world s)" and "u \<noteq> []" and "length u < fuel"
  shows "\<exists>s' cap'. getdelim os (\<lambda>_. True) fuel cap x s = (Line cap' (line_delim x u), s') \<and>
           length (line_delim x u) < cap' \<and>
           buffered (strm s') @ rest (world s') = drop (length (line_delim x u)) u"
proof -
  have h: "source_os.has_input d rest good s u"
    using assms(2-5) by (simp add: source_os.has_input_def [OF assms(1)])
  from source_os.getdelim_loop_ok [OF assms(1) h, of "[]" fuel x "case cap of None \<Rightarrow> 0 | Some n \<Rightarrow> n"] assms(6,7)
  show ?thesis by (auto simp: getdelim_def source_os.has_input_def [OF assms(1)])
qed

theorem getdelim_line_witness:
  "\<exists>s' cap'. getdelim file_os (\<lambda>_. True) 10 None CHR '':'' (io_on ''ab:c'') = (Line cap' (line_delim CHR '':'' ''ab:c''), s') \<and>
     length (line_delim CHR '':'' ''ab:c'') < cap' \<and>
     buffered (strm s') @ file_rest (world s') = drop (length (line_delim CHR '':'' ''ab:c'')) ''ab:c''"
  by (rule getdelim_line [OF fsource.source_os_axioms io_on_ok]) simp_all

text \<open>
  C11. What \<open>fwrite\<close> stores in an empty file, \<open>fread\<close> returns after \<open>rewind\<close>: the buffer is
  flushed, the position set back, and the file read again through the same buffer.
\<close>

theorem write_rewind_read:
  assumes len: "length data < 2 ^ 64" and ne: "data \<noteq> []"
  shows "\<exists>s'. fread file_os 1 (length data) (rewind file_os (snd (fwrite file_os data 1 (length data) (io_new b)))) =
          ((length data, data), s')"
proof -
  have h0: "fsink.has_text (io_new b) []"
    using io_new_ok by (auto simp: fsink.has_text_def fsink.written_def pending_def io_new_def new_file_def file_sent_def)
  obtain s1 where s1: "fwrite file_os data 1 (length data) (io_new b) = (length data, s1)" "fsink.has_text s1 data"
    using fsink.fwrite_ok [OF h0, of data 1 "length data"] len by auto
  have hc: "fsink.has_text (clearerr s1) data"
    using s1(2) by (cases "fbuf (strm s1)") (simp_all add: fsink.has_text_def fsink.written_def out_ok_def clearerr_def pending_def)
  obtain s2 where s2: "fflush file_os (clearerr s1) = (0, s2)" "fsink.has_text s2 data" "buf_used (strm s2) = 0"
    "file_sent (world s2) = data" using fsink.has_text_flush [OF hc] by blast
  obtain c p where w: "world s2 = (c, p)" by (cases "world s2")
  have ok: "out_ok 1 s2" "p \<le> length c" using s2(2) w by (auto simp: fsink.has_text_def file_good_def)
  have c: "take (length data) c = data" using s2(4) w ok(2) by (auto simp: file_sent_def min_def)
  define s3 where "s3 = upd_strm (\<lambda>f. f\<lparr>io_eof := False\<rparr>) (s2\<lparr>world := (c, 0)\<rparr>)"
  have fd1: "fd (strm (clearerr s1)) = 1" "fd (strm s2) = 1"
    using hc ok(1) by (simp_all add: fsink.has_text_def out_ok_def)
  have rw: "rewind file_os s1 = s3"
    using s2(1) w fd1 by (simp add: rewind_def fseek_def file_os_def Let_def s3_def SEEK_SET_def)
  have "in_ok 1 s3" using ok(1) s2(3) by (auto simp: in_ok_def out_ok_def s3_def)
  moreover have "buffered (strm s3) = []" using ok(1) by (simp add: buffered_def out_ok_def s3_def)
  ultimately have "source_os.has_input 1 file_rest file_good s3 c"
    by (simp add: fsource.has_input_def s3_def file_good_def file_rest_def)
  from fsource.fread_ok [OF this, of 1 "length data"] show ?thesis using s1(1) rw c len ne by auto
qed

theorem write_rewind_read_witness:
  "\<exists>s'. fread file_os 1 (length ''data'') (rewind file_os (snd (fwrite file_os ''data'' 1 (length ''data'') (io_new False)))) =
     ((length ''data'', ''data''), s')"
  by (rule write_rewind_read) simp_all

end
