(* ===== verification/Convert.thy ===== *)
theory Convert
  imports Numconv Printf
begin

text \<open>Printing and reading of numbers, \<open>snprintf\<close> against \<open>atoi\<close>.\<close>

lemma digit_byte:
  assumes "k < 10"
  shows "isdigit (c_char (chr (lower_digits ! k)))" "uint (chr (lower_digits ! k)) = 48 + int k"
    "\<not> isspace (c_char (chr (lower_digits ! k)))" "chr (lower_digits ! k) \<noteq> chr CHR ''+''" "chr (lower_digits ! k) \<noteq> chr CHR ''-''"
proof -
  have "k \<in> set [0..<10]" using assms by simp
  then have "k = 0 \<or> k = 1 \<or> k = 2 \<or> k = 3 \<or> k = 4 \<or> k = 5 \<or> k = 6 \<or> k = 7 \<or> k = 8 \<or> k = 9"
    by (auto simp: upt_rec)
  then show "isdigit (c_char (chr (lower_digits ! k)))" "uint (chr (lower_digits ! k)) = 48 + int k"
    "\<not> isspace (c_char (chr (lower_digits ! k)))" "chr (lower_digits ! k) \<noteq> chr CHR ''+''" "chr (lower_digits ! k) \<noteq> chr CHR ''-''"
    by (elim disjE; simp add: lower_digits_def isdigit_iff isspace_def)+
qed

lemma ato_dec:
  "n < 2 ^ 31 \<Longrightarrow> ato_digits 32 (bytes (dec n) @ r) 0 = ato_digits 32 r (int n)"
proof (induction n arbitrary: r rule: less_induct)
  case (less n)
  have step: "ato_digits 32 (chr (lower_digits ! k) # r) (int m) = ato_digits 32 r (int (m * 10 + k))"
    if "k < 10" "m * 10 + k < 2 ^ 31" for m k
    using digit_byte [OF that(1)] that by (simp add: ck_signed_def)
  show ?case
  proof (cases "n < 10")
    case True
    then show ?thesis using step [of n 0] by (subst dec_rec) simp
  next
    case False
    have "n div 10 < n" "n div 10 < 2 ^ 31" using False less.prems by simp_all
    from less.IH [OF this] show ?thesis
      using False step [of "n mod 10" "n div 10"] less.prems by (subst dec_rec) simp
  qed
qed

text \<open>The text of an \<open>int\<close> in decimal.\<close>

definition int_text :: "int \<Rightarrow> string" where
  "int_text i = (if i < 0 then ''-'' else []) @ dec (nat \<bar>i\<bar>)"

lemma dec_Cons: "\<exists>k<10. \<exists>ds. dec n = lower_digits ! k # ds"
proof (induction n rule: less_induct)
  case (less n)
  show ?case
  proof (cases "n < 10")
    case False
    then obtain k ds where "k < 10" "dec (n div 10) = lower_digits ! k # ds" using less.IH [of "n div 10"] by auto
    then show ?thesis using False by (subst dec_rec) auto
  qed (subst dec_rec, auto)
qed

lemma atoi_int_text:
  assumes "- (2 ^ 31) < i" "i < 2 ^ 31"
  shows "atoi (bytes (int_text i) @ 0 # r) = Some i"
proof -
  have n: "nat \<bar>i\<bar> < 2 ^ 31" using assms by (simp add: nat_less_iff)
  obtain k ds where k: "k < 10" "dec (nat \<bar>i\<bar>) = lower_digits ! k # ds" using dec_Cons by blast
  have d: "ato_digits 32 (bytes (dec (nat \<bar>i\<bar>)) @ 0 # r) 0 = Some \<bar>i\<bar>"
    using ato_dec [OF n, of "0 # r"] by (simp add: isdigit_iff)
  show ?thesis
  proof (cases "i < 0")
    case True
    then show ?thesis using d assms by (simp add: atoi_def ato_w_def int_text_def isspace_def ck_signed_def)
  next
    case False
    then show ?thesis using d k digit_byte(3-5) [OF k(1)] by (simp add: atoi_def ato_w_def int_text_def)
  qed
qed

lemma int_text_length:
  assumes "- (2 ^ 31) < i" "i < 2 ^ 31"
  shows "length (int_text i) \<le> 11"
proof -
  have "n < 10 ^ Suc k \<Longrightarrow> length (dec n) \<le> Suc k" for n k
  proof (induction k arbitrary: n)
    case (Suc k)
    then have "n div 10 < 10 ^ Suc k" by (simp add: div_less_iff_less_mult mult.commute)
    from Suc.IH [OF this] show ?case by (subst dec_rec) simp
  qed (subst dec_rec, simp)
  moreover have "nat \<bar>i\<bar> < 10 ^ Suc 9" using assms by (simp add: nat_less_iff)
  ultimately have "length (dec (nat \<bar>i\<bar>)) \<le> 10" by fastforce
  then show ?thesis by (cases "i < 0") (simp_all add: int_text_def)
qed

text \<open>
  What \<open>snprintf\<close> prints for \<open>%d\<close> into a buffer of at least 12 characters, \<open>atoi\<close> reads
  back as the same number, for every \<open>int\<close> but the smallest, whatever follows in the buffer.
\<close>

theorem print_atoi_roundtrip:
  assumes "- (2 ^ 31) < i" "i < 2 ^ 31" "12 \<le> sz" "sz \<le> length b"
  shows "\<exists>n r. snprintf str (Some b) sz ''%d'' [slot i] = Some (n, Some r) \<and> atoi (bytes r) = Some i"
proof -
  have f: "format_text str ''%d'' [slot i] = Some (True, int_text i)"
    using format_d_int [OF assms(1,2)] by (simp add: int_text_def)
  note l = int_text_length [OF assms(1,2)]
  have "snprintf str (Some b) sz ''%d'' [slot i] =
      Some (int (length (int_text i)), Some (int_text i @ CHR 0x00 # drop (length (int_text i) + 1) b))"
    using snprintf_buffer [OF _ assms(4) f] assms(3) l by (simp add: min_def)
  then show ?thesis using atoi_int_text [OF assms(1,2)] by simp
qed

theorem print_atoi_roundtrip_witness:
  "\<exists>n r. snprintf (\<lambda>_. []) (Some (replicate 12 CHR ''?'')) 12 ''%d'' [slot (- 40)] = Some (n, Some r) \<and>
     atoi (bytes r) = Some (- 40)"
  by (rule print_atoi_roundtrip) simp_all

end
