(* ===== verification/Pwd.thy ===== *)
theory Pwd
  imports Convert Stdio_Streams
begin

text \<open>
  The user and group databases, \<open>libbrkc/pwd\<close>: the lines of \<open>/etc/passwd\<close>, \<open>/etc/group\<close> and
  \<open>/etc/shadow\<close> and the search in them, over the streams. The line buffer, in which the code stores
  NULs over the separators, is the string up to its NUL; a field is the string that its pointer
  points to. The file is the stream that \<open>fopen\<close> gave, or a null pointer. A search ends with an
  entry, with a null pointer, or with a store outside of an array.
\<close>

section \<open>Lines\<close>

datatype 'a found = Found 'a | Missing | Overrun_array

definition PW_LINE_MAX :: int where "PW_LINE_MAX = 512"

definition GR_LINE_MAX :: int where "GR_LINE_MAX = 512"

definition SP_LINE_MAX :: int where "SP_LINE_MAX = 512"

definition NGROUPS_MAX :: nat where "NGROUPS_MAX = 32"

text \<open>The C string in a buffer.\<close>

definition c_text :: "string \<Rightarrow> string" where
  "c_text s = takeWhile (\<lambda>c. c \<noteq> CHR 0x00) s"

text \<open>\<open>strchr\<close> for a separator, the NUL that replaces it, and the string behind it.\<close>

definition cut :: "char \<Rightarrow> string \<Rightarrow> (string \<times> string) option" where
  "cut c p = (if c \<in> set p then Some (takeWhile (\<lambda>x. x \<noteq> c) p, tl (dropWhile (\<lambda>x. x \<noteq> c) p)) else None)"

text \<open>The ends of line that are removed.\<close>

function chomp :: "string \<Rightarrow> string" where
  "chomp line = (if line \<noteq> [] \<and> (last line = CHR 0x0A \<or> last line = CHR 0x0D) then chomp (butlast line) else line)"
  by pat_completeness auto
termination by (relation "measure length") auto

declare chomp.simps [simp del]

text \<open>An id: the low 32 bits of what \<open>strtoul\<close> returns.\<close>

definition parse_id :: "string \<Rightarrow> 32 word option" where
  "parse_id s = (case strtoul (bytes s @ [0]) 10 ENONE of Some (v, _, _) \<Rightarrow> Some (ucast v) | None \<Rightarrow> None)"

text \<open>
  The loop over the lines: the fuel bounds their number. \<open>parse\<close> reads an entry of a line, \<open>ok\<close>
  selects it.
\<close>

fun scan :: "'w os \<Rightarrow> int \<Rightarrow> (string \<Rightarrow> 'a found) \<Rightarrow> ('a \<Rightarrow> bool) \<Rightarrow> nat \<Rightarrow> 'w io \<Rightarrow> ('a found \<times> 'w io) option" where
  "scan os mx parse ok 0 s = None"
| "scan os mx parse ok (Suc fuel) s =
     (case fgets os mx s of
        (None, s) \<Rightarrow> Some (Missing, s)
      | (Some buf, s) \<Rightarrow>
          let line = chomp (c_text buf)
          in if line = [] \<or> hd line = CHR ''#'' then scan os mx parse ok fuel s
             else case parse line of
                    Missing \<Rightarrow> scan os mx parse ok fuel s
                  | Overrun_array \<Rightarrow> Some (Overrun_array, s)
                  | Found e \<Rightarrow> if ok e then Some (Found e, s) else scan os mx parse ok fuel s)"

text \<open>What a search returns, and the stream, which is closed.\<close>

definition lookup_entry ::
  "'w os \<Rightarrow> int \<Rightarrow> (string \<Rightarrow> 'a found) \<Rightarrow> ('a \<Rightarrow> bool) \<Rightarrow> nat \<Rightarrow> 'w io option \<Rightarrow> ('a found \<times> 'w io option) option"
where
  "lookup_entry os mx parse ok fuel fp =
     (case fp of
        None \<Rightarrow> Some (Missing, None)
      | Some s \<Rightarrow> map_option (\<lambda>(r, s). (r, Some (snd (fclose os False s)))) (scan os mx parse ok fuel s))"

section \<open>Users\<close>

record passwd =
  pw_name :: string
  pw_passwd :: string
  pw_uid :: "32 word"
  pw_gid :: "32 word"
  pw_gecos :: string
  pw_dir :: string
  pw_shell :: string

text \<open>The fields of a line, at most \<open>n\<close>.\<close>

fun split_fields :: "nat \<Rightarrow> string \<Rightarrow> string list" where
  "split_fields 0 p = []"
| "split_fields (Suc n) p =
     (case cut CHR '':'' p of
        None \<Rightarrow> [p]
      | Some (f, q) \<Rightarrow> f # split_fields n q)"

definition parse_passwd :: "string \<Rightarrow> passwd found" where
  "parse_passwd line =
     (let f = split_fields 7 line
      in if length f < 7 then Missing
         else case (parse_id (f ! 2), parse_id (f ! 3)) of
                (Some u, Some g) \<Rightarrow>
                  Found \<lparr>pw_name = f ! 0, pw_passwd = f ! 1, pw_uid = u, pw_gid = g, pw_gecos = f ! 4, pw_dir = f ! 5,
                    pw_shell = f ! 6\<rparr>
              | _ \<Rightarrow> Overrun_array)"

definition getpwnam :: "'w os \<Rightarrow> nat \<Rightarrow> 'w io option \<Rightarrow> string \<Rightarrow> (passwd found \<times> 'w io option) option" where
  "getpwnam os fuel fp name = lookup_entry os PW_LINE_MAX parse_passwd (\<lambda>p. pw_name p = name) fuel fp"

definition getpwuid :: "'w os \<Rightarrow> nat \<Rightarrow> 'w io option \<Rightarrow> 32 word \<Rightarrow> (passwd found \<times> 'w io option) option" where
  "getpwuid os fuel fp uid = lookup_entry os PW_LINE_MAX parse_passwd (\<lambda>p. pw_uid p = uid) fuel fp"

section \<open>Groups\<close>

record group =
  gr_name :: string
  gr_passwd :: string
  gr_gid :: "32 word"
  gr_mem :: "string list"

text \<open>The loop over the members, at most \<open>n\<close>.\<close>

fun members :: "nat \<Rightarrow> string \<Rightarrow> string list" where
  "members 0 p = []"
| "members (Suc n) p =
     (if p = [] then []
      else case cut CHR '','' p of
             None \<Rightarrow> [p]
           | Some (m, q) \<Rightarrow> m # members n q)"

text \<open>The null pointer behind the members has no place in a full array.\<close>

definition parse_group :: "string \<Rightarrow> group found" where
  "parse_group line =
     (case cut CHR '':'' line of
        None \<Rightarrow> Missing
      | Some (name, p) \<Rightarrow>
          (case cut CHR '':'' p of
             None \<Rightarrow> Missing
           | Some (passwd, p) \<Rightarrow>
               (case cut CHR '':'' p of
                  None \<Rightarrow> Missing
                | Some (gidstr, memstr) \<Rightarrow>
                    let ms = members NGROUPS_MAX memstr
                    in if length ms = NGROUPS_MAX then Overrun_array
                       else case parse_id gidstr of
                              Some g \<Rightarrow> Found \<lparr>gr_name = name, gr_passwd = passwd, gr_gid = g, gr_mem = ms\<rparr>
                            | None \<Rightarrow> Overrun_array)))"

definition getgrnam :: "'w os \<Rightarrow> nat \<Rightarrow> 'w io option \<Rightarrow> string \<Rightarrow> (group found \<times> 'w io option) option" where
  "getgrnam os fuel fp name = lookup_entry os GR_LINE_MAX parse_group (\<lambda>g. gr_name g = name) fuel fp"

definition getgrgid :: "'w os \<Rightarrow> nat \<Rightarrow> 'w io option \<Rightarrow> 32 word \<Rightarrow> (group found \<times> 'w io option) option" where
  "getgrgid os fuel fp gid = lookup_entry os GR_LINE_MAX parse_group (\<lambda>g. gr_gid g = gid) fuel fp"

definition group_has_member :: "group \<Rightarrow> string \<Rightarrow> bool" where
  "group_has_member g user \<longleftrightarrow> user \<in> set (gr_mem g)"

text \<open>
  The groups of a user: the array as far as it is filled, and the number of groups found, which
  may be larger. The array has room for \<open>room\<close> groups.
\<close>

definition put_group :: "nat \<Rightarrow> 32 word \<Rightarrow> 32 word list \<times> nat \<Rightarrow> 32 word list \<times> nat" where
  "put_group room g = (\<lambda>(groups, n). (if n < room then groups @ [g] else groups, Suc n))"

fun collect :: "'w os \<Rightarrow> string \<Rightarrow> nat \<Rightarrow> nat \<Rightarrow> 32 word list \<times> nat \<Rightarrow> 'w io \<Rightarrow> ((32 word list \<times> nat) found \<times> 'w io) option" where
  "collect os user room 0 acc s = None"
| "collect os user room (Suc fuel) acc s =
     (case fgets os GR_LINE_MAX s of
        (None, s) \<Rightarrow> Some (Found acc, s)
      | (Some buf, s) \<Rightarrow>
          let line = chomp (c_text buf)
          in if line = [] \<or> hd line = CHR ''#'' then collect os user room fuel acc s
             else case parse_group line of
                    Missing \<Rightarrow> collect os user room fuel acc s
                  | Overrun_array \<Rightarrow> Some (Overrun_array, s)
                  | Found g \<Rightarrow>
                      if \<not> group_has_member g user \<or> gr_gid g \<in> set (fst acc) then collect os user room fuel acc s
                      else collect os user room fuel (put_group room (gr_gid g) acc) s)"

text \<open>The result, the number stored in \<open>*ngroups\<close> and the array; and the stream, which is closed.\<close>

definition getgrouplist ::
  "'w os \<Rightarrow> nat \<Rightarrow> 'w io option \<Rightarrow> string \<Rightarrow> 32 word \<Rightarrow> nat \<Rightarrow> ((int \<times> nat \<times> 32 word list) found \<times> 'w io option) option"
where
  "getgrouplist os fuel fp user gid ngroups =
     (case fp of
        None \<Rightarrow> Some (Found (- 1, ngroups, []), None)
      | Some s \<Rightarrow>
          map_option (\<lambda>(r, s).
            (case r of
               Found (groups, n) \<Rightarrow> Found (if n > ngroups then - 1 else int n, n, groups)
             | Missing \<Rightarrow> Missing
             | Overrun_array \<Rightarrow> Overrun_array, Some (snd (fclose os False s)))) (collect os user ngroups fuel (put_group ngroups gid ([], 0)) s))"

section \<open>Shadow passwords\<close>

record spwd =
  sp_namp :: string
  sp_pwdp :: string

definition parse_shadow :: "string \<Rightarrow> spwd found" where
  "parse_shadow line =
     (case cut CHR '':'' line of
        None \<Rightarrow> Missing
      | Some (name, p) \<Rightarrow> Found \<lparr>sp_namp = name, sp_pwdp = (case cut CHR '':'' p of Some (pwd, _) \<Rightarrow> pwd | None \<Rightarrow> p)\<rparr>)"

definition getspnam :: "'w os \<Rightarrow> nat \<Rightarrow> 'w io option \<Rightarrow> string \<Rightarrow> (spwd found \<times> 'w io option) option" where
  "getspnam os fuel fp name = lookup_entry os SP_LINE_MAX parse_shadow (\<lambda>e. sp_namp e = name) fuel fp"

section \<open>Reading lines\<close>

lemma chomp_id: "line = [] \<or> last line \<noteq> CHR 0x0A \<and> last line \<noteq> CHR 0x0D \<Longrightarrow> chomp line = line"
  by (subst chomp.simps) auto

lemma chomp_line: "chomp (l @ [CHR 0x0A]) = chomp l"
  by (subst chomp.simps) simp

lemma c_text_id: "CHR 0x00 \<notin> set s \<Longrightarrow> c_text s = s"
  unfolding c_text_def by (rule takeWhile_eq_all_conv [THEN iffD2]) auto

lemma cut_append: "c \<notin> set a \<Longrightarrow> cut c (a @ c # b) = Some (a, b)"
  unfolding cut_def by (simp add: takeWhile_append dropWhile_append)

lemma cut_none: "c \<notin> set a \<Longrightarrow> cut c a = None"
  by (simp add: cut_def)

lemma line_upto_line: "CHR 0x0A \<notin> set l \<Longrightarrow> length l < n \<Longrightarrow> line_upto n (l @ CHR 0x0A # u) = l @ [CHR 0x0A]"
proof (induction l arbitrary: n)
  case Nil
  then show ?case by (cases n) auto
next
  case (Cons c l)
  then show ?case by (cases n) auto
qed

lemma line_upto_cut: "CHR 0x0A \<notin> set p \<Longrightarrow> line_upto (length p) (p @ u) = p"
  by (induction p) auto

text \<open>A line that fits in the buffer of \<open>mx\<close> bytes.\<close>

definition line_ok :: "int \<Rightarrow> string \<Rightarrow> bool" where
  "line_ok mx l \<longleftrightarrow> CHR 0x0A \<notin> set l \<and> CHR 0x00 \<notin> set l \<and> int (length l) + 2 \<le> mx"

definition lines_text :: "string list \<Rightarrow> string" where
  "lines_text ls = concat (map (\<lambda>l. l @ [CHR 0x0A]) ls)"

text \<open>The search in a list of lines.\<close>

fun search :: "(string \<Rightarrow> 'a found) \<Rightarrow> ('a \<Rightarrow> bool) \<Rightarrow> string list \<Rightarrow> 'a found" where
  "search parse ok [] = Missing"
| "search parse ok (l # ls) =
     (let line = chomp l
      in if line = [] \<or> hd line = CHR ''#'' then search parse ok ls
         else case parse line of
                Missing \<Rightarrow> search parse ok ls
              | Overrun_array \<Rightarrow> Overrun_array
              | Found e \<Rightarrow> if ok e then Found e else search parse ok ls)"

context source_os
begin

lemma fgets_end:
  assumes "has_input s []" "2 \<le> mx"
  shows "\<exists>s'. fgets os mx s = (None, s')"
proof -
  obtain s' where s': "fgetc os s = (EOF, s')" "has_input s' []" using fgetc_ok(1) [OF assms(1)] by blast
  obtain m where m: "nat (mx - 1) = Suc m" using assms(2) by (cases "nat (mx - 1)") auto
  have "\<not> ferror s'" using has_input_buf [OF s'(2)] by (simp add: ferror_def)
  then show ?thesis using s'(1) m assms(2) by (simp add: fgets_def)
qed

lemma fgets_next:
  assumes "has_input s u" "u \<noteq> []" "2 \<le> mx"
  shows "\<exists>s'. fgets os mx s = (Some (line_upto (nat (mx - 1)) u), s') \<and> has_input s' (drop (length (line_upto (nat (mx - 1)) u)) u)"
  using fgets_loop_ok [OF assms(1), of "[]" "nat (mx - 1)"] assms(2,3) by (simp add: fgets_def)

lemma fgets_line:
  assumes "has_input s (l @ CHR 0x0A # u)" "line_ok mx l"
  shows "\<exists>s'. fgets os mx s = (Some (l @ [CHR 0x0A]), s') \<and> has_input s' u"
proof -
  have "line_upto (nat (mx - 1)) (l @ CHR 0x0A # u) = l @ [CHR 0x0A]"
    using assms(2) by (intro line_upto_line) (auto simp: line_ok_def)
  then show ?thesis using fgets_next [OF assms(1), of mx] assms(2) by (auto simp: line_ok_def)
qed

lemma scan_lines:
  assumes "has_input s (lines_text ls @ u)" "\<forall>l\<in>set ls. line_ok mx l" "2 \<le> mx" "length ls < fuel"
    and "search parse ok ls \<noteq> Missing \<or> u = []"
  shows "\<exists>s'. scan os mx parse ok fuel s = Some (search parse ok ls, s')"
  using assms
proof (induction ls arbitrary: fuel s)
  case Nil
  then obtain f where "fuel = Suc f" by (cases fuel) auto
  then show ?case using fgets_end [OF _ Nil.prems(3), of s] Nil.prems(1,5) by (auto simp: lines_text_def)
next
  case (Cons l ls)
  then obtain f where f: "fuel = Suc f" by (cases fuel) auto
  have "has_input s (l @ CHR 0x0A # lines_text ls @ u)" "line_ok mx l" using Cons.prems(1,2) by (simp_all add: lines_text_def)
  then obtain s1 where s1: "fgets os mx s = (Some (l @ [CHR 0x0A]), s1)" "has_input s1 (lines_text ls @ u)"
    using fgets_line by blast
  have t: "chomp (c_text (l @ [CHR 0x0A])) = chomp l"
    using Cons.prems(2) by (simp add: c_text_id chomp_line line_ok_def)
  have "\<exists>s'. scan os mx parse ok f s1 = Some (search parse ok ls, s')" if "search parse ok ls \<noteq> Missing \<or> u = []"
    using Cons.IH [OF s1(2) _ Cons.prems(3) _ that, of f] Cons.prems(2,4) f by simp
  then show ?case using f s1(1) t Cons.prems(5) by (auto simp: Let_def split: found.splits)
qed

end

section \<open>Fields\<close>

lemma digit_value_dec: "k < 10 \<Longrightarrow> digit_value (chr (lower_digits ! k)) 10 = int k"
  using digit_byte [of k] by (simp add: digit_value_def isdigit_iff word_le_def)

lemma num_dec: "num 10 (bytes (dec n)) = n"
proof (induction n rule: less_induct)
  case (less n)
  then show ?case
  proof (cases "n < 10")
    case False
    then have "num 10 (bytes (dec (n div 10))) = n div 10" using less by simp
    then show ?thesis using False by (subst dec_rec) (simp add: num_def num_step_def digit_value_dec)
  qed (subst dec_rec, simp add: num_def num_step_def digit_value_dec)
qed

lemma digits_dec: "digits_of 10 (bytes (dec n))"
proof (induction n rule: less_induct)
  case (less n)
  show ?case
  proof (cases "n < 10")
    case False
    then have "digits_of 10 (bytes (dec (n div 10)))" using less by simp
    then show ?thesis using False by (subst dec_rec) (auto simp: digits_of_def digit_value_dec)
  qed (subst dec_rec, simp add: digits_of_def digit_value_dec)
qed

lemma parse_id_dec: "parse_id (dec (unat g)) = Some (g :: 32 word)"
proof -
  have n: "unat g < 2 ^ 32" using unat_bound [of g] by simp
  have "dec (unat g) \<noteq> []" using dec_Cons [of "unat g"] by auto
  moreover have "digit_value 0 10 < 0" by (simp add: digit_value_def)
  ultimately have "strtoull_core (bytes (dec (unat g)) @ [0]) 10 ENONE = Some (of_nat (unat g), False, [0], ENONE)"
    using strtoull_core_eq [of "[]" "[]" False 10 "bytes (dec (unat g))" 0 "[]" ENONE] n
    by (simp add: spaces_def sign_neg_def digits_dec num_dec sat_def)
  moreover have "(of_nat (unat g) :: 64 word) \<le> ULLONG_MAX" by (simp add: ULLONG_MAX_def)
  moreover have "ucast (of_nat (unat g) :: 64 word) = g" by (simp add: ucast_up_ucast_id is_up)
  ultimately show ?thesis by (simp add: parse_id_def strtoul_def not_less [symmetric])
qed

section \<open>Printed entries\<close>

fun join :: "char \<Rightarrow> string list \<Rightarrow> string" where
  "join c [] = []"
| "join c [f] = f"
| "join c (f # g # fs) = f @ c # join c (g # fs)"

text \<open>A field without separators and ends of line.\<close>

definition field_ok :: "string \<Rightarrow> bool" where
  "field_ok f \<longleftrightarrow> CHR '':'' \<notin> set f \<and> CHR 0x0A \<notin> set f \<and> CHR 0x0D \<notin> set f \<and> CHR 0x00 \<notin> set f"

lemma set_dec: "set (dec n) \<subseteq> set lower_digits"
proof (induction n rule: less_induct)
  case (less n)
  have "lower_digits ! k \<in> set lower_digits" if "k < 10" for k using that by (intro nth_mem) (simp add: lower_digits_def)
  then show ?case using less by (subst dec_rec) (auto intro: subsetD)
qed

lemma field_ok_dec: "field_ok (dec n)"
  using set_dec [of n] by (auto simp: field_ok_def lower_digits_def)

lemma set_join: "set (join c fs) \<subseteq> insert c (\<Union> (set ` set fs))"
  by (induction c fs rule: join.induct) auto

lemma split_join: "\<forall>f\<in>set fs. CHR '':'' \<notin> set f \<Longrightarrow> fs \<noteq> [] \<Longrightarrow> length fs \<le> n \<Longrightarrow> split_fields n (join CHR '':'' fs) = fs"
proof (induction "CHR '':''" fs arbitrary: n rule: join.induct)
  case (2 f)
  then show ?case by (cases n) (auto simp: cut_none)
next
  case (3 f g fs)
  then show ?case by (cases n) (auto simp: cut_append)
qed simp

lemma members_join: "\<forall>f\<in>set fs. f \<noteq> [] \<and> CHR '','' \<notin> set f \<Longrightarrow> members n (join CHR '','' fs) = take n fs"
proof (induction "CHR '',''" fs arbitrary: n rule: join.induct)
  case 1
  then show ?case by (cases n) auto
next
  case (2 f)
  then show ?case by (cases n) (auto simp: cut_none)
next
  case (3 f g fs)
  then show ?case by (cases n) (auto simp: cut_append)
qed

lemma last_join:
  "\<forall>f\<in>set fs. field_ok f \<Longrightarrow> join CHR '':'' fs = [] \<or> last (join CHR '':'' fs) \<noteq> CHR 0x0A \<and> last (join CHR '':'' fs) \<noteq> CHR 0x0D"
  using set_join [of "CHR '':''" fs] last_in_set [of "join CHR '':'' fs"] by (fastforce simp: field_ok_def)

definition passwd_fields :: "passwd \<Rightarrow> string list" where
  "passwd_fields e = [pw_name e, pw_passwd e, dec (unat (pw_uid e)), dec (unat (pw_gid e)), pw_gecos e, pw_dir e, pw_shell e]"

definition print_passwd :: "passwd \<Rightarrow> string" where
  "print_passwd e = join CHR '':'' (passwd_fields e)"

definition passwd_ok :: "passwd \<Rightarrow> bool" where
  "passwd_ok e \<longleftrightarrow> (\<forall>f\<in>set (passwd_fields e). field_ok f) \<and> hd (print_passwd e) \<noteq> CHR ''#''"

lemma print_passwd_ne: "print_passwd e \<noteq> []"
  by (simp add: print_passwd_def passwd_fields_def)

lemma parse_print_passwd:
  assumes "passwd_ok e"
  shows "parse_passwd (print_passwd e) = Found e" "chomp (print_passwd e) = print_passwd e"
    "int (length (print_passwd e)) \<le> 510 \<Longrightarrow> line_ok PW_LINE_MAX (print_passwd e)"
proof -
  have f: "\<forall>f\<in>set (passwd_fields e). field_ok f" using assms by (simp add: passwd_ok_def)
  then have "split_fields 7 (print_passwd e) = passwd_fields e"
    unfolding print_passwd_def by (intro split_join) (auto simp: field_ok_def passwd_fields_def)
  then show "parse_passwd (print_passwd e) = Found e" by (simp add: parse_passwd_def passwd_fields_def parse_id_dec)
  show "chomp (print_passwd e) = print_passwd e" unfolding print_passwd_def by (intro chomp_id last_join f)
  show "line_ok PW_LINE_MAX (print_passwd e)" if "int (length (print_passwd e)) \<le> 510"
    using that f set_join [of "CHR '':''" "passwd_fields e"]
    by (fastforce simp: line_ok_def PW_LINE_MAX_def print_passwd_def field_ok_def)
qed

definition group_fields :: "group \<Rightarrow> string list" where
  "group_fields g = [gr_name g, gr_passwd g, dec (unat (gr_gid g)), join CHR '','' (gr_mem g)]"

definition print_group :: "group \<Rightarrow> string" where
  "print_group g = join CHR '':'' (group_fields g)"

definition group_ok :: "group \<Rightarrow> bool" where
  "group_ok g \<longleftrightarrow> field_ok (gr_name g) \<and> field_ok (gr_passwd g) \<and> (\<forall>m\<in>set (gr_mem g). m \<noteq> [] \<and> CHR '','' \<notin> set m \<and> field_ok m) \<and>
     hd (print_group g) \<noteq> CHR ''#''"

lemma print_group_ne: "print_group g \<noteq> []"
  by (simp add: print_group_def group_fields_def)

lemma group_fields_ok:
  assumes "group_ok g"
  shows "\<forall>f\<in>set (group_fields g). field_ok f"
proof -
  have "field_ok (join CHR '','' (gr_mem g))"
    using set_join [of "CHR '',''" "gr_mem g"] assms by (fastforce simp: field_ok_def group_ok_def)
  then show ?thesis using assms by (auto simp: group_fields_def group_ok_def field_ok_dec)
qed

lemma parse_print_group:
  assumes "group_ok g"
  shows "parse_group (print_group g) = (if length (gr_mem g) < 32 then Found g else Overrun_array)"
    "chomp (print_group g) = print_group g"
    "int (length (print_group g)) \<le> 510 \<Longrightarrow> line_ok GR_LINE_MAX (print_group g)"
proof -
  note f = group_fields_ok [OF assms]
  have "members NGROUPS_MAX (join CHR '','' (gr_mem g)) = take NGROUPS_MAX (gr_mem g)"
    using assms by (intro members_join) (auto simp: group_ok_def)
  then show "parse_group (print_group g) = (if length (gr_mem g) < 32 then Found g else Overrun_array)"
    using f by (auto simp: parse_group_def print_group_def group_fields_def cut_append field_ok_def parse_id_dec NGROUPS_MAX_def Let_def)
  show "chomp (print_group g) = print_group g" unfolding print_group_def by (intro chomp_id last_join f)
  show "line_ok GR_LINE_MAX (print_group g)" if "int (length (print_group g)) \<le> 510"
    using that f set_join [of "CHR '':''" "group_fields g"]
    by (fastforce simp: line_ok_def GR_LINE_MAX_def print_group_def field_ok_def)
qed

section \<open>The databases\<close>

definition first_of :: "('a \<Rightarrow> bool) \<Rightarrow> 'a list \<Rightarrow> 'a found" where
  "first_of ok es = (case find ok es of Some e \<Rightarrow> Found e | None \<Rightarrow> Missing)"

lemma search_passwds: "\<forall>e\<in>set es. passwd_ok e \<Longrightarrow> search parse_passwd ok (map print_passwd es) = first_of ok es"
  by (induction es) (auto simp: first_of_def Let_def parse_print_passwd print_passwd_ne passwd_ok_def)

lemma search_groups:
  "\<forall>g\<in>set es. group_ok g \<and> length (gr_mem g) < 32 \<Longrightarrow> search parse_group ok (map print_group es @ ls) =
     (case find ok es of Some g \<Rightarrow> Found g | None \<Rightarrow> search parse_group ok ls)"
  by (induction es) (auto simp: Let_def parse_print_group print_group_ne group_ok_def)

lemma lookup_scan:
  assumes "\<exists>s'. scan os mx parse ok fuel s = Some (r, s')"
  shows "\<exists>s'. lookup_entry os mx parse ok fuel (Some s) = Some (r, s')"
  using assms by (auto simp: lookup_entry_def)

text \<open>
  C31. On a file of printed user records whose lines fit in the line buffer, \<open>getpwnam\<close> and
  \<open>getpwuid\<close> return the first record with the name and with the id, all fields as they were
  printed, or a null pointer when there is none; fuel beyond the number of lines suffices.
\<close>

theorem passwd_lookup:
  assumes "source_os os d rest good" "in_ok d s" "good (world s)" "\<not> io_eof (strm s)"
    and "buffered (strm s) @ rest (world s) = lines_text (map print_passwd es)"
    and "\<forall>e\<in>set es. passwd_ok e \<and> length (print_passwd e) \<le> 510" "length es < fuel"
  shows "(\<exists>s'. getpwnam os fuel (Some s) name = Some (first_of (\<lambda>e. pw_name e = name) es, s')) \<and>
    (\<exists>s'. getpwuid os fuel (Some s) uid = Some (first_of (\<lambda>e. pw_uid e = uid) es, s'))"
proof -
  have h: "source_os.has_input d rest good s (lines_text (map print_passwd es) @ [])"
    using assms(2-5) by (simp add: source_os.has_input_def [OF assms(1)])
  have l: "\<forall>l\<in>set (map print_passwd es). line_ok PW_LINE_MAX l" using assms(6) parse_print_passwd(3) by fastforce
  have "\<exists>s'. lookup_entry os PW_LINE_MAX parse_passwd ok fuel (Some s) = Some (first_of ok es, s')" for ok
    using source_os.scan_lines [OF assms(1) h l, of fuel parse_passwd ok] assms(6,7)
    by (intro lookup_scan) (simp add: search_passwds PW_LINE_MAX_def)
  then show ?thesis by (simp add: getpwnam_def getpwuid_def)
qed

definition root_entry :: passwd where
  "root_entry = \<lparr>pw_name = ''root'', pw_passwd = ''x'', pw_uid = 0, pw_gid = 0, pw_gecos = '''', pw_dir = ''/'', pw_shell = ''/bin/sh''\<rparr>"

definition bin_entry :: passwd where
  "bin_entry = \<lparr>pw_name = ''bin'', pw_passwd = ''x'', pw_uid = 1, pw_gid = 1, pw_gecos = ''b'', pw_dir = ''/bin'', pw_shell = ''/x''\<rparr>"

lemma dec_small: "n < 10 \<Longrightarrow> dec n = [lower_digits ! n]"
  by (subst dec_rec) simp

lemma entry_fields: "pw_name root_entry = ''root''" "pw_uid root_entry = 0" "pw_name bin_entry = ''bin''" "pw_uid bin_entry = 1"
  by (simp_all add: root_entry_def bin_entry_def)

lemma entries_ok:
  "passwd_ok root_entry" "length (print_passwd root_entry) \<le> 510" "passwd_ok bin_entry" "length (print_passwd bin_entry) \<le> 510"
  by (simp_all add: passwd_ok_def passwd_fields_def print_passwd_def field_ok_def root_entry_def bin_entry_def dec_small lower_digits_def)

theorem passwd_lookup_witness:
  "(\<exists>s'. getpwnam file_os 3 (Some (io_on (lines_text (map print_passwd [root_entry, bin_entry])))) ''bin'' = Some (Found bin_entry, s')) \<and>
   (\<exists>s'. getpwuid file_os 3 (Some (io_on (lines_text (map print_passwd [root_entry, bin_entry])))) 7 = Some (Missing, s'))"
  using passwd_lookup [OF fsource.source_os_axioms io_on_ok(1-3) io_on_ok(4) [symmetric], of "[root_entry, bin_entry]" 3 "''bin''" 7] entries_ok
  by (simp add: first_of_def entry_fields)

section \<open>The groups of a user\<close>

text \<open>The ids of the groups of a user, without repetitions, in the order in which they occur.\<close>

definition add_new :: "'a \<Rightarrow> 'a list \<Rightarrow> 'a list" where
  "add_new x xs = (if x \<in> set xs then xs else xs @ [x])"

definition user_groups :: "string \<Rightarrow> 32 word \<Rightarrow> group list \<Rightarrow> 32 word list" where
  "user_groups user gid es = fold add_new (gid # map gr_gid (filter (\<lambda>g. user \<in> set (gr_mem g)) es)) []"

definition put_new :: "nat \<Rightarrow> 32 word \<Rightarrow> 32 word list \<times> nat \<Rightarrow> 32 word list \<times> nat" where
  "put_new room g acc = (if g \<in> set (fst acc) then acc else put_group room g acc)"

lemma fold_put_new:
  assumes "fst acc = take room D" "length D \<le> room \<longrightarrow> snd acc = length D" "room < length D \<longrightarrow> length D \<le> snd acc"
  shows "fst (fold (put_new room) gs acc) = take room (fold add_new gs D) \<and>
    (length (fold add_new gs D) \<le> room \<longrightarrow> snd (fold (put_new room) gs acc) = length (fold add_new gs D)) \<and>
    (room < length (fold add_new gs D) \<longrightarrow> length (fold add_new gs D) \<le> snd (fold (put_new room) gs acc))"
  using assms
proof (induction gs arbitrary: acc D)
  case (Cons g gs)
  obtain xs n where acc: "acc = (xs, n)" by (cases acc)
  note x = Cons.prems [unfolded acc, simplified]
  have "fst (put_new room g acc) = take room (add_new g D)" "length (add_new g D) \<le> room \<longrightarrow> snd (put_new room g acc) = length (add_new g D)"
    "room < length (add_new g D) \<longrightarrow> length (add_new g D) \<le> snd (put_new room g acc)"
    using x in_set_takeD [of g room D] by (auto simp: acc put_new_def put_group_def add_new_def not_less le_Suc_eq split: if_splits)
  then show ?case using Cons.IH [of "put_new room g acc" "add_new g D"] by simp
qed simp

context source_os
begin

lemma collect_groups:
  assumes "has_input s (lines_text (map print_group es))" "length es < fuel"
    and "\<forall>g\<in>set es. group_ok g \<and> length (gr_mem g) < 32 \<and> length (print_group g) \<le> 510"
  shows "\<exists>s'. collect os user room fuel acc s =
    Some (Found (fold (put_new room) (map gr_gid (filter (\<lambda>g. user \<in> set (gr_mem g)) es)) acc), s')"
  using assms
proof (induction es arbitrary: fuel acc s)
  case Nil
  then obtain f where "fuel = Suc f" by (cases fuel) auto
  then show ?case using fgets_end [of s GR_LINE_MAX] Nil.prems(1) by (auto simp: lines_text_def GR_LINE_MAX_def)
next
  case (Cons g es)
  then obtain f where f: "fuel = Suc f" by (cases fuel) auto
  have g: "group_ok g" "length (gr_mem g) < 32" "length (print_group g) \<le> 510" using Cons.prems(3) by auto
  note p = parse_print_group [OF g(1)]
  have l: "line_ok GR_LINE_MAX (print_group g)" using p(3) g(3) by simp
  have "has_input s (print_group g @ CHR 0x0A # lines_text (map print_group es))" using Cons.prems(1) by (simp add: lines_text_def)
  then obtain s1 where s1: "fgets os GR_LINE_MAX s = (Some (print_group g @ [CHR 0x0A]), s1)" "has_input s1 (lines_text (map print_group es))"
    using fgets_line [OF _ l] by blast
  have t: "chomp (c_text (print_group g @ [CHR 0x0A])) = print_group g"
    using l p(2) by (simp add: c_text_id chomp_line line_ok_def)
  have "\<exists>s'. collect os user room f a s1 = Some (Found (fold (put_new room) (map gr_gid (filter (\<lambda>g. user \<in> set (gr_mem g)) es)) a), s')" for a
    using Cons.IH [OF s1(2), of f a] Cons.prems(2,3) f by simp
  moreover have "put_new room (gr_gid g) acc = (if gr_gid g \<in> set (fst acc) then acc else put_group room (gr_gid g) acc)" for acc
    by (simp add: put_new_def)
  ultimately show ?case using f s1(1) t p(1) g print_group_ne [of g] by (simp add: Let_def group_has_member_def group_ok_def)
qed

end

text \<open>
  C32. On a file of printed groups with less than 32 members each, \<open>getgrouplist\<close> collects the given
  group and the groups of which the user is a member, each id once, in order. When the array has
  room for them it returns their number; otherwise it fills the array, returns -1 and stores a
  number that is large enough for a second call.
\<close>

theorem getgrouplist_collects:
  assumes "source_os os d rest good" "in_ok d s" "good (world s)" "\<not> io_eof (strm s)"
    and "buffered (strm s) @ rest (world s) = lines_text (map print_group es)"
    and "\<forall>g\<in>set es. group_ok g \<and> length (gr_mem g) < 32 \<and> length (print_group g) \<le> 510" "length es < fuel"
    and gs: "gs = user_groups user gid es"
  shows "\<exists>r n s'. getgrouplist os fuel (Some s) user gid room = Some (Found (r, n, take room gs), s') \<and>
    (if length gs \<le> room then r = int (length gs) \<and> n = length gs else r = - 1 \<and> length gs \<le> n)"
proof -
  have h: "source_os.has_input d rest good s (lines_text (map print_group es))"
    using assms(2-5) by (simp add: source_os.has_input_def [OF assms(1)])
  let ?gs = "map gr_gid (filter (\<lambda>g. user \<in> set (gr_mem g)) es)"
  let ?acc = "put_group room gid ([], 0)"
  obtain s' where s': "collect os user room fuel ?acc s = Some (Found (fold (put_new room) ?gs ?acc), s')"
    using source_os.collect_groups [OF assms(1) h assms(7,6)] by blast
  have "gs = fold add_new ?gs [gid]" by (simp add: gs user_groups_def add_new_def)
  moreover have "fst ?acc = take room [gid]" "snd ?acc = length [gid]" by (cases room; simp add: put_group_def)+
  then have "fst (fold (put_new room) ?gs ?acc) = take room (fold add_new ?gs [gid]) \<and>
    (length (fold add_new ?gs [gid]) \<le> room \<longrightarrow> snd (fold (put_new room) ?gs ?acc) = length (fold add_new ?gs [gid])) \<and>
    (room < length (fold add_new ?gs [gid]) \<longrightarrow> length (fold add_new ?gs [gid]) \<le> snd (fold (put_new room) ?gs ?acc))"
    by (intro fold_put_new) (auto simp: put_group_def)
  ultimately have f: "fst (fold (put_new room) ?gs ?acc) = take room gs" "length gs \<le> room \<Longrightarrow> snd (fold (put_new room) ?gs ?acc) = length gs"
      "room < length gs \<Longrightarrow> length gs \<le> snd (fold (put_new room) ?gs ?acc)"
    by simp_all
  obtain xs n where x: "fold (put_new room) ?gs ?acc = (xs, n)" by (cases "fold (put_new room) ?gs ?acc")
  show ?thesis
  proof (cases "length gs \<le> room")
    case True
    then show ?thesis using s' f(1,2) by (simp add: getgrouplist_def x)
  next
    case False
    then have "length gs \<le> n" using f(3) by (simp add: x)
    then show ?thesis using s' f(1) False by (simp add: getgrouplist_def x)
  qed
qed

definition wheel_group :: group where
  "wheel_group = \<lparr>gr_name = ''wheel'', gr_passwd = ''x'', gr_gid = 4, gr_mem = [''root'', ''joe'']\<rparr>"

theorem getgrouplist_collects_witness:
  "\<exists>r n s'. getgrouplist file_os 3 (Some (io_on (lines_text (map print_group [wheel_group, wheel_group])))) ''joe'' 7 5 =
      Some (Found (r, n, take 5 [7, 4]), s') \<and> (if length [7, 4 :: 32 word] \<le> 5 then r = int (length [7, 4 :: 32 word]) \<and> n = length [7, 4 :: 32 word]
        else r = - 1 \<and> length [7, 4 :: 32 word] \<le> n)"
proof (rule getgrouplist_collects [OF fsource.source_os_axioms io_on_ok(1-3) io_on_ok(4) [symmetric]])
  show "\<forall>g\<in>set [wheel_group, wheel_group]. group_ok g \<and> length (gr_mem g) < 32 \<and> length (print_group g) \<le> 510"
    by (simp add: group_ok_def print_group_def group_fields_def field_ok_def wheel_group_def dec_small lower_digits_def)
  show "[7, 4] = user_groups ''joe'' 7 [wheel_group, wheel_group]"
    by (simp add: user_groups_def wheel_group_def add_new_def)
qed simp

section \<open>Lines that the parsers do not expect\<close>

context source_os
begin

text \<open>A line that is too long for the buffer by one is read in two parts.\<close>

lemma scan_split:
  assumes "has_input s (p @ lines_text ls)" "int (length p) + 1 = mx" "CHR 0x0A \<notin> set p" "CHR 0x00 \<notin> set p"
    and "\<forall>l\<in>set ls. line_ok mx l" "2 \<le> mx" "Suc (length ls) < fuel"
  shows "\<exists>s'. scan os mx parse ok fuel s = Some (search parse ok (p # ls), s')"
proof -
  obtain f where f: "fuel = Suc f" using assms(7) by (cases fuel) auto
  have n: "nat (mx - 1) = length p" "p \<noteq> []" using assms(2,6) by auto
  obtain s1 where s1: "fgets os mx s = (Some p, s1)" "has_input s1 (lines_text ls)"
    using fgets_next [OF assms(1) _ assms(6)] n line_upto_cut [OF assms(3)] by auto
  have "\<exists>s'. scan os mx parse ok f s1 = Some (search parse ok ls, s')"
    using scan_lines [of s1 ls "[]" mx f parse ok] s1(2) assms(5-7) f by simp
  then show ?thesis using f s1(1) assms(4) by (auto simp: c_text_id Let_def split: found.splits)
qed

end

text \<open>
  C33. A group of 32 or more members makes the search store a null pointer behind the array of
  members, before any name is compared. And of a user record whose line is longer than the
  buffer, here with the line of another record at the end of its last field, the part that did
  not fit is read as a record of its own.
\<close>

theorem database_overruns:
  assumes "source_os os d rest good" "in_ok d s" "good (world s)" "\<not> io_eof (strm s)" "2 < fuel"
  shows "(group_ok g \<and> 32 \<le> length (gr_mem g) \<and> length (print_group g) \<le> 510 \<and>
      buffered (strm s) @ rest (world s) = lines_text [print_group g] \<longrightarrow>
      (\<exists>s'. getgrnam os fuel (Some s) name = Some (Overrun_array, s'))) \<and>
    (passwd_ok e \<and> length (print_passwd e) = 511 \<and> pw_name e \<noteq> pw_name evil \<and> passwd_ok evil \<and> length (print_passwd evil) \<le> 510 \<and>
      buffered (strm s) @ rest (world s) = lines_text [print_passwd (e\<lparr>pw_shell := pw_shell e @ print_passwd evil\<rparr>)] \<longrightarrow>
      (\<exists>s'. getpwnam os fuel (Some s) (pw_name evil) = Some (Found evil, s')))"
proof -
  have h: "source_os.has_input d rest good s u" if "buffered (strm s) @ rest (world s) = u" for u
    using assms(2-4) that by (simp add: source_os.has_input_def [OF assms(1)])
  have "\<exists>s'. getgrnam os fuel (Some s) name = Some (Overrun_array, s')"
    if "group_ok g" "32 \<le> length (gr_mem g)" "length (print_group g) \<le> 510" "buffered (strm s) @ rest (world s) = lines_text [print_group g]"
  proof -
    note p = parse_print_group [OF that(1)]
    have g: "search parse_group ok [print_group g] = Overrun_array" for ok
      using p(1,2) that(1,2) print_group_ne [of g] by (simp add: Let_def group_ok_def)
    show ?thesis
      unfolding getgrnam_def
      using source_os.scan_lines [OF assms(1), of s "[print_group g]" "[]" GR_LINE_MAX fuel parse_group "\<lambda>g. gr_name g = name"]
        h [OF that(4)] p(3) that(3) assms(5)
      by (intro lookup_scan) (simp add: g GR_LINE_MAX_def del: search.simps)
  qed
  moreover have "\<exists>s'. getpwnam os fuel (Some s) (pw_name evil) = Some (Found evil, s')"
    if "passwd_ok e" "length (print_passwd e) = 511" "pw_name e \<noteq> pw_name evil" "passwd_ok evil" "length (print_passwd evil) \<le> 510"
      "buffered (strm s) @ rest (world s) = lines_text [print_passwd (e\<lparr>pw_shell := pw_shell e @ print_passwd evil\<rparr>)]"
  proof -
    note p = parse_print_passwd [OF that(1)] and q = parse_print_passwd [OF that(4)]
    have "lines_text [print_passwd (e\<lparr>pw_shell := pw_shell e @ print_passwd evil\<rparr>)] = print_passwd e @ lines_text [print_passwd evil]"
      by (simp add: lines_text_def print_passwd_def passwd_fields_def)
    then have u: "source_os.has_input d rest good s (print_passwd e @ lines_text [print_passwd evil])" using h [OF that(6)] by simp
    have c: "CHR 0x0A \<notin> set (print_passwd e)" "CHR 0x00 \<notin> set (print_passwd e)"
      using that(1) set_join [of "CHR '':''" "passwd_fields e"] by (fastforce simp: passwd_ok_def field_ok_def print_passwd_def)+
    have "search parse_passwd (\<lambda>p. pw_name p = pw_name evil) [print_passwd e, print_passwd evil] = Found evil"
      using p q that(1,3,4) print_passwd_ne by (simp add: Let_def passwd_ok_def)
    then show ?thesis
      unfolding getpwnam_def
      using source_os.scan_split [OF assms(1) u _ c, of PW_LINE_MAX fuel parse_passwd "\<lambda>p. pw_name p = pw_name evil"] that(2,5) q(3) assms(5)
      by (intro lookup_scan) (simp add: PW_LINE_MAX_def del: search.simps)
  qed
  ultimately show ?thesis by blast
qed

definition big_group :: group where
  "big_group = \<lparr>gr_name = ''g'', gr_passwd = ''x'', gr_gid = 4, gr_mem = replicate 32 ''u''\<rparr>"

definition long_entry :: passwd where
  "long_entry = \<lparr>pw_name = ''joe'', pw_passwd = ''x'', pw_uid = 5, pw_gid = 5, pw_gecos = replicate 494 CHR ''j'', pw_dir = ''/j'', pw_shell = ''/sh''\<rparr>"

lemma overrun_entries:
  "group_ok big_group" "32 \<le> length (gr_mem big_group)" "length (print_group big_group) \<le> 510"
  "passwd_ok long_entry" "length (print_passwd long_entry) = 511" "pw_name long_entry \<noteq> pw_name root_entry"
proof -
  have j: "length (join CHR '','' (replicate n ''u'')) \<le> 2 * n" for n
  proof (induction n)
    case (Suc n)
    then show ?case by (cases n) auto
  qed simp
  show "group_ok big_group" by (simp add: group_ok_def print_group_def group_fields_def field_ok_def big_group_def)
  show "32 \<le> length (gr_mem big_group)" by (simp add: big_group_def)
  show "length (print_group big_group) \<le> 510" using j [of 32] by (simp add: print_group_def group_fields_def big_group_def dec_small)
  show "passwd_ok long_entry" "length (print_passwd long_entry) = 511"
    by (simp_all add: passwd_ok_def passwd_fields_def print_passwd_def field_ok_def long_entry_def dec_small lower_digits_def)
  show "pw_name long_entry \<noteq> pw_name root_entry" by (simp add: long_entry_def root_entry_def)
qed

theorem database_overruns_witness:
  "(\<exists>s'. getgrnam file_os 3 (Some (io_on (lines_text [print_group big_group]))) ''x'' = Some (Overrun_array, s')) \<and>
   (\<exists>s'. getpwnam file_os 3 (Some (io_on (lines_text [print_passwd (long_entry\<lparr>pw_shell := pw_shell long_entry @ print_passwd root_entry\<rparr>)])))
      (pw_name root_entry) = Some (Found root_entry, s'))"
proof (rule conjI)
  let ?t = "lines_text [print_group big_group]"
  and ?u = "lines_text [print_passwd (long_entry\<lparr>pw_shell := pw_shell long_entry @ print_passwd root_entry\<rparr>)]"
  show "\<exists>s'. getgrnam file_os 3 (Some (io_on ?t)) ''x'' = Some (Overrun_array, s')"
    using database_overruns [OF fsource.source_os_axioms io_on_ok(1-3) [of ?t], of 3 big_group "''x''"] overrun_entries(1-3) io_on_ok(4) [of ?t, symmetric]
    by simp
  show "\<exists>s'. getpwnam file_os 3 (Some (io_on ?u)) (pw_name root_entry) = Some (Found root_entry, s')"
    using database_overruns [OF fsource.source_os_axioms io_on_ok(1-3) [of ?u], of 3 _ _ long_entry root_entry]
      overrun_entries(4-6) entries_ok(1,2) io_on_ok(4) [of ?u, symmetric]
    by simp
qed

end
