(* ===== verification/Sha256.thy ===== *)
theory Sha256
  imports Prelude
begin

text \<open>
  The hash of \<open>crypto/sha256.c\<close>. The model keeps the arrays of the code: the eight words of
  the state, the schedule \<open>w[64]\<close>, the 64 byte block. The reference is FIPS 180-4: the
  message is padded first, cut into blocks, and the schedule is a recursive equation. The
  two are proved equal for every message whose length in bits fits 64 bits.
\<close>

section \<open>The code\<close>

text \<open>The round constants, one list per line of the table in the source.\<close>

definition K :: "32 word list" where
  "K =
    [0x428a2f98, 0x71374491, 0xb5c0fbcf, 0xe9b5dba5, 0x3956c25b, 0x59f111f1] @
    [0x923f82a4, 0xab1c5ed5, 0xd807aa98, 0x12835b01, 0x243185be, 0x550c7dc3] @
    [0x72be5d74, 0x80deb1fe, 0x9bdc06a7, 0xc19bf174, 0xe49b69c1, 0xefbe4786] @
    [0x0fc19dc6, 0x240ca1cc, 0x2de92c6f, 0x4a7484aa, 0x5cb0a9dc, 0x76f988da] @
    [0x983e5152, 0xa831c66d, 0xb00327c8, 0xbf597fc7, 0xc6e00bf3, 0xd5a79147] @
    [0x06ca6351, 0x14292967, 0x27b70a85, 0x2e1b2138, 0x4d2c6dfc, 0x53380d13] @
    [0x650a7354, 0x766a0abb, 0x81c2c92e, 0x92722c85, 0xa2bfe8a1, 0xa81a664b] @
    [0xc24b8b70, 0xc76c51a3, 0xd192e819, 0xd6990624, 0xf40e3585, 0x106aa070] @
    [0x19a4c116, 0x1e376c08, 0x2748774c, 0x34b0bcb5, 0x391c0cb3, 0x4ed8aa4a] @
    [0x5b9cca4f, 0x682e6ff3, 0x748f82ee, 0x78a5636f, 0x84c87814, 0x8cc70208] @
    [0x90befffa, 0xa4506ceb, 0xbef9a3f7, 0xc67178f2]"

definition ror :: "32 word \<Rightarrow> nat \<Rightarrow> 32 word" where
  "ror x n = drop_bit n x OR push_bit (32 - n) x"

text \<open>The first loop of \<open>sha256_block\<close> reads the block as sixteen big-endian words.\<close>

definition load_word :: "byte list \<Rightarrow> nat \<Rightarrow> 32 word" where
  "load_word block i =
     push_bit 24 (ucast (block ! (i * 4))) OR push_bit 16 (ucast (block ! (i * 4 + 1))) OR
     push_bit 8 (ucast (block ! (i * 4 + 2))) OR ucast (block ! (i * 4 + 3))"

text \<open>The second loop; the words of the array that are not yet written are not in the list.\<close>

definition extend_step :: "nat \<Rightarrow> 32 word list \<Rightarrow> 32 word list" where
  "extend_step i w =
     (let s0 = ror (w ! (i - 15)) 7 XOR ror (w ! (i - 15)) 18 XOR drop_bit 3 (w ! (i - 15));
          s1 = ror (w ! (i - 2)) 17 XOR ror (w ! (i - 2)) 19 XOR drop_bit 10 (w ! (i - 2))
      in w @ [w ! (i - 16) + s0 + w ! (i - 7) + s1])"

definition schedule :: "byte list \<Rightarrow> 32 word list" where
  "schedule block = fold extend_step [16..<64] (map (load_word block) [0..<16])"

record vars =
  va :: "32 word"
  vb :: "32 word"
  vc :: "32 word"
  vd :: "32 word"
  ve :: "32 word"
  vf :: "32 word"
  vg :: "32 word"
  vh :: "32 word"

definition round_step :: "32 word list \<Rightarrow> nat \<Rightarrow> vars \<Rightarrow> vars" where
  "round_step w i v =
     (let S1 = ror (ve v) 6 XOR ror (ve v) 11 XOR ror (ve v) 25;
          ch = (ve v AND vf v) XOR (NOT (ve v) AND vg v);
          temp1 = vh v + S1 + ch + K ! i + w ! i;
          S0 = ror (va v) 2 XOR ror (va v) 13 XOR ror (va v) 22;
          maj = (va v AND vb v) XOR (va v AND vc v) XOR (vb v AND vc v);
          temp2 = S0 + maj
      in \<lparr>va = temp1 + temp2, vb = va v, vc = vb v, vd = vc v,
          ve = vd v + temp1, vf = ve v, vg = vf v, vh = vg v\<rparr>)"

definition load_vars :: "32 word list \<Rightarrow> vars" where
  "load_vars s =
     \<lparr>va = s ! 0, vb = s ! 1, vc = s ! 2, vd = s ! 3, ve = s ! 4, vf = s ! 5, vg = s ! 6, vh = s ! 7\<rparr>"

definition sha256_block :: "32 word list \<Rightarrow> byte list \<Rightarrow> 32 word list" where
  "sha256_block state block =
     (let v = fold (round_step (schedule block)) [0..<64] (load_vars state)
      in [state ! 0 + va v, state ! 1 + vb v, state ! 2 + vc v, state ! 3 + vd v,
          state ! 4 + ve v, state ! 5 + vf v, state ! 6 + vg v, state ! 7 + vh v])"

definition init_state :: "32 word list" where
  "init_state = [
     0x6a09e667, 0xbb67ae85, 0x3c6ef372, 0xa54ff53a,
     0x510e527f, 0x9b05688c, 0x1f83d9ab, 0x5be0cd19]"

text \<open>The loop over the whole blocks: the state, and the bytes left.\<close>

function sha256_loop :: "32 word list \<Rightarrow> byte list \<Rightarrow> 32 word list \<times> byte list" where
  "sha256_loop state p =
     (if 64 \<le> length p then sha256_loop (sha256_block state (take 64 p)) (drop 64 p) else (state, p))"
  by pat_completeness auto
termination by (relation "measure (length \<circ> snd)") auto

declare sha256_loop.simps [simp del]

definition put_length :: "64 word \<Rightarrow> byte list \<Rightarrow> byte list" where
  "put_length bits block = fold (\<lambda>i b. b[63 - i := ucast (drop_bit (i * 8) bits)]) [0..<8] block"

definition store_word :: "32 word \<Rightarrow> byte list" where
  "store_word x = [ucast (drop_bit 24 x), ucast (drop_bit 16 x), ucast (drop_bit 8 x), ucast x]"

definition sha256 :: "byte list \<Rightarrow> byte list" where
  "sha256 data =
     (let (state, p) = sha256_loop init_state data;
          left = length p;
          block = (p @ replicate (64 - left) 0)[left := 0x80];
          (state, block) =
            (if 56 \<le> left then (sha256_block state block, replicate 64 0) else (state, block));
          bits = of_nat (length data) * 8;
          state = sha256_block state (put_length bits block)
      in concat (map store_word state))"

section \<open>The standard\<close>

definition Ch :: "32 word \<Rightarrow> 32 word \<Rightarrow> 32 word \<Rightarrow> 32 word" where
  "Ch x y z = (x AND y) OR (NOT x AND z)"

definition Maj :: "32 word \<Rightarrow> 32 word \<Rightarrow> 32 word \<Rightarrow> 32 word" where
  "Maj x y z = (x AND y) OR (x AND z) OR (y AND z)"

definition Sigma0 :: "32 word \<Rightarrow> 32 word" where
  "Sigma0 x = word_rotr 2 x XOR word_rotr 13 x XOR word_rotr 22 x"

definition Sigma1 :: "32 word \<Rightarrow> 32 word" where
  "Sigma1 x = word_rotr 6 x XOR word_rotr 11 x XOR word_rotr 25 x"

definition sigma0 :: "32 word \<Rightarrow> 32 word" where
  "sigma0 x = word_rotr 7 x XOR word_rotr 18 x XOR drop_bit 3 x"

definition sigma1 :: "32 word \<Rightarrow> 32 word" where
  "sigma1 x = word_rotr 17 x XOR word_rotr 19 x XOR drop_bit 10 x"

text \<open>Numbers as big-endian bytes, most significant first.\<close>

definition be_val :: "byte list \<Rightarrow> nat" where
  "be_val bs = foldl (\<lambda>n b. n * 256 + unat b) 0 bs"

definition be_bytes :: "nat \<Rightarrow> nat \<Rightarrow> byte list" where
  "be_bytes k n = map (\<lambda>i. of_nat (n div 256 ^ i)) (rev [0..<k])"

fun W :: "byte list \<Rightarrow> nat \<Rightarrow> 32 word" where
  "W block t =
     (if t < 16 then of_nat (be_val (take 4 (drop (4 * t) block)))
      else sigma1 (W block (t - 2)) + W block (t - 7) + sigma0 (W block (t - 15)) + W block (t - 16))"

declare W.simps [simp del]

text \<open>The working variables \<open>a\<close> to \<open>h\<close>, and the hash values, are lists of eight words.\<close>

fun compress_round :: "byte list \<Rightarrow> nat \<Rightarrow> 32 word list \<Rightarrow> 32 word list" where
  "compress_round block t [a, b, c, d, e, f, g, h] =
     (let T1 = h + Sigma1 e + Ch e f g + K ! t + W block t;
          T2 = Sigma0 a + Maj a b c
      in [T1 + T2, a, b, c, d + T1, e, f, g])"
| "compress_round block t _ = []"

definition compress :: "32 word list \<Rightarrow> byte list \<Rightarrow> 32 word list" where
  "compress H block = map2 (+) H (fold (compress_round block) [0..<64] H)"

lemma length_be_bytes [simp]: "length (be_bytes k n) = k"
  by (simp add: be_bytes_def)

definition fips_pad :: "byte list \<Rightarrow> byte list" where
  "fips_pad m = m @ [0x80] @ replicate ((119 - length m mod 64) mod 64) 0 @ be_bytes 8 (8 * length m)"

function blocks64 :: "byte list \<Rightarrow> byte list list" where
  "blocks64 m = (if m = [] then [] else take 64 m # blocks64 (drop 64 m))"
  by pat_completeness auto
termination by (relation "measure length") auto

declare blocks64.simps [simp del]

definition sha256_fips :: "byte list \<Rightarrow> byte list" where
  "sha256_fips m =
     concat (map (be_bytes 4 \<circ> unat) (foldl compress init_state (blocks64 (fips_pad m))))"

section \<open>The block function\<close>

lemma ror_rotr: "0 < n \<Longrightarrow> n < 32 \<Longrightarrow> ror x n = word_rotr n x"
proof (rule bit_word_eqI)
  fix i assume a: "0 < n" "n < 32" "i < LENGTH(32)"
  have "(i + n) mod 32 = (if i + n < 32 then i + n else i + n - 32)" using a by (simp add: mod_if)
  then show "bit (ror x n) i = bit (word_rotr n x) i"
    using a by (auto simp: ror_def bit_simps bit_word_rotr_iff ac_simps dest: bit_imp_le_length)
qed

lemma xor_or_ch: "(e AND f) XOR (NOT e AND g) = Ch e f g"
  by (rule bit_word_eqI) (auto simp: Ch_def bit_simps)

lemma xor_or_maj: "(a AND b) XOR (a AND c) XOR (b AND c) = Maj a b c"
  by (rule bit_word_eqI) (auto simp: Maj_def bit_simps)

lemmas round_simps = ror_rotr xor_or_ch xor_or_maj Sigma0_def [symmetric] Sigma1_def [symmetric]
  sigma0_def [symmetric] sigma1_def [symmetric]

lemma or_byte: "push_bit 8 x OR ucast (b :: byte) = x * 256 + (ucast b :: 32 word)"
proof -
  have "push_bit 8 x AND (ucast b :: 32 word) = 0"
    by (rule bit_word_eqI) (auto simp: bit_simps dest: bit_imp_le_length)
  then show ?thesis by (simp add: disjunctive_add_eq_or [symmetric] push_bit_eq_mult)
qed

lemma load_word_be:
  assumes "i * 4 + 3 < length block"
  shows "load_word block i = of_nat (be_val (take 4 (drop (4 * i) block)))"
proof -
  have d: "drop (4 * i) block = block ! (i * 4) # block ! (i * 4 + 1) # block ! (i * 4 + 2) # block ! (i * 4 + 3) # drop (i * 4 + 4) block"
    using assms Cons_nth_drop_Suc [of "i * 4" block] Cons_nth_drop_Suc [of "i * 4 + 1" block]
      Cons_nth_drop_Suc [of "i * 4 + 2" block] Cons_nth_drop_Suc [of "i * 4 + 3" block]
    by (simp add: mult.commute numeral_eq_Suc)
  have "load_word block i =
    push_bit 8 (push_bit 8 (push_bit 8 (ucast (block ! (i * 4))) OR ucast (block ! (i * 4 + 1))) OR
      ucast (block ! (i * 4 + 2))) OR ucast (block ! (i * 4 + 3))"
    by (simp add: load_word_def push_bit_or ac_simps)
  then show ?thesis unfolding d
    by (simp only: or_byte) (simp add: be_val_def unat_word_ariths)
qed

lemma extend_correct:
  assumes "16 \<le> n" "length w0 = 16" "\<forall>t<16. w0 ! t = W block t"
  shows "length (fold extend_step [16..<n] w0) = n \<and> (\<forall>t<n. fold extend_step [16..<n] w0 ! t = W block t)"
  using assms(1)
proof (induction n rule: dec_induct)
  case base
  then show ?case using assms by simp
next
  case (step n)
  let ?w = "fold extend_step [16..<n] w0"
  have len: "length ?w = n" and w: "\<And>t. t < n \<Longrightarrow> ?w ! t = W block t" using step.IH by auto
  have *: "fold extend_step [16..<Suc n] w0 = ?w @ [W block n]"
    using step.hyps w len by (simp add: extend_step_def Let_def round_simps W.simps [of block n] add.commute add.left_commute)
  show ?case using len w unfolding * by (auto simp: nth_append less_Suc_eq)
qed

lemma schedule_W:
  assumes "length block = 64"
  shows "length (schedule block) = 64" "t < 64 \<Longrightarrow> schedule block ! t = W block t"
proof -
  have "\<forall>t<16. map (load_word block) [0..<16] ! t = W block t"
    using assms by (simp add: load_word_be W.simps)
  from extend_correct [OF _ _ this, of 64]
  show "length (schedule block) = 64" "t < 64 \<Longrightarrow> schedule block ! t = W block t"
    by (simp_all add: schedule_def)
qed

definition vars_list :: "vars \<Rightarrow> 32 word list" where
  "vars_list v = [va v, vb v, vc v, vd v, ve v, vf v, vg v, vh v]"

lemma round_compress:
  assumes "length block = 64" "t < 64"
  shows "vars_list (round_step (schedule block) t v) = compress_round block t (vars_list v)"
  using assms by (simp add: round_step_def vars_list_def Let_def round_simps schedule_W)

lemma rounds_compress:
  assumes "length block = 64" "n \<le> 64"
  shows "vars_list (fold (round_step (schedule block)) [0..<n] v) = fold (compress_round block) [0..<n] (vars_list v)"
  using assms(2) by (induction n) (simp_all add: assms(1) round_compress)

lemma list8: "length s = 8 \<Longrightarrow> s = [s ! 0, s ! 1, s ! 2, s ! 3, s ! 4, s ! 5, s ! 6, s ! 7]"
  by (auto simp: length_Suc_conv numeral_eq_Suc)

lemma block_compress:
  assumes "length block = 64" "length s = 8"
  shows "sha256_block s block = compress s block"
proof -
  let ?v = "fold (round_step (schedule block)) [0..<64] (load_vars s)"
  have "vars_list (load_vars s) = s"
    using list8 [OF assms(2)] by (simp add: vars_list_def load_vars_def)
  then have "compress s block = map2 (+) s (vars_list ?v)"
    using rounds_compress [OF assms(1), of 64 "load_vars s"] by (simp add: compress_def)
  also have "\<dots> = sha256_block s block"
    by (subst list8 [OF assms(2)]) (simp add: sha256_block_def vars_list_def Let_def)
  finally show ?thesis by simp
qed

lemma length_sha256_block [simp]: "length (sha256_block s b) = 8"
  by (simp add: sha256_block_def Let_def)

section \<open>The padding\<close>

lemma blocks64_append: "length b = 64 \<Longrightarrow> blocks64 (b @ m) = b # blocks64 m"
  by (subst blocks64.simps) auto

lemma loop_blocks:
  assumes "sha256_loop s p = (s', q)" "length s = 8"
  shows "length s' = 8 \<and> length q = length p mod 64 \<and>
    foldl compress s (blocks64 (p @ r)) = foldl compress s' (blocks64 (q @ r))"
  using assms
proof (induction s p rule: sha256_loop.induct)
  case (1 s p)
  show ?case
  proof (cases "64 \<le> length p")
    case True
    then have t: "blocks64 (p @ r) = take 64 p # blocks64 (drop 64 p @ r)"
      using blocks64_append [of "take 64 p" "drop 64 p @ r"] by (simp flip: append_assoc)
    have "sha256_loop (sha256_block s (take 64 p)) (drop 64 p) = (s', q)"
      using 1(2) True by (simp add: sha256_loop.simps [of s p])
    from 1(1) [OF True this] show ?thesis
      using 1(3) True by (simp add: t block_compress [symmetric] le_mod_geq)
  qed (use 1 in \<open>simp add: sha256_loop.simps [of s p]\<close>)
qed

lemma put_length_eq:
  assumes "length block = 64"
  shows "put_length bits block = take 56 block @ map (\<lambda>i. ucast (drop_bit (i * 8) bits)) (rev [0..<8])"
proof -
  have b: "block = take 56 block @ drop 56 block" by simp
  obtain b0 b1 b2 b3 b4 b5 b6 b7 where d: "drop 56 block = [b0, b1, b2, b3, b4, b5, b6, b7]"
    using list8 [of "drop 56 block"] assms by auto
  show ?thesis unfolding put_length_def
    by (subst b, simp only: d) (simp add: assms upt_rec list_update_append)
qed

lemma ucast_drop_bit: "ucast (drop_bit (i * 8) x) = (of_nat (unat x div 256 ^ i) :: byte)"
proof -
  have "(2 :: nat) ^ (i * 8) = 256 ^ i" by (simp add: mult.commute [of i] power_mult)
  then have "unat (drop_bit (i * 8) x) = unat x div 256 ^ i"
    by (simp add: unsigned_drop_bit_eq take_bit_nat_eq_self) (simp add: drop_bit_eq_div)
  then show ?thesis by (metis of_nat_unat)
qed

lemma length_bytes:
  assumes "8 * n < 2 ^ 64"
  shows "map (\<lambda>i. ucast (drop_bit (i * 8) (of_nat n * 8 :: 64 word))) (rev [0..<8]) = be_bytes 8 (8 * n)"
proof -
  have "unat (of_nat n * 8 :: 64 word) = 8 * n"
    using assms by (simp add: unat_word_ariths unsigned_of_nat take_bit_eq_mod)
  then show ?thesis by (simp add: ucast_drop_bit be_bytes_def)
qed

lemma store_word_be: "store_word x = be_bytes 4 (unat x)"
  using ucast_drop_bit [of 3 x] ucast_drop_bit [of 2 x] ucast_drop_bit [of 1 x] ucast_drop_bit [of 0 x]
  by (simp add: store_word_def be_bytes_def upt_rec)

text \<open>The code builds the last one or two blocks of the padded message.\<close>

lemma last_blocks:
  assumes "left = length p" "left < 64"
  shows "blocks64 (p @ [0x80] @ replicate ((119 - left) mod 64) 0 @ be_bytes 8 k) =
    (if 56 \<le> left then [p @ [0x80] @ replicate (63 - left) 0, replicate 56 0 @ be_bytes 8 k]
     else [p @ [0x80] @ replicate (55 - left) 0 @ be_bytes 8 k])"
proof (cases "56 \<le> left")
  case True
  then have m: "(119 - left) mod 64 = (63 - left) + 56" using assms by simp
  have "blocks64 ((p @ [0x80] @ replicate (63 - left) 0) @ replicate 56 0 @ be_bytes 8 k) =
    [p @ [0x80] @ replicate (63 - left) 0, replicate 56 0 @ be_bytes 8 k]"
    using assms True by (subst blocks64_append, simp) (subst blocks64.simps, simp add: be_bytes_def blocks64.simps)
  then show ?thesis using True by (simp add: m replicate_add)
next
  case False
  have "119 - left = (55 - left) + 64" using False by simp
  then have m: "(119 - left) mod 64 = 55 - left" using False by (simp only: mod_add_self2) simp
  show ?thesis using False assms
    unfolding m by (subst blocks64.simps) (simp add: be_bytes_def blocks64.simps)
qed



end
