(* ===== verification/Pw.thy ===== *)
theory Pw
  imports Sha256 Strings_Read Printf
begin

text \<open>
  Password hashes, \<open>crypto/pw.c\<close>. The password, the salt and the stored hash are C strings,
  objects of bytes that are read with the routines of \<open>Strings_Read\<close>; the stored hash is
  printed with \<open>snprintf\<close>.
\<close>

definition PW_TMP_LEN :: nat where "PW_TMP_LEN = 256"
definition PW_HASH_HEX_LEN :: nat where "PW_HASH_HEX_LEN = 64"
definition SALT_LEN :: nat where "SALT_LEN = 8"

definition hex_digit :: "byte \<Rightarrow> byte" where
  "hex_digit b = bytes ''0123456789abcdef'' ! unat b"

definition hex_encode :: "byte list \<Rightarrow> byte list" where
  "hex_encode input = concat (map (\<lambda>b. [hex_digit (drop_bit 4 b), hex_digit (b AND 0xf)]) input) @ [0]"

text \<open>The characters a \<open>%s\<close> conversion reads from a string in memory.\<close>

definition text_at :: "byte list \<Rightarrow> string" where
  "text_at p = map (char_of \<circ> unat) (takeWhile (\<lambda>b. b \<noteq> 0) p)"

text \<open>The result and the contents of \<open>out\<close>, which holds at least \<open>sz\<close> characters.\<close>

definition pw_hash :: "byte list \<Rightarrow> byte list \<Rightarrow> string \<Rightarrow> nat \<Rightarrow> (int \<times> string) option" where
  "pw_hash password salt dst sz =
     do { slen \<leftarrow> strlen salt;
          plen \<leftarrow> strlen password;
          if PW_TMP_LEN \<le> slen + plen then Some (-1, dst)
          else do {
            let digest = sha256 (take slen salt @ take plen password);
            let hex = hex_encode digest;
            (n, r) \<leftarrow> snprintf (\<lambda>p. if p = 1 then text_at salt else text_at hex)
                        (Some dst) sz ''$sha256$%s$%s'' [1, 2];
            dst \<leftarrow> r;
            Some (if n < 0 \<or> int sz \<le> n then -1 else 0, dst) } }"

definition diff_loop :: "byte list \<Rightarrow> byte list \<Rightarrow> byte" where
  "diff_loop computed stored =
     fold (\<lambda>i diff. diff OR (computed ! i XOR stored ! i)) [0..<PW_HASH_HEX_LEN] 0"

definition pw_verify :: "byte list \<Rightarrow> byte list option \<Rightarrow> int option" where
  "pw_verify password stored =
     (case stored of
        None \<Rightarrow> Some (-1)
      | Some st \<Rightarrow>
          do { d \<leftarrow> strncmp st (cstr (bytes ''$sha256$'')) 8;
               if d \<noteq> 0 then Some (-1)
               else do {
                 let salt = drop 8 st;
                 e \<leftarrow> strchr salt (of_char CHR ''$'');
                 case e of
                   None \<Rightarrow> Some (-1)
                 | Some slen \<Rightarrow>
                     if slen = 0 \<or> 32 \<le> slen then Some (-1)
                     else do {
                       let rest = drop (slen + 1) salt;
                       n \<leftarrow> strlen rest;
                       if n \<noteq> PW_HASH_HEX_LEN then Some (-1)
                       else do {
                         plen \<leftarrow> strlen password;
                         if PW_TMP_LEN \<le> slen + plen then Some (-1)
                         else do {
                           let computed = hex_encode (sha256 (take slen salt @ take plen password));
                           Some (if diff_loop computed rest \<noteq> 0 then -1 else 0) } } } } })"

text \<open>The clock and the process id are inputs of \<open>pw_generate\<close>.\<close>

definition pw_seed :: "64 word \<Rightarrow> 64 word \<Rightarrow> 32 word \<Rightarrow> 32 word" where
  "pw_seed tv_sec tv_usec pid = ucast tv_sec XOR push_bit 12 (ucast tv_usec) XOR pid"

definition pw_generate ::
  "64 word \<Rightarrow> 64 word \<Rightarrow> 32 word \<Rightarrow> byte list \<Rightarrow> string \<Rightarrow> nat \<Rightarrow> (int \<times> string) option"
where
  "pw_generate tv_sec tv_usec pid password dst sz =
     do { let seed = pw_seed tv_sec tv_usec pid;
          (n, r) \<leftarrow> snprintf (\<lambda>_. []) (Some (replicate (SALT_LEN + 1) CHR 0x00)) (SALT_LEN + 1) ''%08x'' [ucast seed];
          salt \<leftarrow> r;
          pw_hash password (bytes salt) dst sz }"

section \<open>Hexadecimal digits\<close>

lemma hex_digit_inj:
  assumes "unat a < 16" "unat b < 16" "hex_digit a = hex_digit b"
  shows "a = b"
proof -
  have "unat a \<in> set [0..<16]" "unat b \<in> set [0..<16]" using assms by auto
  then have "unat a = unat b"
    using assms(3) unfolding hex_digit_def by (simp add: upt_rec) (elim disjE; simp)
  then show ?thesis by (rule unsigned_word_eqI)
qed

lemma hex_digit_ok: "unat a < 16 \<Longrightarrow> hex_digit a \<noteq> 0"
proof -
  assume "unat a < 16"
  then have "unat a \<in> set [0..<16]" by simp
  then show ?thesis unfolding hex_digit_def by (simp add: upt_rec) (elim disjE; simp)
qed

lemma nibbles:
  fixes b :: byte
  shows "unat (drop_bit 4 b) < 16" "unat (b AND 0xf) < 16" "push_bit 4 (drop_bit 4 b) OR (b AND 0xf) = b"
proof -
  show "unat (drop_bit 4 b) < 16"
    using unat_bound [of b] by (simp add: unsigned_drop_bit_eq take_bit_nat_eq_self) (simp add: drop_bit_eq_div)
  have m: "b AND 0xf = take_bit 4 b" by (simp add: take_bit_eq_mask mask_eq_exp_minus_1)
  show "unat (b AND 0xf) < 16" unfolding m using take_bit_nat_less_exp [of 4 "unat b"] by (simp add: unsigned_take_bit_eq)
  show "push_bit 4 (drop_bit 4 b) OR (b AND 0xf) = b"
    unfolding m by (rule bit_word_eqI) (auto simp: bit_simps)
qed

definition hex_text :: "byte list \<Rightarrow> byte list" where
  "hex_text d = concat (map (\<lambda>b. [hex_digit (drop_bit 4 b), hex_digit (b AND 0xf)]) d)"

lemma hex_encode_cstr: "hex_encode d = cstr (hex_text d)"
  by (simp add: hex_encode_def hex_text_def cstr_def)

lemma hex_text_simps [simp]: "hex_text [] = []" "hex_text (b # d) = hex_digit (drop_bit 4 b) # hex_digit (b AND 0xf) # hex_text d"
  by (simp_all add: hex_text_def)

lemma length_hex_text [simp]: "length (hex_text d) = 2 * length d"
  by (induction d) auto

lemma nonul_hex_text [simp]: "nonul (hex_text d)"
  using hex_digit_ok nibbles(1,2) by (induction d) auto

lemma hex_text_inj: "length d = length e \<Longrightarrow> hex_text d = hex_text e \<longleftrightarrow> d = e"
proof (induction d e rule: list_induct2)
  case (Cons a d b e)
  have "a = b" if "hex_digit (drop_bit 4 a) = hex_digit (drop_bit 4 b)" "hex_digit (a AND 0xf) = hex_digit (b AND 0xf)"
    using that hex_digit_inj nibbles by metis
  then show ?case using Cons.IH by auto
qed simp

section \<open>The round trip\<close>

lemma length_sha256 [simp]: "length (sha256 d) = 32"
proof -
  have l: "length s = 8 \<Longrightarrow> length (concat (map store_word s)) = 32" for s
    by (subst list8) (simp_all add: store_word_def)
  show ?thesis unfolding sha256_def Let_def by (simp add: split_beta l)
qed

lemma xor_zero_iff: "x XOR y = 0 \<longleftrightarrow> x = (y :: byte)"
  by (auto simp: bit_eq_iff bit_xor_iff)

lemma diff_zero: "fold (\<lambda>i diff. diff OR (a ! i XOR b ! i)) [0..<n] 0 = (0 :: byte) \<longleftrightarrow> (\<forall>i<n. a ! i = b ! i)"
  by (induction n) (auto simp: less_Suc_eq or_eq_0_iff xor_zero_iff)

lemma take_length_cstr: "take (length s) (cstr s) = s"
  by (simp add: cstr_def)

lemma diff_loop_zero:
  assumes "length c = 64" "length d = 64"
  shows "diff_loop (cstr c) (cstr d @ r) = 0 \<longleftrightarrow> c = d"
  unfolding diff_loop_def diff_zero using assms
  by (auto simp: PW_HASH_HEX_LEN_def cstr_def nth_append list_eq_iff_nth_eq)

lemma text_at_cstr: "nonul s \<Longrightarrow> text_at (cstr s) = map (char_of \<circ> unat) s"
  by (induction s) (auto simp: text_at_def)

lemma chr_char_of [simp]: "chr (char_of (unat b)) = b"
proof -
  have "unat b < 256" using unat_bound [of b] by simp
  then have "of_char (char_of (unat b) :: char) = unat b" by simp
  then show ?thesis by (metis of_nat_of_char of_nat_unat ucast_id)
qed

lemma bytes_text [simp]: "map (chr \<circ> (char_of \<circ> unat)) s = s"
  by (induction s) simp_all

text \<open>The stored form of a hash.\<close>

definition stored_hash :: "byte list \<Rightarrow> byte list \<Rightarrow> byte list" where
  "stored_hash salt pw = bytes ''$sha256$'' @ salt @ chr CHR ''$'' # hex_text (sha256 (salt @ pw))"

lemma pw_hash_ok:
  assumes "nonul salt" "nonul pw" "length salt + length pw < 256"
    and "74 + length salt \<le> sz" "sz \<le> length dst"
  shows "\<exists>r. pw_hash (cstr pw) (cstr salt) dst sz = Some (0, r) \<and> bytes r = cstr (stored_hash salt pw) @ bytes (drop (74 + length salt) dst)"
proof -
  let ?h = "hex_text (sha256 (salt @ pw))"
  let ?str = "\<lambda>p :: 64 word. if p = 1 then text_at (cstr salt) else text_at (cstr ?h)"
  let ?txt = "''$sha256$'' @ text_at (cstr salt) @ ''$'' @ text_at (cstr ?h)"
  have f: "format_text ?str ''$sha256$%s$%s'' [1, 2] = Some (True, ?txt)"
    by (simp add: fmt_simps)
  have len: "length ?txt = 73 + length salt" using assms(1) by (simp add: text_at_cstr)
  have sz: "length ?txt \<le> sz - 1" using assms(4) len by simp
  have "snprintf ?str (Some dst) sz ''$sha256$%s$%s'' [1, 2] =
    Some (int (73 + length salt), Some (?txt @ [CHR 0x00] @ drop (74 + length salt) dst))"
    using snprintf_buffer [OF _ assms(5) f] assms(3,4) len take_all [OF sz] by (simp add: min_def)
  then have "pw_hash (cstr pw) (cstr salt) dst sz = Some (0, ?txt @ [CHR 0x00] @ drop (74 + length salt) dst)"
    using assms by (simp add: pw_hash_def PW_TMP_LEN_def Let_def hex_encode_cstr take_length_cstr)
  moreover have "bytes (?txt @ [CHR 0x00] @ drop (74 + length salt) dst) = cstr (stored_hash salt pw) @ bytes (drop (74 + length salt) dst)"
    using assms(1) by (simp add: text_at_cstr) (simp add: stored_hash_def cstr_def)
  ultimately show ?thesis by blast
qed

lemma first_index_skip: "x \<notin> set s \<Longrightarrow> first_index (\<lambda>b. b = x) (s @ x # r) = Some (length s)"
  by (induction s) auto

lemma verify_stored:
  assumes "nonul salt" "chr CHR ''$'' \<notin> set salt" "0 < length salt" "length salt < 32"
    and "nonul pw" "nonul pw'" "length salt + length pw' < 256"
  shows "pw_verify (cstr pw') (Some (cstr (stored_hash salt pw) @ r)) =
    Some (if sha256 (salt @ pw') = sha256 (salt @ pw) then 0 else -1)"
proof -
  let ?h = "hex_text (sha256 (salt @ pw))"
  let ?st = "cstr (stored_hash salt pw) @ r"
  have st: "?st = bytes ''$sha256$'' @ (salt @ chr CHR ''$'' # ?h) @ 0 # r"
    by (simp add: stored_hash_def cstr_def)
  have "strncmp ?st (cstr (bytes ''$sha256$'')) 8 = Some 0"
    unfolding st by (simp add: numeral_eq_Suc)
  moreover have "strchr (drop 8 ?st) (of_char CHR ''$'') = Some (Some (length salt))"
    unfolding st using assms(1) first_index_skip [OF assms(2), of ?h]
    by (subst drop_append) (simp add: strchr_append [of "salt @ _ # _", simplified])
  moreover have "drop (length salt + 1) (drop 8 ?st) = cstr ?h @ r" "take (length salt) (drop 8 ?st) = salt"
    unfolding st by (simp_all add: cstr_def)
  moreover have "strlen (cstr ?h @ r) = Some 64" by (simp add: cstr_def strlen_append)
  moreover have "diff_loop (cstr (hex_text (sha256 (salt @ pw')))) (cstr ?h @ r) = 0 \<longleftrightarrow> sha256 (salt @ pw') = sha256 (salt @ pw)"
    by (simp add: diff_loop_zero hex_text_inj)
  moreover have "take (length pw') (cstr pw') = pw'" by (simp add: cstr_def)
  ultimately show ?thesis
    using assms by (simp add: pw_verify_def PW_TMP_LEN_def PW_HASH_HEX_LEN_def Let_def hex_encode_cstr del: drop_drop)
qed

text \<open>
  A hash that \<open>pw_hash\<close> stored under a salt of 1 to 31 characters without a dollar sign is
  accepted by \<open>pw_verify\<close> for exactly the passwords whose salted digest is the same, so for the
  password itself; every other password is rejected, and no read leaves a string.
\<close>

theorem pw_hash_verify:
  assumes "nonul salt" "chr CHR ''$'' \<notin> set salt" "0 < length salt" "length salt < 32"
    and "nonul pw" "length salt + length pw < 256" "74 + length salt \<le> sz" "sz \<le> length dst"
    and "nonul pw'" "length salt + length pw' < 256"
  shows "\<exists>r. pw_hash (cstr pw) (cstr salt) dst sz = Some (0, r) \<and>
     pw_verify (cstr pw') (Some (bytes r)) = Some (if sha256 (salt @ pw') = sha256 (salt @ pw) then 0 else -1)"
  using pw_hash_ok [OF assms(1,5,6,7,8)] verify_stored [OF assms(1-5) assms(9,10)] by auto

theorem pw_hash_verify_witness:
  "\<exists>r. pw_hash (cstr (bytes ''secret'')) (cstr (bytes ''0a1b'')) (replicate 89 CHR ''_'') 89 = Some (0, r) \<and>
     pw_verify (cstr (bytes ''secret'')) (Some (bytes r)) =
       Some (if sha256 (bytes ''0a1b'' @ bytes ''secret'') = sha256 (bytes ''0a1b'' @ bytes ''secret'') then 0 else -1)"
  by (rule pw_hash_verify) simp_all

section \<open>Generated salts\<close>

lemma fmt_x_digits:
  assumes "x < 16 ^ Suc k" "set s \<subseteq> set lower_digits"
  shows "length (fmt_x x s lower_digits) \<le> length s + Suc k \<and> set (fmt_x x s lower_digits) \<subseteq> set lower_digits"
  using assms
proof (induction k arbitrary: x s)
  case 0
  then have "lower_digits ! x \<in> set lower_digits" by (intro nth_mem) (simp add: lower_digits_def)
  then show ?case using 0 by (subst (1 2) fmt_x.simps) (simp add: Let_def)
next
  case (Suc k)
  have "x div 16 < 16 ^ Suc k" using Suc.prems by (simp add: div_less_iff_less_mult mult.commute)
  moreover have "x mod 16 < length lower_digits" by (simp add: lower_digits_def)
  then have "set (lower_digits ! (x mod 16) # s) \<subseteq> set lower_digits" using Suc.prems by simp
  ultimately show ?case
    using Suc.IH [of "x div 16" "lower_digits ! (x mod 16) # s"] Suc.prems(2)
    by (subst (1 2) fmt_x.simps) (auto simp: Let_def)
qed

lemma format_08x:
  fixes seed :: "32 word"
  shows "\<exists>salt. format_text str ''%08x'' [ucast seed] = Some (True, salt) \<and> length salt = 8 \<and> set salt \<subseteq> set lower_digits"
proof -
  let ?d = "fmt_x (unat seed) [] lower_digits"
  have b: "unat seed < 16 ^ Suc 7" using unat_bound [of seed] by simp
  have d: "length ?d \<le> 8" "set ?d \<subseteq> set lower_digits" using fmt_x_digits [OF b, of "[]"] by simp_all
  have "format_text str ''%08x'' [ucast seed] = Some (True, replicate (8 - length ?d) CHR ''0'' @ ?d)"
  proof -
    have "(ucast (ucast seed :: 64 word) :: 32 word) = seed"
      by (intro bit_word_eqI) (simp add: bit_simps)
    then have u: "unat (ucast (ucast (ucast seed :: 64 word) :: 32 word) :: 64 word) = unat seed"
      using unat_bound [of seed] by (simp only: unsigned_ucast_eq) (simp add: take_bit_nat_eq_self)
    show ?thesis using d(1) by (simp add: fmt_simps u dig_val_def)
  qed
  then show ?thesis using d by (auto simp: lower_digits_def)
qed

text \<open>
  The hash that \<open>pw_generate\<close> stores for a password of up to 247 characters is accepted for
  that password, whatever the clock and the process id were.
\<close>

theorem pw_generate_verifies:
  assumes "nonul pw" "length pw < 248" "82 \<le> sz" "sz \<le> length dst"
  shows "\<exists>r. pw_generate tv_sec tv_usec pid (cstr pw) dst sz = Some (0, r) \<and> pw_verify (cstr pw) (Some (bytes r)) = Some 0"
proof -
  let ?z = "replicate 9 CHR 0x00"
  obtain salt where f: "format_text (\<lambda>_. []) ''%08x'' [ucast (pw_seed tv_sec tv_usec pid)] = Some (True, salt)"
    and l: "length salt = 8" and d: "set salt \<subseteq> set lower_digits" using format_08x by blast
  have "snprintf (\<lambda>_. []) (Some ?z) 9 ''%08x'' [ucast (pw_seed tv_sec tv_usec pid)] = Some (8, Some (salt @ [CHR 0x00]))"
    using snprintf_buffer [OF _ _ f, of 9 ?z] l by simp
  then have g: "pw_generate tv_sec tv_usec pid (cstr pw) dst sz = pw_hash (cstr pw) (cstr (bytes salt)) dst sz"
    by (simp add: pw_generate_def SALT_LEN_def Let_def cstr_def)
  have s: "nonul (bytes salt)" "chr CHR ''$'' \<notin> set (bytes salt)"
    using d by (auto simp: nonul_def lower_digits_def)
  show ?thesis unfolding g
    using pw_hash_ok [OF s(1) assms(1), of sz dst] verify_stored [OF s _ _ assms(1) assms(1)] assms l by auto
qed

theorem pw_generate_verifies_witness:
  "\<exists>r. pw_generate 1700000000 123456 42 (cstr (bytes ''secret'')) (replicate 89 CHR ''_'') 89 = Some (0, r) \<and>
     pw_verify (cstr (bytes ''secret'')) (Some (bytes r)) = Some 0"
  by (rule pw_generate_verifies) simp_all

end
