(* ===== verification/Inet.thy ===== *)
theory Inet
  imports Bits Printf
begin

text \<open>
  Internet addresses, \<open>net/inet.c\<close>: byte order and the dotted notation. An address is the word
  \<open>s_addr\<close>, whose bytes in memory (least significant first on the target) are the octets.
\<close>

definition htonl :: "32 word \<Rightarrow> 32 word" where "htonl hostlong = brk_bswap32 hostlong"
definition htons :: "16 word \<Rightarrow> 16 word" where "htons hostshort = brk_bswap16 hostshort"
definition ntohl :: "32 word \<Rightarrow> 32 word" where "ntohl netlong = brk_bswap32 netlong"
definition ntohs :: "16 word \<Rightarrow> 16 word" where "ntohs netshort = brk_bswap16 netshort"

text \<open>
  The loop of \<open>parse_octet\<close>: the outer \<open>None\<close> is a read out of bounds, the inner one the result
  0. The value never exceeds 255 at the head of the loop, so it does not wrap.
\<close>

fun octet_loop :: "byte list \<Rightarrow> nat \<Rightarrow> nat \<Rightarrow> (nat \<times> nat \<times> byte list) option option" where
  "octet_loop [] v digits = None"
| "octet_loop (c # p) v digits =
     (if 48 \<le> c \<and> c \<le> 57
      then let v = v * 10 + unat (c - 48)
           in if 255 < v then Some None else octet_loop p v (digits + 1)
      else Some (Some (v, digits, c # p)))"

definition parse_octet :: "byte list \<Rightarrow> (nat \<times> byte list) option option" where
  "parse_octet p =
     map_option (\<lambda>r. case r of None \<Rightarrow> None
                     | Some (v, digits, p) \<Rightarrow> if digits = 0 then None else Some (v, p))
       (octet_loop p 0 0)"

text \<open>The loop over the four parts: \<open>i\<close> counts them, and the parts read so far are collected.\<close>

function aton_loop :: "nat \<Rightarrow> byte list \<Rightarrow> nat list \<Rightarrow> (nat list \<times> byte list) option option" where
  "aton_loop i p parts =
     (if i < 4
      then case parse_octet p of
          None \<Rightarrow> None
        | Some None \<Rightarrow> Some None
        | Some (Some (v, p)) \<Rightarrow>
            if i < 3
            then case p of
                [] \<Rightarrow> None
              | c # p \<Rightarrow> if c \<noteq> chr CHR ''.'' then Some None else aton_loop (i + 1) p (parts @ [v])
            else aton_loop (i + 1) p (parts @ [v])
      else Some (Some (parts, p)))"
  by pat_completeness auto
termination by (relation "measure (\<lambda>(i, p, parts). 4 - i)") auto

declare aton_loop.simps [simp del]

definition addr_of_parts :: "nat list \<Rightarrow> 32 word" where
  "addr_of_parts parts =
     ucast (of_nat (parts ! 0) :: byte) OR push_bit 8 (ucast (of_nat (parts ! 1) :: byte)) OR
     push_bit 16 (ucast (of_nat (parts ! 2) :: byte)) OR push_bit 24 (ucast (of_nat (parts ! 3) :: byte))"

definition inet_aton :: "byte list option \<Rightarrow> 32 word option option" where
  "inet_aton cp =
     (case cp of
        None \<Rightarrow> Some None
      | Some p \<Rightarrow>
          (case aton_loop 0 p [] of
             None \<Rightarrow> None
           | Some None \<Rightarrow> Some None
           | Some (Some (parts, p)) \<Rightarrow>
               (case p of
                  [] \<Rightarrow> None
                | c # _ \<Rightarrow> if c \<noteq> 0 then Some None else Some (Some (addr_of_parts parts)))))"

definition INADDR_NONE :: "32 word" where "INADDR_NONE = 0xffffffff"

definition inet_addr :: "byte list option \<Rightarrow> 32 word option" where
  "inet_addr cp = map_option (\<lambda>r. case r of None \<Rightarrow> INADDR_NONE | Some a \<Rightarrow> a) (inet_aton cp)"

definition octet :: "32 word \<Rightarrow> nat \<Rightarrow> byte" where
  "octet s_addr i = ucast (drop_bit (8 * i) s_addr)"

text \<open>The text left in the static buffer.\<close>

definition inet_ntoa :: "32 word \<Rightarrow> string \<Rightarrow> string option" where
  "inet_ntoa s_addr buf =
     do { (n, r) \<leftarrow> snprintf (\<lambda>_. []) (Some buf) 16 ''%u.%u.%u.%u''
                     [ucast (octet s_addr 0), ucast (octet s_addr 1), ucast (octet s_addr 2), ucast (octet s_addr 3)];
          r }"

section \<open>Lemmas\<close>

lemma dec_lt_256: "n < 256 \<Longrightarrow> length (dec n) \<le> 3"
  by (subst dec_rec, subst dec_rec, subst dec_rec) auto

lemma chr_digit: "n < 10 \<Longrightarrow> chr (lower_digits ! n) = of_nat (48 + n)"
  using digit_char [of n] by (metis of_nat_of_char)

lemma octet_step:
  assumes "v * 10 + n < 256" "n < 10"
  shows "octet_loop (chr (lower_digits ! n) # r) v d = octet_loop r (v * 10 + n) (d + 1)"
proof -
  have "chr (lower_digits ! n) = 48 + of_nat n" using chr_digit [OF assms(2)] by simp
  moreover have "unat (of_nat n :: byte) = n" using assms(2) by (simp add: unsigned_of_nat take_bit_nat_eq_self)
  moreover have "48 \<le> (48 + of_nat n :: byte)" "(48 + of_nat n :: byte) \<le> 57"
    using assms(2) by (simp_all add: word_le_nat_alt unat_word_ariths unsigned_of_nat take_bit_nat_eq_self)
  ultimately show ?thesis using assms(1) by (simp add: Let_def)
qed

lemma octet_loop_dec:
  "n < 256 \<Longrightarrow> \<exists>d>0. octet_loop (bytes (dec n) @ r) 0 0 = octet_loop r n d"
proof (induction n arbitrary: r rule: less_induct)
  case (less n)
  show ?case
  proof (cases "n < 10")
    case True
    have "octet_loop (bytes (dec n) @ r) 0 0 = octet_loop r n 1"
      using True octet_step [of 0 n r 0] by (subst dec_rec) simp
    then show ?thesis by blast
  next
    case False
    have "n div 10 < n" "n div 10 < 256" using False less.prems by simp_all
    from less.IH [OF this, of "chr (lower_digits ! (n mod 10)) # r"] obtain d where
      "octet_loop (bytes (dec (n div 10)) @ chr (lower_digits ! (n mod 10)) # r) 0 0 =
        octet_loop (chr (lower_digits ! (n mod 10)) # r) (n div 10) d" by blast
    then have "octet_loop (bytes (dec n) @ r) 0 0 = octet_loop r n (d + 1)"
      using False less.prems octet_step [of "n div 10" "n mod 10" r d] by (subst dec_rec) simp
    then show ?thesis by (intro exI [of _ "d + 1"]) simp
  qed
qed

lemma parse_octet_dec:
  assumes "n < 256" "c < 48 \<or> 57 < c"
  shows "parse_octet (bytes (dec n) @ c # r) = Some (Some (n, c # r))"
  using octet_loop_dec [OF assms(1), of "c # r"] assms(2) by (auto simp: parse_octet_def)

lemma addr_octets:
  "addr_of_parts [unat (octet a 0), unat (octet a 1), unat (octet a 2), unat (octet a 3)] = a"
proof (rule bit_word_eqI)
  fix n assume "n < LENGTH(32)"
  moreover have "24 + (n - 24) = n \<or> n - 16 < 8" by auto
  ultimately show "bit (addr_of_parts [unat (octet a 0), unat (octet a 1), unat (octet a 2), unat (octet a 3)]) n = bit a n"
    unfolding addr_of_parts_def octet_def by (auto simp: bit_simps dest: bit_imp_le_length)
qed

definition dotted :: "32 word \<Rightarrow> string" where
  "dotted a = dec (unat (octet a 0)) @ ''.'' @ dec (unat (octet a 1)) @ ''.'' @
     dec (unat (octet a 2)) @ ''.'' @ dec (unat (octet a 3))"

lemma aton_dotted: "inet_aton (Some (bytes (dotted a) @ 0 # r)) = Some (Some a)"
proof -
  have o: "unat (octet a i) < 256" for i using unat_bound [of "octet a i"] by simp
  show ?thesis
    unfolding inet_aton_def dotted_def
    using addr_octets [of a] by (simp add: aton_loop.simps parse_octet_dec o)
qed

lemma format_dotted:
  "format_text str ''%u.%u.%u.%u'' [ucast (octet a 0), ucast (octet a 1), ucast (octet a 2), ucast (octet a 3)] =
     Some (True, dotted a)"
proof -
  have u: "unat (ucast (ucast (ucast b :: 64 word) :: 32 word) :: 64 word) = unat b" for b :: byte
  proof -
    have "(ucast (ucast b :: 64 word) :: 32 word) = ucast b"
      by (intro bit_word_eqI) (auto simp: bit_simps dest: bit_imp_le_length)
    moreover have "unat (ucast b :: 32 word) = unat b"
      using unat_bound [of b] by (simp only: unsigned_ucast_eq) (simp add: take_bit_nat_eq_self)
    moreover have "unat (ucast w :: 64 word) = unat w" for w :: "32 word"
      using unat_bound [of w] by (simp only: unsigned_ucast_eq) (simp add: take_bit_nat_eq_self)
    ultimately show ?thesis by (simp only:)
  qed
  show ?thesis by (simp add: fmt_simps u dec_def [symmetric] dotted_def)
qed

text \<open>
  C34. The dotted text that \<open>inet_ntoa\<close> leaves in its buffer is complete and terminated within the
  16 bytes, and \<open>inet_aton\<close> reads it back as the same address, for every address.
\<close>

theorem inet_roundtrip:
  assumes "length buf = 16"
  shows "\<exists>r. inet_ntoa a buf = Some r \<and> inet_aton (Some (bytes r)) = Some (Some a)"
proof -
  have o: "unat (octet a i) < 256" for i using unat_bound [of "octet a i"] by simp
  have l: "length (dotted a) \<le> 15"
    using dec_lt_256 [OF o, of 0] dec_lt_256 [OF o, of 1] dec_lt_256 [OF o, of 2] dec_lt_256 [OF o, of 3]
    by (simp add: dotted_def)
  then have "inet_ntoa a buf = Some (dotted a @ CHR 0x00 # drop (length (dotted a) + 1) buf)"
    using snprintf_buffer [OF _ _ format_dotted, of 16 buf] assms by (simp add: inet_ntoa_def min_def)
  then show ?thesis using aton_dotted by simp
qed

theorem inet_roundtrip_witness:
  "\<exists>r. inet_ntoa 0x0100007f (replicate 16 CHR 0x00) = Some r \<and> inet_aton (Some (bytes r)) = Some (Some 0x0100007f)"
  by (rule inet_roundtrip) simp

end
