(* ===== verification/Uu.thy ===== *)
theory Uu
  imports Stdio_Streams
begin

text \<open>
  The commands \<open>uuencode\<close> and \<open>uudecode\<close>, from their parsed arguments on, over the streams of
  \<open>Stdio\<close>. The input and the output are streams on separate descriptors; each has its own
  kernel. Loops that end with the input have fuel.
\<close>

section \<open>Encoding\<close>

definition enc6 :: "32 word \<Rightarrow> char" where
  "enc6 v = char_of (unat (32 + (v AND 0x3f)))"

text \<open>One pass of the loop over the bytes: the four characters of the group at \<open>i\<close>.\<close>

definition encode_group :: "string \<Rightarrow> nat \<Rightarrow> string" where
  "encode_group buf i =
     (let v = push_bit 16 (of_char (buf ! i));
          v = (if i + 1 < length buf then v OR push_bit 8 (of_char (buf ! (i + 1))) else v);
          v = (if i + 2 < length buf then v OR of_char (buf ! (i + 2)) else v)
      in [enc6 (drop_bit 18 v), enc6 (drop_bit 12 v), enc6 (drop_bit 6 v), enc6 v])"

function encode_loop :: "string \<Rightarrow> nat \<Rightarrow> string" where
  "encode_loop buf i = (if i < length buf then encode_group buf i @ encode_loop buf (i + 3) else [])"
  by pat_completeness auto
termination by (relation "measure (\<lambda>(buf, i). length buf - i)") auto

declare encode_loop.simps [simp del]

text \<open>The characters in \<open>out\<close>: at most 62 for the 45 bytes of a line.\<close>

definition line_text :: "string \<Rightarrow> string" where
  "line_text buf = char_of (32 + length buf) # encode_loop buf 0 @ [CHR 0x0A]"

definition encode_line :: "'w os \<Rightarrow> string \<Rightarrow> 'w io \<Rightarrow> 'w io" where
  "encode_line os buf s = snd (fwrite os (line_text buf) 1 (length (line_text buf)) s)"

fun uuencode_loop :: "nat \<Rightarrow> 'r os \<Rightarrow> 'w os \<Rightarrow> 'r io \<Rightarrow> 'w io \<Rightarrow> ('r io \<times> 'w io) option" where
  "uuencode_loop 0 ros wos fp so = None"
| "uuencode_loop (Suc fuel) ros wos fp so =
     (case fread ros 1 45 fp of
        ((n, buf), fp) \<Rightarrow>
          if n = 0 then Some (fp, so)
          else let so = encode_line wos buf so
               in if n < 45 then Some (fp, so) else uuencode_loop fuel ros wos fp so)"

definition uuencode :: "nat \<Rightarrow> 'r os \<Rightarrow> 'w os \<Rightarrow> string \<Rightarrow> 'r io \<Rightarrow> 'w io \<Rightarrow> ('r io \<times> 'w io) option" where
  "uuencode fuel ros wos name fp so =
     do { (_, so) \<leftarrow> fprintf wos (\<lambda>_. name) ''begin 644 %s\<newline>'' [1] so;
          (fp, so) \<leftarrow> uuencode_loop fuel ros wos fp so;
          (_, so) \<leftarrow> fprintf wos (\<lambda>_. []) ''`\<newline>end\<newline>'' [] so;
          Some (fp, so) }"

section \<open>Decoding\<close>

datatype uu_result = Done | Bad_header | No_begin | Open_failed | Bad_line | Bad_data | Write_failed | Overrun | No_fuel

definition decode_char :: "nat \<Rightarrow> int" where
  "decode_char c = (if c = 0x60 then 0 else if 0x20 \<le> c \<and> c \<le> 0x5f then int c - 0x20 else -1)"

text \<open>The C string at the start of a line.\<close>

definition str_of :: "string \<Rightarrow> string" where
  "str_of s = takeWhile (\<lambda>c. c \<noteq> CHR 0x00) s"

function strip_eol :: "string \<Rightarrow> string" where
  "strip_eol p = (if p \<noteq> [] \<and> (last p = CHR 0x0A \<or> last p = CHR 0x0D) then strip_eol (butlast p) else p)"
  by pat_completeness auto
termination by (relation "measure length") auto

declare strip_eol.simps [simp del]

text \<open>The name in a header line, or \<open>None\<close> if the header is invalid.\<close>

definition header_name :: "string \<Rightarrow> string option" where
  "header_name line =
     (let p = str_of (drop 6 line)
      in if CHR '' '' \<notin> set p then None
         else let p = strip_eol (tl (dropWhile (\<lambda>c. c \<noteq> CHR '' '') p))
              in if p = [] \<or> 512 \<le> length p then None else Some p)"

text \<open>
  The two loops over the lines. \<open>room\<close> says which allocations succeed; \<open>cap\<close> is the capacity of
  the line buffer, \<open>None\<close> while there is none. A failed read ends a loop like the end of the
  input.
\<close>

fun find_begin ::
  "nat \<Rightarrow> 'r os \<Rightarrow> (nat \<Rightarrow> bool) \<Rightarrow> nat option \<Rightarrow> 'r io \<Rightarrow> (uu_result + string \<times> nat option) \<times> 'r io"
where
  "find_begin 0 ros room cap fp = (Inl No_fuel, fp)"
| "find_begin (Suc fuel) ros room cap fp =
     (case getline ros room fuel cap fp of
        (Line cap line, fp) \<Rightarrow>
          if take 6 line = ''begin ''
          then (case header_name line of None \<Rightarrow> Inl Bad_header | Some name \<Rightarrow> Inr (name, Some cap), fp)
          else find_begin fuel ros room (Some cap) fp
      | (Out_of_fuel, fp) \<Rightarrow> (Inl No_fuel, fp)
      | (_, fp) \<Rightarrow> (Inl No_begin, fp))"

text \<open>
  The character of the line buffer at an index. Behind the NUL at the end of the line the buffer
  holds stale characters, but a group that reaches there has read the NUL, which no group may
  contain, so they have no influence.
\<close>

definition line_at :: "string \<Rightarrow> nat \<Rightarrow> int" where
  "line_at line i = decode_char (if i < length line then of_char (line ! i) else 0)"

definition put3 :: "nat \<Rightarrow> string \<Rightarrow> 32 word \<Rightarrow> string" where
  "put3 len outbuf v =
     (let outbuf = (if length outbuf < len then outbuf @ [char_of (unat (drop_bit 16 v))] else outbuf);
          outbuf = (if length outbuf < len then outbuf @ [char_of (unat (drop_bit 8 v))] else outbuf)
      in if length outbuf < len then outbuf @ [char_of (unat v)] else outbuf)"

text \<open>The loop over the groups. A store behind the 45 bytes of \<open>outbuf\<close> is \<open>Overrun\<close>.\<close>

function decode_loop :: "string \<Rightarrow> nat \<Rightarrow> nat \<Rightarrow> string \<Rightarrow> uu_result + string" where
  "decode_loop line len i outbuf =
     (if i < len then
        let c1 = line_at line (1 + i div 3 * 4); c2 = line_at line (2 + i div 3 * 4);
            c3 = line_at line (3 + i div 3 * 4); c4 = line_at line (4 + i div 3 * 4)
        in if c1 < 0 \<or> c2 < 0 \<or> c3 < 0 \<or> c4 < 0 then Inl Bad_data
           else let v = push_bit 18 (of_int c1) OR push_bit 12 (of_int c2) OR push_bit 6 (of_int c3) OR of_int c4;
                    outbuf = put3 len outbuf v
                in if 45 < length outbuf then Inl Overrun else decode_loop line len (i + 3) outbuf
      else Inr outbuf)"
  by pat_completeness auto
termination by (relation "measure (\<lambda>(line, len, i, outbuf). len - i)") (auto intro: diff_less_mono2)

declare decode_loop.simps [simp del]

fun uudecode_loop ::
  "nat \<Rightarrow> 'r os \<Rightarrow> 'w os \<Rightarrow> (nat \<Rightarrow> bool) \<Rightarrow> nat option \<Rightarrow> 'r io \<Rightarrow> 'w io \<Rightarrow> uu_result \<times> 'r io \<times> 'w io"
where
  "uudecode_loop 0 ros wos room cap fp so = (No_fuel, fp, so)"
| "uudecode_loop (Suc fuel) ros wos room cap fp so =
     (case getline ros room fuel cap fp of
        (Line cap line, fp) \<Rightarrow>
          if take 3 line = ''end'' then (Done, fp, so)
          else if hd line = CHR 0x0A \<or> hd line = CHR 0x0D then uudecode_loop fuel ros wos room (Some cap) fp so
          else let len = decode_char (of_char (hd line))
               in if len < 0 then (Bad_line, fp, so)
                  else (case decode_loop line (nat len) 0 [] of
                      Inl e \<Rightarrow> (e, fp, so)
                    | Inr outbuf \<Rightarrow>
                        (case fwrite wos outbuf 1 (length outbuf) so of
                           (n, so) \<Rightarrow>
                             if n \<noteq> length outbuf then (Write_failed, fp, so)
                             else uudecode_loop fuel ros wos room (Some cap) fp so))
      | (Out_of_fuel, fp) \<Rightarrow> (No_fuel, fp, so)
      | (_, fp) \<Rightarrow> (Done, fp, so))"

text \<open>
  The whole command: \<open>outname\<close> is the argument of \<open>-o\<close>, and \<open>opens\<close> tells what opening a file
  for writing gives. The result has the name and the stream of the output.
\<close>

definition uudecode ::
  "nat \<Rightarrow> 'r os \<Rightarrow> 'w os \<Rightarrow> (nat \<Rightarrow> bool) \<Rightarrow> (string \<Rightarrow> 'w io option) \<Rightarrow> string option \<Rightarrow> 'r io \<Rightarrow>
   uu_result \<times> (string \<times> 'w io) option"
where
  "uudecode fuel ros wos room opens outname fp =
     (case find_begin fuel ros room None fp of
        (Inl e, fp) \<Rightarrow> (e, None)
      | (Inr (name, cap), fp) \<Rightarrow>
          let outname = (case outname of None \<Rightarrow> name | Some f \<Rightarrow> f)
          in case opens outname of
              None \<Rightarrow> (Open_failed, None)
            | Some so \<Rightarrow>
                (case uudecode_loop fuel ros wos room cap fp so of
                   (r, fp, so) \<Rightarrow> (r, Some (outname, so))))"

section \<open>One group\<close>

lemma enc6_code: "of_char (enc6 v) = (32 + unat (v AND 0x3f) :: nat)" "unat (v AND 0x3f) < 64"
proof -
  have m: "v AND 0x3f = take_bit 6 v" by (simp add: take_bit_eq_mask mask_eq_exp_minus_1)
  show b: "unat (v AND 0x3f) < 64"
    unfolding m using take_bit_nat_less_exp [of 6 "unat v"] by (simp add: unsigned_take_bit_eq)
  then have "unat (32 + (v AND 0x3f)) = 32 + unat (v AND 0x3f)" by (simp add: unat_word_ariths)
  then show "of_char (enc6 v) = (32 + unat (v AND 0x3f) :: nat)" using b by (simp add: enc6_def)
qed

lemma decode_enc6 [simp]: "decode_char (of_char (enc6 v)) = uint (v AND 0x3f)"
  using enc6_code [of v] by (simp add: decode_char_def)

lemma enc6_plain: "enc6 v \<noteq> CHR 0x0A" "enc6 v \<noteq> CHR 0x00"
proof -
  have "of_char (enc6 v) \<ge> (32 :: nat)" by (simp add: enc6_code)
  moreover have "of_char (CHR 0x0A) < (32 :: nat)" "of_char (CHR 0x00) < (32 :: nat)" by simp_all
  ultimately show "enc6 v \<noteq> CHR 0x0A" "enc6 v \<noteq> CHR 0x00" by (metis not_le)+
qed

lemma sextets:
  fixes v :: "32 word"
  assumes "v = take_bit 24 v"
  shows "push_bit 18 (drop_bit 18 v AND 0x3f) OR push_bit 12 (drop_bit 12 v AND 0x3f) OR
    push_bit 6 (drop_bit 6 v AND 0x3f) OR (v AND 0x3f) = v"
proof (rule bit_word_eqI)
  fix n assume "n < LENGTH(32)"
  have m: "x AND 0x3f = take_bit 6 x" for x :: "32 word" by (simp add: take_bit_eq_mask mask_eq_exp_minus_1)
  have v: "bit v n \<longleftrightarrow> n < 24 \<and> bit v n" by (subst assms) (simp add: bit_take_bit_iff)
  consider "n < 6" | "6 \<le> n" "n < 12" | "12 \<le> n" "n < 18" | "18 \<le> n" "n < 24" | "24 \<le> n" by linarith
  then show "bit (push_bit 18 (drop_bit 18 v AND 0x3f) OR push_bit 12 (drop_bit 12 v AND 0x3f) OR
    push_bit 6 (drop_bit 6 v AND 0x3f) OR (v AND 0x3f)) n = bit v n"
    unfolding m using v by cases (auto simp: bit_simps)
qed

lemma low_byte: "char_of (unat (v :: 32 word)) = char_of (unat (take_bit 8 v))"
  by (simp add: unsigned_take_bit_eq char_of_take_bit_eq)

lemma of_char_bits: "take_bit 8 (of_char c :: 32 word) = of_char c" "8 \<le> n \<Longrightarrow> \<not> bit (of_char c :: 32 word) n"
proof -
  show t: "take_bit 8 (of_char c :: 32 word) = of_char c"
  proof -
    have "of_char c < (2 :: nat) ^ 8" by simp
    then have "take_bit 8 (of_char c) = (of_char c :: nat)" by (rule take_bit_nat_eq_self)
    then show ?thesis by (metis of_nat_of_char take_bit_of_nat)
  qed
  show "8 \<le> n \<Longrightarrow> \<not> bit (of_char c :: 32 word) n" by (subst t [symmetric]) (simp add: bit_take_bit_iff)
qed

lemma char_of_char_word [simp]: "char_of (unat (of_char c :: 32 word)) = c"
proof -
  have "of_char c < (256 :: nat)" by simp
  then have "take_bit 32 (of_char c) = (of_char c :: nat)" by (intro take_bit_nat_eq_self) (rule less_trans, assumption, simp)
  then have "unat (of_nat (of_char c) :: 32 word) = of_char c" by (simp add: unsigned_of_nat del: of_nat_of_char)
  then show ?thesis by (metis of_nat_of_char char_of_char)
qed

text \<open>The bytes packed in a group come back.\<close>

definition pack3 :: "char \<Rightarrow> char \<Rightarrow> char \<Rightarrow> 32 word" where
  "pack3 a b c = (push_bit 16 (of_char a) OR push_bit 8 (of_char b)) OR of_char c"

lemma pack3_bytes:
  "char_of (unat (drop_bit 16 (pack3 a b c))) = a" "char_of (unat (drop_bit 8 (pack3 a b c))) = b"
  "char_of (unat (pack3 a b c)) = c" "pack3 a b c = take_bit 24 (pack3 a b c)"
proof -
  have "take_bit 8 (drop_bit 16 (pack3 a b c)) = of_char a" "take_bit 8 (drop_bit 8 (pack3 a b c)) = of_char b"
    "take_bit 8 (pack3 a b c) = of_char c"
    by (rule bit_word_eqI, rename_tac n, case_tac "n < 8", simp_all add: pack3_def bit_simps of_char_bits(2) not_less)+
  then show "char_of (unat (drop_bit 16 (pack3 a b c))) = a" "char_of (unat (drop_bit 8 (pack3 a b c))) = b"
    "char_of (unat (pack3 a b c)) = c"
    by (subst low_byte, simp)+
  show "pack3 a b c = take_bit 24 (pack3 a b c)"
    by (intro bit_word_eqI) (auto simp: pack3_def bit_simps of_char_bits(2) not_less)
qed

lemma put3_eq:
  "put3 len b v = b @ take (len - length b) [char_of (unat (drop_bit 16 v)), char_of (unat (drop_bit 8 v)), char_of (unat v)]"
proof -
  obtain x y z where c: "x = char_of (unat (drop_bit 16 v))" "y = char_of (unat (drop_bit 8 v))" "z = char_of (unat v)" by blast
  show ?thesis unfolding put3_def c [symmetric] by (auto simp: Let_def take_Cons')
qed

text \<open>The group at \<open>i\<close> packs three bytes, with NULs behind the end.\<close>

lemma encode_group_pack:
  assumes "i < length buf"
  shows "\<exists>v. encode_group buf i = [enc6 (drop_bit 18 v), enc6 (drop_bit 12 v), enc6 (drop_bit 6 v), enc6 v] \<and>
    v = take_bit 24 v \<and> put3 (length buf) (take i buf) v = take (i + 3) buf"
proof -
  define b where "b = (if i + 1 < length buf then buf ! (i + 1) else CHR 0x00)"
  define c where "c = (if i + 2 < length buf then buf ! (i + 2) else CHR 0x00)"
  let ?v = "pack3 (buf ! i) b c"
  have e: "encode_group buf i = [enc6 (drop_bit 18 ?v), enc6 (drop_bit 12 ?v), enc6 (drop_bit 6 ?v), enc6 ?v]"
    by (auto simp: encode_group_def Let_def pack3_def b_def c_def)
  define p r where "p = take i buf" and "r = drop i buf"
  have b: "buf = p @ r" "length p = i" "r \<noteq> []" using assms by (simp_all add: p_def r_def)
  have "take (length r) [buf ! i, b, c] = take 3 r"
  proof -
    consider x where "r = [x]" | x y where "r = [x, y]" | x y z q where "r = x # y # z # q"
      using b(3) by (metis list.exhaust)
    then show ?thesis
      by cases (simp_all add: b_def c_def b(1) b(2) [symmetric] nth_append)
  qed
  then have "put3 (length buf) (take i buf) ?v = take (i + 3) buf"
    using b by (simp add: put3_eq pack3_bytes(1-3))
  then show ?thesis using e pack3_bytes(4) by blast
qed

section \<open>One line\<close>

lemma decode_groups:
  "length buf \<le> 45 \<Longrightarrow> i mod 3 = 0 \<Longrightarrow> length pre = i div 3 * 4 \<Longrightarrow>
    decode_loop (h # pre @ encode_loop buf i @ t) (length buf) i (take i buf) = Inr buf"
proof (induction buf i arbitrary: pre rule: encode_loop.induct)
  case (1 buf i)
  show ?case
  proof (cases "i < length buf")
    case True
    obtain v where v: "encode_group buf i = [enc6 (drop_bit 18 v), enc6 (drop_bit 12 v), enc6 (drop_bit 6 v), enc6 v]"
      "v = take_bit 24 v" "put3 (length buf) (take i buf) v = take (i + 3) buf"
      using encode_group_pack [OF True] by blast
    define line where "line = h # pre @ encode_loop buf i @ t"
    have line: "line = h # (pre @ encode_group buf i) @ encode_loop buf (i + 3) @ t"
      using True by (simp add: line_def encode_loop.simps [of buf i])
    have at: "line_at line (1 + k + length pre) = decode_char (of_char (encode_group buf i ! k))" if "k < 4" for k
    proof -
      have l: "length (encode_group buf i) = 4" by (simp add: v(1))
      show ?thesis using that unfolding line_at_def line by (simp add: nth_append l)
    qed
    have c: "line_at line (1 + i div 3 * 4) = uint (drop_bit 18 v AND 0x3f)"
      "line_at line (2 + i div 3 * 4) = uint (drop_bit 12 v AND 0x3f)"
      "line_at line (3 + i div 3 * 4) = uint (drop_bit 6 v AND 0x3f)"
      "line_at line (4 + i div 3 * 4) = uint (v AND 0x3f)"
      unfolding 1(4) [symmetric] using at [of 0] at [of 1] v(1) at [of 3]
      by (simp, simp, use at [of 2] in \<open>simp add: v(1) numeral_3_eq_3\<close>, simp)
    have len: "\<not> 45 < length (take (i + 3) buf)" using 1(2) by simp
    have ih: "decode_loop line (length buf) (i + 3) (take (i + 3) buf) = Inr buf"
      unfolding line using True 1(2-4) v(1) by (intro "1.IH") auto
    have "decode_loop line (length buf) i (take i buf) = Inr buf"
      unfolding decode_loop.simps [of line "length buf" i] Let_def c
      using True sextets [OF v(2)] v(3) len ih by (simp del: length_take)
    then show ?thesis by (simp add: line_def)
  next
    case False
    then show ?thesis by (simp add: decode_loop.simps)
  qed
qed

lemma decode_line: "length buf \<le> 45 \<Longrightarrow> decode_loop (line_text buf) (length buf) 0 [] = Inr buf"
  using decode_groups [of buf 0 "[]"] by (simp add: line_text_def)

lemma encode_loop_plain: "CHR 0x0A \<notin> set (encode_loop buf i)"
proof (induction buf i rule: encode_loop.induct)
  case (1 buf i)
  then show ?case
    using encode_group_pack [of i buf] enc6_plain(1) [symmetric] by (subst encode_loop.simps) auto
qed

lemma encode_loop_length: "length (encode_loop buf i) \<le> 4 * (length buf - i)"
proof (induction buf i rule: encode_loop.induct)
  case (1 buf i)
  have "length (encode_group buf i) = 4" by (simp add: encode_group_def Let_def)
  then show ?case using 1 by (subst encode_loop.simps) auto
qed

lemma length_char:
  assumes "n \<le> 45"
  shows "decode_char (of_char (char_of (32 + n) :: char)) = int n"
    "char_of (32 + n) \<noteq> CHR 0x0A" "char_of (32 + n) \<noteq> CHR 0x0D" "char_of (32 + n) \<noteq> CHR ''e''"
proof -
  have o: "of_char (char_of (32 + n) :: char) = 32 + n" using assms by simp
  then show "decode_char (of_char (char_of (32 + n) :: char)) = int n"
    using assms unfolding o by (simp add: decode_char_def)
  have "char_of (32 + n) \<noteq> x" if "of_char x \<notin> {32..77 :: nat}" for x using that o assms by auto
  from this [of "CHR 0x0A"] this [of "CHR 0x0D"] this [of "CHR ''e''"]
  show "char_of (32 + n) \<noteq> CHR 0x0A" "char_of (32 + n) \<noteq> CHR 0x0D" "char_of (32 + n) \<noteq> CHR ''e''"
    by simp_all
qed

section \<open>Streams\<close>

text \<open>The lines of the encoding.\<close>

function uu_lines :: "string \<Rightarrow> string" where
  "uu_lines u = (if u = [] then [] else line_text (take 45 u) @ uu_lines (drop 45 u))"
  by pat_completeness auto
termination by (relation "measure length") auto

declare uu_lines.simps [simp del]

definition uu_trailer :: string where
  "uu_trailer = ''`\<newline>end\<newline>''"

lemma line_delim_append: "x \<notin> set w \<Longrightarrow> line_delim x (w @ x # r) = w @ [x]"
  by (induction w) auto

lemma line_text_delim:
  assumes "length b \<le> 45"
  shows "line_delim CHR 0x0A (line_text b @ r) = line_text b"
proof -
  have "CHR 0x0A \<notin> set (char_of (32 + length b) # encode_loop b 0)"
    using encode_loop_plain length_char(2) [OF assms] by auto
  from line_delim_append [OF this, of r] show ?thesis by (simp add: line_text_def)
qed

text \<open>Names that survive the header line.\<close>

definition name_ok :: "string \<Rightarrow> bool" where
  "name_ok name \<longleftrightarrow> name \<noteq> [] \<and> length name < 512 \<and> CHR 0x00 \<notin> set name \<and> CHR 0x0A \<notin> set name \<and> last name \<noteq> CHR 0x0D"

lemma header_name_ok:
  assumes "name_ok name"
  shows "header_name (''begin 644 '' @ name @ [CHR 0x0A]) = Some name"
proof -
  have "last name \<noteq> CHR 0x0A" using assms last_in_set [of name] unfolding name_ok_def by metis
  then have s: "strip_eol (name @ [CHR 0x0A]) = name"
    using assms by (subst strip_eol.simps, subst strip_eol.simps) (simp add: name_ok_def)
  have "str_of (''644 '' @ name @ [CHR 0x0A]) = ''644 '' @ name @ [CHR 0x0A]"
    using assms by (auto simp: str_of_def name_ok_def takeWhile_eq_all_conv)
  then show ?thesis using s assms by (simp add: header_name_def Let_def name_ok_def)
qed

locale filter_os = src: source_os ros rd rest rgood + snk: sink_os wos wd sent wgood
  for ros :: "'r os" and rd :: int and rest :: "'r \<Rightarrow> string" and rgood :: "'r \<Rightarrow> bool"
    and wos :: "'w os" and wd :: int and sent :: "'w \<Rightarrow> string" and wgood :: "'w \<Rightarrow> bool"
begin

lemma encode_line_ok:
  assumes "snk.has_text so t" "length buf \<le> 45"
  shows "snk.has_text (encode_line wos buf so) (t @ line_text buf)"
proof -
  have "length (line_text buf) < 2 ^ 64"
    using encode_loop_length [of buf 0] assms(2) by (simp add: line_text_def)
  then show ?thesis
    using snk.fwrite_ok [OF assms(1), of "line_text buf" 1 "length (line_text buf)"] by (auto simp: encode_line_def)
qed

lemma uuencode_loop_ok:
  "src.has_input fp u \<Longrightarrow> snk.has_text so t \<Longrightarrow> length u < fuel \<Longrightarrow>
   \<exists>fp' so'. uuencode_loop fuel ros wos fp so = Some (fp', so') \<and> snk.has_text so' (t @ uu_lines u)"
proof (induction fuel arbitrary: fp u so t)
  case (Suc fuel)
  obtain fp' where f: "fread ros 1 45 fp = ((length (take 45 u), take 45 u), fp')" "src.has_input fp' (drop 45 u)"
    using src.fread_ok [OF Suc.prems(1), of 1 45] by auto
  show ?case
  proof (cases "u = []")
    case True
    then show ?thesis using f Suc.prems(2) by (simp add: uu_lines.simps)
  next
    case False
    let ?so = "encode_line wos (take 45 u) so"
    have so: "snk.has_text ?so (t @ line_text (take 45 u))" by (rule encode_line_ok [OF Suc.prems(2)]) simp
    have l: "uu_lines u = line_text (take 45 u) @ uu_lines (drop 45 u)" using False by (subst uu_lines.simps) simp
    show ?thesis
    proof (cases "length u < 45")
      case True
      then show ?thesis using False f(1) so l by (simp add: Let_def uu_lines.simps [of "[]"])
    next
      case False
      have "length (drop 45 u) < fuel" using False Suc.prems(3) by simp
      from Suc.IH [OF f(2) so this] show ?thesis using False f(1) l by (auto simp: Let_def)
    qed
  qed
qed simp

lemma fprintf_ok:
  assumes "snk.has_text so t" "format_text str f ap = Some (True, txt)"
  shows "\<exists>n so'. fprintf wos str f ap so = Some (n, so') \<and> snk.has_text so' (t @ txt)"
  using snk.printf_ok [OF assms] by (force simp: fprintf_def vfprintf_def printf_core_def)

lemma uuencode_ok:
  assumes "src.has_input fp u" "snk.has_text so []" "length u < fuel"
  shows "\<exists>fp' so'. uuencode fuel ros wos name fp so = Some (fp', so') \<and>
    snk.has_text so' (''begin 644 '' @ name @ CHR 0x0A # uu_lines u @ uu_trailer)"
proof -
  have f: "format_text (\<lambda>_. name) ''begin 644 %s\<newline>'' [1] = Some (True, ''begin 644 '' @ name @ [CHR 0x0A])"
    by (simp add: fmt_simps)
  have g: "format_text (\<lambda>_. []) ''`\<newline>end\<newline>'' [] = Some (True, uu_trailer)"
    by (simp add: fmt_simps uu_trailer_def)
  obtain n1 s1 where 1: "fprintf wos (\<lambda>_. name) ''begin 644 %s\<newline>'' [1] so = Some (n1, s1)"
    "snk.has_text s1 ([] @ ''begin 644 '' @ name @ [CHR 0x0A])" using fprintf_ok [OF assms(2) f] by blast
  obtain fp2 s2 where 2: "uuencode_loop fuel ros wos fp s1 = Some (fp2, s2)"
    "snk.has_text s2 (([] @ ''begin 644 '' @ name @ [CHR 0x0A]) @ uu_lines u)"
    using uuencode_loop_ok [OF assms(1) 1(2) assms(3)] by blast
  obtain n3 s3 where 3: "fprintf wos (\<lambda>_. []) ''`\<newline>end\<newline>'' [] s2 = Some (n3, s3)"
    "snk.has_text s3 ((([] @ ''begin 644 '' @ name @ [CHR 0x0A]) @ uu_lines u) @ uu_trailer)"
    using fprintf_ok [OF 2(2) g] by blast
  show ?thesis using 1(1) 2(1) 3 by (simp add: uuencode_def)
qed

lemma getline_ok:
  assumes "src.has_input fp (w @ CHR 0x0A # r)" "CHR 0x0A \<notin> set w" "Suc (length w + length r) < fuel"
  shows "\<exists>fp' cap'. getline ros (\<lambda>_. True) fuel cap fp = (Line cap' (w @ [CHR 0x0A]), fp') \<and> src.has_input fp' r"
  using src.getdelim_loop_ok [OF assms(1), of "[]" fuel "CHR 0x0A" "case cap of None \<Rightarrow> 0 | Some n \<Rightarrow> n"] assms(2,3)
  by (auto simp: getline_def getdelim_def line_delim_append)

lemma trailer_ok:
  assumes "src.has_input fp uu_trailer" "7 < fuel"
  shows "\<exists>fp'. uudecode_loop fuel ros wos (\<lambda>_. True) cap fp so = (Done, fp', so)"
proof -
  obtain k where k: "fuel = Suc (Suc k)" "5 < k" using assms(2) 
    by (intro that [of "fuel - 2"]) auto
  have t: "uu_trailer = ''`'' @ CHR 0x0A # (''end'' @ CHR 0x0A # [])" by (simp add: uu_trailer_def)
  obtain fp1 c1 where 1: "getline ros (\<lambda>_. True) (Suc k) cap fp = (Line c1 (''`'' @ [CHR 0x0A]), fp1)"
    "src.has_input fp1 (''end'' @ CHR 0x0A # [])"
    using getline_ok [of fp "''`''" "''end'' @ CHR 0x0A # []" "Suc k" cap] assms(1) k(2) unfolding t by auto
  obtain fp2 c2 where 2: "getline ros (\<lambda>_. True) k (Some c1) fp1 = (Line c2 (''end'' @ [CHR 0x0A]), fp2)"
    using getline_ok [OF 1(2), of k "Some c1"] k(2) by auto
  have f: "fwrite wos [] 1 0 so = (0, so)" by (simp add: fwrite_def)
  show ?thesis unfolding k(1) using 1(1) 2 f by (simp add: Let_def decode_char_def decode_loop.simps)
qed

text \<open>One line of data: what the loop does with the line and the rest of the input.\<close>

lemma uudecode_line:
  assumes i: "src.has_input fp (line_text b @ r)" and so: "snk.has_text so t" and b: "length b \<le> 45"
    and fuel: "length (line_text b @ r) < fuel"
  shows "\<exists>fp' so' cap'. src.has_input fp' r \<and> snk.has_text so' (t @ b) \<and>
    uudecode_loop (Suc fuel) ros wos (\<lambda>_. True) cap fp so = uudecode_loop fuel ros wos (\<lambda>_. True) cap' fp' so'"
proof -
  let ?w = "char_of (32 + length b) # encode_loop b 0"
  have l: "line_text b = ?w @ [CHR 0x0A]" by (simp add: line_text_def)
  have w: "CHR 0x0A \<notin> set ?w" using encode_loop_plain length_char(2) [OF b] by auto
  have in': "src.has_input fp (?w @ CHR 0x0A # r)" using i by (simp add: l)
  obtain fp' cap' where g: "getline ros (\<lambda>_. True) fuel cap fp = (Line cap' (line_text b), fp')" "src.has_input fp' r"
    using getline_ok [OF in' w, of fuel cap] fuel unfolding l by auto
  obtain so' where f: "fwrite wos b 1 (length b) so = (length b, so')" "snk.has_text so' (t @ b)"
    using snk.fwrite_ok [OF so, of b 1 "length b"] b by auto
  have "take 3 (line_text b) \<noteq> ''end''" using length_char(4) [OF b] by (auto simp: line_text_def)
  moreover have "hd (line_text b) = char_of (32 + length b)" by (simp add: line_text_def)
  ultimately have "uudecode_loop (Suc fuel) ros wos (\<lambda>_. True) cap fp so = uudecode_loop fuel ros wos (\<lambda>_. True) (Some cap') fp' so'"
    using g(1) f(1) length_char [OF b] decode_line [OF b] by (simp add: Let_def)
  with g f show ?thesis by blast
qed

lemma uudecode_loop_ok:
  "src.has_input fp (uu_lines u @ uu_trailer) \<Longrightarrow> snk.has_text so t \<Longrightarrow> length (uu_lines u @ uu_trailer) + 1 < fuel \<Longrightarrow>
   \<exists>fp' so'. uudecode_loop fuel ros wos (\<lambda>_. True) cap fp so = (Done, fp', so') \<and> snk.has_text so' (t @ u)"
proof (induction fuel arbitrary: fp u so t cap)
  case (Suc fuel)
  show ?case
  proof (cases "u = []")
    case True
    then show ?thesis
      using trailer_ok [of fp "Suc fuel" cap so] Suc.prems by (auto simp: uu_lines.simps uu_trailer_def)
  next
    case False
    have l: "uu_lines u = line_text (take 45 u) @ uu_lines (drop 45 u)" using False by (subst uu_lines.simps) simp
    have "src.has_input fp (line_text (take 45 u) @ uu_lines (drop 45 u) @ uu_trailer)" using Suc.prems(1) l by simp
    from uudecode_line [OF this Suc.prems(2), of fuel cap] Suc.prems(3) l obtain fp' so' cap' where
      d: "src.has_input fp' (uu_lines (drop 45 u) @ uu_trailer)" "snk.has_text so' (t @ take 45 u)"
      "uudecode_loop (Suc fuel) ros wos (\<lambda>_. True) cap fp so = uudecode_loop fuel ros wos (\<lambda>_. True) cap' fp' so'" by auto
    have "length (uu_lines (drop 45 u) @ uu_trailer) + 1 < fuel" using Suc.prems(3) l by (simp add: line_text_def)
    from Suc.IH [OF d(1,2) this] d(3) show ?thesis by (metis append.assoc append_take_drop_id)
  qed
qed simp

lemma uudecode_ok:
  fixes so :: "'w io"
  assumes i: "src.has_input fp e" and e: "e = ''begin 644 '' @ name @ CHR 0x0A # uu_lines u @ uu_trailer"
    and n: "name_ok name" and o: "opens name = Some so" "snk.has_text so []" and fuel: "length e + 1 < fuel"
  shows "\<exists>so'. uudecode fuel ros wos (\<lambda>_. True) opens None fp = (Done, Some (name, so')) \<and> snk.has_text so' u"
proof -
  obtain k where k: "fuel = Suc k" "length e < k" using fuel by (cases fuel) auto
  have "CHR 0x0A \<notin> set (''begin 644 '' @ name)" using n by (simp add: name_ok_def)
  from getline_ok [OF _ this, of fp "uu_lines u @ uu_trailer" k None] i k e obtain fp1 cap where
    g: "getline ros (\<lambda>_. True) k None fp = (Line cap (''begin 644 '' @ name @ [CHR 0x0A]), fp1)"
    "src.has_input fp1 (uu_lines u @ uu_trailer)" by auto
  have fb: "find_begin fuel ros (\<lambda>_. True) None fp = (Inr (name, Some cap), fp1)"
    using g(1) header_name_ok [OF n] k(1) by simp
  obtain fp2 so' where "uudecode_loop fuel ros wos (\<lambda>_. True) (Some cap) fp1 so = (Done, fp2, so')" "snk.has_text so' ([] @ u)"
    using uudecode_loop_ok [OF g(2) o(2), of fuel "Some cap"] fuel e by auto
  then show ?thesis using fb o(1) by (simp add: uudecode_def)
qed

end

text \<open>The regular file as input and output.\<close>

interpretation ffilter: filter_os file_os 0 file_rest file_good file_os 1 file_sent file_good
  by unfold_locales

section \<open>Properties\<close>

text \<open>
  C29. What \<open>uuencode\<close> writes, \<open>uudecode\<close> turns back into the same bytes under the same name, for
  input of every length and content, whatever the sizes of the kernel's transfers on the four
  descriptors. Both commands end.
\<close>

theorem uu_roundtrip:
  assumes enc: "filter_os ros rd rest rgood wos wd sent wgood"
    and dec: "filter_os ros' rd' rest' rgood' wos' wd' sent' wgood'"
    and inp: "source_os.has_input rd rest rgood fp u" "length u < fuel"
    and outp: "sink_os.has_text wd sent wgood so []" and n: "name_ok name"
  shows "\<exists>fp1 so1 so2 e. uuencode fuel ros wos name fp so = Some (fp1, so1) \<and>
    fflush wos so1 = (0, so2) \<and> sent (world so2) = e \<and>
    (\<forall>fp' so' fuel'. source_os.has_input rd' rest' rgood' fp' e \<and> length e + 1 < fuel' \<and>
       opens name = Some so' \<and> sink_os.has_text wd' sent' wgood' so' [] \<longrightarrow>
       (\<exists>so''. uudecode fuel' ros' wos' (\<lambda>_. True) opens None fp' = (Done, Some (name, so'')) \<and>
          sink_os.has_text wd' sent' wgood' so'' u))"
proof -
  let ?e = "''begin 644 '' @ name @ CHR 0x0A # uu_lines u @ uu_trailer"
  obtain fp1 so1 where 1: "uuencode fuel ros wos name fp so = Some (fp1, so1)" "sink_os.has_text wd sent wgood so1 ?e"
    using filter_os.uuencode_ok [OF enc inp(1) outp inp(2)] by blast
  obtain so2 where 2: "fflush wos so1 = (0, so2)" "sent (world so2) = ?e"
    using sink_os.has_text_flush [OF filter_os.axioms(2) [OF enc] 1(2)] by blast
  show ?thesis
    using 1(1) 2 filter_os.uudecode_ok [OF dec _ refl n] by blast
qed

lemma io_on_input: "fsource.has_input 0 (io_on u) u"
  using io_on_ok [of u] by (simp add: fsource.has_input_def)

lemma io_new_text: "fsink.has_text (io_new b) []"
  using io_new_ok [of b] by (simp add: fsink.has_text_def fsink.written_def pending_def io_new_def new_file_def file_sent_def)

theorem uu_roundtrip_witness:
  "\<exists>fp1 so1 so2 so3. uuencode 10 file_os file_os ''f.bin'' (io_on ''hello'') (io_new False) = Some (fp1, so1) \<and>
    fflush file_os so1 = (0, so2) \<and>
    uudecode (length (file_sent (world so2)) + 2) file_os file_os (\<lambda>_. True) (\<lambda>_. Some (io_new False)) None
      (io_on (file_sent (world so2))) = (Done, Some (''f.bin'', so3)) \<and>
    fsink.has_text so3 ''hello''"
proof -
  have n: "name_ok ''f.bin''" by (simp add: name_ok_def)
  from uu_roundtrip [OF ffilter.filter_os_axioms ffilter.filter_os_axioms io_on_input [of "''hello''"] _ io_new_text n,
    of 10 False "\<lambda>_. Some (io_new False)"]
  obtain fp1 so1 so2 where
    1: "uuencode 10 file_os file_os ''f.bin'' (io_on ''hello'') (io_new False) = Some (fp1, so1)" "fflush file_os so1 = (0, so2)"
    and d: "\<forall>fp' so' fuel'. fsource.has_input 0 fp' (file_sent (world so2)) \<and> length (file_sent (world so2)) + 1 < fuel' \<and>
       Some (io_new False) = Some so' \<and> fsink.has_text so' [] \<longrightarrow>
       (\<exists>so''. uudecode fuel' file_os file_os (\<lambda>_. True) (\<lambda>_. Some (io_new False)) None fp' = (Done, Some (''f.bin'', so'')) \<and>
          fsink.has_text so'' ''hello'')" by auto
  from d [rule_format, of "io_on (file_sent (world so2))" "length (file_sent (world so2)) + 2" "io_new False"] 1
  show ?thesis using io_on_input io_new_text by auto
qed



end
