(* ===== verification/Optparse.thy ===== *)
theory Optparse
  imports Prelude
begin

text \<open>
  The option parser of the commands, \<open>libbrkcmd/optparse.c\<close>. The argument vector is a list of
  strings without their terminators; the character at the end of a string is the NUL. A read
  of \<open>argv\<close> out of its bounds is a fault, the outer \<open>None\<close>. The message an error prints is part of
  the result.
\<close>

section \<open>The code\<close>

datatype opt_arg = NO_ARG | REQUIRED_ARG

record brk_cmd_option =
  opt_id :: int
  short_opt :: char
  long_opt :: "string option"
  arg_kind :: opt_arg

record optctx =
  argv :: "string list"
  index :: nat
  short_pos :: nat
  ctx_arg :: "string option"
  end_of_opts :: bool

abbreviation argc :: "optctx \<Rightarrow> nat" where
  "argc ctx \<equiv> length (argv ctx)"

definition at :: "string \<Rightarrow> nat \<Rightarrow> char" where
  "at s i = (if i < length s then s ! i else CHR 0x00)"

fun find_short :: "brk_cmd_option list \<Rightarrow> char \<Rightarrow> brk_cmd_option option" where
  "find_short [] c = None"
| "find_short (opt # opts) c =
     (if opt_id opt = 0 then None else if short_opt opt = c then Some opt else find_short opts c)"

fun find_long :: "brk_cmd_option list \<Rightarrow> string \<Rightarrow> brk_cmd_option option" where
  "find_long [] name = None"
| "find_long (opt # opts) name =
     (if opt_id opt = 0 then None else if long_opt opt = Some name then Some opt else find_long opts name)"

datatype opt_msg = Unrecognized string | Requires_long string | Requires_short char

type_synonym opt_result = "(int \<times> opt_msg option \<times> optctx) option"

definition bad_option :: "optctx \<Rightarrow> string \<Rightarrow> opt_result" where
  "bad_option ctx s = Some (of_char CHR ''?'', Some (Unrecognized s), ctx)"

definition missing_arg :: "optctx \<Rightarrow> brk_cmd_option \<Rightarrow> opt_result" where
  "missing_arg ctx opt =
     Some (of_char CHR '':'',
       Some (case long_opt opt of Some n \<Rightarrow> Requires_long n | None \<Rightarrow> Requires_short (short_opt opt)), ctx)"

definition finish_option :: "optctx \<Rightarrow> brk_cmd_option \<Rightarrow> string option \<Rightarrow> opt_result" where
  "finish_option ctx opt arg_embed =
     (if arg_kind opt = REQUIRED_ARG then
        case arg_embed of
          Some a \<Rightarrow> Some (opt_id opt, None, ctx\<lparr>ctx_arg := Some a, index := index ctx + 1\<rparr>)
        | None \<Rightarrow>
            if index ctx + 1 \<ge> argc ctx then missing_arg ctx opt
            else Some (opt_id opt, None,
                   ctx\<lparr>ctx_arg := Some (argv ctx ! (index ctx + 1)), index := index ctx + 2\<rparr>)
      else Some (opt_id opt, None, ctx\<lparr>ctx_arg := None, index := index ctx + 1\<rparr>))"

definition parse_long :: "optctx \<Rightarrow> brk_cmd_option list \<Rightarrow> string \<Rightarrow> opt_result" where
  "parse_long ctx opts arg =
     (if CHR ''='' \<in> set arg then
        let name = takeWhile (\<lambda>c. c \<noteq> CHR ''='') arg; n = length name
        in if n \<ge> 128 then bad_option ctx arg
           else case find_long opts name of
               None \<Rightarrow> bad_option ctx arg
             | Some opt \<Rightarrow>
                 if arg_kind opt \<noteq> REQUIRED_ARG then bad_option ctx arg
                 else finish_option ctx opt (Some (drop (n + 1) arg))
      else case find_long opts arg of
          None \<Rightarrow> bad_option ctx arg
        | Some opt \<Rightarrow> finish_option ctx opt None)"

text \<open>
  \<open>parse_short\<close> and \<open>brk_cmd_optparse\<close> call each other; \<open>optparse_loop\<close> is the loop of the latter.
\<close>

function (sequential) parse_short :: "brk_cmd_option list \<Rightarrow> optctx \<Rightarrow> opt_result"
  and brk_cmd_optparse :: "brk_cmd_option list \<Rightarrow> optctx \<Rightarrow> opt_result"
  and optparse_loop :: "brk_cmd_option list \<Rightarrow> optctx \<Rightarrow> opt_result"
where
  "parse_short opts ctx =
     (if index ctx < argc ctx \<and> short_pos ctx \<le> length (argv ctx ! index ctx) then
        let cluster = drop (short_pos ctx) (argv ctx ! index ctx); c = at cluster 0
        in if c = CHR 0x00 then brk_cmd_optparse opts (ctx\<lparr>short_pos := 0, index := index ctx + 1\<rparr>)
           else case find_short opts c of
               None \<Rightarrow> bad_option ctx (argv ctx ! index ctx)
             | Some opt \<Rightarrow>
                 let ctx = ctx\<lparr>short_pos := short_pos ctx + 1\<rparr>
                 in if arg_kind opt = REQUIRED_ARG
                    then finish_option (ctx\<lparr>short_pos := 0\<rparr>) opt
                           (if at cluster 1 \<noteq> CHR 0x00 then Some (drop 1 cluster) else None)
                    else let ctx = (if at cluster 1 = CHR 0x00
                                    then ctx\<lparr>index := index ctx + 1, short_pos := 0\<rparr> else ctx)
                         in Some (opt_id opt, None, ctx\<lparr>ctx_arg := None\<rparr>)
      else None)"
| "brk_cmd_optparse opts ctx =
     (if short_pos ctx \<noteq> 0 then parse_short opts ctx else optparse_loop opts ctx)"
| "optparse_loop opts ctx =
     (if index ctx < argc ctx then
        let arg = argv ctx ! index ctx
        in if end_of_opts ctx \<or> at arg 0 \<noteq> CHR ''-'' \<or> at arg 1 = CHR 0x00 then Some (0, None, ctx)
           else if at arg 0 = CHR ''-'' \<and> at arg 1 = CHR ''-'' \<and> at arg 2 = CHR 0x00
           then optparse_loop opts (ctx\<lparr>end_of_opts := True, index := index ctx + 1\<rparr>)
           else if at arg 0 = CHR ''-'' \<and> at arg 1 = CHR ''-'' then parse_long ctx opts (drop 2 arg)
           else parse_short opts (ctx\<lparr>short_pos := 1\<rparr>)
      else Some (0, None, ctx))"
  by pat_completeness auto
termination
  by (relation "measure (\<lambda>x. case x of
        Inl (opts, ctx) \<Rightarrow> 3 * (argc ctx - index ctx)
      | Inr (Inl (opts, ctx)) \<Rightarrow> 3 * (argc ctx - index ctx) + 2
      | Inr (Inr (opts, ctx)) \<Rightarrow> 3 * (argc ctx - index ctx) + 1)") auto

declare parse_short.simps [simp del] brk_cmd_optparse.simps [simp del] optparse_loop.simps [simp del]

definition optctx_init :: "string list \<Rightarrow> optctx" where
  "optctx_init args = \<lparr>argv = args, index = 1, short_pos = 0, ctx_arg = None, end_of_opts = False\<rparr>"

definition brk_cmd_operand_count :: "optctx \<Rightarrow> int" where
  "brk_cmd_operand_count ctx =
     (if index ctx \<ge> argc ctx then 0 else int (argc ctx) - int (index ctx))"

definition brk_cmd_operand :: "optctx \<Rightarrow> int \<Rightarrow> string option" where
  "brk_cmd_operand ctx n =
     (if n < 0 \<or> int (index ctx) + n \<ge> int (argc ctx) then None else Some (argv ctx ! (index ctx + nat n)))"

text \<open>Whether the call returns; otherwise it prints the usage and exits.\<close>

definition require_operands :: "optctx \<Rightarrow> int \<Rightarrow> bool" where
  "require_operands ctx mn \<longleftrightarrow> brk_cmd_operand_count ctx \<ge> mn"

definition require_operand_count :: "optctx \<Rightarrow> int \<Rightarrow> bool" where
  "require_operand_count ctx exact \<longleftrightarrow> brk_cmd_operand_count ctx = exact"

definition require_operand_range :: "optctx \<Rightarrow> int \<Rightarrow> int \<Rightarrow> bool" where
  "require_operand_range ctx mn mx \<longleftrightarrow>
     (let n = brk_cmd_operand_count ctx in n \<ge> mn \<and> n \<le> mx)"

text \<open>The loop of every command: the options and their arguments, until no option is left.\<close>

fun option_loop :: "nat \<Rightarrow> brk_cmd_option list \<Rightarrow> optctx \<Rightarrow> ((int \<times> string option) list \<times> opt_msg option \<times> optctx) option" where
  "option_loop 0 opts ctx = None"
| "option_loop (Suc fuel) opts ctx =
     (case brk_cmd_optparse opts ctx of
        None \<Rightarrow> None
      | Some (r, msg, ctx) \<Rightarrow>
          if r = 0 then Some ([], None, ctx)
          else if msg \<noteq> None then Some ([], msg, ctx)
          else map_option (map_prod ((#) (r, ctx_arg ctx)) id) (option_loop fuel opts ctx))"

section \<open>Command lines\<close>

text \<open>
  How options are written: a cluster of short options, the last of which may take an argument in
  the same word or in the next one, or a long option with its argument after an equals sign or
  in the next word.
\<close>

datatype item =
    Cluster string
  | Short_embed string char string
  | Short_next string char string
  | Long string
  | Long_eq string string
  | Long_next string string

fun render :: "item \<Rightarrow> string list" where
  "render (Cluster cs) = [CHR ''-'' # cs]"
| "render (Short_embed cs c a) = [CHR ''-'' # cs @ c # a]"
| "render (Short_next cs c a) = [CHR ''-'' # cs @ [c], a]"
| "render (Long n) = [''--'' @ n]"
| "render (Long_eq n a) = [''--'' @ n @ ''='' @ a]"
| "render (Long_next n a) = [''--'' @ n, a]"

definition takes :: "brk_cmd_option option \<Rightarrow> opt_arg \<Rightarrow> bool" where
  "takes r k \<longleftrightarrow> (case r of None \<Rightarrow> False | Some opt \<Rightarrow> arg_kind opt = k)"

definition shorts_ok :: "brk_cmd_option list \<Rightarrow> string \<Rightarrow> bool" where
  "shorts_ok opts cs \<longleftrightarrow> (\<forall>c\<in>set cs. c \<noteq> CHR 0x00 \<and> takes (find_short opts c) NO_ARG)"

definition short_arg_ok :: "brk_cmd_option list \<Rightarrow> string \<Rightarrow> char \<Rightarrow> bool" where
  "short_arg_ok opts cs c \<longleftrightarrow> shorts_ok opts cs \<and> hd (cs @ [c]) \<noteq> CHR ''-'' \<and> c \<noteq> CHR 0x00 \<and>
     takes (find_short opts c) REQUIRED_ARG"

definition long_name_ok :: "string \<Rightarrow> bool" where
  "long_name_ok n \<longleftrightarrow> n \<noteq> [] \<and> hd n \<noteq> CHR 0x00 \<and> CHR ''='' \<notin> set n"

fun item_ok :: "brk_cmd_option list \<Rightarrow> item \<Rightarrow> bool" where
  "item_ok opts (Cluster cs) \<longleftrightarrow> cs \<noteq> [] \<and> hd cs \<noteq> CHR ''-'' \<and> shorts_ok opts cs"
| "item_ok opts (Short_embed cs c a) \<longleftrightarrow> short_arg_ok opts cs c \<and> a \<noteq> [] \<and> hd a \<noteq> CHR 0x00"
| "item_ok opts (Short_next cs c a) \<longleftrightarrow> short_arg_ok opts cs c"
| "item_ok opts (Long n) \<longleftrightarrow> long_name_ok n \<and> takes (find_long opts n) NO_ARG"
| "item_ok opts (Long_eq n a) \<longleftrightarrow> long_name_ok n \<and> length n < 128 \<and> takes (find_long opts n) REQUIRED_ARG"
| "item_ok opts (Long_next n a) \<longleftrightarrow> long_name_ok n \<and> takes (find_long opts n) REQUIRED_ARG"

definition id_of :: "brk_cmd_option option \<Rightarrow> int" where
  "id_of r = (case r of None \<Rightarrow> 0 | Some opt \<Rightarrow> opt_id opt)"

definition short_events :: "brk_cmd_option list \<Rightarrow> string \<Rightarrow> (int \<times> string option) list" where
  "short_events opts cs = map (\<lambda>c. (id_of (find_short opts c), None)) cs"

fun events :: "brk_cmd_option list \<Rightarrow> item \<Rightarrow> (int \<times> string option) list" where
  "events opts (Cluster cs) = short_events opts cs"
| "events opts (Short_embed cs c a) = short_events opts cs @ [(id_of (find_short opts c), Some a)]"
| "events opts (Short_next cs c a) = short_events opts cs @ [(id_of (find_short opts c), Some a)]"
| "events opts (Long n) = [(id_of (find_long opts n), None)]"
| "events opts (Long_eq n a) = [(id_of (find_long opts n), Some a)]"
| "events opts (Long_next n a) = [(id_of (find_long opts n), Some a)]"

text \<open>A word that ends the options when it stands first.\<close>

definition plain_word :: "string \<Rightarrow> bool" where
  "plain_word w \<longleftrightarrow> at w 0 \<noteq> CHR ''-'' \<or> at w 1 = CHR 0x00"

section \<open>Single steps\<close>

abbreviation st :: "string list \<Rightarrow> nat \<Rightarrow> nat \<Rightarrow> string option \<Rightarrow> optctx" where
  "st args i p a \<equiv> \<lparr>argv = args, index = i, short_pos = p, ctx_arg = a, end_of_opts = False\<rparr>"

lemma at_Cons [simp]: "at (c # s) 0 = c" "at (c # s) (Suc i) = at s i" "at [] i = CHR 0x00"
  by (simp_all add: at_def)

lemma at_numeral [simp]: "at (c # s) (numeral k) = at s (pred_numeral k)"
  by (simp add: numeral_eq_Suc)

lemma find_short_id: "find_short opts c = Some opt \<Longrightarrow> opt_id opt \<noteq> 0"
  by (induction opts) (auto split: if_splits)

lemma find_long_id: "find_long opts n = Some opt \<Longrightarrow> opt_id opt \<noteq> 0"
  by (induction opts) (auto split: if_splits)

lemma takes_Some: "takes r k \<Longrightarrow> \<exists>opt. r = Some opt \<and> arg_kind opt = k"
  by (auto simp: takes_def split: option.splits)

definition emit :: "(int \<times> string option) list \<Rightarrow> ((int \<times> string option) list \<times> 'b) option \<Rightarrow> ((int \<times> string option) list \<times> 'b) option" where
  "emit es r = map_option (map_prod ((@) es) id) r"

lemma emit_Nil [simp]: "emit [] r = r"
  by (cases r) (auto simp: emit_def)

lemma emit_emit [simp]: "emit es (emit fs r) = emit (es @ fs) r"
  by (cases r) (auto simp: emit_def)

lemma option_loop_emit:
  assumes "brk_cmd_optparse opts ctx = Some (r, None, ctx')" "r \<noteq> 0"
  shows "option_loop (Suc f) opts ctx = emit [(r, ctx_arg ctx')] (option_loop f opts ctx')"
  using assms by (cases "option_loop f opts ctx'") (auto simp: emit_def)

text \<open>Entering a word of short options.\<close>

lemma enter_word:
  assumes "i < length args" "args ! i = CHR ''-'' # c # w" "c \<noteq> CHR ''-''" "c \<noteq> CHR 0x00"
  shows "option_loop f opts (st args i 0 a) = option_loop f opts (st args i 1 a)"
proof -
  have "brk_cmd_optparse opts (st args i 0 a) = brk_cmd_optparse opts (st args i 1 a)"
    using assms by (simp add: brk_cmd_optparse.simps optparse_loop.simps [of opts "st args i 0 a"] Let_def)
  then show ?thesis by (cases f) simp_all
qed

lemma short_step:
  assumes "i < length args" "drop p (args ! i) = c # w" "0 < p" "c \<noteq> CHR 0x00"
    and "find_short opts c = Some opt" "arg_kind opt = NO_ARG" "w = [] \<or> hd w \<noteq> CHR 0x00"
  shows "option_loop (Suc f) opts (st args i p a) =
    emit [(opt_id opt, None)] (option_loop f opts (if w = [] then st args (i + 1) 0 None else st args i (p + 1) None))"
proof -
  have l: "p \<le> length (args ! i)" using assms(2) by (metis drop_all le_cases list.distinct(1))
  have "at w 0 = CHR 0x00 \<longleftrightarrow> w = []" using assms(7) by (cases w) auto
  then have "brk_cmd_optparse opts (st args i p a) =
    Some (opt_id opt, None, if w = [] then st args (i + 1) 0 None else st args i (p + 1) None)"
    unfolding brk_cmd_optparse.simps [of opts "st args i p a"] parse_short.simps [of opts "st args i p a"]
    using assms l by (simp add: Let_def)
  from option_loop_emit [OF this find_short_id [OF assms(5)]] show ?thesis by simp
qed

lemma shorts_run:
  assumes "i < length args" "w = [] \<or> hd w \<noteq> CHR 0x00" "cs \<noteq> []"
  shows "drop p (args ! i) = cs @ w \<Longrightarrow> 0 < p \<Longrightarrow> shorts_ok opts cs \<Longrightarrow>
    option_loop (length cs + f) opts (st args i p a) =
      emit (short_events opts cs) (option_loop f opts (if w = [] then st args (i + 1) 0 None else st args i (p + length cs) None))"
  using assms(3)
proof (induction cs arbitrary: p a)
  case (Cons c cs)
  obtain opt where o: "find_short opts c = Some opt" "arg_kind opt = NO_ARG" "c \<noteq> CHR 0x00"
    using Cons.prems(3) takes_Some [of "find_short opts c" NO_ARG] by (auto simp: shorts_ok_def)
  have cs: "shorts_ok opts cs" using Cons.prems(3) by (simp add: shorts_ok_def)
  have nz: "cs @ w = [] \<or> hd (cs @ w) \<noteq> CHR 0x00" using assms(2) cs by (cases cs) (auto simp: shorts_ok_def)
  have s: "option_loop (Suc (length cs + f)) opts (st args i p a) =
    emit [(opt_id opt, None)] (option_loop (length cs + f) opts (if cs @ w = [] then st args (i + 1) 0 None else st args i (p + 1) None))"
    by (rule short_step [OF assms(1) _ Cons.prems(2) o(3,1,2) nz]) (use Cons.prems(1) in simp)
  have e: "short_events opts (c # cs) = [(opt_id opt, None)] @ short_events opts cs"
    using o(1) by (simp add: short_events_def id_of_def)
  have d: "drop (p + 1) (args ! i) = cs @ w"
    using Cons.prems(1) by (simp add: drop_Suc drop_tl)
  show ?case
  proof (cases "cs = []")
    case True
    then show ?thesis using s e by (simp add: short_events_def del: option_loop.simps)
  next
    case False
    from Cons.IH [OF d _ cs False, of None] s e False show ?thesis by (simp del: option_loop.simps)
  qed
qed simp

lemma arg_step:
  assumes "i < length args" "drop p (args ! i) = c # w" "0 < p" "c \<noteq> CHR 0x00"
    and "find_short opts c = Some opt" "arg_kind opt = REQUIRED_ARG"
  shows "w \<noteq> [] \<Longrightarrow> hd w \<noteq> CHR 0x00 \<Longrightarrow> option_loop (Suc f) opts (st args i p a) =
      emit [(opt_id opt, Some w)] (option_loop f opts (st args (i + 1) 0 (Some w)))"
    and "w = [] \<Longrightarrow> i + 1 < length args \<Longrightarrow> option_loop (Suc f) opts (st args i p a) =
      emit [(opt_id opt, Some (args ! (i + 1)))] (option_loop f opts (st args (i + 2) 0 (Some (args ! (i + 1)))))"
proof -
  have l: "p \<le> length (args ! i)" using assms(2) by (metis drop_all le_cases list.distinct(1))
  have e: "brk_cmd_optparse opts (st args i p a) =
    finish_option (st args i 0 a) opt (if at w 0 \<noteq> CHR 0x00 then Some w else None)"
    unfolding brk_cmd_optparse.simps [of opts "st args i p a"] parse_short.simps [of opts "st args i p a"]
    using assms l by (simp add: Let_def)
  show "option_loop (Suc f) opts (st args i p a) = emit [(opt_id opt, Some w)] (option_loop f opts (st args (i + 1) 0 (Some w)))"
    if "w \<noteq> []" "hd w \<noteq> CHR 0x00"
  proof -
    have "brk_cmd_optparse opts (st args i p a) = Some (opt_id opt, None, st args (i + 1) 0 (Some w))"
      using e that assms(6) by (cases w) (simp_all add: finish_option_def)
    from option_loop_emit [OF this find_short_id [OF assms(5)]] show ?thesis by simp
  qed
  show "option_loop (Suc f) opts (st args i p a) =
      emit [(opt_id opt, Some (args ! (i + 1)))] (option_loop f opts (st args (i + 2) 0 (Some (args ! (i + 1)))))"
    if "w = []" "i + 1 < length args"
  proof -
    have "brk_cmd_optparse opts (st args i p a) = Some (opt_id opt, None, st args (i + 2) 0 (Some (args ! (i + 1))))"
      using e that assms(6) by (simp add: finish_option_def)
    from option_loop_emit [OF this find_short_id [OF assms(5)]] show ?thesis by simp
  qed
qed

lemma long_step:
  assumes "i < length args" "args ! i = ''--'' @ n" "n \<noteq> []" "hd n \<noteq> CHR 0x00"
    and "parse_long (st args i 0 a) opts n = Some (r, None, ctx')" "r \<noteq> 0"
  shows "option_loop (Suc f) opts (st args i 0 a) = emit [(r, ctx_arg ctx')] (option_loop f opts ctx')"
proof (rule option_loop_emit [OF _ assms(6)])
  have "at n 0 \<noteq> CHR 0x00" using assms(3,4) by (cases n) auto
  then show "brk_cmd_optparse opts (st args i 0 a) = Some (r, None, ctx')"
    using assms by (simp add: brk_cmd_optparse.simps optparse_loop.simps [of opts "st args i 0 a"] Let_def)
qed

section \<open>Whole command lines\<close>

lemma takeWhile_name: "CHR ''='' \<notin> set n \<Longrightarrow> takeWhile (\<lambda>c. c \<noteq> CHR ''='') (n @ CHR ''='' # x) = n"
  by (induction n) auto

lemma short_item_run:
  assumes i: "i < length args" and ok: "short_arg_ok opts cs c" and w: "args ! i = CHR ''-'' # cs @ c # w"
    and x: "w \<noteq> [] \<and> hd w \<noteq> CHR 0x00 \<and> x = w \<and> j = i + 1 \<or>
      w = [] \<and> i + 1 < length args \<and> x = args ! (i + 1) \<and> j = i + 2"
  shows "option_loop (Suc (length cs + f)) opts (st args i 0 a) =
      emit (short_events opts cs @ [(id_of (find_short opts c), Some x)]) (option_loop f opts (st args j 0 (Some x)))"
proof -
  obtain opt where o: "find_short opts c = Some opt" "arg_kind opt = REQUIRED_ARG" "c \<noteq> CHR 0x00" "shorts_ok opts cs"
    using ok takes_Some by (auto simp: short_arg_ok_def)
  have hd: "hd (cs @ c # w) \<noteq> CHR ''-''" "hd (cs @ c # w) \<noteq> CHR 0x00"
    using ok by (cases cs; auto simp: short_arg_ok_def shorts_ok_def)+
  then have e: "option_loop f' opts (st args i 0 a) = option_loop f' opts (st args i 1 a)" for f'
    using enter_word [OF i, of "hd (cs @ c # w)" "tl (cs @ c # w)"] w by simp
  have run: "option_loop (length cs + Suc f) opts (st args i 1 a) =
      emit (short_events opts cs) (option_loop (Suc f) opts (st args i (1 + length cs) (if cs = [] then a else None)))"
    using shorts_run [OF i, of "c # w" cs 1 opts "Suc f" a] w o by (cases "cs = []") (simp_all add: short_events_def del: option_loop.simps)
  have d: "drop (1 + length cs) (args ! i) = c # w" by (simp add: w)
  have "option_loop (Suc f) opts (st args i (1 + length cs) a') = emit [(opt_id opt, Some x)] (option_loop f opts (st args j 0 (Some x)))" for a'
    using x arg_step [OF i d _ o(3,1,2), of f a'] by auto
  then show ?thesis using run o(1) unfolding e by (simp add: id_of_def del: option_loop.simps)
qed

text \<open>The loop consumes the words of one item and yields its events.\<close>

lemma item_run:
  assumes ok: "item_ok opts it" and d: "drop i args = render it @ r"
  shows "\<exists>a'. option_loop (length (events opts it) + f) opts (st args i 0 a) =
    emit (events opts it) (option_loop f opts (st args (i + length (render it)) 0 a'))"
proof -
  have r: "render it \<noteq> []" by (cases it) simp_all
  have i: "i < length args" using d r by (metis append_is_Nil_conv drop_all not_le)
  have ai: "args ! i = hd (render it)" using d r i by (metis hd_append2 hd_drop_conv_nth)
  have i1: "i + 1 < length args \<and> args ! (i + 1) = y" if "render it = [x, y]" for x y
    using arg_cong [OF d, of length] arg_cong [OF d, of "\<lambda>l. l ! 1"] i by (simp add: that)
  show ?thesis
  proof (cases it)
    case (Cluster cs)
    then have w: "args ! i = CHR ''-'' # hd cs # tl cs" "cs \<noteq> []" and "hd cs \<noteq> CHR ''-''" "shorts_ok opts cs"
      using ai ok by auto
    moreover have "hd cs \<noteq> CHR 0x00" using calculation(2,4) by (auto simp: shorts_ok_def)
    ultimately have e: "option_loop f' opts (st args i 0 a) = option_loop f' opts (st args i 1 a)" for f'
      using enter_word [OF i] by blast
    show ?thesis
      using shorts_run [OF i, of "[]" cs 1 opts f a] Cluster ok ai
      unfolding e by (auto simp: short_events_def)
  next
    case (Short_embed cs c x)
    then show ?thesis
      using short_item_run [OF i, of opts cs c x x "i + 1" f a] ok ai by (auto simp: short_events_def)
  next
    case (Short_next cs c x)
    then show ?thesis
      using short_item_run [OF i, of opts cs c "[]" x "i + 2" f a] ok ai i1 by (auto simp: short_events_def)
  next
    case (Long n)
    then obtain opt where opt: "find_long opts n = Some opt" "arg_kind opt = NO_ARG" "long_name_ok n"
      using ok takes_Some by auto
    have "parse_long (st args i 0 a) opts n = Some (opt_id opt, None, st args (i + 1) 0 None)"
      using opt by (simp add: parse_long_def finish_option_def long_name_ok_def)
    from long_step [OF i _ _ _ this find_long_id [OF opt(1)], of f] show ?thesis
      using Long ai opt by (auto simp: id_of_def long_name_ok_def simp del: option_loop.simps)
  next
    case (Long_eq n x)
    then obtain opt where opt: "find_long opts n = Some opt" "arg_kind opt = REQUIRED_ARG" "long_name_ok n" "length n < 128"
      using ok takes_Some by auto
    have "parse_long (st args i 0 a) opts (n @ ''='' @ x) = Some (opt_id opt, None, st args (i + 1) 0 (Some x))"
      using opt by (simp add: parse_long_def finish_option_def long_name_ok_def takeWhile_name Let_def)
    from long_step [OF i _ _ _ this find_long_id [OF opt(1)], of f] show ?thesis
      using Long_eq ai opt by (auto simp: id_of_def long_name_ok_def simp del: option_loop.simps)
  next
    case (Long_next n x)
    then obtain opt where opt: "find_long opts n = Some opt" "arg_kind opt = REQUIRED_ARG" "long_name_ok n"
      using ok takes_Some by auto
    have "parse_long (st args i 0 a) opts n = Some (opt_id opt, None, st args (i + 2) 0 (Some x))"
      using opt Long_next i1 by (simp add: parse_long_def finish_option_def long_name_ok_def)
    from long_step [OF i _ _ _ this find_long_id [OF opt(1)], of f] show ?thesis
      using Long_next ai opt by (auto simp: id_of_def long_name_ok_def simp del: option_loop.simps)
  qed
qed

lemma items_run:
  "\<forall>it\<in>set its. item_ok opts it \<Longrightarrow> drop i args = concat (map render its) @ r \<Longrightarrow>
   \<exists>a'. option_loop (length (concat (map (events opts) its)) + f) opts (st args i 0 a) =
     emit (concat (map (events opts) its)) (option_loop f opts (st args (i + length (concat (map render its))) 0 a'))"
proof (induction its arbitrary: i a)
  case (Cons it its)
  let ?n = "length (concat (map (events opts) its))"
  obtain a1 where 1: "option_loop (length (events opts it) + (?n + f)) opts (st args i 0 a) =
      emit (events opts it) (option_loop (?n + f) opts (st args (i + length (render it)) 0 a1))"
    using item_run [of opts it i args _ "?n + f" a] Cons.prems by auto
  have d: "drop (i + length (render it)) args = concat (map render its) @ r"
    using arg_cong [OF Cons.prems(2), of "drop (length (render it))"] by (simp add: add.commute)
  obtain a2 where "option_loop (?n + f) opts (st args (i + length (render it)) 0 a1) =
      emit (concat (map (events opts) its)) (option_loop f opts (st args (i + length (render it) + length (concat (map render its))) 0 a2))"
    using Cons.IH [OF _ d, of a1] Cons.prems(1) by auto
  with 1 show ?case by (auto simp: add.assoc)
qed auto

text \<open>Where the options end: at a double dash, an operand or the end of the words.\<close>

lemma end_run:
  assumes "dd \<or> ops = [] \<or> plain_word (hd ops)" "drop i args = (if dd then [''--''] else []) @ ops"
  shows "\<exists>ctx. option_loop (Suc f) opts (st args i 0 a) = Some ([], None, ctx) \<and> argv ctx = args \<and>
    drop (index ctx) args = ops \<and> index ctx \<le> max i (length args)"
proof (cases dd)
  case True
  have i: "i < length args" using arg_cong [OF assms(2), of length] True by simp
  have ai: "args ! i = ''--''" using assms(2) True i by (simp add: hd_drop_conv_nth [symmetric])
  have d: "drop (Suc i) args = ops" using assms(2) True by (simp add: drop_Suc drop_tl)
  let ?c = "(st args i 0 a)\<lparr>end_of_opts := True, index := Suc i\<rparr>"
  have "brk_cmd_optparse opts (st args i 0 a) = Some (0, None, ?c)"
  proof -
    have "optparse_loop opts ?c = Some (0, None, ?c)" unfolding optparse_loop.simps [of opts ?c] by (simp add: Let_def)
    then show ?thesis
      unfolding brk_cmd_optparse.simps [of opts "st args i 0 a"] optparse_loop.simps [of opts "st args i 0 a"]
      using i ai by (simp add: Let_def)
  qed
  then show ?thesis using d i by simp
next
  case False
  have "brk_cmd_optparse opts (st args i 0 a) = Some (0, None, st args i 0 a)"
  proof (cases "i < length args")
    case i: True
    then have "args ! i = hd ops" "ops \<noteq> []" using assms(2) False by (auto simp: hd_drop_conv_nth [symmetric])
    then have "at (args ! i) 0 \<noteq> CHR ''-'' \<or> at (args ! i) 1 = CHR 0x00" using assms(1) False by (auto simp: plain_word_def)
    then show ?thesis using i by (simp add: brk_cmd_optparse.simps optparse_loop.simps [of opts "st args i 0 a"] Let_def)
  qed (simp add: brk_cmd_optparse.simps optparse_loop.simps)
  then show ?thesis using assms(2) False by simp
qed

text \<open>
  C30. A command line made of options in any of the accepted forms (clusters of short options,
  arguments in the same word, after an equals sign or in the next word), an optional double dash
  and operands is parsed by the option loop into exactly these options with their arguments, in
  order, without a message; the loop ends, and the operands it leaves are exactly the ones given.
\<close>

theorem optparse_command_line:
  assumes "\<forall>it\<in>set its. item_ok opts it" "dd \<or> ops = [] \<or> plain_word (hd ops)"
    and args: "args = prog # concat (map render its) @ (if dd then [''--''] else []) @ ops"
    and "length (concat (map (events opts) its)) < fuel"
  shows "\<exists>ctx. option_loop fuel opts (optctx_init args) = Some (concat (map (events opts) its), None, ctx) \<and>
    brk_cmd_operand_count ctx = int (length ops) \<and> (\<forall>n<length ops. brk_cmd_operand ctx (int n) = Some (ops ! n))"
proof -
  obtain f where f: "fuel = length (concat (map (events opts) its)) + Suc f"
    using assms(4) less_imp_Suc_add by auto
  let ?i = "1 + length (concat (map render its))"
  have d: "drop 1 args = concat (map render its) @ (if dd then [''--''] else []) @ ops" by (simp add: args)
  obtain a where r: "option_loop fuel opts (optctx_init args) =
      emit (concat (map (events opts) its)) (option_loop (Suc f) opts (st args ?i 0 a))"
    using items_run [OF assms(1) d, of "Suc f" None] by (auto simp: f optctx_init_def simp del: option_loop.simps)
  have "drop ?i args = (if dd then [''--''] else []) @ ops" by (simp add: args)
  from end_run [OF assms(2) this, of f opts a] obtain ctx where
    c: "option_loop (Suc f) opts (st args ?i 0 a) = Some ([], None, ctx)" "argv ctx = args" "drop (index ctx) args = ops"
      "index ctx \<le> max ?i (length args)" by blast
  have l: "length ops = length args - index ctx" using c(3) by auto
  have "index ctx \<le> length args" using c(4) by (simp add: args)
  then have "brk_cmd_operand_count ctx = int (length ops)"
    using l c(2) by (simp add: brk_cmd_operand_count_def)
  moreover have "brk_cmd_operand ctx (int n) = Some (ops ! n)" if "n < length ops" for n
    using that l c(2) c(3) by (auto simp: brk_cmd_operand_def)
  ultimately show ?thesis using r c(1) by (simp add: emit_def del: option_loop.simps)
qed

definition demo_opts :: "brk_cmd_option list" where
  "demo_opts = [
     \<lparr>opt_id = 110, short_opt = CHR ''n'', long_opt = Some ''number'', arg_kind = REQUIRED_ARG\<rparr>,
     \<lparr>opt_id = 113, short_opt = CHR ''q'', long_opt = None, arg_kind = NO_ARG\<rparr>]"

theorem optparse_command_line_witness:
  "\<exists>ctx. option_loop 5 demo_opts (optctx_init [''head'', ''-qn'', ''5'', ''--number=7'', ''--'', ''-f'']) =
      Some ([(113, None), (110, Some ''5''), (110, Some ''7'')], None, ctx) \<and>
    brk_cmd_operand_count ctx = 1 \<and> (\<forall>n<1. brk_cmd_operand ctx (int n) = Some ([''-f''] ! n))"
proof -
  let ?its = "[Short_next ''q'' CHR ''n'' ''5'', Long_eq ''number'' ''7'']"
  have ok: "\<forall>it\<in>set ?its. item_ok demo_opts it"
    by (simp add: demo_opts_def short_arg_ok_def shorts_ok_def takes_def long_name_ok_def)
  have e: "concat (map (events demo_opts) ?its) = [(113, None), (110, Some ''5''), (110, Some ''7'')]"
    by (simp add: demo_opts_def short_events_def id_of_def)
  show ?thesis
    using optparse_command_line [OF ok, of True "[''-f'']" _ "''head''" 5, unfolded e] by (simp del: option_loop.simps)
qed

end
