(* ===== verification/Sh_Lexer.thy ===== *)
theory Sh_Lexer
  imports Ctype "HOL-Library.Sublist"
begin

text \<open>
  The lexer of the shell, \<open>cmd/sh/sh_lexer.c\<close>. The position in the input is the part that is not
  yet read. Two things outside the component are parameters: \<open>env\<close>, what \<open>getenv\<close> answers, and
  \<open>room\<close>, which sizes \<open>realloc\<close> can provide.
\<close>

section \<open>The code\<close>

datatype sh_err = SH_OK | SH_ERR_NOMEM | SH_ERR_LEX | SH_ERR_PARSE | SH_ERR_IO | SH_ERR_SYS

datatype sh_token =
    SH_TOKEN_EOF
  | SH_TOKEN_WORD string
  | SH_TOKEN_PIPE
  | SH_TOKEN_REDIR_IN
  | SH_TOKEN_REDIR_OUT
  | SH_TOKEN_REDIR_APPEND
  | SH_TOKEN_NEWLINE

record sh_lexer =
  rest :: string
  line :: nat
  col :: nat
  errmsg :: string

definition sh_lexer_init :: "string \<Rightarrow> sh_lexer" where
  "sh_lexer_init input = \<lparr>rest = input, line = 1, col = 1, errmsg = []\<rparr>"

definition at_eof :: "sh_lexer \<Rightarrow> bool" where
  "at_eof lx \<longleftrightarrow> rest lx = []"

definition peek :: "sh_lexer \<Rightarrow> char" where
  "peek lx = (if at_eof lx then CHR 0x00 else hd (rest lx))"

definition advance :: "sh_lexer \<Rightarrow> sh_lexer" where
  "advance lx =
     (if at_eof lx then lx
      else if hd (rest lx) = CHR 0x0A
      then lx\<lparr>line := line lx + 1, col := 1, rest := tl (rest lx)\<rparr>
      else lx\<lparr>col := col lx + 1, rest := tl (rest lx)\<rparr>)"

text \<open>The classes of \<open>ctype.h\<close> on \<open>(unsigned char)c\<close>.\<close>

abbreviation space :: "char \<Rightarrow> bool" where "space c \<equiv> isspace (of_char c)"
abbreviation alpha :: "char \<Rightarrow> bool" where "alpha c \<equiv> isalpha (of_char c)"
abbreviation alnum :: "char \<Rightarrow> bool" where "alnum c \<equiv> isalnum (of_char c)"

lemma rest_advance: "rest (advance lx) = tl (rest lx)"
  by (simp add: advance_def at_eof_def)

lemma length_advance: "\<not> at_eof lx \<Longrightarrow> length (rest (advance lx)) < length (rest lx)"
  by (simp add: rest_advance at_eof_def)

function skip_spaces :: "sh_lexer \<Rightarrow> sh_lexer" where
  "skip_spaces lx =
     (if \<not> at_eof lx \<and> space (peek lx) \<and> peek lx \<noteq> CHR 0x0A then skip_spaces (advance lx) else lx)"
  by pat_completeness auto
termination by (relation "measure (length \<circ> rest)") (auto simp: length_advance)

function comment_loop :: "sh_lexer \<Rightarrow> sh_lexer" where
  "comment_loop lx =
     (if \<not> at_eof lx \<and> peek lx \<noteq> CHR 0x0A then comment_loop (advance lx) else lx)"
  by pat_completeness auto
termination by (relation "measure (length \<circ> rest)") (auto simp: length_advance)

definition skip_comment :: "sh_lexer \<Rightarrow> sh_lexer" where
  "skip_comment lx = (if peek lx \<noteq> CHR ''#'' then lx else comment_loop lx)"

text \<open>
  A growing buffer: no buffer yet (a null pointer), or its contents, and its capacity. A failed
  \<open>realloc\<close> is \<open>None\<close>. What can be provided depends on the size only, so after a failure a second
  push fails too.
\<close>

type_synonym shbuf = "string option \<times> nat"

definition contents :: "shbuf \<Rightarrow> string" where
  "contents b = (case fst b of None \<Rightarrow> [] | Some s \<Rightarrow> s)"

definition sh_buf_push :: "(nat \<Rightarrow> bool) \<Rightarrow> shbuf \<Rightarrow> char \<Rightarrow> shbuf option" where
  "sh_buf_push room b c =
     (let len = length (contents b); cap = snd b
      in if len + 1 \<ge> cap
         then let ncap = (if cap \<noteq> 0 then cap * 2 else 64)
              in if room ncap then Some (Some (contents b @ [c]), ncap) else None
         else Some (Some (contents b @ [c]), cap))"

fun push_all :: "(nat \<Rightarrow> bool) \<Rightarrow> shbuf \<Rightarrow> string \<Rightarrow> shbuf option" where
  "push_all room b [] = Some b"
| "push_all room b (c # s) =
     (case sh_buf_push room b c of None \<Rightarrow> None | Some b \<Rightarrow> push_all room b s)"

text \<open>The characters of a C string up to its terminator.\<close>

definition to_nul :: "string \<Rightarrow> string" where
  "to_nul s = takeWhile (\<lambda>c. c \<noteq> CHR 0x00) s"

text \<open>The loop over a variable name: the name and the state behind it.\<close>

function name_loop :: "sh_lexer \<Rightarrow> string \<Rightarrow> string \<times> sh_lexer" where
  "name_loop lx name =
     (if \<not> at_eof lx \<and> (alnum (peek lx) \<or> peek lx = CHR ''_'')
      then name_loop (advance lx) (name @ [peek lx]) else (name, lx))"
  by pat_completeness auto
termination by (relation "measure (length \<circ> rest \<circ> fst)") (auto simp: length_advance)

text \<open>
  \<open>expand_variable\<close>: the state, the buffer and whether a reference was consumed; \<open>None\<close> is a failed
  push. A name of 128 or more characters does not fit \<open>name\<close>. Going back sets the position only,
  not the line and the column.
\<close>

definition expand_variable ::
  "(nat \<Rightarrow> bool) \<Rightarrow> (string \<Rightarrow> string option) \<Rightarrow> sh_lexer \<Rightarrow> shbuf \<Rightarrow> (sh_lexer \<times> shbuf \<times> bool) option"
where
  "expand_variable room env lx b =
     (let save = rest lx;
          lx = advance lx;
          braced = (peek lx = CHR ''{'');
          lx = (if braced then advance lx else lx)
      in if \<not> braced \<and> \<not> (alpha (peek lx) \<or> peek lx = CHR ''_'')
         then Some (lx\<lparr>rest := save\<rparr>, b, False)
         else
           let (name, lx) = name_loop lx []
           in if braced \<and> (peek lx \<noteq> CHR ''}'' \<or> name = []) then Some (lx\<lparr>rest := save\<rparr>, b, False)
              else
                let lx = (if braced then advance lx else lx)
                in if name = [] \<or> length name \<ge> 128 then Some (lx\<lparr>rest := save\<rparr>, b, False)
                   else case env name of
                       None \<Rightarrow> Some (lx, b, True)
                     | Some value \<Rightarrow>
                         (case push_all room b (to_nul value) of
                            None \<Rightarrow> None
                          | Some b \<Rightarrow> Some (lx, b, True)))"

text \<open>The results of the word readers: the text, \<open>-1\<close> and \<open>-2\<close>.\<close>

datatype word_result = Text string | No_mem | Unterminated

function single_loop :: "(nat \<Rightarrow> bool) \<Rightarrow> sh_lexer \<Rightarrow> shbuf \<Rightarrow> shbuf option \<times> sh_lexer" where
  "single_loop room lx b =
     (if \<not> at_eof lx \<and> peek lx \<noteq> CHR 0x27
      then case sh_buf_push room b (peek lx) of
          None \<Rightarrow> (None, lx)
        | Some b \<Rightarrow> single_loop room (advance lx) b
      else (Some b, lx))"
  by pat_completeness auto
termination by (relation "measure (length \<circ> rest \<circ> fst \<circ> snd)") (auto simp: length_advance)

text \<open>Terminating the buffer, the end of every reader.\<close>

definition finish_word :: "(nat \<Rightarrow> bool) \<Rightarrow> shbuf \<Rightarrow> word_result" where
  "finish_word room b =
     (case sh_buf_push room b CHR 0x00 of None \<Rightarrow> No_mem | Some b' \<Rightarrow> Text (to_nul (contents b')))"

definition read_single_quoted :: "(nat \<Rightarrow> bool) \<Rightarrow> sh_lexer \<Rightarrow> word_result \<times> sh_lexer" where
  "read_single_quoted room lx =
     (case single_loop room (advance lx) (None, 0) of
        (None, lx) \<Rightarrow> (No_mem, lx)
      | (Some b, lx) \<Rightarrow>
          if peek lx \<noteq> CHR 0x27 then (Unterminated, lx)
          else let lx = advance lx in (finish_word room b, lx))"

declare skip_spaces.simps [simp del] comment_loop.simps [simp del] name_loop.simps [simp del] single_loop.simps [simp del]

lemma name_loop_rest: "name_loop lx n = (n', lx') \<Longrightarrow> length (rest lx') \<le> length (rest lx)"
proof (induction lx n rule: name_loop.induct)
  case (1 lx n)
  then show ?case
    using length_advance [of lx] by (subst (asm) (2) name_loop.simps) (fastforce split: if_splits)
qed

lemma expand_rest:
  assumes "expand_variable room env lx b = Some (lx', b', consumed)" "\<not> at_eof lx"
  shows "if consumed then length (rest lx') < length (rest lx) else rest lx' = rest lx"
proof -
  let ?braced = "peek (advance lx) = CHR ''{''"
  define l1 where "l1 = (if ?braced then advance (advance lx) else advance lx)"
  obtain n l2 where nl: "name_loop l1 [] = (n, l2)" by force
  define l3 where "l3 = (if ?braced then advance l2 else l2)"
  have "length (rest l1) < length (rest lx)" using assms(2) by (auto simp: l1_def rest_advance at_eof_def)
  moreover have "length (rest l3) \<le> length (rest l2)" by (simp add: l3_def rest_advance)
  ultimately have "length (rest l3) < length (rest lx)" using name_loop_rest [OF nl] by simp
  then show ?thesis
    using assms(1) nl
    unfolding expand_variable_def Let_def l1_def [symmetric]
    by (auto simp: l3_def split: if_splits option.splits)
qed

text \<open>
  The loop of \<open>read_double_quoted\<close>. The buffer that \<open>expand_variable\<close> returns is compared with the null
  pointer, which it also is when nothing has been pushed yet.
\<close>

function double_loop ::
  "(nat \<Rightarrow> bool) \<Rightarrow> (string \<Rightarrow> string option) \<Rightarrow> sh_lexer \<Rightarrow> shbuf \<Rightarrow> (word_result + shbuf) \<times> sh_lexer"
where
  "double_loop room env lx b =
     (if \<not> at_eof lx \<and> peek lx \<noteq> CHR 0x22 then
        if peek lx = CHR 0x5C then
          let lx = advance lx
          in if at_eof lx then (Inl Unterminated, lx)
             else let n = peek lx
               in if n = CHR 0x0A then (Inl Unterminated, lx)
                  else if n = CHR 0x22 \<or> n = CHR 0x5C \<or> n = CHR ''$'' \<or> n = CHR 0x60
                  then case sh_buf_push room b n of
                      None \<Rightarrow> (Inl No_mem, advance lx)
                    | Some b \<Rightarrow> double_loop room env (advance lx) b
                  else case push_all room b [CHR 0x5C, n] of
                      None \<Rightarrow> (Inl No_mem, advance lx)
                    | Some b \<Rightarrow> double_loop room env (advance lx) b
        else if peek lx = CHR ''$'' then
          case expand_variable room env lx b of
            None \<Rightarrow> (Inl No_mem, lx)
          | Some (lx', b, consumed) \<Rightarrow>
              if fst b = None then (Inl No_mem, lx')
              else if consumed then double_loop room env lx' b
              else case sh_buf_push room b CHR ''$'' of
                  None \<Rightarrow> (Inl No_mem, lx')
                | Some b \<Rightarrow> double_loop room env (advance lx') b
        else case sh_buf_push room b (peek lx) of
            None \<Rightarrow> (Inl No_mem, advance lx)
          | Some b \<Rightarrow> double_loop room env (advance lx) b
      else (Inr b, lx))"
  by pat_completeness auto
termination
  by (relation "measure (\<lambda>(room, env, lx, b). length (rest lx))")
    (auto simp: rest_advance at_eof_def dest: expand_rest)

declare double_loop.simps [simp del]

definition read_double_quoted ::
  "(nat \<Rightarrow> bool) \<Rightarrow> (string \<Rightarrow> string option) \<Rightarrow> sh_lexer \<Rightarrow> word_result \<times> sh_lexer"
where
  "read_double_quoted room env lx =
     (case double_loop room env (advance lx) (None, 0) of
        (Inl e, lx) \<Rightarrow> (e, lx)
      | (Inr b, lx) \<Rightarrow>
          if peek lx \<noteq> CHR 0x22 then (Unterminated, lx)
          else let lx = advance lx in (finish_word room b, lx))"

lemma single_loop_rest: "length (rest (snd (single_loop room lx b))) \<le> length (rest lx)"
proof (induction room lx b rule: single_loop.induct)
  case (1 room lx b)
  show ?case
    using 1 length_advance [of lx] by (subst single_loop.simps) (auto split: option.splits intro: order_trans less_imp_le)
qed

lemma length_advance_le: "length (rest (advance lx)) \<le> length (rest lx)"
  by (simp add: rest_advance)

lemma double_loop_rest: "length (rest (snd (double_loop room env lx b))) \<le> length (rest lx)"
proof (induction lx arbitrary: b rule: measure_induct_rule [of "\<lambda>lx. length (rest lx)"])
  case (less lx)
  have step: "length (rest (snd (double_loop room env l' b'))) \<le> length (rest lx)" if "length (rest l') < length (rest lx)" for l' b'
    using less.IH [OF that, of b'] that by simp
  consider "at_eof lx \<or> peek lx = CHR 0x22" | "\<not> at_eof lx" "peek lx = CHR 0x5C" | "\<not> at_eof lx" "peek lx = CHR ''$''"
    | "\<not> at_eof lx" "peek lx \<noteq> CHR 0x22" "peek lx \<noteq> CHR 0x5C" "peek lx \<noteq> CHR ''$''" by blast
  then show ?case
  proof cases
    case 2
    then show ?thesis
      by (subst double_loop.simps) (auto simp: Let_def rest_advance at_eof_def split: option.split intro!: step)
  next
    case 3
    show ?thesis
    proof (cases "expand_variable room env lx b")
      case (Some r)
      obtain l' b' k where r: "r = (l', b', k)" by (cases r)
      then have "if k then length (rest l') < length (rest lx) else rest l' = rest lx"
        using expand_rest [of room env lx b l' b' k] 3 Some by simp
      then show ?thesis
        using 3 Some r by (subst double_loop.simps) (auto simp: rest_advance at_eof_def split: option.split if_splits intro!: step)
    qed (use 3 in \<open>subst double_loop.simps, simp\<close>)
  next
    case 4
    then show ?thesis
      by (subst double_loop.simps) (auto simp: rest_advance at_eof_def split: option.split intro!: step)
  qed (subst double_loop.simps, auto)
qed

lemma read_single_rest: "\<not> at_eof lx \<Longrightarrow> length (rest (snd (read_single_quoted room lx))) < length (rest lx)"
  using single_loop_rest [of room "advance lx" "(None, 0)"] length_advance [of lx]
  by (auto simp: read_single_quoted_def Let_def rest_advance split: prod.splits option.splits)

lemma read_double_rest: "\<not> at_eof lx \<Longrightarrow> length (rest (snd (read_double_quoted room env lx))) < length (rest lx)"
  using double_loop_rest [of room env "advance lx" "(None, 0)"] length_advance [of lx]
  by (auto simp: read_double_quoted_def Let_def rest_advance split: prod.splits sum.splits)

text \<open>
  \<open>read_word\<close>: a failure inside quotes, of either kind, is reported as an unterminated quote.
\<close>

definition word_end :: "char \<Rightarrow> bool" where
  "word_end c \<longleftrightarrow> space c \<or> c = CHR ''|'' \<or> c = CHR ''<'' \<or> c = CHR ''>'' \<or> c = CHR ''#'' \<or> c = CHR 0x00"

function word_loop ::
  "(nat \<Rightarrow> bool) \<Rightarrow> (string \<Rightarrow> string option) \<Rightarrow> sh_lexer \<Rightarrow> shbuf \<Rightarrow> (word_result + shbuf) \<times> sh_lexer"
where
  "word_loop room env lx b =
     (if \<not> at_eof lx then
        let c = peek lx
        in if c = CHR 0x27 \<or> c = CHR 0x22 then
             case (if c = CHR 0x27 then read_single_quoted room lx else read_double_quoted room env lx) of
               (Text inner, lx) \<Rightarrow>
                 (case push_all room b inner of
                    None \<Rightarrow> (Inl No_mem, lx)
                  | Some b \<Rightarrow> word_loop room env lx b)
             | (_, lx) \<Rightarrow> (Inl Unterminated, lx)
           else if word_end c then (Inr b, lx)
           else if c = CHR ''$'' then
             case expand_variable room env lx b of
               None \<Rightarrow> (Inl No_mem, lx)
             | Some (lx', b, consumed) \<Rightarrow>
                 if fst b = None then (Inl No_mem, lx')
                 else if consumed then word_loop room env lx' b
                 else case sh_buf_push room b CHR ''$'' of
                     None \<Rightarrow> (Inl No_mem, lx')
                   | Some b \<Rightarrow> word_loop room env (advance lx') b
           else
             let lx = (if c = CHR 0x5C \<and> length (rest lx) > 1 then advance lx else lx); c = peek lx
             in case sh_buf_push room b c of
                 None \<Rightarrow> (Inl No_mem, lx)
               | Some b \<Rightarrow> word_loop room env (advance lx) b
      else (Inr b, lx))"
  by pat_completeness auto
termination
proof (relation "measure (\<lambda>(room, env, lx, b). length (rest lx))", goal_cases)
  case (2 room env lx b x p x1 x2)
  then show ?case
    using read_single_rest [of lx room] read_double_rest [of lx room env] by (auto split: if_splits) (metis snd_conv)+
qed (auto simp: rest_advance at_eof_def dest: expand_rest)

declare word_loop.simps [simp del]

definition read_word ::
  "(nat \<Rightarrow> bool) \<Rightarrow> (string \<Rightarrow> string option) \<Rightarrow> sh_lexer \<Rightarrow> word_result \<times> sh_lexer"
where
  "read_word room env lx =
     (case word_loop room env lx (None, 0) of
        (Inl e, lx) \<Rightarrow> (e, lx)
      | (Inr b, lx) \<Rightarrow> (finish_word room b, lx))"

lemma skip_spaces_rest: "length (rest (skip_spaces lx)) \<le> length (rest lx)"
proof (induction lx rule: skip_spaces.induct)
  case (1 lx)
  then show ?case using length_advance [of lx] by (subst skip_spaces.simps) auto
qed

lemma comment_loop_rest: "length (rest (comment_loop lx)) \<le> length (rest lx)"
proof (induction lx rule: comment_loop.induct)
  case (1 lx)
  then show ?case using length_advance [of lx] by (subst comment_loop.simps) auto
qed

lemma skip_comment_rest:
  assumes "peek lx = CHR ''#''"
  shows "length (rest (skip_comment lx)) < length (rest lx)"
proof -
  have e: "\<not> at_eof lx" using assms by (auto simp: peek_def)
  have "skip_comment lx = comment_loop (advance lx)"
    using assms e by (simp add: skip_comment_def comment_loop.simps [of lx])
  then show ?thesis using comment_loop_rest [of "advance lx"] length_advance [OF e] by simp
qed

function sh_lexer_next ::
  "(nat \<Rightarrow> bool) \<Rightarrow> (string \<Rightarrow> string option) \<Rightarrow> sh_lexer \<Rightarrow> sh_err \<times> sh_token \<times> sh_lexer"
where
  "sh_lexer_next room env lx =
     (let lx = skip_spaces lx; c = peek lx
      in if at_eof lx then (SH_OK, SH_TOKEN_EOF, lx)
         else if c = CHR 0x0A then (SH_OK, SH_TOKEN_NEWLINE, advance lx)
         else if c = CHR ''#'' then sh_lexer_next room env (skip_comment lx)
         else if c = CHR ''|'' then (SH_OK, SH_TOKEN_PIPE, advance lx)
         else if c = CHR ''<'' then (SH_OK, SH_TOKEN_REDIR_IN, advance lx)
         else if c = CHR ''>'' then
           let lx = advance lx
           in if peek lx = CHR ''>'' then (SH_OK, SH_TOKEN_REDIR_APPEND, advance lx)
              else (SH_OK, SH_TOKEN_REDIR_OUT, lx)
         else case read_word room env lx of
             (Text w, lx) \<Rightarrow> (SH_OK, SH_TOKEN_WORD w, lx)
           | (Unterminated, lx) \<Rightarrow> (SH_ERR_LEX, SH_TOKEN_EOF, lx\<lparr>errmsg := ''unterminated quote''\<rparr>)
           | (No_mem, lx) \<Rightarrow> (SH_ERR_NOMEM, SH_TOKEN_EOF, lx\<lparr>errmsg := ''out of memory''\<rparr>))"
  by pat_completeness auto
termination
  by (relation "measure (\<lambda>(room, env, lx). length (rest lx))")
    (auto intro: less_le_trans [OF skip_comment_rest skip_spaces_rest])

declare sh_lexer_next.simps [simp del]

section \<open>Words\<close>

text \<open>Memory that never runs out.\<close>

abbreviation plenty :: "nat \<Rightarrow> bool" where "plenty \<equiv> (\<lambda>_. True)"

lemma peek_Cons [simp]: "rest lx = c # s \<Longrightarrow> peek lx = c" "rest lx = c # s \<Longrightarrow> \<not> at_eof lx"
  by (simp_all add: peek_def at_eof_def)

lemma contents_None [simp]: "contents (None, n) = []"
  by (simp add: contents_def)

lemma push_ok: "\<exists>b'. sh_buf_push plenty b c = Some b' \<and> contents b' = contents b @ [c] \<and> fst b' \<noteq> None"
  by (auto simp: sh_buf_push_def Let_def contents_def)

lemma push_all_ok:
  "\<exists>b'. push_all plenty b s = Some b' \<and> contents b' = contents b @ s \<and> (fst b' = None \<longleftrightarrow> fst b = None \<and> s = [])"
proof (induction s arbitrary: b)
  case (Cons c s)
  obtain b1 where 1: "sh_buf_push plenty b c = Some b1" "contents b1 = contents b @ [c]" "fst b1 \<noteq> None"
    using push_ok by blast
  from Cons.IH [of b1] 1 show ?case by auto
qed simp

lemma finish_word_ok: "CHR 0x00 \<notin> set (contents b) \<Longrightarrow> finish_word plenty b = Text (contents b)"
  using push_ok [of b "CHR 0x00"] by (auto simp: finish_word_def to_nul_def takeWhile_tail)

lemma single_loop_ok:
  "CHR 0x27 \<notin> set w \<Longrightarrow> rest lx = w @ CHR 0x27 # r \<Longrightarrow>
   \<exists>b' lx'. single_loop plenty lx b = (Some b', lx') \<and> contents b' = contents b @ w \<and> rest lx' = CHR 0x27 # r \<and> errmsg lx' = errmsg lx"
proof (induction w arbitrary: lx b)
  case Nil
  then show ?case by (subst single_loop.simps) auto
next
  case (Cons c w)
  obtain b1 where 1: "sh_buf_push plenty b c = Some b1" "contents b1 = contents b @ [c]" using push_ok by blast
  have r: "rest (advance lx) = w @ CHR 0x27 # r" using Cons.prems by (simp add: rest_advance)
  have e: "errmsg (advance lx) = errmsg lx" by (simp add: advance_def)
  from Cons.IH [OF _ r, of b1] Cons.prems 1 e show ?case by (subst single_loop.simps) auto
qed

lemma read_single_ok:
  assumes "CHR 0x27 \<notin> set w" "CHR 0x00 \<notin> set w" "rest lx = CHR 0x27 # w @ CHR 0x27 # r"
  shows "\<exists>lx'. read_single_quoted plenty lx = (Text w, lx') \<and> rest lx' = r \<and> errmsg lx' = errmsg lx"
proof -
  have "rest (advance lx) = w @ CHR 0x27 # r" using assms(3) by (simp add: rest_advance)
  from single_loop_ok [OF assms(1) this, of "(None, 0)"] obtain b' lx' where
    s: "single_loop plenty (advance lx) (None, 0) = (Some b', lx')" "contents b' = w" "rest lx' = CHR 0x27 # r"
      "errmsg lx' = errmsg (advance lx)" by auto
  then show ?thesis
    using finish_word_ok [of b'] assms(2)
    by (auto simp: read_single_quoted_def Let_def rest_advance) (simp add: advance_def)
qed

text \<open>
  A text between single quotes, with a quote inside written as \<open>'\''\<close>: the form that
  \<open>sh_alias_print\<close> uses.
\<close>

fun quote_tail :: "string \<Rightarrow> string" where
  "quote_tail [] = [CHR 0x27]"
| "quote_tail (c # w) = (if c = CHR 0x27 then [CHR 0x27, CHR 0x5C, CHR 0x27, CHR 0x27] else [c]) @ quote_tail w"

definition quote :: "string \<Rightarrow> string" where
  "quote w = CHR 0x27 # quote_tail w"

lemma quote_tail_append: "CHR 0x27 \<notin> set u \<Longrightarrow> quote_tail (u @ v) = u @ quote_tail v"
  by (induction u) auto

definition stops :: "string \<Rightarrow> bool" where
  "stops r \<longleftrightarrow> r = [] \<or> word_end (hd r) \<and> hd r \<noteq> CHR 0x27 \<and> hd r \<noteq> CHR 0x22"

lemma word_loop_stops: "stops (rest lx) \<Longrightarrow> word_loop room env lx b = (Inr b, lx)"
  by (subst word_loop.simps) (auto simp: stops_def at_eof_def peek_def Let_def)

lemma word_loop_quote:
  "CHR 0x00 \<notin> set w \<Longrightarrow> rest lx = quote w @ r \<Longrightarrow> stops r \<Longrightarrow>
   \<exists>b' lx'. word_loop plenty env lx b = (Inr b', lx') \<and> contents b' = contents b @ w \<and> rest lx' = r \<and> errmsg lx' = errmsg lx"
proof (induction "length w" arbitrary: w lx b rule: less_induct)
  case less
  show ?case
  proof (cases "CHR 0x27 \<in> set w")
    case False
    have q: "rest lx = CHR 0x27 # w @ CHR 0x27 # r"
      using less.prems(2) quote_tail_append [OF False, of "[]"] by (simp add: quote_def)
    obtain l1 where 1: "read_single_quoted plenty lx = (Text w, l1)" "rest l1 = r" "errmsg l1 = errmsg lx"
      using read_single_ok [OF False less.prems(1) q] by blast
    obtain b1 where 2: "push_all plenty b w = Some b1" "contents b1 = contents b @ w" using push_all_ok by blast
    have "word_loop plenty env lx b = word_loop plenty env l1 b1"
      using q 1 2 by (subst word_loop.simps) (simp add: Let_def)
    then show ?thesis using word_loop_stops [of l1 plenty env b1] 1 2 less.prems(3) by auto
  next
    case True
    then obtain u v where w: "w = u @ CHR 0x27 # v" "CHR 0x27 \<notin> set u" by (meson split_list_first)
    have q: "rest lx = CHR 0x27 # u @ CHR 0x27 # (CHR 0x5C # CHR 0x27 # quote v @ r)"
      using less.prems(2) quote_tail_append [OF w(2)] w(1) by (simp add: quote_def)
    have z: "CHR 0x00 \<notin> set u" "CHR 0x00 \<notin> set v" using less.prems(1) w(1) by auto
    obtain l1 where 1: "read_single_quoted plenty lx = (Text u, l1)" "rest l1 = CHR 0x5C # CHR 0x27 # quote v @ r" "errmsg l1 = errmsg lx"
      using read_single_ok [OF w(2) z(1) q] by blast
    obtain b1 where 2: "push_all plenty b u = Some b1" "contents b1 = contents b @ u" using push_all_ok by blast
    obtain b2 where 3: "sh_buf_push plenty b1 CHR 0x27 = Some b2" "contents b2 = contents b1 @ [CHR 0x27]" using push_ok by blast
    let ?l2 = "advance (advance l1)"
    have l2: "rest ?l2 = quote v @ r" "errmsg ?l2 = errmsg lx" using 1 by (simp_all add: rest_advance) (simp add: advance_def)
    have r1: "rest (advance l1) = CHR 0x27 # quote v @ r" using 1 by (simp add: rest_advance)
    have "word_loop plenty env lx b = word_loop plenty env l1 b1"
      using q 1 2 by (subst word_loop.simps) (simp add: Let_def)
    also have "\<dots> = word_loop plenty env ?l2 b2"
      using 1(2) r1 3 by (subst word_loop.simps) (simp add: Let_def word_end_def isspace_def)
    finally show ?thesis
      using less.hyps [of v ?l2 b2] l2 z(2) less.prems(3) 2 3 w(1) by auto
  qed
qed

section \<open>Tokens\<close>

fun token_text :: "sh_token \<Rightarrow> string" where
  "token_text (SH_TOKEN_WORD w) = quote w"
| "token_text SH_TOKEN_PIPE = ''|''"
| "token_text SH_TOKEN_REDIR_IN = ''<''"
| "token_text SH_TOKEN_REDIR_OUT = ''>''"
| "token_text SH_TOKEN_REDIR_APPEND = ''>>''"
| "token_text _ = []"

definition token_ok :: "sh_token \<Rightarrow> bool" where
  "token_ok t \<longleftrightarrow> t \<noteq> SH_TOKEN_EOF \<and> t \<noteq> SH_TOKEN_NEWLINE \<and> (\<forall>w. t = SH_TOKEN_WORD w \<longrightarrow> CHR 0x00 \<notin> set w)"

text \<open>Tokens in a line, each after a blank.\<close>

definition line_of :: "sh_token list \<Rightarrow> string" where
  "line_of ts = concat (map (\<lambda>t. CHR '' '' # token_text t) ts)"

lemma skip_one_space:
  assumes "rest lx = CHR '' '' # c # s" "\<not> space c"
  shows "rest (skip_spaces lx) = c # s \<and> errmsg (skip_spaces lx) = errmsg lx"
proof -
  have "skip_spaces lx = advance lx"
    using assms by (subst skip_spaces.simps, subst skip_spaces.simps) (auto simp: rest_advance isspace_def)
  then show ?thesis using assms by (simp add: rest_advance) (simp add: advance_def)
qed

lemma stops_line: "r = [] \<or> hd r = CHR '' '' \<Longrightarrow> stops r"
  by (auto simp: stops_def word_end_def isspace_def)

lemma quote_head: "\<exists>s. quote w = CHR 0x27 # s"
  by (simp add: quote_def)

lemma next_token:
  assumes "token_ok t" "rest lx = CHR '' '' # token_text t @ r" "r = [] \<or> hd r = CHR '' ''"
  shows "\<exists>lx'. sh_lexer_next plenty env lx = (SH_OK, t, lx') \<and> rest lx' = r"
proof -
  let ?l = "skip_spaces lx"
  obtain c s where c: "token_text t @ r = c # s" "\<not> space c"
    using assms(1) by (cases t) (auto simp: token_ok_def isspace_def quote_def)
  have l: "rest ?l = token_text t @ r" using skip_one_space [of lx c s] assms(2) c by simp
  have p: "peek (advance ?l) \<noteq> CHR ''>''" if "t = SH_TOKEN_REDIR_OUT"
    using l that assms(3) by (cases r) (auto simp: peek_def rest_advance at_eof_def)
  show ?thesis
  proof (cases t)
    case (SH_TOKEN_WORD w)
    then have z: "CHR 0x00 \<notin> set w" and q: "rest ?l = quote w @ r" using assms(1) l by (auto simp: token_ok_def)
    obtain b' l' where w: "word_loop plenty env ?l (None, 0) = (Inr b', l')" "contents b' = w" "rest l' = r"
      using word_loop_quote [OF z q stops_line [OF assms(3)], of env "(None, 0)"] by auto
    have "read_word plenty env ?l = (Text w, l')" using w z by (simp add: read_word_def finish_word_ok)
    then show ?thesis
      using q w quote_head [of w] by (subst sh_lexer_next.simps) (auto simp: Let_def SH_TOKEN_WORD)
  next
    case SH_TOKEN_REDIR_APPEND
    then show ?thesis using l by (subst sh_lexer_next.simps) (auto simp: Let_def rest_advance peek_def at_eof_def)
  qed (use assms(1) l p in \<open>(subst sh_lexer_next.simps, auto simp: Let_def rest_advance token_ok_def)+\<close>)
qed

lemma next_eof: "rest lx = [] \<Longrightarrow> sh_lexer_next room env lx = (SH_OK, SH_TOKEN_EOF, lx)"
  by (subst sh_lexer_next.simps) (simp add: skip_spaces.simps at_eof_def Let_def)

section \<open>Empty expansions\<close>

text \<open>
  A variable that is not set, or a dollar sign without a name, at the start of a word: the buffer
  is still the null pointer, which is taken for a failed allocation.
\<close>

lemma name_loop_ok:
  "\<forall>c\<in>set n. alnum c \<or> c = CHR ''_'' \<Longrightarrow> rest lx = n @ r \<Longrightarrow> r = [] \<or> \<not> alnum (hd r) \<and> hd r \<noteq> CHR ''_'' \<Longrightarrow>
   \<exists>lx'. name_loop lx m = (m @ n, lx') \<and> rest lx' = r"
proof (induction n arbitrary: lx m)
  case Nil
  then show ?case by (subst name_loop.simps) (auto simp: at_eof_def peek_def)
next
  case (Cons c n)
  have r: "rest (advance lx) = n @ r" using Cons.prems(2) by (simp add: rest_advance)
  from Cons.IH [OF _ r Cons.prems(3), of "m @ [c]"] Cons.prems show ?case by (subst name_loop.simps) auto
qed

definition var_name :: "string \<Rightarrow> bool" where
  "var_name n \<longleftrightarrow> n \<noteq> [] \<and> length n < 128 \<and> (alpha (hd n) \<or> hd n = CHR ''_'') \<and> (\<forall>c\<in>set n. alnum c \<or> c = CHR ''_'')"

lemma expand_ok:
  assumes "var_name n" "rest lx = CHR ''$'' # n @ r" "r = [] \<or> \<not> alnum (hd r) \<and> hd r \<noteq> CHR ''_''"
  shows "\<exists>lx' b'. expand_variable plenty env lx b = Some (lx', b', True) \<and> rest lx' = r \<and>
    contents b' = contents b @ (case env n of None \<Rightarrow> [] | Some v \<Rightarrow> to_nul v) \<and>
    (fst b' = None \<longleftrightarrow> fst b = None \<and> (case env n of None \<Rightarrow> [] | Some v \<Rightarrow> to_nul v) = [])"
proof -
  obtain c n' where n: "n = c # n'" "alpha c \<or> c = CHR ''_''" using assms(1) by (cases n) (auto simp: var_name_def)
  have r1: "rest (advance lx) = n @ r" using assms(2) by (simp add: rest_advance)
  have pk: "peek (advance lx) = c" using r1 n(1) by simp
  have nb: "c \<noteq> CHR ''{''" using n(2) by (auto simp: isalpha_iff)
  obtain l2 where l2: "name_loop (advance lx) [] = (n, l2)" "rest l2 = r"
    using name_loop_ok [OF _ r1 assms(3), of "[]"] assms(1) by (auto simp: var_name_def)
  have ne: "n \<noteq> []" "\<not> 128 \<le> length n" using assms(1) by (auto simp: var_name_def)
  have e: "expand_variable plenty env lx b = (case env n of None \<Rightarrow> Some (l2, b, True)
     | Some v \<Rightarrow> (case push_all plenty b (to_nul v) of None \<Rightarrow> None | Some b \<Rightarrow> Some (l2, b, True)))"
    using pk nb n(2) l2(1) ne unfolding expand_variable_def Let_def by simp
  show ?thesis
  proof (cases "env n")
    case None
    then show ?thesis using e l2 by simp
  next
    case (Some v)
    then show ?thesis using e l2 push_all_ok [of b "to_nul v"] by auto
  qed
qed

lemma no_skip: "rest lx = c # s \<Longrightarrow> \<not> space c \<Longrightarrow> skip_spaces lx = lx"
  by (subst skip_spaces.simps) simp

text \<open>
  C20. A reference to a variable that is not set or empty fails at the start of a word: the lexer
  reports \<open>out of memory\<close>, and inside double quotes an \<open>unterminated quote\<close>, although memory never runs
  out and the quotes are closed. (A shell expands it to nothing.)
\<close>

theorem empty_expansion_fails:
  assumes n: "var_name n" and e: "env n = None \<or> env n = Some []"
    and r: "r = [] \<or> \<not> alnum (hd r) \<and> hd r \<noteq> CHR ''_''"
  shows "fst (sh_lexer_next plenty env (sh_lexer_init (CHR ''$'' # n @ r))) = SH_ERR_NOMEM \<and>
    fst (sh_lexer_next plenty env (sh_lexer_init (CHR 0x22 # CHR ''$'' # n @ CHR 0x22 # r))) = SH_ERR_LEX"
proof
  have v: "(case env n of None \<Rightarrow> [] | Some v \<Rightarrow> to_nul v) = []" using e by (auto simp: to_nul_def)
  let ?l = "sh_lexer_init (CHR ''$'' # n @ r)"
  have l: "rest ?l = CHR ''$'' # n @ r" by (simp add: sh_lexer_init_def)
  obtain l1 b1 where x: "expand_variable plenty env ?l (None, 0) = Some (l1, b1, True)" "fst b1 = None"
    using expand_ok [OF n l r, of env "(None, 0)"] v by auto
  have "word_loop plenty env ?l (None, 0) = (Inl No_mem, l1)"
    using l x by (subst word_loop.simps) (simp add: Let_def word_end_def isspace_def)
  then have "read_word plenty env ?l = (No_mem, l1)" by (simp add: read_word_def)
  then show "fst (sh_lexer_next plenty env ?l) = SH_ERR_NOMEM"
    using l no_skip [OF l] by (subst sh_lexer_next.simps) (simp add: Let_def isspace_def)
next
  have v: "(case env n of None \<Rightarrow> [] | Some v \<Rightarrow> to_nul v) = []" using e by (auto simp: to_nul_def)
  let ?l = "sh_lexer_init (CHR 0x22 # CHR ''$'' # n @ CHR 0x22 # r)"
  have l: "rest ?l = CHR 0x22 # CHR ''$'' # n @ CHR 0x22 # r" by (simp add: sh_lexer_init_def)
  have l0: "rest (advance ?l) = CHR ''$'' # n @ CHR 0x22 # r" using l by (simp add: rest_advance)
  have q: "\<not> alnum (CHR 0x22)" by (simp add: isalnum_def isalpha_iff isdigit_iff)
  obtain l1 b1 where x: "expand_variable plenty env (advance ?l) (None, 0) = Some (l1, b1, True)" "fst b1 = None"
    using expand_ok [OF n l0, of env "(None, 0)"] v q by auto
  have "double_loop plenty env (advance ?l) (None, 0) = (Inl No_mem, l1)"
    using l0 x by (subst double_loop.simps) simp
  then have "read_double_quoted plenty env ?l = (No_mem, l1)" by (simp add: read_double_quoted_def)
  then have "word_loop plenty env ?l (None, 0) = (Inl Unterminated, l1)"
    using l by (subst word_loop.simps) (simp add: Let_def)
  then have "read_word plenty env ?l = (Unterminated, l1)" by (simp add: read_word_def)
  then show "fst (sh_lexer_next plenty env ?l) = SH_ERR_LEX"
    using l no_skip [OF l] by (subst sh_lexer_next.simps) (simp add: Let_def isspace_def)
qed

theorem empty_expansion_fails_witness:
  "fst (sh_lexer_next plenty (\<lambda>_. None) (sh_lexer_init (CHR ''$'' # ''HOME'' @ ''/x''))) = SH_ERR_NOMEM \<and>
   fst (sh_lexer_next plenty (\<lambda>_. None) (sh_lexer_init (CHR 0x22 # CHR ''$'' # ''HOME'' @ CHR 0x22 # ''/x''))) = SH_ERR_LEX"
  by (rule empty_expansion_fails) (simp_all add: var_name_def isalnum_def isalpha_iff isdigit_iff)

section \<open>Progress\<close>

text \<open>Every reader leaves a suffix of the input, and a word takes at least one character.\<close>

abbreviation behind :: "sh_lexer \<Rightarrow> sh_lexer \<Rightarrow> bool" where
  "behind lx' lx \<equiv> suffix (rest lx') (rest lx)"

lemma behind_advance: "behind (advance lx) lx"
  by (cases "rest lx") (auto simp: rest_advance suffix_def)

lemma behind_advance2: "behind (advance (advance lx)) lx"
  by (rule suffix_order.trans [OF behind_advance behind_advance])

lemma name_loop_behind: "name_loop lx n = (n', lx') \<Longrightarrow> behind lx' lx"
proof (induction lx n rule: name_loop.induct)
  case (1 lx n)
  then show ?case
    using behind_advance [of lx] by (subst (asm) (2) name_loop.simps) (auto split: if_splits intro: suffix_order.trans)
qed

lemma expand_behind:
  assumes "expand_variable room env lx b = Some (lx', b', consumed)"
  shows "behind lx' lx"
proof -
  let ?braced = "peek (advance lx) = CHR ''{''"
  define l1 where "l1 = (if ?braced then advance (advance lx) else advance lx)"
  obtain n l2 where nl: "name_loop l1 [] = (n, l2)" by force
  define l3 where "l3 = (if ?braced then advance l2 else l2)"
  have 1: "behind l1 lx" by (simp add: l1_def behind_advance behind_advance2)
  have "behind l3 l2" by (simp add: l3_def behind_advance)
  then have "behind l3 lx" using suffix_order.trans [OF suffix_order.trans [OF _ name_loop_behind [OF nl]] 1] by blast
  then show ?thesis
    using assms nl unfolding expand_variable_def Let_def l1_def [symmetric]
    by (auto simp: l3_def split: if_splits option.splits)
qed

lemma single_loop_behind: "behind (snd (single_loop room lx b)) lx"
proof (induction room lx b rule: single_loop.induct)
  case (1 room lx b)
  show ?case
    using 1 behind_advance [of lx] by (subst single_loop.simps) (auto split: option.splits intro: suffix_order.trans)
qed

lemma double_loop_behind: "behind (snd (double_loop room env lx b)) lx"
proof (induction lx arbitrary: b rule: measure_induct_rule [of "\<lambda>lx. length (rest lx)"])
  case (less lx)
  have step: "behind (snd (double_loop room env l' b')) lx" if "behind l' lx" "length (rest l') < length (rest lx)" for l' b'
    using less.IH [OF that(2), of b'] that(1) by (rule suffix_order.trans)
  consider "at_eof lx \<or> peek lx = CHR 0x22" | "\<not> at_eof lx" "peek lx = CHR 0x5C" | "\<not> at_eof lx" "peek lx = CHR ''$''"
    | "\<not> at_eof lx" "peek lx \<noteq> CHR 0x22" "peek lx \<noteq> CHR 0x5C" "peek lx \<noteq> CHR ''$''" by blast
  then show ?case
  proof cases
    case 2
    then show ?thesis
      by (subst double_loop.simps)
        (auto simp: Let_def split: option.split intro!: step behind_advance behind_advance2, auto simp: rest_advance at_eof_def)
  next
    case 3
    show ?thesis
    proof (cases "expand_variable room env lx b")
      case (Some r)
      obtain l' b' k where r: "r = (l', b', k)" by (cases r)
      have l: "if k then length (rest l') < length (rest lx) else rest l' = rest lx" "behind l' lx" "behind (advance l') lx"
        using expand_rest [of room env lx b l' b' k] expand_behind [of room env lx b l' b' k] 3 Some r
          suffix_order.trans [OF behind_advance, of l' "rest lx"] by simp_all
      then show ?thesis
        using 3 Some r by (subst double_loop.simps) (auto simp: rest_advance at_eof_def split: option.split if_splits intro!: step)
    qed (use 3 in \<open>subst double_loop.simps, simp\<close>)
  next
    case 4
    then show ?thesis
      by (subst double_loop.simps)
        (auto split: option.split intro!: step behind_advance, auto simp: rest_advance at_eof_def)
  qed (subst double_loop.simps, auto)
qed

lemma read_single_behind: "behind (snd (read_single_quoted room lx)) lx"
  using suffix_order.trans [OF single_loop_behind [of room "advance lx" "(None, 0)"] behind_advance]
    suffix_order.trans [OF behind_advance]
  by (auto simp: read_single_quoted_def Let_def split: prod.splits option.splits)

lemma read_double_behind: "behind (snd (read_double_quoted room env lx)) lx"
  using suffix_order.trans [OF double_loop_behind [of room env "advance lx" "(None, 0)"] behind_advance]
    suffix_order.trans [OF behind_advance]
  by (auto simp: read_double_quoted_def Let_def split: prod.splits sum.splits)

text \<open>One pass of the loop of \<open>read_word\<close>: it stops, or goes on behind.\<close>

lemma word_loop_pass:
  "\<not> at_eof lx \<Longrightarrow> \<not> (word_end (peek lx) \<and> peek lx \<noteq> CHR 0x27 \<and> peek lx \<noteq> CHR 0x22) \<Longrightarrow>
   (\<exists>e lx'. word_loop room env lx b = (Inl e, lx') \<and> behind lx' lx \<and> (\<forall>w. e \<noteq> Text w)) \<or>
   (\<exists>lx' b'. word_loop room env lx b = word_loop room env lx' b' \<and> behind lx' lx \<and> length (rest lx') < length (rest lx))"
proof -
  assume e: "\<not> at_eof lx" and w: "\<not> (word_end (peek lx) \<and> peek lx \<noteq> CHR 0x27 \<and> peek lx \<noteq> CHR 0x22)"
  consider "peek lx = CHR 0x27 \<or> peek lx = CHR 0x22" | "peek lx = CHR ''$''"
    | "\<not> word_end (peek lx)" "peek lx \<noteq> CHR 0x27" "peek lx \<noteq> CHR 0x22" "peek lx \<noteq> CHR ''$''" using w by blast
  then show ?thesis
  proof cases
    case 1
    let ?q = "if peek lx = CHR 0x27 then read_single_quoted room lx else read_double_quoted room env lx"
    obtain r l' where q: "?q = (r, l')" by force
    have l: "behind l' lx" "length (rest l') < length (rest lx)"
      using q read_single_behind [of room lx] read_double_behind [of room env lx]
        read_single_rest [OF e, of room] read_double_rest [OF e, of room env] by (auto split: if_splits)
    have "word_loop room env lx b = (case r of Text inner \<Rightarrow>
        (case push_all room b inner of None \<Rightarrow> (Inl No_mem, l') | Some b \<Rightarrow> word_loop room env l' b) | _ \<Rightarrow> (Inl Unterminated, l'))"
      unfolding word_loop.simps [of room env lx b] Let_def q using e 1 by (simp split: word_result.split)
    then consider e where "word_loop room env lx b = (Inl e, l')" "\<forall>w. e \<noteq> Text w" | b' where "word_loop room env lx b = word_loop room env l' b'"
      by (cases r) (auto split: option.splits)
    then show ?thesis using l by cases blast+
  next
    case 2
    show ?thesis
    proof (cases "expand_variable room env lx b")
      case None
      then show ?thesis using 2 e by (subst word_loop.simps) (simp add: Let_def word_end_def isspace_def)
    next
      case (Some x)
      obtain l' b' k where x: "x = (l', b', k)" by (cases x)
      have l: "if k then length (rest l') < length (rest lx) else rest l' = rest lx" "behind l' lx" "behind (advance l') lx"
        using expand_rest [of room env lx b l' b' k] expand_behind [of room env lx b l' b' k] e Some x
          suffix_order.trans [OF behind_advance, of l' "rest lx"] by simp_all
      have "word_loop room env lx b = (if fst b' = None then (Inl No_mem, l') else if k then word_loop room env l' b'
          else case sh_buf_push room b' CHR ''$'' of None \<Rightarrow> (Inl No_mem, l') | Some b \<Rightarrow> word_loop room env (advance l') b)"
        using 2 e Some x by (subst word_loop.simps) (simp add: Let_def word_end_def isspace_def)
      note eq = this
      have adv: "\<not> k \<Longrightarrow> length (rest (advance l')) < length (rest lx)"
        using l(1) e by (simp add: rest_advance at_eof_def)
      consider "fst b' = None" | "fst b' \<noteq> None" k | "fst b' \<noteq> None" "\<not> k" "sh_buf_push room b' CHR ''$'' = None"
        | x where "fst b' \<noteq> None" "\<not> k" "sh_buf_push room b' CHR ''$'' = Some x" by fastforce
      then consider "word_loop room env lx b = (Inl No_mem, l')"
        | l'' b'' where "word_loop room env lx b = word_loop room env l'' b''" "behind l'' lx" "length (rest l'') < length (rest lx)"
      proof cases
        case 2
        then have "word_loop room env lx b = word_loop room env l' b'" "length (rest l') < length (rest lx)" using eq l(1) by auto
        then show ?thesis using that(2) l(2) by blast
      next
        case (4 x)
        then have "word_loop room env lx b = word_loop room env (advance l') x" using eq by auto
        then show ?thesis using that(2) l(3) adv [OF 4(2)] by blast
      qed (use eq that(1) in simp_all)
      then show ?thesis using l(2) by cases blast+
    qed
  next
    case 3
    define l2 where "l2 = (if peek lx = CHR 0x5C \<and> length (rest lx) > 1 then advance lx else lx)"
    have l: "behind (advance l2) lx" "length (rest (advance l2)) < length (rest lx)" "behind l2 lx"
      unfolding l2_def using e by (auto simp: behind_advance behind_advance2) (auto simp: rest_advance at_eof_def)
    have eq: "word_loop room env lx b = (case sh_buf_push room b (peek l2) of
        None \<Rightarrow> (Inl No_mem, l2) | Some b \<Rightarrow> word_loop room env (advance l2) b)"
      unfolding word_loop.simps [of room env lx b] Let_def l2_def using e 3 by simp
    show ?thesis
    proof (cases "sh_buf_push room b (peek l2)")
      case None
      then have "word_loop room env lx b = (Inl No_mem, l2)" using eq by simp
      then show ?thesis using l(3) by blast
    next
      case (Some b')
      then have "word_loop room env lx b = word_loop room env (advance l2) b'" using eq by simp
      then show ?thesis using l(1,2) by blast
    qed
  qed
qed

lemma word_loop_behind: "behind (snd (word_loop room env lx b)) lx"
proof (induction lx arbitrary: b rule: measure_induct_rule [of "\<lambda>lx. length (rest lx)"])
  case (less lx)
  show ?case
  proof (cases "at_eof lx \<or> word_end (peek lx) \<and> peek lx \<noteq> CHR 0x27 \<and> peek lx \<noteq> CHR 0x22")
    case True
    then show ?thesis by (subst word_loop.simps) (auto simp: Let_def)
  next
    case False
    then consider e lx' where "word_loop room env lx b = (Inl e, lx')" "behind lx' lx"
      | lx' b' where "word_loop room env lx b = word_loop room env lx' b'" "behind lx' lx" "length (rest lx') < length (rest lx)"
      using word_loop_pass [of lx room env b] by blast
    then show ?thesis
    proof cases
      case 2
      from suffix_order.trans [OF less.IH [OF 2(3), of b'] 2(2)] show ?thesis by (simp add: 2(1))
    qed simp
  qed
qed

lemma word_loop_progress:
  assumes "\<not> at_eof lx" "\<not> word_end (peek lx) \<or> peek lx = CHR 0x27 \<or> peek lx = CHR 0x22" "word_loop room env lx b = (Inr b', lx')"
  shows "length (rest lx') < length (rest lx)"
proof -
  obtain l1 b1 where "word_loop room env lx b = word_loop room env l1 b1" "length (rest l1) < length (rest lx)"
    using word_loop_pass [of lx room env b] assms by auto
  moreover have "snd (word_loop room env l1 b1) = lx'" using calculation(1) assms(3) by (metis snd_conv)
  ultimately show ?thesis using suffix_length_le [OF word_loop_behind [of room env l1 b1]] by simp
qed

lemma word_loop_Inl: "word_loop room env lx b = (Inl e, lx') \<Longrightarrow> e \<noteq> Text w"
proof (induction lx arbitrary: b rule: measure_induct_rule [of "\<lambda>lx. length (rest lx)"])
  case (less lx)
  show ?case
  proof (cases "at_eof lx \<or> word_end (peek lx) \<and> peek lx \<noteq> CHR 0x27 \<and> peek lx \<noteq> CHR 0x22")
    case True
    then have "word_loop room env lx b = (Inr b, lx)" by (subst word_loop.simps) (auto simp: Let_def)
    then show ?thesis using less.prems by simp
  next
    case False
    then consider e' lx'' where "word_loop room env lx b = (Inl e', lx'')" "\<forall>w. e' \<noteq> Text w"
      | lx'' b' where "word_loop room env lx b = word_loop room env lx'' b'" "length (rest lx'') < length (rest lx)"
      using word_loop_pass [of lx room env b] by blast
    then show ?thesis using less by cases auto
  qed
qed

lemma skip_spaces_behind: "behind (skip_spaces lx) lx"
proof (induction lx rule: skip_spaces.induct)
  case (1 lx)
  then show ?case using behind_advance [of lx] by (subst skip_spaces.simps) (auto intro: suffix_order.trans)
qed

lemma comment_loop_behind: "behind (comment_loop lx) lx"
proof (induction lx rule: comment_loop.induct)
  case (1 lx)
  then show ?case using behind_advance [of lx] by (subst comment_loop.simps) (auto intro: suffix_order.trans)
qed

lemma skip_spaces_peek: "\<not> at_eof (skip_spaces lx) \<Longrightarrow> \<not> space (peek (skip_spaces lx)) \<or> peek (skip_spaces lx) = CHR 0x0A"
proof (induction lx rule: skip_spaces.induct)
  case (1 lx)
  show ?case
  proof (cases "\<not> at_eof lx \<and> space (peek lx) \<and> peek lx \<noteq> CHR 0x0A")
    case True
    then have "skip_spaces lx = skip_spaces (advance lx)" by (subst skip_spaces.simps) simp
    then show ?thesis using 1 True by simp
  next
    case False
    then have "skip_spaces lx = lx" by (subst skip_spaces.simps) auto
    then show ?thesis using 1 False by auto
  qed
qed

lemma next_behind:
  assumes "sh_lexer_next room env lx = (SH_OK, t, lx')" "CHR 0x00 \<notin> set (rest lx)"
  shows "behind lx' lx \<and> (t \<noteq> SH_TOKEN_EOF \<longrightarrow> length (rest lx') < length (rest lx))"
  using assms
proof (induction lx rule: measure_induct_rule [of "\<lambda>lx. length (rest lx)"])
  case (less lx)
  let ?l = "skip_spaces lx"
  have l: "behind ?l lx" "length (rest ?l) \<le> length (rest lx)" using skip_spaces_behind suffix_length_le by blast+
  have tr: "behind l' lx" if "behind l' ?l" for l' using that l(1) by (rule suffix_order.trans)
  show ?case
  proof (cases "at_eof ?l")
    case True
    then show ?thesis using less.prems l by (subst (asm) sh_lexer_next.simps) (auto simp: Let_def)
  next
    case e: False
    have a: "length (rest (advance ?l)) < length (rest lx)" "length (rest (advance (advance ?l))) < length (rest lx)"
      using e l(2) length_advance [OF e] by (simp_all add: rest_advance)
    have z: "CHR 0x00 \<notin> set (rest ?l)" using less.prems(2) l(1) by (meson set_mono_suffix subsetD)
    have pz: "peek ?l \<noteq> CHR 0x00" using z e by (cases "rest ?l") (auto simp: peek_def at_eof_def)
    show ?thesis
    proof (cases "peek ?l = CHR ''#''")
      case True
      let ?c = "skip_comment ?l"
      have c: "behind ?c ?l" "length (rest ?c) < length (rest lx)"
        using True comment_loop_behind skip_comment_rest [OF True] l(2) by (simp_all add: skip_comment_def)
      have n: "sh_lexer_next room env ?c = (SH_OK, t, lx')"
        using less.prems(1) True e by (subst (asm) sh_lexer_next.simps) (simp add: Let_def)
      have "CHR 0x00 \<notin> set (rest ?c)" using z c(1) by (meson set_mono_suffix subsetD)
      from less.IH [OF c(2) n this] show ?thesis using c tr by (auto intro: suffix_order.trans)
    next
      case nc: False
      show ?thesis
      proof (cases "peek ?l \<in> {CHR 0x0A, CHR ''|'', CHR ''<'', CHR ''>''}")
        case True
        then show ?thesis
          using less.prems(1) e nc a tr behind_advance [of ?l] behind_advance2 [of ?l]
          by (subst (asm) sh_lexer_next.simps) (auto simp: Let_def split: if_splits)
      next
        case False
        then have w: "\<not> word_end (peek ?l)" using skip_spaces_peek [OF e] nc pz by (auto simp: word_end_def)
        obtain b l' where r: "word_loop room env ?l (None, 0) = (Inr b, l')" "lx' = l'"
          using less.prems(1) e nc False
          by (subst (asm) sh_lexer_next.simps)
            (auto simp: Let_def read_word_def dest: word_loop_Inl split: prod.splits sum.splits word_result.splits)
        then show ?thesis
          using word_loop_progress [OF e _ r(1)] w word_loop_behind [of room env ?l "(None, 0)"] tr l(2) by auto
      qed
    qed
  qed
qed

end
