(* ===== verification/Sh_Parser.thy ===== *)
theory Sh_Parser
  imports Sh_Lexer
begin

text \<open>
  The parser of the shell, \<open>cmd/sh/sh_parser.c\<close>, and the error messages of \<open>sh_util.c\<close>. A command is
  its argument vector and its redirections, a pipeline a list of commands. Allocations of the
  parser go through the same \<open>room\<close> as those of the lexer; a pointer has 8 bytes, a command and a
  redirection 24.
\<close>

section \<open>The code\<close>

datatype sh_redir_kind = SH_REDIR_IN | SH_REDIR_OUT | SH_REDIR_APPEND

record sh_simple_cmd =
  cmd_argv :: "string list"
  redir_list :: "(sh_redir_kind \<times> string) list"

type_synonym sh_pipeline = "sh_simple_cmd list"

definition sh_err_default_msg :: "sh_err \<Rightarrow> string" where
  "sh_err_default_msg err =
     (case err of
        SH_OK \<Rightarrow> ''success''
      | SH_ERR_NOMEM \<Rightarrow> ''out of memory''
      | SH_ERR_LEX \<Rightarrow> ''lexical error''
      | SH_ERR_PARSE \<Rightarrow> ''parse error''
      | SH_ERR_IO \<Rightarrow> ''input/output error''
      | SH_ERR_SYS \<Rightarrow> ''system call failed'')"

definition sh_err_to_exit_status :: "sh_err \<Rightarrow> int" where
  "sh_err_to_exit_status err =
     (case err of
        SH_OK \<Rightarrow> 0
      | SH_ERR_LEX \<Rightarrow> 2
      | SH_ERR_PARSE \<Rightarrow> 2
      | _ \<Rightarrow> 1)"

definition sh_pipeline_init :: sh_pipeline where
  "sh_pipeline_init = []"

definition push_cmd :: "(nat \<Rightarrow> bool) \<Rightarrow> sh_pipeline \<Rightarrow> sh_pipeline option" where
  "push_cmd room p =
     (if room ((length p + 1) * 24) then Some (p @ [\<lparr>cmd_argv = [], redir_list = []\<rparr>]) else None)"

definition ensure_cmd :: "(nat \<Rightarrow> bool) \<Rightarrow> sh_pipeline \<Rightarrow> sh_pipeline option" where
  "ensure_cmd room p = (if p = [] then push_cmd room p else Some p)"

definition tail_cmd :: "sh_pipeline \<Rightarrow> sh_simple_cmd option" where
  "tail_cmd p = (if p = [] then None else Some (last p))"

definition cur_has_program :: "sh_pipeline \<Rightarrow> bool" where
  "cur_has_program p \<longleftrightarrow> (case tail_cmd p of None \<Rightarrow> False | Some c \<Rightarrow> length (cmd_argv c) > 0)"

text \<open>The changes of the last command through the pointer that \<open>tail_cmd\<close> returns.\<close>

definition set_tail :: "sh_pipeline \<Rightarrow> sh_simple_cmd \<Rightarrow> sh_pipeline" where
  "set_tail p c = butlast p @ [c]"

definition argv_push :: "(nat \<Rightarrow> bool) \<Rightarrow> sh_simple_cmd \<Rightarrow> string \<Rightarrow> sh_simple_cmd option" where
  "argv_push room c w =
     (if room ((length (cmd_argv c) + 2) * 8) then Some (c\<lparr>cmd_argv := cmd_argv c @ [w]\<rparr>) else None)"

definition redir_append :: "(nat \<Rightarrow> bool) \<Rightarrow> sh_simple_cmd \<Rightarrow> sh_redir_kind \<Rightarrow> string \<Rightarrow> sh_simple_cmd option" where
  "redir_append room c k path =
     (if room 24 then Some (c\<lparr>redir_list := redir_list c @ [(k, path)]\<rparr>) else None)"

record parse_out =
  res_err :: sh_err
  res_msg :: "string option"
  res_pl :: sh_pipeline

text \<open>\<open>parse_fail\<close> releases the pipeline.\<close>

definition parse_fail :: "sh_err \<Rightarrow> string \<Rightarrow> parse_out" where
  "parse_fail err msg = \<lparr>res_err = err, res_msg = Some msg, res_pl = sh_pipeline_init\<rparr>"

definition nomem :: parse_out where
  "nomem = parse_fail SH_ERR_NOMEM (sh_err_default_msg SH_ERR_NOMEM)"

definition lex_msg :: "sh_err \<Rightarrow> sh_lexer \<Rightarrow> string" where
  "lex_msg le lx = (if errmsg lx \<noteq> [] then errmsg lx else sh_err_default_msg le)"

text \<open>What the loop does with a token: stop, go on with the next, or fail.\<close>

datatype step_out = Stop sh_pipeline sh_lexer | Go sh_pipeline sh_lexer | Fail parse_out

fun redir_kind :: "sh_token \<Rightarrow> sh_redir_kind" where
  "redir_kind SH_TOKEN_REDIR_OUT = SH_REDIR_OUT"
| "redir_kind SH_TOKEN_REDIR_APPEND = SH_REDIR_APPEND"
| "redir_kind _ = SH_REDIR_IN"

definition redir_step ::
  "(nat \<Rightarrow> bool) \<Rightarrow> (string \<Rightarrow> string option) \<Rightarrow> sh_token \<Rightarrow> sh_lexer \<Rightarrow> sh_pipeline \<Rightarrow> step_out"
where
  "redir_step room env rk lx p =
     (case ensure_cmd room p of
        None \<Rightarrow> Fail nomem
      | Some p \<Rightarrow>
          (case sh_lexer_next room env lx of
             (le, path, lx) \<Rightarrow>
               if le \<noteq> SH_OK then Fail (parse_fail le (lex_msg le lx))
               else case path of
                   SH_TOKEN_WORD w \<Rightarrow>
                     (case redir_append room (last p) (redir_kind rk) w of
                        None \<Rightarrow> Fail nomem
                      | Some c \<Rightarrow> Go (set_tail p c) lx)
                 | _ \<Rightarrow> Fail (parse_fail SH_ERR_PARSE ''syntax error: redirection needs a filename'')))"

definition parse_step ::
  "(nat \<Rightarrow> bool) \<Rightarrow> (string \<Rightarrow> string option) \<Rightarrow> sh_lexer \<Rightarrow> sh_pipeline \<Rightarrow> step_out"
where
  "parse_step room env lx p =
     (case sh_lexer_next room env lx of
        (le, t, lx) \<Rightarrow>
          if le \<noteq> SH_OK then Fail (parse_fail le (lex_msg le lx))
          else case t of
              SH_TOKEN_NEWLINE \<Rightarrow> Stop p lx
            | SH_TOKEN_EOF \<Rightarrow> Stop p lx
            | SH_TOKEN_PIPE \<Rightarrow>
                if \<not> cur_has_program p
                then Fail (parse_fail SH_ERR_PARSE (''syntax error near unexpected token `|'' @ [CHR 0x27]))
                else (case push_cmd room p of None \<Rightarrow> Fail nomem | Some p \<Rightarrow> Go p lx)
            | SH_TOKEN_WORD w \<Rightarrow>
                (case ensure_cmd room p of
                   None \<Rightarrow> Fail nomem
                 | Some p \<Rightarrow>
                     (case argv_push room (last p) w of
                        None \<Rightarrow> Fail nomem
                      | Some c \<Rightarrow> Go (set_tail p c) lx))
            | _ \<Rightarrow> redir_step room env t lx p)"

text \<open>The loop need not end when the input contains a NUL, so it has fuel.\<close>

fun parse_loop ::
  "nat \<Rightarrow> (nat \<Rightarrow> bool) \<Rightarrow> (string \<Rightarrow> string option) \<Rightarrow> sh_lexer \<Rightarrow> sh_pipeline \<Rightarrow>
   (parse_out + sh_pipeline \<times> sh_lexer) option"
where
  "parse_loop 0 room env lx p = None"
| "parse_loop (Suc fuel) room env lx p =
     (case parse_step room env lx p of
        Stop p lx \<Rightarrow> Some (Inr (p, lx))
      | Go p lx \<Rightarrow> parse_loop fuel room env lx p
      | Fail e \<Rightarrow> Some (Inl e))"

definition sh_parse_line ::
  "nat \<Rightarrow> (nat \<Rightarrow> bool) \<Rightarrow> (string \<Rightarrow> string option) \<Rightarrow> sh_lexer \<Rightarrow> parse_out option"
where
  "sh_parse_line fuel room env lx =
     (case parse_loop fuel room env lx sh_pipeline_init of
        None \<Rightarrow> None
      | Some (Inl e) \<Rightarrow> Some e
      | Some (Inr (p, lx)) \<Rightarrow>
          Some (if p = [] then \<lparr>res_err = SH_OK, res_msg = None, res_pl = p\<rparr>
                else if cmd_argv (last p) = []
                then parse_fail SH_ERR_PARSE ''syntax error: missing command''
                else \<lparr>res_err = SH_OK, res_msg = None, res_pl = p\<rparr>))"

section \<open>Well-formed pipelines\<close>

text \<open>While the loop runs every command but the last has a program.\<close>

definition loop_ok :: "sh_pipeline \<Rightarrow> bool" where
  "loop_ok p \<longleftrightarrow> (\<forall>c\<in>set (butlast p). cmd_argv c \<noteq> [])"

lemma loop_ok_set_tail [simp]: "loop_ok (set_tail p c) \<longleftrightarrow> loop_ok p"
  by (simp add: loop_ok_def set_tail_def)

lemma loop_ok_ensure: "ensure_cmd room p = Some p' \<Longrightarrow> loop_ok p \<Longrightarrow> loop_ok p'"
  by (auto simp: ensure_cmd_def push_cmd_def loop_ok_def split: if_splits)

lemma loop_ok_push:
  assumes "push_cmd room p = Some p'" "loop_ok p" "cur_has_program p"
  shows "loop_ok p'"
proof -
  have "p = butlast p @ [last p]" "cmd_argv (last p) \<noteq> []"
    using assms(3) by (auto simp: cur_has_program_def tail_cmd_def split: if_splits)
  then have "\<forall>c\<in>set p. cmd_argv c \<noteq> []" using assms(2) by (metis loop_ok_def in_set_conv_decomp set_append Un_iff empty_iff empty_set list.set(1) set_ConsD)
  then show ?thesis using assms(1) by (auto simp: push_cmd_def loop_ok_def split: if_splits)
qed

lemma parse_step_ok:
  assumes "loop_ok p"
  shows "case parse_step room env lx p of Stop p' lx' \<Rightarrow> loop_ok p' | Go p' lx' \<Rightarrow> loop_ok p'
    | Fail e \<Rightarrow> res_err e \<noteq> SH_OK \<and> res_pl e = []"
  using assms
  by (auto simp: parse_step_def redir_step_def parse_fail_def nomem_def sh_pipeline_init_def
      split: prod.split sh_token.split option.split dest: loop_ok_ensure loop_ok_push)

lemma parse_loop_ok:
  "parse_loop fuel room env lx p = Some r \<Longrightarrow> loop_ok p \<Longrightarrow>
   case r of Inl e \<Rightarrow> res_err e \<noteq> SH_OK \<and> res_pl e = [] | Inr (p', lx') \<Rightarrow> loop_ok p'"
proof (induction fuel arbitrary: lx p)
  case (Suc fuel)
  show ?case using Suc parse_step_ok [OF Suc.prems(2), of room env lx] by (auto split: step_out.splits)
qed simp

text \<open>Every pass but the last takes a part of the input.\<close>

lemma parse_step_progress:
  assumes "parse_step room env lx p = Go p' lx'" "CHR 0x00 \<notin> set (rest lx)"
  shows "length (rest lx') < length (rest lx) \<and> CHR 0x00 \<notin> set (rest lx')"
proof -
  have next1: "behind l' l \<and> length (rest l') < length (rest l) \<and> CHR 0x00 \<notin> set (rest l')"
    if "sh_lexer_next room env l = (SH_OK, t, l')" "t \<noteq> SH_TOKEN_EOF" "CHR 0x00 \<notin> set (rest l)" for l l' t
    using next_behind [OF that(1,3)] that(2,3) set_mono_suffix by blast
  obtain le t l1 where n: "sh_lexer_next room env lx = (le, t, l1)" using prod_cases3 by blast
  have ok: "le = SH_OK" "t \<noteq> SH_TOKEN_EOF" using assms(1) n by (auto simp: parse_step_def split: if_splits)
  note 1 = next1 [OF n [unfolded ok(1)] ok(2) assms(2)]
  show ?thesis
  proof (cases "t \<in> {SH_TOKEN_REDIR_IN, SH_TOKEN_REDIR_OUT, SH_TOKEN_REDIR_APPEND}")
    case True
    then have r: "redir_step room env t l1 p = Go p' lx'" using assms(1) n ok by (auto simp: parse_step_def)
    obtain le2 t2 l2 where n2: "sh_lexer_next room env l1 = (le2, t2, l2)" using prod_cases3 by blast
    have ok2: "le2 = SH_OK" "t2 \<noteq> SH_TOKEN_EOF" "lx' = l2"
      using r n2 by (auto simp: redir_step_def split: option.splits if_splits sh_token.splits)
    then show ?thesis using next1 [OF n2 [unfolded ok2(1)] ok2(2)] 1 by auto
  next
    case False
    then have "lx' = l1" using assms(1) n ok by (auto simp: parse_step_def split: sh_token.splits option.splits if_splits)
    then show ?thesis using 1 by simp
  qed
qed

lemma parse_loop_ends:
  "CHR 0x00 \<notin> set (rest lx) \<Longrightarrow> length (rest lx) < fuel \<Longrightarrow> \<exists>r. parse_loop fuel room env lx p = Some r"
proof (induction fuel arbitrary: lx p)
  case (Suc fuel)
  show ?case
  proof (cases "parse_step room env lx p")
    case (Go p' lx')
    then show ?thesis using Suc.IH [of lx' p'] parse_step_progress [OF Go Suc.prems(1)] Suc.prems(2) by auto
  qed auto
qed simp

text \<open>
  C14. On every line without NUL characters, whatever the environment and the memory available,
  \<open>sh_parse_line\<close> returns. When it succeeds, every command of the pipeline has a program name, which
  is what executing the pipeline relies on (\<open>argv[0]\<close> is passed to \<open>execvp\<close>); when it fails, the
  pipeline has been released.
\<close>

theorem parse_line_wellformed:
  assumes "CHR 0x00 \<notin> set (rest lx)" "length (rest lx) < fuel"
  shows "\<exists>r. sh_parse_line fuel room env lx = Some r \<and>
    (if res_err r = SH_OK then \<forall>c\<in>set (res_pl r). cmd_argv c \<noteq> [] else res_pl r = [])"
proof -
  obtain x where x: "parse_loop fuel room env lx [] = Some x" using parse_loop_ends [OF assms] by blast
  have "loop_ok []" by (simp add: loop_ok_def)
  note ok = parse_loop_ok [OF x this]
  have all: "\<forall>c\<in>set p. cmd_argv c \<noteq> []" if "loop_ok p" "p \<noteq> []" "cmd_argv (last p) \<noteq> []" for p
    using that by (cases p rule: rev_cases) (auto simp: loop_ok_def)
  show ?thesis
  proof (cases x)
    case (Inl e)
    then show ?thesis using x ok by (simp add: sh_parse_line_def sh_pipeline_init_def)
  next
    case (Inr y)
    then obtain p lx' where y: "x = Inr (p, lx')" by (cases y) simp
    then have p: "loop_ok p" using ok by simp
    show ?thesis
      using x y all [OF p] by (cases "p = []"; cases "cmd_argv (last p) = []")
        (auto simp: sh_parse_line_def sh_pipeline_init_def parse_fail_def)
  qed
qed

theorem parse_line_wellformed_witness:
  "\<exists>r. sh_parse_line 20 plenty (\<lambda>_. None) (sh_lexer_init ''ls | wc > out'') = Some r \<and>
    (if res_err r = SH_OK then \<forall>c\<in>set (res_pl r). cmd_argv c \<noteq> [] else res_pl r = [])"
  by (rule parse_line_wellformed) (simp_all add: sh_lexer_init_def)

section \<open>Printing and parsing\<close>

fun redir_token :: "sh_redir_kind \<Rightarrow> sh_token" where
  "redir_token SH_REDIR_IN = SH_TOKEN_REDIR_IN"
| "redir_token SH_REDIR_OUT = SH_TOKEN_REDIR_OUT"
| "redir_token SH_REDIR_APPEND = SH_TOKEN_REDIR_APPEND"

definition cmd_tokens :: "sh_simple_cmd \<Rightarrow> sh_token list" where
  "cmd_tokens c = map SH_TOKEN_WORD (cmd_argv c) @
     concat (map (\<lambda>(k, path). [redir_token k, SH_TOKEN_WORD path]) (redir_list c))"

fun pipeline_tokens :: "sh_pipeline \<Rightarrow> sh_token list" where
  "pipeline_tokens [] = []"
| "pipeline_tokens [c] = cmd_tokens c"
| "pipeline_tokens (c # cs) = cmd_tokens c @ SH_TOKEN_PIPE # pipeline_tokens cs"

definition cmd_ok :: "sh_simple_cmd \<Rightarrow> bool" where
  "cmd_ok c \<longleftrightarrow> cmd_argv c \<noteq> [] \<and> (\<forall>w\<in>set (cmd_argv c) \<union> snd ` set (redir_list c). CHR 0x00 \<notin> set w)"

lemma line_of_Cons: "line_of (t # ts) = CHR '' '' # token_text t @ line_of ts"
  by (simp add: line_of_def)

lemma line_of_head: "line_of ts = [] \<or> hd (line_of ts) = CHR '' ''"
  by (cases ts) (simp_all add: line_of_def)

lemma next_in_line:
  "token_ok t \<Longrightarrow> rest lx = line_of (t # ts) \<Longrightarrow> \<exists>lx'. sh_lexer_next plenty env lx = (SH_OK, t, lx') \<and> rest lx' = line_of ts"
  by (rule next_token) (simp_all add: line_of_Cons line_of_head)

lemma word_step:
  assumes "CHR 0x00 \<notin> set w" "rest lx = line_of (SH_TOKEN_WORD w # ts)"
  shows "\<exists>lx'. parse_step plenty env lx (q @ [c]) = Go (q @ [c\<lparr>cmd_argv := cmd_argv c @ [w]\<rparr>]) lx' \<and> rest lx' = line_of ts"
    "parse_step plenty env lx [] = parse_step plenty env lx [\<lparr>cmd_argv = [], redir_list = []\<rparr>]"
  using next_in_line [OF _ assms(2), of env] assms(1)
  by (auto simp: token_ok_def parse_step_def ensure_cmd_def argv_push_def set_tail_def push_cmd_def)

lemma redir_word_step:
  assumes "CHR 0x00 \<notin> set w" "rest lx = line_of (redir_token k # SH_TOKEN_WORD w # ts)"
  shows "\<exists>lx'. parse_step plenty env lx (q @ [c]) = Go (q @ [c\<lparr>redir_list := redir_list c @ [(k, w)]\<rparr>]) lx' \<and> rest lx' = line_of ts"
proof -
  have "token_ok (redir_token k)" by (cases k) (simp_all add: token_ok_def)
  from next_in_line [OF this assms(2), of env] obtain l1 where
    1: "sh_lexer_next plenty env lx = (SH_OK, redir_token k, l1)" "rest l1 = line_of (SH_TOKEN_WORD w # ts)" by blast
  from next_in_line [OF _ 1(2), of env] obtain l2 where
    2: "sh_lexer_next plenty env l1 = (SH_OK, SH_TOKEN_WORD w, l2)" "rest l2 = line_of ts" using assms(1) by (auto simp: token_ok_def)
  show ?thesis using 1 2 by (cases k) (simp_all add: parse_step_def redir_step_def ensure_cmd_def redir_append_def set_tail_def)
qed

lemma pipe_step:
  assumes "rest lx = line_of (SH_TOKEN_PIPE # ts)" "cmd_argv c \<noteq> []"
  shows "\<exists>lx'. parse_step plenty env lx (q @ [c]) = Go (q @ [c] @ [\<lparr>cmd_argv = [], redir_list = []\<rparr>]) lx' \<and> rest lx' = line_of ts"
  using next_in_line [OF _ assms(1), of env] assms(2)
  by (auto simp: token_ok_def parse_step_def cur_has_program_def tail_cmd_def push_cmd_def)

lemma words_run:
  "\<forall>w\<in>set ws. CHR 0x00 \<notin> set w \<Longrightarrow> rest lx = line_of (map SH_TOKEN_WORD ws @ ts) \<Longrightarrow>
   \<exists>lx'. parse_loop (length ws + f) plenty env lx (q @ [c]) = parse_loop f plenty env lx' (q @ [c\<lparr>cmd_argv := cmd_argv c @ ws\<rparr>]) \<and>
     rest lx' = line_of ts"
proof (induction ws arbitrary: lx c)
  case (Cons w ws)
  obtain l1 where 1: "parse_step plenty env lx (q @ [c]) = Go (q @ [c\<lparr>cmd_argv := cmd_argv c @ [w]\<rparr>]) l1"
    "rest l1 = line_of (map SH_TOKEN_WORD ws @ ts)" using word_step(1) [of w lx "map SH_TOKEN_WORD ws @ ts" env q c] Cons.prems by auto
  from Cons.IH [OF _ 1(2), of "c\<lparr>cmd_argv := cmd_argv c @ [w]\<rparr>"] Cons.prems(1) 1(1) show ?case by auto
qed auto

lemma redirs_run:
  "\<forall>w\<in>snd ` set rs. CHR 0x00 \<notin> set w \<Longrightarrow>
   rest lx = line_of (concat (map (\<lambda>(k, path). [redir_token k, SH_TOKEN_WORD path]) rs) @ ts) \<Longrightarrow>
   \<exists>lx'. parse_loop (length rs + f) plenty env lx (q @ [c]) = parse_loop f plenty env lx' (q @ [c\<lparr>redir_list := redir_list c @ rs\<rparr>]) \<and>
     rest lx' = line_of ts"
proof (induction rs arbitrary: lx c)
  case (Cons r rs)
  obtain k w where r: "r = (k, w)" by (cases r)
  let ?ts = "concat (map (\<lambda>(k, path). [redir_token k, SH_TOKEN_WORD path]) rs) @ ts"
  obtain l1 where 1: "parse_step plenty env lx (q @ [c]) = Go (q @ [c\<lparr>redir_list := redir_list c @ [r]\<rparr>]) l1"
    "rest l1 = line_of ?ts" using redir_word_step [of w lx k ?ts env q c] Cons.prems r by auto
  from Cons.IH [OF _ 1(2), of "c\<lparr>redir_list := redir_list c @ [r]\<rparr>"] Cons.prems(1) 1(1) show ?case by auto
qed auto

definition cmd_steps :: "sh_simple_cmd \<Rightarrow> nat" where
  "cmd_steps c = length (cmd_argv c) + length (redir_list c)"

lemma cmd_run:
  assumes "cmd_ok c" "rest lx = line_of (cmd_tokens c @ ts)"
  shows "\<exists>lx'. parse_loop (cmd_steps c + f) plenty env lx (q @ [\<lparr>cmd_argv = [], redir_list = []\<rparr>]) =
      parse_loop f plenty env lx' (q @ [c]) \<and> rest lx' = line_of ts"
proof -
  let ?rt = "concat (map (\<lambda>(k, path). [redir_token k, SH_TOKEN_WORD path]) (redir_list c))"
  have "rest lx = line_of (map SH_TOKEN_WORD (cmd_argv c) @ ?rt @ ts)" using assms(2) by (simp add: cmd_tokens_def)
  from words_run [OF _ this, of "length (redir_list c) + f" env q "\<lparr>cmd_argv = [], redir_list = []\<rparr>"] assms(1)
  obtain l1 where 1: "parse_loop (cmd_steps c + f) plenty env lx (q @ [\<lparr>cmd_argv = [], redir_list = []\<rparr>]) =
      parse_loop (length (redir_list c) + f) plenty env l1 (q @ [\<lparr>cmd_argv = cmd_argv c, redir_list = []\<rparr>])"
    "rest l1 = line_of (?rt @ ts)" by (auto simp: cmd_ok_def cmd_steps_def add.assoc)
  from redirs_run [OF _ 1(2), of f env q "\<lparr>cmd_argv = cmd_argv c, redir_list = []\<rparr>"] assms(1) 1(1)
  show ?thesis by (cases c) (auto simp: cmd_ok_def)
qed

fun pl_steps :: "sh_pipeline \<Rightarrow> nat" where
  "pl_steps [] = 0"
| "pl_steps [c] = cmd_steps c"
| "pl_steps (c # cs) = cmd_steps c + Suc (pl_steps cs)"

lemma pipeline_run:
  "cs \<noteq> [] \<Longrightarrow> \<forall>c\<in>set cs. cmd_ok c \<Longrightarrow> rest lx = line_of (pipeline_tokens cs) \<Longrightarrow>
   \<exists>lx'. parse_loop (pl_steps cs + f) plenty env lx (q @ [\<lparr>cmd_argv = [], redir_list = []\<rparr>]) =
      parse_loop f plenty env lx' (q @ cs) \<and> rest lx' = []"
proof (induction cs arbitrary: lx q rule: pipeline_tokens.induct)
  case (2 c)
  then show ?case using cmd_run [of c lx "[]" f env q] by (auto simp: line_of_def)
next
  case (3 c d cs)
  let ?ts = "pipeline_tokens (d # cs)"
  obtain l1 where 1: "parse_loop (cmd_steps c + (Suc (pl_steps (d # cs)) + f)) plenty env lx (q @ [\<lparr>cmd_argv = [], redir_list = []\<rparr>]) =
      parse_loop (Suc (pl_steps (d # cs)) + f) plenty env l1 (q @ [c])" "rest l1 = line_of (SH_TOKEN_PIPE # ?ts)"
    using cmd_run [of c lx "SH_TOKEN_PIPE # ?ts" "Suc (pl_steps (d # cs)) + f" env q] 3(3,4) by auto
  obtain l2 where 2: "parse_step plenty env l1 (q @ [c]) = Go ((q @ [c]) @ [\<lparr>cmd_argv = [], redir_list = []\<rparr>]) l2" "rest l2 = line_of ?ts"
    using pipe_step [OF 1(2), of c env q] 3(3) by (auto simp: cmd_ok_def)
  from 3(1) [OF _ _ 2(2), of "q @ [c]"] 3(3) 1(1) 2(1) show ?case by (auto simp: add.assoc)
qed simp

lemma first_step:
  assumes "cmd_ok c"
  shows "\<exists>w ts. cmd_tokens c = SH_TOKEN_WORD w # ts \<and> CHR 0x00 \<notin> set w"
  using assms by (cases "cmd_argv c") (auto simp: cmd_tokens_def cmd_ok_def)

lemma pipeline_first:
  "p \<noteq> [] \<Longrightarrow> cmd_ok (hd p) \<Longrightarrow> \<exists>w ts. pipeline_tokens p = SH_TOKEN_WORD w # ts \<and> CHR 0x00 \<notin> set w"
  using first_step [of "hd p"] by (cases p rule: pipeline_tokens.cases) auto

lemma parse_loop_first:
  assumes "p \<noteq> []" "cmd_ok (hd p)" "rest lx = line_of (pipeline_tokens p)" "0 < n"
  shows "parse_loop n plenty env lx [] = parse_loop n plenty env lx ([] @ [\<lparr>cmd_argv = [], redir_list = []\<rparr>])"
proof -
  obtain w ts where "pipeline_tokens p = SH_TOKEN_WORD w # ts" "CHR 0x00 \<notin> set w" using pipeline_first [OF assms(1,2)] by blast
  then have "parse_step plenty env lx [] = parse_step plenty env lx [\<lparr>cmd_argv = [], redir_list = []\<rparr>]"
    using word_step(2) [of w lx ts env] assms(3) by simp
  then show ?thesis using assms(4) by (cases n) simp_all
qed

text \<open>
  C15. Parsing is a left inverse of printing. A pipeline whose commands have a program name, and
  whose words hold any characters but NUL (blanks, quotes, dollar signs, redirection signs and
  bars included, and even the empty word), is printed with every word in quotes; reading that line
  gives the same pipeline back: the same commands in the same order, the same arguments, the same
  redirections. The number of passes of the parser that suffices is the number of words,
  redirections and bars and one more for the end of the line.
\<close>

theorem parse_print_roundtrip:
  assumes "p \<noteq> []" "\<forall>c\<in>set p. cmd_ok c" "pl_steps p < fuel"
  shows "sh_parse_line fuel plenty env (sh_lexer_init (line_of (pipeline_tokens p))) =
    Some \<lparr>res_err = SH_OK, res_msg = None, res_pl = p\<rparr>"
proof -
  obtain f where f: "fuel = pl_steps p + Suc f" using assms(3) less_iff_Suc_add by auto
  let ?lx = "sh_lexer_init (line_of (pipeline_tokens p))"
  have r: "rest ?lx = line_of (pipeline_tokens p)" by (simp add: sh_lexer_init_def)
  obtain lx' where 1: "parse_loop fuel plenty env ?lx ([] @ [\<lparr>cmd_argv = [], redir_list = []\<rparr>]) = parse_loop (Suc f) plenty env lx' ([] @ p)"
    "rest lx' = []" using pipeline_run [OF assms(1,2) r, of "Suc f" env "[]"] f by auto
  have "parse_loop fuel plenty env ?lx [] = Some (Inr (p, lx'))"
    using parse_loop_first [OF assms(1) _ r, of fuel env] assms 1 by (simp add: parse_step_def next_eof)
  then show ?thesis using assms(1,2) by (auto simp: sh_parse_line_def sh_pipeline_init_def cmd_ok_def)
qed

theorem parse_print_roundtrip_witness:
  "let p = [\<lparr>cmd_argv = [''echo'', ''a | $b'', []], redir_list = []\<rparr>,
            \<lparr>cmd_argv = [''wc''], redir_list = [(SH_REDIR_APPEND, ''n m'')]\<rparr>]
   in sh_parse_line 10 plenty (\<lambda>_. None) (sh_lexer_init (line_of (pipeline_tokens p))) =
      Some \<lparr>res_err = SH_OK, res_msg = None, res_pl = p\<rparr>"
  unfolding Let_def by (rule parse_print_roundtrip) (simp_all add: cmd_ok_def cmd_steps_def)

end
