(* ===== verification/Sh_Exec.thy ===== *)
theory Sh_Exec
  imports Sh_Parser "HOL-Library.Word"
begin

text \<open>
  Running a pipeline, \<open>cmd/sh/sh_exec.c\<close>. A process is its table of descriptors: what each
  descriptor refers to. The kernel is a parameter: which calls of \<open>pipe\<close>, \<open>fork\<close>, \<open>open\<close>,
  \<open>execvp\<close> and \<open>waitpid\<close> succeed, which free descriptors it gives out and which status a child
  ends with. \<open>dup2\<close> and \<open>close\<close> change the table. The messages on standard error are left out.
\<close>

unbundle bit_operations_syntax

section \<open>The code\<close>

text \<open>
  What a descriptor refers to: an end of the pipe that the n-th call of \<open>pipe\<close> made, a file
  opened by a redirection, or something the shell was started with.
\<close>

datatype fd_file = Pipe_Read nat | Pipe_Write nat | Path sh_redir_kind string | Given nat

type_synonym fdtab = "nat \<Rightarrow> fd_file option"

record kernel =
  pipe_ok :: "nat \<Rightarrow> bool"
  pipe_fds :: "fdtab \<Rightarrow> nat \<times> nat"
  fork_ok :: "nat \<Rightarrow> bool"
  open_ok :: "nat \<Rightarrow> nat \<Rightarrow> bool"
  free_fd :: "fdtab \<Rightarrow> nat"
  exec_ok :: "nat \<Rightarrow> bool"
  wait_st :: "nat \<Rightarrow> 32 word option"

definition dup2 :: "fdtab \<Rightarrow> nat \<Rightarrow> nat \<Rightarrow> fdtab option" where
  "dup2 t oldfd newfd = (case t oldfd of None \<Rightarrow> None | Some f \<Rightarrow> Some (t(newfd \<mapsto> f)))"

definition close :: "fdtab \<Rightarrow> nat \<Rightarrow> fdtab" where
  "close t fd = t(fd := None)"

definition redir_target :: "sh_redir_kind \<Rightarrow> nat" where
  "redir_target k = (if k = SH_REDIR_IN then 0 else 1)"

text \<open>The redirections of the \<open>i\<close>-th child from the \<open>j\<close>-th on.\<close>

fun apply_redirs_child ::
  "kernel \<Rightarrow> nat \<Rightarrow> nat \<Rightarrow> fdtab \<Rightarrow> (sh_redir_kind \<times> string) list \<Rightarrow> fdtab option"
where
  "apply_redirs_child K i j t [] = Some t"
| "apply_redirs_child K i j t ((k, path) # rs) =
     (if \<not> open_ok K i j then None
      else let fd = free_fd K t
           in case dup2 (t(fd \<mapsto> Path k path)) fd (redir_target k) of
                None \<Rightarrow> None
              | Some t \<Rightarrow> apply_redirs_child K i (Suc j) (close t fd) rs)"

text \<open>A child either runs a program with its arguments and descriptors or exits with status 127.\<close>

datatype child_end = Exec "string list" fdtab | Exit_127

definition run_child :: "kernel \<Rightarrow> nat \<Rightarrow> fdtab \<Rightarrow> sh_simple_cmd \<Rightarrow> child_end" where
  "run_child K i t c =
     (case apply_redirs_child K i 0 t (redir_list c) of
        None \<Rightarrow> Exit_127
      | Some t \<Rightarrow> if exec_ok K i then Exec (cmd_argv c) t else Exit_127)"

fun make_pipes ::
  "kernel \<Rightarrow> nat \<Rightarrow> nat \<Rightarrow> fdtab \<Rightarrow> (nat \<times> nat) list \<Rightarrow> (nat \<times> nat) list option \<times> fdtab"
where
  "make_pipes K 0 i t pipes = (Some pipes, t)"
| "make_pipes K (Suc n) i t pipes =
     (if \<not> pipe_ok K i then (None, t)
      else case pipe_fds K t of
        (r, w) \<Rightarrow> make_pipes K n (Suc i) (t(r \<mapsto> Pipe_Read i, w \<mapsto> Pipe_Write i)) (pipes @ [(r, w)]))"

fun close_pipes :: "fdtab \<Rightarrow> (nat \<times> nat) list \<Rightarrow> fdtab" where
  "close_pipes t [] = t"
| "close_pipes t ((r, w) # ps) = close_pipes (close (close t r) w) ps"

text \<open>The child that runs the \<open>i\<close>-th command of \<open>n\<close>.\<close>

definition start_child ::
  "kernel \<Rightarrow> fdtab \<Rightarrow> (nat \<times> nat) list \<Rightarrow> nat \<Rightarrow> nat \<Rightarrow> sh_simple_cmd \<Rightarrow> child_end"
where
  "start_child K t pipes n i c =
     (if pipes = [] then run_child K i t c
      else case (if i > 0 then dup2 t (fst (pipes ! (i - 1))) 0 else Some t) of
          None \<Rightarrow> Exit_127
        | Some t \<Rightarrow>
            (case (if i < n - 1 then dup2 t (snd (pipes ! i)) 1 else Some t) of
               None \<Rightarrow> Exit_127
             | Some t \<Rightarrow> run_child K i (close_pipes t pipes) c))"

text \<open>The children that were started, and whether every \<open>fork\<close> succeeded.\<close>

fun fork_loop ::
  "kernel \<Rightarrow> fdtab \<Rightarrow> (nat \<times> nat) list \<Rightarrow> nat \<Rightarrow> nat \<Rightarrow> sh_pipeline \<Rightarrow> child_end list \<times> bool"
where
  "fork_loop K t pipes n i [] = ([], True)"
| "fork_loop K t pipes n i (c # cs) =
     (if \<not> fork_ok K i then ([], False)
      else case fork_loop K t pipes n (Suc i) cs of
        (kids, ok) \<Rightarrow> (start_child K t pipes n i c # kids, ok))"

text \<open>The status of the last child, or nothing when a \<open>waitpid\<close> fails.\<close>

fun wait_loop :: "kernel \<Rightarrow> nat \<Rightarrow> nat list \<Rightarrow> 32 word \<Rightarrow> 32 word option" where
  "wait_loop K n [] last_status = Some last_status"
| "wait_loop K n (i # is) last_status =
     (case wait_st K i of
        None \<Rightarrow> None
      | Some st \<Rightarrow> wait_loop K n is (if i = n - 1 then st else last_status))"

definition WEXITSTATUS :: "32 word \<Rightarrow> 32 word" where
  "WEXITSTATUS s = drop_bit 8 (s AND 0xff00)"

definition WTERMSIG :: "32 word \<Rightarrow> 32 word" where
  "WTERMSIG s = s AND 0x7f"

definition WIFEXITED :: "32 word \<Rightarrow> bool" where
  "WIFEXITED s \<longleftrightarrow> WTERMSIG s = 0"

definition WIFSIGNALED :: "32 word \<Rightarrow> bool" where
  "WIFSIGNALED s \<longleftrightarrow> (s AND 0xffff) - 1 < 0xff"

definition exit_code :: "32 word \<Rightarrow> int" where
  "exit_code st =
     (if WIFEXITED st then sint (WEXITSTATUS st)
      else if WIFSIGNALED st then 128 + sint (WTERMSIG st)
      else 1)"

text \<open>
  The result: the error, the exit status stored, the children that were started, the children
  waited for with the table of the shell at the time of the call, and the table of the shell at
  the end.
\<close>

record exec_out =
  ex_err :: sh_err
  ex_status :: int
  ex_kids :: "child_end list"
  ex_waits :: "(nat \<times> fdtab) list"
  ex_fds :: fdtab

definition sh_pipeline_exec :: "(nat \<Rightarrow> bool) \<Rightarrow> kernel \<Rightarrow> fdtab \<Rightarrow> sh_pipeline \<Rightarrow> exec_out" where
  "sh_pipeline_exec room K t0 p =
     (let n = length p;
          fail = (\<lambda>e t. \<lparr>ex_err = e, ex_status = 0, ex_kids = [], ex_waits = [], ex_fds = t\<rparr>)
      in if n = 0 then fail SH_OK t0
         else if n > 1 \<and> \<not> room ((n - 1) * 8) then fail SH_ERR_NOMEM t0
         else case make_pipes K (n - 1) 0 t0 [] of
             (None, t) \<Rightarrow> fail SH_ERR_SYS t
           | (Some pipes, t) \<Rightarrow>
               if \<not> room (n * 4) then fail SH_ERR_NOMEM (close_pipes t pipes)
               else case fork_loop K t pipes n 0 p of
                   (kids, False) \<Rightarrow>
                     \<lparr>ex_err = SH_ERR_SYS, ex_status = 0, ex_kids = kids,
                      ex_waits = map (\<lambda>j. (j, t)) [0..<length kids],
                      ex_fds = close_pipes t pipes\<rparr>
                 | (kids, True) \<Rightarrow>
                     let t = close_pipes t pipes
                     in \<lparr>ex_err = (if wait_loop K n [0..<n] 0 = None then SH_ERR_SYS else SH_OK),
                         ex_status = (case wait_loop K n [0..<n] 0 of None \<Rightarrow> 1 | Some st \<Rightarrow> exit_code st),
                         ex_kids = kids,
                         ex_waits = map (\<lambda>j. (j, t)) [0..<n],
                         ex_fds = t\<rparr>)"

section \<open>Descriptors\<close>

text \<open>
  What the code relies on: \<open>pipe\<close> and \<open>open\<close> return descriptors that were not in use, in
  a process that has finitely many descriptors open.
\<close>

definition fresh_fds :: "kernel \<Rightarrow> bool" where
  "fresh_fds K \<longleftrightarrow>
     (\<forall>t. finite (dom t) \<longrightarrow> t (free_fd K t) = None) \<and>
     (\<forall>t. finite (dom t) \<longrightarrow> fst (pipe_fds K t) \<noteq> snd (pipe_fds K t) \<and> t (fst (pipe_fds K t)) = None \<and> t (snd (pipe_fds K t)) = None)"

definition ends :: "(nat \<times> nat) list \<Rightarrow> nat set" where
  "ends pipes = fst ` set pipes \<union> snd ` set pipes"

lemma ends_simps [simp]: "ends [] = {}" "ends ((r, w) # ps) = insert r (insert w (ends ps))" "ends (ps @ qs) = ends ps \<union> ends qs"
  by (auto simp: ends_def)

lemma ends_nth: "j < length ps \<Longrightarrow> fst (ps ! j) \<in> ends ps \<and> snd (ps ! j) \<in> ends ps"
  by (auto simp: ends_def)

lemma close_apply: "close t a b = (if b = a then None else t b)"
  by (simp add: close_def)

lemma close_pipes_apply: "close_pipes t ps fd = (if fd \<in> ends ps then None else t fd)"
proof (induction ps arbitrary: t)
  case (Cons p ps)
  then show ?case using Cons.IH [of "close (close t (fst p)) (snd p)"] by (cases p) (auto simp: close_apply)
qed simp

text \<open>The pipes of \<open>ps\<close>, numbered from \<open>i\<close>, added to the table \<open>t\<close>.\<close>

definition piped :: "fdtab \<Rightarrow> fdtab \<Rightarrow> nat \<Rightarrow> (nat \<times> nat) list \<Rightarrow> bool" where
  "piped t t' i ps \<longleftrightarrow>
     (\<forall>fd. fd \<notin> ends ps \<longrightarrow> t' fd = t fd) \<and> (\<forall>fd\<in>ends ps. t fd = None) \<and>
     (\<forall>j<length ps. t' (fst (ps ! j)) = Some (Pipe_Read (i + j)) \<and> t' (snd (ps ! j)) = Some (Pipe_Write (i + j)))"

lemma pipe_call:
  assumes "fresh_fds K" "pipe_fds K t = (r, w)" "finite (dom t)"
  shows "piped t (t(r \<mapsto> Pipe_Read i, w \<mapsto> Pipe_Write i)) i [(r, w)]" "r \<noteq> w"
  using assms by (auto simp: fresh_fds_def piped_def dest: spec [of _ t])

lemma piped_append:
  assumes "piped t t' i ps" "piped t' t'' (i + length ps) qs"
  shows "piped t t'' i (ps @ qs)"
proof -
  have fresh: "fd \<notin> ends ps" if "fd \<in> ends qs" for fd
  proof
    assume "fd \<in> ends ps"
    then obtain j where "j < length ps" "fd = fst (ps ! j) \<or> fd = snd (ps ! j)"
      by (auto simp: ends_def in_set_conv_nth)
    then have "t' fd \<noteq> None" using assms(1) by (auto simp: piped_def)
    then show False using assms(2) that by (auto simp: piped_def)
  qed
  have "\<forall>fd. fd \<notin> ends (ps @ qs) \<longrightarrow> t'' fd = t fd" "\<forall>fd\<in>ends (ps @ qs). t fd = None"
    using assms fresh by (auto simp: piped_def)
  moreover have "t'' (fst ((ps @ qs) ! j)) = Some (Pipe_Read (i + j)) \<and> t'' (snd ((ps @ qs) ! j)) = Some (Pipe_Write (i + j))"
    if "j < length (ps @ qs)" for j
  proof (cases "j < length ps")
    case True
    then have "fst (ps ! j) \<notin> ends qs" "snd (ps ! j) \<notin> ends qs" using fresh ends_nth by blast+
    then show ?thesis using assms True by (simp add: piped_def nth_append)
  next
    case False
    then show ?thesis using assms(2) that by (auto simp: piped_def nth_append)
  qed
  ultimately show ?thesis by (simp add: piped_def)
qed

lemma make_pipes_ok:
  assumes "fresh_fds K" "\<forall>j. i \<le> j \<and> j < i + n \<longrightarrow> pipe_ok K j" "finite (dom t)"
  shows "\<exists>new t'. make_pipes K n i t ps = (Some (ps @ new), t') \<and> length new = n \<and> piped t t' i new"
  using assms(2,3)
proof (induction n arbitrary: i t ps)
  case 0
  then show ?case by (simp add: piped_def)
next
  case (Suc n)
  obtain r w where rw: "pipe_fds K t = (r, w)" by force
  let ?t = "t(r \<mapsto> Pipe_Read i, w \<mapsto> Pipe_Write i)"
  from Suc.IH [of "Suc i" ?t "ps @ [(r, w)]"] Suc.prems obtain new t' where
    n: "make_pipes K n (Suc i) ?t (ps @ [(r, w)]) = (Some ((ps @ [(r, w)]) @ new), t')" "length new = n" "piped ?t t' (Suc i) new"
    by (auto simp del: fun_upd_apply)
  have "piped t t' i ([(r, w)] @ new)" using piped_append [OF pipe_call(1) [OF assms(1) rw Suc.prems(2), of i], of t' new] n(3) by simp
  then show ?case using n(1,2) Suc.prems rw by auto
qed

lemma make_pipes_fail:
  assumes "fresh_fds K" "\<forall>j. i \<le> j \<and> j < i + k \<longrightarrow> pipe_ok K j" "\<not> pipe_ok K (i + k)" "k < n" "finite (dom t)"
  shows "\<exists>new t'. make_pipes K n i t ps = (None, t') \<and> length new = k \<and> piped t t' i new"
  using assms(2-5)
proof (induction n arbitrary: i t ps k)
  case (Suc n)
  show ?case
  proof (cases k)
    case 0
    then show ?thesis using Suc.prems by (auto simp: piped_def)
  next
    case (Suc m)
    obtain r w where rw: "pipe_fds K t = (r, w)" by force
    let ?t = "t(r \<mapsto> Pipe_Read i, w \<mapsto> Pipe_Write i)"
    from Suc.IH [of "Suc i" m ?t "ps @ [(r, w)]"] Suc.prems Suc obtain new t' where
      n: "make_pipes K n (Suc i) ?t (ps @ [(r, w)]) = (None, t')" "length new = m" "piped ?t t' (Suc i) new"
      by (auto simp del: fun_upd_apply)
    have "piped t t' i ([(r, w)] @ new)" using piped_append [OF pipe_call(1) [OF assms(1) rw Suc.prems(4), of i], of t' new] n(3) by simp
    then show ?thesis using n(1,2) Suc.prems Suc rw by (intro exI [of _ "(r, w) # new"]) auto
  qed
qed simp

lemma piped_close: "piped t t' i ps \<Longrightarrow> close_pipes t' ps = t"
  by (rule ext) (simp add: close_pipes_apply piped_def)

text \<open>The table that the redirections of a command ask for.\<close>

definition redirected :: "fdtab \<Rightarrow> (sh_redir_kind \<times> string) list \<Rightarrow> fdtab" where
  "redirected = foldl (\<lambda>t (k, path). t(redir_target k \<mapsto> Path k path))"

lemma apply_redirs_ok:
  assumes "fresh_fds K"
  shows "finite (dom t) \<Longrightarrow> t 0 \<noteq> None \<Longrightarrow> t 1 \<noteq> None \<Longrightarrow> apply_redirs_child K i j t rs =
    (if \<forall>m<length rs. open_ok K i (j + m) then Some (redirected t rs) else None)"
proof (induction rs arbitrary: j t)
  case Nil
  then show ?case by (simp add: redirected_def)
next
  case (Cons r rs)
  obtain k path where r: "r = (k, path)" by (cases r)
  let ?fd = "free_fd K t" and ?t = "t(redir_target k \<mapsto> Path k path)"
  have "t ?fd = None" using assms Cons.prems(1) by (simp add: fresh_fds_def)
  moreover have "?fd \<noteq> redir_target k" using calculation Cons.prems by (metis redir_target_def)
  ultimately have "close (t(?fd \<mapsto> Path k path, redir_target k \<mapsto> Path k path)) ?fd = ?t"
    by (auto simp: close_def fun_upd_def)
  moreover have "finite (dom ?t)" "?t 0 \<noteq> None" "?t 1 \<noteq> None" using Cons.prems by auto
  moreover have "(\<forall>m<length (r # rs). open_ok K i (j + m)) \<longleftrightarrow> open_ok K i j \<and> (\<forall>m<length rs. open_ok K i (Suc j + m))"
    by (auto simp: less_Suc_eq_0_disj)
  ultimately show ?case using Cons.IH [of ?t "Suc j"] by (simp add: r dup2_def Let_def redirected_def fun_upd_same del: fun_upd_apply)
qed

text \<open>The table that the \<open>i\<close>-th of \<open>n\<close> commands should start with.\<close>

definition stage_fds :: "fdtab \<Rightarrow> nat \<Rightarrow> nat \<Rightarrow> fdtab" where
  "stage_fds t n i fd =
     (if fd = 0 \<and> 0 < i then Some (Pipe_Read (i - 1))
      else if fd = 1 \<and> Suc i < n then Some (Pipe_Write i)
      else t fd)"

definition stage_end :: "kernel \<Rightarrow> fdtab \<Rightarrow> sh_pipeline \<Rightarrow> nat \<Rightarrow> child_end" where
  "stage_end K t p i =
     (if exec_ok K i \<and> (\<forall>j<length (redir_list (p ! i)). open_ok K i j)
      then Exec (cmd_argv (p ! i)) (redirected (stage_fds t (length p) i) (redir_list (p ! i)))
      else Exit_127)"

lemma run_child_ok:
  assumes "fresh_fds K" "finite (dom t)" "t 0 \<noteq> None" "t 1 \<noteq> None"
  shows "run_child K i t c =
    (if exec_ok K i \<and> (\<forall>j<length (redir_list c). open_ok K i j) then Exec (cmd_argv c) (redirected t (redir_list c)) else Exit_127)"
  using apply_redirs_ok [OF assms, of i 0] by (simp add: run_child_def)

lemma start_child_ok:
  assumes K: "fresh_fds K" and t: "finite (dom t)" "t 0 \<noteq> None" "t 1 \<noteq> None"
    and ps: "piped t t' 0 ps" "length ps = length p - 1" and i: "i < length p"
  shows "start_child K t' ps (length p) i (p ! i) = stage_end K t p i"
proof -
  have n01: "0 \<notin> ends ps" "1 \<notin> ends ps" using ps t by (auto simp: piped_def)
  have "dom (stage_fds t (length p) i) \<subseteq> insert 0 (insert 1 (dom t))" by (auto simp: stage_fds_def split: if_splits)
  then have st: "finite (dom (stage_fds t (length p) i))" "stage_fds t (length p) i 0 \<noteq> None" "stage_fds t (length p) i 1 \<noteq> None" using t by (auto simp: stage_fds_def intro: finite_subset)
  note run = run_child_ok [OF K st, of i "p ! i"]
  show ?thesis
  proof (cases "ps = []")
    case True
    then have "length p = 1" "i = 0" "t' = t" using ps i by (auto simp: piped_def)
    moreover have "stage_fds t 1 0 = t" by (auto simp: stage_fds_def)
    ultimately show ?thesis using True run by (simp add: start_child_def stage_end_def)
  next
    case False
    let ?t1 = "if i > 0 then t'(0 \<mapsto> Pipe_Read (i - 1)) else t'"
    let ?t2 = "if i < length p - 1 then ?t1(1 \<mapsto> Pipe_Write i) else ?t1"
    have "(if i > 0 then dup2 t' (fst (ps ! (i - 1))) 0 else Some t') = Some ?t1"
      using ps i by (auto simp: dup2_def piped_def)
    moreover have "(if i < length p - 1 then dup2 ?t1 (snd (ps ! i)) 1 else Some ?t1) = Some ?t2"
    proof (cases "i < length p - 1")
      case True
      then have "snd (ps ! i) \<noteq> 0" using n01 ends_nth [of i ps] ps(2) by (metis)
      then show ?thesis using True ps by (auto simp: dup2_def piped_def)
    qed simp
    moreover have "close_pipes ?t2 ps = stage_fds t (length p) i"
      using n01 ps(1) by (intro ext) (auto simp: close_pipes_apply stage_fds_def piped_def)
    ultimately show ?thesis using False run by (simp add: start_child_def stage_end_def)
  qed
qed

lemma fork_loop_ok:
  "\<forall>j. i \<le> j \<and> j < i + length cs \<longrightarrow> fork_ok K j \<Longrightarrow>
   fork_loop K t ps n i cs = (map (\<lambda>j. start_child K t ps n (i + j) (cs ! j)) [0..<length cs], True)"
proof (induction cs arbitrary: i)
  case (Cons c cs)
  have "map (\<lambda>j. start_child K t ps n (i + j) ((c # cs) ! j)) [0..<length (c # cs)] =
      start_child K t ps n i c # map (\<lambda>j. start_child K t ps n (Suc i + j) (cs ! j)) [0..<length cs]"
    by (simp add: upt_conv_Cons map_Suc_upt [symmetric] del: upt_Suc)
  then show ?case using Cons.IH [of "Suc i"] Cons.prems by simp
qed simp

lemma fork_loop_fail:
  "\<forall>j<k. fork_ok K (i + j) \<Longrightarrow> \<not> fork_ok K (i + k) \<Longrightarrow> k < length cs \<Longrightarrow>
   \<exists>kids. fork_loop K t ps n i cs = (kids, False) \<and> length kids = k"
proof (induction cs arbitrary: i k)
  case (Cons c cs)
  show ?case
  proof (cases k)
    case (Suc m)
    have "\<forall>j<m. fork_ok K (Suc i + j)" using Cons.prems(1) Suc by auto
    from Cons.IH [OF this] Cons.prems Suc show ?thesis by (auto dest: spec [of _ 0])
  qed (use Cons.prems in auto)
qed simp

lemma wait_loop_ok:
  assumes "\<forall>i\<in>set is. wait_st K i \<noteq> None"
  shows "wait_loop K n is s = Some (if n - 1 \<in> set is then the (wait_st K (n - 1)) else s)"
  using assms by (induction "is" arbitrary: s) auto

section \<open>Pipelines\<close>

text \<open>
  C16. When the calls of \<open>pipe\<close> and \<open>fork\<close> succeed and the shell itself has standard input and
  output, a pipeline of \<open>n\<close> commands starts \<open>n\<close> children. The \<open>i\<close>-th has the read end of the
  pipe before it as standard input (the first: the input of the shell) and the write end of the
  pipe after it as standard output (the last: the output of the shell), unless its redirections
  say otherwise, and then the last redirection of each kind counts; every other descriptor is as
  in the shell, so no child holds an end of another pipe. The shell waits for every child, in
  order, after it has closed all its pipe ends, ends with the descriptors it started with, and
  reports the exit status of the last command.
\<close>

theorem pipeline_wiring:
  assumes "fresh_fds K" "finite (dom t)" "t 0 \<noteq> None" "t 1 \<noteq> None" "p \<noteq> []"
    and "\<forall>i<length p - 1. pipe_ok K i" "\<forall>i<length p. fork_ok K i"
  shows "let r = sh_pipeline_exec plenty K t p; n = length p
    in ex_kids r = map (stage_end K t p) [0..<n] \<and>
       ex_waits r = map (\<lambda>i. (i, t)) [0..<n] \<and> ex_fds r = t \<and>
       ((\<forall>i<n. wait_st K i \<noteq> None) \<longrightarrow> ex_err r = SH_OK \<and> ex_status r = exit_code (the (wait_st K (n - 1))))"
proof -
  obtain ps t' where ps: "make_pipes K (length p - 1) 0 t [] = (Some ps, t')" "length ps = length p - 1" "piped t t' 0 ps"
    using make_pipes_ok [of K 0 "length p - 1" t "[]"] assms(1,2,6) by auto
  have "fork_loop K t' ps (length p) 0 p = (map (stage_end K t p) [0..<length p], True)"
    using fork_loop_ok [of 0 p K t' ps "length p"] assms(7) start_child_ok [OF assms(1-4) ps(3,2)] by simp
  then have "sh_pipeline_exec plenty K t p =
      \<lparr>ex_err = (if wait_loop K (length p) [0..<length p] 0 = None then SH_ERR_SYS else SH_OK),
       ex_status = (case wait_loop K (length p) [0..<length p] 0 of None \<Rightarrow> 1 | Some st \<Rightarrow> exit_code st),
       ex_kids = map (stage_end K t p) [0..<length p], ex_waits = map (\<lambda>i. (i, t)) [0..<length p], ex_fds = t\<rparr>"
    using ps(1) assms(5) piped_close [OF ps(3)] by (simp add: sh_pipeline_exec_def Let_def)
  moreover have "(\<forall>i<length p. wait_st K i \<noteq> None) \<Longrightarrow>
      wait_loop K (length p) [0..<length p] 0 = Some (the (wait_st K (length p - 1)))"
    using wait_loop_ok [of "[0..<length p]" K "length p" 0] assms(5) by simp
  ultimately show ?thesis by (simp add: Let_def)
qed

text \<open>A kernel that gives out the lowest free descriptors and on which every call succeeds.\<close>

definition lowest_fd :: "fdtab \<Rightarrow> nat" where
  "lowest_fd t = (LEAST fd. t fd = None)"

definition lowest_kernel :: kernel where
  "lowest_kernel =
     \<lparr>pipe_ok = (\<lambda>_. True), pipe_fds = (\<lambda>t. (lowest_fd t, lowest_fd (t(lowest_fd t \<mapsto> Given 0)))),
      fork_ok = (\<lambda>_. True), open_ok = (\<lambda>_ _. True), free_fd = lowest_fd, exec_ok = (\<lambda>_. True),
      wait_st = (\<lambda>i. Some (of_nat i * 0x100))\<rparr>"

lemma lowest_fd_free: "finite (dom t) \<Longrightarrow> t (lowest_fd t) = None"
  unfolding lowest_fd_def by (rule LeastI_ex) (use ex_new_if_finite [of "dom t"] in \<open>auto simp: domIff\<close>)

lemma lowest_kernel_fresh: "fresh_fds (lowest_kernel\<lparr>pipe_ok := f, fork_ok := g\<rparr>)"
proof -
  have "lowest_fd t \<noteq> lowest_fd (t(lowest_fd t \<mapsto> Given 0)) \<and> t (lowest_fd (t(lowest_fd t \<mapsto> Given 0))) = None"
    if "finite (dom t)" for t
    using lowest_fd_free [of "t(lowest_fd t \<mapsto> Given 0)"] that by (metis dom_fun_upd finite_insert fun_upd_apply option.distinct(1))
  then show ?thesis by (simp add: fresh_fds_def lowest_kernel_def lowest_fd_free)
qed

abbreviation std_fds :: fdtab where
  "std_fds \<equiv> [0 \<mapsto> Given 0, 1 \<mapsto> Given 1, 2 \<mapsto> Given 2]"

theorem pipeline_wiring_witness:
  "let r = sh_pipeline_exec plenty lowest_kernel std_fds
       [\<lparr>cmd_argv = [''ls'', ''-l''], redir_list = []\<rparr>, \<lparr>cmd_argv = [''wc''], redir_list = [(SH_REDIR_OUT, ''n'')]\<rparr>]
   in ex_kids r = [Exec [''ls'', ''-l''] (std_fds(1 \<mapsto> Pipe_Write 0)),
                   Exec [''wc''] (std_fds(0 \<mapsto> Pipe_Read 0, 1 \<mapsto> Path SH_REDIR_OUT ''n''))] \<and>
      ex_fds r = std_fds \<and> ex_status r = 1"
proof -
  have f: "stage_fds std_fds 2 0 = std_fds(1 \<mapsto> Pipe_Write 0)" "stage_fds std_fds 2 1 = std_fds(0 \<mapsto> Pipe_Read 0)"
    by (auto simp: stage_fds_def)
  have e: "exit_code 0x100 = 1" by code_simp
  have "fresh_fds lowest_kernel" using lowest_kernel_fresh [of "\<lambda>_. True" "\<lambda>_. True"] by (simp add: lowest_kernel_def)
  from pipeline_wiring [OF this, of std_fds "[\<lparr>cmd_argv = [''ls'', ''-l''], redir_list = []\<rparr>, \<lparr>cmd_argv = [''wc''], redir_list = [(SH_REDIR_OUT, ''n'')]\<rparr>]"]
  show ?thesis using f
    by (simp add: Let_def stage_end_def lowest_kernel_def redirected_def redir_target_def upt_rec e numeral_2_eq_2)
qed

section \<open>Failing calls\<close>

text \<open>A table that holds both ends of the \<open>j\<close>-th pipe at descriptors that were free in \<open>t\<close>.\<close>

definition holds_pipe :: "fdtab \<Rightarrow> fdtab \<Rightarrow> nat \<Rightarrow> bool" where
  "holds_pipe t t' j \<longleftrightarrow>
     (\<exists>a. t a = None \<and> t' a = Some (Pipe_Read j)) \<and> (\<exists>b. t b = None \<and> t' b = Some (Pipe_Write j))"

lemma piped_holds: "piped t t' 0 ps \<Longrightarrow> j < length ps \<Longrightarrow> holds_pipe t t' j"
  using ends_nth [of j ps] by (auto simp: holds_pipe_def piped_def)

lemma pipe_failure_leaks:
  assumes "fresh_fds K" "finite (dom t)" "k < length p - 1" "\<forall>i<k. pipe_ok K i" "\<not> pipe_ok K k"
  shows "\<exists>t'. sh_pipeline_exec plenty K t p = \<lparr>ex_err = SH_ERR_SYS, ex_status = 0, ex_kids = [], ex_waits = [], ex_fds = t'\<rparr> \<and>
    (\<forall>j<k. holds_pipe t t' j)"
proof -
  obtain new t' where m: "make_pipes K (length p - 1) 0 t [] = (None, t')" "length new = k" "piped t t' 0 new"
    using make_pipes_fail [of K 0 k "length p - 1" t "[]"] assms by auto
  then show ?thesis using assms(3) piped_holds [OF m(3)] by (auto simp: sh_pipeline_exec_def Let_def)
qed

lemma fork_failure_waits:
  assumes "fresh_fds K" "finite (dom t)" "\<forall>i<length p - 1. pipe_ok K i" "k < length p" "\<forall>i<k. fork_ok K i" "\<not> fork_ok K k"
  shows "\<exists>t' kids. sh_pipeline_exec plenty K t p =
      \<lparr>ex_err = SH_ERR_SYS, ex_status = 0, ex_kids = kids, ex_waits = map (\<lambda>i. (i, t')) [0..<k], ex_fds = t\<rparr> \<and>
    length kids = k \<and> (\<forall>j<length p - 1. holds_pipe t t' j)"
proof -
  obtain ps t' where ps: "make_pipes K (length p - 1) 0 t [] = (Some ps, t')" "length ps = length p - 1" "piped t t' 0 ps"
    using make_pipes_ok [of K 0 "length p - 1" t "[]"] assms(1-3) by auto
  obtain kids where "fork_loop K t' ps (length p) 0 p = (kids, False)" "length kids = k"
    using fork_loop_fail [of k K 0 p t' ps "length p"] assms(4-6) by auto
  then show ?thesis using ps assms(4) piped_close [OF ps(3)] piped_holds [OF ps(3)]
    by (auto simp: sh_pipeline_exec_def Let_def)
qed

text \<open>
  C17. Two defects of the error paths. When a call of \<open>pipe\<close> fails, the pipes made before it
  stay open in the shell: each failure leaks both ends of every earlier pipe. When a call of
  \<open>fork\<close> fails, the shell waits for the children already started while it still holds the ends
  of every pipe: a child that reads a pipe until its end (every one but the first) never sees
  that end, so the shell and the child wait for each other. Only afterwards does it close the
  pipes.
\<close>

theorem exec_failures:
  assumes "fresh_fds K" "finite (dom t)"
  shows "(k < length p - 1 \<and> (\<forall>i<k. pipe_ok K i) \<and> \<not> pipe_ok K k \<longrightarrow>
      (let r = sh_pipeline_exec plenty K t p
       in ex_err r = SH_ERR_SYS \<and> ex_kids r = [] \<and> (\<forall>j<k. holds_pipe t (ex_fds r) j))) \<and>
    (k < length p \<and> (\<forall>i<length p - 1. pipe_ok K i) \<and> (\<forall>i<k. fork_ok K i) \<and> \<not> fork_ok K k \<longrightarrow>
      (let r = sh_pipeline_exec plenty K t p
       in ex_err r = SH_ERR_SYS \<and> length (ex_kids r) = k \<and> map fst (ex_waits r) = [0..<k] \<and>
          (\<forall>(i, t')\<in>set (ex_waits r). \<forall>j<length p - 1. holds_pipe t t' j) \<and> ex_fds r = t))"
  using pipe_failure_leaks [OF assms, of k p] fork_failure_waits [OF assms, of p k] by (auto simp: Let_def comp_def)

theorem exec_failures_witness:
  "let p = [\<lparr>cmd_argv = [''cat''], redir_list = []\<rparr>, \<lparr>cmd_argv = [''cat''], redir_list = []\<rparr>, \<lparr>cmd_argv = [''cat''], redir_list = []\<rparr>];
       leak = sh_pipeline_exec plenty (lowest_kernel\<lparr>pipe_ok := (\<lambda>i. i < 1), fork_ok := (\<lambda>_. True)\<rparr>) std_fds p;
       hang = sh_pipeline_exec plenty (lowest_kernel\<lparr>pipe_ok := (\<lambda>_. True), fork_ok := (\<lambda>i. i < 2)\<rparr>) std_fds p
   in ex_err leak = SH_ERR_SYS \<and> holds_pipe std_fds (ex_fds leak) 0 \<and>
      (\<exists>t'. (1, t') \<in> set (ex_waits hang) \<and> holds_pipe std_fds t' 0)"
proof -
  let ?p = "[\<lparr>cmd_argv = [''cat''], redir_list = []\<rparr>, \<lparr>cmd_argv = [''cat''], redir_list = []\<rparr>, \<lparr>cmd_argv = [''cat''], redir_list = []\<rparr>]"
  let ?l = "sh_pipeline_exec plenty (lowest_kernel\<lparr>pipe_ok := (\<lambda>i. i < 1), fork_ok := (\<lambda>_. True)\<rparr>) std_fds ?p"
  let ?h = "sh_pipeline_exec plenty (lowest_kernel\<lparr>pipe_ok := (\<lambda>_. True), fork_ok := (\<lambda>i. i < 2)\<rparr>) std_fds ?p"
  have l: "ex_err ?l = SH_ERR_SYS \<and> holds_pipe std_fds (ex_fds ?l) 0"
    using exec_failures [OF lowest_kernel_fresh, of std_fds 1 ?p "\<lambda>_. True" "\<lambda>i. i < 1"] by (simp add: Let_def)
  have h: "map fst (ex_waits ?h) = [0..<2] \<and> (\<forall>(i, t')\<in>set (ex_waits ?h). \<forall>j<length ?p - 1. holds_pipe std_fds t' j)"
    using exec_failures [OF lowest_kernel_fresh, of std_fds 2 ?p "\<lambda>i. i < 2" "\<lambda>_. True"] by (simp add: Let_def del: map_eq_conv)
  then have "1 \<in> fst ` set (ex_waits ?h)" by (metis atLeastLessThan_iff list.set_map one_less_numeral_iff semiring_norm(76) set_upt zero_le)
  then show ?thesis using l h by (auto simp: Let_def) blast
qed

end
