(* ===== verification/Sh_Builtin.thy ===== *)
theory Sh_Builtin
  imports Sh_Exec Environ
begin

text \<open>
  The aliases and the builtin commands of the shell, \<open>cmd/sh/sh_builtin.c\<close>, and the run of a
  line, \<open>run_line\<close> in \<open>sh_main.c\<close>, which puts the lexer, the parser, the aliases, the builtins
  and the execution of pipelines together. The state of the shell is its list of aliases, its
  environment, its table of descriptors, the directory the kernel has for it, the buffer \<open>cwd\<close>
  and what it has written to standard output. The messages on standard error are left out.

  The loops over tokens have fuel; the result is \<open>None\<close> when it runs out, and the same result
  stands for the reads past the end of a string that the string routines can report.
\<close>

section \<open>The code\<close>

record shell =
  sh_aliases :: "(string \<times> string) list"
  sh_environ :: env
  sh_fds :: fdtab
  os_cwd :: string
  sh_cwd :: string
  sh_out :: string

text \<open>The world of the shell: memory, processes, directories.\<close>

record world =
  mem :: "nat \<Rightarrow> bool"
  kern :: kernel
  chdir :: "string \<Rightarrow> string \<Rightarrow> string option"
  getcwd :: "string \<Rightarrow> string option"
  env_mem :: "nat \<Rightarrow> bool"

text \<open>What \<open>getenv\<close> answers the lexer.\<close>

definition env_of :: "env \<Rightarrow> string \<Rightarrow> string option" where
  "env_of e name =
     (case getenv e (Some (bytes name)) of
        Some (Some v) \<Rightarrow> Some (map (\<lambda>b. char_of (unat b)) v)
      | _ \<Rightarrow> None)"

text \<open>The result of \<open>sh_alias_split\<close>: the words, or the inner \<open>None\<close> for \<open>- 1\<close>.\<close>

fun split_loop ::
  "nat \<Rightarrow> (nat \<Rightarrow> bool) \<Rightarrow> (string \<Rightarrow> string option) \<Rightarrow> sh_lexer \<Rightarrow> string list \<Rightarrow> nat \<Rightarrow> string list option option"
where
  "split_loop 0 room env lx words cap = None"
| "split_loop (Suc fuel) room env lx words cap =
     (case sh_lexer_next room env lx of
        (err, token, lx) \<Rightarrow>
          if err \<noteq> SH_OK then Some None
          else case token of
              SH_TOKEN_EOF \<Rightarrow> Some (Some words)
            | SH_TOKEN_WORD w \<Rightarrow>
                if length words = cap
                then let ncap = (if cap > 0 then cap * 2 else 8)
                     in if room (ncap * 8) then split_loop fuel room env lx (words @ [w]) ncap else Some None
                else split_loop fuel room env lx (words @ [w]) cap
            | _ \<Rightarrow> Some None)"

definition sh_alias_split ::
  "nat \<Rightarrow> (nat \<Rightarrow> bool) \<Rightarrow> (string \<Rightarrow> string option) \<Rightarrow> string \<Rightarrow> string list option option"
where
  "sh_alias_split fuel room env value =
     (case split_loop fuel room env (sh_lexer_init value) [] 0 of
        Some (Some words) \<Rightarrow> if words = [] then Some None else Some (Some words)
      | r \<Rightarrow> r)"

fun sh_alias_find :: "(string \<times> string) list \<Rightarrow> string \<Rightarrow> (string \<times> string) option" where
  "sh_alias_find [] name = None"
| "sh_alias_find (a # as) name = (if fst a = name then Some a else sh_alias_find as name)"

definition sh_valid_alias_name :: "string \<Rightarrow> bool" where
  "sh_valid_alias_name name \<longleftrightarrow>
     name \<noteq> [] \<and> list_all (\<lambda>c. \<not> space c \<and> c \<notin> set (''=|<>'' @ [CHR 0x27, CHR 0x22, CHR 0x5C, CHR ''#''])) name"

definition sh_valid_env_name :: "string \<Rightarrow> bool" where
  "sh_valid_env_name name \<longleftrightarrow>
     name \<noteq> [] \<and> (alpha (hd name) \<or> hd name = CHR ''_'') \<and> list_all (\<lambda>c. alnum c \<or> c = CHR ''_'') (tl name)"

text \<open>The value of the alias that \<open>sh_alias_find\<close> returned is replaced in place.\<close>

fun replace_value :: "(string \<times> string) list \<Rightarrow> string \<Rightarrow> string \<Rightarrow> (string \<times> string) list" where
  "replace_value [] name value = []"
| "replace_value (a # as) name value = (if fst a = name then (name, value) # as else a # replace_value as name value)"

definition sh_alias_set ::
  "nat \<Rightarrow> (nat \<Rightarrow> bool) \<Rightarrow> (string \<Rightarrow> string option) \<Rightarrow> (string \<times> string) list \<Rightarrow> string \<Rightarrow> string \<Rightarrow>
   (int \<times> (string \<times> string) list) option"
where
  "sh_alias_set fuel room env as name value =
     (if \<not> sh_valid_alias_name name then Some (- 1, as)
      else case sh_alias_split fuel room env value of
          None \<Rightarrow> None
        | Some None \<Rightarrow> Some (- 1, as)
        | Some (Some words) \<Rightarrow>
            Some (if \<not> room (length value + 1) then (- 1, as)
                  else case sh_alias_find as name of
                      Some a \<Rightarrow> (0, replace_value as name value)
                    | None \<Rightarrow>
                        if \<not> room 24 then (- 1, as)
                        else if \<not> room (length name + 1) then (- 1, as)
                        else (0, (name, value) # as)))"

fun print_value :: "string \<Rightarrow> string" where
  "print_value [] = []"
| "print_value (c # p) =
     (if c = CHR 0x27 then [CHR 0x27, CHR 0x5C, CHR 0x27, CHR 0x27] else [c]) @ print_value p"

definition sh_alias_print :: "string \<times> string \<Rightarrow> string" where
  "sh_alias_print a = ''alias '' @ fst a @ [CHR ''='', CHR 0x27] @ print_value (snd a) @ [CHR 0x27, CHR 0x0A]"

text \<open>
  \<open>sh_alias_expand_cmd\<close>, with the number of expansions that are still allowed instead of \<open>depth\<close>,
  the number of those made.
\<close>

fun expand_loop ::
  "nat \<Rightarrow> nat \<Rightarrow> (nat \<Rightarrow> bool) \<Rightarrow> (string \<Rightarrow> string option) \<Rightarrow> (string \<times> string) list \<Rightarrow> sh_simple_cmd \<Rightarrow>
   (int \<times> sh_simple_cmd) option"
where
  "expand_loop left fuel room env as cmd =
     (if cmd_argv cmd = [] then Some (0, cmd)
      else case sh_alias_find as (hd (cmd_argv cmd)) of
          None \<Rightarrow> Some (0, cmd)
        | Some a \<Rightarrow>
            (case left of
               0 \<Rightarrow> Some (- 1, cmd)
             | Suc left' \<Rightarrow>
                 (case sh_alias_split fuel room env (snd a) of
                    None \<Rightarrow> None
                  | Some None \<Rightarrow> Some (- 1, cmd)
                  | Some (Some words) \<Rightarrow>
                      if \<not> room ((length words + length (cmd_argv cmd)) * 8) then Some (- 1, cmd)
                      else let cmd = cmd\<lparr>cmd_argv := words @ tl (cmd_argv cmd)\<rparr>
                           in if hd words = fst a then Some (0, cmd)
                              else expand_loop left' fuel room env as cmd)))"

declare expand_loop.simps [simp del]

definition sh_alias_expand_cmd ::
  "nat \<Rightarrow> (nat \<Rightarrow> bool) \<Rightarrow> (string \<Rightarrow> string option) \<Rightarrow> (string \<times> string) list \<Rightarrow> sh_simple_cmd \<Rightarrow>
   (int \<times> sh_simple_cmd) option"
where
  "sh_alias_expand_cmd = expand_loop 16"

text \<open>An argument at its first equals sign.\<close>

definition arg_name :: "string \<Rightarrow> string" where
  "arg_name arg = takeWhile (\<lambda>c. c \<noteq> CHR ''='') arg"

definition arg_value :: "string \<Rightarrow> string" where
  "arg_value arg = tl (dropWhile (\<lambda>c. c \<noteq> CHR ''='') arg)"

fun alias_args :: "nat \<Rightarrow> world \<Rightarrow> string list \<Rightarrow> int \<Rightarrow> shell \<Rightarrow> (int \<times> shell) option" where
  "alias_args fuel W [] status st = Some (status, st)"
| "alias_args fuel W (arg # args) status st =
     (if CHR ''='' \<in> set arg then
        case sh_alias_set fuel (mem W) (env_of (sh_environ st)) (sh_aliases st) (arg_name arg) (arg_value arg) of
          None \<Rightarrow> None
        | Some (rc, as) \<Rightarrow> alias_args fuel W args (if rc \<noteq> 0 then 1 else status) (st\<lparr>sh_aliases := as\<rparr>)
      else case sh_alias_find (sh_aliases st) arg of
          None \<Rightarrow> alias_args fuel W args 1 st
        | Some a \<Rightarrow> alias_args fuel W args status (st\<lparr>sh_out := sh_out st @ sh_alias_print a\<rparr>))"

definition sh_builtin_alias :: "nat \<Rightarrow> world \<Rightarrow> sh_simple_cmd \<Rightarrow> shell \<Rightarrow> (int \<times> shell) option" where
  "sh_builtin_alias fuel W cmd st =
     (if length (cmd_argv cmd) = 1
      then Some (0, st\<lparr>sh_out := sh_out st @ concat (map sh_alias_print (sh_aliases st))\<rparr>)
      else alias_args fuel W (tl (cmd_argv cmd)) 0 st)"

fun export_args :: "world \<Rightarrow> string list \<Rightarrow> int \<Rightarrow> shell \<Rightarrow> (int \<times> shell) option" where
  "export_args W [] status st = Some (status, st)"
| "export_args W (arg # args) status st =
     (if CHR ''='' \<in> set arg then
        if \<not> sh_valid_env_name (arg_name arg) then export_args W args 1 st
        else case setenv (env_mem W) (sh_environ st) (Some (bytes (arg_name arg))) (Some (bytes (arg_value arg))) True of
            None \<Rightarrow> None
          | Some (rc, e) \<Rightarrow> export_args W args (if rc \<noteq> 0 then 1 else status) (st\<lparr>sh_environ := e\<rparr>)
      else if \<not> sh_valid_env_name arg then export_args W args 1 st
      else case getenv (sh_environ st) (Some (bytes arg)) of
          None \<Rightarrow> None
        | Some (Some v) \<Rightarrow> export_args W args status st
        | Some None \<Rightarrow>
            (case setenv (env_mem W) (sh_environ st) (Some (bytes arg)) (Some []) True of
               None \<Rightarrow> None
             | Some (rc, e) \<Rightarrow> export_args W args (if rc \<noteq> 0 then 1 else status) (st\<lparr>sh_environ := e\<rparr>)))"

definition sh_builtin_export :: "world \<Rightarrow> sh_simple_cmd \<Rightarrow> shell \<Rightarrow> (int \<times> shell) option" where
  "sh_builtin_export W cmd st =
     (if length (cmd_argv cmd) = 1
      then Some (0, st\<lparr>sh_out := sh_out st @
             concat (map (\<lambda>e. map (\<lambda>b. char_of (unat b)) e @ [CHR 0x0A]) (case environ (sh_environ st) of None \<Rightarrow> [] | Some es \<Rightarrow> es))\<rparr>)
      else export_args W (tl (cmd_argv cmd)) 0 st)"

text \<open>The code that the shell exits with.\<close>

definition sh_builtin_exit :: "sh_simple_cmd \<Rightarrow> int option" where
  "sh_builtin_exit cmd =
     (case cmd_argv cmd of
        a0 # a1 # _ \<Rightarrow>
          (case strtol (cstr (bytes a1)) 10 ENONE of
             None \<Rightarrow> None
           | Some (v, end, _) \<Rightarrow>
               Some (if length end = length (cstr (bytes a1)) \<or> hd end \<noteq> 0 \<or> v < 0 \<or> v > 255 then 2 else v))
      | _ \<Rightarrow> Some 0)"

definition sh_builtin_cd :: "world \<Rightarrow> sh_simple_cmd \<Rightarrow> shell \<Rightarrow> sh_err \<times> shell" where
  "sh_builtin_cd W cmd st =
     (if length (cmd_argv cmd) > 1 then
        case chdir W (os_cwd st) (cmd_argv cmd ! 1) of
          None \<Rightarrow> (SH_ERR_IO, st)
        | Some d \<Rightarrow>
            let st = st\<lparr>os_cwd := d\<rparr>
            in case getcwd W d of
                 None \<Rightarrow> (SH_ERR_IO, st)
               | Some s \<Rightarrow> (SH_OK, st\<lparr>sh_cwd := s\<rparr>)
      else (SH_OK, st))"

definition sh_builtin_pwd :: "shell \<Rightarrow> shell" where
  "sh_builtin_pwd st = st\<lparr>sh_out := sh_out st @ sh_cwd st @ [CHR 0x0A]\<rparr>"

text \<open>A line ends with a status, or it makes the shell exit.\<close>

datatype line_end = Status int | Exits int

fun expand_cmds ::
  "nat \<Rightarrow> world \<Rightarrow> shell \<Rightarrow> sh_pipeline \<Rightarrow> sh_pipeline option option"
where
  "expand_cmds fuel W st [] = Some (Some [])"
| "expand_cmds fuel W st (c # cs) =
     (case sh_alias_expand_cmd fuel (mem W) (env_of (sh_environ st)) (sh_aliases st) c of
        None \<Rightarrow> None
      | Some (rc, c) \<Rightarrow>
          if rc \<noteq> 0 then Some None
          else map_option (map_option ((#) c)) (expand_cmds fuel W st cs))"

definition run_pipeline :: "nat \<Rightarrow> world \<Rightarrow> sh_pipeline \<Rightarrow> shell \<Rightarrow> (line_end \<times> shell) option" where
  "run_pipeline fuel W pl st =
     (let cmd = hd pl; a0 = hd (cmd_argv cmd); b = (length pl = 1 \<and> cmd_argv cmd \<noteq> [])
      in if b \<and> a0 = ''exit'' then map_option (\<lambda>code. (Exits code, st)) (sh_builtin_exit cmd)
         else if b \<and> a0 = ''cd'' then
           (case sh_builtin_cd W cmd st of
              (err, st) \<Rightarrow> Some (Status (if err \<noteq> SH_OK then sh_err_to_exit_status err else 0), st))
         else if b \<and> a0 = ''pwd'' then Some (Status 0, sh_builtin_pwd st)
         else if b \<and> a0 = ''alias'' then map_option (\<lambda>(s, st). (Status s, st)) (sh_builtin_alias fuel W cmd st)
         else if b \<and> a0 = ''export'' then map_option (\<lambda>(s, st). (Status s, st)) (sh_builtin_export W cmd st)
         else let r = sh_pipeline_exec (mem W) (kern W) (sh_fds st) pl; st = st\<lparr>sh_fds := ex_fds r\<rparr>
              in Some (Status (if ex_err r \<noteq> SH_OK then sh_err_to_exit_status (ex_err r) else ex_status r), st))"

definition run_line :: "nat \<Rightarrow> world \<Rightarrow> string \<Rightarrow> shell \<Rightarrow> (line_end \<times> shell) option" where
  "run_line fuel W s st =
     (case sh_parse_line fuel (mem W) (env_of (sh_environ st)) (sh_lexer_init s) of
        None \<Rightarrow> None
      | Some r \<Rightarrow>
          if res_err r \<noteq> SH_OK then Some (Status (sh_err_to_exit_status (res_err r)), st)
          else if res_pl r = [] then Some (Status 0, st)
          else case expand_cmds fuel W st (res_pl r) of
              None \<Rightarrow> None
            | Some None \<Rightarrow> Some (Status 1, st)
            | Some (Some pl) \<Rightarrow> run_pipeline fuel W pl st)"

definition chomp_crlf :: "string \<Rightarrow> string" where
  "chomp_crlf s = rev (dropWhile (\<lambda>c. c = CHR 0x0A \<or> c = CHR 0x0D) (rev s))"

text \<open>
  The loop of \<open>run_script\<close>: the lines that \<open>getline\<close> returns (each as the C string it is, up to its
  first NUL), and the world at each of them.
\<close>

fun run_script_loop :: "nat \<Rightarrow> (nat \<Rightarrow> world) \<Rightarrow> nat \<Rightarrow> string list \<Rightarrow> int \<Rightarrow> shell \<Rightarrow> (line_end \<times> shell) option" where
  "run_script_loop fuel W i [] last_status st = Some (Status last_status, st)"
| "run_script_loop fuel W i (l # ls) last_status st =
     (case run_line fuel (W i) (chomp_crlf (to_nul l)) st of
        None \<Rightarrow> None
      | Some (Exits code, st) \<Rightarrow> Some (Exits code, st)
      | Some (Status s, st) \<Rightarrow> run_script_loop fuel W (Suc i) ls s st)"

section \<open>Aliases as a map\<close>

lemma find_replace:
  "sh_alias_find as name \<noteq> None \<Longrightarrow>
   sh_alias_find (replace_value as name value) n = (if n = name then Some (name, value) else sh_alias_find as n)"
  by (induction "as") auto

lemma alias_set_find:
  assumes "sh_alias_set fuel room env as name value = Some (0, as')"
  shows "sh_alias_find as' n = (if n = name then Some (name, value) else sh_alias_find as n)"
  using assms find_replace [of "as" name "value" n]
  by (auto simp: sh_alias_set_def split: if_splits option.splits)

lemma alias_set_ok:
  assumes "sh_valid_alias_name name" "sh_alias_split fuel plenty env value = Some (Some ws)"
  shows "\<exists>as'. sh_alias_set fuel plenty env as name value = Some (0, as')"
  using assms by (auto simp: sh_alias_set_def split: option.split)

section \<open>Reading plain words\<close>

definition plain :: "char \<Rightarrow> bool" where
  "plain c \<longleftrightarrow> \<not> word_end c \<and> c \<noteq> CHR 0x27 \<and> c \<noteq> CHR 0x22 \<and> c \<noteq> CHR ''$'' \<and> c \<noteq> CHR 0x5C"

lemma word_loop_plain:
  "list_all plain u \<Longrightarrow> rest lx = u @ r \<Longrightarrow>
   \<exists>lx' b'. word_loop plenty env lx b = word_loop plenty env lx' b' \<and> rest lx' = r \<and> contents b' = contents b @ u"
proof (induction u arbitrary: lx b)
  case (Cons c u)
  obtain b1 where 1: "sh_buf_push plenty b c = Some b1" "contents b1 = contents b @ [c]" using push_ok by blast
  have "word_loop plenty env lx b = word_loop plenty env (advance lx) b1"
    using Cons.prems 1 by (subst word_loop.simps) (auto simp: Let_def plain_def)
  moreover have "rest (advance lx) = u @ r" using Cons.prems(2) by (simp add: rest_advance)
  ultimately show ?case using Cons.IH [of "advance lx" b1] Cons.prems(1) 1(2) by auto
qed auto

lemma next_plain:
  assumes "list_all plain u" "u \<noteq> []" "CHR 0x00 \<notin> set v" "rest lx = u @ q @ r"
    and "q = [] \<and> v = [] \<or> q = quote v" "stops r"
  shows "\<exists>lx'. sh_lexer_next plenty env lx = (SH_OK, SH_TOKEN_WORD (u @ v), lx') \<and> rest lx' = r"
proof -
  obtain l1 b1 where 1: "word_loop plenty env lx (None, 0) = word_loop plenty env l1 b1" "rest l1 = q @ r" "contents b1 = u"
    using word_loop_plain [OF assms(1,4), of env "(None, 0)"] by auto
  obtain b2 l2 where 2: "word_loop plenty env l1 b1 = (Inr b2, l2)" "contents b2 = u @ v" "rest l2 = r"
    using word_loop_quote [OF assms(3) _ assms(6), of l1 env b1] word_loop_stops [of l1 plenty env b1] 1(2,3) assms(5,6)
    by (cases "q = []"; cases b1) (auto simp: quote_def)
  have "CHR 0x00 \<notin> set (u @ v)" using assms(1,3) by (auto simp: list_all_iff plain_def word_end_def)
  then have w: "read_word plenty env lx = (Text (u @ v), l2)" using 1 2 by (simp add: read_word_def finish_word_ok)
  obtain c s where c: "rest lx = c # s" "plain c" using assms(1,2,4) by (cases u) auto
  then have "skip_spaces lx = lx" by (subst skip_spaces.simps) (simp add: plain_def word_end_def)
  moreover have sp: "space CHR 0x0A" by (simp add: isspace_def)
  moreover have "c \<noteq> CHR 0x0A" "c \<noteq> CHR ''#''" "c \<noteq> CHR ''|''" "c \<noteq> CHR ''<''" "c \<noteq> CHR ''>''"
    using c(2) sp unfolding plain_def word_end_def by blast+
  ultimately show ?thesis using w c(1) 2(3) by (subst sh_lexer_next.simps) (simp add: Let_def)
qed

lemma next_plain_blank:
  assumes "list_all plain u" "u \<noteq> []" "CHR 0x00 \<notin> set v" "rest lx = CHR '' '' # u @ q @ r"
    and "q = [] \<and> v = [] \<or> q = quote v" "stops r"
  shows "\<exists>lx'. sh_lexer_next plenty env lx = (SH_OK, SH_TOKEN_WORD (u @ v), lx') \<and> rest lx' = r"
proof -
  obtain c s where c: "u = c # s" "plain c" using assms(1,2) by (cases u) auto
  have a: "skip_spaces lx = skip_spaces (advance lx)"
    using assms(4) by (subst skip_spaces.simps) (simp add: isspace_def)
  have "sh_lexer_next plenty env lx = sh_lexer_next plenty env (advance lx)"
    by (subst (1 2) sh_lexer_next.simps) (simp add: a)
  then show ?thesis using next_plain [OF assms(1-3) _ assms(5,6), of "advance lx" env] assms(4) by (simp add: rest_advance)
qed

lemma quote_print: "quote v = CHR 0x27 # print_value v @ [CHR 0x27]"
  by (induction v) (auto simp: quote_def)

lemma valid_name_plain:
  assumes "sh_valid_alias_name name" "CHR ''$'' \<notin> set name" "CHR 0x00 \<notin> set name"
  shows "list_all plain (name @ ''='')"
  using assms by (auto simp: sh_valid_alias_name_def list_all_iff plain_def word_end_def isspace_def)

section \<open>Printing and reading aliases\<close>

lemma parse_two_words:
  assumes "sh_lexer_next plenty env lx = (SH_OK, SH_TOKEN_WORD a, l1)" "sh_lexer_next plenty env l1 = (SH_OK, SH_TOKEN_WORD b, l2)"
    and "rest l2 = []"
  shows "sh_parse_line (Suc (Suc (Suc fuel))) plenty env lx =
    Some \<lparr>res_err = SH_OK, res_msg = None, res_pl = [\<lparr>cmd_argv = [a, b], redir_list = []\<rparr>]\<rparr>"
  using assms by (simp add: sh_parse_line_def sh_pipeline_init_def parse_step_def next_eof ensure_cmd_def push_cmd_def argv_push_def set_tail_def)

text \<open>
  C19. An alias that the shell prints can be read back: running the line that \<open>alias\<close> prints for a
  name and a value (with any characters in the value, single quotes included) defines exactly
  that alias again and leaves every other alias alone. The name must have no dollar sign, which a
  definition accepts but the printed line would expand, and \<open>alias\<close> itself must not be an alias.
\<close>

theorem alias_print_roundtrip:
  assumes "sh_valid_alias_name name" "CHR ''$'' \<notin> set name" "CHR 0x00 \<notin> set name" "CHR 0x00 \<notin> set value"
    and "mem W = plenty" "sh_alias_split fuel plenty (env_of (sh_environ st)) value = Some (Some ws)" "3 \<le> fuel"
    and "sh_alias_find (sh_aliases st) ''alias'' = None"
  shows "\<exists>as. run_line fuel W (chomp_crlf (sh_alias_print (name, value))) st = Some (Status 0, st\<lparr>sh_aliases := as\<rparr>) \<and>
    (\<forall>n. sh_alias_find as n = (if n = name then Some (name, value) else sh_alias_find (sh_aliases st) n))"
proof -
  let ?arg = "name @ ''='' @ value" and ?env = "env_of (sh_environ st)"
  define lx where "lx = sh_lexer_init (chomp_crlf (sh_alias_print (name, value)))"
  have r: "rest lx = ''alias'' @ [] @ CHR '' '' # (name @ ''='') @ quote value @ []"
    by (simp add: lx_def sh_lexer_init_def sh_alias_print_def chomp_crlf_def quote_print)
  have "list_all plain ''alias''" by (simp add: plain_def word_end_def isspace_def)
  from next_plain [OF this _ _ r, of "[]" ?env] obtain l1 where 1: "sh_lexer_next plenty ?env lx = (SH_OK, SH_TOKEN_WORD ''alias'', l1)"
    "rest l1 = CHR '' '' # (name @ ''='') @ quote value @ []" by (auto simp: stops_def word_end_def isspace_def)
  from next_plain_blank [OF valid_name_plain [OF assms(1-3)] _ assms(4) 1(2), of ?env] obtain l2 where
    2: "sh_lexer_next plenty ?env l1 = (SH_OK, SH_TOKEN_WORD ?arg, l2)" "rest l2 = []" by (auto simp: stops_def)
  obtain f where f: "fuel = Suc (Suc (Suc f))" using assms(7) by (metis Suc_le_D numeral_3_eq_3 Suc_le_mono)
  have p: "sh_parse_line fuel plenty ?env lx = Some \<lparr>res_err = SH_OK, res_msg = None, res_pl = [\<lparr>cmd_argv = [''alias'', ?arg], redir_list = []\<rparr>]\<rparr>"
    using parse_two_words [OF 1(1) 2] f by simp
  have x: "expand_cmds fuel W st [\<lparr>cmd_argv = [''alias'', ?arg], redir_list = []\<rparr>] = Some (Some [\<lparr>cmd_argv = [''alias'', ?arg], redir_list = []\<rparr>])"
    using assms(8) by (simp add: sh_alias_expand_cmd_def expand_loop.simps)
  have a: "arg_name ?arg = name" "arg_value ?arg = value"
    using assms(1) by (auto simp: arg_name_def arg_value_def sh_valid_alias_name_def list_all_iff takeWhile_append dropWhile_append)
  obtain als where als: "sh_alias_set fuel plenty ?env (sh_aliases st) name value = Some (0, als)" using alias_set_ok [OF assms(1,6)] by blast
  have "run_line fuel W (chomp_crlf (sh_alias_print (name, value))) st = Some (Status 0, st\<lparr>sh_aliases := als\<rparr>)"
    using p x als a assms(5) by (simp add: run_line_def lx_def run_pipeline_def sh_builtin_alias_def)
  then show ?thesis using alias_set_find [OF als] by blast
qed

lemma split_word:
  assumes "list_all plain u" "u \<noteq> []" "CHR 0x00 \<notin> set v" "2 \<le> fuel"
  shows "sh_alias_split fuel plenty env (u @ quote v) = Some (Some [u @ v])"
proof -
  obtain l1 where "sh_lexer_next plenty env (sh_lexer_init (u @ quote v)) = (SH_OK, SH_TOKEN_WORD (u @ v), l1)" "rest l1 = []"
    using next_plain [OF assms(1-3), of "sh_lexer_init (u @ quote v)" "quote v" "[]" env] by (auto simp: sh_lexer_init_def stops_def)
  moreover obtain f where "fuel = Suc (Suc f)" using assms(4) by (metis Suc_le_D numeral_2_eq_2 Suc_le_mono)
  ultimately show ?thesis by (simp add: sh_alias_split_def next_eof)
qed

text \<open>A shell just started, and a world in which everything succeeds.\<close>

definition new_shell :: shell where
  "new_shell = \<lparr>sh_aliases = [], sh_environ = \<lparr>environ = None, env_owned = False, env_errno = ENONE\<rparr>,
     sh_fds = std_fds, os_cwd = ''/root'', sh_cwd = [], sh_out = []\<rparr>"

definition good_world :: world where
  "good_world = \<lparr>mem = plenty, kern = lowest_kernel, chdir = (\<lambda>_ d. Some d), getcwd = Some, env_mem = plenty\<rparr>"

theorem alias_print_roundtrip_witness:
  "\<exists>as. run_line 9 good_world (chomp_crlf (sh_alias_print (''ll'', ''ls'' @ quote '' -l''))) new_shell =
      Some (Status 0, new_shell\<lparr>sh_aliases := as\<rparr>) \<and>
    (\<forall>n. sh_alias_find as n = (if n = ''ll'' then Some (''ll'', ''ls'' @ quote '' -l'') else sh_alias_find (sh_aliases new_shell) n))"
  by (rule alias_print_roundtrip [where ws = "[''ls -l'']"])
    (use split_word [of "''ls''" "'' -l''" 9] in
      \<open>simp_all add: sh_valid_alias_name_def isspace_def quote_def good_world_def new_shell_def plain_def word_end_def\<close>)

section \<open>Expanding aliases\<close>

lemma split_loop_ends:
  "CHR 0x00 \<notin> set (rest lx) \<Longrightarrow> length (rest lx) < fuel \<Longrightarrow> split_loop fuel room env lx ws cap \<noteq> None"
proof (induction fuel arbitrary: lx ws cap)
  case (Suc fuel)
  obtain e t lx' where n: "sh_lexer_next room env lx = (e, t, lx')" by (metis prod_cases3)
  show ?case
  proof (cases "e = SH_OK \<and> (\<exists>w. t = SH_TOKEN_WORD w)")
    case True
    then obtain w where t: "e = SH_OK" "t = SH_TOKEN_WORD w" by blast
    have b: "behind lx' lx" "length (rest lx') < length (rest lx)" using next_behind [of room env lx t lx'] n t Suc.prems(1) by simp_all
    have "CHR 0x00 \<notin> set (rest lx')" using b(1) Suc.prems(1) set_mono_suffix by blast
    from Suc.IH [OF this] b(2) Suc.prems(2) show ?thesis using n t by (simp add: Let_def)
  qed (use n in \<open>auto split: sh_token.split\<close>)
qed simp

lemma alias_split_ends:
  assumes "CHR 0x00 \<notin> set v" "length v < fuel"
  shows "\<exists>r. sh_alias_split fuel room env v = Some r \<and> r \<noteq> Some []"
  using split_loop_ends [of "sh_lexer_init v" fuel room env "[]" 0] assms
  by (auto simp: sh_alias_split_def sh_lexer_init_def split: option.split)

lemma alias_find_in: "sh_alias_find as n = Some a \<Longrightarrow> a \<in> set as \<and> fst a = n"
  by (induction "as") (auto split: if_splits)

text \<open>A word at which the expansion ends: not an alias, or an alias for a command of the same name.\<close>

definition expanded :: "nat \<Rightarrow> (nat \<Rightarrow> bool) \<Rightarrow> (string \<Rightarrow> string option) \<Rightarrow> (string \<times> string) list \<Rightarrow> string \<Rightarrow> bool" where
  "expanded fuel room env as w \<longleftrightarrow>
     (case sh_alias_find as w of
        None \<Rightarrow> True
      | Some a \<Rightarrow> (\<exists>ws. sh_alias_split fuel room env (snd a) = Some (Some (w # ws))))"

lemma expand_loop_ends:
  assumes "\<forall>(n, v)\<in>set as. CHR 0x00 \<notin> set v \<and> length v < fuel"
  shows "cmd_argv cmd \<noteq> [] \<Longrightarrow> \<exists>rc ws. expand_loop left fuel room env as cmd = Some (rc, cmd\<lparr>cmd_argv := ws @ tl (cmd_argv cmd)\<rparr>) \<and>
    ws \<noteq> [] \<and> (rc = 0 \<and> expanded fuel room env as (hd ws) \<or> rc = - 1)"
proof (induction left arbitrary: cmd)
  case 0
  then show ?case
    by (subst expand_loop.simps) (auto simp: expanded_def split: option.split intro!: exI [of _ "[hd (cmd_argv cmd)]"])
next
  case (Suc left)
  have stay: "cmd = cmd\<lparr>cmd_argv := [hd (cmd_argv cmd)] @ tl (cmd_argv cmd)\<rparr>" using Suc.prems by simp
  show ?case
  proof (cases "sh_alias_find as (hd (cmd_argv cmd))")
    case None
    then have "expand_loop (Suc left) fuel room env as cmd = Some (0, cmd)" using Suc.prems by (subst expand_loop.simps) simp
    then show ?thesis using stay None by (intro exI [of _ 0] exI [of _ "[hd (cmd_argv cmd)]"]) (simp add: expanded_def)
  next
    case (Some a)
    note a = alias_find_in [OF Some]
    obtain r where r: "sh_alias_split fuel room env (snd a) = Some r" "r \<noteq> Some []"
      using alias_split_ends [of "snd a" fuel room env] assms a by (cases a) auto
    let ?n = "\<lambda>words. cmd\<lparr>cmd_argv := words @ tl (cmd_argv cmd)\<rparr>"
    have eq: "expand_loop (Suc left) fuel room env as cmd = (case r of None \<Rightarrow> Some (- 1, cmd)
        | Some words \<Rightarrow> if \<not> room ((length words + length (cmd_argv cmd)) * 8) then Some (- 1, cmd)
            else if hd words = fst a then Some (0, ?n words) else expand_loop left fuel room env as (?n words))"
      using Suc.prems Some r(1) unfolding expand_loop.simps [of "Suc left"] by (simp add: Let_def split: option.split)
    consider "expand_loop (Suc left) fuel room env as cmd = Some (- 1, cmd)"
      | words where "r = Some words" "hd words = fst a" "expand_loop (Suc left) fuel room env as cmd = Some (0, ?n words)"
      | words where "r = Some words" "expand_loop (Suc left) fuel room env as cmd = expand_loop left fuel room env as (?n words)"
      using eq by (cases r) (auto split: if_splits)
    then show ?thesis
    proof cases
      case 1
      then show ?thesis using stay by (intro exI [of _ "- 1"] exI [of _ "[hd (cmd_argv cmd)]"]) simp
    next
      case (2 words)
      then have "expanded fuel room env as (hd words)"
        using Some a r by (cases words) (auto simp: expanded_def)
      then show ?thesis using 2 r(2) by auto
    next
      case (3 words)
      then have w: "words \<noteq> []" using r(2) by auto
      obtain rc ws where i: "expand_loop left fuel room env as (?n words) = Some (rc, (?n words)\<lparr>cmd_argv := ws @ tl (cmd_argv (?n words))\<rparr>)"
        "ws \<noteq> []" "rc = 0 \<and> expanded fuel room env as (hd ws) \<or> rc = - 1" using Suc.IH [of "?n words"] w by auto
      then show ?thesis using 3(2) w by (intro exI [of _ rc] exI [of _ "ws @ tl words"]) auto
    qed
  qed
qed

text \<open>
  C18. The expansion of aliases always ends, also when aliases refer to each other in a circle. It
  replaces the first word of a command by a non-empty list of words and keeps the other words and
  the redirections. When it reports success the first word of the result needs no further
  expansion: it is not an alias, or it is an alias whose value begins with its own name.
\<close>

theorem alias_expansion_ends:
  assumes "\<forall>(n, v)\<in>set as. CHR 0x00 \<notin> set v \<and> length v < fuel" "cmd_argv cmd \<noteq> []"
  shows "\<exists>rc ws. sh_alias_expand_cmd fuel room env as cmd = Some (rc, cmd\<lparr>cmd_argv := ws @ tl (cmd_argv cmd)\<rparr>) \<and>
    ws \<noteq> [] \<and> (rc = 0 \<and> expanded fuel room env as (hd ws) \<or> rc = - 1)"
  unfolding sh_alias_expand_cmd_def using expand_loop_ends [OF assms] .

theorem alias_expansion_ends_witness:
  "let as = [(''a'', ''b x''), (''b'', ''a y'')]; cmd = \<lparr>cmd_argv = [''a'', ''z''], redir_list = []\<rparr>
   in \<exists>rc ws. sh_alias_expand_cmd 9 plenty (\<lambda>_. None) as cmd = Some (rc, cmd\<lparr>cmd_argv := ws @ tl (cmd_argv cmd)\<rparr>) \<and>
    ws \<noteq> [] \<and> (rc = 0 \<and> expanded 9 plenty (\<lambda>_. None) as (hd ws) \<or> rc = - 1)"
  unfolding Let_def by (rule alias_expansion_ends) simp_all

section \<open>The working directory\<close>

text \<open>
  The buffer \<open>cwd\<close> is filled when the shell starts an interactive session and by \<open>cd\<close>. A shell
  that runs a script or a command given by \<open>-c\<close> has it empty, so \<open>pwd\<close> prints an empty line.
\<close>

lemma pwd_before_cd:
  assumes "mem W = plenty" "sh_aliases st = []" "sh_cwd st = []"
  shows "run_line 5 W ''pwd'' st = Some (Status 0, st\<lparr>sh_out := sh_out st @ [CHR 0x0A]\<rparr>)"
proof -
  have "list_all plain ''pwd''" by (simp add: plain_def word_end_def isspace_def)
  from next_plain [OF this, of "[]" "sh_lexer_init ''pwd''" "[]" "[]" "env_of (sh_environ st)"] obtain l1 where
    1: "sh_lexer_next plenty (env_of (sh_environ st)) (sh_lexer_init ''pwd'') = (SH_OK, SH_TOKEN_WORD ''pwd'', l1)" "rest l1 = []"
    by (auto simp: sh_lexer_init_def stops_def)
  have "parse_loop 5 plenty (env_of (sh_environ st)) (sh_lexer_init ''pwd'') [] = Some (Inr ([\<lparr>cmd_argv = [''pwd''], redir_list = []\<rparr>], l1))"
    using 1 by (simp add: eval_nat_numeral parse_step_def next_eof ensure_cmd_def push_cmd_def argv_push_def set_tail_def)
  then show ?thesis using assms
    by (simp add: run_line_def sh_parse_line_def sh_pipeline_init_def sh_alias_expand_cmd_def expand_loop.simps run_pipeline_def sh_builtin_pwd_def)
qed

end
