(* ===== verification/Cc_Emit.thy ===== *)
theory Cc_Emit
  imports Prelude
begin

text \<open>
  The code emitter of the compiler, \<open>cmd/cc/emit.c\<close>, with the byte buffers of \<open>util.c\<close>. A buffer is
  its contents and its capacity; the functions that end the compiler with a message (\<open>fatal\<close>)
  return \<open>None\<close>, and running out of memory, which also ends it, is left out. An \<open>int\<close> argument is
  an \<open>int\<close>; a cast to \<open>unsigned\<close> is \<open>word_of_int\<close>. A pointer to a symbol is the position of the
  symbol in the list \<open>syms\<close> of its unit.
\<close>

section \<open>Buffers\<close>

record buf =
  data :: "byte list"
  cap :: nat

definition align_to :: "int \<Rightarrow> int \<Rightarrow> int" where
  "align_to n a = (n + a - 1) div a * a"

definition buf_init :: buf where
  "buf_init = \<lparr>data = [], cap = 256\<rparr>"

text \<open>The loop that doubles the capacity; \<open>buf_init\<close> makes it positive.\<close>

function double_cap :: "nat \<Rightarrow> nat \<Rightarrow> nat" where
  "double_cap c need = (if 0 < c \<and> c < need then double_cap (2 * c) need else c)"
  by pat_completeness auto
termination by (relation "measure (\<lambda>(c, need). need - c)") auto

declare double_cap.simps [simp del]

definition buf_grow :: "buf \<Rightarrow> nat \<Rightarrow> buf" where
  "buf_grow b need =
     (if length (data b) + need \<le> cap b then b else b\<lparr>cap := double_cap (cap b) (length (data b) + need)\<rparr>)"

definition buf_byte :: "buf \<Rightarrow> byte \<Rightarrow> buf" where
  "buf_byte b c = (let b = buf_grow b 1 in b\<lparr>data := data b @ [c]\<rparr>)"

definition buf_u32 :: "buf \<Rightarrow> 32 word \<Rightarrow> buf" where
  "buf_u32 b v =
     buf_byte (buf_byte (buf_byte (buf_byte b
       (ucast (v AND 0xff))) (ucast (drop_bit 8 v AND 0xff))) (ucast (drop_bit 16 v AND 0xff)))
       (ucast (drop_bit 24 v AND 0xff))"

definition buf_u64 :: "buf \<Rightarrow> 64 word \<Rightarrow> buf" where
  "buf_u64 b v = fold (\<lambda>i b. buf_byte b (ucast (drop_bit (i * 8) v AND 0xff))) [0..<8] b"

fun buf_pad :: "buf \<Rightarrow> nat \<Rightarrow> buf" where
  "buf_pad b 0 = b"
| "buf_pad b (Suc n) = buf_pad (buf_byte b 0) n"

definition buf_align :: "buf \<Rightarrow> nat \<Rightarrow> buf \<times> nat" where
  "buf_align b a =
     (let pad = nat (align_to (int (length (data b))) (int a) - int (length (data b)))
      in (buf_pad b pad, pad))"

section \<open>Instruction formats\<close>

abbreviation u32 :: "int \<Rightarrow> 32 word" where
  "u32 i \<equiv> word_of_int i"

definition enc_r :: "int \<Rightarrow> int \<Rightarrow> int \<Rightarrow> int \<Rightarrow> int \<Rightarrow> int \<Rightarrow> 32 word" where
  "enc_r f7 rs2 rs1 f3 rd opc =
     push_bit 25 (u32 f7) OR push_bit 20 (u32 rs2) OR push_bit 15 (u32 rs1) OR push_bit 12 (u32 f3) OR
     push_bit 7 (u32 rd) OR u32 opc"

definition enc_i :: "int \<Rightarrow> int \<Rightarrow> int \<Rightarrow> int \<Rightarrow> int \<Rightarrow> 32 word" where
  "enc_i opc rd f3 rs1 imm =
     push_bit 20 (u32 (imm AND 0xfff)) OR push_bit 15 (u32 rs1) OR push_bit 12 (u32 f3) OR
     push_bit 7 (u32 rd) OR u32 opc"

definition enc_s :: "int \<Rightarrow> int \<Rightarrow> int \<Rightarrow> int \<Rightarrow> int \<Rightarrow> 32 word" where
  "enc_s opc f3 rs1 rs2 imm =
     (let u = u32 (imm AND 0xfff)
      in push_bit 25 (drop_bit 5 u) OR push_bit 20 (u32 rs2) OR push_bit 15 (u32 rs1) OR
         push_bit 12 (u32 f3) OR push_bit 7 (u AND 0x1f) OR u32 opc)"

definition enc_b :: "int \<Rightarrow> int \<Rightarrow> int \<Rightarrow> int \<Rightarrow> int \<Rightarrow> 32 word" where
  "enc_b opc f3 rs1 rs2 imm =
     (let u = u32 imm
      in push_bit 31 (drop_bit 12 u AND 1) OR push_bit 25 (drop_bit 5 u AND 0x3f) OR
         push_bit 20 (u32 rs2) OR push_bit 15 (u32 rs1) OR push_bit 12 (u32 f3) OR
         push_bit 8 (drop_bit 1 u AND 0xf) OR push_bit 7 (drop_bit 11 u AND 1) OR u32 opc)"

definition enc_u :: "int \<Rightarrow> int \<Rightarrow> int \<Rightarrow> 32 word" where
  "enc_u opc rd imm20 = push_bit 12 (u32 (imm20 AND 0xfffff)) OR push_bit 7 (u32 rd) OR u32 opc"

definition enc_j :: "int \<Rightarrow> int \<Rightarrow> int \<Rightarrow> 32 word" where
  "enc_j opc rd imm =
     (let u = u32 imm
      in push_bit 31 (drop_bit 20 u AND 1) OR push_bit 21 (drop_bit 1 u AND 0x3ff) OR
         push_bit 20 (drop_bit 11 u AND 1) OR push_bit 12 (drop_bit 12 u AND 0xff) OR
         push_bit 7 (u32 rd) OR u32 opc)"

definition rd_of :: "32 word \<Rightarrow> 32 word" where
  "rd_of ins = drop_bit 7 ins AND 0x1f"

definition rs1_of :: "32 word \<Rightarrow> 32 word" where
  "rs1_of ins = drop_bit 15 ins AND 0x1f"

section \<open>The state of the emitter\<close>

definition R_HI20 :: int where "R_HI20 = 0"
definition R_LO12I :: int where "R_LO12I = 1"
definition R_JAL :: int where "R_JAL = 2"

record reloc =
  r_pos :: int
  r_kind :: int
  r_sym :: nat
  r_addend :: int

record emit =
  code :: buf
  fixups :: "(nat \<times> nat) list"
  relocs :: "reloc list"
  label_pos :: "int list"

definition emit32 :: "32 word \<Rightarrow> emit \<Rightarrow> emit" where
  "emit32 x st = st\<lparr>code := buf_u32 (code st) x\<rparr>"

definition reset_emit_state :: "emit \<Rightarrow> emit" where
  "reset_emit_state st = st\<lparr>code := (code st)\<lparr>data := []\<rparr>, relocs := [], fixups := [], label_pos := []\<rparr>"

section \<open>Instructions\<close>

definition X0 :: int where "X0 = 0"
definition RA :: int where "RA = 1"
definition SP :: int where "SP = 2"
definition T0 :: int where "T0 = 5"
definition T1 :: int where "T1 = 6"
definition T2 :: int where "T2 = 7"
definition S0 :: int where "S0 = 8"
definition A0 :: int where "A0 = 10"
definition A1 :: int where "A1 = 11"
definition A2 :: int where "A2 = 12"
definition T6 :: int where "T6 = 31"

text \<open>The byte \<open>(u >> (i * 8)) & 0xff\<close> of a \<open>long\<close>.\<close>

definition long_byte :: "int \<Rightarrow> nat \<Rightarrow> int" where
  "long_byte v i = uint (drop_bit (i * 8) (word_of_int v :: 64 word) AND 0xff)"

text \<open>The loop \<open>for (i = 7; i >= 0; i--)\<close> that shifts in the bytes of a constant from the top.\<close>

fun li_bytes :: "int \<Rightarrow> int \<Rightarrow> nat \<Rightarrow> emit \<Rightarrow> emit" where
  "li_bytes rd v 0 st = st"
| "li_bytes rd v (Suc i) st =
     li_bytes rd v i (emit32 (enc_i 0x13 rd 6 rd (long_byte v i)) (emit32 (enc_i 0x13 rd 1 rd 8) st))"

definition i_addi :: "int \<Rightarrow> int \<Rightarrow> int \<Rightarrow> emit \<Rightarrow> emit" where
  "i_addi rd rs imm st =
     (if imm \<ge> - 2048 \<and> imm \<le> 2047 then emit32 (enc_i 0x13 rd 0 rs imm) st
      else emit32 (enc_r 0 T6 rs 0 rd 0x33) (li_bytes T6 imm 8 (emit32 (enc_i 0x13 T6 0 X0 0) st)))"

definition i_addiw :: "int \<Rightarrow> int \<Rightarrow> int \<Rightarrow> emit \<Rightarrow> emit" where
  "i_addiw rd rs imm = emit32 (enc_i 0x1b rd 0 rs imm)"

definition i_lui :: "int \<Rightarrow> int \<Rightarrow> emit \<Rightarrow> emit" where
  "i_lui rd imm20 = emit32 (enc_u 0x37 rd imm20)"

definition i_ld :: "int \<Rightarrow> int \<Rightarrow> int \<Rightarrow> emit \<Rightarrow> emit" where
  "i_ld rd rs imm = emit32 (enc_i 0x03 rd 3 rs imm)"

definition i_sd :: "int \<Rightarrow> int \<Rightarrow> int \<Rightarrow> emit \<Rightarrow> emit" where
  "i_sd rs2 rs1 imm = emit32 (enc_s 0x23 3 rs1 rs2 imm)"

definition i_lw :: "int \<Rightarrow> int \<Rightarrow> int \<Rightarrow> emit \<Rightarrow> emit" where
  "i_lw rd rs imm = emit32 (enc_i 0x03 rd 2 rs imm)"

definition i_lwu :: "int \<Rightarrow> int \<Rightarrow> int \<Rightarrow> emit \<Rightarrow> emit" where
  "i_lwu rd rs imm = emit32 (enc_i 0x03 rd 6 rs imm)"

definition i_sw :: "int \<Rightarrow> int \<Rightarrow> int \<Rightarrow> emit \<Rightarrow> emit" where
  "i_sw rs2 rs1 imm = emit32 (enc_s 0x23 2 rs1 rs2 imm)"

definition i_lh :: "int \<Rightarrow> int \<Rightarrow> int \<Rightarrow> emit \<Rightarrow> emit" where
  "i_lh rd rs imm = emit32 (enc_i 0x03 rd 1 rs imm)"

definition i_lhu :: "int \<Rightarrow> int \<Rightarrow> int \<Rightarrow> emit \<Rightarrow> emit" where
  "i_lhu rd rs imm = emit32 (enc_i 0x03 rd 5 rs imm)"

definition i_sh :: "int \<Rightarrow> int \<Rightarrow> int \<Rightarrow> emit \<Rightarrow> emit" where
  "i_sh rs2 rs1 imm = emit32 (enc_s 0x23 1 rs1 rs2 imm)"

definition i_lb :: "int \<Rightarrow> int \<Rightarrow> int \<Rightarrow> emit \<Rightarrow> emit" where
  "i_lb rd rs imm = emit32 (enc_i 0x03 rd 0 rs imm)"

definition i_lbu :: "int \<Rightarrow> int \<Rightarrow> int \<Rightarrow> emit \<Rightarrow> emit" where
  "i_lbu rd rs imm = emit32 (enc_i 0x03 rd 4 rs imm)"

definition i_sb :: "int \<Rightarrow> int \<Rightarrow> int \<Rightarrow> emit \<Rightarrow> emit" where
  "i_sb rs2 rs1 imm = emit32 (enc_s 0x23 0 rs1 rs2 imm)"

definition i_r :: "int \<Rightarrow> int \<Rightarrow> int \<Rightarrow> int \<Rightarrow> int \<Rightarrow> emit \<Rightarrow> emit" where
  "i_r f7 f3 rd rs1 rs2 = emit32 (enc_r f7 rs2 rs1 f3 rd 0x33)"

definition i_mv :: "int \<Rightarrow> int \<Rightarrow> emit \<Rightarrow> emit" where
  "i_mv rd rs = i_addi rd rs 0"

definition i_seqz :: "int \<Rightarrow> int \<Rightarrow> emit \<Rightarrow> emit" where
  "i_seqz rd rs = emit32 (enc_i 0x13 rd 3 rs 1)"

definition i_snez :: "int \<Rightarrow> int \<Rightarrow> emit \<Rightarrow> emit" where
  "i_snez rd rs = emit32 (enc_r 0 rs X0 3 rd 0x33)"

definition i_ret :: "emit \<Rightarrow> emit" where
  "i_ret = emit32 (enc_i 0x67 X0 0 RA 0)"

definition i_ecall :: "emit \<Rightarrow> emit" where
  "i_ecall = emit32 0x00000073"

definition i_li :: "int \<Rightarrow> int \<Rightarrow> emit \<Rightarrow> emit" where
  "i_li rd val st =
     (if val \<ge> - 2048 \<and> val \<le> 2047 then emit32 (enc_i 0x13 rd 0 X0 val) st
      else if val \<ge> - 2147483648 \<and> val \<le> 2147483647 then
        let hi = drop_bit 12 (val + 0x800); lo = val - push_bit 12 hi
        in i_addiw rd rd lo (i_lui rd hi st)
      else li_bytes rd val 8 (emit32 (enc_i 0x13 rd 0 X0 0) st))"

definition i_bf :: "int \<Rightarrow> int \<Rightarrow> int \<Rightarrow> int \<Rightarrow> emit \<Rightarrow> emit" where
  "i_bf f3 rs1 rs2 imm = emit32 (enc_b 0x63 f3 rs1 rs2 imm)"

section \<open>Labels and relocations\<close>

definition new_label :: "emit \<Rightarrow> nat \<times> emit" where
  "new_label st = (length (label_pos st), st\<lparr>label_pos := label_pos st @ [- 1]\<rparr>)"

definition place_label :: "nat \<Rightarrow> emit \<Rightarrow> emit" where
  "place_label l st = st\<lparr>label_pos := (label_pos st)[l := int (length (data (code st)))]\<rparr>"

definition add_fixup :: "nat \<Rightarrow> emit \<Rightarrow> emit" where
  "add_fixup label st =
     emit32 (enc_j 0x6f X0 0) (st\<lparr>fixups := (length (data (code st)), label) # fixups st\<rparr>)"

definition jump_if_zero :: "int \<Rightarrow> nat \<Rightarrow> emit \<Rightarrow> emit" where
  "jump_if_zero reg label st = add_fixup label (i_bf 1 reg X0 8 st)"

definition jump_if_nonzero :: "int \<Rightarrow> nat \<Rightarrow> emit \<Rightarrow> emit" where
  "jump_if_nonzero reg label st = add_fixup label (i_bf 0 reg X0 8 st)"

definition jump_to :: "nat \<Rightarrow> emit \<Rightarrow> emit" where
  "jump_to label = add_fixup label"

text \<open>Four bytes of the code are overwritten with an instruction.\<close>

definition put_code :: "nat \<Rightarrow> 32 word \<Rightarrow> byte list \<Rightarrow> byte list" where
  "put_code pos ins bs =
     bs[pos := ucast (ins AND 0xff), pos + 1 := ucast (drop_bit 8 ins AND 0xff),
        pos + 2 := ucast (drop_bit 16 ins AND 0xff), pos + 3 := ucast (drop_bit 24 ins AND 0xff)]"

fun patch_loop :: "int list \<Rightarrow> (nat \<times> nat) list \<Rightarrow> byte list \<Rightarrow> byte list option" where
  "patch_loop lp [] bs = Some bs"
| "patch_loop lp ((pos, label) # fs) bs =
     (if lp ! label < 0 then None
      else let off = lp ! label - int pos
           in if off < - (2 ^ 20) \<or> off \<ge> 2 ^ 20 then None
              else patch_loop lp fs (put_code pos (enc_j 0x6f X0 off) bs))"

definition patch_fixups :: "emit \<Rightarrow> emit option" where
  "patch_fixups st =
     (case patch_loop (label_pos st) (fixups st) (data (code st)) of
        None \<Rightarrow> None
      | Some bs \<Rightarrow> Some (st\<lparr>code := (code st)\<lparr>data := bs\<rparr>, fixups := []\<rparr>))"

definition add_reloc :: "int \<Rightarrow> nat \<Rightarrow> int \<Rightarrow> emit \<Rightarrow> emit" where
  "add_reloc kind s addend st =
     st\<lparr>relocs := \<lparr>r_pos = int (length (data (code st))), r_kind = kind, r_sym = s, r_addend = addend\<rparr> # relocs st\<rparr>"

definition i_la :: "int \<Rightarrow> nat \<Rightarrow> int \<Rightarrow> emit \<Rightarrow> emit" where
  "i_la rd s addend st =
     emit32 (enc_i 0x13 rd 0 rd 0) (add_reloc R_LO12I s addend
       (emit32 (enc_u 0x37 rd 0) (add_reloc R_HI20 s addend st)))"

definition i_call_sym :: "nat \<Rightarrow> emit \<Rightarrow> emit" where
  "i_call_sym s st = emit32 (enc_j 0x6f RA 0) (add_reloc R_JAL s 0 st)"

section \<open>Words as bytes\<close>

lemma and_mask_word:
  "x AND 0xf = take_bit 4 x" "x AND 0x1f = take_bit 5 x" "x AND 0x3f = take_bit 6 x"
  "x AND 0xff = take_bit 8 x" "x AND 0x3ff = take_bit 10 x" for x :: "'a::len word"
  by (simp_all add: take_bit_eq_mask mask_eq_exp_minus_1)

definition ins_bytes :: "32 word \<Rightarrow> byte list" where
  "ins_bytes w = [ucast w, ucast (drop_bit 8 w), ucast (drop_bit 16 w), ucast (drop_bit 24 w)]"

lemma length_ins_bytes [simp]: "length (ins_bytes w) = 4"
  by (simp add: ins_bytes_def)

lemma ucast_and_255: "ucast (w AND 0xff :: 32 word) = (ucast w :: byte)"
  unfolding and_mask_word by (rule bit_word_eqI) (auto simp: bit_simps)

lemma data_buf_byte [simp]: "data (buf_byte b c) = data b @ [c]"
  by (simp add: buf_byte_def buf_grow_def Let_def)

lemma data_buf_u32 [simp]: "data (buf_u32 b w) = data b @ ins_bytes w"
  by (simp add: buf_u32_def ins_bytes_def ucast_and_255)

lemma le_bytes_word:
  "ucast (ucast w :: byte) OR push_bit 8 (ucast (ucast (drop_bit 8 w) :: byte)) OR push_bit 16 (ucast (ucast (drop_bit 16 w) :: byte)) OR
   push_bit 24 (ucast (ucast (drop_bit 24 w) :: byte)) = (w :: 32 word)"
proof (rule bit_word_eqI)
  fix n assume "n < LENGTH(32)"
  then consider "n < 8" | "8 \<le> n" "n < 16" | "16 \<le> n" "n < 24" | "24 \<le> n" "n < 32" by (simp, linarith)
  then show "bit (ucast (ucast w :: byte) OR push_bit 8 (ucast (ucast (drop_bit 8 w) :: byte)) OR
      push_bit 16 (ucast (ucast (drop_bit 16 w) :: byte)) OR push_bit 24 (ucast (ucast (drop_bit 24 w) :: byte)) :: 32 word) n = bit w n"
    by cases (auto simp: bit_simps)
qed

end
