(* ===== verification/Cc_Riscv.thy ===== *)
theory Cc_Riscv
  imports Cc_Emit "HOL-Library.Signed_Division"
begin

text \<open>
  What the code that the compiler emits does. The machine is the part of RV64 that the emitter
  uses: registers, a program counter (as an offset in the code), a memory of bytes apart from the
  code, the fetch of four bytes and the decoding of the instruction formats as the RISC-V manual gives them. It is the specification
  that the definitions of the theory Cc_Emit are compared with.
\<close>

section \<open>The machine\<close>

definition field :: "nat \<Rightarrow> nat \<Rightarrow> 32 word \<Rightarrow> int" where
  "field lo n ins = uint (take_bit n (drop_bit lo ins))"

text \<open>The immediate operands of the formats I, S, B, U and J.\<close>

definition imm_i :: "32 word \<Rightarrow> int" where
  "imm_i ins = signed_take_bit 11 (field 20 12 ins)"

definition imm_s :: "32 word \<Rightarrow> int" where
  "imm_s ins = signed_take_bit 11 (push_bit 5 (field 25 7 ins) OR field 7 5 ins)"

definition imm_b :: "32 word \<Rightarrow> int" where
  "imm_b ins = signed_take_bit 12
     (push_bit 12 (field 31 1 ins) OR push_bit 11 (field 7 1 ins) OR push_bit 5 (field 25 6 ins) OR push_bit 1 (field 8 4 ins))"

definition imm_u :: "32 word \<Rightarrow> int" where
  "imm_u ins = signed_take_bit 31 (push_bit 12 (field 12 20 ins))"

definition imm_j :: "32 word \<Rightarrow> int" where
  "imm_j ins = signed_take_bit 20
     (push_bit 20 (field 31 1 ins) OR push_bit 12 (field 12 8 ins) OR push_bit 11 (field 20 1 ins) OR push_bit 1 (field 21 10 ins))"

type_synonym regs = "int \<Rightarrow> 64 word"
type_synonym memory = "64 word \<Rightarrow> byte"

record machine =
  regs :: regs
  pc :: int
  mem :: memory

definition reg :: "machine \<Rightarrow> int \<Rightarrow> 64 word" where
  "reg m r = (if r = 0 then 0 else regs m r)"

definition set_reg :: "int \<Rightarrow> 64 word \<Rightarrow> machine \<Rightarrow> machine" where
  "set_reg r v m = (if r = 0 then m else m\<lparr>regs := (regs m)(r := v)\<rparr>)"

definition to_pc :: "int \<Rightarrow> machine \<Rightarrow> machine" where
  "to_pc p m = m\<lparr>pc := p\<rparr>"

text \<open>Numbers of \<open>n\<close> bytes in memory, least significant byte first; addresses wrap around.\<close>

fun mem_read :: "nat \<Rightarrow> 64 word \<Rightarrow> memory \<Rightarrow> int" where
  "mem_read 0 a M = 0"
| "mem_read (Suc n) a M = uint (M a) + 256 * mem_read n (a + 1) M"

fun mem_write :: "nat \<Rightarrow> 64 word \<Rightarrow> int \<Rightarrow> memory \<Rightarrow> memory" where
  "mem_write 0 a v M = M"
| "mem_write (Suc n) a v M = mem_write n (a + 1) (v div 256) (M(a := word_of_int v))"

text \<open>Arithmetic with an immediate operand and with two registers (the base set and M).\<close>

definition alu_imm :: "32 word \<Rightarrow> 64 word \<Rightarrow> 64 word option" where
  "alu_imm ins a =
     (let f3 = field 12 3 ins; imm = word_of_int (imm_i ins); sh = nat (field 20 6 ins); hi = field 26 6 ins
      in if f3 = 0 then Some (a + imm)
         else if f3 = 1 \<and> hi = 0 then Some (push_bit sh a)
         else if f3 = 2 then Some (of_bool (sint a < sint imm))
         else if f3 = 3 then Some (of_bool (a < imm))
         else if f3 = 4 then Some (a XOR imm)
         else if f3 = 5 \<and> hi = 0 then Some (drop_bit sh a)
         else if f3 = 5 \<and> hi = 16 then Some (signed_drop_bit sh a)
         else if f3 = 6 then Some (a OR imm)
         else if f3 = 7 then Some (a AND imm)
         else None)"

definition rv_div :: "64 word \<Rightarrow> 64 word \<Rightarrow> 64 word" where
  "rv_div a b = (if b = 0 then - 1 else word_of_int (sint a sdiv sint b))"

definition rv_rem :: "64 word \<Rightarrow> 64 word \<Rightarrow> 64 word" where
  "rv_rem a b = (if b = 0 then a else word_of_int (sint a smod sint b))"

definition rv_divu :: "64 word \<Rightarrow> 64 word \<Rightarrow> 64 word" where
  "rv_divu a b = (if b = 0 then - 1 else a div b)"

definition rv_remu :: "64 word \<Rightarrow> 64 word \<Rightarrow> 64 word" where
  "rv_remu a b = (if b = 0 then a else a mod b)"

definition alu :: "int \<Rightarrow> int \<Rightarrow> 64 word \<Rightarrow> 64 word \<Rightarrow> 64 word option" where
  "alu f7 f3 a b =
     (let sh = unat (take_bit 6 b)
      in if f7 = 0 then
           (if f3 = 0 then Some (a + b)
            else if f3 = 1 then Some (push_bit sh a)
            else if f3 = 2 then Some (of_bool (sint a < sint b))
            else if f3 = 3 then Some (of_bool (a < b))
            else if f3 = 4 then Some (a XOR b)
            else if f3 = 5 then Some (drop_bit sh a)
            else if f3 = 6 then Some (a OR b)
            else if f3 = 7 then Some (a AND b)
            else None)
         else if f7 = 0x20 then
           (if f3 = 0 then Some (a - b) else if f3 = 5 then Some (signed_drop_bit sh a) else None)
         else if f7 = 1 then
           (if f3 = 0 then Some (a * b)
            else if f3 = 4 then Some (rv_div a b)
            else if f3 = 5 then Some (rv_divu a b)
            else if f3 = 6 then Some (rv_rem a b)
            else if f3 = 7 then Some (rv_remu a b)
            else None)
         else None)"

definition load_mem :: "int \<Rightarrow> 64 word \<Rightarrow> memory \<Rightarrow> 64 word option" where
  "load_mem f3 a M =
     (if f3 = 0 then Some (word_of_int (signed_take_bit 7 (mem_read 1 a M)))
      else if f3 = 1 then Some (word_of_int (signed_take_bit 15 (mem_read 2 a M)))
      else if f3 = 2 then Some (word_of_int (signed_take_bit 31 (mem_read 4 a M)))
      else if f3 = 3 then Some (word_of_int (mem_read 8 a M))
      else if f3 = 4 then Some (word_of_int (mem_read 1 a M))
      else if f3 = 5 then Some (word_of_int (mem_read 2 a M))
      else if f3 = 6 then Some (word_of_int (mem_read 4 a M))
      else None)"

definition store_mem :: "int \<Rightarrow> 64 word \<Rightarrow> 64 word \<Rightarrow> memory \<Rightarrow> memory option" where
  "store_mem f3 a v M = (if 0 \<le> f3 \<and> f3 \<le> 3 then Some (mem_write (2 ^ nat f3) a (uint v) M) else None)"

text \<open>One instruction; \<open>None\<close> for those outside of the part that is described here.\<close>

definition exec :: "32 word \<Rightarrow> machine \<Rightarrow> machine option" where
  "exec ins m =
     (let opc = field 0 7 ins; rd = field 7 5 ins; f3 = field 12 3 ins; a = reg m (field 15 5 ins);
          b = reg m (field 20 5 ins); next = to_pc (pc m + 4); result = map_option (\<lambda>v. next (set_reg rd v m))
      in if opc = 0x13 then result (alu_imm ins a)
         else if opc = 0x1b \<and> f3 = 0 then result (Some (word_of_int (signed_take_bit 31 (uint (a + word_of_int (imm_i ins))))))
         else if opc = 0x33 then result (alu (field 25 7 ins) f3 a b)
         else if opc = 0x37 then result (Some (word_of_int (imm_u ins)))
         else if opc = 0x03 then result (load_mem f3 (a + word_of_int (imm_i ins)) (mem m))
         else if opc = 0x23 then map_option (\<lambda>M. next (m\<lparr>mem := M\<rparr>)) (store_mem f3 (a + word_of_int (imm_s ins)) b (mem m))
         else if opc = 0x63 \<and> f3 = 0 then Some (to_pc (pc m + (if a = b then imm_b ins else 4)) m)
         else if opc = 0x63 \<and> f3 = 1 then Some (to_pc (pc m + (if a \<noteq> b then imm_b ins else 4)) m)
         else if opc = 0x6f then Some (to_pc (pc m + imm_j ins) (set_reg rd (word_of_int (pc m + 4)) m))
         else if opc = 0x67 \<and> f3 = 0 then
           Some (to_pc (uint ((a + word_of_int (imm_i ins)) AND NOT 1)) (set_reg rd (word_of_int (pc m + 4)) m))
         else None)"

text \<open>The four bytes at a position, least significant first.\<close>

definition word_at :: "byte list \<Rightarrow> nat \<Rightarrow> 32 word" where
  "word_at bs p =
     ucast (bs ! p) OR push_bit 8 (ucast (bs ! (p + 1))) OR push_bit 16 (ucast (bs ! (p + 2))) OR
     push_bit 24 (ucast (bs ! (p + 3)))"

definition cpu_step :: "byte list \<Rightarrow> machine \<Rightarrow> machine option" where
  "cpu_step bs m = (if 0 \<le> pc m \<and> pc m + 4 \<le> int (length bs) then exec (word_at bs (nat (pc m))) m else None)"

fun steps :: "byte list \<Rightarrow> nat \<Rightarrow> machine \<Rightarrow> machine option" where
  "steps bs 0 m = Some m"
| "steps bs (Suc n) m = (case cpu_step bs m of None \<Rightarrow> None | Some m \<Rightarrow> steps bs n m)"

section \<open>Fields of the formats\<close>

lemma and_mask:
  "x AND 0xfff = take_bit 12 x" "x AND 0xfffff = take_bit 20 x" for x :: int
  by (simp_all add: take_bit_eq_mask mask_eq_exp_minus_1)

lemma bit_1_word: "bit (1 :: 32 word) n \<longleftrightarrow> n = 0"
  by (simp add: bit_1_iff)

lemmas field_bits = bit_uint_iff bit_take_bit_iff bit_drop_bit_eq comp_def bit_or_iff bit_push_bit_iff
  bit_word_of_int_iff bit_and_iff bit_1_word possible_bit_word

text \<open>Register numbers, function codes and opcodes in their ranges.\<close>

abbreviation reg_no :: "int \<Rightarrow> bool" where "reg_no r \<equiv> take_bit 5 r = r"
abbreviation fun3 :: "int \<Rightarrow> bool" where "fun3 f \<equiv> take_bit 3 f = f"
abbreviation opcode :: "int \<Rightarrow> bool" where "opcode c \<equiv> take_bit 7 c = c"

lemma reg_noI: "0 \<le> r \<Longrightarrow> r < 32 \<Longrightarrow> reg_no r"
  by (simp add: take_bit_int_eq_self)

lemma enc_i_parts:
  fixes opc rd f3 rs1 imm :: int
  defines "w \<equiv> enc_i (take_bit 7 opc) (take_bit 5 rd) (take_bit 3 f3) (take_bit 5 rs1) imm"
  shows "field 0 7 w = take_bit 7 opc" "field 7 5 w = take_bit 5 rd" "field 12 3 w = take_bit 3 f3" "field 15 5 w = take_bit 5 rs1"
    "field 20 12 w = take_bit 12 imm" "field 20 6 w = take_bit 6 imm" "field 26 6 w = take_bit 6 (drop_bit 6 imm)"
  unfolding w_def field_def enc_i_def and_mask drop_bit_0 id_apply
  by (rule bit_eqI; simp only: field_bits; rule iffI; (elim conjE disjE)?; simp)+

lemma enc_r_parts:
  fixes f7 rs2 rs1 f3 rd opc :: int
  defines "w \<equiv> enc_r (take_bit 7 f7) (take_bit 5 rs2) (take_bit 5 rs1) (take_bit 3 f3) (take_bit 5 rd) (take_bit 7 opc)"
  shows "field 0 7 w = take_bit 7 opc" "field 7 5 w = take_bit 5 rd" "field 12 3 w = take_bit 3 f3" "field 15 5 w = take_bit 5 rs1"
    "field 20 5 w = take_bit 5 rs2" "field 25 7 w = take_bit 7 f7"
  unfolding w_def field_def enc_r_def drop_bit_0 id_apply
  by (rule bit_eqI; simp only: field_bits; rule iffI; (elim conjE disjE)?; simp)+

lemma enc_u_parts:
  fixes opc rd imm :: int
  defines "w \<equiv> enc_u (take_bit 7 opc) (take_bit 5 rd) imm"
  shows "field 0 7 w = take_bit 7 opc" "field 7 5 w = take_bit 5 rd" "field 12 20 w = take_bit 20 imm"
  unfolding w_def field_def enc_u_def and_mask drop_bit_0 id_apply
  by (rule bit_eqI; simp only: field_bits; rule iffI; (elim conjE disjE)?; simp)+

lemma enc_b_parts:
  fixes opc f3 rs1 rs2 imm :: int
  defines "w \<equiv> enc_b (take_bit 7 opc) (take_bit 3 f3) (take_bit 5 rs1) (take_bit 5 rs2) imm"
  shows "field 0 7 w = take_bit 7 opc" "field 12 3 w = take_bit 3 f3" "field 15 5 w = take_bit 5 rs1" "field 20 5 w = take_bit 5 rs2"
    "field 31 1 w = take_bit 1 (drop_bit 12 imm)" "field 7 1 w = take_bit 1 (drop_bit 11 imm)"
    "field 25 6 w = take_bit 6 (drop_bit 5 imm)" "field 8 4 w = take_bit 4 (drop_bit 1 imm)"
  unfolding w_def field_def enc_b_def Let_def and_mask_word drop_bit_0 id_apply
  by (rule bit_eqI; simp only: field_bits; rule iffI; (elim conjE disjE)?; simp)+

lemma enc_s_parts:
  fixes opc f3 rs1 rs2 imm :: int
  defines "w \<equiv> enc_s (take_bit 7 opc) (take_bit 3 f3) (take_bit 5 rs1) (take_bit 5 rs2) imm"
  shows "field 0 7 w = take_bit 7 opc" "field 12 3 w = take_bit 3 f3" "field 15 5 w = take_bit 5 rs1" "field 20 5 w = take_bit 5 rs2"
    "field 7 5 w = take_bit 5 imm" "field 25 7 w = take_bit 7 (drop_bit 5 imm)"
  unfolding w_def field_def enc_s_def Let_def and_mask and_mask_word drop_bit_0 id_apply
  by (rule bit_eqI; simp only: field_bits; rule iffI; (elim conjE disjE)?; simp)+

lemma enc_j_parts:
  fixes opc rd imm :: int
  defines "w \<equiv> enc_j (take_bit 7 opc) (take_bit 5 rd) imm"
  shows "field 0 7 w = take_bit 7 opc" "field 7 5 w = take_bit 5 rd"
    "field 31 1 w = take_bit 1 (drop_bit 20 imm)" "field 12 8 w = take_bit 8 (drop_bit 12 imm)"
    "field 20 1 w = take_bit 1 (drop_bit 11 imm)" "field 21 10 w = take_bit 10 (drop_bit 1 imm)"
  unfolding w_def field_def enc_j_def Let_def and_mask_word drop_bit_0 id_apply
  by (rule bit_eqI; simp only: field_bits; rule iffI; (elim conjE disjE)?; simp)+

lemma enc_i_fields:
  assumes "opcode opc" "reg_no rd" "fun3 f3" "reg_no rs1"
  shows "field 0 7 (enc_i opc rd f3 rs1 imm) = opc" "field 7 5 (enc_i opc rd f3 rs1 imm) = rd"
    "field 12 3 (enc_i opc rd f3 rs1 imm) = f3" "field 15 5 (enc_i opc rd f3 rs1 imm) = rs1"
    "field 20 12 (enc_i opc rd f3 rs1 imm) = take_bit 12 imm" "field 20 6 (enc_i opc rd f3 rs1 imm) = take_bit 6 imm"
    "field 26 6 (enc_i opc rd f3 rs1 imm) = take_bit 6 (drop_bit 6 imm)"
  using enc_i_parts [of opc rd f3 rs1 imm] unfolding assms by blast+

lemma enc_r_fields:
  assumes "opcode opc" "reg_no rd" "fun3 f3" "reg_no rs1" "reg_no rs2" "take_bit 7 f7 = f7"
  shows "field 0 7 (enc_r f7 rs2 rs1 f3 rd opc) = opc" "field 7 5 (enc_r f7 rs2 rs1 f3 rd opc) = rd"
    "field 12 3 (enc_r f7 rs2 rs1 f3 rd opc) = f3" "field 15 5 (enc_r f7 rs2 rs1 f3 rd opc) = rs1"
    "field 20 5 (enc_r f7 rs2 rs1 f3 rd opc) = rs2" "field 25 7 (enc_r f7 rs2 rs1 f3 rd opc) = f7"
  using enc_r_parts [of f7 rs2 rs1 f3 rd opc] unfolding assms by blast+

lemma enc_u_fields:
  assumes "opcode opc" "reg_no rd"
  shows "field 0 7 (enc_u opc rd imm) = opc" "field 7 5 (enc_u opc rd imm) = rd" "field 12 20 (enc_u opc rd imm) = take_bit 20 imm"
  using enc_u_parts [of opc rd imm] unfolding assms by blast+

lemma enc_b_fields:
  assumes "opcode opc" "fun3 f3" "reg_no rs1" "reg_no rs2"
  shows "field 0 7 (enc_b opc f3 rs1 rs2 imm) = opc" "field 12 3 (enc_b opc f3 rs1 rs2 imm) = f3"
    "field 15 5 (enc_b opc f3 rs1 rs2 imm) = rs1" "field 20 5 (enc_b opc f3 rs1 rs2 imm) = rs2"
    "field 31 1 (enc_b opc f3 rs1 rs2 imm) = take_bit 1 (drop_bit 12 imm)"
    "field 7 1 (enc_b opc f3 rs1 rs2 imm) = take_bit 1 (drop_bit 11 imm)"
    "field 25 6 (enc_b opc f3 rs1 rs2 imm) = take_bit 6 (drop_bit 5 imm)"
    "field 8 4 (enc_b opc f3 rs1 rs2 imm) = take_bit 4 (drop_bit 1 imm)"
  using enc_b_parts [of opc f3 rs1 rs2 imm] unfolding assms by blast+

lemma enc_s_fields:
  assumes "opcode opc" "fun3 f3" "reg_no rs1" "reg_no rs2"
  shows "field 0 7 (enc_s opc f3 rs1 rs2 imm) = opc" "field 12 3 (enc_s opc f3 rs1 rs2 imm) = f3"
    "field 15 5 (enc_s opc f3 rs1 rs2 imm) = rs1" "field 20 5 (enc_s opc f3 rs1 rs2 imm) = rs2"
    "field 7 5 (enc_s opc f3 rs1 rs2 imm) = take_bit 5 imm" "field 25 7 (enc_s opc f3 rs1 rs2 imm) = take_bit 7 (drop_bit 5 imm)"
  using enc_s_parts [of opc f3 rs1 rs2 imm] unfolding assms by blast+

lemma enc_j_fields:
  assumes "opcode opc" "reg_no rd"
  shows "field 0 7 (enc_j opc rd imm) = opc" "field 7 5 (enc_j opc rd imm) = rd"
    "field 31 1 (enc_j opc rd imm) = take_bit 1 (drop_bit 20 imm)" "field 12 8 (enc_j opc rd imm) = take_bit 8 (drop_bit 12 imm)"
    "field 20 1 (enc_j opc rd imm) = take_bit 1 (drop_bit 11 imm)" "field 21 10 (enc_j opc rd imm) = take_bit 10 (drop_bit 1 imm)"
  using enc_j_parts [of opc rd imm] unfolding assms by blast+

section \<open>Immediate operands\<close>

lemma imm_i_enc:
  assumes "opcode opc" "reg_no rd" "fun3 f3" "reg_no rs1" "- 2048 \<le> imm" "imm < 2048"
  shows "imm_i (enc_i opc rd f3 rs1 imm) = imm"
  using assms by (simp add: imm_i_def enc_i_fields signed_take_bit_take_bit signed_take_bit_int_eq_self)

lemma imm_s_enc:
  assumes "opcode opc" "fun3 f3" "reg_no rs1" "reg_no rs2" "- 2048 \<le> imm" "imm < 2048"
  shows "imm_s (enc_s opc f3 rs1 rs2 imm) = imm"
proof -
  have "take_bit 12 (push_bit 5 (take_bit 7 (drop_bit 5 imm)) OR take_bit 5 imm) = take_bit 12 imm"
    by (rule bit_eqI) (auto simp: bit_simps)
  then have "imm_s (enc_s opc f3 rs1 rs2 imm) = signed_take_bit 11 imm"
    unfolding imm_s_def enc_s_fields [OF assms(1-4)] signed_take_bit_eq_iff_take_bit_eq by simp
  then show ?thesis using assms(5,6) by (simp add: signed_take_bit_int_eq_self)
qed

lemma imm_u_enc:
  assumes "opcode opc" "reg_no rd"
  shows "imm_u (enc_u opc rd imm) = signed_take_bit 31 (push_bit 12 imm)"
  unfolding imm_u_def enc_u_fields [OF assms] signed_take_bit_eq_iff_take_bit_eq
  by (simp add: push_bit_take_bit)

lemma imm_j_enc:
  assumes "opcode opc" "reg_no rd" "- (2 ^ 20) \<le> imm" "imm < 2 ^ 20" "even imm"
  shows "imm_j (enc_j opc rd imm) = imm"
proof -
  have "take_bit 21 (push_bit 20 (take_bit 1 (drop_bit 20 imm)) OR push_bit 12 (take_bit 8 (drop_bit 12 imm)) OR
      push_bit 11 (take_bit 1 (drop_bit 11 imm)) OR push_bit 1 (take_bit 10 (drop_bit 1 imm))) = take_bit 21 imm"
  proof (rule bit_eqI)
    fix n :: nat
    have e: "\<not> bit imm 0" using assms(5) by (simp add: bit_0)
    consider "n = 0" | "1 \<le> n" "n < 11" | "n = 11" | "12 \<le> n" "n < 20" | "n = 20" | "21 \<le> n" by linarith
    then show "bit (take_bit 21 (push_bit 20 (take_bit 1 (drop_bit 20 imm)) OR push_bit 12 (take_bit 8 (drop_bit 12 imm)) OR
        push_bit 11 (take_bit 1 (drop_bit 11 imm)) OR push_bit 1 (take_bit 10 (drop_bit 1 imm)))) n = bit (take_bit 21 imm) n"
      by cases (simp_all only: field_bits possible_bit_def, auto simp: e)
  qed
  then have "imm_j (enc_j opc rd imm) = signed_take_bit 20 imm"
    unfolding imm_j_def enc_j_fields [OF assms(1,2)] signed_take_bit_eq_iff_take_bit_eq by simp
  then show ?thesis using assms(3,4) by (simp add: signed_take_bit_int_eq_self)
qed

lemma imm_b_8: "imm_b (enc_b opc f3 rs1 rs2 8) = 8"
  if "opcode opc" "fun3 f3" "reg_no rs1" "reg_no rs2"
  unfolding imm_b_def enc_b_fields [OF that] by simp

section \<open>Single instructions\<close>

definition next_pc :: "machine \<Rightarrow> machine" where
  "next_pc m = m\<lparr>pc := pc m + 4\<rparr>"

lemma to_pc_next: "to_pc (pc m + 4) (set_reg r v m) = next_pc (set_reg r v m)"
  by (simp add: to_pc_def next_pc_def set_reg_def)

lemma exec_addi:
  assumes "reg_no rd" "reg_no rs" "- 2048 \<le> imm" "imm < 2048"
  shows "exec (enc_i 0x13 rd 0 rs imm) m = Some (next_pc (set_reg rd (reg m rs + word_of_int imm) m))"
  using assms by (simp add: exec_def alu_imm_def Let_def enc_i_fields imm_i_enc to_pc_next)

lemma exec_slli_8:
  assumes "reg_no rd" "reg_no rs"
  shows "exec (enc_i 0x13 rd 1 rs 8) m = Some (next_pc (set_reg rd (push_bit 8 (reg m rs)) m))"
  using assms by (simp add: exec_def alu_imm_def Let_def enc_i_fields to_pc_next)

lemma exec_ori:
  assumes "reg_no rd" "reg_no rs" "- 2048 \<le> imm" "imm < 2048"
  shows "exec (enc_i 0x13 rd 6 rs imm) m = Some (next_pc (set_reg rd (reg m rs OR word_of_int imm) m))"
  using assms by (simp add: exec_def alu_imm_def Let_def enc_i_fields imm_i_enc to_pc_next)

lemma exec_addiw:
  assumes "reg_no rd" "reg_no rs" "- 2048 \<le> imm" "imm < 2048"
  shows "exec (enc_i 0x1b rd 0 rs imm) m =
    Some (next_pc (set_reg rd (word_of_int (signed_take_bit 31 (uint (reg m rs + word_of_int imm)))) m))"
  using assms by (simp add: exec_def alu_imm_def Let_def enc_i_fields imm_i_enc to_pc_next)

lemma exec_add:
  assumes "reg_no rd" "reg_no rs1" "reg_no rs2"
  shows "exec (enc_r 0 rs2 rs1 0 rd 0x33) m = Some (next_pc (set_reg rd (reg m rs1 + reg m rs2) m))"
  using assms by (simp add: exec_def alu_def Let_def enc_r_fields to_pc_next)

lemma exec_lui:
  assumes "reg_no rd"
  shows "exec (enc_u 0x37 rd imm) m = Some (next_pc (set_reg rd (word_of_int (signed_take_bit 31 (push_bit 12 imm))) m))"
  using assms by (simp add: exec_def Let_def enc_u_fields imm_u_enc to_pc_next)

lemma exec_branch_8:
  assumes "reg_no rs1" "reg_no rs2"
  shows "exec (enc_b 0x63 0 rs1 rs2 8) m = Some (to_pc (pc m + (if reg m rs1 = reg m rs2 then 8 else 4)) m)"
    "exec (enc_b 0x63 1 rs1 rs2 8) m = Some (to_pc (pc m + (if reg m rs1 \<noteq> reg m rs2 then 8 else 4)) m)"
  using assms by (simp_all add: exec_def Let_def enc_b_fields imm_b_8)

lemma exec_jal:
  assumes "reg_no rd" "- (2 ^ 20) \<le> imm" "imm < 2 ^ 20" "even imm"
  shows "exec (enc_j 0x6f rd imm) m = Some (to_pc (pc m + imm) (set_reg rd (word_of_int (pc m + 4)) m))"
  using assms by (simp add: exec_def Let_def enc_j_fields imm_j_enc)

section \<open>Sequences of instructions\<close>

lemma data_emit32 [simp]: "data (code (emit32 w st)) = data (code st) @ ins_bytes w"
  by (simp add: emit32_def)

lemma emit32_other [simp]: "fixups (emit32 w st) = fixups st" "relocs (emit32 w st) = relocs st" "label_pos (emit32 w st) = label_pos st"
  by (simp_all add: emit32_def)

lemma word_at_ins: "word_at (pre @ ins_bytes w @ suf) (length pre) = w"
  by (simp add: word_at_def ins_bytes_def nth_append le_bytes_word)

lemma length_put_code [simp]: "length (put_code p w bs) = length bs"
  by (simp add: put_code_def)

lemma word_at_put_same: "p + 4 \<le> length bs \<Longrightarrow> word_at (put_code p w bs) p = w"
  by (simp add: word_at_def put_code_def nth_list_update ucast_and_255 le_bytes_word)

lemma word_at_put_other: "q + 4 \<le> p \<or> p + 4 \<le> q \<Longrightarrow> word_at (put_code p w bs) q = word_at bs q"
  by (auto simp: word_at_def put_code_def nth_list_update_neq)

lemma aligned_apart: "4 dvd (p :: nat) \<Longrightarrow> 4 dvd q \<Longrightarrow> p \<noteq> q \<Longrightarrow> q + 4 \<le> p \<or> p + 4 \<le> q"
  by presburger

lemma step_at:
  assumes "pc m = int (length pre)"
  shows "cpu_step (pre @ ins_bytes w @ suf) m = exec w m"
  using assms by (simp add: cpu_step_def word_at_ins)

fun exec_seq :: "32 word list \<Rightarrow> machine \<Rightarrow> machine option" where
  "exec_seq [] m = Some m"
| "exec_seq (w # ws) m =
     (case exec w m of None \<Rightarrow> None | Some m' \<Rightarrow> if pc m' = pc m + 4 then exec_seq ws m' else None)"

lemma exec_seq_append: "exec_seq (us @ vs) m = (case exec_seq us m of None \<Rightarrow> None | Some m \<Rightarrow> exec_seq vs m)"
  by (induction us arbitrary: m) (auto split: option.split)

lemma steps_seq:
  "exec_seq ws m = Some m' \<Longrightarrow> pc m = int (length pre) \<Longrightarrow>
   steps (pre @ concat (map ins_bytes ws) @ suf) (length ws) m = Some m'"
proof (induction ws arbitrary: pre m)
  case (Cons w ws)
  obtain m1 where 1: "exec w m = Some m1" "pc m1 = pc m + 4" "exec_seq ws m1 = Some m'"
    using Cons.prems(1) by (auto split: option.splits if_splits)
  have "steps ((pre @ ins_bytes w) @ concat (map ins_bytes ws) @ suf) (length ws) m1 = Some m'"
    using 1 Cons.prems(2) by (intro Cons.IH) simp_all
  then show ?case using 1(1) step_at [OF Cons.prems(2), of w "concat (map ins_bytes ws) @ suf"] by simp
qed simp

section \<open>Constants\<close>

text \<open>The instructions that load a constant, as a list.\<close>

fun byte_ins :: "int \<Rightarrow> int \<Rightarrow> nat \<Rightarrow> 32 word list" where
  "byte_ins rd v 0 = []"
| "byte_ins rd v (Suc i) = [enc_i 0x13 rd 1 rd 8, enc_i 0x13 rd 6 rd (long_byte v i)] @ byte_ins rd v i"

lemma data_li_bytes: "data (code (li_bytes rd v i st)) = data (code st) @ concat (map ins_bytes (byte_ins rd v i))"
  by (induction i arbitrary: st) auto

lemma li_bytes_other: "fixups (li_bytes rd v i st) = fixups st" "relocs (li_bytes rd v i st) = relocs st" "label_pos (li_bytes rd v i st) = label_pos st"
  by (induction i arbitrary: st) auto

lemma long_byte_range: "0 \<le> long_byte v i" "long_byte v i < 256"
proof -
  have "long_byte v i = take_bit 8 (uint (drop_bit (i * 8) (word_of_int v :: 64 word)))"
    unfolding long_byte_def and_mask_word by (simp add: unsigned_take_bit_eq)
  then show "0 \<le> long_byte v i" "long_byte v i < 256" using take_bit_int_less_exp [of 8] by simp_all
qed

lemma shift_in_byte:
  fixes w :: "64 word"
  assumes "w = word_of_int v" "i < 8"
  shows "push_bit 8 (drop_bit (Suc i * 8) w) OR word_of_int (long_byte v i) = drop_bit (i * 8) w"
proof (rule bit_word_eqI)
  fix n assume n: "n < LENGTH(64)"
  have l: "word_of_int (long_byte v i) = (take_bit 8 (drop_bit (i * 8) w) :: 64 word)"
    unfolding long_byte_def and_mask_word assms(1) by simp
  show "bit (push_bit 8 (drop_bit (Suc i * 8) w) OR word_of_int (long_byte v i)) n = bit (drop_bit (i * 8) w) n"
  proof (cases "n < 8")
    case True
    then show ?thesis unfolding l using n by (simp add: bit_simps)
  next
    case False
    then have "Suc i * 8 + (n - 8) = i * 8 + n" by simp
    then show ?thesis unfolding l using n False by (auto simp: bit_simps)
  qed
qed

definition load :: "int \<Rightarrow> 64 word \<Rightarrow> nat \<Rightarrow> machine \<Rightarrow> machine" where
  "load rd v n m = m\<lparr>regs := (regs m)(rd := v), pc := pc m + 4 * int n\<rparr>"

lemma load_load [simp]: "load rd v n (load rd u k m) = load rd v (k + n) m"
  by (simp add: load_def)

lemma load_next: "rd \<noteq> 0 \<Longrightarrow> next_pc (set_reg rd v m) = load rd v 1 m"
  by (simp add: load_def next_pc_def set_reg_def)

lemma reg_load [simp]: "rd \<noteq> 0 \<Longrightarrow> reg (load rd v n m) rd = v" "r \<noteq> rd \<Longrightarrow> reg (load rd v n m) r = reg m r"
  "pc (load rd v n m) = pc m + 4 * int n"
  by (simp_all add: load_def reg_def)

lemma byte_ins_run:
  assumes "reg_no rd" "rd \<noteq> 0"
  shows "i \<le> 8 \<Longrightarrow> reg m rd = drop_bit (i * 8) (word_of_int v) \<Longrightarrow>
    exec_seq (byte_ins rd v i) m = Some (if i = 0 then m else load rd (word_of_int v) (2 * i) m)"
proof (induction i arbitrary: m)
  case (Suc i)
  let ?m = "load rd (drop_bit (i * 8) (word_of_int v)) 2 m"
  have "exec_seq [enc_i 0x13 rd 1 rd 8, enc_i 0x13 rd 6 rd (long_byte v i)] m = Some ?m"
    using assms Suc.prems long_byte_range [of v i] shift_in_byte [of "word_of_int v" v i]
    by (simp add: exec_slli_8 exec_ori load_next numeral_2_eq_2)
  moreover have "exec_seq (byte_ins rd v i) ?m = Some (if i = 0 then ?m else load rd (word_of_int v) (2 * i) ?m)"
    using Suc.prems(1) assms(2) by (intro Suc.IH) simp_all
  ultimately have "exec_seq (byte_ins rd v (Suc i)) m = Some (if i = 0 then ?m else load rd (word_of_int v) (2 * i) ?m)"
    by (simp only: byte_ins.simps exec_seq_append option.case)
  then show ?case by (simp add: numeral_2_eq_2)
qed simp

fun li_ins :: "int \<Rightarrow> int \<Rightarrow> 32 word list" where
  "li_ins rd val =
     (if val \<ge> - 2048 \<and> val \<le> 2047 then [enc_i 0x13 rd 0 X0 val]
      else if val \<ge> - 2147483648 \<and> val \<le> 2147483647 then
        [enc_u 0x37 rd (drop_bit 12 (val + 0x800)), enc_i 0x1b rd 0 rd (val - push_bit 12 (drop_bit 12 (val + 0x800)))]
      else enc_i 0x13 rd 0 X0 0 # byte_ins rd val 8)"

declare li_ins.simps [simp del]

lemma data_i_li: "data (code (i_li rd val st)) = data (code st) @ concat (map ins_bytes (li_ins rd val))"
  by (simp add: i_li_def li_ins.simps Let_def i_addiw_def i_lui_def data_li_bytes)

lemma li_lo_range:
  fixes val :: int
  shows "- 2048 \<le> val - push_bit 12 (drop_bit 12 (val + 0x800))" "val - push_bit 12 (drop_bit 12 (val + 0x800)) < 2048"
proof -
  have "val - push_bit 12 (drop_bit 12 (val + 0x800)) = (val + 2048) mod 4096 - 2048"
    by (simp add: push_bit_eq_mult drop_bit_eq_div minus_div_mult_eq_mod [symmetric])
  then show "- 2048 \<le> val - push_bit 12 (drop_bit 12 (val + 0x800))" "val - push_bit 12 (drop_bit 12 (val + 0x800)) < 2048" by simp_all
qed

lemma lui_addiw:
  assumes "- 2147483648 \<le> val" "val \<le> 2147483647"
  shows "signed_take_bit 31 (uint (word_of_int (signed_take_bit 31 (push_bit 12 hi)) + word_of_int (val - push_bit 12 hi) :: 64 word)) = val"
proof -
  let ?h = "push_bit 12 hi"
  have h: "take_bit 32 (signed_take_bit 31 ?h) = take_bit 32 ?h" by (simp add: take_bit_signed_take_bit)
  have "take_bit 32 (signed_take_bit 31 ?h + (val - ?h)) = take_bit 32 (take_bit 32 (signed_take_bit 31 ?h) + take_bit 32 (val - ?h))"
    by (simp add: take_bit_add)
  also have "\<dots> = take_bit 32 (?h + (val - ?h))" unfolding h by (simp only: take_bit_add)
  finally have t: "take_bit 32 (signed_take_bit 31 ?h + (val - ?h)) = take_bit 32 val" by simp
  have "word_of_int (signed_take_bit 31 ?h) + word_of_int (val - ?h) = (word_of_int (signed_take_bit 31 ?h + (val - ?h)) :: 64 word)" by simp
  then have "signed_take_bit 31 (uint (word_of_int (signed_take_bit 31 ?h) + word_of_int (val - ?h) :: 64 word)) =
      signed_take_bit 31 (take_bit 64 (signed_take_bit 31 ?h + (val - ?h)))" by (simp only: uint_word_of_int_eq) simp
  also have "\<dots> = signed_take_bit 31 val" unfolding signed_take_bit_eq_iff_take_bit_eq using t by simp
  also have "\<dots> = val" using assms by (simp add: signed_take_bit_int_eq_self)
  finally show ?thesis .
qed

lemma li_ins_run:
  assumes "reg_no rd" "rd \<noteq> 0"
  shows "exec_seq (li_ins rd val) m = Some (load rd (word_of_int val) (length (li_ins rd val)) m)"
proof -
  have x0: "reg m X0 = 0" "reg_no X0" by (simp_all add: reg_def X0_def)
  consider "- 2048 \<le> val" "val \<le> 2047" | "\<not> (- 2048 \<le> val \<and> val \<le> 2047)" "- 2147483648 \<le> val" "val \<le> 2147483647"
    | "\<not> (- 2147483648 \<le> val \<and> val \<le> 2147483647)" by linarith
  then show ?thesis
  proof cases
    case 1
    then show ?thesis using assms x0 by (simp add: li_ins.simps exec_addi load_next)
  next
    case 2
    then have l: "li_ins rd val = [enc_u 0x37 rd (drop_bit 12 (val + 0x800)), enc_i 0x1b rd 0 rd (val - push_bit 12 (drop_bit 12 (val + 0x800)))]"
      by (simp add: li_ins.simps)
    show ?thesis unfolding l using assms li_lo_range [of val] lui_addiw [OF 2(2,3), of "drop_bit 12 (val + 0x800)"]
      by (simp add: exec_lui exec_addiw load_next)
  next
    case 3
    let ?m = "load rd 0 1 m"
    have l: "li_ins rd val = enc_i 0x13 rd 0 X0 0 # byte_ins rd val 8" using 3 by (auto simp: li_ins.simps)
    have len: "length (byte_ins rd val i) = 2 * i" for i by (induction i) auto
    have "reg ?m rd = drop_bit (8 * 8) (word_of_int val)" using assms(2) by simp
    from byte_ins_run [OF assms _ this] have "exec_seq (byte_ins rd val 8) ?m = Some (load rd (word_of_int val) 16 ?m)" by simp
    then show ?thesis unfolding l using assms x0 len by (simp add: exec_addi load_next)
  qed
qed

text \<open>
  C21. Loading a constant: for every 64-bit value and every register but \<open>x0\<close>, running the
  instructions that \<open>i_li\<close> appends, wherever they stand in the code and whatever follows them,
  puts exactly that value in the register, changes no other register and ends right behind them.
  The three forms (one \<open>addi\<close>; \<open>lui\<close> and \<open>addiw\<close>; eight times a shift and an \<open>ori\<close>) agree.
\<close>

theorem li_loads:
  assumes "0 < rd" "rd < 32" "pc m = int (length (data (code st)))"
  shows "\<exists>n. steps (data (code (i_li rd val st)) @ suf) n m =
    Some (m\<lparr>regs := (regs m)(rd := word_of_int val), pc := int (length (data (code (i_li rd val st))))\<rparr>)"
proof -
  let ?is = "li_ins rd val"
  have r: "reg_no rd" "rd \<noteq> 0" using assms reg_noI by simp_all
  have "length (concat (map ins_bytes is)) = 4 * length is" for "is" by (induction "is") auto
  then have "pc m + 4 * int (length ?is) = int (length (data (code (i_li rd val st))))" by (simp add: data_i_li assms(3))
  then have "load rd (word_of_int val) (length ?is) m =
      m\<lparr>regs := (regs m)(rd := word_of_int val), pc := int (length (data (code (i_li rd val st))))\<rparr>" by (simp add: load_def)
  then show ?thesis using steps_seq [OF li_ins_run [OF r, of val m] assms(3), of suf] by (auto simp: data_i_li)
qed

theorem li_loads_witness:
  "\<exists>n. steps (data (code (i_li 10 (- 123456789012) \<lparr>code = buf_init, fixups = [], relocs = [], label_pos = []\<rparr>)) @ []) n
      \<lparr>regs = (\<lambda>_. 7), pc = 0, mem = (\<lambda>_. 0)\<rparr> =
    Some (\<lparr>regs = (\<lambda>_. 7), pc = 0, mem = (\<lambda>_. 0)\<rparr>\<lparr>regs := (\<lambda>_. 7)(10 := word_of_int (- 123456789012)),
      pc := int (length (data (code (i_li 10 (- 123456789012) \<lparr>code = buf_init, fixups = [], relocs = [], label_pos = []\<rparr>))))\<rparr>)"
  using li_loads [of 10 "\<lparr>regs = (\<lambda>_. 7), pc = 0, mem = (\<lambda>_. 0)\<rparr>" "\<lparr>code = buf_init, fixups = [], relocs = [], label_pos = []\<rparr>" "- 123456789012" "[]"]
  by (simp add: buf_init_def)

end
