(* ===== verification/Cc_Jumps.thy ===== *)
theory Cc_Jumps
  imports Cc_Riscv
begin

text \<open>
  Jumps between labels: what the emitter keeps true of its code, its labels and its list of
  jumps to be patched, and where the patched jumps go.
\<close>

section \<open>The emitter as a transition system\<close>

inductive emits :: "emit \<Rightarrow> emit \<Rightarrow> bool" where
  ins: "emits st (emit32 w st)"
| label: "emits st (snd (new_label st))"
| place: "l < length (label_pos st) \<Longrightarrow> emits st (place_label l st)"
| fixup: "l < length (label_pos st) \<Longrightarrow> emits st (add_fixup l st)"
| reloc: "emits st (add_reloc k s a st)"

abbreviation emits_all :: "emit \<Rightarrow> emit \<Rightarrow> bool" where
  "emits_all \<equiv> emits\<^sup>*\<^sup>*"

abbreviation code_len :: "emit \<Rightarrow> nat" where
  "code_len st \<equiv> length (data (code st))"

definition fixup_ok :: "emit \<Rightarrow> nat \<times> nat \<Rightarrow> bool" where
  "fixup_ok st f \<longleftrightarrow> 4 dvd fst f \<and> fst f + 4 \<le> code_len st \<and> snd f < length (label_pos st)"

definition emit_ok :: "emit \<Rightarrow> bool" where
  "emit_ok st \<longleftrightarrow>
     4 dvd code_len st \<and>
     (\<forall>f\<in>set (fixups st). fixup_ok st f) \<and> distinct (map fst (fixups st)) \<and>
     (\<forall>x\<in>set (label_pos st). x = - 1 \<or> 0 \<le> x \<and> x \<le> int (code_len st) \<and> 4 dvd x)"

lemma emit_ok_start: "data (code st) = [] \<Longrightarrow> fixups st = [] \<Longrightarrow> label_pos st = [] \<Longrightarrow> emit_ok st"
  by (simp add: emit_ok_def)

lemma emit_ok_ins: "emit_ok st \<Longrightarrow> emit_ok (emit32 w st)"
  by (auto simp: emit_ok_def fixup_ok_def)

lemma emit_ok_fixup:
  assumes "emit_ok st" "l < length (label_pos st)"
  shows "emit_ok (add_fixup l st)"
proof -
  have "code_len st \<notin> fst ` set (fixups st)" using assms(1) by (force simp: emit_ok_def fixup_ok_def)
  then show ?thesis using assms by (auto simp: emit_ok_def fixup_ok_def add_fixup_def)
qed

lemma emits_ok: "emits st st' \<Longrightarrow> emit_ok st \<Longrightarrow> emit_ok st'"
proof (induction rule: emits.induct)
  case (label st)
  then show ?case by (auto simp: emit_ok_def fixup_ok_def new_label_def)
next
  case (place l st)
  then show ?case by (auto simp: emit_ok_def fixup_ok_def place_label_def dest!: subsetD [OF set_update_subset_insert])
next
  case (reloc st k s a)
  then show ?case by (simp add: emit_ok_def fixup_ok_def add_reloc_def)
qed (simp_all add: emit_ok_ins emit_ok_fixup)

lemma emits_all_ok: "emits_all st st' \<Longrightarrow> emit_ok st \<Longrightarrow> emit_ok st'"
  by (induction rule: rtranclp_induct) (auto intro: emits_ok)

text \<open>The code only grows, and no jump is forgotten.\<close>

lemma emits_grow: "emits st st' \<Longrightarrow> \<exists>bs. data (code st') = data (code st) @ bs \<and> set (fixups st) \<subseteq> set (fixups st')"
  by (induction rule: emits.induct) (auto simp: new_label_def place_label_def add_fixup_def add_reloc_def)

lemma emits_all_grow: "emits_all st st' \<Longrightarrow> \<exists>bs. data (code st') = data (code st) @ bs \<and> set (fixups st) \<subseteq> set (fixups st')"
proof (induction rule: rtranclp_induct)
  case (step y z)
  then show ?case using emits_grow [OF step(2)] by auto
qed simp

section \<open>Patching\<close>

lemma patch_loop_other:
  assumes "patch_loop lp fs bs = Some bs'" "4 dvd q" "\<forall>f\<in>set fs. 4 dvd fst f" "q \<notin> fst ` set fs"
  shows "length bs' = length bs \<and> word_at bs' q = word_at bs q"
  using assms
proof (induction lp fs bs rule: patch_loop.induct)
  case (2 lp pos label fs bs)
  let ?off = "lp ! label - int pos"
  have l: "patch_loop lp fs (put_code pos (enc_j 0x6f X0 ?off) bs) = Some bs'"
    and c: "\<not> lp ! label < 0" "\<not> (?off < - (2 ^ 20) \<or> ?off \<ge> 2 ^ 20)"
    using "2.prems"(1) by (auto simp: Let_def split: if_splits)
  have "length bs' = length (put_code pos (enc_j 0x6f X0 ?off) bs) \<and> word_at bs' q = word_at (put_code pos (enc_j 0x6f X0 ?off) bs) q"
    using "2.IH" [OF c(1) refl c(2) l] "2.prems"(2-4) by simp
  moreover have "word_at (put_code pos (enc_j 0x6f X0 ?off) bs) q = word_at bs q"
    using "2.prems"(2-4) aligned_apart [of pos q] by (intro word_at_put_other) auto
  ultimately show ?case by simp
qed simp

lemma patch_loop_at:
  assumes "patch_loop lp fs bs = Some bs'" "(p, l) \<in> set fs" "distinct (map fst fs)" "\<forall>f\<in>set fs. 4 dvd fst f \<and> fst f + 4 \<le> length bs"
  shows "word_at bs' p = enc_j 0x6f X0 (lp ! l - int p) \<and> 0 \<le> lp ! l \<and> - (2 ^ 20) \<le> lp ! l - int p \<and> lp ! l - int p < 2 ^ 20"
  using assms
proof (induction lp fs bs rule: patch_loop.induct)
  case (2 lp pos label fs bs)
  let ?off = "lp ! label - int pos"
  let ?bs = "put_code pos (enc_j 0x6f X0 ?off) bs"
  have l: "patch_loop lp fs ?bs = Some bs'" and c: "\<not> lp ! label < 0" "\<not> (?off < - (2 ^ 20) \<or> ?off \<ge> 2 ^ 20)"
    using "2.prems"(1) by (auto simp: Let_def split: if_splits)
  show ?case
  proof (cases "(p, l) = (pos, label)")
    case True
    then have "word_at bs' p = word_at ?bs p" using patch_loop_other [OF l, of pos] "2.prems"(3,4) by auto
    then show ?thesis using True c "2.prems"(4) word_at_put_same [of pos bs] by auto
  next
    case False
    then show ?thesis using "2.IH" [OF c(1) refl c(2) l] "2.prems"(2-4) by auto
  qed
qed simp

section \<open>Jumps\<close>

lemma patched_jump:
  assumes "emit_ok st" "patch_fixups st = Some st'" "(p, l) \<in> set (fixups st)" "pc m = int p"
  shows "cpu_step (data (code st')) m = Some (m\<lparr>pc := label_pos st ! l\<rparr>)"
proof -
  have f: "\<forall>f\<in>set (fixups st). 4 dvd fst f \<and> fst f + 4 \<le> code_len st" "l < length (label_pos st)" "distinct (map fst (fixups st))"
    using assms(1,3) by (auto simp: emit_ok_def fixup_ok_def)
  obtain bs where bs: "patch_loop (label_pos st) (fixups st) (data (code st)) = Some bs" "data (code st') = bs"
    using assms(2) by (auto simp: patch_fixups_def split: option.splits)
  note at = patch_loop_at [OF bs(1) assms(3) f(3,1)]
  have len: "length bs = code_len st"
    using patch_loop_other [OF bs(1), of "4 * (Suc (code_len st))"] f(1) by force
  have "label_pos st ! l \<in> set (label_pos st)" using f(2) by simp
  then have "4 dvd label_pos st ! l" using at assms(1) by (fastforce simp: emit_ok_def)
  moreover have "4 dvd int p" using f(1) assms(3) by (metis fst_conv int_dvd_int_iff of_nat_numeral)
  ultimately have "even (label_pos st ! l - int p)" by presburger
  moreover have "p + 4 \<le> length bs" using f(1) assms(3) len by force
  ultimately show ?thesis
    using at assms(4) bs(2) exec_jal [of 0 "label_pos st ! l - int p" m]
    by (simp add: cpu_step_def X0_def to_pc_def set_reg_def)
qed

lemma patched_other:
  assumes "emit_ok st" "patch_fixups st = Some st'" "data (code st) = pre @ ins_bytes w @ suf" "length pre \<notin> fst ` set (fixups st)"
    and "4 dvd length pre" "pc m = int (length pre)"
  shows "cpu_step (data (code st')) m = exec w m"
proof -
  obtain bs where bs: "patch_loop (label_pos st) (fixups st) (data (code st)) = Some bs" "data (code st') = bs"
    using assms(2) by (auto simp: patch_fixups_def split: option.splits)
  have "\<forall>f\<in>set (fixups st). 4 dvd fst f" using assms(1) by (auto simp: emit_ok_def fixup_ok_def)
  from patch_loop_other [OF bs(1) assms(5) this assms(4)] have "length bs = length (data (code st))" "word_at bs (length pre) = w"
    by (simp_all add: assms(3) word_at_ins)
  then show ?thesis using assms(3,6) bs(2) by (simp add: cpu_step_def)
qed

text \<open>A jump that was emitted for a state stays in every later one.\<close>

lemma later_fixup:
  assumes "emits_all (add_fixup l st) st'"
  shows "(code_len st, l) \<in> set (fixups st')"
  using emits_all_grow [OF assms] by (auto simp: add_fixup_def)

lemma emits_new_fixups: "emits st st' \<Longrightarrow> f \<in> set (fixups st') \<Longrightarrow> f \<in> set (fixups st) \<or> code_len st \<le> fst f"
  by (induction rule: emits.induct) (auto simp: new_label_def place_label_def add_fixup_def add_reloc_def)

lemma emits_all_new_fixups: "emits_all st st' \<Longrightarrow> f \<in> set (fixups st') \<Longrightarrow> f \<in> set (fixups st) \<or> code_len st \<le> fst f"
proof (induction rule: rtranclp_induct)
  case (step y z)
  then show ?case using emits_new_fixups [OF step(2), of f] emits_all_grow [OF step(1)] by auto
qed simp

lemma cond_jump:
  assumes ok: "emit_ok st" "reg_no r" "l < length (label_pos st)" and f3: "f3 = 0 \<or> f3 = 1"
    and st': "emits_all (add_fixup l (i_bf f3 r X0 8 st)) st'" "patch_fixups st' = Some st''" and pc: "pc m = int (code_len st)"
  shows "if (reg m r = 0) = (f3 = 0) then steps (data (code st'')) 1 m = Some (m\<lparr>pc := pc m + 8\<rparr>)
    else steps (data (code st'')) 2 m = Some (m\<lparr>pc := label_pos st' ! l\<rparr>)"
proof -
  let ?w = "enc_b 0x63 f3 r X0 8" and ?st = "i_bf f3 r X0 8 st"
  have "emit_ok ?st" "label_pos ?st = label_pos st" using ok(1) by (simp_all add: i_bf_def emit_ok_ins)
  then have 1: "emit_ok (add_fixup l ?st)" using ok(3) by (simp add: emit_ok_fixup)
  have ok': "emit_ok st'" using emits_all_ok [OF st'(1) 1] .
  have d: "data (code ?st) = data (code st) @ ins_bytes ?w" by (simp add: i_bf_def)
  obtain bs where bs: "data (code st') = data (code st) @ ins_bytes ?w @ ins_bytes (enc_j 0x6f X0 0) @ bs"
    using emits_all_grow [OF st'(1)] by (auto simp: add_fixup_def d)
  have "f \<in> set (fixups st') \<Longrightarrow> fst f \<noteq> code_len st" for f
    using emits_all_new_fixups [OF st'(1), of f] ok(1) by (auto simp: add_fixup_def d i_bf_def emit_ok_def fixup_ok_def)
  then have n: "code_len st \<notin> fst ` set (fixups st')" by (metis imageE)
  have "4 dvd code_len st" using ok(1) by (simp add: emit_ok_def)
  from patched_other [OF ok' st'(2) bs n this pc] have b: "cpu_step (data (code st'')) m = exec ?w m" .
  have x: "reg m X0 = 0" "reg_no X0" by (simp_all add: reg_def X0_def)
  have fx: "(code_len st + 4, l) \<in> set (fixups st')" using later_fixup [OF st'(1)] by (simp add: d)
  have j: "cpu_step (data (code st'')) (m\<lparr>pc := pc m + 4\<rparr>) = Some (m\<lparr>pc := label_pos st' ! l\<rparr>)"
    using patched_jump [OF ok' st'(2) fx, of "m\<lparr>pc := pc m + 4\<rparr>"] pc by simp
  show ?thesis
    using f3 b x j exec_branch_8 [OF ok(2) x(2), of m] by (auto simp: to_pc_def numeral_2_eq_2)
qed


text \<open>A label, a jump to it over one instruction, and the label placed.\<close>

definition no_code :: emit where
  "no_code = \<lparr>code = buf_init, fixups = [], relocs = [], label_pos = []\<rparr>"

definition skip_ret :: emit where
  "skip_ret = place_label 0 (i_ret (jump_if_zero 10 0 (snd (new_label no_code))))"

lemma skip_ret_patched: "patch_fixups skip_ret \<noteq> None"
  by (simp add: skip_ret_def no_code_def new_label_def jump_if_zero_def i_bf_def add_fixup_def i_ret_def place_label_def
      patch_fixups_def emit32_def buf_u32_def buf_init_def Let_def)


end
