(* ===== verification/Cc_Object.thy ===== *)
theory Cc_Object
  imports Cc_Emit
begin

text \<open>
  The object files of the compiler: \<open>write_object\<close> and \<open>read_object\<close> of \<open>cmd/cc/link.c\<close>. A unit is its
  code, its data, its symbols and its relocations; a pointer to a symbol is the position of the
  symbol in the list of its unit. The functions end with a value, with \<open>Fatal\<close> (the call of \<open>fatal\<close>,
  which exits) or with \<open>Fault\<close> (an overflow of a signed \<open>int\<close> or an access outside of a buffer).
  The transfer of the bytes to and from the file, and running out of memory, are left out.
\<close>

datatype 'a res = Ok 'a | Fatal | Fault

definition bind_res :: "'a res \<Rightarrow> ('a \<Rightarrow> 'b res) \<Rightarrow> 'b res" where
  "bind_res r f = (case r of Ok x \<Rightarrow> f x | Fatal \<Rightarrow> Fatal | Fault \<Rightarrow> Fault)"

lemma bind_res_simps [simp]: "bind_res (Ok x) f = f x" "bind_res Fatal f = Fatal" "bind_res Fault f = Fault"
  by (simp_all add: bind_res_def)

record data_reloc =
  d_offset :: int
  d_sym :: nat
  d_addend :: int

record sym =
  s_name :: "byte list"
  s_sec :: int
  s_offset :: int
  s_size :: int
  s_align :: int
  s_defined :: bool
  s_static :: bool
  s_addr :: "64 word"
  s_init :: "byte list option"
  s_drel :: "data_reloc list"

record comp_unit =
  u_code :: "byte list"
  u_data :: "byte list"
  u_bss_len :: int
  u_syms :: "sym list"
  u_relocs :: "reloc list"
  u_text_base :: "64 word"
  u_data_base :: "64 word"
  u_bss_base :: "64 word"

section \<open>Writing\<close>

text \<open>\<open>buf_grow\<close>, \<open>memcpy\<close> and the new length.\<close>

definition buf_bytes :: "buf \<Rightarrow> byte list \<Rightarrow> buf" where
  "buf_bytes b bs = (let b = buf_grow b (length bs) in b\<lparr>data := data b @ bs\<rparr>)"

definition flag :: "bool \<Rightarrow> byte" where
  "flag f = (if f then 1 else 0)"

text \<open>The position of a symbol in the table of \<open>n\<close> symbols.\<close>

definition sym_index :: "nat \<Rightarrow> nat \<Rightarrow> nat res" where
  "sym_index n s = (if s < n then Ok s else Fatal)"

definition write_sym :: "sym \<Rightarrow> buf \<Rightarrow> buf" where
  "write_sym s b =
     (let b = buf_u32 b (of_nat (length (s_name s)));
          b = buf_bytes b (s_name s);
          b = buf_u32 b (u32 (s_sec s));
          b = buf_u32 b (u32 (s_offset s));
          b = buf_u32 b (u32 (s_size s));
          b = buf_u32 b (u32 (s_align s));
          b = buf_byte b (flag (s_defined s))
      in buf_byte b (flag (s_static s)))"

fun write_drels :: "nat \<Rightarrow> nat \<Rightarrow> data_reloc list \<Rightarrow> buf \<Rightarrow> buf res" where
  "write_drels n i [] b = Ok b"
| "write_drels n i (d # ds) b =
     bind_res (sym_index n (d_sym d)) (\<lambda>t.
       write_drels n i ds
         (buf_u64 (buf_u32 (buf_u32 (buf_u32 b (of_nat i)) (u32 (d_offset d))) (of_nat t)) (word_of_int (d_addend d))))"

fun write_all_drels :: "nat \<Rightarrow> nat \<Rightarrow> sym list \<Rightarrow> buf \<Rightarrow> buf res" where
  "write_all_drels n i [] b = Ok b"
| "write_all_drels n i (s # ss) b = bind_res (write_drels n i (s_drel s) b) (write_all_drels n (Suc i) ss)"

fun write_relocs :: "nat \<Rightarrow> reloc list \<Rightarrow> buf \<Rightarrow> buf res" where
  "write_relocs n [] b = Ok b"
| "write_relocs n (r # rs) b =
     bind_res (sym_index n (r_sym r)) (\<lambda>t.
       write_relocs n rs
         (buf_u64 (buf_u32 (buf_u32 (buf_u32 b (u32 (r_pos r))) (u32 (r_kind r))) (of_nat t)) (word_of_int (r_addend r))))"

definition write_header :: "comp_unit \<Rightarrow> buf \<Rightarrow> buf" where
  "write_header u b =
     (let b = fold (\<lambda>c b. buf_byte b c) (bytes ''CCO1'') b;
          b = buf_u32 b 1;
          b = buf_u32 b (of_nat (length (u_code u)));
          b = buf_u32 b (of_nat (length (u_data u)));
          b = buf_u32 b (u32 (u_bss_len u));
          b = buf_u32 b (of_nat (length (u_syms u)));
          b = buf_u32 b (of_nat (length (concat (map s_drel (u_syms u)))));
          b = buf_u32 b (of_nat (length (u_relocs u)))
      in buf_bytes (buf_bytes b (u_code u)) (u_data u))"

definition write_object :: "comp_unit \<Rightarrow> byte list res" where
  "write_object u =
     (let n = length (u_syms u); b = fold write_sym (u_syms u) (write_header u buf_init)
      in bind_res (write_all_drels n 0 (u_syms u) b) (\<lambda>b.
           bind_res (write_relocs n (u_relocs u) b) (\<lambda>b. Ok (data b))))"

section \<open>Reading\<close>

record rd =
  rd_p :: "byte list"
  rd_pos :: nat

text \<open>The test \<open>r->pos + n > r->len\<close> on signed integers.\<close>

definition INT_MAX :: int where
  "INT_MAX = 2 ^ 31 - 1"

definition rd_need :: "int \<Rightarrow> rd \<Rightarrow> unit res" where
  "rd_need n r =
     (if int (rd_pos r) + n > INT_MAX then Fault
      else if int (rd_pos r) + n > int (length (rd_p r)) then Fatal else Ok ())"

definition rd_skip :: "nat \<Rightarrow> rd \<Rightarrow> rd" where
  "rd_skip n r = r\<lparr>rd_pos := rd_pos r + n\<rparr>"

definition rd_u8 :: "rd \<Rightarrow> (byte \<times> rd) res" where
  "rd_u8 r = bind_res (rd_need 1 r) (\<lambda>_. Ok (rd_p r ! rd_pos r, rd_skip 1 r))"

definition rd_u32 :: "rd \<Rightarrow> (32 word \<times> rd) res" where
  "rd_u32 r = bind_res (rd_need 4 r) (\<lambda>_.
     Ok (ucast (rd_p r ! rd_pos r) OR push_bit 8 (ucast (rd_p r ! (rd_pos r + 1))) OR
         push_bit 16 (ucast (rd_p r ! (rd_pos r + 2))) OR push_bit 24 (ucast (rd_p r ! (rd_pos r + 3))), rd_skip 4 r))"

definition rd_u64 :: "rd \<Rightarrow> (64 word \<times> rd) res" where
  "rd_u64 r = bind_res (rd_need 8 r) (\<lambda>_.
     Ok (fold (\<lambda>i v. v OR push_bit (i * 8) (ucast (rd_p r ! (rd_pos r + i)))) [0..<8] 0, rd_skip 8 r))"

definition rd_bytes :: "int \<Rightarrow> rd \<Rightarrow> (byte list \<times> rd) res" where
  "rd_bytes n r =
     (if n < 0 then Fatal
      else bind_res (rd_need n r) (\<lambda>_. Ok (take (nat n) (drop (rd_pos r) (rd_p r)), rd_skip (nat n) r)))"

text \<open>A name is the C string in the bytes read.\<close>

definition rd_name :: "rd \<Rightarrow> (byte list \<times> rd) res" where
  "rd_name r =
     bind_res (rd_u32 r) (\<lambda>(n, r).
       bind_res (rd_bytes (sint n) r) (\<lambda>(s, r). Ok (takeWhile (\<lambda>b. b \<noteq> 0) s, r)))"

definition rd_sym :: "rd \<Rightarrow> (sym \<times> rd) res" where
  "rd_sym r =
     bind_res (rd_name r) (\<lambda>(name, r).
     bind_res (rd_u32 r) (\<lambda>(sec, r).
     bind_res (rd_u32 r) (\<lambda>(off, r).
     bind_res (rd_u32 r) (\<lambda>(sz, r).
     bind_res (rd_u32 r) (\<lambda>(al, r).
     bind_res (rd_u8 r) (\<lambda>(d, r).
     bind_res (rd_u8 r) (\<lambda>(st, r).
       Ok (\<lparr>s_name = name, s_sec = sint sec, s_offset = sint off, s_size = sint sz, s_align = sint al,
            s_defined = (d \<noteq> 0), s_static = (st \<noteq> 0), s_addr = 0, s_init = None, s_drel = []\<rparr>, r))))))))"

fun rd_syms :: "nat \<Rightarrow> sym list \<Rightarrow> rd \<Rightarrow> (sym list \<times> rd) res" where
  "rd_syms 0 ss r = Ok (ss, r)"
| "rd_syms (Suc n) ss r = bind_res (rd_sym r) (\<lambda>(s, r). rd_syms n (ss @ [s]) r)"

fun rd_drels :: "nat \<Rightarrow> 32 word \<Rightarrow> sym list \<Rightarrow> rd \<Rightarrow> (sym list \<times> rd) res" where
  "rd_drels 0 nsyms ss r = Ok (ss, r)"
| "rd_drels (Suc n) nsyms ss r =
     bind_res (rd_u32 r) (\<lambda>(owner, r).
     bind_res (rd_u32 r) (\<lambda>(off, r).
     bind_res (rd_u32 r) (\<lambda>(target, r).
     bind_res (rd_u64 r) (\<lambda>(addend, r).
       if owner \<ge> nsyms \<or> target \<ge> nsyms then Fatal
       else if unat owner \<ge> length ss \<or> unat target \<ge> length ss then Fault
       else rd_drels n nsyms (ss[unat owner := (ss ! unat owner)\<lparr>s_drel :=
              \<lparr>d_offset = sint off, d_sym = unat target, d_addend = sint addend\<rparr> # s_drel (ss ! unat owner)\<rparr>]) r))))"

fun rd_relocs :: "nat \<Rightarrow> 32 word \<Rightarrow> nat \<Rightarrow> reloc list \<Rightarrow> rd \<Rightarrow> (reloc list \<times> rd) res" where
  "rd_relocs 0 nsyms n rs r = Ok (rs, r)"
| "rd_relocs (Suc k) nsyms n rs r =
     bind_res (rd_u32 r) (\<lambda>(pos, r).
     bind_res (rd_u32 r) (\<lambda>(kind, r).
     bind_res (rd_u32 r) (\<lambda>(target, r).
     bind_res (rd_u64 r) (\<lambda>(addend, r).
       if target \<ge> nsyms then Fatal
       else if unat target \<ge> n then Fault
       else rd_relocs k nsyms n (\<lparr>r_pos = sint pos, r_kind = sint kind, r_sym = unat target, r_addend = sint addend\<rparr> # rs) r))))"

definition rd_magic :: "rd \<Rightarrow> (unit \<times> rd) res" where
  "rd_magic r =
     bind_res (rd_u8 r) (\<lambda>(c1, r). if c1 \<noteq> chr CHR ''C'' then Fatal else
     bind_res (rd_u8 r) (\<lambda>(c2, r). if c2 \<noteq> chr CHR ''C'' then Fatal else
     bind_res (rd_u8 r) (\<lambda>(c3, r). if c3 \<noteq> chr CHR ''O'' then Fatal else
     bind_res (rd_u8 r) (\<lambda>(c4, r). if c4 \<noteq> chr CHR ''1'' then Fatal else
     bind_res (rd_u32 r) (\<lambda>(v, r). if v \<noteq> 1 then Fatal else Ok ((), r))))))"

text \<open>
  The loops \<open>for (i = 0; i < (int)n; i++)\<close> run \<open>nat (sint n)\<close> times. The symbol table has \<open>nsyms\<close>
  entries, of which the loop fills all or, when \<open>(int)nsyms\<close> is negative, none; a relocation that
  refers to an entry that is not filled uses a null pointer.
\<close>

definition read_object :: "byte list \<Rightarrow> comp_unit res" where
  "read_object bs =
     bind_res (rd_magic \<lparr>rd_p = bs, rd_pos = 0\<rparr>) (\<lambda>(_, r).
     bind_res (rd_u32 r) (\<lambda>(code_len, r).
     bind_res (rd_u32 r) (\<lambda>(data_len, r).
     bind_res (rd_u32 r) (\<lambda>(bss_len, r).
     bind_res (rd_u32 r) (\<lambda>(nsyms, r).
     bind_res (rd_u32 r) (\<lambda>(ndrels, r).
     bind_res (rd_u32 r) (\<lambda>(nrelocs, r).
     bind_res (rd_bytes (sint code_len) r) (\<lambda>(code, r).
     bind_res (rd_bytes (sint data_len) r) (\<lambda>(dat, r).
     bind_res (rd_syms (nat (sint nsyms)) [] r) (\<lambda>(ss, r).
     bind_res (rd_drels (nat (sint ndrels)) nsyms ss r) (\<lambda>(ss, r).
     bind_res (rd_relocs (nat (sint nrelocs)) nsyms (length ss) [] r) (\<lambda>(rs, r).
       if rd_pos r \<noteq> length (rd_p r) then Fatal
       else Ok \<lparr>u_code = code, u_data = dat, u_bss_len = sint bss_len, u_syms = ss, u_relocs = rs,
                u_text_base = 0, u_data_base = 0, u_bss_base = 0\<rparr>))))))))))))"

section \<open>The bytes of an object file\<close>

definition long_bytes :: "64 word \<Rightarrow> byte list" where
  "long_bytes w = map (\<lambda>i. ucast (drop_bit (i * 8) w)) [0..<8]"

lemma length_long_bytes [simp]: "length (long_bytes w) = 8"
  by (simp add: long_bytes_def)

lemma data_buf_u64 [simp]: "data (buf_u64 b w) = data b @ long_bytes w"
proof -
  have u: "ucast (v AND 0xff) = (ucast v :: byte)" for v :: "64 word"
    unfolding and_mask_word by (rule bit_word_eqI) (auto simp: bit_simps)
  have "data (fold (\<lambda>i b. buf_byte b (f i)) xs b) = data b @ map f xs" for f and xs :: "nat list"
    by (induction xs arbitrary: b) auto
  then show ?thesis by (simp only: buf_u64_def long_bytes_def u)
qed

lemma data_buf_bytes [simp]: "data (buf_bytes b bs) = data b @ bs"
  by (simp add: buf_bytes_def buf_grow_def Let_def)

definition sym_bytes :: "sym \<Rightarrow> byte list" where
  "sym_bytes s =
     ins_bytes (of_nat (length (s_name s))) @ s_name s @ ins_bytes (u32 (s_sec s)) @ ins_bytes (u32 (s_offset s)) @
     ins_bytes (u32 (s_size s)) @ ins_bytes (u32 (s_align s)) @ [flag (s_defined s), flag (s_static s)]"

lemma data_write_sym: "data (write_sym s b) = data b @ sym_bytes s"
  by (simp add: write_sym_def sym_bytes_def Let_def)

lemma data_write_syms: "data (fold write_sym ss b) = data b @ concat (map sym_bytes ss)"
  by (induction ss arbitrary: b) (auto simp: data_write_sym)

definition drel_bytes :: "nat \<Rightarrow> data_reloc \<Rightarrow> byte list" where
  "drel_bytes i d = ins_bytes (of_nat i) @ ins_bytes (u32 (d_offset d)) @ ins_bytes (of_nat (d_sym d)) @ long_bytes (word_of_int (d_addend d))"

lemma write_drels_ok:
  "\<forall>d\<in>set ds. d_sym d < n \<Longrightarrow> \<exists>b'. write_drels n i ds b = Ok b' \<and> data b' = data b @ concat (map (drel_bytes i) ds)"
proof (induction ds arbitrary: b)
  case (Cons d ds)
  let ?b = "buf_u64 (buf_u32 (buf_u32 (buf_u32 b (of_nat i)) (u32 (d_offset d))) (of_nat (d_sym d))) (word_of_int (d_addend d))"
  from Cons.IH [of ?b] Cons.prems show ?case by (auto simp: sym_index_def drel_bytes_def)
qed simp

fun drels_bytes :: "nat \<Rightarrow> sym list \<Rightarrow> byte list" where
  "drels_bytes i [] = []"
| "drels_bytes i (s # ss) = concat (map (drel_bytes i) (s_drel s)) @ drels_bytes (Suc i) ss"

lemma write_all_drels_ok:
  "\<forall>s\<in>set ss. \<forall>d\<in>set (s_drel s). d_sym d < n \<Longrightarrow> \<exists>b'. write_all_drels n i ss b = Ok b' \<and> data b' = data b @ drels_bytes i ss"
proof (induction ss arbitrary: i b)
  case (Cons s ss)
  obtain b1 where 1: "write_drels n i (s_drel s) b = Ok b1" "data b1 = data b @ concat (map (drel_bytes i) (s_drel s))"
    using write_drels_ok [of "s_drel s" n i b] Cons.prems by auto
  from Cons.IH [of "Suc i" b1] Cons.prems 1 show ?case by auto
qed simp

definition reloc_bytes :: "reloc \<Rightarrow> byte list" where
  "reloc_bytes r = ins_bytes (u32 (r_pos r)) @ ins_bytes (u32 (r_kind r)) @ ins_bytes (of_nat (r_sym r)) @ long_bytes (word_of_int (r_addend r))"

lemma write_relocs_ok:
  "\<forall>r\<in>set rs. r_sym r < n \<Longrightarrow> \<exists>b'. write_relocs n rs b = Ok b' \<and> data b' = data b @ concat (map reloc_bytes rs)"
proof (induction rs arbitrary: b)
  case (Cons r rs)
  let ?b = "buf_u64 (buf_u32 (buf_u32 (buf_u32 b (u32 (r_pos r))) (u32 (r_kind r))) (of_nat (r_sym r))) (word_of_int (r_addend r))"
  from Cons.IH [of ?b] Cons.prems show ?case by (auto simp: sym_index_def reloc_bytes_def)
qed simp

definition object_bytes :: "comp_unit \<Rightarrow> byte list" where
  "object_bytes u =
     bytes ''CCO1'' @ ins_bytes 1 @ ins_bytes (of_nat (length (u_code u))) @ ins_bytes (of_nat (length (u_data u))) @
     ins_bytes (u32 (u_bss_len u)) @ ins_bytes (of_nat (length (u_syms u))) @
     ins_bytes (of_nat (length (concat (map s_drel (u_syms u))))) @ ins_bytes (of_nat (length (u_relocs u))) @
     u_code u @ u_data u @ concat (map sym_bytes (u_syms u)) @ drels_bytes 0 (u_syms u) @ concat (map reloc_bytes (u_relocs u))"

definition int_ok :: "int \<Rightarrow> bool" where
  "int_ok i \<longleftrightarrow> - (2 ^ 31) \<le> i \<and> i < 2 ^ 31"

definition long_ok :: "int \<Rightarrow> bool" where
  "long_ok i \<longleftrightarrow> - (2 ^ 63) \<le> i \<and> i < 2 ^ 63"

definition sym_ok :: "nat \<Rightarrow> sym \<Rightarrow> bool" where
  "sym_ok n s \<longleftrightarrow>
     nonul (s_name s) \<and> int_ok (s_sec s) \<and> int_ok (s_offset s) \<and> int_ok (s_size s) \<and> int_ok (s_align s) \<and>
     (\<forall>d\<in>set (s_drel s). d_sym d < n \<and> int_ok (d_offset d) \<and> long_ok (d_addend d))"

definition unit_ok :: "comp_unit \<Rightarrow> bool" where
  "unit_ok u \<longleftrightarrow>
     int_ok (u_bss_len u) \<and> (\<forall>s\<in>set (u_syms u). sym_ok (length (u_syms u)) s) \<and>
     (\<forall>r\<in>set (u_relocs u). r_sym r < length (u_syms u) \<and> int_ok (r_pos r) \<and> int_ok (r_kind r) \<and> long_ok (r_addend r))"

lemma write_object_bytes:
  assumes "unit_ok u"
  shows "write_object u = Ok (object_bytes u)"
proof -
  let ?n = "length (u_syms u)" and ?b = "fold write_sym (u_syms u) (write_header u buf_init)"
  obtain b1 where 1: "write_all_drels ?n 0 (u_syms u) ?b = Ok b1" "data b1 = data ?b @ drels_bytes 0 (u_syms u)"
    using write_all_drels_ok [of "u_syms u" ?n 0 ?b] assms by (auto simp: unit_ok_def sym_ok_def)
  obtain b2 where 2: "write_relocs ?n (u_relocs u) b1 = Ok b2" "data b2 = data b1 @ concat (map reloc_bytes (u_relocs u))"
    using write_relocs_ok [of "u_relocs u" ?n b1] assms by (auto simp: unit_ok_def)
  have "data (write_header u buf_init) = bytes ''CCO1'' @ ins_bytes 1 @ ins_bytes (of_nat (length (u_code u))) @
      ins_bytes (of_nat (length (u_data u))) @ ins_bytes (u32 (u_bss_len u)) @ ins_bytes (of_nat ?n) @
      ins_bytes (of_nat (length (concat (map s_drel (u_syms u))))) @ ins_bytes (of_nat (length (u_relocs u))) @ u_code u @ u_data u"
    by (simp add: write_header_def Let_def buf_init_def)
  then show ?thesis using 1 2 by (simp add: write_object_def Let_def data_write_syms object_bytes_def)
qed

section \<open>Reading the bytes back\<close>

text \<open>A reader that has read \<open>pre\<close> and has \<open>bs\<close> before it.\<close>

definition reader :: "byte list \<Rightarrow> byte list \<Rightarrow> rd" where
  "reader pre bs = \<lparr>rd_p = pre @ bs, rd_pos = length pre\<rparr>"

definition fits :: "byte list \<Rightarrow> byte list \<Rightarrow> bool" where
  "fits pre bs \<longleftrightarrow> int (length pre + length bs) \<le> INT_MAX"

lemma fits_move [simp]: "fits (pre @ xs) bs \<longleftrightarrow> fits pre (xs @ bs)"
  by (simp add: fits_def add.assoc)

lemma skip_reader: "n = length xs \<Longrightarrow> rd_skip n (reader pre (xs @ bs)) = reader (pre @ xs) bs"
  by (simp add: rd_skip_def reader_def)

lemma need_reader: "fits pre (xs @ bs) \<Longrightarrow> rd_need (int (length xs)) (reader pre (xs @ bs)) = Ok ()"
  by (simp add: rd_need_def reader_def fits_def)

lemma read_u8: "fits pre (c # bs) \<Longrightarrow> rd_u8 (reader pre (c # bs)) = Ok (c, reader (pre @ [c]) bs)"
  using need_reader [of pre "[c]" bs] skip_reader [of 1 "[c]" pre bs] by (simp add: rd_u8_def) (simp add: reader_def)

lemma read_u32: "fits pre (ins_bytes w @ bs) \<Longrightarrow> rd_u32 (reader pre (ins_bytes w @ bs)) = Ok (w, reader (pre @ ins_bytes w) bs)"
  using need_reader [of pre "ins_bytes w" bs] skip_reader [of 4 "ins_bytes w" pre bs] le_bytes_word [of w]
  by (simp add: rd_u32_def) (simp add: reader_def ins_bytes_def nth_append)

lemma long_bytes_word:
  fixes w :: "64 word"
  shows "fold (\<lambda>i v. v OR push_bit (i * 8) (ucast (long_bytes w ! i))) [0..<8] 0 = w"
proof -
  have "bit (fold (\<lambda>i v. v OR push_bit (i * 8) (ucast (long_bytes w ! i))) [0..<k] 0 :: 64 word) n \<longleftrightarrow> n < k * 8 \<and> bit w n"
    if "k \<le> 8" for k n
    using that
  proof (induction k)
    case (Suc k)
    have "long_bytes w ! k = ucast (drop_bit (k * 8) w)" using Suc.prems by (simp add: long_bytes_def)
    then have "bit (push_bit (k * 8) (ucast (long_bytes w ! k)) :: 64 word) n \<longleftrightarrow> k * 8 \<le> n \<and> n < k * 8 + 8 \<and> bit w n"
      using Suc.prems bit_imp_le_length [of w n] by (auto simp: bit_simps)
    then show ?case using Suc by (auto simp: bit_or_iff)
  qed simp
  from this [of 8] show ?thesis by (intro bit_word_eqI) simp
qed

lemma read_u64: "fits pre (long_bytes w @ bs) \<Longrightarrow> rd_u64 (reader pre (long_bytes w @ bs)) = Ok (w, reader (pre @ long_bytes w) bs)"
proof -
  assume "fits pre (long_bytes w @ bs)"
  moreover have "fold (\<lambda>i v. v OR push_bit (i * 8) (ucast ((pre @ long_bytes w @ bs) ! (length pre + i)))) [0..<8] 0 =
      fold (\<lambda>i v. v OR push_bit (i * 8) (ucast (long_bytes w ! i))) [0..<8] (0 :: 64 word)"
    by (rule fold_cong) (auto simp: nth_append)
  ultimately show ?thesis
    using need_reader [of pre "long_bytes w" bs] skip_reader [of 8 "long_bytes w" pre bs] long_bytes_word [of w]
    by (simp add: rd_u64_def) (simp add: reader_def)
qed

lemma read_bytes:
  assumes "fits pre (xs @ bs)" "n = int (length xs)"
  shows "rd_bytes n (reader pre (xs @ bs)) = Ok (xs, reader (pre @ xs) bs)"
  using need_reader [OF assms(1)] skip_reader [of "length xs" xs pre bs] assms(2) by (simp add: rd_bytes_def) (simp add: reader_def)

lemma sint_u32: "int_ok i \<Longrightarrow> sint (u32 i) = i"
  by (simp add: int_ok_def sint_sbintrunc' signed_take_bit_int_eq_self)

lemma sint_long: "long_ok i \<Longrightarrow> sint (word_of_int i :: 64 word) = i"
  by (simp add: long_ok_def sint_sbintrunc' signed_take_bit_int_eq_self)

lemma sint_len: "int n \<le> INT_MAX \<Longrightarrow> sint (of_nat n :: 32 word) = int n"
  using sint_u32 [of "int n"] by (simp add: int_ok_def INT_MAX_def)

lemma unat_len: "int n \<le> INT_MAX \<Longrightarrow> unat (of_nat n :: 32 word) = n"
  by (simp add: INT_MAX_def unat_of_nat_small)

lemma fits_length: "fits pre (xs @ bs) \<Longrightarrow> int (length xs) \<le> INT_MAX" "fits pre bs \<Longrightarrow> int (length bs) \<le> INT_MAX"
  by (simp_all add: fits_def)

definition bare :: "sym \<Rightarrow> sym" where
  "bare s = s\<lparr>s_addr := 0, s_init := None, s_drel := []\<rparr>"

lemma read_sym:
  assumes "sym_ok n s" "fits pre (sym_bytes s @ bs)"
  shows "rd_sym (reader pre (sym_bytes s @ bs)) = Ok (bare s, reader (pre @ sym_bytes s) bs)"
proof -
  have len: "int (length (s_name s)) \<le> INT_MAX" using fits_length(2) [OF assms(2)] by (simp add: sym_bytes_def)
  have name: "takeWhile (\<lambda>b. b \<noteq> 0) (s_name s) = s_name s" using assms(1) by (auto simp: sym_ok_def nonul_def takeWhile_eq_all_conv)
  have flags: "flag f = 0 \<longleftrightarrow> \<not> f" for f by (simp add: flag_def)
  show ?thesis
    using assms sint_len [OF len] name
    by (simp add: rd_sym_def rd_name_def sym_bytes_def read_u32 read_u8 read_bytes sym_ok_def sint_u32 flags bare_def)
qed

lemma read_syms:
  "\<forall>s\<in>set ss. sym_ok n s \<Longrightarrow> fits pre (concat (map sym_bytes ss) @ bs) \<Longrightarrow>
   rd_syms (length ss) acc (reader pre (concat (map sym_bytes ss) @ bs)) =
   Ok (acc @ map bare ss, reader (pre @ concat (map sym_bytes ss)) bs)"
proof (induction ss arbitrary: acc pre)
  case (Cons s ss)
  have "rd_sym (reader pre (sym_bytes s @ concat (map sym_bytes ss) @ bs)) = Ok (bare s, reader (pre @ sym_bytes s) (concat (map sym_bytes ss) @ bs))"
    using Cons.prems by (intro read_sym [of n]) simp_all
  then show ?case using Cons.IH [of "pre @ sym_bytes s" "acc @ [bare s]"] Cons.prems by simp
qed simp

definition add_drels :: "data_reloc list \<Rightarrow> sym \<Rightarrow> sym" where
  "add_drels ds s = s\<lparr>s_drel := rev ds @ s_drel s\<rparr>"

text \<open>Indices below the number of symbols, as \<open>unsigned int\<close>.\<close>

lemma index_word:
  assumes "j < n" "int n \<le> INT_MAX"
  shows "\<not> of_nat n \<le> (of_nat j :: 32 word)" "unat (of_nat j :: 32 word) = j"
  using assms by (simp_all add: word_le_nat_alt unat_len)

lemma read_drel:
  assumes "int (length ss) \<le> INT_MAX" "i < length ss" "d_sym d < length ss" "int_ok (d_offset d)" "long_ok (d_addend d)"
    and "fits pre (drel_bytes i d @ bs)"
  shows "rd_drels (Suc k) (of_nat (length ss)) ss (reader pre (drel_bytes i d @ bs)) =
    rd_drels k (of_nat (length ss)) (ss[i := add_drels [d] (ss ! i)]) (reader (pre @ drel_bytes i d) bs)"
  using assms index_word [OF assms(2,1)] index_word [OF assms(3,1)]
  by (cases d) (simp add: drel_bytes_def read_u32 read_u64 sint_u32 sint_long add_drels_def)

lemma read_drels_one:
  assumes "int (length ss) \<le> INT_MAX" "i < length ss"
  shows "\<forall>d\<in>set ds. d_sym d < length ss \<and> int_ok (d_offset d) \<and> long_ok (d_addend d) \<Longrightarrow>
    fits pre (concat (map (drel_bytes i) ds) @ bs) \<Longrightarrow>
    rd_drels (length ds + k) (of_nat (length ss)) ss (reader pre (concat (map (drel_bytes i) ds) @ bs)) =
    rd_drels k (of_nat (length ss)) (ss[i := add_drels ds (ss ! i)]) (reader (pre @ concat (map (drel_bytes i) ds)) bs)"
  using assms
proof (induction ds arbitrary: ss pre)
  case Nil
  then show ?case by (simp add: add_drels_def)
next
  case (Cons d ds)
  let ?ss = "ss[i := add_drels [d] (ss ! i)]" and ?n = "of_nat (length ss) :: 32 word" and ?r = "concat (map (drel_bytes i) ds)"
  have "rd_drels (Suc (length ds + k)) ?n ss (reader pre (drel_bytes i d @ ?r @ bs)) =
      rd_drels (length ds + k) ?n ?ss (reader (pre @ drel_bytes i d) (?r @ bs))"
    using Cons.prems by (intro read_drel) auto
  also have "\<dots> = rd_drels k ?n (?ss[i := add_drels ds (?ss ! i)]) (reader ((pre @ drel_bytes i d) @ ?r) bs)"
    using Cons.IH [of ?ss "pre @ drel_bytes i d"] Cons.prems by simp
  also have "?ss[i := add_drels ds (?ss ! i)] = ss[i := add_drels (d # ds) (ss ! i)]"
    using Cons.prems(4) by (simp add: add_drels_def)
  finally show ?case by simp
qed

lemma read_all_drels:
  "\<forall>s\<in>set qs. sym_ok (length ps + length qs) s \<Longrightarrow> int (length ps + length qs) \<le> INT_MAX \<Longrightarrow>
   fits pre (drels_bytes (length ps) qs @ bs) \<Longrightarrow>
   rd_drels (length (concat (map s_drel qs))) (of_nat (length ps + length qs)) (ps @ map bare qs) (reader pre (drels_bytes (length ps) qs @ bs)) =
   Ok (ps @ map (\<lambda>s. add_drels (s_drel s) (bare s)) qs, reader (pre @ drels_bytes (length ps) qs) bs)"
proof (induction qs arbitrary: ps pre)
  case (Cons s qs)
  let ?ss = "ps @ map bare (s # qs)" and ?i = "length ps" and ?c = "concat (map (drel_bytes (length ps)) (s_drel s))"
  let ?k = "length (concat (map s_drel qs))" and ?d = "drels_bytes (Suc (length ps)) qs"
  have "rd_drels (length (s_drel s) + ?k) (of_nat (length ?ss)) ?ss (reader pre (?c @ ?d @ bs)) =
      rd_drels ?k (of_nat (length ?ss)) (?ss[?i := add_drels (s_drel s) (?ss ! ?i)]) (reader (pre @ ?c) (?d @ bs))"
    using Cons.prems by (intro read_drels_one) (auto simp: sym_ok_def)
  also have "?ss[?i := add_drels (s_drel s) (?ss ! ?i)] = (ps @ [add_drels (s_drel s) (bare s)]) @ map bare qs"
    by (simp add: list_update_append)
  also have "rd_drels ?k (of_nat (length ?ss)) \<dots> (reader (pre @ ?c) (?d @ bs)) =
      Ok (ps @ map (\<lambda>s. add_drels (s_drel s) (bare s)) (s # qs), reader ((pre @ ?c) @ ?d) bs)"
    using Cons.IH [of "ps @ [add_drels (s_drel s) (bare s)]" "pre @ ?c"] Cons.prems by simp
  finally show ?case by simp
qed simp

lemma read_reloc:
  assumes "r_sym r < n" "int n \<le> INT_MAX" "int_ok (r_pos r)" "int_ok (r_kind r)" "long_ok (r_addend r)" "fits pre (reloc_bytes r @ bs)"
  shows "rd_relocs (Suc k) (of_nat n) n rs (reader pre (reloc_bytes r @ bs)) =
    rd_relocs k (of_nat n) n (r # rs) (reader (pre @ reloc_bytes r) bs)"
  using assms index_word [OF assms(1,2)] by (cases r) (simp add: reloc_bytes_def read_u32 read_u64 sint_u32 sint_long)

lemma read_relocs:
  "\<forall>r\<in>set qs. r_sym r < n \<and> int_ok (r_pos r) \<and> int_ok (r_kind r) \<and> long_ok (r_addend r) \<Longrightarrow> int n \<le> INT_MAX \<Longrightarrow>
   fits pre (concat (map reloc_bytes qs) @ bs) \<Longrightarrow>
   rd_relocs (length qs) (of_nat n) n rs (reader pre (concat (map reloc_bytes qs) @ bs)) =
   Ok (rev qs @ rs, reader (pre @ concat (map reloc_bytes qs)) bs)"
proof (induction qs arbitrary: rs pre)
  case (Cons q qs)
  let ?c = "concat (map reloc_bytes qs)"
  have "rd_relocs (Suc (length qs)) (of_nat n) n rs (reader pre (reloc_bytes q @ ?c @ bs)) =
      rd_relocs (length qs) (of_nat n) n (q # rs) (reader (pre @ reloc_bytes q) (?c @ bs))"
    using Cons.prems by (intro read_reloc) auto
  then show ?case using Cons.IH [of "pre @ reloc_bytes q" "q # rs"] Cons.prems by simp
qed simp

text \<open>
  What an object file keeps of a unit: everything but the addresses, which are given when the
  program is linked, and the initial values, which are part of the data. The relocations come
  back in reverse order.
\<close>

definition object_view :: "comp_unit \<Rightarrow> comp_unit" where
  "object_view u =
     \<lparr>u_code = u_code u, u_data = u_data u, u_bss_len = u_bss_len u,
      u_syms = map (\<lambda>s. s\<lparr>s_addr := 0, s_init := None, s_drel := rev (s_drel s)\<rparr>) (u_syms u),
      u_relocs = rev (u_relocs u), u_text_base = 0, u_data_base = 0, u_bss_base = 0\<rparr>"

lemma read_magic: "fits [] (bytes ''CCO1'' @ ins_bytes 1 @ bs) \<Longrightarrow>
    rd_magic (reader [] (bytes ''CCO1'' @ ins_bytes 1 @ bs)) = Ok ((), reader (bytes ''CCO1'' @ ins_bytes 1) bs)"
  by (simp add: rd_magic_def read_u8 read_u32 fits_def)

lemma length_concat_ge:
  assumes "\<And>x. f x \<noteq> []"
  shows "length xs \<le> length (concat (map f xs))"
proof (induction xs)
  case (Cons x xs)
  have "0 < length (f x)" using assms [of x] by simp
  with Cons have "Suc (length xs) \<le> length (f x) + length (concat (map f xs))" by linarith
  then show ?case by simp
qed simp

lemma counts_fit:
  "length (u_syms u) \<le> length (concat (map sym_bytes (u_syms u)))" "length (concat (map s_drel ss)) \<le> length (drels_bytes i ss)"
  "length (u_relocs u) \<le> length (concat (map reloc_bytes (u_relocs u)))"
proof -
  show "length (u_syms u) \<le> length (concat (map sym_bytes (u_syms u)))" by (rule length_concat_ge) (simp add: sym_bytes_def)
  show "length (u_relocs u) \<le> length (concat (map reloc_bytes (u_relocs u)))" by (rule length_concat_ge) (simp add: reloc_bytes_def ins_bytes_def)
  have "length ds \<le> length (concat (map (drel_bytes i) ds))" for i ds by (rule length_concat_ge) (simp add: drel_bytes_def ins_bytes_def)
  then show "length (concat (map s_drel ss)) \<le> length (drels_bytes i ss)"
    by (induction ss arbitrary: i) (auto intro: add_mono)
qed

text \<open>
  C26. Object files round trip: \<open>write_object\<close> succeeds on every unit whose relocations refer to its
  own symbols, and reading the bytes back gives the same code, data and symbols, and the same
  relocations in reverse order, as long as the file is smaller than 2 GiB.
\<close>

theorem object_roundtrip:
  assumes "unit_ok u" "int (length (object_bytes u)) \<le> INT_MAX"
  shows "bind_res (write_object u) read_object = Ok (object_view u)"
proof -
  let ?n = "length (u_syms u)" and ?nd = "length (concat (map s_drel (u_syms u)))" and ?nr = "length (u_relocs u)"
  let ?S = "concat (map sym_bytes (u_syms u))" and ?D = "drels_bytes 0 (u_syms u)" and ?R = "concat (map reloc_bytes (u_relocs u))"
  define H where "H = bytes ''CCO1'' @ ins_bytes 1"
  define L where "L = ins_bytes (of_nat (length (u_code u))) @ ins_bytes (of_nat (length (u_data u))) @
     ins_bytes (u32 (u_bss_len u)) @ ins_bytes (of_nat ?n) @ ins_bytes (of_nat ?nd) @ ins_bytes (of_nat ?nr)"
  have ob: "object_bytes u = H @ L @ u_code u @ u_data u @ ?S @ ?D @ ?R" by (simp add: object_bytes_def H_def L_def)
  have fit: "fits [] (H @ L @ u_code u @ u_data u @ ?S @ ?D @ ?R)" using assms(2) by (simp add: ob fits_def)
  note len = counts_fit(1,3) [of u] counts_fit(2) [of "u_syms u" 0]
  have n: "int ?n \<le> INT_MAX" "int ?nd \<le> INT_MAX" "int ?nr \<le> INT_MAX" "int (length (u_code u)) \<le> INT_MAX" "int (length (u_data u)) \<le> INT_MAX"
    using fit len by (simp_all add: fits_def)
  have S: "rd_syms ?n [] (reader pre (?S @ bs)) = Ok (map bare (u_syms u), reader (pre @ ?S) bs)" if "fits pre (?S @ bs)" for pre bs
    using read_syms [of "u_syms u" ?n pre bs "[]"] that assms(1) by (simp add: unit_ok_def)
  have D: "rd_drels ?nd (of_nat ?n) (map bare (u_syms u)) (reader pre (?D @ bs)) =
      Ok (u_syms (object_view u), reader (pre @ ?D) bs)" if "fits pre (?D @ bs)" for pre bs
    using read_all_drels [of "u_syms u" "[]" pre bs] that assms(1) n(1)
    by (simp add: unit_ok_def object_view_def add_drels_def bare_def)
  have R: "rd_relocs ?nr (of_nat ?n) ?n [] (reader pre ?R) = Ok (rev (u_relocs u), reader (pre @ ?R) [])" if "fits pre ?R" for pre
    using read_relocs [of "u_relocs u" ?n pre "[]" "[]"] that assms(1) n(1) by (simp add: unit_ok_def)
  have M: "rd_magic (reader [] (H @ bs)) = Ok ((), reader H bs)" if "fits [] (H @ bs)" for bs
    using read_magic [of bs] that by (simp add: H_def)
  have fit': "fits H (L @ u_code u @ u_data u @ ?S @ ?D @ ?R)" using fit fits_move [of "[]" H] by simp
  have vs: "length (u_syms (object_view u)) = ?n" by (simp add: object_view_def)
  have "read_object (object_bytes u) = Ok (object_view u)"
    using fit fit' n assms(1) vs
    by (simp add: read_object_def ob reader_def [of "[]", simplified, symmetric] M L_def read_u32 read_bytes sint_len S D R unit_ok_def sint_u32)
      (simp add: reader_def object_view_def)
  then show ?thesis using write_object_bytes [OF assms(1)] by simp
qed

theorem object_roundtrip_witness:
  "let u = \<lparr>u_code = [0x67, 0x80, 0, 0], u_data = [1, 2, 3, 4, 0, 0, 0, 0], u_bss_len = 16,
       u_syms = [\<lparr>s_name = bytes ''main'', s_sec = 0, s_offset = 0, s_size = 4, s_align = 4, s_defined = True, s_static = False,
                  s_addr = 0, s_init = None, s_drel = []\<rparr>,
                 \<lparr>s_name = bytes ''p'', s_sec = 1, s_offset = 0, s_size = 8, s_align = 8, s_defined = True, s_static = True,
                  s_addr = 0, s_init = None, s_drel = [\<lparr>d_offset = 0, d_sym = 0, d_addend = - 4\<rparr>]\<rparr>],
       u_relocs = [\<lparr>r_pos = 0, r_kind = R_JAL, r_sym = 1, r_addend = 0\<rparr>], u_text_base = 0, u_data_base = 0, u_bss_base = 0\<rparr>
   in bind_res (write_object u) read_object = Ok (object_view u)"
  unfolding Let_def
  by (rule object_roundtrip)
    (simp_all add: unit_ok_def sym_ok_def int_ok_def long_ok_def R_JAL_def object_bytes_def sym_bytes_def reloc_bytes_def drel_bytes_def INT_MAX_def)

end
