(* ===== verification/Cc_Link.thy ===== *)
theory Cc_Link
  imports Cc_Object Cc_Riscv
begin

text \<open>
  The linker of the compiler, the rest of \<open>cmd/cc/link.c\<close>: the layout of a unit, the resolution of
  symbols, the relocations and the executable file. A pointer to a symbol of the whole program
  is a pair of the position of its unit and its position there. \<open>link_and_write\<close> is modelled from
  the list of units on, the run-time unit and the start unit (made by the code generator)
  included, up to the bytes of the file. Offsets are mathematical integers; a program that does
  not fit in 2 GiB, for which the casts to \<open>int\<close> lose bits, is a \<open>Fault\<close>.
\<close>

section \<open>A unit\<close>

definition SEC_TEXT :: int where "SEC_TEXT = 0"
definition SEC_DATA :: int where "SEC_DATA = 1"
definition SEC_BSS :: int where "SEC_BSS = 2"

definition in_sec :: "int \<Rightarrow> sym \<Rightarrow> bool" where
  "in_sec sec s \<longleftrightarrow> s_defined s \<and> s_sec s = sec"

fun place_syms :: "int \<Rightarrow> int \<Rightarrow> sym list \<Rightarrow> sym list \<times> int" where
  "place_syms sec off [] = ([], off)"
| "place_syms sec off (s # ss) =
     (if \<not> in_sec sec s then (case place_syms sec off ss of (ss, off) \<Rightarrow> (s # ss, off))
      else let off = align_to off (s_align s)
           in case place_syms sec (off + s_size s) ss of (ss, end) \<Rightarrow> (s\<lparr>s_offset := off\<rparr> # ss, end))"

definition put_data :: "sym \<Rightarrow> buf \<Rightarrow> buf" where
  "put_data s b =
     (if \<not> in_sec SEC_DATA s then b
      else let b = fst (buf_align b (nat (s_align s)))
           in case s_init s of
                Some bs \<Rightarrow> if s_size s > 0 then buf_bytes b (take (nat (s_size s)) bs) else buf_pad b (nat (s_size s))
              | None \<Rightarrow> buf_pad b (nat (s_size s)))"

definition finalize_unit :: "emit \<Rightarrow> sym list \<Rightarrow> comp_unit" where
  "finalize_unit st syms =
     (let (syms, _) = place_syms SEC_DATA 0 syms;
          dat = fold put_data syms buf_init;
          (syms, bss) = place_syms SEC_BSS 0 syms
      in \<lparr>u_code = data (code st), u_data = data dat, u_bss_len = bss, u_syms = syms, u_relocs = relocs st,
          u_text_base = 0, u_data_base = 0, u_bss_base = 0\<rparr>)"

section \<open>Symbols\<close>

type_synonym sym_ref = "nat \<times> nat"

definition the_sym :: "comp_unit list \<Rightarrow> sym_ref \<Rightarrow> sym" where
  "the_sym us p = u_syms (us ! fst p) ! snd p"

fun link_find :: "(byte list \<times> sym_ref) list \<Rightarrow> byte list \<Rightarrow> sym_ref option" where
  "link_find [] name = None"
| "link_find ((n, p) # ls) name = (if n = name then Some p else link_find ls name)"

definition link_define :: "sym \<Rightarrow> sym_ref \<Rightarrow> (byte list \<times> sym_ref) list \<Rightarrow> (byte list \<times> sym_ref) list res" where
  "link_define s p ls =
     (if \<not> s_defined s \<or> s_static s then Ok ls
      else if link_find ls (s_name s) \<noteq> None then Fatal
      else Ok ((s_name s, p) # ls))"

fun define_syms :: "nat \<Rightarrow> nat \<Rightarrow> sym list \<Rightarrow> (byte list \<times> sym_ref) list \<Rightarrow> (byte list \<times> sym_ref) list res" where
  "define_syms k i [] ls = Ok ls"
| "define_syms k i (s # ss) ls = bind_res (link_define s (k, i) ls) (define_syms k (Suc i) ss)"

fun define_units :: "nat \<Rightarrow> comp_unit list \<Rightarrow> (byte list \<times> sym_ref) list \<Rightarrow> (byte list \<times> sym_ref) list res" where
  "define_units k [] ls = Ok ls"
| "define_units k (u # us) ls = bind_res (define_syms k 0 (u_syms u) ls) (define_units (Suc k) us)"

definition resolve_sym :: "comp_unit list \<Rightarrow> (byte list \<times> sym_ref) list \<Rightarrow> sym_ref \<Rightarrow> 64 word res" where
  "resolve_sym us ls p =
     (let s = the_sym us p
      in if s_defined s then Ok (s_addr s)
         else case link_find ls (s_name s) of None \<Rightarrow> Fatal | Some q \<Rightarrow> Ok (s_addr (the_sym us q)))"

section \<open>Relocations\<close>

definition reloc_ins :: "int \<Rightarrow> 64 word \<Rightarrow> 64 word \<Rightarrow> 32 word \<Rightarrow> 32 word res" where
  "reloc_ins kind target pos_abs old =
     (if kind = R_HI20 then
        let hi = drop_bit 12 (target + 0x800) in Ok (enc_u 0x37 (uint (rd_of old)) (uint hi))
      else if kind = R_LO12I then
        let lo = uint (target AND 0xfff); lo = (if lo AND 0x800 \<noteq> 0 then lo - 0x1000 else lo)
        in Ok (enc_i 0x13 (uint (rd_of old)) 0 (uint (rs1_of old)) lo)
      else if kind = R_JAL then
        let off = sint target - sint pos_abs
        in if odd off then Fatal
           else if off < - (2 ^ 20) \<or> off \<ge> 2 ^ 20 then Fatal
           else Ok (enc_j 0x6f (uint (rd_of old)) off)
      else Fatal)"

text \<open>The relocations of the code of the \<open>k\<close>-th unit, whose code starts at the address \<open>base\<close>.\<close>

fun patch_code :: "comp_unit list \<Rightarrow> (byte list \<times> sym_ref) list \<Rightarrow> nat \<Rightarrow> 64 word \<Rightarrow> reloc list \<Rightarrow> byte list \<Rightarrow> byte list res" where
  "patch_code us ls k base [] bs = Ok bs"
| "patch_code us ls k base (r # rs) bs =
     bind_res (resolve_sym us ls (k, r_sym r)) (\<lambda>addr.
       if r_pos r < 0 \<or> r_pos r + 4 > int (length bs) then Fault
       else let p = nat (r_pos r)
            in bind_res (reloc_ins (r_kind r) (addr + word_of_int (r_addend r)) (base + of_nat p) (word_at bs p)) (\<lambda>ins.
                 patch_code us ls k base rs (put_code p ins bs)))"

definition put64 :: "nat \<Rightarrow> 64 word \<Rightarrow> byte list \<Rightarrow> byte list" where
  "put64 p v bs = fold (\<lambda>i bs. bs[p + i := ucast (drop_bit (i * 8) v AND 0xff)]) [0..<8] bs"

definition put32 :: "nat \<Rightarrow> 64 word \<Rightarrow> byte list \<Rightarrow> byte list" where
  "put32 p v bs =
     bs[p := ucast (v AND 0xff), p + 1 := ucast (drop_bit 8 v AND 0xff), p + 2 := ucast (drop_bit 16 v AND 0xff),
        p + 3 := ucast (drop_bit 24 v AND 0xff)]"

definition put16 :: "nat \<Rightarrow> 32 word \<Rightarrow> byte list \<Rightarrow> byte list" where
  "put16 p v bs = bs[p := ucast (v AND 0xff), p + 1 := ucast (drop_bit 8 v AND 0xff)]"

fun patch_drels :: "comp_unit list \<Rightarrow> (byte list \<times> sym_ref) list \<Rightarrow> nat \<Rightarrow> int \<Rightarrow> data_reloc list \<Rightarrow> byte list \<Rightarrow> byte list res" where
  "patch_drels us ls k off [] bs = Ok bs"
| "patch_drels us ls k off (d # ds) bs =
     bind_res (resolve_sym us ls (k, d_sym d)) (\<lambda>addr.
       let at = off + d_offset d
       in if at + 8 > int (length bs) then Fatal
          else if at < 0 then Fault
          else patch_drels us ls k off ds (put64 (nat at) (addr + word_of_int (d_addend d)) bs))"

fun patch_data :: "comp_unit list \<Rightarrow> (byte list \<times> sym_ref) list \<Rightarrow> nat \<Rightarrow> sym list \<Rightarrow> byte list \<Rightarrow> byte list res" where
  "patch_data us ls k [] bs = Ok bs"
| "patch_data us ls k (s # ss) bs =
     bind_res (if in_sec SEC_DATA s then patch_drels us ls k (s_offset s) (s_drel s) bs else Ok bs) (patch_data us ls k ss)"

definition patch_unit_relocs ::
  "comp_unit list \<Rightarrow> (byte list \<times> sym_ref) list \<Rightarrow> 64 word \<Rightarrow> nat \<Rightarrow> comp_unit \<Rightarrow> comp_unit res"
where
  "patch_unit_relocs us ls text_section_base k u =
     bind_res (patch_code us ls k (text_section_base + u_text_base u) (u_relocs u) (u_code u)) (\<lambda>code.
     bind_res (patch_data us ls k (u_syms u) (u_data u)) (\<lambda>dat. Ok (u\<lparr>u_code := code, u_data := dat\<rparr>)))"

section \<open>The program\<close>

definition USER_BASE :: int where "USER_BASE = 0x10000"
definition TEXT_FILE_OFF :: int where "TEXT_FILE_OFF = 0x1000"
definition EM_RISCV :: "32 word" where "EM_RISCV = 243"

text \<open>Where parts of the given lengths go, each at a multiple of 16, and the end of the last.\<close>

fun lay_out :: "int \<Rightarrow> int list \<Rightarrow> int list \<times> int" where
  "lay_out off [] = ([], off)"
| "lay_out off (n # ns) =
     (let off = align_to off 16 in case lay_out (off + n) ns of (bs, end) \<Rightarrow> (off # bs, end))"

record layout =
  l_text :: "int list"
  l_data :: "int list"
  l_bss :: "int list"
  l_text_off :: int
  l_data_off :: int
  l_bss_off :: int

definition layout_of :: "comp_unit list \<Rightarrow> layout" where
  "layout_of us =
     (case lay_out 0 (map (\<lambda>u. int (length (u_code u))) us) of (tb, t) \<Rightarrow>
      case lay_out 0 (map (\<lambda>u. int (length (u_data u))) us) of (db, d) \<Rightarrow>
      case lay_out 0 (map u_bss_len us) of (bb, b) \<Rightarrow>
        \<lparr>l_text = tb, l_data = db, l_bss = bb, l_text_off = t, l_data_off = d, l_bss_off = b\<rparr>)"

definition text_section :: int where
  "text_section = USER_BASE + TEXT_FILE_OFF"

definition data_section :: "layout \<Rightarrow> int" where
  "data_section l = align_to (text_section + l_text_off l) 16"

definition bss_section :: "layout \<Rightarrow> int" where
  "bss_section l = align_to (data_section l + l_data_off l) 16"

definition set_bases :: "layout \<Rightarrow> nat \<Rightarrow> comp_unit \<Rightarrow> comp_unit" where
  "set_bases l k u = u\<lparr>u_text_base := word_of_int (l_text l ! k), u_data_base := word_of_int (l_data l ! k),
     u_bss_base := word_of_int (l_bss l ! k)\<rparr>"

definition set_addr :: "layout \<Rightarrow> comp_unit \<Rightarrow> sym \<Rightarrow> sym" where
  "set_addr l u s =
     (if \<not> s_defined s then s
      else s\<lparr>s_addr :=
        (if s_sec s = SEC_TEXT then word_of_int text_section + u_text_base u
         else if s_sec s = SEC_DATA then word_of_int (data_section l) + u_data_base u
         else word_of_int (bss_section l) + u_bss_base u) + word_of_int (s_offset s)\<rparr>)"

definition set_addrs :: "layout \<Rightarrow> comp_unit \<Rightarrow> comp_unit" where
  "set_addrs l u = u\<lparr>u_syms := map (set_addr l u) (u_syms u)\<rparr>"

fun patch_units :: "comp_unit list \<Rightarrow> (byte list \<times> sym_ref) list \<Rightarrow> nat \<Rightarrow> comp_unit list \<Rightarrow> comp_unit list res" where
  "patch_units us ls k [] = Ok []"
| "patch_units us ls k (u # rest) =
     bind_res (patch_unit_relocs us ls (word_of_int text_section) k u) (\<lambda>u.
     bind_res (patch_units us ls (Suc k) rest) (\<lambda>rest. Ok (u # rest)))"

text \<open>\<open>memcpy\<close> into a buffer.\<close>

definition overlay :: "nat \<Rightarrow> byte list \<Rightarrow> byte list \<Rightarrow> byte list" where
  "overlay p bs buf = take p buf @ bs @ drop (p + length bs) buf"

definition section_bytes :: "int list \<Rightarrow> byte list list \<Rightarrow> int \<Rightarrow> byte list" where
  "section_bytes bs parts len = fold (\<lambda>(b, part). overlay (nat b) part) (zip bs parts) (replicate (nat len) 0)"

definition elf_header :: "64 word \<Rightarrow> int \<Rightarrow> int \<Rightarrow> byte list \<Rightarrow> byte list" where
  "elf_header entry file_len mem_len f =
     (let f = f[0 := 0x7f, 1 := chr CHR ''E'', 2 := chr CHR ''L'', 3 := chr CHR ''F'', 4 := 2, 5 := 1, 6 := 1];
          f = put16 18 EM_RISCV (put16 16 2 f);
          f = put64 40 0 (put64 32 64 (put64 24 entry (put32 20 1 f)));
          f = put16 54 56 (put16 52 64 (put32 48 0 f));
          f = put16 62 0 (put16 60 0 (put16 58 0 (put16 56 1 f)));
          f = put64 72 0 (put32 68 7 (put32 64 1 f));
          f = put64 88 (word_of_int USER_BASE) (put64 80 (word_of_int USER_BASE) f);
          f = put64 96 (word_of_int file_len) f;
          f = put64 104 (word_of_int (if mem_len > file_len then mem_len else file_len)) f
      in put64 112 0x1000 f)"

definition file_bytes :: "layout \<Rightarrow> comp_unit list \<Rightarrow> 64 word \<Rightarrow> byte list" where
  "file_bytes l us entry =
     (let text = section_bytes (l_text l) (map u_code us) (l_text_off l);
          dat = section_bytes (l_data l) (map u_data us) (l_data_off l);
          data_file_off = data_section l - USER_BASE;
          file_len = data_file_off + l_data_off l;
          mem_len = bss_section l - USER_BASE + l_bss_off l;
          file = overlay (nat TEXT_FILE_OFF) text (replicate (nat file_len) 0);
          file = overlay (nat data_file_off) dat file
      in elf_header entry file_len mem_len file)"

definition link_and_write :: "comp_unit list \<Rightarrow> byte list res" where
  "link_and_write us =
     (let l = layout_of us
      in if bss_section l + l_bss_off l > INT_MAX then Fault
         else let us1 = map (\<lambda>(k, u). set_bases l k u) (List.enumerate 0 us)
              in bind_res (define_units 0 us1 []) (\<lambda>ls.
                 let us2 = map (set_addrs l) us1
                 in bind_res (patch_units us2 ls 0 us2) (\<lambda>us3.
                    case link_find ls (bytes ''__cc_start'') of
                      None \<Rightarrow> Fatal
                    | Some p \<Rightarrow> Ok (file_bytes l us3 (s_addr (the_sym us2 p))))))"

section \<open>Patched instructions\<close>

text \<open>The relocations of a unit are at different instructions.\<close>

definition relocs_ok :: "reloc list \<Rightarrow> bool" where
  "relocs_ok rs \<longleftrightarrow> distinct (map r_pos rs) \<and> (\<forall>r\<in>set rs. 4 dvd r_pos r)"

lemma nat_align: "0 \<le> x \<Longrightarrow> 4 dvd x \<Longrightarrow> 4 dvd nat x" "4 dvd int p \<Longrightarrow> 4 dvd p"
  by presburger+

lemma patch_code_step:
  assumes "patch_code us ls k base (r # rs) bs = Ok bs'"
  shows "\<exists>addr ins. resolve_sym us ls (k, r_sym r) = Ok addr \<and> 0 \<le> r_pos r \<and> nat (r_pos r) + 4 \<le> length bs \<and>
    reloc_ins (r_kind r) (addr + word_of_int (r_addend r)) (base + of_nat (nat (r_pos r))) (word_at bs (nat (r_pos r))) = Ok ins \<and>
    patch_code us ls k base rs (put_code (nat (r_pos r)) ins bs) = Ok bs'"
  using assms by (auto simp: bind_res_def Let_def split: res.splits if_splits)

lemma patch_code_other:
  "patch_code us ls k base rs bs = Ok bs' \<Longrightarrow> \<forall>r\<in>set rs. 4 dvd r_pos r \<Longrightarrow> 4 dvd q \<Longrightarrow> int q \<notin> r_pos ` set rs \<Longrightarrow>
   length bs' = length bs \<and> word_at bs' q = word_at bs q"
proof (induction rs arbitrary: bs)
  case (Cons r rs)
  let ?p = "nat (r_pos r)"
  obtain ins where i: "0 \<le> r_pos r" "patch_code us ls k base rs (put_code ?p ins bs) = Ok bs'"
    using patch_code_step [OF Cons.prems(1)] by blast
  have "4 dvd ?p" "?p \<noteq> q" using Cons.prems(2,4) i(1) by (auto intro: nat_align)
  then have "word_at (put_code ?p ins bs) q = word_at bs q" using aligned_apart [of ?p q] Cons.prems(3) by (intro word_at_put_other) auto
  then show ?case using Cons.IH [OF i(2)] Cons.prems by simp
qed simp

lemma patch_code_at:
  "patch_code us ls k base rs bs = Ok bs' \<Longrightarrow> relocs_ok rs \<Longrightarrow> r \<in> set rs \<Longrightarrow> r_pos r = int p \<Longrightarrow>
   \<exists>addr ins. resolve_sym us ls (k, r_sym r) = Ok addr \<and> p + 4 \<le> length bs' \<and> word_at bs' p = ins \<and>
     reloc_ins (r_kind r) (addr + word_of_int (r_addend r)) (base + of_nat p) (word_at bs p) = Ok ins"
proof (induction rs arbitrary: bs)
  case (Cons q rs)
  let ?q = "nat (r_pos q)"
  obtain addr ins where i: "resolve_sym us ls (k, r_sym q) = Ok addr" "0 \<le> r_pos q" "?q + 4 \<le> length bs"
    "reloc_ins (r_kind q) (addr + word_of_int (r_addend q)) (base + of_nat ?q) (word_at bs ?q) = Ok ins"
    "patch_code us ls k base rs (put_code ?q ins bs) = Ok bs'" using patch_code_step [OF Cons.prems(1)] by blast
  have al: "4 dvd ?q" "4 dvd p" "\<forall>r\<in>set rs. 4 dvd r_pos r"
    using Cons.prems(2-4) i(2) by (auto simp: relocs_ok_def intro!: nat_align)
  show ?case
  proof (cases "r = q")
    case True
    then have p: "p = ?q" using Cons.prems(4) by simp
    have "int ?q \<notin> r_pos ` set rs" using Cons.prems(2) i(2) by (auto simp: relocs_ok_def)
    from patch_code_other [OF i(5) al(3,1) this] have "length bs' = length bs" "word_at bs' p = ins"
      using word_at_put_same [OF i(3), of ins] p by simp_all
    then show ?thesis using i True p by auto
  next
    case False
    then have r: "r \<in> set rs" using Cons.prems(3) by simp
    then have "p \<noteq> ?q" using Cons.prems(2,4) i(2) by (auto simp: relocs_ok_def rev_image_eqI)
    then have "word_at (put_code ?q ins bs) p = word_at bs p" using aligned_apart [OF al(1,2)] by (intro word_at_put_other) auto
    then show ?thesis using Cons.IH [OF i(5) _ r Cons.prems(4)] Cons.prems(2) by (simp add: relocs_ok_def)
  qed
qed simp

lemma rd_of_field: "uint (rd_of w) = field 7 5 w" "uint (rs1_of w) = field 15 5 w"
  by (simp_all add: rd_of_def rs1_of_def field_def and_mask_word)

lemma and_2048: "0 \<le> x \<Longrightarrow> x < 4096 \<Longrightarrow> x AND 0x800 \<noteq> 0 \<longleftrightarrow> 2048 \<le> (x :: int)"
proof -
  assume "0 \<le> x" "x < 4096"
  have "x AND 2 ^ 11 = 0 \<longleftrightarrow> \<not> bit x 11" by (rule and_exp_eq_0_iff_not_bit)
  moreover have "bit x 11 \<longleftrightarrow> odd (x div 2 ^ 11)" by (simp add: bit_iff_odd)
  moreover have "x div 2 ^ 11 = (if 2048 \<le> x then 1 else 0)" using \<open>0 \<le> x\<close> \<open>x < 4096\<close> by auto
  ultimately show ?thesis by (auto split: if_splits)
qed

text \<open>The two halves of an address: \<open>lui\<close> loads the upper, \<open>addi\<close> adds the lower, signed.\<close>

definition low12 :: "64 word \<Rightarrow> int" where
  "low12 t = (let lo = uint (t AND 0xfff) in if lo AND 0x800 \<noteq> 0 then lo - 0x1000 else lo)"

lemma halves:
  assumes "uint (t :: 64 word) < 2 ^ 31 - 2048"
  shows "word_of_int (signed_take_bit 31 (push_bit 12 (uint (drop_bit 12 (t + 0x800))))) + word_of_int (low12 t) = t"
    "- 2048 \<le> low12 t" "low12 t < 2048"
proof -
  let ?T = "uint t"
  have T: "0 \<le> ?T" by simp
  have lo: "uint (t AND 0xfff) = ?T mod 4096"
    by (simp add: uint_and and_mask take_bit_eq_mod)
  have l: "low12 t = (if 2048 \<le> ?T mod 4096 then ?T mod 4096 - 4096 else ?T mod 4096)"
    unfolding low12_def lo Let_def using and_2048 [of "?T mod 4096"] by simp
  show "- 2048 \<le> low12 t" "low12 t < 2048" unfolding l using pos_mod_bound [of 4096 ?T] pos_mod_sign [of 4096 ?T] by auto
  have "uint (t + 0x800) = ?T + 2048" using assms by (simp add: uint_plus_if')
  then have h: "uint (drop_bit 12 (t + 0x800)) = (?T + 2048) div 4096" by (simp add: drop_bit_eq_div uint_div)
  have r: "0 \<le> (?T + 2048) div 4096 * 4096" "(?T + 2048) div 4096 * 4096 < 2 ^ 31" using assms T by (auto, linarith)
  have s: "signed_take_bit 31 ((?T + 2048) div 4096 * 4096) = (?T + 2048) div 4096 * 4096"
    using r by (intro signed_take_bit_int_eq_self) auto
  have d: "?T = 4096 * (?T div 4096) + ?T mod 4096" by simp
  have "(?T + 2048) div 4096 = ?T div 4096 + (?T mod 4096 + 2048) div 4096"
    using div_add1_eq [of ?T 2048 4096] by simp
  moreover have "(?T mod 4096 + 2048) div 4096 = (if 2048 \<le> ?T mod 4096 then 1 else 0)"
    using pos_mod_bound [of 4096 ?T] pos_mod_sign [of 4096 ?T] by (auto simp: int_div_pos_eq)
  ultimately have "(?T + 2048) div 4096 * 4096 + low12 t = ?T" using d l by (auto simp: algebra_simps)
  then have "word_of_int ((?T + 2048) div 4096 * 4096) + word_of_int (low12 t) = (word_of_int ?T :: 64 word)"
    by (simp only: wi_hom_add)
  then show "word_of_int (signed_take_bit 31 (push_bit 12 (uint (drop_bit 12 (t + 0x800))))) + word_of_int (low12 t) = t"
    unfolding h push_bit_eq_mult using s by simp
qed

text \<open>
  C27. Relocations resolve: take the code of a unit in which \<open>i_la\<close> or \<open>i_call_sym\<close> was emitted for a
  symbol, whatever follows, and let the linker patch it. If that succeeds the symbol has an
  address, and running the patched instructions does what they are for: \<open>i_la\<close> leaves the address
  of the symbol plus the addend in the register (for addresses below \<open>2 ^ 31 - 2048\<close>; user programs
  are linked at \<open>0x10000\<close>) and changes no other, and \<open>i_call_sym\<close> continues at the address of the
  symbol with the return address in \<open>ra\<close>. The program counter counts from the start of the code.
\<close>

theorem relocations_resolve:
  assumes "relocs_ok rs" "patch_code us ls k base rs (data (code st') @ suf) = Ok bs'" "set (relocs st') \<subseteq> set rs"
    and "pc m = int (length (data (code st)))"
  shows "(st' = i_la rd s a st \<and> 0 < rd \<and> rd < 32 \<longrightarrow>
      (\<exists>addr. resolve_sym us ls (k, s) = Ok addr \<and>
        (uint (addr + word_of_int a) < 2 ^ 31 - 2048 \<longrightarrow>
          steps bs' 2 m = Some (m\<lparr>regs := (regs m)(rd := addr + word_of_int a), pc := pc m + 8\<rparr>)))) \<and>
    (st' = i_call_sym s st \<longrightarrow>
      (\<exists>addr p. resolve_sym us ls (k, s) = Ok addr \<and>
        steps bs' 1 m = Some (m\<lparr>regs := (regs m)(1 := word_of_int (pc m + 4)), pc := p\<rparr>) \<and> base + word_of_int p = addr))"
proof (intro conjI impI)
  let ?p = "length (data (code st))"
  assume "st' = i_la rd s a st \<and> 0 < rd \<and> rd < 32"
  then have st': "st' = i_la rd s a st" and r: "reg_no rd" "rd \<noteq> 0" using reg_noI by auto
  let ?hi = "\<lparr>r_pos = int ?p, r_kind = R_HI20, r_sym = s, r_addend = a\<rparr>"
  let ?lo = "\<lparr>r_pos = int (?p + 4), r_kind = R_LO12I, r_sym = s, r_addend = a\<rparr>"
  have rs: "?hi \<in> set rs" "?lo \<in> set rs" using assms(3) by (auto simp: st' i_la_def add_reloc_def)
  have d: "data (code st') @ suf = data (code st) @ ins_bytes (enc_u 0x37 rd 0) @ ins_bytes (enc_i 0x13 rd 0 rd 0) @ suf"
    by (simp add: st' i_la_def add_reloc_def)
  have w: "word_at (data (code st') @ suf) ?p = enc_u 0x37 rd 0" unfolding d by (rule word_at_ins)
  have "word_at ((data (code st) @ ins_bytes (enc_u 0x37 rd 0)) @ ins_bytes (enc_i 0x13 rd 0 rd 0) @ suf)
      (length (data (code st) @ ins_bytes (enc_u 0x37 rd 0))) = enc_i 0x13 rd 0 rd 0" by (rule word_at_ins)
  then have w2: "word_at (data (code st') @ suf) (?p + 4) = enc_i 0x13 rd 0 rd 0" by (simp add: d)
  obtain addr where 1: "resolve_sym us ls (k, s) = Ok addr" "?p + 4 \<le> length bs'"
    "reloc_ins R_HI20 (addr + word_of_int a) (base + of_nat ?p) (enc_u 0x37 rd 0) = Ok (word_at bs' ?p)"
    using patch_code_at [OF assms(2,1) rs(1), of ?p] w by auto
  have 2: "?p + 8 \<le> length bs'"
    "reloc_ins R_LO12I (addr + word_of_int a) (base + of_nat (?p + 4)) (enc_i 0x13 rd 0 rd 0) = Ok (word_at bs' (?p + 4))"
    using patch_code_at [OF assms(2,1) rs(2), of "?p + 4"] w2 1(1) by auto
  let ?t = "addr + word_of_int a"
  have i1: "word_at bs' ?p = enc_u 0x37 rd (uint (drop_bit 12 (?t + 0x800)))"
    using 1(3) r by (simp add: reloc_ins_def Let_def R_HI20_def rd_of_field enc_u_fields)
  have i2: "word_at bs' (?p + 4) = enc_i 0x13 rd 0 rd (low12 ?t)"
    using 2(2) r by (simp add: reloc_ins_def Let_def R_HI20_def R_LO12I_def rd_of_field enc_i_fields low12_def)
  have "steps bs' 2 m = Some (m\<lparr>regs := (regs m)(rd := ?t), pc := pc m + 8\<rparr>)" if "uint ?t < 2 ^ 31 - 2048"
  proof -
    let ?v = "word_of_int (signed_take_bit 31 (push_bit 12 (uint (drop_bit 12 (?t + 0x800))))) :: 64 word"
    have "cpu_step bs' m = Some (load rd ?v 1 m)" using 1(2) r assms(4) i1 by (simp add: cpu_step_def exec_lui load_next)
    moreover have "nat (int ?p + 4) = ?p + 4" by simp
    then have "cpu_step bs' (load rd ?v 1 m) = Some (load rd ?t 1 (load rd ?v 1 m))"
      using 2(1) r assms(4) i2 halves [OF that] by (simp add: cpu_step_def exec_addi load_next)
    ultimately show ?thesis by (simp add: numeral_2_eq_2) (simp add: load_def)
  qed
  then show "\<exists>addr. resolve_sym us ls (k, s) = Ok addr \<and> (uint (addr + word_of_int a) < 2 ^ 31 - 2048 \<longrightarrow>
      steps bs' 2 m = Some (m\<lparr>regs := (regs m)(rd := addr + word_of_int a), pc := pc m + 8\<rparr>))" using 1(1) by blast
next
  let ?p = "length (data (code st))"
  assume st': "st' = i_call_sym s st"
  let ?r = "\<lparr>r_pos = int ?p, r_kind = R_JAL, r_sym = s, r_addend = 0\<rparr>"
  have rs: "?r \<in> set rs" using assms(3) by (auto simp: st' i_call_sym_def add_reloc_def)
  have d: "data (code st') @ suf = data (code st) @ ins_bytes (enc_j 0x6f RA 0) @ suf" by (simp add: st' i_call_sym_def add_reloc_def)
  have w: "word_at (data (code st') @ suf) ?p = enc_j 0x6f RA 0" unfolding d by (rule word_at_ins)
  obtain addr where 1: "resolve_sym us ls (k, s) = Ok addr" "?p + 4 \<le> length bs'"
    "reloc_ins R_JAL addr (base + of_nat ?p) (enc_j 0x6f RA 0) = Ok (word_at bs' ?p)"
    using patch_code_at [OF assms(2,1) rs, of ?p] w by auto
  let ?off = "sint addr - sint (base + of_nat ?p)"
  have r: "reg_no RA" by (simp add: RA_def)
  have i: "even ?off" "- (2 ^ 20) \<le> ?off" "?off < 2 ^ 20" "word_at bs' ?p = enc_j 0x6f RA ?off"
    using 1(3) r by (auto simp: reloc_ins_def Let_def R_HI20_def R_LO12I_def R_JAL_def rd_of_field enc_j_fields split: if_splits)
  have "steps bs' 1 m = Some (m\<lparr>regs := (regs m)(1 := word_of_int (pc m + 4)), pc := pc m + ?off\<rparr>)"
    using 1(2) assms(4) i exec_jal [OF r i(2,3,1), of m] by (simp add: cpu_step_def to_pc_def set_reg_def RA_def)
  moreover have "base + word_of_int (pc m + ?off) = addr"
    unfolding assms(4) by simp
  ultimately show "\<exists>addr p. resolve_sym us ls (k, s) = Ok addr \<and>
      steps bs' 1 m = Some (m\<lparr>regs := (regs m)(1 := word_of_int (pc m + 4)), pc := p\<rparr>) \<and> base + word_of_int p = addr"
    using 1(1) by blast
qed

definition plain_sym :: "byte list \<Rightarrow> int \<Rightarrow> 64 word \<Rightarrow> sym" where
  "plain_sym name off addr = \<lparr>s_name = name, s_sec = SEC_TEXT, s_offset = off, s_size = 4, s_align = 4, s_defined = True,
     s_static = False, s_addr = addr, s_init = None, s_drel = []\<rparr>"

definition empty_emit :: emit where
  "empty_emit = \<lparr>code = buf_init, fixups = [], relocs = [], label_pos = []\<rparr>"

theorem relocations_resolve_witness:
  "let st' = i_la 10 0 8 empty_emit;
       u = \<lparr>u_code = data (code st'), u_data = [], u_bss_len = 0, u_syms = [plain_sym (bytes ''f'') 16 0x11810], u_relocs = relocs st',
            u_text_base = 0, u_data_base = 0, u_bss_base = 0\<rparr>
   in \<exists>bs'. patch_code [u] [] 0 0x11000 (relocs st') (data (code st') @ []) = Ok bs' \<and>
        steps bs' 2 \<lparr>regs = (\<lambda>_. 7), pc = 0, mem = (\<lambda>_. 0)\<rparr> = Some \<lparr>regs = (\<lambda>_. 7)(10 := 0x11818), pc = 8, mem = (\<lambda>_. 0)\<rparr>"
proof -
  let ?st' = "i_la 10 0 8 empty_emit"
  let ?u = "\<lparr>u_code = data (code ?st'), u_data = [], u_bss_len = 0, u_syms = [plain_sym (bytes ''f'') 16 0x11810], u_relocs = relocs ?st',
            u_text_base = 0, u_data_base = 0, u_bss_base = 0\<rparr>"
  have rs: "relocs ?st' = [\<lparr>r_pos = 4, r_kind = R_LO12I, r_sym = 0, r_addend = 8\<rparr>, \<lparr>r_pos = 0, r_kind = R_HI20, r_sym = 0, r_addend = 8\<rparr>]"
    and len: "length (data (code ?st')) = 8" and st: "data (code empty_emit) = []"
    by (simp_all add: i_la_def add_reloc_def empty_emit_def buf_init_def)
  have res: "resolve_sym [?u] [] (0, 0) = Ok 0x11810" by (simp add: resolve_sym_def the_sym_def plain_sym_def)
  obtain bs' where 1: "patch_code [?u] [] 0 0x11000 (relocs ?st') (data (code ?st') @ []) = Ok bs'"
    using res len by (simp add: rs reloc_ins_def Let_def R_HI20_def R_LO12I_def)
  have "relocs_ok (relocs ?st')" unfolding rs by (simp add: relocs_ok_def)
  from relocations_resolve [OF this 1, of "\<lparr>regs = (\<lambda>_. 7), pc = 0, mem = (\<lambda>_. 0)\<rparr>" empty_emit 10 0 8] res st
  have "steps bs' 2 \<lparr>regs = (\<lambda>_. 7), pc = 0, mem = (\<lambda>_. 0)\<rparr> = Some \<lparr>regs = (\<lambda>_. 7)(10 := 0x11818), pc = 8, mem = (\<lambda>_. 0)\<rparr>" by simp
  then show ?thesis using 1 unfolding Let_def by blast
qed

end
