(* ===== verification/Cc_Types.thy ===== *)
theory Cc_Types
  imports Cc_Object "HOL-Library.Signed_Division"
begin

text \<open>
  The types and the syntax trees of the compiler: \<open>cmd/cc/types.c\<close> and the functions of
  \<open>cmd/cc/parser.c\<close> that build expressions. A type is the part of \<open>struct type\<close> that these functions
  and the code generator read (the members of a structure are resolved to offsets by the
  parser). A node is a tree; the fields that a kind of node does not use are left out, and an
  object of a tree is its state at the time when code is generated.
\<close>

section \<open>Types\<close>

datatype ty_kind =
  TY_VOID | TY_CHAR | TY_SHORT | TY_INT | TY_LONG | TY_PTR | TY_ARRAY | TY_FUNC | TY_STRUCT | TY_UNION | TY_PLACEHOLDER

datatype ctype =
  CType (kind: ty_kind) (ty_size: int) (ty_align: int) (is_unsigned: bool) (is_complete: bool) (base: "ctype option")
    (array_len: int) (nparams: nat) (variadic: bool)

definition new_type :: "ty_kind \<Rightarrow> int \<Rightarrow> int \<Rightarrow> bool \<Rightarrow> ctype" where
  "new_type k sz al uns = CType k sz al uns True None (- 1) 0 False"

definition ty_void :: ctype where "ty_void = new_type TY_VOID 1 1 False"
definition ty_char :: ctype where "ty_char = new_type TY_CHAR 1 1 True"
definition ty_schar :: ctype where "ty_schar = new_type TY_CHAR 1 1 False"
definition ty_short :: ctype where "ty_short = new_type TY_SHORT 2 2 False"
definition ty_ushort :: ctype where "ty_ushort = new_type TY_SHORT 2 2 True"
definition ty_int :: ctype where "ty_int = new_type TY_INT 4 4 False"
definition ty_uint :: ctype where "ty_uint = new_type TY_INT 4 4 True"
definition ty_long :: ctype where "ty_long = new_type TY_LONG 8 8 False"
definition ty_ulong :: ctype where "ty_ulong = new_type TY_LONG 8 8 True"

lemmas ty_defs = ty_void_def ty_char_def ty_schar_def ty_short_def ty_ushort_def ty_int_def ty_uint_def ty_long_def ty_ulong_def new_type_def

definition ty_ptr :: "ctype \<Rightarrow> ctype" where
  "ty_ptr b = CType TY_PTR 8 8 True True (Some b) (- 1) 0 False"

definition ty_array :: "ctype \<Rightarrow> int \<Rightarrow> ctype" where
  "ty_array b len = CType TY_ARRAY (if len \<ge> 0 then ty_size b * len else 0) (ty_align b) False True (Some b) len 0 False"

definition ty_func :: "ctype \<Rightarrow> nat \<Rightarrow> bool \<Rightarrow> ctype" where
  "ty_func ret n var = CType TY_FUNC 8 8 False True (Some ret) (- 1) n var"

definition is_integer :: "ctype \<Rightarrow> bool" where
  "is_integer t \<longleftrightarrow> kind t = TY_CHAR \<or> kind t = TY_SHORT \<or> kind t = TY_INT \<or> kind t = TY_LONG"

definition is_ptr_like :: "ctype \<Rightarrow> bool" where
  "is_ptr_like t \<longleftrightarrow> kind t = TY_PTR \<or> kind t = TY_ARRAY"

definition is_aggregate :: "ctype \<Rightarrow> bool" where
  "is_aggregate t \<longleftrightarrow> kind t = TY_STRUCT \<or> kind t = TY_UNION"

definition is_scalar :: "ctype \<Rightarrow> bool" where
  "is_scalar t \<longleftrightarrow> is_integer t \<or> kind t = TY_PTR"

text \<open>An array type has a base; its decay would read it.\<close>

definition decay :: "ctype \<Rightarrow> ctype" where
  "decay t =
     (if kind t = TY_ARRAY then (case base t of Some b \<Rightarrow> ty_ptr b | None \<Rightarrow> t)
      else if kind t = TY_FUNC then ty_ptr t
      else t)"

section \<open>Trees\<close>

record obj =
  o_name :: "byte list"
  o_ty :: ctype
  o_is_local :: bool
  o_is_function :: bool
  o_defined :: bool
  o_offset :: int
  o_sym :: nat

datatype binop =
  ND_ADD | ND_SUB | ND_MUL | ND_DIV | ND_MOD | ND_BITAND | ND_BITOR | ND_BITXOR | ND_SHL | ND_SHR
  | ND_EQ | ND_NE | ND_LT | ND_LE | ND_GT | ND_GE

record case_entry =
  e_val :: int
  e_is_default :: bool
  e_label :: nat

datatype node =
  ND_NULL
  | ND_MEMZERO node int
  | ND_NUM ctype int
  | ND_STR ctype nat
  | ND_VAR ctype obj
  | ND_BIN binop ctype node node
  | ND_LOGAND ctype node node
  | ND_LOGOR ctype node node
  | ND_ASSIGN ctype node node
  | ND_OPASSIGN binop ctype node node
  | ND_PREINC ctype node int
  | ND_POSTINC ctype node int
  | ND_NEG ctype node
  | ND_NOT ctype node
  | ND_BITNOT ctype node
  | ND_ADDR ctype node
  | ND_DEREF ctype node
  | ND_MEMBER ctype node int
  | ND_CALL ctype "obj option" "node option" "node list"
  | ND_CAST ctype node
  | ND_COND ctype node node node
  | ND_COMMA ctype node node
  | ND_RETURN "node option"
  | ND_IF node node "node option"
  | ND_WHILE node node
  | ND_FOR "node option" "node option" "node option" node
  | ND_DO node node
  | ND_BLOCK "node list"
  | ND_EXPR_STMT node
  | ND_BREAK
  | ND_CONTINUE
  | ND_SWITCH node "case_entry list" node
  | ND_CASE nat node
  | ND_DEFAULT nat node
  | ND_GOTO "byte list"
  | ND_LABEL "byte list" node

text \<open>The field \<open>ty\<close>, which statements do not have.\<close>

fun nty :: "node \<Rightarrow> ctype" where
  "nty (ND_NUM t _) = t" | "nty (ND_STR t _) = t" | "nty (ND_VAR t _) = t" | "nty (ND_BIN _ t _ _) = t"
| "nty (ND_LOGAND t _ _) = t" | "nty (ND_LOGOR t _ _) = t" | "nty (ND_ASSIGN t _ _) = t" | "nty (ND_OPASSIGN _ t _ _) = t"
| "nty (ND_PREINC t _ _) = t" | "nty (ND_POSTINC t _ _) = t" | "nty (ND_NEG t _) = t" | "nty (ND_NOT t _) = t"
| "nty (ND_BITNOT t _) = t" | "nty (ND_ADDR t _) = t" | "nty (ND_DEREF t _) = t" | "nty (ND_MEMBER t _ _) = t"
| "nty (ND_CALL t _ _ _) = t" | "nty (ND_CAST t _) = t" | "nty (ND_COND t _ _ _) = t" | "nty (ND_COMMA t _ _) = t"
| "nty _ = ty_void"

section \<open>Building expressions\<close>

definition new_num :: "int \<Rightarrow> node" where
  "new_num val = ND_NUM (if val \<ge> - 2147483648 \<and> val \<le> 2147483647 then ty_int else ty_long) val"

definition new_var_node :: "obj \<Rightarrow> node" where
  "new_var_node var = ND_VAR (o_ty var) var"

definition is_lvalue :: "node \<Rightarrow> bool" where
  "is_lvalue n =
     (case n of
        ND_VAR t v \<Rightarrow> \<not> o_is_function v \<and> kind t \<noteq> TY_ARRAY \<and> kind t \<noteq> TY_FUNC
      | ND_MEMBER t _ _ \<Rightarrow> kind t \<noteq> TY_ARRAY \<and> kind t \<noteq> TY_FUNC
      | ND_DEREF t _ \<Rightarrow> kind t \<noteq> TY_ARRAY \<and> kind t \<noteq> TY_FUNC
      | _ \<Rightarrow> False)"

definition new_cast :: "node \<Rightarrow> ctype \<Rightarrow> node res" where
  "new_cast e t = (if is_aggregate (nty e) \<or> is_aggregate t then Fatal else Ok (ND_CAST t e))"

definition new_assign :: "node \<Rightarrow> node \<Rightarrow> node res" where
  "new_assign lhs rhs =
     (if \<not> is_lvalue lhs then Fatal
      else if (is_aggregate (nty lhs) \<or> is_aggregate (nty rhs)) \<and>
        (\<not> is_aggregate (nty lhs) \<or> \<not> is_aggregate (nty rhs) \<or> ty_size (nty lhs) \<noteq> ty_size (nty rhs)) then Fatal
      else Ok (ND_ASSIGN (nty lhs) lhs rhs))"

text \<open>The type of an arithmetic operation, from the operand types. There are no integer promotions.\<close>

definition arith_type :: "ctype \<Rightarrow> ctype \<Rightarrow> ctype" where
  "arith_type lt rt =
     (if ty_size lt = 8 \<or> ty_size rt = 8 then if is_unsigned lt \<or> is_unsigned rt then ty_ulong else ty_long
      else if is_unsigned lt \<or> is_unsigned rt then ty_uint else ty_int)"

text \<open>The type that \<open>new_binary\<close> gives, by the kind of operation; the last group is the others.\<close>

definition binary_type :: "binop \<Rightarrow> ctype \<Rightarrow> ctype \<Rightarrow> ctype res" where
  "binary_type k lt rt =
     (if k = ND_ADD then Ok (if is_ptr_like lt then lt else if is_ptr_like rt then rt else arith_type lt rt)
      else if k = ND_SUB then
        (if is_ptr_like lt \<and> is_ptr_like rt then Ok ty_long
         else if is_ptr_like lt then Ok lt
         else if is_ptr_like rt then Fatal
         else Ok (arith_type lt rt))
      else if k = ND_SHL \<or> k = ND_SHR then Ok lt
      else if is_ptr_like lt \<or> is_ptr_like rt then Fatal
      else Ok (arith_type lt rt))"

definition new_binary :: "binop \<Rightarrow> node \<Rightarrow> node \<Rightarrow> node res" where
  "new_binary k lhs rhs =
     (let lt = decay (nty lhs); rt = decay (nty rhs)
      in if is_aggregate lt \<or> is_aggregate rt then Fatal
         else bind_res (binary_type k lt rt) (\<lambda>t. Ok (ND_BIN k t lhs rhs)))"

text \<open>\<open>new_binary\<close> of \<open>ND_LOGAND\<close> and \<open>ND_LOGOR\<close>.\<close>

definition new_logical :: "(ctype \<Rightarrow> node \<Rightarrow> node \<Rightarrow> node) \<Rightarrow> node \<Rightarrow> node \<Rightarrow> node res" where
  "new_logical f lhs rhs =
     (let lt = decay (nty lhs); rt = decay (nty rhs)
      in if is_aggregate lt \<or> is_aggregate rt then Fatal
         else if is_ptr_like lt \<or> is_ptr_like rt then Fatal
         else Ok (f (arith_type lt rt) lhs rhs))"

definition new_cmp :: "binop \<Rightarrow> node \<Rightarrow> node \<Rightarrow> node res" where
  "new_cmp k lhs rhs =
     (if is_aggregate (decay (nty lhs)) \<or> is_aggregate (decay (nty rhs)) then Fatal else Ok (ND_BIN k ty_int lhs rhs))"

definition new_neg :: "node \<Rightarrow> node res" where
  "new_neg e = (if is_aggregate (nty e) then Fatal else Ok (ND_NEG (nty e) e))"

definition new_not :: "node \<Rightarrow> node res" where
  "new_not e = (if is_aggregate (nty e) then Fatal else Ok (ND_NOT ty_int e))"

definition new_bitnot :: "node \<Rightarrow> node res" where
  "new_bitnot e = (if is_aggregate (nty e) then Fatal else Ok (ND_BITNOT (nty e) e))"

definition new_addr :: "node \<Rightarrow> node" where
  "new_addr e = ND_ADDR (ty_ptr (nty e)) e"

definition new_deref :: "node \<Rightarrow> node res" where
  "new_deref e =
     (let t = decay (nty e)
      in if kind t \<noteq> TY_PTR then Fatal
         else case base t of Some b \<Rightarrow> Ok (ND_DEREF b e) | None \<Rightarrow> Fault)"

text \<open>The conditional expression, in \<open>parse_cond\<close>.\<close>

definition new_cond :: "node \<Rightarrow> node \<Rightarrow> node \<Rightarrow> node" where
  "new_cond c a b = ND_COND (if ty_size (nty a) \<ge> ty_size (nty b) then nty a else nty b) c a b"

section \<open>Constant expressions\<close>

definition truncate_const :: "int \<Rightarrow> ctype \<Rightarrow> int" where
  "truncate_const v t =
     (if kind t = TY_PTR \<or> kind t = TY_ARRAY \<or> kind t = TY_FUNC \<or> ty_size t \<ge> 8 then v
      else if ty_size t = 1 then let v = v AND 0xff in if \<not> is_unsigned t then (v XOR 0x80) - 0x80 else v
      else if ty_size t = 2 then let v = v AND 0xffff in if \<not> is_unsigned t then (v XOR 0x8000) - 0x8000 else v
      else if ty_size t = 4 then let v = v AND 0xffffffff in if \<not> is_unsigned t then (v XOR 0x80000000) - 0x80000000 else v
      else v)"

text \<open>\<open>long\<close> arithmetic: overflow, and a shift by a count outside of 0 to 63 or of a negative number
  to the left, are faults.\<close>

definition long :: "int \<Rightarrow> int res" where
  "long v = (if - (2 ^ 63) \<le> v \<and> v < 2 ^ 63 then Ok v else Fault)"

definition const_bin :: "binop \<Rightarrow> int \<Rightarrow> int \<Rightarrow> int res" where
  "const_bin k a b =
     (case k of
        ND_ADD \<Rightarrow> long (a + b)
      | ND_SUB \<Rightarrow> long (a - b)
      | ND_MUL \<Rightarrow> long (a * b)
      | ND_DIV \<Rightarrow> if b = 0 then Fatal else long (a sdiv b)
      | ND_MOD \<Rightarrow> if b = 0 then Fatal else bind_res (long (a sdiv b)) (\<lambda>_. Ok (a smod b))
      | ND_BITAND \<Rightarrow> Ok (a AND b)
      | ND_BITOR \<Rightarrow> Ok (a OR b)
      | ND_BITXOR \<Rightarrow> Ok (a XOR b)
      | ND_SHL \<Rightarrow> if 0 \<le> b \<and> b < 64 \<and> 0 \<le> a then long (push_bit (nat b) a) else Fault
      | ND_SHR \<Rightarrow> if 0 \<le> b \<and> b < 64 then Ok (drop_bit (nat b) a) else Fault
      | ND_EQ \<Rightarrow> Ok (of_bool (a = b))
      | ND_NE \<Rightarrow> Ok (of_bool (a \<noteq> b))
      | ND_LT \<Rightarrow> Ok (of_bool (a < b))
      | ND_LE \<Rightarrow> Ok (of_bool (a \<le> b))
      | ND_GT \<Rightarrow> Ok (of_bool (a > b))
      | ND_GE \<Rightarrow> Ok (of_bool (a \<ge> b)))"

fun eval_const :: "node \<Rightarrow> int res" where
  "eval_const (ND_NUM _ v) = Ok v"
| "eval_const (ND_NEG _ e) = bind_res (eval_const e) (\<lambda>v. long (- v))"
| "eval_const (ND_NOT _ e) = bind_res (eval_const e) (\<lambda>v. Ok (of_bool (v = 0)))"
| "eval_const (ND_BITNOT _ e) = bind_res (eval_const e) (\<lambda>v. Ok (NOT v))"
| "eval_const (ND_CAST t e) = bind_res (eval_const e) (\<lambda>v. Ok (truncate_const v t))"
| "eval_const (ND_BIN k _ l r) =
     (if k = ND_DIV \<or> k = ND_MOD then
        bind_res (eval_const r) (\<lambda>b. if b = 0 then Fatal else bind_res (eval_const l) (\<lambda>a. const_bin k a b))
      else bind_res (eval_const l) (\<lambda>a. bind_res (eval_const r) (const_bin k a)))"
| "eval_const (ND_LOGAND _ l r) =
     bind_res (eval_const l) (\<lambda>a. if a = 0 then Ok 0 else bind_res (eval_const r) (\<lambda>b. Ok (of_bool (b \<noteq> 0))))"
| "eval_const (ND_LOGOR _ l r) =
     bind_res (eval_const l) (\<lambda>a. if a \<noteq> 0 then Ok 1 else bind_res (eval_const r) (\<lambda>b. Ok (of_bool (b \<noteq> 0))))"
| "eval_const (ND_COND _ c a b) = bind_res (eval_const c) (\<lambda>v. if v \<noteq> 0 then eval_const a else eval_const b)"
| "eval_const _ = Fatal"

end
