(* ===== verification/Cc_Csem.thy ===== *)
theory Cc_Csem
  imports Cc_Types
begin

text \<open>
  What C says that integer expressions and statements over local variables mean: the
  specification that the generated code is compared with. Values are mathematical integers in
  the range of their type; operations apply the integer promotions and the usual arithmetic
  conversions; what C leaves undefined (overflow of a signed type, division by zero, a shift by
  too much) has no value. Where C leaves the order of evaluation open it is from left to right.
  \<open>typed\<close> describes the trees for which the types that the parser computes are those of C and for
  which no operand has to change its representation, so that generated code and C agree.
\<close>

section \<open>Integer types\<close>

definition int_type :: "ctype \<Rightarrow> bool" where
  "int_type t \<longleftrightarrow> t = ty_char \<or> t = ty_schar \<or> t = ty_short \<or> t = ty_ushort \<or> t = ty_int \<or> t = ty_uint \<or> t = ty_long \<or> t = ty_ulong"

definition width :: "ctype \<Rightarrow> nat" where
  "width t = 8 * nat (ty_size t)"

text \<open>Conversion to a type.\<close>

definition wrap :: "ctype \<Rightarrow> int \<Rightarrow> int" where
  "wrap t v = (if is_unsigned t then take_bit (width t) v else signed_take_bit (width t - 1) v)"

definition in_range :: "ctype \<Rightarrow> int \<Rightarrow> bool" where
  "in_range t v \<longleftrightarrow> wrap t v = v"

text \<open>The result of an operation in a type.\<close>

definition c_val :: "ctype \<Rightarrow> int \<Rightarrow> int option" where
  "c_val t v = (if is_unsigned t then Some (wrap t v) else if in_range t v then Some v else None)"

definition promote :: "ctype \<Rightarrow> ctype" where
  "promote t = (if ty_size t < 4 then ty_int else t)"

definition usual :: "ctype \<Rightarrow> ctype \<Rightarrow> ctype" where
  "usual lt rt =
     (let l = promote lt; r = promote rt
      in if ty_size l = ty_size r then (if is_unsigned l then l else r)
         else if ty_size l > ty_size r then l else r)"

section \<open>Operations\<close>

definition is_cmp :: "binop \<Rightarrow> bool" where
  "is_cmp k \<longleftrightarrow> k = ND_EQ \<or> k = ND_NE \<or> k = ND_LT \<or> k = ND_LE \<or> k = ND_GT \<or> k = ND_GE"

definition is_shift :: "binop \<Rightarrow> bool" where
  "is_shift k \<longleftrightarrow> k = ND_SHL \<or> k = ND_SHR"

text \<open>Operands that are converted to the type \<open>t\<close> already.\<close>

definition c_op :: "binop \<Rightarrow> ctype \<Rightarrow> int \<Rightarrow> int \<Rightarrow> int option" where
  "c_op k t a b =
     (case k of
        ND_ADD \<Rightarrow> c_val t (a + b)
      | ND_SUB \<Rightarrow> c_val t (a - b)
      | ND_MUL \<Rightarrow> c_val t (a * b)
      | ND_DIV \<Rightarrow> if b = 0 then None else c_val t (a sdiv b)
      | ND_MOD \<Rightarrow> if b = 0 \<or> c_val t (a sdiv b) = None then None else Some (a smod b)
      | ND_BITAND \<Rightarrow> Some (a AND b)
      | ND_BITOR \<Rightarrow> Some (a OR b)
      | ND_BITXOR \<Rightarrow> Some (a XOR b)
      | ND_EQ \<Rightarrow> Some (of_bool (a = b))
      | ND_NE \<Rightarrow> Some (of_bool (a \<noteq> b))
      | ND_LT \<Rightarrow> Some (of_bool (a < b))
      | ND_LE \<Rightarrow> Some (of_bool (a \<le> b))
      | ND_GT \<Rightarrow> Some (of_bool (a > b))
      | ND_GE \<Rightarrow> Some (of_bool (a \<ge> b))
      | ND_SHL \<Rightarrow>
          if 0 \<le> b \<and> b < int (width t) \<and> (is_unsigned t \<or> 0 \<le> a) then c_val t (push_bit (nat b) a) else None
      | ND_SHR \<Rightarrow> if 0 \<le> b \<and> b < int (width t) then Some (drop_bit (nat b) a) else None)"

definition c_type :: "binop \<Rightarrow> ctype \<Rightarrow> ctype \<Rightarrow> ctype" where
  "c_type k lt rt = (if is_shift k then promote lt else usual lt rt)"

definition c_bin :: "binop \<Rightarrow> ctype \<Rightarrow> ctype \<Rightarrow> int \<Rightarrow> int \<Rightarrow> int option" where
  "c_bin k lt rt a b = (let t = c_type k lt rt in c_op k t (wrap t a) (if is_shift k then b else wrap t b))"

section \<open>Expressions\<close>

text \<open>The values of the local variables, by their place in the frame.\<close>

type_synonym store = "int \<Rightarrow> int"

definition var_of :: "node \<Rightarrow> obj option" where
  "var_of n = (case n of ND_VAR t x \<Rightarrow> Some x | _ \<Rightarrow> None)"

fun ev :: "node \<Rightarrow> store \<Rightarrow> (int \<times> store) option" where
  "ev (ND_NUM t v) s = Some (v, s)"
| "ev (ND_VAR t x) s = Some (s (o_offset x), s)"
| "ev (ND_BIN k t l r) s =
     (case ev l s of None \<Rightarrow> None | Some (a, s) \<Rightarrow>
      case ev r s of None \<Rightarrow> None | Some (b, s) \<Rightarrow>
      case c_bin k (nty l) (nty r) a b of None \<Rightarrow> None | Some v \<Rightarrow> Some (v, s))"
| "ev (ND_LOGAND t l r) s =
     (case ev l s of None \<Rightarrow> None | Some (a, s) \<Rightarrow>
      if a = 0 then Some (0, s)
      else case ev r s of None \<Rightarrow> None | Some (b, s) \<Rightarrow> Some (of_bool (b \<noteq> 0), s))"
| "ev (ND_LOGOR t l r) s =
     (case ev l s of None \<Rightarrow> None | Some (a, s) \<Rightarrow>
      if a \<noteq> 0 then Some (1, s)
      else case ev r s of None \<Rightarrow> None | Some (b, s) \<Rightarrow> Some (of_bool (b \<noteq> 0), s))"
| "ev (ND_COND t c a b) s =
     (case ev c s of None \<Rightarrow> None | Some (v, s) \<Rightarrow> if v \<noteq> 0 then ev a s else ev b s)"
| "ev (ND_COMMA t l r) s = (case ev l s of None \<Rightarrow> None | Some (_, s) \<Rightarrow> ev r s)"
| "ev (ND_NEG t l) s =
     (case ev l s of None \<Rightarrow> None | Some (a, s) \<Rightarrow>
      case c_val (promote (nty l)) (- a) of None \<Rightarrow> None | Some v \<Rightarrow> Some (v, s))"
| "ev (ND_NOT t l) s = (case ev l s of None \<Rightarrow> None | Some (a, s) \<Rightarrow> Some (of_bool (a = 0), s))"
| "ev (ND_BITNOT t l) s =
     (case ev l s of None \<Rightarrow> None | Some (a, s) \<Rightarrow> Some (wrap (promote (nty l)) (NOT a), s))"
| "ev (ND_CAST t l) s = (case ev l s of None \<Rightarrow> None | Some (a, s) \<Rightarrow> Some (wrap t a, s))"
| "ev (ND_ASSIGN t l r) s =
     (case var_of l of None \<Rightarrow> None | Some x \<Rightarrow>
      case ev r s of None \<Rightarrow> None | Some (b, s) \<Rightarrow> let v = wrap (o_ty x) b in Some (v, s(o_offset x := v)))"
| "ev (ND_OPASSIGN k t l r) s =
     (case var_of l of None \<Rightarrow> None | Some x \<Rightarrow>
      let a = s (o_offset x)
      in case ev r s of None \<Rightarrow> None | Some (b, s) \<Rightarrow>
         case c_bin k (o_ty x) (nty r) a b of None \<Rightarrow> None | Some v \<Rightarrow>
           let v = wrap (o_ty x) v in Some (v, s(o_offset x := v)))"
| "ev (ND_PREINC t l d) s =
     (case var_of l of None \<Rightarrow> None | Some x \<Rightarrow>
      case c_bin ND_ADD (o_ty x) ty_int (s (o_offset x)) d of None \<Rightarrow> None | Some v \<Rightarrow>
        let v = wrap (o_ty x) v in Some (v, s(o_offset x := v)))"
| "ev (ND_POSTINC t l d) s =
     (case var_of l of None \<Rightarrow> None | Some x \<Rightarrow>
      case c_bin ND_ADD (o_ty x) ty_int (s (o_offset x)) d of None \<Rightarrow> None | Some v \<Rightarrow>
        Some (s (o_offset x), s(o_offset x := wrap (o_ty x) v)))"
| "ev _ s = None"

section \<open>Trees on which the compiler and C agree\<close>

text \<open>
  The operands of a binary operation agree when the conversion to their common type does not
  change their representation in a register, and the compiler finds the common type: it makes
  everything unsigned that has an unsigned operand, a promoted \<open>char\<close> included.
\<close>

definition agree_types :: "ctype \<Rightarrow> ctype \<Rightarrow> bool" where
  "agree_types lt rt \<longleftrightarrow>
     int_type lt \<and> int_type rt \<and> is_unsigned (usual lt rt) = (is_unsigned lt \<or> is_unsigned rt) \<and>
     (ty_size (usual lt rt) = 8 \<or> is_unsigned lt = is_unsigned rt)"

text \<open>In \<open>/=\<close> and \<open>%=\<close> the compiler divides signed 64-bit numbers whatever the types.\<close>

definition signed_division :: "ctype \<Rightarrow> ctype \<Rightarrow> bool" where
  "signed_division lt rt \<longleftrightarrow>
     \<not> is_unsigned (usual lt rt) \<or> ty_size (usual lt rt) = 4 \<and> is_unsigned lt \<and> is_unsigned rt"

definition local_int :: "obj \<Rightarrow> bool" where
  "local_int x \<longleftrightarrow> o_is_local x \<and> \<not> o_is_function x \<and> int_type (o_ty x)"

text \<open>A variable of type \<open>t\<close> on the left of an assignment.\<close>

definition typed_var :: "obj list \<Rightarrow> ctype \<Rightarrow> node \<Rightarrow> bool" where
  "typed_var xs t l \<longleftrightarrow> (case var_of l of None \<Rightarrow> False | Some x \<Rightarrow> x \<in> set xs \<and> o_ty x = t \<and> nty l = t)"

fun typed :: "obj list \<Rightarrow> node \<Rightarrow> bool" where
  "typed xs (ND_NUM t v) \<longleftrightarrow> (t = ty_int \<or> t = ty_long) \<and> in_range t v"
| "typed xs (ND_VAR t x) \<longleftrightarrow> x \<in> set xs \<and> t = o_ty x"
| "typed xs (ND_BIN k t l r) \<longleftrightarrow>
     typed xs l \<and> typed xs r \<and>
     (if is_shift k then 4 \<le> ty_size (nty l) \<and> t = nty l
      else agree_types (nty l) (nty r) \<and> t = (if is_cmp k then ty_int else usual (nty l) (nty r)))"
| "typed xs (ND_LOGAND t l r) \<longleftrightarrow> typed xs l \<and> typed xs r \<and> t = ty_int"
| "typed xs (ND_LOGOR t l r) \<longleftrightarrow> typed xs l \<and> typed xs r \<and> t = ty_int"
| "typed xs (ND_COND t c a b) \<longleftrightarrow> typed xs c \<and> typed xs a \<and> typed xs b \<and> nty a = t \<and> nty b = t"
| "typed xs (ND_COMMA t l r) \<longleftrightarrow> typed xs l \<and> typed xs r \<and> t = nty r"
| "typed xs (ND_NEG t l) \<longleftrightarrow> typed xs l \<and> t = nty l \<and> 4 \<le> ty_size t"
| "typed xs (ND_NOT t l) \<longleftrightarrow> typed xs l \<and> t = ty_int"
| "typed xs (ND_BITNOT t l) \<longleftrightarrow> typed xs l \<and> t = nty l \<and> 4 \<le> ty_size t \<and> t \<noteq> ty_uint"
| "typed xs (ND_CAST t l) \<longleftrightarrow> typed xs l \<and> int_type t"
| "typed xs (ND_ASSIGN t l r) \<longleftrightarrow> typed_var xs t l \<and> typed xs r"
| "typed xs (ND_OPASSIGN k t l r) \<longleftrightarrow>
     typed_var xs t l \<and> typed xs r \<and> \<not> is_cmp k \<and> (k = ND_DIV \<or> k = ND_MOD \<longrightarrow> signed_division t (nty r))"
| "typed xs (ND_PREINC t l d) \<longleftrightarrow> typed_var xs t l \<and> (d = 1 \<or> d = - 1)"
| "typed xs (ND_POSTINC t l d) \<longleftrightarrow> typed_var xs t l \<and> (d = 1 \<or> d = - 1)"
| "typed xs _ \<longleftrightarrow> False"

text \<open>How many registers the code of an expression saves on the stack at a time.\<close>

fun depth :: "node \<Rightarrow> nat" where
  "depth (ND_BIN k t l r) = max (depth l) (Suc (depth r))"
| "depth (ND_LOGAND t l r) = max (depth l) (depth r)"
| "depth (ND_LOGOR t l r) = max (depth l) (depth r)"
| "depth (ND_COND t c a b) = max (depth c) (max (depth a) (depth b))"
| "depth (ND_COMMA t l r) = max (depth l) (depth r)"
| "depth (ND_NEG t l) = depth l"
| "depth (ND_NOT t l) = depth l"
| "depth (ND_BITNOT t l) = depth l"
| "depth (ND_CAST t l) = depth l"
| "depth (ND_ASSIGN t l r) = Suc (depth r)"
| "depth (ND_OPASSIGN k t l r) = Suc (Suc (depth r))"
| "depth (ND_PREINC t l d) = 3"
| "depth (ND_POSTINC t l d) = 3"
| "depth _ = 0"

section \<open>Laws of the types\<close>

lemma int_type_cases:
  assumes "int_type t"
  obtains "t = ty_char" | "t = ty_schar" | "t = ty_short" | "t = ty_ushort" | "t = ty_int" | "t = ty_uint" | "t = ty_long" | "t = ty_ulong"
  using assms by (auto simp: int_type_def)

lemmas ty_simps = ty_char_def ty_schar_def ty_short_def ty_ushort_def ty_int_def ty_uint_def ty_long_def ty_ulong_def new_type_def

lemma int_type_std [simp]: "int_type ty_int" "int_type ty_uint" "int_type ty_long" "int_type ty_ulong"
  "int_type ty_char" "int_type ty_schar" "int_type ty_short" "int_type ty_ushort"
  by (simp_all add: int_type_def)

lemma int_type_size: "int_type t \<Longrightarrow> ty_size t = 1 \<or> ty_size t = 2 \<or> ty_size t = 4 \<or> ty_size t = 8"
  by (auto simp: int_type_def ty_simps)

lemma int_type_promote: "int_type t \<Longrightarrow> int_type (promote t)"
  by (simp add: promote_def)

lemma int_type_usual: "int_type lt \<Longrightarrow> int_type rt \<Longrightarrow> int_type (usual lt rt)"
  by (simp add: usual_def Let_def int_type_promote)

lemma int_type_width: "int_type t \<Longrightarrow> width t = 8 \<or> width t = 16 \<or> width t = 32 \<or> width t = 64"
  by (auto dest!: int_type_size simp: width_def)

lemma wrap_wrap: "int_type t \<Longrightarrow> wrap t (wrap t v) = wrap t v"
  by (auto simp: wrap_def)

lemma in_range_wrap: "int_type t \<Longrightarrow> in_range t (wrap t v)"
  by (simp add: in_range_def wrap_wrap)

lemma in_range_bounds:
  assumes "int_type t"
  shows "in_range t v \<longleftrightarrow>
    (if is_unsigned t then 0 \<le> v \<and> v < 2 ^ width t else - (2 ^ (width t - 1)) \<le> v \<and> v < 2 ^ (width t - 1))"
  by (simp add: in_range_def wrap_def take_bit_int_eq_self_iff signed_take_bit_int_eq_self_iff)

lemma in_range_bool: "int_type t \<Longrightarrow> in_range t (of_bool p)"
  by (auto simp: in_range_bounds int_type_def width_def ty_simps)

lemma c_val_range: "int_type t \<Longrightarrow> c_val t v = Some u \<Longrightarrow> in_range t u \<and> u = wrap t v"
  by (auto simp: c_val_def in_range_wrap in_range_def wrap_wrap split: if_splits)

end
