(* ===== verification/Cc_Codegen.thy ===== *)
theory Cc_Codegen
  imports Cc_Types
begin

text \<open>
  The code generator, \<open>cmd/cc/codegen.c\<close>: for every expression and statement the instructions that
  it emits, with the branches that call \<open>fatal\<close>. The state is the state of the emitter; the labels of
  \<open>goto\<close> are added for statements. What a function only reads (the function being generated, the
  symbols of the run-time routines, the numbers of the system calls, which belong to the kernel)
  is \<open>genv\<close>. \<open>cur_break\<close> and \<open>cur_cont\<close>, which every statement restores, are arguments, \<open>None\<close> for -1.
\<close>

section \<open>State\<close>

record func =
  fn_sym :: nat
  fn_params :: "obj option list"
  fn_variadic :: bool
  fn_va_area :: "int option"
  fn_frame_size :: int
  fn_body :: node

record genv =
  g_fn :: "func option"
  puts_sym :: nat
  memcpy_sym :: nat
  memset_sym :: nat
  SYS_read :: int
  SYS_write :: int
  SYS_open :: int
  SYS_close :: int
  SYS_exit :: int

record cgen =
  em :: emit
  clabels :: "(byte list \<times> nat) list"

section \<open>Values\<close>

definition push_reg :: "int \<Rightarrow> emit \<Rightarrow> emit" where
  "push_reg r st = i_sd r SP 0 (i_addi SP SP (- 16) st)"

definition pop_reg :: "int \<Rightarrow> emit \<Rightarrow> emit" where
  "pop_reg r st = i_addi SP SP 16 (i_ld r SP 0 st)"

definition cast_to :: "ctype \<Rightarrow> emit \<Rightarrow> emit" where
  "cast_to t st =
     (if kind t = TY_VOID \<or> kind t = TY_PTR \<or> kind t = TY_ARRAY \<or> kind t = TY_FUNC then st
      else if ty_size t = 1 then
        (if is_unsigned t then emit32 (enc_i 0x13 A0 7 A0 0xff) st
         else emit32 (enc_i 0x13 A0 5 A0 0x438) (emit32 (enc_i 0x13 A0 1 A0 56) st))
      else if ty_size t = 2 then
        (let st = emit32 (enc_i 0x13 A0 1 A0 48) st
         in if is_unsigned t then emit32 (enc_i 0x13 A0 5 A0 48) st else emit32 (enc_i 0x13 A0 5 A0 0x430) st)
      else if ty_size t = 4 then
        (if is_unsigned t then emit32 (enc_i 0x13 A0 5 A0 32) (emit32 (enc_i 0x13 A0 1 A0 32) st)
         else emit32 (enc_i 0x1b A0 0 A0 0) st)
      else st)"

definition load_value :: "ctype \<Rightarrow> emit \<Rightarrow> emit res" where
  "load_value t st =
     (if kind t = TY_ARRAY \<or> kind t = TY_FUNC \<or> kind t = TY_VOID \<or> is_aggregate t then Ok st
      else if ty_size t = 1 then Ok (if is_unsigned t then i_lbu A0 A0 0 st else i_lb A0 A0 0 st)
      else if ty_size t = 2 then Ok (if is_unsigned t then i_lhu A0 A0 0 st else i_lh A0 A0 0 st)
      else if ty_size t = 4 then Ok (if is_unsigned t then i_lwu A0 A0 0 st else i_lw A0 A0 0 st)
      else if ty_size t = 8 then Ok (i_ld A0 A0 0 st)
      else Fatal)"

definition store_value :: "ctype \<Rightarrow> emit \<Rightarrow> emit res" where
  "store_value t st =
     (if is_aggregate t then Fatal
      else if ty_size t = 1 then Ok (i_sb A1 A0 0 st)
      else if ty_size t = 2 then Ok (i_sh A1 A0 0 st)
      else if ty_size t = 4 then Ok (i_sw A1 A0 0 st)
      else if ty_size t = 8 then Ok (i_sd A1 A0 0 st)
      else Fatal)"

definition type_step :: "ctype \<Rightarrow> int res" where
  "type_step ty =
     (let t = decay ty
      in if kind t \<noteq> TY_PTR then Ok 1
         else case base t of
                None \<Rightarrow> Fault
              | Some b \<Rightarrow> if ty_size b \<le> 0 then Fatal else Ok (ty_size b))"

section \<open>Operations\<close>

text \<open>Multiplies the register by the step of a pointer.\<close>

definition scale :: "int \<Rightarrow> int \<Rightarrow> emit \<Rightarrow> emit" where
  "scale r step st = (if step \<noteq> 1 then i_r 1 0 r r T0 (i_li T0 step st) else st)"

definition unsigned_cmp :: "ctype \<Rightarrow> ctype \<Rightarrow> bool" where
  "unsigned_cmp lt rt \<longleftrightarrow> is_unsigned lt \<or> is_unsigned rt \<or> kind lt = TY_PTR \<or> kind rt = TY_PTR"

text \<open>The \<open>switch\<close> of \<open>gen_bin\<close>; the operands are in \<open>a0\<close> and \<open>a1\<close>.\<close>

definition add_code :: "ctype \<Rightarrow> ctype \<Rightarrow> emit \<Rightarrow> emit res" where
  "add_code lt rt st =
     (if is_ptr_like lt \<and> is_integer rt then bind_res (type_step lt) (\<lambda>step. Ok (i_r 0 0 A0 A0 A1 (scale A1 step st)))
      else if is_ptr_like rt \<and> is_integer lt then bind_res (type_step rt) (\<lambda>step. Ok (i_r 0 0 A0 A1 A0 (scale A0 step st)))
      else Ok (i_r 0 0 A0 A0 A1 st))"

definition sub_code :: "ctype \<Rightarrow> ctype \<Rightarrow> emit \<Rightarrow> emit res" where
  "sub_code lt rt st =
     (if is_ptr_like lt \<and> is_ptr_like rt then
        bind_res (type_step lt) (\<lambda>step.
          let st = i_r 0x20 0 A0 A0 A1 st in Ok (if step \<noteq> 1 then i_r 1 4 A0 A0 A1 (i_li A1 step st) else st))
      else if is_ptr_like lt \<and> is_integer rt then
        bind_res (type_step lt) (\<lambda>step. Ok (i_r 0x20 0 A0 A0 A1 (scale A1 step st)))
      else Ok (i_r 0x20 0 A0 A0 A1 st))"

definition bin_code :: "binop \<Rightarrow> ctype \<Rightarrow> ctype \<Rightarrow> ctype \<Rightarrow> emit \<Rightarrow> emit res" where
  "bin_code k ty lt rt st =
     (let u = unsigned_cmp lt rt; lt_code = (\<lambda>rs2 rs1. emit32 (enc_r 0 rs2 rs1 (if u then 3 else 2) A0 0x33));
          done = (\<lambda>st. Ok (cast_to ty st))
      in case k of
           ND_ADD \<Rightarrow> bind_res (add_code lt rt st) done
         | ND_SUB \<Rightarrow> bind_res (sub_code lt rt st) done
         | ND_MUL \<Rightarrow> done (i_r 1 0 A0 A0 A1 st)
         | ND_DIV \<Rightarrow> done (i_r 1 (if u then 5 else 4) A0 A0 A1 st)
         | ND_MOD \<Rightarrow> done (i_r 1 (if u then 7 else 6) A0 A0 A1 st)
         | ND_BITAND \<Rightarrow> done (i_r 0 7 A0 A0 A1 st)
         | ND_BITOR \<Rightarrow> done (i_r 0 6 A0 A0 A1 st)
         | ND_BITXOR \<Rightarrow> done (i_r 0 4 A0 A0 A1 st)
         | ND_SHL \<Rightarrow> done (i_r 0 1 A0 A0 A1 st)
         | ND_SHR \<Rightarrow> done (i_r (if is_unsigned lt then 0 else 0x20) 5 A0 A0 A1 st)
         | ND_EQ \<Rightarrow> Ok (i_seqz A0 A0 (i_r 0 4 A0 A0 A1 st))
         | ND_NE \<Rightarrow> Ok (i_snez A0 A0 (i_r 0 4 A0 A0 A1 st))
         | ND_LT \<Rightarrow> Ok (lt_code A1 A0 st)
         | ND_GT \<Rightarrow> Ok (lt_code A0 A1 st)
         | ND_LE \<Rightarrow> Ok (emit32 (enc_i 0x13 A0 4 A0 1) (lt_code A0 A1 st))
         | ND_GE \<Rightarrow> Ok (emit32 (enc_i 0x13 A0 4 A0 1) (lt_code A1 A0 st)))"

text \<open>The \<open>switch\<close> of \<open>gen_opassign\<close>.\<close>

definition opassign_code :: "binop \<Rightarrow> ctype \<Rightarrow> emit \<Rightarrow> emit res" where
  "opassign_code k ty st =
     (let step = (\<lambda>st. if is_ptr_like ty then bind_res (type_step ty) (\<lambda>step. Ok (scale A1 step st)) else Ok st)
      in case k of
           ND_ADD \<Rightarrow> bind_res (step st) (\<lambda>st. Ok (i_r 0 0 A0 A0 A1 st))
         | ND_SUB \<Rightarrow> bind_res (step st) (\<lambda>st. Ok (i_r 0x20 0 A0 A0 A1 st))
         | ND_MUL \<Rightarrow> Ok (i_r 1 0 A0 A0 A1 st)
         | ND_DIV \<Rightarrow> Ok (i_r 1 4 A0 A0 A1 st)
         | ND_MOD \<Rightarrow> Ok (i_r 1 6 A0 A0 A1 st)
         | ND_BITAND \<Rightarrow> Ok (i_r 0 7 A0 A0 A1 st)
         | ND_BITOR \<Rightarrow> Ok (i_r 0 6 A0 A0 A1 st)
         | ND_BITXOR \<Rightarrow> Ok (i_r 0 4 A0 A0 A1 st)
         | ND_SHL \<Rightarrow> Ok (i_r 0 1 A0 A0 A1 st)
         | ND_SHR \<Rightarrow> Ok (i_r (if is_unsigned ty then 0 else 0x20) 5 A0 A0 A1 st)
         | _ \<Rightarrow> Fatal)"

text \<open>The end of an assignment: the address in \<open>a0\<close>, the value in \<open>a1\<close> and back in \<open>a0\<close>.\<close>

definition store_code :: "ctype \<Rightarrow> emit \<Rightarrow> emit res" where
  "store_code ty st = bind_res (store_value ty st) (\<lambda>st. Ok (cast_to ty (i_mv A0 A1 st)))"

definition incdec_code :: "bool \<Rightarrow> ctype \<Rightarrow> int \<Rightarrow> emit \<Rightarrow> emit res" where
  "incdec_code prefix ty delta st =
     bind_res (type_step ty) (\<lambda>step.
       let st = (if step \<noteq> 1 then i_r 0 0 A0 A0 T0 (i_li T0 (step * delta) st) else i_addi A0 A0 delta st);
           st = i_mv A0 T1 (pop_reg T1 (pop_reg T0 (pop_reg A1 (push_reg A0 st))))
       in bind_res (store_value ty st) (\<lambda>st. Ok (cast_to ty (i_mv A0 (if prefix then A1 else T0) st))))"

definition write_byte_code :: "genv \<Rightarrow> emit \<Rightarrow> emit" where
  "write_byte_code env st = i_ecall (i_li 17 (SYS_write env) (i_li A2 1 (i_mv A1 SP (i_li A0 1 st))))"

definition putchar_code :: "genv \<Rightarrow> emit \<Rightarrow> emit" where
  "putchar_code env st = i_addi SP SP 16 (write_byte_code env (i_sb A0 SP 0 (i_addi SP SP (- 16) st)))"

fun pop_args :: "nat \<Rightarrow> emit \<Rightarrow> emit" where
  "pop_args 0 st = st"
| "pop_args (Suc i) st = pop_args i (pop_reg (A0 + int i) st)"

text \<open>A call of a known function, from the arguments in their registers on.\<close>

definition is_syscall :: "byte list \<Rightarrow> bool" where
  "is_syscall name \<longleftrightarrow> name = bytes ''write'' \<or> name = bytes ''read'' \<or> name = bytes ''open'' \<or> name = bytes ''close''"

definition sysno :: "genv \<Rightarrow> byte list \<Rightarrow> int" where
  "sysno env name =
     (if name = bytes ''write'' then SYS_write env else if name = bytes ''read'' then SYS_read env
      else if name = bytes ''open'' then SYS_open env else SYS_close env)"

definition direct_call_code :: "genv \<Rightarrow> ctype \<Rightarrow> obj \<Rightarrow> nat \<Rightarrow> emit \<Rightarrow> emit" where
  "direct_call_code env ty v nargs st =
     (let name = o_name v; builtin_ok = \<not> o_defined v
      in if builtin_ok \<and> name = bytes ''exit'' then
           emit32 (enc_j 0x6f X0 0) (i_ecall (i_li 17 (SYS_exit env) (if nargs = 0 then i_li A0 0 st else st)))
         else if builtin_ok \<and> is_syscall name then
           i_ecall (i_li 17 (sysno env name) (if name = bytes ''open'' \<and> nargs < 3 then i_li A2 0 st else st))
         else let st = i_call_sym (o_sym v) st;
                  rt = (if kind (o_ty v) = TY_FUNC then (case base (o_ty v) of Some b \<Rightarrow> b | None \<Rightarrow> ty) else ty)
              in if ty_size rt < 8 then cast_to rt st else st)"

definition va_start_code :: "genv \<Rightarrow> emit \<Rightarrow> emit res" where
  "va_start_code env st =
     (case g_fn env of
        None \<Rightarrow> Fatal
      | Some f \<Rightarrow>
          (case fn_va_area f of
             None \<Rightarrow> Fatal
           | Some off \<Rightarrow> Ok (i_addi A0 S0 (- off + int (length (fn_params f)) * 8) st)))"

section \<open>Expressions\<close>

function (sequential)
  gen_addr :: "genv \<Rightarrow> node \<Rightarrow> emit \<Rightarrow> emit res" and
  gen_expr :: "genv \<Rightarrow> node \<Rightarrow> emit \<Rightarrow> emit res" and
  gen_call :: "genv \<Rightarrow> ctype \<Rightarrow> obj option \<Rightarrow> node option \<Rightarrow> node list \<Rightarrow> emit \<Rightarrow> emit res" and
  gen_args :: "genv \<Rightarrow> node list \<Rightarrow> emit \<Rightarrow> emit res"
where
  "gen_addr env (ND_VAR t v) st = Ok (if o_is_local v then i_addi A0 S0 (- o_offset v) st else i_la A0 (o_sym v) 0 st)"
| "gen_addr env (ND_DEREF t l) st = gen_expr env l st"
| "gen_addr env (ND_MEMBER t l off) st =
     bind_res (gen_addr env l st) (\<lambda>st. Ok (if off \<noteq> 0 then i_addi A0 A0 off st else st))"
| "gen_addr env _ st = Fatal"
| "gen_expr env ND_NULL st = Ok st"
| "gen_expr env (ND_NUM t val) st = Ok (i_li A0 val st)"
| "gen_expr env (ND_STR t s) st = Ok (i_la A0 s 0 st)"
| "gen_expr env (ND_VAR t v) st =
     (if o_is_function v then Ok (i_la A0 (o_sym v) 0 st)
      else bind_res (gen_addr env (ND_VAR t v) st) (load_value t))"
| "gen_expr env (ND_DEREF t l) st = bind_res (gen_expr env l st) (load_value t)"
| "gen_expr env (ND_MEMBER t l off) st = bind_res (gen_addr env (ND_MEMBER t l off) st) (load_value t)"
| "gen_expr env (ND_ADDR t l) st = gen_addr env l st"
| "gen_expr env (ND_ASSIGN t l r) st =
     bind_res (gen_addr env l st) (\<lambda>st.
     bind_res (gen_expr env r (push_reg A0 st)) (\<lambda>st.
       let st = pop_reg A0 (i_mv A1 A0 st)
       in if is_aggregate (nty l) then Ok (i_call_sym (memcpy_sym env) (i_li A2 (ty_size (nty l)) st))
          else store_code (nty l) st))"
| "gen_expr env (ND_OPASSIGN k t l r) st =
     bind_res (gen_addr env l st) (\<lambda>st.
     bind_res (load_value (nty l) (push_reg A0 st)) (\<lambda>st.
     bind_res (gen_expr env r (push_reg A0 st)) (\<lambda>st.
     bind_res (opassign_code k (nty l) (pop_reg A0 (i_mv A1 A0 st))) (\<lambda>st.
       store_code (nty l) (pop_reg A0 (pop_reg A1 (push_reg A0 st)))))))"
| "gen_expr env (ND_PREINC t l delta) st =
     bind_res (gen_addr env l st) (\<lambda>st.
     bind_res (load_value (nty l) (push_reg A0 st)) (\<lambda>st. incdec_code True (nty l) delta (push_reg A0 st)))"
| "gen_expr env (ND_POSTINC t l delta) st =
     bind_res (gen_addr env l st) (\<lambda>st.
     bind_res (load_value (nty l) (push_reg A0 st)) (\<lambda>st. incdec_code False (nty l) delta (push_reg A0 st)))"
| "gen_expr env (ND_CAST t l) st = bind_res (gen_expr env l st) (\<lambda>st. Ok (cast_to t st))"
| "gen_expr env (ND_COMMA t l r) st = bind_res (gen_expr env l st) (gen_expr env r)"
| "gen_expr env (ND_COND t c a b) st =
     (case new_label st of (lelse, st) \<Rightarrow> case new_label st of (lend, st) \<Rightarrow>
       bind_res (gen_expr env c st) (\<lambda>st.
       bind_res (gen_expr env a (jump_if_zero A0 lelse st)) (\<lambda>st.
       bind_res (gen_expr env b (place_label lelse (jump_to lend st))) (\<lambda>st. Ok (place_label lend st)))))"
| "gen_expr env (ND_LOGAND t l r) st =
     (case new_label st of (lfalse, st) \<Rightarrow> case new_label st of (lend, st) \<Rightarrow>
       bind_res (gen_expr env l st) (\<lambda>st.
       bind_res (gen_expr env r (jump_if_zero A0 lfalse st)) (\<lambda>st.
         let st = i_li A0 1 (jump_if_zero A0 lfalse st); st = place_label lfalse (jump_to lend st)
         in Ok (place_label lend (i_li A0 0 st)))))"
| "gen_expr env (ND_LOGOR t l r) st =
     (case new_label st of (ltrue, st) \<Rightarrow> case new_label st of (lend, st) \<Rightarrow>
       bind_res (gen_expr env l st) (\<lambda>st.
       bind_res (gen_expr env r (jump_if_nonzero A0 ltrue st)) (\<lambda>st.
         let st = i_li A0 0 (jump_if_nonzero A0 ltrue st); st = place_label ltrue (jump_to lend st)
         in Ok (place_label lend (i_li A0 1 st)))))"
| "gen_expr env (ND_NEG t l) st = bind_res (gen_expr env l st) (\<lambda>st. Ok (cast_to t (i_r 0x20 0 A0 X0 A0 st)))"
| "gen_expr env (ND_NOT t l) st = bind_res (gen_expr env l st) (\<lambda>st. Ok (i_seqz A0 A0 st))"
| "gen_expr env (ND_BITNOT t l) st = bind_res (gen_expr env l st) (\<lambda>st. Ok (emit32 (enc_i 0x13 A0 4 A0 (- 1)) st))"
| "gen_expr env (ND_BIN k t l r) st =
     bind_res (gen_expr env l st) (\<lambda>st.
     bind_res (gen_expr env r (push_reg A0 st)) (\<lambda>st.
       bin_code k t (decay (nty l)) (decay (nty r)) (pop_reg A0 (i_mv A1 A0 st))))"
| "gen_expr env (ND_CALL t v callee args) st = gen_call env t v callee args st"
| "gen_expr env _ st = Fatal"
| "gen_call env t (Some v) callee args st =
     (let name = o_name v; builtin_ok = \<not> o_defined v
      in if name = bytes ''__builtin_va_start'' then va_start_code env st
         else if builtin_ok \<and> name = bytes ''putchar'' then
           (case args of [a] \<Rightarrow> bind_res (gen_expr env a st) (\<lambda>st. Ok (putchar_code env st)) | _ \<Rightarrow> Fatal)
         else if builtin_ok \<and> name = bytes ''puts'' then
           (case args of [a] \<Rightarrow> bind_res (gen_expr env a st) (\<lambda>st. Ok (i_call_sym (puts_sym env) st)) | _ \<Rightarrow> Fatal)
         else bind_res (gen_args env args st) (\<lambda>st. Ok (direct_call_code env t v (length args) (pop_args (length args) st))))"
| "gen_call env t None (Some c) args st =
     bind_res (gen_expr env c st) (\<lambda>st.
     bind_res (gen_args env args (push_reg A0 st)) (\<lambda>st.
       let st = emit32 (enc_i 0x67 RA 0 T2 0) (pop_reg T2 (pop_args (length args) st))
       in Ok (if ty_size t < 8 then cast_to t st else st)))"
| "gen_call env t None None args st = Fault"
| "gen_args env [] st = Ok st"
| "gen_args env (a # as) st = bind_res (gen_expr env a st) (\<lambda>st. gen_args env as (push_reg A0 st))"
  by pat_completeness auto
termination
  by (relation "measure (\<lambda>x. case x of
      Inl (Inl (_, n, _)) \<Rightarrow> 2 * size n
    | Inl (Inr (_, n, _)) \<Rightarrow> 2 * size n + 1
    | Inr (Inl (_, _, _, c, as, _)) \<Rightarrow> 2 * (size_option size c + size_list size as) + 1
    | Inr (Inr (_, as, _)) \<Rightarrow> 2 * size_list size as)")
    (auto split: list.splits)

section \<open>Statements\<close>

definition on_emit :: "(emit \<Rightarrow> emit) \<Rightarrow> cgen \<Rightarrow> cgen" where
  "on_emit f g = g\<lparr>em := f (em g)\<rparr>"

definition label_new :: "cgen \<Rightarrow> nat \<times> cgen" where
  "label_new g = (case new_label (em g) of (l, st) \<Rightarrow> (l, g\<lparr>em := st\<rparr>))"

definition expr_stmt :: "genv \<Rightarrow> node \<Rightarrow> cgen \<Rightarrow> cgen res" where
  "expr_stmt env e g = bind_res (gen_expr env e (em g)) (\<lambda>st. Ok (g\<lparr>em := st\<rparr>))"

definition clabel_get :: "byte list \<Rightarrow> cgen \<Rightarrow> nat \<times> cgen" where
  "clabel_get name g =
     (case map_of (clabels g) name of
        Some l \<Rightarrow> (l, g)
      | None \<Rightarrow> case label_new g of (l, g) \<Rightarrow> (l, g\<lparr>clabels := (name, l) # clabels g\<rparr>))"

definition return_code :: "emit \<Rightarrow> emit" where
  "return_code st = i_ret (i_ld S0 SP (- 16) (i_ld RA SP (- 8) (i_mv SP S0 st)))"

text \<open>The comparisons of a \<open>switch\<close>, and the \<open>default\<close> entry when there is one.\<close>

fun gen_cases :: "case_entry list \<Rightarrow> case_entry option \<Rightarrow> emit \<Rightarrow> case_entry option \<times> emit" where
  "gen_cases [] def st = (def, st)"
| "gen_cases (e # es) def st =
     (if e_is_default e then gen_cases es (Some e) st
      else gen_cases es def (add_fixup (e_label e) (i_bf 1 A1 T0 8 (i_li T0 (e_val e) st))))"

fun gen_stmt :: "genv \<Rightarrow> nat option \<Rightarrow> nat option \<Rightarrow> node \<Rightarrow> cgen \<Rightarrow> cgen res"
  and gen_opt :: "genv \<Rightarrow> nat option \<Rightarrow> nat option \<Rightarrow> node option \<Rightarrow> cgen \<Rightarrow> cgen res"
  and gen_block :: "genv \<Rightarrow> nat option \<Rightarrow> nat option \<Rightarrow> node list \<Rightarrow> cgen \<Rightarrow> cgen res"
where
  "gen_stmt env brk cont ND_NULL g = Ok g"
| "gen_stmt env brk cont (ND_MEMZERO l val) g =
     bind_res (gen_addr env l (em g)) (\<lambda>st. Ok (g\<lparr>em := i_call_sym (memset_sym env) (i_li A2 val (i_li A1 0 st))\<rparr>))"
| "gen_stmt env brk cont (ND_BLOCK body) g = gen_block env brk cont body g"
| "gen_stmt env brk cont (ND_EXPR_STMT e) g = expr_stmt env e g"
| "gen_stmt env brk cont (ND_RETURN e) g =
     bind_res (case e of Some e \<Rightarrow> expr_stmt env e g | None \<Rightarrow> Ok (on_emit (i_li A0 0) g)) (\<lambda>g. Ok (on_emit return_code g))"
| "gen_stmt env brk cont (ND_IF c a b) g =
     (case label_new g of (lelse, g) \<Rightarrow> case label_new g of (lend, g) \<Rightarrow>
       bind_res (expr_stmt env c g) (\<lambda>g.
       bind_res (gen_stmt env brk cont a (on_emit (jump_if_zero A0 lelse) g)) (\<lambda>g.
         case b of
           None \<Rightarrow> Ok (on_emit (place_label lelse) g)
         | Some b \<Rightarrow>
             bind_res (gen_stmt env brk cont b (on_emit (\<lambda>st. place_label lelse (jump_to lend st)) g)) (\<lambda>g.
               Ok (on_emit (place_label lend) g)))))"
| "gen_stmt env brk cont (ND_WHILE c body) g =
     (case label_new g of (lbegin, g) \<Rightarrow> case label_new g of (lend, g) \<Rightarrow>
       bind_res (expr_stmt env c (on_emit (place_label lbegin) g)) (\<lambda>g.
       bind_res (gen_stmt env (Some lend) (Some lbegin) body (on_emit (jump_if_zero A0 lend) g)) (\<lambda>g.
         Ok (on_emit (\<lambda>st. place_label lend (jump_to lbegin st)) g))))"
| "gen_stmt env brk cont (ND_FOR ini c inc body) g =
     (case label_new g of (lbegin, g) \<Rightarrow> case label_new g of (lcont, g) \<Rightarrow> case label_new g of (lend, g) \<Rightarrow>
       bind_res (gen_opt env (Some lend) (Some lcont) ini g) (\<lambda>g.
       bind_res (case c of
           None \<Rightarrow> Ok (on_emit (place_label lbegin) g)
         | Some c \<Rightarrow> bind_res (expr_stmt env c (on_emit (place_label lbegin) g)) (\<lambda>g. Ok (on_emit (jump_if_zero A0 lend) g))) (\<lambda>g.
       bind_res (gen_stmt env (Some lend) (Some lcont) body g) (\<lambda>g.
       bind_res (case inc of
           None \<Rightarrow> Ok (on_emit (place_label lcont) g)
         | Some e \<Rightarrow> expr_stmt env e (on_emit (place_label lcont) g)) (\<lambda>g.
         Ok (on_emit (\<lambda>st. place_label lend (jump_to lbegin st)) g))))))"
| "gen_stmt env brk cont (ND_DO body c) g =
     (case label_new g of (lbegin, g) \<Rightarrow> case label_new g of (lcont, g) \<Rightarrow> case label_new g of (lend, g) \<Rightarrow>
       bind_res (gen_stmt env (Some lend) (Some lcont) body (on_emit (place_label lbegin) g)) (\<lambda>g.
       bind_res (expr_stmt env c (on_emit (place_label lcont) g)) (\<lambda>g.
         Ok (on_emit (\<lambda>st. place_label lend (jump_if_nonzero A0 lbegin st)) g))))"
| "gen_stmt env brk cont ND_BREAK g = (case brk of None \<Rightarrow> Fatal | Some l \<Rightarrow> Ok (on_emit (jump_to l) g))"
| "gen_stmt env brk cont ND_CONTINUE g = (case cont of None \<Rightarrow> Fatal | Some l \<Rightarrow> Ok (on_emit (jump_to l) g))"
| "gen_stmt env brk cont (ND_SWITCH c cases body) g =
     (case label_new g of (lend, g) \<Rightarrow>
       bind_res (expr_stmt env c g) (\<lambda>g.
         case gen_cases cases None (i_mv A1 A0 (em g)) of (def, st) \<Rightarrow>
           bind_res (gen_stmt env (Some lend) cont body
             (g\<lparr>em := (case def of Some e \<Rightarrow> add_fixup (e_label e) st | None \<Rightarrow> jump_to lend st)\<rparr>)) (\<lambda>g.
             Ok (on_emit (place_label lend) g))))"
| "gen_stmt env brk cont (ND_CASE l body) g = gen_stmt env brk cont body (on_emit (place_label l) g)"
| "gen_stmt env brk cont (ND_DEFAULT l body) g = gen_stmt env brk cont body (on_emit (place_label l) g)"
| "gen_stmt env brk cont (ND_GOTO name) g = (case clabel_get name g of (l, g) \<Rightarrow> Ok (on_emit (jump_to l) g))"
| "gen_stmt env brk cont (ND_LABEL name body) g =
     (case clabel_get name g of (l, g) \<Rightarrow>
       if label_pos (em g) ! l \<ge> 0 then Fatal
       else gen_stmt env brk cont body (on_emit (place_label l) g))"
| "gen_stmt env brk cont _ g = Fatal"
| "gen_opt env brk cont None g = Ok g"
| "gen_opt env brk cont (Some n) g = gen_stmt env brk cont n g"
| "gen_block env brk cont [] g = Ok g"
| "gen_block env brk cont (s # ss) g = bind_res (gen_stmt env brk cont s g) (gen_block env brk cont ss)"

section \<open>Functions\<close>

text \<open>The loops that store the parameters and, for a variadic function, the argument registers.\<close>

fun store_params :: "nat \<Rightarrow> obj option list \<Rightarrow> emit \<Rightarrow> emit res" where
  "store_params i [] st = Ok st"
| "store_params i (None # ps) st = Fatal"
| "store_params i (Some v # ps) st = store_params (Suc i) ps (i_sd (A0 + int i) T0 0 (i_addi T0 S0 (- o_offset v) st))"

definition store_va_area :: "int \<Rightarrow> emit \<Rightarrow> emit" where
  "store_va_area off st = fold (\<lambda>i. i_sd (A0 + int i) T0 (int i * 8)) [0..<8] (i_addi T0 S0 (- off) st)"

definition emit_prologue :: "func \<Rightarrow> emit \<Rightarrow> emit res" where
  "emit_prologue fn st =
     (let f = fn_frame_size fn;
          st = i_sd T0 S0 (- 16) (i_sd RA S0 (- 8) (i_addi S0 SP f (i_addi SP SP (- f) (i_mv T0 S0 st))))
      in bind_res (store_params 0 (fn_params fn) st) (\<lambda>st.
           if fn_variadic fn then (case fn_va_area fn of None \<Rightarrow> Fatal | Some off \<Rightarrow> Ok (store_va_area off st)) else Ok st))"

definition check_clabels :: "cgen \<Rightarrow> cgen res" where
  "check_clabels g = (if \<exists>l\<in>set (clabels g). label_pos (em g) ! snd l < 0 then Fatal else Ok (g\<lparr>clabels := []\<rparr>))"

definition patched :: "emit \<Rightarrow> emit res" where
  "patched st = (case patch_fixups st of None \<Rightarrow> Fatal | Some st \<Rightarrow> Ok st)"

text \<open>The offset of the symbol of the function, and the code.\<close>

definition gen_function :: "genv \<Rightarrow> func \<Rightarrow> emit \<Rightarrow> (int \<times> emit) res" where
  "gen_function env fn st =
     bind_res (emit_prologue fn st) (\<lambda>st1.
     bind_res (gen_stmt (env\<lparr>g_fn := Some fn\<rparr>) None None (fn_body fn) \<lparr>em = st1, clabels = []\<rparr>) (\<lambda>g.
     bind_res (check_clabels g) (\<lambda>g.
     bind_res (patched (return_code (i_li A0 0 (em g)))) (\<lambda>st2. Ok (int (length (data (code st))), st2)))))"

section \<open>The run-time routines\<close>

definition new_sym :: "byte list \<Rightarrow> int \<Rightarrow> int \<Rightarrow> int \<Rightarrow> sym" where
  "new_sym name sec sz al =
     \<lparr>s_name = name, s_sec = sec, s_offset = 0, s_size = sz, s_align = (if al \<noteq> 0 then al else 1), s_defined = False,
      s_static = False, s_addr = 0, s_init = None, s_drel = []\<rparr>"

definition text_sym :: "string \<Rightarrow> emit \<Rightarrow> sym" where
  "text_sym name st = (new_sym (bytes name) 0 0 4)\<lparr>s_defined := True, s_offset := int (length (data (code st)))\<rparr>"

definition gen_puts :: "genv \<Rightarrow> emit \<Rightarrow> emit" where
  "gen_puts env st =
     (case new_label st of (l1, st) \<Rightarrow> case new_label st of (l2, st) \<Rightarrow>
       let st = place_label l1 (i_li T1 0 (i_mv T0 A0 st));
           st = jump_if_zero 28 l2 (i_lbu 28 T2 0 (i_r 0 0 T2 T0 T1 st));
           st = place_label l2 (jump_to l1 (i_addi T1 T1 1 st));
           st = i_ecall (i_li 17 (SYS_write env) (i_mv A2 T1 (i_mv A1 T0 (i_li A0 1 st))));
           st = i_sb T0 SP 0 (i_li T0 10 (i_addi SP SP (- 16) st));
           st = i_addi SP SP 16 (write_byte_code env st)
       in i_ret (i_li A0 0 st))"

definition gen_memcpy :: "emit \<Rightarrow> emit" where
  "gen_memcpy st =
     (case new_label st of (loop, st) \<Rightarrow> case new_label st of (done, st) \<Rightarrow>
       let st = place_label loop (jump_if_zero A2 done (i_mv T0 A0 st));
           st = i_sb T1 T0 0 (i_lbu T1 A1 0 st);
           st = i_addi A2 A2 (- 1) (i_addi T0 T0 1 (i_addi A1 A1 1 st))
       in i_ret (place_label done (jump_if_nonzero A2 loop st)))"

definition gen_memset :: "emit \<Rightarrow> emit" where
  "gen_memset st =
     (case new_label st of (loop, st) \<Rightarrow> case new_label st of (done, st) \<Rightarrow>
       let st = place_label loop (jump_if_zero A2 done (i_mv T0 A0 st));
           st = i_addi A2 A2 (- 1) (i_addi T0 T0 1 (i_sb A1 T0 0 st))
       in i_ret (place_label done (jump_if_nonzero A2 loop st)))"

text \<open>The symbols and the code of the run-time unit.\<close>

definition gen_runtime :: "genv \<Rightarrow> emit \<Rightarrow> (sym list \<times> emit) res" where
  "gen_runtime env st =
     bind_res (patched (gen_puts env st)) (\<lambda>st1.
     bind_res (patched (gen_memcpy st1)) (\<lambda>st2.
     bind_res (patched (gen_memset st2)) (\<lambda>st3.
       Ok ([text_sym ''__cc_puts'' st, text_sym ''__cc_memcpy'' st1, text_sym ''__cc_memset'' st2], st3))))"

definition gen_start :: "genv \<Rightarrow> nat \<Rightarrow> emit \<Rightarrow> sym \<times> emit" where
  "gen_start env main_sym st =
     (text_sym ''__cc_start'' st, emit32 (enc_j 0x6f X0 0) (i_ecall (i_li 17 (SYS_exit env) (i_call_sym main_sym st))))"

end
