(* ===== verification/Cc_Run.thy ===== *)
theory Cc_Run
  imports Cc_Codegen Cc_Jumps
begin

text \<open>
  Running generated code. The state of the emitter while a function is generated determines what
  stands at which place of the final, patched code: straight code stays as it was emitted, and
  jumps lead to where their labels were placed. The laws here turn that into runs of the
  machine, from the place where a piece of code begins to the place where it ends.
\<close>

section \<open>Memory\<close>

lemma mem_write_other: "\<forall>i<n. b \<noteq> a + of_nat i \<Longrightarrow> mem_write n a v M b = M b"
proof (induction n arbitrary: a v M)
  case (Suc n)
  have "\<forall>i<n. b \<noteq> a + 1 + of_nat i"
  proof safe
    fix i assume "i < n" "b = a + 1 + of_nat i"
    then show False using Suc.prems [rule_format, of "Suc i"] by (simp add: algebra_simps)
  qed
  moreover have "b \<noteq> a" using Suc.prems [rule_format, of 0] by simp
  ultimately show ?case using Suc.IH [of "a + 1" "v div 256" "M(a := word_of_int v)"] by (simp del: fun_upd_apply) simp
qed simp

lemma mem_read_cong: "\<forall>i<n. M (a + of_nat i) = M' (a + of_nat i) \<Longrightarrow> mem_read n a M = mem_read n a M'"
proof (induction n arbitrary: a)
  case (Suc n)
  have "M (a + 1 + of_nat i) = M' (a + 1 + of_nat i)" if "i < n" for i
    using Suc.prems [rule_format, of "Suc i"] that by (simp add: algebra_simps)
  then show ?case using Suc.IH [of "a + 1"] Suc.prems [rule_format, of 0] by simp
qed simp

lemma word_of_int_byte: "uint (word_of_int v :: byte) = v mod 256"
  by (simp add: uint_word_of_int_eq take_bit_eq_mod)

lemma mod_256: "v mod 256 + 256 * (v div 256 mod 256 ^ k) = v mod 256 ^ Suc k" for v :: int
proof -
  have "v mod (256 * 256 ^ k) = 256 * (v div 256 mod 256 ^ k) + v mod 256" by (rule zmod_zmult2_eq) simp
  then show ?thesis by simp
qed

lemma mem_read_write: "k \<le> n \<Longrightarrow> n \<le> 8 \<Longrightarrow> mem_read k a (mem_write n a v M) = v mod 256 ^ k"
proof (induction n arbitrary: k a v M)
  case (Suc n)
  show ?case
  proof (cases k)
    case (Suc k')
    have "\<forall>i<n. a \<noteq> a + 1 + of_nat i"
    proof safe
      fix i assume "i < n" and e: "a = a + 1 + of_nat i"
      then have "of_nat (Suc i) = (0 :: 64 word)" by (simp add: algebra_simps)
      then have "unat (of_nat (Suc i) :: 64 word) = 0" by (metis unat_0)
      moreover have "unat (of_nat (Suc i) :: 64 word) = Suc i" using \<open>i < n\<close> Suc.prems by (simp only: unsigned_of_nat) (simp add: take_bit_nat_eq_self)
      ultimately show False by simp
    qed
    then have "mem_write n (a + 1) (v div 256) (M(a := word_of_int v)) a = word_of_int v" by (simp add: mem_write_other)
    moreover have "mem_read k' (a + 1) (mem_write n (a + 1) (v div 256) (M(a := word_of_int v))) = v div 256 mod 256 ^ k'"
      using Suc.prems Suc by (intro Suc.IH) auto
    ultimately show ?thesis unfolding Suc by (simp add: word_of_int_byte mod_256)
  qed simp
qed simp

lemma byte_digit: "d \<le> 255 \<Longrightarrow> r < p \<Longrightarrow> d + 256 * r < 256 * p" for d r p :: int
  by linarith

lemma mem_read_nonneg: "0 \<le> mem_read n a M"
  by (induction n arbitrary: a) simp_all

lemma mem_read_less: "mem_read n a M < 256 ^ n"
proof (induction n arbitrary: a)
  case (Suc n)
  have "uint (M a) \<le> 255" using uint_lt2p [of "M a"] by simp
  from byte_digit [OF this Suc [of "a + 1"]] show ?case by simp
qed simp

text \<open>Places are given by their distance below a base, less than the whole address space.\<close>

abbreviation below :: "64 word \<Rightarrow> int \<Rightarrow> 64 word" where
  "below fp x \<equiv> fp - word_of_int x"

lemma below_inj:
  assumes "below fp x = below fp y" "0 \<le> x" "x < 2 ^ 64" "0 \<le> y" "y < 2 ^ 64"
  shows "x = y"
proof -
  have "word_of_int x = (word_of_int y :: 64 word)" using assms(1) by simp
  then have "take_bit 64 x = take_bit 64 y" by (simp add: word_of_int_eq_iff)
  then show ?thesis using assms(2-5) by (simp add: take_bit_int_eq_self)
qed

lemma below_add: "below fp x + of_nat i = below fp (x - int i)"
  by (simp add: algebra_simps)

text \<open>\<open>n\<close> bytes at \<open>x\<close> are the places from \<open>x\<close> down to \<open>x - n + 1\<close>.\<close>

lemma write_below_other:
  assumes "y < x - int n + 1 \<or> x < y" "int n \<le> x + 1" "x < 2 ^ 64" "0 \<le> y" "y < 2 ^ 64"
  shows "mem_write n (below fp x) v M (below fp y) = M (below fp y)"
proof (rule mem_write_other, safe)
  fix i assume i: "i < n" and "below fp y = below fp x + of_nat i"
  then have "below fp y = below fp (x - int i)" by (simp only: below_add)
  then have "y = x - int i" using assms i by (intro below_inj) auto
  then show False using assms(1) i by auto
qed

lemma read_write_below_other:
  assumes "y < x - int n + 1 \<or> x < y - int k + 1" "int n \<le> x + 1" "x < 2 ^ 64" "int k \<le> y + 1" "y < 2 ^ 64"
  shows "mem_read k (below fp y) (mem_write n (below fp x) v M) = mem_read k (below fp y) M"
proof (rule mem_read_cong, safe)
  fix i assume "i < k"
  then show "mem_write n (below fp x) v M (below fp y + of_nat i) = M (below fp y + of_nat i)"
    unfolding below_add using assms by (intro write_below_other) auto
qed

section \<open>Pieces of code\<close>

abbreviation nlabels :: "emit \<Rightarrow> nat" where
  "nlabels st \<equiv> length (label_pos st)"

text \<open>The machine is at the place where the emitter is.\<close>

definition at :: "emit \<Rightarrow> machine \<Rightarrow> bool" where
  "at st m \<longleftrightarrow> pc m = int (code_len st)"

text \<open>A piece of code that places only labels of its own; what is emitted after a piece of code
  keeps the labels that are placed.\<close>

definition keeps :: "emit \<Rightarrow> emit \<Rightarrow> bool" where
  "keeps st st' \<longleftrightarrow> emits_all st st' \<and> nlabels st \<le> nlabels st' \<and> (\<forall>l<nlabels st. label_pos st' ! l = label_pos st ! l)"

definition later :: "emit \<Rightarrow> emit \<Rightarrow> bool" where
  "later st fin \<longleftrightarrow> emits_all st fin \<and> (\<forall>l<nlabels st. 0 \<le> label_pos st ! l \<longrightarrow> label_pos fin ! l = label_pos st ! l)"

definition final :: "emit \<Rightarrow> byte list \<Rightarrow> bool" where
  "final fin bs \<longleftrightarrow> emit_ok fin \<and> (\<exists>fin' suf. patch_fixups fin = Some fin' \<and> bs = data (code fin') @ suf)"

definition runs :: "byte list \<Rightarrow> machine \<Rightarrow> machine \<Rightarrow> bool" where
  "runs bs m m' \<longleftrightarrow> (\<exists>n. steps bs n m = Some m')"

lemma keeps_refl [simp]: "keeps st st"
  by (simp add: keeps_def)

lemma keeps_trans: "keeps st st' \<Longrightarrow> keeps st' st'' \<Longrightarrow> keeps st st''"
  by (auto simp: keeps_def intro: rtranclp_trans)

lemma keeps_later: "keeps st st' \<Longrightarrow> later st' fin \<Longrightarrow> later st fin"
  by (auto simp: keeps_def later_def intro: rtranclp_trans)

lemma keeps_ok: "keeps st st' \<Longrightarrow> emit_ok st \<Longrightarrow> emit_ok st'"
  by (auto simp: keeps_def intro: emits_all_ok)

lemma keeps_step:
  assumes "keeps st st'" "emits st' st''" "nlabels st' \<le> nlabels st''" "\<forall>l<nlabels st. label_pos st'' ! l = label_pos st' ! l"
  shows "keeps st st''"
  using assms rtranclp.rtrancl_into_rtrancl [of emits st st' st''] by (simp add: keeps_def)

lemma keeps_emit32 [intro]: "keeps st st' \<Longrightarrow> keeps st (emit32 w st')"
  by (rule keeps_step [OF _ emits.ins]) simp_all

lemma keeps_reloc [intro]: "keeps st st' \<Longrightarrow> keeps st (add_reloc k s a st')"
  by (rule keeps_step [OF _ emits.reloc]) (simp_all add: add_reloc_def)

lemma keeps_fixup [intro]: "keeps st st' \<Longrightarrow> l < nlabels st' \<Longrightarrow> keeps st (add_fixup l st')"
  by (rule keeps_step [OF _ emits.fixup]) (simp_all add: add_fixup_def)

lemma keeps_label: "keeps st st' \<Longrightarrow> keeps st (snd (new_label st'))"
  by (rule keeps_step [OF _ emits.label]) (auto simp: new_label_def nth_append keeps_def)

lemma keeps_place [intro]: "keeps st st' \<Longrightarrow> nlabels st \<le> l \<Longrightarrow> l < nlabels st' \<Longrightarrow> keeps st (place_label l st')"
  by (rule keeps_step [OF _ emits.place]) (simp_all add: place_label_def)

lemma keeps_nlabels: "keeps st st' \<Longrightarrow> nlabels st \<le> nlabels st'"
  by (simp add: keeps_def)

text \<open>A label is, in the end, where it was placed.\<close>

lemma placed_later:
  assumes "later (place_label l st) fin" "l < nlabels st"
  shows "label_pos fin ! l = int (code_len st)"
  using assms by (auto simp: later_def place_label_def)

lemma placed_kept:
  assumes "keeps (place_label l st) st'" "later st' fin" "l < nlabels st"
  shows "label_pos fin ! l = int (code_len st)"
  using placed_later [OF keeps_later [OF assms(1,2)] assms(3)] .

lemma runs_refl [simp]: "runs bs m m"
  unfolding runs_def by (rule exI [of _ 0]) simp

lemma steps_add: "steps bs n m = Some m' \<Longrightarrow> steps bs k m' = Some m'' \<Longrightarrow> steps bs (n + k) m = Some m''"
  by (induction n arbitrary: m) (auto split: option.splits)

lemma runs_trans: "runs bs m m' \<Longrightarrow> runs bs m' m'' \<Longrightarrow> runs bs m m''"
  unfolding runs_def using steps_add by blast

lemma cpu_step_append: "cpu_step bs m = Some m' \<Longrightarrow> cpu_step (bs @ suf) m = Some m'"
  by (auto simp: cpu_step_def word_at_def nth_append split: if_splits)

lemma runs_step: "cpu_step bs m = Some m' \<Longrightarrow> runs (bs @ suf) m m'"
  unfolding runs_def using cpu_step_append [of bs m m' suf] by (intro exI [of _ 1]) simp

lemma steps_append: "steps bs n m = Some m' \<Longrightarrow> steps (bs @ suf) n m = Some m'"
proof (induction n arbitrary: m)
  case (Suc n)
  obtain m1 where "cpu_step bs m = Some m1" "steps bs n m1 = Some m'" using Suc.prems by (auto split: option.splits)
  then show ?case using Suc.IH [of m1] cpu_step_append [of bs m m1 suf] by simp
qed simp

section \<open>Straight code\<close>

definition emit_all :: "32 word list \<Rightarrow> emit \<Rightarrow> emit" where
  "emit_all ws st = fold emit32 ws st"

lemma emit_all_simps [simp]: "emit_all [] st = st" "emit_all (w # ws) st = emit_all ws (emit32 w st)"
  by (simp_all add: emit_all_def)

lemma emit_all_append [simp]: "emit_all (us @ vs) st = emit_all vs (emit_all us st)"
  by (simp add: emit_all_def)

lemma emit_all_other [simp]:
  "fixups (emit_all ws st) = fixups st" "relocs (emit_all ws st) = relocs st" "label_pos (emit_all ws st) = label_pos st"
  "data (code (emit_all ws st)) = data (code st) @ concat (map ins_bytes ws)"
  by (induction ws arbitrary: st) simp_all

lemma keeps_emit_all [intro]: "keeps st st' \<Longrightarrow> keeps st (emit_all ws st')"
  by (induction ws arbitrary: st') auto

lemma runs_ins:
  assumes "final fin bs" "later (emit32 w st) fin" "emit_ok st" "at st m" "exec w m = Some m'"
  shows "runs bs m m'"
proof -
  obtain fin' suf where f: "emit_ok fin" "patch_fixups fin = Some fin'" "bs = data (code fin') @ suf"
    using assms(1) by (auto simp: final_def)
  have e: "emits_all (emit32 w st) fin" using assms(2) by (simp add: later_def)
  obtain more where d: "data (code fin) = data (code st) @ ins_bytes w @ more" using emits_all_grow [OF e] by auto
  have "f \<in> set (fixups fin) \<Longrightarrow> fst f \<noteq> code_len st" for f
    using emits_all_new_fixups [OF e, of f] assms(3) by (auto simp: emit_ok_def fixup_ok_def)
  then have n: "code_len st \<notin> fst ` set (fixups fin)" by (metis imageE)
  have "4 dvd code_len st" using assms(3) by (simp add: emit_ok_def)
  from patched_other [OF f(1,2) d n this] assms(4,5) have "cpu_step (data (code fin')) m = Some m'" by (simp add: at_def)
  then show ?thesis unfolding f(3) by (rule runs_step)
qed

lemma runs_seq:
  "final fin bs \<Longrightarrow> later (emit_all ws st) fin \<Longrightarrow> emit_ok st \<Longrightarrow> at st m \<Longrightarrow> exec_seq ws m = Some m' \<Longrightarrow>
   runs bs m m' \<and> at (emit_all ws st) m'"
proof (induction ws arbitrary: st m)
  case (Cons w ws)
  obtain m1 where 1: "exec w m = Some m1" "pc m1 = pc m + 4" "exec_seq ws m1 = Some m'"
    using Cons.prems(5) by (auto split: option.splits if_splits)
  have "keeps (emit32 w st) (emit_all ws (emit32 w st))" by (intro keeps_emit_all keeps_refl)
  then have "later (emit32 w st) fin" using Cons.prems(2) by (auto intro: keeps_later)
  from runs_ins [OF Cons.prems(1) this Cons.prems(3,4) 1(1)] have r: "runs bs m m1" .
  have "at (emit32 w st) m1" using Cons.prems(4) 1(2) by (simp add: at_def)
  moreover have "emit_ok (emit32 w st)" using Cons.prems(3) by (rule emit_ok_ins)
  ultimately show ?case using Cons.IH [OF Cons.prems(1) _ _ _ 1(3), of "emit32 w st"] Cons.prems(2) r by (auto intro: runs_trans)
qed simp

section \<open>Jumps\<close>

lemma runs_jump:
  assumes "final fin bs" "later (jump_to l st) fin" "emit_ok st" "at st m" "l < nlabels st"
  shows "runs bs m (m\<lparr>pc := label_pos fin ! l\<rparr>)"
proof -
  obtain fin' suf where f: "emit_ok fin" "patch_fixups fin = Some fin'" "bs = data (code fin') @ suf"
    using assms(1) by (auto simp: final_def)
  have "(code_len st, l) \<in> set (fixups fin)" using assms(2) by (auto simp: later_def jump_to_def intro: later_fixup)
  from patched_jump [OF f(1,2) this, of m] assms(4) show ?thesis unfolding f(3) by (intro runs_step) (simp add: at_def)
qed

lemma runs_cond:
  assumes "final fin bs" "emit_ok st" "at st m" "l < nlabels st" "reg_no r"
  shows "later (jump_if_zero r l st) fin \<Longrightarrow>
      runs bs m (m\<lparr>pc := if reg m r = 0 then label_pos fin ! l else int (code_len (jump_if_zero r l st))\<rparr>)"
    and "later (jump_if_nonzero r l st) fin \<Longrightarrow>
      runs bs m (m\<lparr>pc := if reg m r \<noteq> 0 then label_pos fin ! l else int (code_len (jump_if_nonzero r l st))\<rparr>)"
proof -
  obtain fin' suf where f: "patch_fixups fin = Some fin'" "bs = data (code fin') @ suf"
    using assms(1) by (auto simp: final_def)
  have len: "code_len (jump_if_zero r l st) = code_len st + 8" "code_len (jump_if_nonzero r l st) = code_len st + 8"
    by (simp_all add: jump_if_zero_def jump_if_nonzero_def i_bf_def add_fixup_def)
  have p: "pc m = int (code_len st)" using assms(3) by (simp add: at_def)
  note j = cond_jump [OF assms(2,5,4) _ _ f(1) p]
  show "later (jump_if_zero r l st) fin \<Longrightarrow>
      runs bs m (m\<lparr>pc := if reg m r = 0 then label_pos fin ! l else int (code_len (jump_if_zero r l st))\<rparr>)"
    using j [of 1] p unfolding later_def jump_if_zero_def [symmetric] len f(2) runs_def
    by (cases "reg m r = 0") (auto intro: steps_append simp del: steps.simps simp: ac_simps)
  show "later (jump_if_nonzero r l st) fin \<Longrightarrow>
      runs bs m (m\<lparr>pc := if reg m r \<noteq> 0 then label_pos fin ! l else int (code_len (jump_if_nonzero r l st))\<rparr>)"
    using j [of 0] p unfolding later_def jump_if_nonzero_def [symmetric] len f(2) runs_def
    by (cases "reg m r = 0") (auto intro: steps_append simp del: steps.simps simp: ac_simps)
qed

end
