(* ===== verification/Cc_Arith.thy ===== *)
theory Cc_Arith
  imports Cc_Csem Cc_Run
begin

text \<open>
  Integer arithmetic in registers: a value of an integer type is in a register as the 64-bit word
  of the number, for signed and unsigned types alike. The conversions and operations that the
  code generator emits compute the values that C gives.
\<close>

section \<open>Values in registers\<close>

abbreviation W :: "int \<Rightarrow> 64 word" where
  "W \<equiv> word_of_int"

lemma uint_W: "0 \<le> v \<Longrightarrow> v < 2 ^ 64 \<Longrightarrow> uint (W v) = v"
  by (simp add: uint_word_of_int_eq take_bit_int_eq_self)

lemma sint_W: "- (2 ^ 63) \<le> v \<Longrightarrow> v < 2 ^ 63 \<Longrightarrow> sint (W v) = v"
  by (simp add: sint_sbintrunc' signed_take_bit_int_eq_self)

lemma range_uint: "int_type t \<Longrightarrow> is_unsigned t \<Longrightarrow> in_range t v \<Longrightarrow> uint (W v) = v"
  by (rule uint_W) (auto simp: int_type_def in_range_bounds width_def ty_simps)

lemma range_sint: "int_type t \<Longrightarrow> \<not> is_unsigned t \<or> ty_size t < 8 \<Longrightarrow> in_range t v \<Longrightarrow> sint (W v) = v"
  by (rule sint_W) (auto simp: int_type_def in_range_bounds width_def ty_simps)

lemma W_inj: "int_type t \<Longrightarrow> in_range t a \<Longrightarrow> in_range t b \<Longrightarrow> W a = W b \<longleftrightarrow> a = b"
  by (metis range_sint range_uint)

lemma W_eq_0: "int_type t \<Longrightarrow> in_range t a \<Longrightarrow> W a = 0 \<longleftrightarrow> a = 0"
  using W_inj [of t a 0] in_range_bool [of t False] by simp

lemma W_take_bit: "W (take_bit 64 v) = W v"
  by (rule bit_word_eqI) (simp add: bit_simps)

lemma W_signed_take_bit: "W (signed_take_bit 63 v) = W v"
proof (rule bit_word_eqI)
  fix k assume "k < LENGTH(64)"
  then have "min k 63 = k" by simp
  then show "bit (W (signed_take_bit 63 v)) k = bit (W v) k" by (simp add: bit_simps bit_signed_take_bit_iff)
qed

lemma W_uintI: "uint (w :: 64 word) = v \<Longrightarrow> w = W v"
  by (drule sym) simp

lemma W_sintI: "sint (w :: 64 word) = v \<Longrightarrow> w = W v"
  by (drule sym) simp

section \<open>Conversions\<close>

lemma shift_signed:
  assumes "0 < n" "n \<le> 64"
  shows "signed_drop_bit (64 - n) (push_bit (64 - n) (W v)) = W (signed_take_bit (n - 1) v)"
proof (rule bit_word_eqI)
  fix k assume k: "k < LENGTH(64)"
  consider "k < n - 1" | "k = n - 1" | "n \<le> k" by linarith
  then show "bit (signed_drop_bit (64 - n) (push_bit (64 - n) (W v))) k = bit (W (signed_take_bit (n - 1) v)) k"
    by cases (use k assms in \<open>auto simp: bit_simps bit_signed_take_bit_iff min_def\<close>)
qed

lemma shift_unsigned: "n \<le> 64 \<Longrightarrow> drop_bit (64 - n) (push_bit (64 - n) (W v)) = W (take_bit n v)"
  by (rule bit_word_eqI) (auto simp: bit_simps)

lemma and_byte: "W v AND 255 = W (take_bit 8 v)"
proof -
  have "(255 :: 64 word) = mask 8" by (simp add: mask_eq_exp_minus_1)
  then have "W v AND 255 = take_bit 8 (W v)" by (simp add: take_bit_eq_mask)
  also have "\<dots> = W (take_bit 8 v)" by (rule bit_word_eqI) (auto simp: bit_simps)
  finally show ?thesis .
qed

lemma addiw_0: "W (signed_take_bit 31 (uint (W v))) = W (signed_take_bit 31 v)"
  by (rule bit_word_eqI) (auto simp: bit_simps bit_signed_take_bit_iff min_def)

section \<open>Operations of agreeing types\<close>

lemma agree_rep:
  assumes "agree_types lt rt"
  shows "in_range lt a \<Longrightarrow> W (wrap (usual lt rt) a) = W a" "in_range rt b \<Longrightarrow> W (wrap (usual lt rt) b) = W b"
proof -
  have t: "int_type lt" "int_type rt" and u: "is_unsigned (usual lt rt) = (is_unsigned lt \<or> is_unsigned rt)"
    and s: "ty_size (usual lt rt) = 8 \<or> is_unsigned lt = is_unsigned rt" using assms by (auto simp: agree_types_def)
  have wide: "W (wrap (usual lt rt) v) = W v" if "ty_size (usual lt rt) = 8" for v
    using that by (simp add: wrap_def width_def W_take_bit W_signed_take_bit)
  show "W (wrap (usual lt rt) a) = W a" if "in_range lt a"
  proof (cases "ty_size (usual lt rt) = 8")
    case False
    then have "in_range (usual lt rt) a"
      using s that t u by (elim int_type_cases) (auto simp: in_range_bounds usual_def promote_def Let_def width_def ty_simps int_type_def split: if_splits)
    then show ?thesis by (simp add: in_range_def)
  qed (simp add: wide)
  show "W (wrap (usual lt rt) b) = W b" if "in_range rt b"
  proof (cases "ty_size (usual lt rt) = 8")
    case False
    then have "in_range (usual lt rt) b"
      using s that t u by (elim int_type_cases) (auto simp: in_range_bounds usual_def promote_def Let_def width_def ty_simps int_type_def split: if_splits)
    then show ?thesis by (simp add: in_range_def)
  qed (simp add: wide)
qed

section \<open>Results\<close>

text \<open>The bit operations on numbers and on their words.\<close>

lemma W_bits: "W a AND W b = W (a AND b)" "W a OR W b = W (a OR b)" "W a XOR W b = W (a XOR b)" "W a XOR W (- 1) = W (NOT a)"
  by (auto intro!: bit_word_eqI simp: bit_simps)

lemma wrap_bits:
  assumes "in_range t a" "in_range t b"
  shows "wrap t (a AND b) = a AND b" "wrap t (a OR b) = a OR b" "wrap t (a XOR b) = a XOR b"
proof -
  have "wrap t (a AND b) = wrap t a AND wrap t b" "wrap t (a OR b) = wrap t a OR wrap t b" "wrap t (a XOR b) = wrap t a XOR wrap t b"
    by (auto intro!: bit_eqI simp: wrap_def bit_simps bit_signed_take_bit_iff)
  then show "wrap t (a AND b) = a AND b" "wrap t (a OR b) = a OR b" "wrap t (a XOR b) = a XOR b"
    using assms by (simp_all add: in_range_def)
qed

lemma shift_amount:
  assumes "int_type t" "0 \<le> b" "b < int (width t)"
  shows "unat (take_bit 6 (W b)) = nat b"
proof -
  have b: "b < 64" using assms(3) int_type_width [OF assms(1)] by auto
  have "uint (take_bit 6 (W b)) = take_bit 6 (uint (W b))" by (simp add: unsigned_take_bit_eq)
  also have "\<dots> = b" using assms(2) b by (simp add: uint_W take_bit_int_eq_self)
  finally show ?thesis by (simp only: unat_eq_nat_uint)
qed

lemma W_push_bit: "push_bit n (W a) = W (push_bit n a)"
  by (rule bit_word_eqI) (auto simp: bit_simps)

lemma W_drop_unsigned: "int_type t \<Longrightarrow> is_unsigned t \<Longrightarrow> in_range t a \<Longrightarrow> drop_bit n (W a) = W (drop_bit n a)"
proof -
  assume "int_type t" "is_unsigned t" "in_range t a"
  then have a: "uint (W a) = a" by (rule range_uint)
  then have "take_bit 64 a = a" by (simp add: uint_word_of_int_eq)
  then have "uint (drop_bit n (W a)) = drop_bit n a" by (simp add: unsigned_drop_bit_eq uint_word_of_int_eq)
  then show "drop_bit n (W a) = W (drop_bit n a)" by (rule W_uintI)
qed

lemma W_drop_signed: "int_type t \<Longrightarrow> \<not> is_unsigned t \<Longrightarrow> in_range t a \<Longrightarrow> signed_drop_bit n (W a) = W (drop_bit n a)"
  by (rule W_sintI) (simp add: sint_signed_drop_bit_eq range_sint)

lemma drop_bit_range:
  assumes "int_type t" "in_range t a"
  shows "in_range t (drop_bit n a)"
proof -
  have "0 \<le> a \<Longrightarrow> a div 2 ^ n \<le> a" using zdiv_mono2 [of a 1 "2 ^ n"] by simp
  moreover have "a < 0 \<Longrightarrow> a \<le> a div 2 ^ n" using zdiv_mono2_neg [of a 1 "2 ^ n"] by simp
  moreover have "a < 0 \<Longrightarrow> a div 2 ^ n < 0" using div_neg_pos_less0 [of a "2 ^ n"] by simp
  moreover have "0 \<le> a \<Longrightarrow> 0 \<le> a div 2 ^ n" by (simp add: pos_imp_zdiv_nonneg_iff)
  ultimately show ?thesis
    using assms(2) unfolding in_range_bounds [OF assms(1)] drop_bit_eq_div by (cases "0 \<le> a"; cases "is_unsigned t"; simp; linarith)
qed

lemma W_div_signed:
  assumes "int_type t" "\<not> is_unsigned t \<or> ty_size t < 8" "in_range t a" "in_range t b" "b \<noteq> 0"
  shows "rv_div (W a) (W b) = W (a sdiv b)" "rv_rem (W a) (W b) = W (a smod b)"
  using assms W_eq_0 [OF assms(1,4)] range_sint [OF assms(1,2,3)] range_sint [OF assms(1,2,4)] by (simp_all add: rv_div_def rv_rem_def)

lemma W_div_unsigned:
  assumes "int_type t" "is_unsigned t" "in_range t a" "in_range t b" "b \<noteq> 0"
  shows "rv_divu (W a) (W b) = W (a sdiv b)" "rv_remu (W a) (W b) = W (a smod b)"
proof -
  have ua: "uint (W a) = a" "uint (W b) = b" using assms by (simp_all add: range_uint)
  have "0 \<le> uint (W a)" "0 \<le> uint (W b)" by simp_all
  then have nn: "0 \<le> a" "0 \<le> b" unfolding ua by simp_all
  have z: "W b \<noteq> 0" using W_eq_0 [OF assms(1,4)] assms(5) by simp
  have s: "a sdiv b = a div b" "a smod b = a mod b" using nn assms(5) by (auto simp: signed_divide_int_def signed_modulo_int_def sgn_if)
  have "uint (W a div W b) = a div b" "uint (W a mod W b) = a mod b" unfolding uint_div uint_mod ua by simp_all
  then show "rv_divu (W a) (W b) = W (a sdiv b)" "rv_remu (W a) (W b) = W (a smod b)"
    unfolding rv_divu_def rv_remu_def s using z by (simp_all only: if_False) (rule W_uintI, assumption)+
qed

lemma W_less:
  assumes "int_type t" "in_range t a" "in_range t b"
  shows "is_unsigned t \<Longrightarrow> W a < W b \<longleftrightarrow> a < b" "\<not> is_unsigned t \<Longrightarrow> sint (W a) < sint (W b) \<longleftrightarrow> a < b"
  using assms range_uint [of t a] range_uint [of t b] range_sint [of t a] range_sint [of t b] by (auto simp: word_less_def)

lemma smod_range:
  assumes "int_type t" "in_range t a" "in_range t b" "b \<noteq> 0"
  shows "wrap t (a smod b) = a smod b"
proof -
  have "0 \<le> \<bar>a\<bar> mod \<bar>b\<bar>" "\<bar>a\<bar> mod \<bar>b\<bar> \<le> \<bar>a\<bar>" using assms(4) by (simp_all add: zmod_le_nonneg_dividend)
  then have "\<bar>a smod b\<bar> \<le> \<bar>a\<bar>" by (auto simp: signed_modulo_int_def sgn_if)
  moreover have "0 \<le> a \<Longrightarrow> 0 \<le> a smod b" "a \<le> 0 \<Longrightarrow> a smod b \<le> 0" using assms(4) by (auto simp: signed_modulo_int_def sgn_if)
  ultimately have "in_range t (a smod b)" using assms(2) unfolding in_range_bounds [OF assms(1)] by (cases "0 \<le> a"; cases "is_unsigned t") auto
  then show ?thesis by (simp add: in_range_def)
qed

end
