(* ===== verification/Cc_Effects.thy ===== *)
theory Cc_Effects
  imports Cc_Arith
begin

text \<open>
  The effect of the pieces of straight code that the code generator composes: each piece is a
  list of instructions, and running the list changes the machine as stated.
\<close>

lemmas reg_nums = X0_def RA_def SP_def T0_def T1_def T2_def S0_def A0_def A1_def A2_def T6_def

section \<open>Instructions\<close>

lemma exec_imm:
  assumes "reg_no rd" "reg_no rs" "fun3 f3" "alu_imm (enc_i 0x13 rd f3 rs imm) (reg m rs) = Some v"
  shows "exec (enc_i 0x13 rd f3 rs imm) m = Some (next_pc (set_reg rd v m))"
  using assms by (simp add: exec_def Let_def enc_i_fields to_pc_next)

lemma exec_reg:
  assumes "reg_no rd" "reg_no rs1" "reg_no rs2" "fun3 f3" "take_bit 7 f7 = f7" "alu f7 f3 (reg m rs1) (reg m rs2) = Some v"
  shows "exec (enc_r f7 rs2 rs1 f3 rd 0x33) m = Some (next_pc (set_reg rd v m))"
  using assms by (simp add: exec_def Let_def enc_r_fields to_pc_next)

lemma exec_load:
  assumes "reg_no rd" "reg_no rs" "fun3 f3" "- 2048 \<le> imm" "imm < 2048" "load_mem f3 (reg m rs + W imm) (mem m) = Some v"
  shows "exec (enc_i 0x03 rd f3 rs imm) m = Some (next_pc (set_reg rd v m))"
  using assms by (simp add: exec_def Let_def enc_i_fields imm_i_enc to_pc_next)

lemma exec_store:
  assumes "reg_no rs1" "reg_no rs2" "fun3 f3" "- 2048 \<le> imm" "imm < 2048" "store_mem f3 (reg m rs1 + W imm) (reg m rs2) (mem m) = Some M"
  shows "exec (enc_s 0x23 f3 rs1 rs2 imm) m = Some (next_pc (m\<lparr>mem := M\<rparr>))"
  using assms by (simp add: exec_def Let_def enc_s_fields imm_s_enc to_pc_def next_pc_def)

text \<open>The immediate operations that occur.\<close>

lemma alu_imm_simps:
  assumes "reg_no rd" "reg_no rs"
  shows "- 2048 \<le> imm \<Longrightarrow> imm < 2048 \<Longrightarrow> alu_imm (enc_i 0x13 rd 0 rs imm) a = Some (a + W imm)"
    "0 \<le> imm \<Longrightarrow> imm < 64 \<Longrightarrow> alu_imm (enc_i 0x13 rd 1 rs imm) a = Some (push_bit (nat imm) a)"
    "- 2048 \<le> imm \<Longrightarrow> imm < 2048 \<Longrightarrow> alu_imm (enc_i 0x13 rd 3 rs imm) a = Some (of_bool (a < W imm))"
    "- 2048 \<le> imm \<Longrightarrow> imm < 2048 \<Longrightarrow> alu_imm (enc_i 0x13 rd 4 rs imm) a = Some (a XOR W imm)"
    "0 \<le> imm \<Longrightarrow> imm < 64 \<Longrightarrow> alu_imm (enc_i 0x13 rd 5 rs imm) a = Some (drop_bit (nat imm) a)"
    "0 \<le> imm \<Longrightarrow> imm < 64 \<Longrightarrow> alu_imm (enc_i 0x13 rd 5 rs (0x400 + imm)) a = Some (signed_drop_bit (nat imm) a)"
    "- 2048 \<le> imm \<Longrightarrow> imm < 2048 \<Longrightarrow> alu_imm (enc_i 0x13 rd 7 rs imm) a = Some (a AND W imm)"
proof -
  note f = enc_i_fields [OF _ assms(1) _ assms(2)] imm_i_enc [OF _ assms(1) _ assms(2)]
  have sh: "take_bit 6 imm = imm" "take_bit 6 (drop_bit 6 imm) = 0" "take_bit 6 (1024 + imm) = imm" "take_bit 6 (drop_bit 6 (1024 + imm)) = 16"
    if "0 \<le> imm" "imm < 64"
  proof -
    have d: "imm div 64 = 0" "imm mod 64 = imm" using that by (simp_all add: div_pos_pos_trivial mod_pos_pos_trivial)
    have "(1024 + imm) div 64 = 16" "(1024 + imm) mod 64 = imm"
      using div_mult_self1 [of 64 imm 16] mod_mult_self1 [of imm 16 64] d by (simp_all add: add.commute)
    then show "take_bit 6 imm = imm" "take_bit 6 (drop_bit 6 imm) = 0" "take_bit 6 (1024 + imm) = imm" "take_bit 6 (drop_bit 6 (1024 + imm)) = 16"
      using d by (simp_all add: take_bit_eq_mod drop_bit_eq_div)
  qed
  show "- 2048 \<le> imm \<Longrightarrow> imm < 2048 \<Longrightarrow> alu_imm (enc_i 0x13 rd 0 rs imm) a = Some (a + W imm)"
    "- 2048 \<le> imm \<Longrightarrow> imm < 2048 \<Longrightarrow> alu_imm (enc_i 0x13 rd 3 rs imm) a = Some (of_bool (a < W imm))"
    "- 2048 \<le> imm \<Longrightarrow> imm < 2048 \<Longrightarrow> alu_imm (enc_i 0x13 rd 4 rs imm) a = Some (a XOR W imm)"
    "- 2048 \<le> imm \<Longrightarrow> imm < 2048 \<Longrightarrow> alu_imm (enc_i 0x13 rd 7 rs imm) a = Some (a AND W imm)"
    by (simp_all add: alu_imm_def f)
  show "0 \<le> imm \<Longrightarrow> imm < 64 \<Longrightarrow> alu_imm (enc_i 0x13 rd 1 rs imm) a = Some (push_bit (nat imm) a)"
    "0 \<le> imm \<Longrightarrow> imm < 64 \<Longrightarrow> alu_imm (enc_i 0x13 rd 5 rs imm) a = Some (drop_bit (nat imm) a)"
    "0 \<le> imm \<Longrightarrow> imm < 64 \<Longrightarrow> alu_imm (enc_i 0x13 rd 5 rs (0x400 + imm)) a = Some (signed_drop_bit (nat imm) a)"
    using sh by (simp_all add: alu_imm_def f)
qed

text \<open>Registers and the program counter as plain updates.\<close>

lemma next_set: "r \<noteq> 0 \<Longrightarrow> next_pc (set_reg r v m) = m\<lparr>regs := (regs m)(r := v), pc := pc m + 4\<rparr>"
  by (simp add: next_pc_def set_reg_def)

lemma next_mem: "next_pc (m\<lparr>mem := M\<rparr>) = m\<lparr>pc := pc m + 4, mem := M\<rparr>"
  by (simp add: next_pc_def)

lemma reg_regs: "r \<noteq> 0 \<Longrightarrow> reg m r = regs m r" "reg m 0 = 0"
  by (simp_all add: reg_def)

lemma exec_seq_pc: "exec_seq ws m = Some m' \<Longrightarrow> pc m' = pc m + 4 * int (length ws)"
  by (induction ws arbitrary: m) (force split: option.splits if_splits)+

section \<open>Stack and variables\<close>

definition addi_ins :: "int \<Rightarrow> int \<Rightarrow> int \<Rightarrow> 32 word list" where
  "addi_ins rd rs imm =
     (if imm \<ge> - 2048 \<and> imm \<le> 2047 then [enc_i 0x13 rd 0 rs imm]
      else enc_i 0x13 T6 0 X0 0 # byte_ins T6 imm 8 @ [enc_r 0 T6 rs 0 rd 0x33])"

lemma li_bytes_all: "li_bytes rd v i st = emit_all (byte_ins rd v i) st"
  by (induction i arbitrary: st) auto

lemma i_li_all: "i_li rd v st = emit_all (li_ins rd v) st"
  by (simp add: i_li_def li_ins.simps i_lui_def i_addiw_def li_bytes_all Let_def)

lemma i_addi_all: "i_addi rd rs imm st = emit_all (addi_ins rd rs imm) st"
  by (simp add: i_addi_def addi_ins_def li_bytes_all)

lemma addi_small: "imm \<ge> - 2048 \<Longrightarrow> imm \<le> 2047 \<Longrightarrow> addi_ins rd rs imm = [enc_i 0x13 rd 0 rs imm]"
  by (simp add: addi_ins_def)

lemma li_run:
  assumes "reg_no rd" "rd \<noteq> 0"
  shows "exec_seq (li_ins rd v) m = Some (m\<lparr>regs := (regs m)(rd := W v), pc := pc m + 4 * int (length (li_ins rd v))\<rparr>)"
  using li_ins_run [OF assms, of v m] by (simp add: load_def)

text \<open>A large constant goes through \<open>t6\<close>.\<close>

lemma addi_run:
  assumes "reg_no rd" "rd \<noteq> 0" "reg_no rs" "rs \<noteq> 0" "rs \<noteq> 31"
  shows "\<exists>R. exec_seq (addi_ins rd rs imm) m = Some (m\<lparr>regs := R, pc := pc m + 4 * int (length (addi_ins rd rs imm))\<rparr>) \<and>
    R rd = regs m rs + W imm \<and> (\<forall>r. r \<noteq> rd \<and> r \<noteq> 31 \<longrightarrow> R r = regs m r)"
proof (cases "imm \<ge> - 2048 \<and> imm \<le> 2047")
  case True
  have "exec_seq (addi_ins rd rs imm) m = Some (m\<lparr>regs := (regs m)(rd := regs m rs + W imm), pc := pc m + 4\<rparr>)"
    using True assms by (simp add: addi_small exec_imm alu_imm_simps next_set reg_regs)
  then show ?thesis using True by (intro exI [of _ "(regs m)(rd := regs m rs + W imm)"]) (simp add: addi_small)
next
  case False
  let ?m = "load 31 0 1 m" and ?m' = "load 31 (W imm) 17 m"
  have len: "length (byte_ins r v i) = 2 * i" for r v i by (induction i) auto
  have i: "addi_ins rd rs imm = enc_i 0x13 31 0 0 0 # byte_ins 31 imm 8 @ [enc_r 0 31 rs 0 rd 0x33]"
    using False unfolding addi_ins_def by (auto simp: reg_nums)
  have "reg ?m 31 = drop_bit (8 * 8) (W imm)" by simp
  then have b: "exec_seq (byte_ins 31 imm 8) ?m = Some ?m'" using byte_ins_run [of 31 8 ?m imm] by simp
  have e: "exec (enc_i 0x13 31 0 0 0) m = Some ?m" by (simp add: exec_imm alu_imm_simps load_next reg_regs)
  have a: "exec (enc_r 0 31 rs 0 rd 0x33) ?m' = Some (next_pc (set_reg rd (regs m rs + W imm) ?m'))"
    using assms by (intro exec_reg) (auto simp: alu_def reg_regs load_def)
  have "exec_seq (addi_ins rd rs imm) m = Some (next_pc (set_reg rd (regs m rs + W imm) ?m'))"
    using e b a unfolding i by (simp add: exec_seq_append next_set assms(2))
  moreover have "next_pc (set_reg rd (regs m rs + W imm) ?m') =
      m\<lparr>regs := (regs ?m')(rd := regs m rs + W imm), pc := pc m + 4 * int (length (addi_ins rd rs imm))\<rparr>"
    using assms(2) by (simp add: next_set load_def i len)
  ultimately show ?thesis
    by (intro exI [of _ "(regs ?m')(rd := regs m rs + W imm)"]) (auto simp: load_def)
qed

definition push_ins :: "int \<Rightarrow> 32 word list" where
  "push_ins r = [enc_i 0x13 2 0 2 (- 16), enc_s 0x23 3 2 r 0]"

definition pop_ins :: "int \<Rightarrow> 32 word list" where
  "pop_ins r = [enc_i 0x03 r 3 2 0, enc_i 0x13 2 0 2 16]"

lemma push_all: "push_reg r st = emit_all (push_ins r) st"
  by (simp add: push_reg_def push_ins_def i_sd_def i_addi_def reg_nums)

lemma pop_all: "pop_reg r st = emit_all (pop_ins r) st"
  by (simp add: pop_reg_def pop_ins_def i_ld_def i_addi_def reg_nums)

lemma mv_all: "i_mv rd rs st = emit_all [enc_i 0x13 rd 0 rs 0] st"
  by (simp add: i_mv_def i_addi_def)

lemma push_run:
  assumes "reg_no r" "r \<noteq> 0" "r \<noteq> 2"
  shows "exec_seq (push_ins r) m = Some (m\<lparr>regs := (regs m)(2 := regs m 2 - 16), pc := pc m + 8,
    mem := mem_write 8 (regs m 2 - 16) (uint (regs m r)) (mem m)\<rparr>)"
  using assms by (simp add: push_ins_def exec_imm alu_imm_simps next_set reg_regs exec_store store_mem_def next_mem)

lemma pop_run:
  assumes "reg_no r" "r \<noteq> 0" "r \<noteq> 2"
  shows "exec_seq (pop_ins r) m = Some (m\<lparr>regs := (regs m)(r := W (mem_read 8 (regs m 2) (mem m)), 2 := regs m 2 + 16), pc := pc m + 8\<rparr>)"
  using assms by (simp add: pop_ins_def exec_imm alu_imm_simps next_set reg_regs exec_load load_mem_def fun_upd_twist)

lemma mv_run:
  assumes "reg_no rd" "reg_no rs" "rd \<noteq> 0" "rs \<noteq> 0"
  shows "exec_seq [enc_i 0x13 rd 0 rs 0] m = Some (m\<lparr>regs := (regs m)(rd := regs m rs), pc := pc m + 4\<rparr>)"
  using assms by (simp add: exec_imm alu_imm_simps next_set reg_regs)

section \<open>Conversions, loads and stores\<close>

definition cast_ins :: "ctype \<Rightarrow> 32 word list" where
  "cast_ins t =
     (if ty_size t = 1 then (if is_unsigned t then [enc_i 0x13 10 7 10 0xff] else [enc_i 0x13 10 1 10 56, enc_i 0x13 10 5 10 0x438])
      else if ty_size t = 2 then
        [enc_i 0x13 10 1 10 48, if is_unsigned t then enc_i 0x13 10 5 10 48 else enc_i 0x13 10 5 10 0x430]
      else if ty_size t = 4 then
        (if is_unsigned t then [enc_i 0x13 10 1 10 32, enc_i 0x13 10 5 10 32] else [enc_i 0x1b 10 0 10 0])
      else [])"

lemma int_type_kind: "int_type t \<Longrightarrow> kind t \<in> {TY_CHAR, TY_SHORT, TY_INT, TY_LONG}"
  by (auto simp: int_type_def ty_simps)

lemma int_type_not:
  assumes "int_type t"
  shows "kind t \<noteq> TY_VOID" "kind t \<noteq> TY_PTR" "kind t \<noteq> TY_ARRAY" "kind t \<noteq> TY_FUNC" "\<not> is_aggregate t" "\<not> is_ptr_like t"
    "decay t = t" "is_integer t" "type_step t = Ok 1"
  using int_type_kind [OF assms] by (auto simp: is_aggregate_def is_ptr_like_def decay_def is_integer_def type_step_def Let_def)

lemma cast_all: "int_type t \<Longrightarrow> cast_to t st = emit_all (cast_ins t) st"
  using int_type_not [of t] by (simp add: cast_to_def cast_ins_def Let_def A0_def)

lemma cast_run:
  assumes "int_type t" "regs m 10 = W v"
  shows "exec_seq (cast_ins t) m = Some (m\<lparr>regs := (regs m)(10 := W (wrap t v)), pc := pc m + 4 * int (length (cast_ins t))\<rparr>)"
proof -
  have sh: "alu_imm (enc_i 0x13 10 5 10 0x438) a = Some (signed_drop_bit 56 a)" "alu_imm (enc_i 0x13 10 5 10 0x430) a = Some (signed_drop_bit 48 a)" for a
    using alu_imm_simps(6) [of 10 10 56 a] alu_imm_simps(6) [of 10 10 48 a] by simp_all
  note i = exec_imm alu_imm_simps next_set reg_regs
  have v: "W v = regs m 10" using assms(2) by simp
  have wide: "(regs m)(10 := W v) = regs m" by (simp add: v)
  show ?thesis using assms(1)
    by (cases rule: int_type_cases)
      (simp_all add: ty_simps cast_ins_def wrap_def width_def i sh assms(2) and_byte W_take_bit W_signed_take_bit wide exec_addiw addiw_0
        shift_signed [of 8, simplified] shift_signed [of 16, simplified] shift_unsigned [of 16, simplified] shift_unsigned [of 32, simplified])
qed

definition load_ins :: "ctype \<Rightarrow> 32 word list" where
  "load_ins t =
     [enc_i 0x03 10
       (if ty_size t = 1 then if is_unsigned t then 4 else 0 else if ty_size t = 2 then if is_unsigned t then 5 else 1
        else if ty_size t = 4 then if is_unsigned t then 6 else 2 else 3) 10 0]"

definition store_ins :: "ctype \<Rightarrow> 32 word list" where
  "store_ins t = [enc_s 0x23 (if ty_size t = 1 then 0 else if ty_size t = 2 then 1 else if ty_size t = 4 then 2 else 3) 10 11 0]"

lemma load_all: "int_type t \<Longrightarrow> load_value t st = Ok (emit_all (load_ins t) st)"
  using int_type_not [of t] int_type_size [of t]
  by (auto simp: load_value_def load_ins_def i_lb_def i_lbu_def i_lh_def i_lhu_def i_lw_def i_lwu_def i_ld_def A0_def)

lemma store_all: "int_type t \<Longrightarrow> store_value t st = Ok (emit_all (store_ins t) st)"
  using int_type_not [of t] int_type_size [of t]
  by (auto simp: store_value_def store_ins_def i_sb_def i_sh_def i_sw_def i_sd_def A0_def A1_def)

text \<open>The bytes of a variable in memory, as a value of its type.\<close>

definition mem_value :: "ctype \<Rightarrow> 64 word \<Rightarrow> memory \<Rightarrow> int" where
  "mem_value t a M = wrap t (mem_read (nat (ty_size t)) a M)"

lemma load_run:
  assumes "int_type t"
  shows "exec_seq (load_ins t) m = Some (m\<lparr>regs := (regs m)(10 := W (mem_value t (regs m 10) (mem m))), pc := pc m + 4\<rparr>)"
proof -
  have u: "take_bit (8 * n) (mem_read n a M) = mem_read n a M" for n a M
    using mem_read_nonneg [of n a M] mem_read_less [of n a M] by (simp add: take_bit_int_eq_self_iff power_mult)
  note u [of 1, simplified, simp] u [of 2, simplified, simp] u [of 4, simplified, simp]
  show ?thesis using assms
    by (cases rule: int_type_cases)
      (simp_all add: ty_simps load_ins_def mem_value_def wrap_def width_def exec_load load_mem_def next_set reg_regs W_signed_take_bit u [of 8, simplified])
qed

lemma store_run:
  assumes "int_type t"
  shows "exec_seq (store_ins t) m =
    Some (m\<lparr>pc := pc m + 4, mem := mem_write (nat (ty_size t)) (regs m 10) (uint (regs m 11)) (mem m)\<rparr>)"
  using assms
  by (cases rule: int_type_cases) (simp_all add: ty_simps store_ins_def exec_store store_mem_def next_mem reg_regs)

lemma mem_value_write:
  assumes "int_type t"
  shows "mem_value t a (mem_write (nat (ty_size t)) a (uint (W v)) M) = wrap t v"
proof -
  have s: "nat (ty_size t) \<le> 8" using int_type_size [OF assms] by auto
  have w: "width t \<le> 64" "0 < width t" using int_type_width [OF assms] by auto
  have "mem_read (nat (ty_size t)) a (mem_write (nat (ty_size t)) a (uint (W v)) M) = uint (W v) mod 256 ^ nat (ty_size t)"
    using s by (intro mem_read_write) auto
  also have "\<dots> = take_bit (width t) (uint (W v))" by (simp add: take_bit_eq_mod width_def power_mult)
  also have "\<dots> = take_bit (width t) v" using w by (simp add: uint_word_of_int_eq min_def)
  finally show ?thesis using w not_le_imp_less [of "width t" "width t - 1"] by (auto simp: mem_value_def wrap_def signed_take_bit_take_bit)
qed

lemma mem_value_range: "int_type t \<Longrightarrow> in_range t (mem_value t a M)"
  by (simp add: mem_value_def in_range_wrap)

section \<open>Binary operations\<close>

definition lt_ins :: "bool \<Rightarrow> int \<Rightarrow> int \<Rightarrow> 32 word" where
  "lt_ins u rs1 rs2 = enc_r 0 rs2 rs1 (if u then 3 else 2) 10 0x33"

definition bin_ins :: "binop \<Rightarrow> ctype \<Rightarrow> ctype \<Rightarrow> ctype \<Rightarrow> 32 word list" where
  "bin_ins k ty lt rt =
     (let u = unsigned_cmp lt rt; op = (\<lambda>f7 f3. enc_r f7 11 10 f3 10 0x33 # cast_ins ty)
      in case k of
           ND_ADD \<Rightarrow> op 0 0 | ND_SUB \<Rightarrow> op 0x20 0 | ND_MUL \<Rightarrow> op 1 0
         | ND_DIV \<Rightarrow> op 1 (if u then 5 else 4) | ND_MOD \<Rightarrow> op 1 (if u then 7 else 6)
         | ND_BITAND \<Rightarrow> op 0 7 | ND_BITOR \<Rightarrow> op 0 6 | ND_BITXOR \<Rightarrow> op 0 4
         | ND_SHL \<Rightarrow> op 0 1 | ND_SHR \<Rightarrow> op (if is_unsigned lt then 0 else 0x20) 5
         | ND_EQ \<Rightarrow> [enc_r 0 11 10 4 10 0x33, enc_i 0x13 10 3 10 1]
         | ND_NE \<Rightarrow> [enc_r 0 11 10 4 10 0x33, enc_r 0 10 0 3 10 0x33]
         | ND_LT \<Rightarrow> [lt_ins u 10 11] | ND_GT \<Rightarrow> [lt_ins u 11 10]
         | ND_LE \<Rightarrow> [lt_ins u 11 10, enc_i 0x13 10 4 10 1] | ND_GE \<Rightarrow> [lt_ins u 10 11, enc_i 0x13 10 4 10 1])"

lemma bin_all:
  "int_type lt \<Longrightarrow> int_type rt \<Longrightarrow> is_cmp k \<or> int_type ty \<Longrightarrow> bin_code k ty lt rt st = Ok (emit_all (bin_ins k ty lt rt) st)"
  using int_type_not [of lt] int_type_not [of rt]
  by (cases k) (simp_all add: bin_code_def bin_ins_def Let_def is_cmp_def add_code_def sub_code_def i_r_def cast_all lt_ins_def i_seqz_def i_snez_def reg_nums)

lemma op_then_cast:
  assumes "int_type t" "fun3 f3" "take_bit 7 f7 = f7" "alu f7 f3 (regs m 10) (regs m 11) = Some (W v)"
  shows "exec_seq (enc_r f7 11 10 f3 10 0x33 # cast_ins t) m =
    Some (m\<lparr>regs := (regs m)(10 := W (wrap t v)), pc := pc m + 4 * int (length (cast_ins t) + 1)\<rparr>)"
proof -
  let ?m = "m\<lparr>regs := (regs m)(10 := W v), pc := pc m + 4\<rparr>"
  have "exec (enc_r f7 11 10 f3 10 0x33) m = Some ?m" using assms by (subst exec_reg) (auto simp: reg_regs next_set)
  moreover have "exec_seq (cast_ins t) ?m = Some (?m\<lparr>regs := (regs ?m)(10 := W (wrap t v)), pc := pc ?m + 4 * int (length (cast_ins t))\<rparr>)"
    using assms(1) by (rule cast_run) simp
  ultimately show ?thesis by simp
qed

text \<open>Where the operation of C is defined, the word that the instruction computes is congruent to its value.\<close>

lemma c_op_word:
  assumes t: "int_type t" and r: "in_range t a" "in_range t b" and k: "\<not> is_cmp k" "\<not> is_shift k" and u: "u = is_unsigned t"
    and v: "c_op k t a b = Some v"
  shows "\<exists>f7 f3 x. alu f7 f3 (W a) (W b) = Some (W x) \<and> wrap t x = v \<and> fun3 f3 \<and> take_bit 7 f7 = f7 \<and>
    (f7, f3) = (case k of ND_ADD \<Rightarrow> (0, 0) | ND_SUB \<Rightarrow> (0x20, 0) | ND_MUL \<Rightarrow> (1, 0) | ND_DIV \<Rightarrow> (1, if u then 5 else 4)
      | ND_MOD \<Rightarrow> (1, if u then 7 else 6) | ND_BITAND \<Rightarrow> (0, 7) | ND_BITOR \<Rightarrow> (0, 6) | _ \<Rightarrow> (0, 4))"
proof -
  note [simp] = alu_def W_bits wrap_bits [OF r]
  have val: "c_val t x = Some v \<Longrightarrow> wrap t x = v" for x using c_val_range [OF t, of x v] by simp
  show ?thesis
  proof (cases k)
    case ND_DIV
    then have b: "b \<noteq> 0" "c_val t (a sdiv b) = Some v" using v by (auto simp: c_op_def split: if_splits)
    show ?thesis using ND_DIV val [OF b(2)] u W_div_unsigned [OF t _ r b(1)] W_div_signed [OF t _ r b(1)]
      by (intro exI [of _ 1] exI [of _ "if u then 5 else 4"] exI [of _ "a sdiv b"]) auto
  next
    case ND_MOD
    then have b: "b \<noteq> 0" "v = a smod b" using v by (auto simp: c_op_def split: if_splits)
    show ?thesis using ND_MOD smod_range [OF t r b(1)] b(2) u W_div_unsigned [OF t _ r b(1)] W_div_signed [OF t _ r b(1)]
      by (intro exI [of _ 1] exI [of _ "if u then 7 else 6"] exI [of _ "a smod b"]) auto
  next
    case ND_ADD
    then show ?thesis using v val [of "a + b"] by (intro exI [of _ 0] exI [of _ "a + b"]) (auto simp: c_op_def)
  next
    case ND_SUB
    then show ?thesis using v val [of "a - b"] by (intro exI [of _ "0x20"] exI [of _ 0] exI [of _ "a - b"]) (auto simp: c_op_def)
  next
    case ND_MUL
    then show ?thesis using v val [of "a * b"] by (intro exI [of _ 1] exI [of _ 0] exI [of _ "a * b"]) (auto simp: c_op_def)
  next
    case ND_BITAND
    then show ?thesis using v by (intro exI [of _ 0] exI [of _ 7] exI [of _ "a AND b"]) (auto simp: c_op_def)
  next
    case ND_BITOR
    then show ?thesis using v by (intro exI [of _ 0] exI [of _ 6] exI [of _ "a OR b"]) (auto simp: c_op_def)
  next
    case ND_BITXOR
    then show ?thesis using v by (intro exI [of _ 0] exI [of _ 4] exI [of _ "a XOR b"]) (auto simp: c_op_def)
  qed (use k in \<open>simp_all add: is_cmp_def is_shift_def\<close>)
qed

lemma c_shift_word:
  assumes t: "int_type t" and r: "in_range t a" and k: "is_shift k" and v: "c_op k t a b = Some v"
  shows "\<exists>f7 f3 x. alu f7 f3 (W a) (W b) = Some (W x) \<and> wrap t x = v \<and> fun3 f3 \<and> take_bit 7 f7 = f7 \<and>
    (f7, f3) = (case k of ND_SHL \<Rightarrow> (0, 1) | _ \<Rightarrow> (if is_unsigned t then 0 else 0x20, 5))"
proof -
  have b: "0 \<le> b" "b < int (width t)" using k v by (auto simp: c_op_def is_shift_def split: if_splits)
  have sh: "unat (take_bit 6 (W b)) = nat b" using shift_amount [OF t b] .
  show ?thesis
  proof (cases "k = ND_SHL")
    case True
    then have "c_val t (push_bit (nat b) a) = Some v" using v by (auto simp: c_op_def split: if_splits)
    then show ?thesis using True c_val_range [OF t] sh
      by (intro exI [of _ 0] exI [of _ 1] exI [of _ "push_bit (nat b) a"]) (auto simp: alu_def W_push_bit)
  next
    case False
    then have k': "k = ND_SHR" using k by (simp add: is_shift_def)
    then have "v = drop_bit (nat b) a" using v by (auto simp: c_op_def split: if_splits)
    then show ?thesis using k' sh drop_bit_range [OF t r] W_drop_unsigned [OF t _ r] W_drop_signed [OF t _ r]
      by (intro exI [of _ "if is_unsigned t then 0 else 0x20"] exI [of _ 5] exI [of _ "drop_bit (nat b) a"])
        (auto simp: alu_def in_range_def)
  qed
qed

lemma unsigned_cmp_usual:
  assumes "agree_types lt rt"
  shows "unsigned_cmp lt rt = is_unsigned (usual lt rt)"
  using assms int_type_not [of lt] int_type_not [of rt] by (auto simp: agree_types_def unsigned_cmp_def)

lemma bin_arith_run:
  assumes a: "agree_types lt rt" and k: "\<not> is_cmp k" "\<not> is_shift k"
    and r: "in_range lt a" "in_range rt b" and v: "c_bin k lt rt a b = Some v" and m: "regs m 10 = W a" "regs m 11 = W b"
  shows "exec_seq (bin_ins k (usual lt rt) lt rt) m =
      Some (m\<lparr>regs := (regs m)(10 := W v), pc := pc m + 4 * int (length (bin_ins k (usual lt rt) lt rt))\<rparr>) \<and> in_range (usual lt rt) v"
proof -
  let ?t = "usual lt rt"
  have t: "int_type ?t" using a by (simp add: agree_types_def int_type_usual)
  have "c_op k ?t (wrap ?t a) (wrap ?t b) = Some v" using v k by (simp add: c_bin_def c_type_def Let_def)
  from c_op_word [OF t in_range_wrap [OF t] in_range_wrap [OF t] k unsigned_cmp_usual [OF a] this]
  obtain f7 f3 x where x: "alu f7 f3 (W (wrap ?t a)) (W (wrap ?t b)) = Some (W x)" "wrap ?t x = v" "fun3 f3" "take_bit 7 f7 = f7"
    and f: "(f7, f3) = (case k of ND_ADD \<Rightarrow> (0, 0) | ND_SUB \<Rightarrow> (0x20, 0) | ND_MUL \<Rightarrow> (1, 0) | ND_DIV \<Rightarrow> (1, if unsigned_cmp lt rt then 5 else 4)
      | ND_MOD \<Rightarrow> (1, if unsigned_cmp lt rt then 7 else 6) | ND_BITAND \<Rightarrow> (0, 7) | ND_BITOR \<Rightarrow> (0, 6) | _ \<Rightarrow> (0, 4))" by blast
  have i: "bin_ins k ?t lt rt = enc_r f7 11 10 f3 10 0x33 # cast_ins ?t"
    using f k by (cases k) (simp_all add: bin_ins_def Let_def is_cmp_def is_shift_def)
  have "alu f7 f3 (regs m 10) (regs m 11) = Some (W x)" using x(1) m agree_rep [OF a] r by simp
  from op_then_cast [OF t x(3,4) this] show ?thesis
    unfolding i using x(2) in_range_wrap [OF t, of x] by simp
qed

lemma bin_shift_run:
  assumes k: "is_shift k" and t: "int_type lt" "4 \<le> ty_size lt"
    and r: "in_range lt a" and v: "c_bin k lt rt a b = Some v" and m: "regs m 10 = W a" "regs m 11 = W b"
  shows "exec_seq (bin_ins k lt lt rt) m =
      Some (m\<lparr>regs := (regs m)(10 := W v), pc := pc m + 4 * int (length (bin_ins k lt lt rt))\<rparr>) \<and> in_range lt v"
proof -
  have p: "promote lt = lt" "wrap lt a = a" using t(2) r by (simp_all add: promote_def in_range_def)
  have "c_op k lt a b = Some v" using v k p by (simp add: c_bin_def c_type_def Let_def)
  from c_shift_word [OF t(1) r k this]
  obtain f7 f3 x where x: "alu f7 f3 (W a) (W b) = Some (W x)" "wrap lt x = v" "fun3 f3" "take_bit 7 f7 = f7"
    and f: "(f7, f3) = (case k of ND_SHL \<Rightarrow> (0, 1) | _ \<Rightarrow> (if is_unsigned lt then 0 else 0x20, 5))" by blast
  have i: "bin_ins k lt lt rt = enc_r f7 11 10 f3 10 0x33 # cast_ins lt"
    using f k by (cases k) (simp_all add: bin_ins_def Let_def is_shift_def)
  have "alu f7 f3 (regs m 10) (regs m 11) = Some (W x)" using x(1) m by simp
  from op_then_cast [OF t(1) x(3,4) this] show ?thesis
    unfolding i using x(2) in_range_wrap [OF t(1), of x] by simp
qed

lemma lt_run:
  assumes "int_type t" "u = is_unsigned t" "in_range t a" "in_range t b" "reg_no r1" "reg_no r2" "r1 \<noteq> 0" "r2 \<noteq> 0"
    and "regs m r1 = W a" "regs m r2 = W b"
  shows "exec (lt_ins u r1 r2) m = Some (m\<lparr>regs := (regs m)(10 := of_bool (a < b)), pc := pc m + 4\<rparr>)"
proof -
  have "alu 0 (if u then 3 else 2) (regs m r1) (regs m r2) = Some (of_bool (a < b))"
    using assms W_less [OF assms(1,3,4)] by (simp add: alu_def)
  then show ?thesis unfolding lt_ins_def using assms(5-8) by (subst exec_reg) (auto simp: reg_regs next_set)
qed

lemma xor_1: "of_bool p XOR (1 :: 64 word) = of_bool (\<not> p)"
  by (cases p) simp_all

lemma xor_eq_0: "x XOR y = 0 \<longleftrightarrow> x = (y :: 64 word)"
proof
  assume "x XOR y = 0"
  then have "(x XOR y) XOR y = y" by simp
  then show "x = y" by (simp add: xor.assoc)
qed simp

lemma W_of_bool: "W (of_bool p) = of_bool p"
  by (cases p) simp_all

lemma bin_cmp_run:
  assumes a: "agree_types lt rt" and k: "is_cmp k"
    and r: "in_range lt a" "in_range rt b" and v: "c_bin k lt rt a b = Some v" and m: "regs m 10 = W a" "regs m 11 = W b"
  shows "exec_seq (bin_ins k ty lt rt) m =
      Some (m\<lparr>regs := (regs m)(10 := W v), pc := pc m + 4 * int (length (bin_ins k ty lt rt))\<rparr>) \<and> in_range ty_int v"
proof -
  let ?t = "usual lt rt"
  let ?a = "wrap ?t a" and ?b = "wrap ?t b"
  have t: "int_type ?t" using a by (simp add: agree_types_def int_type_usual)
  have rr: "in_range ?t ?a" "in_range ?t ?b" using in_range_wrap [OF t] by auto
  have mm: "regs m 10 = W ?a" "regs m 11 = W ?b" using m agree_rep [OF a] r by simp_all
  have "\<not> is_shift k" using k by (auto simp: is_cmp_def is_shift_def)
  then have c: "c_op k ?t ?a ?b = Some v" using v by (simp add: c_bin_def c_type_def Let_def)
  note u = unsigned_cmp_usual [OF a]
  note lt = lt_run [OF t u rr, of 10 11] lt_run [OF t u rr(2,1), of 11 10]
  have z: "W ?a XOR W ?b = 0 \<longleftrightarrow> ?a = ?b" using W_inj [OF t rr] xor_eq_0 by blast
  have eq0: "(x < 1) = (x = 0)" for x :: "64 word" by (simp add: word_less_1)
  have ran: "in_range ty_int v" using c k by (auto simp: c_op_def is_cmp_def in_range_bool)
  note [simp] = next_set reg_regs exec_reg exec_imm alu_imm_simps alu_def mm xor_1 W_of_bool lt not_less word_gt_0 z eq0
  have "exec_seq (bin_ins k ty lt rt) m = Some (m\<lparr>regs := (regs m)(10 := W v), pc := pc m + 4 * int (length (bin_ins k ty lt rt))\<rparr>)"
  proof (cases k)
    case ND_EQ then show ?thesis using c by (auto simp: bin_ins_def Let_def c_op_def)
  next
    case ND_NE then show ?thesis using c by (auto simp: bin_ins_def Let_def c_op_def)
  next
    case ND_LT then show ?thesis using c by (auto simp: bin_ins_def Let_def c_op_def)
  next
    case ND_GT then show ?thesis using c by (auto simp: bin_ins_def Let_def c_op_def)
  next
    case ND_LE then show ?thesis using c by (auto simp: bin_ins_def Let_def c_op_def)
  next
    case ND_GE then show ?thesis using c by (auto simp: bin_ins_def Let_def c_op_def)
  qed (use k in \<open>simp_all add: is_cmp_def\<close>)
  then show ?thesis using ran by simp
qed

section \<open>Compound assignments\<close>

definition opassign_ins :: "binop \<Rightarrow> ctype \<Rightarrow> 32 word" where
  "opassign_ins k ty =
     (let op = (\<lambda>f7 f3. enc_r f7 11 10 f3 10 0x33)
      in case k of
           ND_ADD \<Rightarrow> op 0 0 | ND_SUB \<Rightarrow> op 0x20 0 | ND_MUL \<Rightarrow> op 1 0 | ND_DIV \<Rightarrow> op 1 4 | ND_MOD \<Rightarrow> op 1 6
         | ND_BITAND \<Rightarrow> op 0 7 | ND_BITOR \<Rightarrow> op 0 6 | ND_BITXOR \<Rightarrow> op 0 4
         | ND_SHL \<Rightarrow> op 0 1 | _ \<Rightarrow> op (if is_unsigned ty then 0 else 0x20) 5)"

lemma opassign_all: "int_type ty \<Longrightarrow> \<not> is_cmp k \<Longrightarrow> opassign_code k ty st = Ok (emit_all [opassign_ins k ty] st)"
  using int_type_not [of ty] by (cases k) (simp_all add: opassign_code_def opassign_ins_def Let_def i_r_def is_cmp_def reg_nums)

lemma wrap_cong: "int_type t \<Longrightarrow> take_bit (width t) x = take_bit (width t) y \<Longrightarrow> wrap t x = wrap t y"
  using int_type_width [of t] by (auto simp: wrap_def signed_take_bit_eq_iff_take_bit_eq)

lemma wrap_take: "int_type t \<Longrightarrow> n \<le> width t \<Longrightarrow> take_bit n (wrap t x) = take_bit n x"
  using int_type_width [of t] by (auto simp: wrap_def take_bit_signed_take_bit min_def)

lemma promote_range: "int_type t \<Longrightarrow> in_range t a \<Longrightarrow> in_range (promote t) a"
  by (cases rule: int_type_cases) (auto simp: in_range_bounds promote_def width_def ty_simps int_type_def)

lemma width_promote: "int_type t \<Longrightarrow> width t \<le> width (promote t)"
  by (auto simp: int_type_def promote_def width_def ty_simps)

lemma width_usual: "int_type lt \<Longrightarrow> int_type rt \<Longrightarrow> width lt \<le> width (usual lt rt)"
  by (auto simp: int_type_def usual_def promote_def width_def ty_simps Let_def)

lemma signed_division_range:
  assumes "int_type lt" "int_type rt" "signed_division lt rt"
  shows "in_range lt a \<Longrightarrow> in_range (usual lt rt) a" "in_range rt b \<Longrightarrow> in_range (usual lt rt) b"
    "\<not> is_unsigned (usual lt rt) \<or> ty_size (usual lt rt) < 8"
proof -
  show "in_range lt a \<Longrightarrow> in_range (usual lt rt) a"
    using assms by (elim int_type_cases) (auto simp: in_range_bounds usual_def promote_def Let_def width_def ty_simps int_type_def signed_division_def)
  show "in_range rt b \<Longrightarrow> in_range (usual lt rt) b"
    using assms by (elim int_type_cases) (auto simp: in_range_bounds usual_def promote_def Let_def width_def ty_simps int_type_def signed_division_def)
  show "\<not> is_unsigned (usual lt rt) \<or> ty_size (usual lt rt) < 8" using assms(3) by (auto simp: signed_division_def)
qed

text \<open>Modular operations do not depend on the conversion of their operands.\<close>

lemma take_bit_op:
  assumes "n \<le> width t" "int_type t"
  shows "take_bit n (wrap t (wrap t a + wrap t b)) = take_bit n (a + b :: int)"
    "take_bit n (wrap t (wrap t a - wrap t b)) = take_bit n (a - b :: int)"
    "take_bit n (wrap t (wrap t a * wrap t b)) = take_bit n (a * b :: int)"
    "take_bit n (wrap t a AND wrap t b) = take_bit n (a AND b :: int)"
    "take_bit n (wrap t a OR wrap t b) = take_bit n (a OR b :: int)"
    "take_bit n (wrap t a XOR wrap t b) = take_bit n (a XOR b :: int)"
proof -
  note w = wrap_take [OF assms(2,1)]
  have "take_bit n (wrap t a + wrap t b) = take_bit n (a + b)" "take_bit n (wrap t a - wrap t b) = take_bit n (a - b)"
    "take_bit n (wrap t a * wrap t b) = take_bit n (a * b)"
    by (metis take_bit_add w, metis take_bit_diff w, metis take_bit_mult w)
  then show "take_bit n (wrap t (wrap t a + wrap t b)) = take_bit n (a + b)" "take_bit n (wrap t (wrap t a - wrap t b)) = take_bit n (a - b)"
    "take_bit n (wrap t (wrap t a * wrap t b)) = take_bit n (a * b)" by (simp_all add: w)
  show "take_bit n (wrap t a AND wrap t b) = take_bit n (a AND b)" "take_bit n (wrap t a OR wrap t b) = take_bit n (a OR b)"
    "take_bit n (wrap t a XOR wrap t b) = take_bit n (a XOR b)" by (simp_all add: w)
qed

lemma opassign_value:
  assumes t: "int_type lt" "int_type rt" and r: "in_range lt a" "in_range rt b" and k: "\<not> is_cmp k"
    and d: "k = ND_DIV \<or> k = ND_MOD \<Longrightarrow> signed_division lt rt" and v: "c_bin k lt rt a b = Some v"
  shows "\<exists>f7 f3 x. alu f7 f3 (W a) (W b) = Some (W x) \<and> wrap lt x = wrap lt v \<and> opassign_ins k lt = enc_r f7 11 10 f3 10 0x33 \<and>
    fun3 f3 \<and> take_bit 7 f7 = f7"
proof (cases "is_shift k")
  case True
  have p: "int_type (promote lt)" "wrap (promote lt) a = a" using int_type_promote [OF t(1)] promote_range [OF t(1) r(1)] by (auto simp: in_range_def)
  have "c_op k (promote lt) a b = Some v" using v p(2) True by (simp add: c_bin_def c_type_def Let_def)
  then have b: "0 \<le> b" "b < int (width (promote lt))" and v': "v = wrap (promote lt) (if k = ND_SHL then push_bit (nat b) a else drop_bit (nat b) a)"
    using True c_val_range [OF p(1)] drop_bit_range [OF p(1) promote_range [OF t(1) r(1)]]
    by (auto simp: c_op_def is_shift_def in_range_def split: if_splits)
  have sh: "unat (take_bit 6 (W b)) = nat b" using shift_amount [OF p(1) b] .
  have w: "wrap lt v = wrap lt (if k = ND_SHL then push_bit (nat b) a else drop_bit (nat b) a)"
    unfolding v' by (intro wrap_cong [OF t(1)] wrap_take [OF p(1)] width_promote [OF t(1)])
  have "k = ND_SHL \<or> k = ND_SHR" using True by (simp add: is_shift_def)
  then show ?thesis
  proof
    assume "k = ND_SHL"
    then show ?thesis using sh w by (intro exI [of _ 0] exI [of _ 1] exI [of _ "push_bit (nat b) a"]) (auto simp: alu_def W_push_bit opassign_ins_def Let_def)
  next
    assume "k = ND_SHR"
    then show ?thesis using sh w W_drop_unsigned [OF t(1) _ r(1)] W_drop_signed [OF t(1) _ r(1)]
      by (intro exI [of _ "if is_unsigned lt then 0 else 0x20"] exI [of _ 5] exI [of _ "drop_bit (nat b) a"])
        (auto simp: alu_def opassign_ins_def Let_def)
  qed
next
  case False
  let ?t = "usual lt rt"
  have ut: "int_type ?t" and wd: "width lt \<le> width ?t" using t by (simp_all add: int_type_usual width_usual)
  have c: "c_op k ?t (wrap ?t a) (wrap ?t b) = Some v" using v False by (simp add: c_bin_def c_type_def Let_def)
  note tb = take_bit_op [OF wd ut]
  have val: "c_val ?t y = Some v \<Longrightarrow> v = wrap ?t y" for y using c_val_range [OF ut, of y v] by simp
  note cong = wrap_cong [OF t(1)]
  note [simp] = alu_def opassign_ins_def Let_def W_bits
  show ?thesis
  proof (cases "k = ND_DIV \<or> k = ND_MOD")
    case True
    note sd = signed_division_range [OF t d [OF True]]
    have e: "wrap ?t a = a" "wrap ?t b = b" using sd(1) [OF r(1)] sd(2) [OF r(2)] by (auto simp: in_range_def)
    have b: "b \<noteq> 0" using c e True by (auto simp: c_op_def split: if_splits)
    note q = W_div_signed [OF ut sd(3) sd(1) [OF r(1)] sd(2) [OF r(2)] b]
    from True show ?thesis
    proof
      assume k: "k = ND_DIV"
      then have "v = wrap ?t (a sdiv b)" using c e b val by (simp add: c_op_def)
      then have "wrap lt (a sdiv b) = wrap lt v" by (intro cong) (simp add: wrap_take [OF ut wd])
      then show ?thesis using k q by (intro exI [of _ 1] exI [of _ 4] exI [of _ "a sdiv b"]) simp
    next
      assume k: "k = ND_MOD"
      then have "v = a smod b" using c e by (auto simp: c_op_def split: if_splits)
      then show ?thesis using k q by (intro exI [of _ 1] exI [of _ 6] exI [of _ "a smod b"]) simp
    qed
  next
    case nd: False
    consider "k = ND_ADD" | "k = ND_SUB" | "k = ND_MUL" | "k = ND_BITAND" | "k = ND_BITOR" | "k = ND_BITXOR"
      using k False nd by (cases k) (auto simp: is_cmp_def is_shift_def)
    then show ?thesis
    proof cases
      case 1
      have "wrap lt (a + b) = wrap lt v" using val [of "wrap ?t a + wrap ?t b"] c tb(1) [of a b] 1 by (intro cong) (simp add: c_op_def)
      then show ?thesis using 1 by (intro exI [of _ 0] exI [of _ "a + b"]) simp
    next
      case 2
      have "wrap lt (a - b) = wrap lt v" using val [of "wrap ?t a - wrap ?t b"] c tb(2) [of a b] 2 by (intro cong) (simp add: c_op_def)
      then show ?thesis using 2 by (intro exI [of _ "0x20"] exI [of _ 0] exI [of _ "a - b"]) simp
    next
      case 3
      have "wrap lt (a * b) = wrap lt v" using val [of "wrap ?t a * wrap ?t b"] c tb(3) [of a b] 3 by (intro cong) (simp add: c_op_def)
      then show ?thesis using 3 by (intro exI [of _ 1] exI [of _ 0] exI [of _ "a * b"]) simp
    next
      case 4
      have "wrap lt (a AND b) = wrap lt v" using c tb(4) [of a b] 4 by (intro cong) (simp add: c_op_def)
      then show ?thesis using 4 by (intro exI [of _ 0] exI [of _ 7] exI [of _ "a AND b"]) simp
    next
      case 5
      have "wrap lt (a OR b) = wrap lt v" using c tb(5) [of a b] 5 by (intro cong) (simp add: c_op_def)
      then show ?thesis using 5 by (intro exI [of _ 0] exI [of _ 6] exI [of _ "a OR b"]) simp
    next
      case 6
      have "wrap lt (a XOR b) = wrap lt v" using c tb(6) [of a b] 6 by (intro cong) (simp add: c_op_def)
      then show ?thesis using 6 by (intro exI [of _ 0] exI [of _ 4] exI [of _ "a XOR b"]) simp
    qed
  qed
qed

end
