(* ===== verification/Cc_Expr.thy ===== *)
theory Cc_Expr
  imports Cc_Effects
begin

text \<open>
  The code of an expression: it only appends to the code and places only labels of its own, and
  each piece of it is a list of instructions. What running it does is the theory Cc_Correct.
\<close>

section \<open>The code of an expression only appends\<close>

lemma bind_res_Ok [simp]: "bind_res r f = Ok y \<longleftrightarrow> (\<exists>x. r = Ok x \<and> f x = Ok y)"
  by (cases r) auto

lemma keeps_i [simp, intro]:
  assumes "keeps st st'"
  shows "keeps st (i_addi rd rs imm st')" "keeps st (i_li rd v st')" "keeps st (i_la rd s a st')" "keeps st (i_mv rd rs st')"
    "keeps st (i_r f7 f3 rd rs1 rs2 st')" "keeps st (push_reg r st')" "keeps st (pop_reg r st')" "keeps st (cast_to t st')"
    "keeps st (i_call_sym s st')" "keeps st (i_seqz rd rs st')" "keeps st (i_snez rd rs st')" "keeps st (i_ecall st')"
    "keeps st (i_sb rs2 rs1 imm st')" "keeps st (i_sd rs2 rs1 imm st')" "keeps st (i_ld rd rs imm st')" "keeps st (i_ret st')"
  using assms
  by (auto simp: i_addi_all i_li_all i_la_def mv_all i_r_def push_all pop_all cast_to_def Let_def i_call_sym_def i_seqz_def i_snez_def
      i_ecall_def i_sb_def i_sd_def i_ld_def i_ret_def)

lemma keeps_load: "load_value t st' = Ok st'' \<Longrightarrow> keeps st st' \<Longrightarrow> keeps st st''"
  by (auto simp: load_value_def i_lb_def i_lbu_def i_lh_def i_lhu_def i_lw_def i_lwu_def i_ld_def split: if_splits)

lemma keeps_store_value: "store_value t st' = Ok st'' \<Longrightarrow> keeps st st' \<Longrightarrow> keeps st st''"
  by (auto simp: store_value_def i_sb_def i_sh_def i_sw_def i_sd_def split: if_splits)

lemma keeps_store: "store_code t st' = Ok st'' \<Longrightarrow> keeps st st' \<Longrightarrow> keeps st st''"
  by (auto simp: store_code_def dest: keeps_store_value)

lemma keeps_scale [simp, intro]: "keeps st st' \<Longrightarrow> keeps st (scale r n st')"
  by (auto simp: scale_def)

lemma keeps_bin: "bin_code k ty lt rt st' = Ok st'' \<Longrightarrow> keeps st st' \<Longrightarrow> keeps st st''"
  by (cases k) (auto simp: bin_code_def Let_def add_code_def sub_code_def split: if_splits)

lemma keeps_opassign: "opassign_code k ty st' = Ok st'' \<Longrightarrow> keeps st st' \<Longrightarrow> keeps st st''"
  by (cases k) (auto simp: opassign_code_def Let_def split: if_splits)

lemma keeps_incdec:
  assumes "incdec_code p ty d st' = Ok st''" "keeps st st'"
  shows "keeps st st''"
proof -
  obtain step st1 where 1: "store_value ty (i_mv A0 T1 (pop_reg T1 (pop_reg T0 (pop_reg A1 (push_reg A0
      (if step \<noteq> 1 then i_r 0 0 A0 A0 T0 (i_li T0 (step * d) st') else i_addi A0 A0 d st')))))) = Ok st1"
    "st'' = cast_to ty (i_mv A0 (if p then A1 else T0) st1)"
    using assms(1) by (auto simp: incdec_code_def Let_def)
  have "keeps st st1" using 1(1) by (rule keeps_store_value) (simp add: assms(2))
  then show ?thesis unfolding 1(2) by simp
qed

lemma keeps_pop_args [simp, intro]: "keeps st st' \<Longrightarrow> keeps st (pop_args n st')"
  by (induction n arbitrary: st') auto

lemma keeps_call [simp, intro]: "keeps st st' \<Longrightarrow> keeps st (direct_call_code env ty v n st')" "keeps st st' \<Longrightarrow> keeps st (putchar_code env st')"
  by (auto simp: direct_call_code_def putchar_code_def write_byte_code_def Let_def split: option.split)

lemma keeps_va: "va_start_code env st' = Ok st'' \<Longrightarrow> keeps st st' \<Longrightarrow> keeps st st''"
  by (auto simp: va_start_code_def split: option.splits)

lemma keeps_jump [simp, intro]:
  assumes "keeps st st'" "l < nlabels st'"
  shows "keeps st (jump_to l st')" "keeps st (jump_if_zero r l st')" "keeps st (jump_if_nonzero r l st')"
  using assms by (auto simp: jump_to_def jump_if_zero_def jump_if_nonzero_def i_bf_def)

lemma new_label_keeps: "new_label st = (l, st') \<Longrightarrow> keeps st st' \<and> l = nlabels st \<and> nlabels st' = Suc l"
  using keeps_label [OF keeps_refl, of st] by (auto simp: new_label_def)

text \<open>The results of the parts of a composite piece.\<close>

lemmas keeps_results = keeps_load keeps_store keeps_bin keeps_opassign keeps_incdec keeps_va

lemma nlabels_simps [simp]:
  "nlabels (jump_to l st) = nlabels st" "nlabels (jump_if_zero r l st) = nlabels st" "nlabels (jump_if_nonzero r l st) = nlabels st"
  "nlabels (place_label l st) = nlabels st" "nlabels (i_li rd v st) = nlabels st"
  by (simp_all add: jump_to_def jump_if_zero_def jump_if_nonzero_def i_bf_def add_fixup_def place_label_def i_li_all)

text \<open>Two labels made first, then code.\<close>

lemma two_labels:
  assumes "new_label st = (l1, st1)" "new_label st1 = (l2, st2)"
  shows "keeps st st2" "l1 < nlabels st2" "l2 < nlabels st2" "nlabels st \<le> l1" "nlabels st \<le> l2"
  using new_label_keeps [OF assms(1)] new_label_keeps [OF assms(2)] by (auto intro: keeps_trans)

lemma keeps_via: "keeps st x \<Longrightarrow> keeps x y \<Longrightarrow> keeps y z \<Longrightarrow> keeps st z"
  by (blast intro: keeps_trans)

lemma keeps_nl: "keeps st st' \<Longrightarrow> l < nlabels st \<Longrightarrow> l < nlabels st'"
  using keeps_nlabels by fastforce

lemma keeps_cond:
  assumes "keeps st x" "l1 < nlabels x" "l2 < nlabels x" "nlabels st \<le> l1" "nlabels st \<le> l2"
    and "jz = jump_if_zero A0 \<or> jz = jump_if_nonzero A0" "keeps (jz l1 x) y"
  shows "keeps st (place_label l1 (jump_to l2 y))" "l2 < nlabels (place_label l1 (jump_to l2 y))"
    "keeps st (place_label l1 (jump_to l2 (i_li A0 v (jz l1 y))))" "l2 < nlabels (place_label l1 (jump_to l2 (i_li A0 v (jz l1 y))))"
    "keeps st y" "l1 < nlabels y"
proof -
  have j: "keeps st (jz l1 x)" "nlabels (jz l1 x) = nlabels x" using assms by auto
  then have y: "keeps st y" "l1 < nlabels y" "l2 < nlabels y" using assms(2,3) keeps_nlabels [OF assms(7)] keeps_trans [OF _ assms(7)] by auto
  then show "keeps st y" "l1 < nlabels y" by auto
  have jy: "keeps st (jz l1 y)" "nlabels (jz l1 y) = nlabels y" using assms(6) y by auto
  show "keeps st (place_label l1 (jump_to l2 y))" "l2 < nlabels (place_label l1 (jump_to l2 y))" using y assms(4) by auto
  show "keeps st (place_label l1 (jump_to l2 (i_li A0 v (jz l1 y))))" "l2 < nlabels (place_label l1 (jump_to l2 (i_li A0 v (jz l1 y))))"
    using jy y assms(4) by auto
qed

lemma gen_keeps:
  "gen_addr env n st = Ok st' \<Longrightarrow> keeps st st'"
  "gen_expr env n st = Ok st' \<Longrightarrow> keeps st st'"
  "gen_call env ty v c as st = Ok st' \<Longrightarrow> keeps st st'"
  "gen_args env as st = Ok st' \<Longrightarrow> keeps st st'"
proof (induction env n st and env n st and env ty v c as st and env as st arbitrary: st' and st' and st' and st'
    rule: gen_addr_gen_expr_gen_call_gen_args.induct)
  case (8 env t v st)
  then show ?case by (cases "o_is_function v") (auto intro: keeps_load simp del: gen_addr.simps)
next
  case (12 env t l r st)
  then obtain x y where x: "gen_addr env l st = Ok x" "gen_expr env r (push_reg A0 x) = Ok y"
    and r: "(let st = pop_reg A0 (i_mv A1 A0 y) in if is_aggregate (nty l) then Ok (i_call_sym (memcpy_sym env) (i_li A2 (ty_size (nty l)) st))
          else store_code (nty l) st) = Ok st'" by auto
  have y: "keeps st y" using keeps_via [OF "12.IH"(1) [OF x(1)] _ "12.IH"(2) [OF x(2)]] by simp
  show ?case using r y keeps_store [of "nty l" "pop_reg A0 (i_mv A1 A0 y)" st' st] by (auto simp: Let_def split: if_splits)
next
  case (13 env k t l r st)
  then obtain x xa xb xc where x: "gen_addr env l st = Ok x" "load_value (nty l) (push_reg A0 x) = Ok xa"
    "gen_expr env r (push_reg A0 xa) = Ok xb" "opassign_code k (nty l) (pop_reg A0 (i_mv A1 A0 xb)) = Ok xc"
    "store_code (nty l) (pop_reg A0 (pop_reg A1 (push_reg A0 xc))) = Ok st'" by auto
  have "keeps st xa" by (rule keeps_load [OF x(2)]) (simp add: "13.IH"(1) [OF x(1)])
  then have b: "keeps st xb" using keeps_via [OF _ _ "13.IH"(2) [OF x(3)], of st xa] by simp
  have "keeps st xc" by (rule keeps_opassign [OF x(4)]) (simp add: b)
  then show ?case by (intro keeps_store [OF x(5)]) simp
next
  case (14 env t l d st)
  then obtain x xa where x: "gen_addr env l st = Ok x" "load_value (nty l) (push_reg A0 x) = Ok xa"
    "incdec_code True (nty l) d (push_reg A0 xa) = Ok st'" by auto
  have "keeps st xa" by (rule keeps_load [OF x(2)]) (simp add: "14.IH" [OF x(1)])
  then show ?case by (intro keeps_incdec [OF x(3)]) simp
next
  case (15 env t l d st)
  then obtain x xa where x: "gen_addr env l st = Ok x" "load_value (nty l) (push_reg A0 x) = Ok xa"
    "incdec_code False (nty l) d (push_reg A0 xa) = Ok st'" by auto
  have "keeps st xa" by (rule keeps_load [OF x(2)]) (simp add: "15.IH" [OF x(1)])
  then show ?case by (intro keeps_incdec [OF x(3)]) simp
next
  case (18 env t c a b st)
  obtain l1 s1 l2 s2 where l: "new_label st = (l1, s1)" "new_label s1 = (l2, s2)" by fastforce
  then obtain x y z where x: "gen_expr env c s2 = Ok x" "gen_expr env a (jump_if_zero A0 l1 x) = Ok y"
    "gen_expr env b (place_label l1 (jump_to l2 y)) = Ok z" "st' = place_label l2 z" using "18.prems" by auto
  note tl = two_labels [OF l]
  have kx: "keeps s2 x" using "18.IH"(1) [OF l(1) [symmetric] l(2) [symmetric] x(1)] .
  have ky: "keeps (jump_if_zero A0 l1 x) y" using "18.IH"(2) [OF l(1) [symmetric] l(2) [symmetric] x(2)] .
  note c = keeps_cond [OF keeps_trans [OF tl(1) kx] keeps_nl [OF kx tl(2)] keeps_nl [OF kx tl(3)] tl(4,5) disjI1 [OF refl] ky]
  have kz: "keeps (place_label l1 (jump_to l2 y)) z" using "18.IH"(3) [OF l(1) [symmetric] l(2) [symmetric] x(3)] .
  show ?case unfolding x(4) using keeps_trans [OF c(1) kz] keeps_nl [OF kz c(2)] tl(5) by auto
next
  case (19 env t l r st)
  obtain l1 s1 l2 s2 where l: "new_label st = (l1, s1)" "new_label s1 = (l2, s2)" by fastforce
  then obtain x y where x: "gen_expr env l s2 = Ok x" "gen_expr env r (jump_if_zero A0 l1 x) = Ok y"
    "st' = place_label l2 (i_li A0 0 (place_label l1 (jump_to l2 (i_li A0 1 (jump_if_zero A0 l1 y)))))" using "19.prems" by (auto simp: Let_def)
  note tl = two_labels [OF l]
  have kx: "keeps s2 x" using "19.IH"(1) [OF l(1) [symmetric] l(2) [symmetric] x(1)] .
  have ky: "keeps (jump_if_zero A0 l1 x) y" using "19.IH"(2) [OF l(1) [symmetric] l(2) [symmetric] x(2)] .
  note c = keeps_cond(3,4) [OF keeps_trans [OF tl(1) kx] keeps_nl [OF kx tl(2)] keeps_nl [OF kx tl(3)] tl(4,5) disjI1 [OF refl] ky, of 1]
  show ?case unfolding x(3) using c tl(5) by auto
next
  case (20 env t l r st)
  obtain l1 s1 l2 s2 where l: "new_label st = (l1, s1)" "new_label s1 = (l2, s2)" by fastforce
  then obtain x y where x: "gen_expr env l s2 = Ok x" "gen_expr env r (jump_if_nonzero A0 l1 x) = Ok y"
    "st' = place_label l2 (i_li A0 1 (place_label l1 (jump_to l2 (i_li A0 0 (jump_if_nonzero A0 l1 y)))))" using "20.prems" by (auto simp: Let_def)
  note tl = two_labels [OF l]
  have kx: "keeps s2 x" using "20.IH"(1) [OF l(1) [symmetric] l(2) [symmetric] x(1)] .
  have ky: "keeps (jump_if_nonzero A0 l1 x) y" using "20.IH"(2) [OF l(1) [symmetric] l(2) [symmetric] x(2)] .
  note c = keeps_cond(3,4) [OF keeps_trans [OF tl(1) kx] keeps_nl [OF kx tl(2)] keeps_nl [OF kx tl(3)] tl(4,5) disjI2 [OF refl] ky, of 0]
  show ?case unfolding x(3) using c tl(5) by auto
next
  case (24 env k t l r st)
  then obtain x y where x: "gen_expr env l st = Ok x" "gen_expr env r (push_reg A0 x) = Ok y"
    "bin_code k t (decay (nty l)) (decay (nty r)) (pop_reg A0 (i_mv A1 A0 y)) = Ok st'" by auto
  have "keeps st y" using keeps_via [OF "24.IH"(1) [OF x(1)] _ "24.IH"(2) [OF x(2)]] by simp
  then show ?case by (intro keeps_bin [OF x(3)]) simp
next
  case (27 env t v callee as st)
  show ?case using "27.prems" "27.IH" [OF refl refl]
    by (simp add: Let_def split: if_splits list.splits) (auto intro: keeps_va keeps_trans)
next
  case (28 env t c as st)
  then obtain x y where x: "gen_expr env c st = Ok x" "gen_args env as (push_reg A0 x) = Ok y"
    and s: "st' = (let st = emit32 (enc_i 0x67 RA 0 T2 0) (pop_reg T2 (pop_args (length as) y)) in if ty_size t < 8 then cast_to t st else st)"
    by (auto simp: Let_def)
  have "keeps st y" using keeps_via [OF "28.IH"(1) [OF x(1)] _ "28.IH"(2) [OF x(2)]] by simp
  then show ?case unfolding s by (auto simp: Let_def)
next
  case (31 env a as st)
  then obtain x where x: "gen_expr env a st = Ok x" "gen_args env as (push_reg A0 x) = Ok st'" by auto
  show ?case using keeps_via [OF "31.IH"(1) [OF x(1)] _ "31.IH"(2) [OF x(2)]] by simp
qed (auto intro: keeps_trans keeps_results)

end
