(* ===== verification/Cc_Frame.thy ===== *)
theory Cc_Frame
  imports Cc_Expr
begin

text \<open>
  The stack frame while an expression is computed: the variables below the frame pointer \<open>s0\<close>,
  saved registers further down, up to the stack pointer. A piece of code \<open>computes\<close> a value
  when it leaves it in \<open>a0\<close> and the frame with the new values of the variables, and writes only
  to variables and below the stack pointer, not more than \<open>L\<close> bytes below the frame pointer. It may begin where \<open>P\<close> holds.
\<close>

section \<open>Frames\<close>

text \<open>The frame has \<open>F\<close> bytes; the first 16 hold the return address and the caller's \<open>s0\<close>.\<close>

definition layout_ok :: "int \<Rightarrow> obj list \<Rightarrow> bool" where
  "layout_ok F xs \<longleftrightarrow>
     16 \<le> F \<and>
     (\<forall>x\<in>set xs. local_int x \<and> 24 \<le> o_offset x \<and> o_offset x \<le> F \<and> 8 dvd o_offset x) \<and>
     (\<forall>x\<in>set xs. \<forall>y\<in>set xs. o_offset x = o_offset y \<longrightarrow> o_ty x = o_ty y)"

definition agrees :: "obj list \<Rightarrow> 64 word \<Rightarrow> store \<Rightarrow> memory \<Rightarrow> bool" where
  "agrees xs fp s M \<longleftrightarrow> (\<forall>x\<in>set xs. mem_value (o_ty x) (below fp (o_offset x)) M = s (o_offset x))"

definition frame :: "obj list \<Rightarrow> int \<Rightarrow> int \<Rightarrow> store \<Rightarrow> machine \<Rightarrow> bool" where
  "frame xs F D s m \<longleftrightarrow>
     layout_ok F xs \<and> F \<le> D \<and> D < 2 ^ 63 \<and> regs m 2 = below (regs m 8) D \<and> agrees xs (regs m 8) s (mem m)"

definition unchanged :: "int \<Rightarrow> int \<Rightarrow> int \<Rightarrow> 64 word \<Rightarrow> memory \<Rightarrow> memory \<Rightarrow> bool" where
  "unchanged F D L fp M M' \<longleftrightarrow>
     (\<forall>y. 0 \<le> y \<and> y < 2 ^ 64 \<and> (y \<le> 16 \<or> F < y \<and> y \<le> D \<or> L < y) \<longrightarrow> M' (below fp y) = M (below fp y))"

text \<open>Scratch registers: \<open>t0\<close>, \<open>t1\<close>, \<open>a0\<close>, \<open>a1\<close>, \<open>t6\<close>.\<close>

definition same :: "int \<Rightarrow> int \<Rightarrow> int \<Rightarrow> machine \<Rightarrow> machine \<Rightarrow> bool" where
  "same F D L m m' \<longleftrightarrow>
     (\<forall>r. r \<notin> {5, 6, 10, 11, 31} \<longrightarrow> regs m' r = regs m r) \<and> unchanged F D L (regs m 8) (mem m) (mem m')"

definition computes ::
  "byte list \<Rightarrow> obj list \<Rightarrow> int \<Rightarrow> int \<Rightarrow> int \<Rightarrow> (machine \<Rightarrow> bool) \<Rightarrow> emit \<Rightarrow> store \<Rightarrow> emit \<Rightarrow> (64 word \<Rightarrow> 64 word) \<Rightarrow> store \<Rightarrow> bool"
where
  "computes bs xs F D L P st s st' w s' \<longleftrightarrow>
     (\<forall>m. at st m \<and> frame xs F D s m \<and> P m \<longrightarrow>
       (\<exists>m'. runs bs m m' \<and> at st' m' \<and> regs m' 10 = w (regs m 8) \<and> frame xs F D s' m' \<and> same F D L m m'))"

text \<open>Two values, in \<open>a0\<close> and \<open>a1\<close>.\<close>

definition computes2 ::
  "byte list \<Rightarrow> obj list \<Rightarrow> int \<Rightarrow> int \<Rightarrow> int \<Rightarrow> (machine \<Rightarrow> bool) \<Rightarrow> emit \<Rightarrow> store \<Rightarrow> emit \<Rightarrow> (64 word \<Rightarrow> 64 word) \<Rightarrow> (64 word \<Rightarrow> 64 word) \<Rightarrow> store \<Rightarrow> bool"
where
  "computes2 bs xs F D L P st s st' w u s' \<longleftrightarrow>
     (\<forall>m. at st m \<and> frame xs F D s m \<and> P m \<longrightarrow>
       (\<exists>m'. runs bs m m' \<and> at st' m' \<and> regs m' 10 = w (regs m 8) \<and> regs m' 11 = u (regs m 8) \<and>
          frame xs F D s' m' \<and> same F D L m m'))"

lemma unchanged_refl [simp]: "unchanged F D L fp M M"
  by (simp add: unchanged_def)

lemma unchanged_trans:
  "unchanged F D L fp M M' \<Longrightarrow> unchanged F D' L' fp M' M'' \<Longrightarrow> D \<le> D' \<Longrightarrow> L \<le> L'' \<Longrightarrow> L' \<le> L'' \<Longrightarrow> unchanged F D L'' fp M M''"
  unfolding unchanged_def by (intro allI impI) (elim conjE disjE; simp)

lemma unchanged_mono: "unchanged F D L fp M M' \<Longrightarrow> D'' \<le> D \<Longrightarrow> L \<le> L'' \<Longrightarrow> unchanged F D'' L'' fp M M'"
  using unchanged_trans [of F D'' L fp M M D L M' L''] unfolding unchanged_def by auto

lemma same_fp: "same F D L m m' \<Longrightarrow> regs m' 8 = regs m 8 \<and> regs m' 2 = regs m 2"
  by (simp add: same_def)

lemma same_trans: "same F D L m m' \<Longrightarrow> same F D L' m' m'' \<Longrightarrow> L \<le> L'' \<Longrightarrow> L' \<le> L'' \<Longrightarrow> same F D L'' m m''"
  unfolding same_def by (auto intro: unchanged_trans)

lemma same_mono: "same F D L m m' \<Longrightarrow> L \<le> L'' \<Longrightarrow> same F D L'' m m'"
  unfolding same_def by (auto intro: unchanged_mono)

text \<open>Code that changes scratch registers only.\<close>

lemma same_regs: "(\<forall>r. r \<notin> {5, 6, 10, 11, 31} \<longrightarrow> R r = regs m r) \<Longrightarrow> same F D L m (m\<lparr>regs := R, pc := p\<rparr>)"
  by (simp add: same_def)

lemma frame_regs:
  "frame xs F D s m \<Longrightarrow> regs m' 8 = regs m 8 \<Longrightarrow> regs m' 2 = regs m 2 \<Longrightarrow> mem m' = mem m \<Longrightarrow> frame xs F D s m'"
  by (simp add: frame_def)

text \<open>One after the other.\<close>

lemma computes_mono: "computes bs xs F D L P st s st' w s' \<Longrightarrow> L \<le> L' \<Longrightarrow> computes bs xs F D L' P st s st' w s'"
  unfolding computes_def by (meson same_mono)

lemma computes_trans:
  assumes "computes bs xs F D L P st s st1 u s1" "computes bs xs F D L' Q st1 s1 st' w s'" "L \<le> L''" "L' \<le> L''"
    and "\<And>m. regs m 10 = u (regs m 8) \<Longrightarrow> Q m"
  shows "computes bs xs F D L'' P st s st' w s'"
  unfolding computes_def
proof (intro allI impI, elim conjE)
  fix m assume "at st m" "frame xs F D s m" "P m"
  then obtain m1 where 1: "runs bs m m1" "at st1 m1" "frame xs F D s1 m1" "same F D L m m1" "regs m1 10 = u (regs m 8)"
    using assms(1) unfolding computes_def by blast
  obtain m2 where 2: "runs bs m1 m2" "at st' m2" "regs m2 10 = w (regs m1 8)" "frame xs F D s' m2" "same F D L' m1 m2"
    using assms(2) 1(2,3) assms(5) [of m1] 1(5) same_fp [OF 1(4)] unfolding computes_def by auto
  show "\<exists>m'. runs bs m m' \<and> at st' m' \<and> regs m' 10 = w (regs m 8) \<and> frame xs F D s' m' \<and> same F D L'' m m'"
    using runs_trans [OF 1(1) 2(1)] 2(2-4) same_fp [OF 1(4)] same_trans [OF 1(4) 2(5) assms(3,4)] by auto
qed

text \<open>Straight code behind a computation that works on the scratch registers.\<close>

lemma computes_then:
  assumes "computes bs xs F D L P st s st' w s'" "final fin bs" "later (emit_all ws st') fin" "emit_ok st'"
    and "\<And>m. regs m 10 = w (regs m 8) \<Longrightarrow> frame xs F D s' m \<Longrightarrow>
      \<exists>R. exec_seq ws m = Some (m\<lparr>regs := R, pc := pc m + 4 * int (length ws)\<rparr>) \<and> R 10 = u (regs m 8) \<and>
        (\<forall>r. r \<notin> {5, 6, 10, 11, 31} \<longrightarrow> R r = regs m r)"
  shows "computes bs xs F D L P st s (emit_all ws st') u s'"
  unfolding computes_def
proof (intro allI impI, elim conjE)
  fix m assume "at st m" "frame xs F D s m" "P m"
  then obtain m1 where 1: "runs bs m m1" "at st' m1" "regs m1 10 = w (regs m 8)" "frame xs F D s' m1" "same F D L m m1"
    using assms(1) unfolding computes_def by blast
  have fp: "regs m1 8 = regs m 8" using same_fp [OF 1(5)] by simp
  obtain R where 2: "exec_seq ws m1 = Some (m1\<lparr>regs := R, pc := pc m1 + 4 * int (length ws)\<rparr>)" "R 10 = u (regs m1 8)"
      "\<forall>r. r \<notin> {5, 6, 10, 11, 31} \<longrightarrow> R r = regs m1 r"
    using assms(5) [of m1] 1(3,4) fp by auto
  let ?m = "m1\<lparr>regs := R, pc := pc m1 + 4 * int (length ws)\<rparr>"
  have r: "runs bs m1 ?m" "at (emit_all ws st') ?m" using runs_seq [OF assms(2-4) 1(2) 2(1)] by auto
  have "frame xs F D s' ?m" using 2(3) by (intro frame_regs [OF 1(4)]) simp_all
  moreover have "same F D L m ?m" using same_trans [OF 1(5) same_regs [OF 2(3)], of L L] by simp
  ultimately show "\<exists>m'. runs bs m m' \<and> at (emit_all ws st') m' \<and> regs m' 10 = u (regs m 8) \<and> frame xs F D s' m' \<and> same F D L m m'"
    using runs_trans [OF 1(1) r(1)] r(2) 2(2) fp by (intro exI [of _ ?m]) simp
qed

text \<open>From nothing: code that sets \<open>a0\<close>.\<close>

lemma computes_start:
  assumes "final fin bs" "later (emit_all ws st) fin" "emit_ok st"
    and "\<And>m. frame xs F D s m \<Longrightarrow> P m \<Longrightarrow> \<exists>R. exec_seq ws m = Some (m\<lparr>regs := R, pc := pc m + 4 * int (length ws)\<rparr>) \<and> R 10 = u (regs m 8) \<and>
        (\<forall>r. r \<notin> {5, 6, 10, 11, 31} \<longrightarrow> R r = regs m r)"
  shows "computes bs xs F D L P st s (emit_all ws st) u s"
  unfolding computes_def
proof (intro allI impI, elim conjE)
  fix m assume m: "at st m" "frame xs F D s m" "P m"
  obtain R where 2: "exec_seq ws m = Some (m\<lparr>regs := R, pc := pc m + 4 * int (length ws)\<rparr>)" "R 10 = u (regs m 8)"
      "\<forall>r. r \<notin> {5, 6, 10, 11, 31} \<longrightarrow> R r = regs m r"
    using assms(4) [OF m(2,3)] by auto
  let ?m = "m\<lparr>regs := R, pc := pc m + 4 * int (length ws)\<rparr>"
  have "runs bs m ?m" "at (emit_all ws st) ?m" using runs_seq [OF assms(1-3) m(1) 2(1)] by auto
  moreover have "frame xs F D s ?m" using 2(3) by (intro frame_regs [OF m(2)]) simp_all
  ultimately show "\<exists>m'. runs bs m m' \<and> at (emit_all ws st) m' \<and> regs m' 10 = u (regs m 8) \<and> frame xs F D s m' \<and> same F D L m m'"
    using same_regs [OF 2(3)] 2(2) by (intro exI [of _ ?m]) simp
qed

section \<open>Saving registers\<close>

lemma read_below_cong:
  assumes "\<And>y. x - int n < y \<Longrightarrow> y \<le> x \<Longrightarrow> M' (below fp y) = M (below fp y)"
  shows "mem_read n (below fp x) M' = mem_read n (below fp x) M"
proof (rule mem_read_cong, safe)
  fix i assume "i < n"
  then show "M' (below fp x + of_nat i) = M (below fp x + of_nat i)"
    unfolding below_add by (intro assms) linarith+
qed

lemma agrees_below:
  assumes "layout_ok F xs" "\<And>y. 16 < y \<Longrightarrow> y \<le> F \<Longrightarrow> M' (below fp y) = M (below fp y)"
  shows "agrees xs fp s M' \<longleftrightarrow> agrees xs fp s M"
proof -
  have "mem_value (o_ty x) (below fp (o_offset x)) M' = mem_value (o_ty x) (below fp (o_offset x)) M" if x: "x \<in> set xs" for x
  proof -
    have o: "int_type (o_ty x)" "24 \<le> o_offset x" "o_offset x \<le> F" using assms(1) x unfolding layout_ok_def local_int_def by blast+
    have "int (nat (ty_size (o_ty x))) \<le> 8" using int_type_size [OF o(1)] by auto
    then have "mem_read (nat (ty_size (o_ty x))) (below fp (o_offset x)) M' = mem_read (nat (ty_size (o_ty x))) (below fp (o_offset x)) M"
      using o by (intro read_below_cong assms(2)) linarith+
    then show ?thesis unfolding mem_value_def by (rule arg_cong)
  qed
  then show ?thesis unfolding agrees_def by simp
qed

text \<open>The stack pointer moved by 16 bytes.\<close>

lemma below_16: "below fp D - 16 = below fp (D + 16)" "below fp (D + 16) + 16 = below fp D"
  by (simp_all add: algebra_simps)

lemma push_frame:
  assumes "frame xs F D s m" "E = D + 16" "E < 2 ^ 63" "reg_no r" "r \<noteq> 0" "r \<noteq> 2"
  shows "\<exists>m'. exec_seq (push_ins r) m = Some m' \<and> frame xs F E s m' \<and>
    regs m' = (regs m)(2 := below (regs m 8) E) \<and> unchanged F D E (regs m 8) (mem m) (mem m') \<and>
    W (mem_read 8 (below (regs m 8) E) (mem m')) = regs m r"
proof -
  let ?fp = "regs m 8" and ?M = "mem_write 8 (below (regs m 8) E) (uint (regs m r)) (mem m)"
  let ?m = "m\<lparr>regs := (regs m)(2 := below (regs m 8) E), pc := pc m + 8, mem := ?M\<rparr>"
  have f: "layout_ok F xs" "16 \<le> F" "F \<le> D" "regs m 2 = below ?fp D" "agrees xs ?fp s (mem m)"
    using assms(1) unfolding frame_def layout_ok_def by blast+
  have sp: "regs m 2 - 16 = below ?fp E" unfolding f(4) assms(2) by (rule below_16)
  have o: "?M (below ?fp y) = mem m (below ?fp y)" if "0 \<le> y" "y < 2 ^ 64" "y \<le> D \<or> E < y" for y
    by (intro write_below_other) (use that f(2,3) assms(2,3) in \<open>auto\<close>)
  have lo: "?M (below ?fp y) = mem m (below ?fp y)" if "16 < y" "y \<le> F" for y
    using that f(3) assms(2,3) by (intro o) auto
  have ag: "agrees xs ?fp s ?M" using agrees_below [of F xs ?M ?fp "mem m" s, OF f(1) lo] f(5) by blast
  have u: "unchanged F D E ?fp (mem m) ?M" unfolding unchanged_def
  proof (intro allI impI, elim conjE)
    fix y :: int assume "0 \<le> y" "y < 2 ^ 64" "y \<le> 16 \<or> F < y \<and> y \<le> D \<or> E < y"
    then show "?M (below ?fp y) = mem m (below ?fp y)" using f(2,3) by (intro o) linarith+
  qed
  have "mem_read 8 (below ?fp E) ?M = uint (regs m r) mod 256 ^ 8" by (rule mem_read_write) simp_all
  also have "\<dots> = uint (regs m r)" using uint_lt2p [of "regs m r"] by (intro mod_pos_pos_trivial) simp_all
  finally have rd: "W (mem_read 8 (below ?fp E) ?M) = regs m r" by simp
  have "exec_seq (push_ins r) m = Some ?m" using push_run [OF assms(4-6), of m] unfolding sp .
  moreover have "frame xs F E s ?m" unfolding frame_def using f(1,3) assms(2,3) ag by simp
  moreover have "regs ?m = (regs m)(2 := below ?fp E)" by simp
  moreover have "mem ?m = ?M" by simp
  ultimately show ?thesis using u rd by metis
qed

text \<open>What was pushed is still there after code that runs above it.\<close>

lemma pushed_kept:
  assumes "unchanged F E L fp M M'" "F \<le> D" "0 \<le> D" "E = D + 16" "E < 2 ^ 63"
  shows "mem_read 8 (below fp E) M' = mem_read 8 (below fp E) M"
proof (rule read_below_cong)
  fix y :: int assume "E - int 8 < y" "y \<le> E"
  then have "0 \<le> y \<and> y < 2 ^ 64 \<and> (y \<le> 16 \<or> F < y \<and> y \<le> E \<or> L < y)" using assms(2-5) by auto
  then show "M' (below fp y) = M (below fp y)" using assms(1) unfolding unchanged_def by blast
qed

end
