(* ===== verification/Cc_Operands.thy ===== *)
theory Cc_Operands
  imports Cc_Frame
begin

text \<open>
  Operands on the stack: a value that was pushed is popped again after code that leaves the stack
  as it was, and a value is stored in a variable. Each step is a run of straight code from one
  frame to another.
\<close>

section \<open>A saved register\<close>

lemma seq_run: "exec_seq us m = Some m1 \<Longrightarrow> exec_seq vs m1 = Some m2 \<Longrightarrow> exec_seq (us @ vs) m = Some m2"
  by (simp add: exec_seq_append)

definition saves :: "int \<Rightarrow> int \<Rightarrow> int \<Rightarrow> 64 word \<Rightarrow> machine \<Rightarrow> machine \<Rightarrow> bool" where
  "saves F D E w m m1 \<longleftrightarrow>
     regs m1 = (regs m)(2 := below (regs m 8) E) \<and> unchanged F D E (regs m 8) (mem m) (mem m1) \<and>
     W (mem_read 8 (below (regs m 8) E) (mem m1)) = w"

lemma push_saves:
  assumes "frame xs F D s m" "E = D + 16" "E < 2 ^ 63" "reg_no r" "r \<noteq> 0" "r \<noteq> 2"
  shows "\<exists>m1. exec_seq (push_ins r) m = Some m1 \<and> frame xs F E s m1 \<and> saves F D E (regs m r) m m1"
  using push_frame [OF assms] unfolding saves_def by blast

abbreviation scratch :: "int set" where
  "scratch \<equiv> {5, 6, 10, 11, 31}"

lemma pop_saved:
  assumes f: "frame xs F D s m" and E: "E = D + 16" "E < 2 ^ 63" "E \<le> L" and sv: "saves F D E w m m1"
    and f2: "frame xs F E s2 m2" and s2: "same F E L m1 m2" and rd: "reg_no rd" "rd \<in> scratch"
  shows "\<exists>m3. exec_seq (pop_ins rd) m2 = Some m3 \<and> regs m3 = (regs m2)(rd := w, 2 := regs m 2) \<and>
    mem m3 = mem m2 \<and> frame xs F D s2 m3 \<and> same F D L m m3"
proof -
  let ?fp = "regs m 8"
  have m: "layout_ok F xs" "16 \<le> F" "F \<le> D" "regs m 2 = below ?fp D" using f unfolding frame_def layout_ok_def by blast+
  have m1: "regs m1 = (regs m)(2 := below ?fp E)" "unchanged F D E ?fp (mem m) (mem m1)" "W (mem_read 8 (below ?fp E) (mem m1)) = w"
    using sv unfolding saves_def by blast+
  have fp: "regs m1 8 = ?fp" "regs m2 8 = ?fp" "regs m2 2 = below ?fp E" using m1(1) same_fp [OF s2] by auto
  have u: "unchanged F E L ?fp (mem m1) (mem m2)" using s2 fp(1) unfolding same_def by simp
  have "mem_read 8 (below ?fp E) (mem m2) = mem_read 8 (below ?fp E) (mem m1)"
    by (rule pushed_kept [OF u m(3) _ E(1,2)]) (use m in simp)
  then have w: "W (mem_read 8 (regs m2 2) (mem m2)) = w" using m1(3) fp(3) by simp
  have sp: "regs m2 2 + 16 = regs m 2" unfolding fp(3) m(4) E(1) by (rule below_16)
  let ?m = "m2\<lparr>regs := (regs m2)(rd := w, 2 := regs m 2), pc := pc m2 + 8\<rparr>"
  have r: "rd \<noteq> 0" "rd \<noteq> 2" "rd \<noteq> 8" using rd(2) by auto
  have "exec_seq (pop_ins rd) m2 = Some ?m" using pop_run [OF rd(1) r(1,2), of m2] unfolding w sp .
  moreover have "frame xs F D s2 ?m" using f2 r m fp E(2) E(1) unfolding frame_def by simp
  moreover have "same F D L m ?m" unfolding same_def
  proof (intro conjI allI impI)
    fix q :: int assume "q \<notin> scratch"
    then show "regs ?m q = regs m q" using s2 m1(1) rd(2) unfolding same_def by auto
  next
    show "unchanged F D L (regs m 8) (mem m) (mem ?m)" using unchanged_trans [OF m1(2) u _ E(3) order_refl] E(1) by simp
  qed
  ultimately show ?thesis by (intro exI [of _ ?m]) simp
qed

text \<open>From \<open>a0\<close> to \<open>a1\<close>, by way of the stack or not.\<close>

definition moves :: "obj list \<Rightarrow> int \<Rightarrow> int \<Rightarrow> int \<Rightarrow> 32 word list \<Rightarrow> bool" where
  "moves xs F E L ws \<longleftrightarrow>
     (\<forall>s m. frame xs F E s m \<longrightarrow> (\<exists>m'. exec_seq ws m = Some m' \<and> regs m' 11 = regs m 10 \<and> frame xs F E s m' \<and> same F E L m m'))"

lemma moves_mv: "moves xs F E L [enc_i 0x13 11 0 10 0]"
  unfolding moves_def
proof (intro allI impI)
  fix s m assume f: "frame xs F E s m"
  let ?m = "m\<lparr>regs := (regs m)(11 := regs m 10), pc := pc m + 4\<rparr>"
  have "exec_seq [enc_i 0x13 11 0 10 0] m = Some ?m" by (rule mv_run) simp_all
  moreover have "frame xs F E s ?m" by (rule frame_regs [OF f]) simp_all
  moreover have "same F E L m ?m" by (rule same_regs) simp
  ultimately show "\<exists>m'. exec_seq [enc_i 0x13 11 0 10 0] m = Some m' \<and> regs m' 11 = regs m 10 \<and> frame xs F E s m' \<and> same F E L m m'"
    by (intro exI [of _ ?m]) simp
qed

lemma same_refl [simp]: "same F D L m m"
  by (simp add: same_def)

lemma moves_stack:
  assumes "G = E + 16" "G < 2 ^ 63" "G \<le> L"
  shows "moves xs F E L (push_ins 10 @ pop_ins 11)"
  unfolding moves_def
proof (intro allI impI)
  fix s m assume f: "frame xs F E s m"
  obtain m1 where 1: "exec_seq (push_ins 10) m = Some m1" "frame xs F G s m1" "saves F E G (regs m 10) m m1"
    using push_saves [OF f assms(1,2), of 10] by auto
  obtain m2 where 2: "exec_seq (pop_ins 11) m1 = Some m2" "regs m2 = (regs m1)(11 := regs m 10, 2 := regs m 2)" "frame xs F E s m2" "same F E L m m2"
    using pop_saved [OF f assms(1-3) 1(3,2), of 11] by auto
  show "\<exists>m'. exec_seq (push_ins 10 @ pop_ins 11) m = Some m' \<and> regs m' 11 = regs m 10 \<and> frame xs F E s m' \<and> same F E L m m'"
    using 1(1) 2 by (intro exI [of _ m2]) (simp add: exec_seq_append)
qed

section \<open>Two operands\<close>

text \<open>The left one is pushed while the right one is computed.\<close>

lemma operands:
  assumes l: "computes bs xs F D L0 P st s st1 w s1" "L0 \<le> L" and E: "E = D + 16" "E < 2 ^ 63" "E \<le> L"
    and r: "computes bs xs F E L (\<lambda>m. regs m 10 = w (regs m 8)) (emit_all (push_ins 10) st1) s1 st2 u s2" and mv: "moves xs F E L ws"
    and fin: "final fin bs" "later (emit_all (ws @ pop_ins 10) st2) fin" "emit_ok st1" "keeps (emit_all (push_ins 10) st1) st2"
  shows "computes2 bs xs F D L P st s (emit_all (ws @ pop_ins 10) st2) w u s2"
  unfolding computes2_def
proof (intro allI impI, elim conjE)
  let ?st' = "emit_all (ws @ pop_ins 10) st2"
  fix m assume "at st m" "frame xs F D s m" "P m"
  then obtain m1 where 1: "runs bs m m1" "at st1 m1" "regs m1 10 = w (regs m 8)" "frame xs F D s1 m1" "same F D L0 m m1"
    using l(1) unfolding computes_def by blast
  have fp: "regs m1 8 = regs m 8" using same_fp [OF 1(5)] by simp
  obtain m2 where 2: "exec_seq (push_ins 10) m1 = Some m2" "frame xs F E s1 m2" "saves F D E (regs m1 10) m1 m2"
    using push_saves [OF 1(4) E(1,2), of 10] by auto
  have k2: "keeps st2 ?st'" by (intro keeps_emit_all keeps_refl)
  have p: "later (emit_all (push_ins 10) st1) fin" using keeps_later [OF keeps_trans [OF fin(4) k2] fin(2)] .
  have ok2: "emit_ok st2" using keeps_ok [OF fin(4) keeps_ok [OF keeps_emit_all [OF keeps_refl] fin(3)]] .
  note r2 = runs_seq [OF fin(1) p fin(3) 1(2) 2(1)]
  have fp2: "regs m2 8 = regs m 8" "regs m2 10 = w (regs m2 8)" using 2(3) 1(3) fp unfolding saves_def by simp_all
  obtain m3 where 3: "runs bs m2 m3" "at st2 m3" "regs m3 10 = u (regs m 8)" "frame xs F E s2 m3" "same F E L m2 m3"
    using r r2 2(2) fp2 unfolding computes_def by metis
  obtain m4 where 4: "exec_seq ws m3 = Some m4" "regs m4 11 = regs m3 10" "frame xs F E s2 m4" "same F E L m3 m4"
    using mv 3(4) unfolding moves_def by blast
  obtain m5 where 5: "exec_seq (pop_ins 10) m4 = Some m5" "regs m5 = (regs m4)(10 := regs m1 10, 2 := regs m1 2)"
      "frame xs F D s2 m5" "same F D L m1 m5"
    using pop_saved [OF 1(4) E 2(3) 4(3) same_trans [OF 3(5) 4(4) order_refl order_refl], of 10] by auto
  have "exec_seq (ws @ pop_ins 10) m3 = Some m5" using 4(1) 5(1) by (simp add: exec_seq_append)
  from runs_seq [OF fin(1,2) ok2 3(2) this] have r5: "runs bs m3 m5" "at ?st' m5" by auto
  have "runs bs m m5" using runs_trans [OF 1(1) runs_trans [OF conjunct1 [OF r2] runs_trans [OF 3(1) r5(1)]]] .
  moreover have "same F D L m m5" using same_trans [OF 1(5) 5(4) l(2) order_refl] .
  ultimately show "\<exists>m'. runs bs m m' \<and> at ?st' m' \<and> regs m' 10 = w (regs m 8) \<and> regs m' 11 = u (regs m 8) \<and>
      frame xs F D s2 m' \<and> same F D L m m'"
    using r5(2) 5(2,3) 4(2) 3(3) 1(3) by (intro exI [of _ m5]) simp
qed

text \<open>Straight code that works on the two.\<close>

lemma computes2_then:
  assumes "computes2 bs xs F D L P st s st' w u s'" "final fin bs" "later (emit_all ws st') fin" "emit_ok st'"
    and "\<And>m. regs m 10 = w (regs m 8) \<Longrightarrow> regs m 11 = u (regs m 8) \<Longrightarrow> frame xs F D s' m \<Longrightarrow>
      \<exists>m'. exec_seq ws m = Some m' \<and> regs m' 10 = v (regs m 8) \<and> frame xs F D s'' m' \<and> same F D L m m'"
  shows "computes bs xs F D L P st s (emit_all ws st') v s''"
  unfolding computes_def
proof (intro allI impI, elim conjE)
  fix m assume "at st m" "frame xs F D s m" "P m"
  then obtain m1 where 1: "runs bs m m1" "at st' m1" "regs m1 10 = w (regs m 8)" "regs m1 11 = u (regs m 8)"
      "frame xs F D s' m1" "same F D L m m1"
    using assms(1) unfolding computes2_def by blast
  have fp: "regs m1 8 = regs m 8" using same_fp [OF 1(6)] by simp
  obtain m2 where 2: "exec_seq ws m1 = Some m2" "regs m2 10 = v (regs m 8)" "frame xs F D s'' m2" "same F D L m1 m2"
    using assms(5) [of m1] 1(3-5) fp by auto
  from runs_seq [OF assms(2-4) 1(2) 2(1)] show "\<exists>m'. runs bs m m' \<and> at (emit_all ws st') m' \<and> regs m' 10 = v (regs m 8) \<and>
      frame xs F D s'' m' \<and> same F D L m m'"
    using runs_trans [OF 1(1)] 2 same_trans [OF 1(6) 2(4) order_refl order_refl] by blast
qed

section \<open>Storing\<close>

lemma store_agrees:
  fixes v :: int
  assumes lay: "layout_ok F xs" "F \<le> D" "D < 2 ^ 63" and x: "x \<in> set xs" and ag: "agrees xs fp s M"
  defines "M' \<equiv> mem_write (nat (ty_size (o_ty x))) (below fp (o_offset x)) (uint (W v)) M"
  shows "agrees xs fp (s(o_offset x := wrap (o_ty x) v)) M'" "F \<le> L \<Longrightarrow> unchanged F D L fp M M'"
proof -
  have ox: "int_type (o_ty x)" "24 \<le> o_offset x" "o_offset x \<le> F" "8 dvd o_offset x"
    using lay(1) x unfolding layout_ok_def local_int_def by blast+
  have nx: "int (nat (ty_size (o_ty x))) \<le> 8" using int_type_size [OF ox(1)] by auto
  have "mem_value (o_ty y) (below fp (o_offset y)) M' = (s(o_offset x := wrap (o_ty x) v)) (o_offset y)" if y: "y \<in> set xs" for y
  proof (cases "o_offset y = o_offset x")
    case True
    then have "o_ty y = o_ty x" using lay(1) x y unfolding layout_ok_def by blast
    then show ?thesis using True mem_value_write [OF ox(1)] unfolding M'_def by simp
  next
    case False
    have oy: "int_type (o_ty y)" "24 \<le> o_offset y" "o_offset y \<le> F" "8 dvd o_offset y"
      using lay(1) y unfolding layout_ok_def local_int_def by blast+
    have ny: "int (nat (ty_size (o_ty y))) \<le> 8" using int_type_size [OF oy(1)] by auto
    have apart: "o_offset y + 8 \<le> o_offset x \<or> o_offset x + 8 \<le> o_offset y" using False ox(4) oy(4) by (auto elim!: dvdE)
    have "mem_read (nat (ty_size (o_ty y))) (below fp (o_offset y)) M' = mem_read (nat (ty_size (o_ty y))) (below fp (o_offset y)) M"
      unfolding M'_def by (rule read_write_below_other) (use nx ny apart ox oy lay in auto)
    then have "mem_value (o_ty y) (below fp (o_offset y)) M' = mem_value (o_ty y) (below fp (o_offset y)) M"
      unfolding mem_value_def by (rule arg_cong)
    then show ?thesis using ag y False unfolding agrees_def by simp
  qed
  then show "agrees xs fp (s(o_offset x := wrap (o_ty x) v)) M'" unfolding agrees_def by blast
  have "M' (below fp y) = M (below fp y)" if "0 \<le> y" "y < 2 ^ 64" "y \<le> 16 \<or> F < y" for y
    unfolding M'_def by (rule write_below_other) (use that nx ox lay in auto)
  then show "F \<le> L \<Longrightarrow> unchanged F D L fp M M'" unfolding unchanged_def by (intro allI impI) auto
qed

definition assign_ins :: "ctype \<Rightarrow> 32 word list" where
  "assign_ins t = store_ins t @ [enc_i 0x13 10 0 11 0] @ cast_ins t"

lemma store_code_all: "int_type t \<Longrightarrow> store_code t st = Ok (emit_all (assign_ins t) st)"
  by (simp add: store_code_def store_all cast_all mv_all assign_ins_def A0_def A1_def)

lemma store_step:
  assumes f: "frame xs F D s m" and x: "x \<in> set xs" and m: "regs m 10 = below (regs m 8) (o_offset x)" "regs m 11 = W v" and L: "D \<le> L"
  shows "\<exists>m'. exec_seq (store_ins (o_ty x)) m = Some m' \<and> regs m' = regs m \<and>
    frame xs F D (s(o_offset x := wrap (o_ty x) v)) m' \<and> same F D L m m'"
proof -
  have a: "layout_ok F xs" "F \<le> D" "D < 2 ^ 63" "regs m 2 = below (regs m 8) D" "agrees xs (regs m 8) s (mem m)"
    using f unfolding frame_def by blast+
  have t: "int_type (o_ty x)" using a(1) x unfolding layout_ok_def local_int_def by blast
  let ?M = "mem_write (nat (ty_size (o_ty x))) (below (regs m 8) (o_offset x)) (uint (W v)) (mem m)"
  let ?m = "m\<lparr>pc := pc m + 4, mem := ?M\<rparr>"
  have "exec_seq (store_ins (o_ty x)) m = Some ?m" using store_run [OF t, of m] unfolding m .
  moreover have "frame xs F D (s(o_offset x := wrap (o_ty x) v)) ?m"
    unfolding frame_def using a store_agrees(1) [OF a(1-3) x a(5)] by simp
  moreover have "same F D L m ?m" using store_agrees(2) [OF a(1-3) x a(5), of L v] L a(2) unfolding same_def by simp
  ultimately show ?thesis by (intro exI [of _ ?m]) simp
qed

lemma assign_step:
  assumes f: "frame xs F D s m" and x: "x \<in> set xs" and m: "regs m 10 = below (regs m 8) (o_offset x)" "regs m 11 = W v" and L: "D \<le> L"
  shows "\<exists>m'. exec_seq (assign_ins (o_ty x)) m = Some m' \<and> regs m' 10 = W (wrap (o_ty x) v) \<and>
    frame xs F D (s(o_offset x := wrap (o_ty x) v)) m' \<and> same F D L m m'"
proof -
  let ?t = "o_ty x" and ?s = "s(o_offset x := wrap (o_ty x) v)"
  have t: "int_type ?t" using f x unfolding frame_def layout_ok_def local_int_def by blast
  obtain m1 where 1: "exec_seq (store_ins ?t) m = Some m1" "regs m1 = regs m" "frame xs F D ?s m1" "same F D L m m1"
    using store_step [OF assms] by blast
  let ?m2 = "m1\<lparr>regs := (regs m1)(10 := regs m1 11), pc := pc m1 + 4\<rparr>"
  let ?m3 = "?m2\<lparr>regs := (regs ?m2)(10 := W (wrap ?t v)), pc := pc ?m2 + 4 * int (length (cast_ins ?t))\<rparr>"
  have 2: "exec_seq [enc_i 0x13 10 0 11 0] m1 = Some ?m2" by (rule mv_run) simp_all
  have 3: "exec_seq (cast_ins ?t) ?m2 = Some ?m3" by (rule cast_run [OF t]) (simp add: 1(2) m(2))
  have "exec_seq (assign_ins ?t) m = Some ?m3" unfolding assign_ins_def by (rule seq_run [OF 1(1) seq_run [OF 2 3]])
  moreover have "frame xs F D ?s ?m3" by (rule frame_regs [OF 1(3)]) simp_all
  moreover have "same F D L m ?m3" by (rule same_trans [OF 1(4) _ order_refl order_refl]) (simp add: same_def)
  ultimately show ?thesis by (intro exI [of _ ?m3]) simp
qed

end
