(* ===== verification/Cc_Correct.thy ===== *)
theory Cc_Correct
  imports Cc_Operands
begin

text \<open>
  Compiled integer expressions compute the value that C gives them, and leave the variables with
  the values that C gives them.
\<close>

section \<open>Typing\<close>

definition ranges :: "obj list \<Rightarrow> store \<Rightarrow> bool" where
  "ranges xs s \<longleftrightarrow> (\<forall>x\<in>set xs. in_range (o_ty x) (s (o_offset x)))"

lemma layout_type: "layout_ok F xs \<Longrightarrow> x \<in> set xs \<Longrightarrow> int_type (o_ty x)"
  unfolding layout_ok_def local_int_def by blast

lemma layout_local: "layout_ok F xs \<Longrightarrow> x \<in> set xs \<Longrightarrow> o_is_local x \<and> \<not> o_is_function x"
  unfolding layout_ok_def local_int_def by blast

lemma typed_varE:
  assumes "typed_var xs t l"
  obtains x where "l = ND_VAR t x" "var_of l = Some x" "x \<in> set xs" "o_ty x = t"
  using assms by (cases l) (auto simp: typed_var_def var_of_def)

lemma typed_int: "typed xs e \<Longrightarrow> layout_ok F xs \<Longrightarrow> int_type (nty e)"
  by (induction xs e rule: typed.induct)
    (auto simp: layout_type agree_types_def int_type_usual elim!: typed_varE split: if_splits)

lemma ranges_upd:
  assumes "layout_ok F xs" "ranges xs s" "x \<in> set xs" "in_range (o_ty x) v"
  shows "ranges xs (s(o_offset x := v))"
proof -
  have "o_offset y = o_offset x \<Longrightarrow> o_ty y = o_ty x" if "y \<in> set xs" for y
    using assms(1,3) that unfolding layout_ok_def by blast
  then show ?thesis using assms(2,4) unfolding ranges_def by auto
qed

lemma frame_ranges: "frame xs F D s m \<Longrightarrow> ranges xs s"
  unfolding frame_def agrees_def ranges_def by (metis layout_type mem_value_range)

lemma c_bin_range:
  assumes "typed xs (ND_BIN k t l r)" "layout_ok F xs" "in_range (nty l) a" "in_range (nty r) b" "c_bin k (nty l) (nty r) a b = Some v"
  shows "in_range t v"
proof -
  have i: "int_type (nty l)" "int_type (nty r)" using assms(1,2) by (auto intro: typed_int)
  consider "is_shift k" "4 \<le> ty_size (nty l)" "t = nty l" | "is_cmp k" "t = ty_int" | "\<not> is_shift k" "\<not> is_cmp k" "t = usual (nty l) (nty r)"
    using assms(1) by (auto split: if_splits)
  then show ?thesis
  proof cases
    case 1
    then have o: "c_op k t (wrap t a) b = Some v" using assms(3,5) by (simp add: c_bin_def c_type_def promote_def Let_def)
    have t: "int_type t" using i 1 by simp
    obtain x where "wrap t x = v" using c_shift_word [OF t in_range_wrap [OF t] 1(1) o] by blast
    then show ?thesis using t in_range_wrap by blast
  next
    case 2
    then show ?thesis using assms(5)
      by (cases k) (auto simp: c_bin_def c_op_def is_cmp_def Let_def in_range_bool)
  next
    case 3
    then have t: "int_type t" using i by (simp add: int_type_usual)
    have "c_op k t (wrap t a) (wrap t b) = Some v" using 3 assms(5) by (simp add: c_bin_def c_type_def Let_def)
    then obtain x where "wrap t x = v"
      using c_op_word [OF t in_range_wrap [OF t] in_range_wrap [OF t] 3(2,1) refl] by blast
    then show ?thesis using t in_range_wrap by blast
  qed
qed

lemma ev_range:
  "typed xs e \<Longrightarrow> layout_ok F xs \<Longrightarrow> ranges xs s \<Longrightarrow> ev e s = Some (v, s') \<Longrightarrow> in_range (nty e) v \<and> ranges xs s'"
proof (induction xs e arbitrary: s s' v rule: typed.induct)
  case (3 xs k t l r)
  from 3(6) obtain a s1 b where 1: "ev l s = Some (a, s1)" "ev r s1 = Some (b, s')" "c_bin k (nty l) (nty r) a b = Some v"
    by (auto split: option.splits)
  have t: "typed xs l" "typed xs r" using 3(3) by auto
  have a: "in_range (nty l) a" "ranges xs s1" using 3(1) [OF t(1) 3(4,5) 1(1)] by auto
  have b: "in_range (nty r) b" "ranges xs s'" using 3(2) [OF t(2) 3(4) a(2) 1(2)] by auto
  show ?case using c_bin_range [OF 3(3,4) a(1) b(1) 1(3)] b(2) by simp
next
  case (8 xs t l)
  from 8(5) obtain a where 1: "ev l s = Some (a, s')" "c_val (promote (nty l)) (- a) = Some v" by (auto split: option.splits)
  have l: "typed xs l" "t = nty l" "promote (nty l) = nty l" using 8(2) by (auto simp: promote_def)
  note typed_int [OF l(1) 8(3)] 8(1) [OF l(1) 8(3,4) 1(1)]
  then show ?case using l 1(2) c_val_range [of "nty l" "- a" v] in_range_wrap [of "nty l" "- a"] by simp
next
  case (10 xs t l)
  from 10(5) obtain a where 1: "ev l s = Some (a, s')" "v = wrap (promote (nty l)) (NOT a)" by (auto split: option.splits)
  have l: "typed xs l" "t = nty l" "promote (nty l) = nty l" using 10(2) by (auto simp: promote_def)
  note typed_int [OF l(1) 10(3)] 10(1) [OF l(1) 10(3,4) 1(1)]
  then show ?case using l 1(2) in_range_wrap [of "nty l" "NOT a"] by simp
next
  case (12 xs t l r)
  then obtain x where x: "var_of l = Some x" "x \<in> set xs" "o_ty x = t" by (auto elim: typed_varE)
  then show ?case using 12 in_range_wrap [OF layout_type [OF 12(3) x(2)]] ranges_upd [OF 12(3) _ x(2)]
    by (auto simp: Let_def split: option.splits)
next
  case (13 xs k t l r)
  then obtain x where x: "var_of l = Some x" "x \<in> set xs" "o_ty x = t" by (auto elim: typed_varE)
  then show ?case using 13 in_range_wrap [OF layout_type [OF 13(3) x(2)]] ranges_upd [OF 13(3) _ x(2)]
    by (auto simp: Let_def split: option.splits)
next
  case (14 xs t l d)
  then obtain x where x: "var_of l = Some x" "x \<in> set xs" "o_ty x = t" by (auto elim: typed_varE)
  then show ?case using 14 in_range_wrap [OF layout_type [OF 14(2) x(2)]] ranges_upd [OF 14(2) _ x(2)]
    by (auto simp: Let_def split: option.splits)
next
  case (15 xs t l d)
  then obtain x where x: "var_of l = Some x" "x \<in> set xs" "o_ty x = t" by (auto elim: typed_varE)
  then show ?case using 15 in_range_wrap [OF layout_type [OF 15(2) x(2)]] ranges_upd [OF 15(2) _ x(2)]
    by (auto simp: ranges_def Let_def split: option.splits)
next
  case (4 xs t l r)
  from 4(6) obtain a s1 where 1: "ev l s = Some (a, s1)" "a = 0 \<and> v = 0 \<and> s' = s1 \<or> (\<exists>b. ev r s1 = Some (b, s') \<and> v = of_bool (b \<noteq> 0))"
    by (auto split: option.splits if_splits)
  have t: "typed xs l" "typed xs r" "t = ty_int" using 4(3) by auto
  have a: "ranges xs s1" using 4(1) [OF t(1) 4(4,5) 1(1)] by simp
  show ?case using 1(2) 4(2) [OF t(2) 4(4) a] a t(3) in_range_bool [of ty_int False] in_range_bool [of ty_int] by auto
next
  case (5 xs t l r)
  from 5(6) obtain a s1 where 1: "ev l s = Some (a, s1)" "a \<noteq> 0 \<and> v = 1 \<and> s' = s1 \<or> (\<exists>b. ev r s1 = Some (b, s') \<and> v = of_bool (b \<noteq> 0))"
    by (auto split: option.splits if_splits)
  have t: "typed xs l" "typed xs r" "t = ty_int" using 5(3) by auto
  have a: "ranges xs s1" using 5(1) [OF t(1) 5(4,5) 1(1)] by simp
  show ?case using 1(2) 5(2) [OF t(2) 5(4) a] a t(3) in_range_bool [of ty_int True] in_range_bool [of ty_int] by auto
next
  case (6 xs t c x y)
  from 6(7) obtain a s1 where 1: "ev c s = Some (a, s1)" "(if a \<noteq> 0 then ev x s1 else ev y s1) = Some (v, s')" by (auto split: option.splits)
  have t: "typed xs c" "typed xs x" "typed xs y" "nty x = t" "nty y = t" using 6(4) by auto
  have a: "ranges xs s1" using 6(1) [OF t(1) 6(5,6) 1(1)] by simp
  show ?case using 1(2) 6(2) [OF t(2) 6(5) a] 6(3) [OF t(3) 6(5) a] t(4,5) by (auto split: if_splits)
next
  case (7 xs t l r)
  from 7(6) obtain a s1 where 1: "ev l s = Some (a, s1)" "ev r s1 = Some (v, s')" by (auto split: option.splits)
  have t: "typed xs l" "typed xs r" "t = nty r" using 7(3) by auto
  have a: "ranges xs s1" using 7(1) [OF t(1) 7(4,5) 1(1)] by simp
  show ?case using 7(2) [OF t(2) 7(4) a 1(2)] t(3) by simp
next
  case (9 xs t l)
  from 9(5) obtain a where 1: "ev l s = Some (a, s')" "v = of_bool (a = 0)" by (auto split: option.splits)
  have t: "typed xs l" "t = ty_int" using 9(2) by auto
  show ?case using 9(1) [OF t(1) 9(3,4) 1(1)] t(2) 1(2) in_range_bool [of ty_int] by simp
next
  case (11 xs t l)
  from 11(5) obtain a where 1: "ev l s = Some (a, s')" "v = wrap t a" by (auto split: option.splits)
  have t: "typed xs l" "int_type t" using 11(2) by auto
  show ?case using 11(1) [OF t(1) 11(3,4) 1(1)] 1(2) in_range_wrap [OF t(2)] by simp
next
  case (2 xs t x)
  then show ?case by (auto simp: ranges_def)
qed simp_all

section \<open>Places and values of variables\<close>

lemma computes_addr:
  assumes "final fin bs" "later st' fin" "emit_ok st" "gen_addr env (ND_VAR t x) st = Ok st'" "o_is_local x" "D \<le> L"
  shows "computes bs xs F D L P st s st' (\<lambda>fp. below fp (o_offset x)) s" "keeps st st'"
proof -
  have st': "st' = emit_all (addi_ins 10 8 (- o_offset x)) st" using assms(4,5) by (simp add: i_addi_all A0_def S0_def)
  show "keeps st st'" unfolding st' by (intro keeps_emit_all keeps_refl)
  show "computes bs xs F D L P st s st' (\<lambda>fp. below fp (o_offset x)) s" unfolding st'
  proof (rule computes_start [OF assms(1) assms(2) [unfolded st'] assms(3)])
    fix m
    show "\<exists>R. exec_seq (addi_ins 10 8 (- o_offset x)) m =
        Some (m\<lparr>regs := R, pc := pc m + 4 * int (length (addi_ins 10 8 (- o_offset x)))\<rparr>) \<and>
        R 10 = below (regs m 8) (o_offset x) \<and> (\<forall>r. r \<notin> scratch \<longrightarrow> R r = regs m r)"
      using addi_run [of 10 8 "- o_offset x" m] by auto
  qed
qed

lemma load_var:
  assumes "frame xs F D s m" "x \<in> set xs" "regs m 10 = below (regs m 8) (o_offset x)"
  shows "exec_seq (load_ins (o_ty x)) m =
    Some (m\<lparr>regs := (regs m)(10 := W (s (o_offset x))), pc := pc m + 4 * int (length (load_ins (o_ty x)))\<rparr>)"
proof -
  have "int_type (o_ty x)" "mem_value (o_ty x) (regs m 10) (mem m) = s (o_offset x)"
    using assms unfolding frame_def agrees_def by (auto intro: layout_type)
  then show ?thesis using load_run [of "o_ty x" m] by (simp add: load_ins_def)
qed

section \<open>Jumps in expressions\<close>

text \<open>Only the place of the code matters.\<close>

lemma computes_at:
  "computes bs xs F D L P st s st' w s' \<Longrightarrow> code_len st1 = code_len st \<Longrightarrow> code_len st1' = code_len st' \<Longrightarrow>
   computes bs xs F D L P st1 s st1' w s'"
  unfolding computes_def at_def by simp

lemma computes_goto:
  assumes c: "computes bs xs F D L P st s x w s'"
    and r: "\<And>m. at x m \<Longrightarrow> frame xs F D s' m \<Longrightarrow> regs m 10 = w (regs m 8) \<Longrightarrow> runs bs m (m\<lparr>pc := int (code_len y)\<rparr>)"
  shows "computes bs xs F D L P st s y w s'"
  unfolding computes_def
proof (intro allI impI, elim conjE)
  fix m assume "at st m" "frame xs F D s m" "P m"
  then obtain m1 where 1: "runs bs m m1" "at x m1" "regs m1 10 = w (regs m 8)" "frame xs F D s' m1" "same F D L m m1"
    using c unfolding computes_def by blast
  let ?m = "m1\<lparr>pc := int (code_len y)\<rparr>"
  have "runs bs m1 ?m" using r [OF 1(2,4)] 1(3) same_fp [OF 1(5)] by simp
  moreover have "frame xs F D s' ?m" by (rule frame_regs [OF 1(4)]) simp_all
  moreover have "same F D L m ?m" using 1(5) unfolding same_def by simp
  ultimately show "\<exists>m'. runs bs m m' \<and> at y m' \<and> regs m' 10 = w (regs m 8) \<and> frame xs F D s' m' \<and> same F D L m m'"
    using runs_trans [OF 1(1)] 1(3) by (intro exI [of _ ?m]) (simp add: at_def)
qed

lemma computes_jump:
  assumes "computes bs xs F D L P st s x w s'" "final fin bs" "later (jump_to l x) fin" "emit_ok x" "l < nlabels x"
    and "label_pos fin ! l = int (code_len y)"
  shows "computes bs xs F D L P st s y w s'"
  using runs_jump [OF assms(2-4) _ assms(5)] assms(6) by (intro computes_goto [OF assms(1)]) simp

lemma computes_branch:
  assumes c: "computes bs xs F D L P st s x (\<lambda>_. W v) s'" and fin: "final fin bs" "emit_ok x" "l < nlabels x"
    and v: "int_type t" "in_range t v"
  shows "later (jump_if_zero A0 l x) fin \<Longrightarrow> v \<noteq> 0 \<Longrightarrow> computes bs xs F D L P st s (jump_if_zero A0 l x) (\<lambda>_. W v) s'"
    and "later (jump_if_zero A0 l x) fin \<Longrightarrow> v = 0 \<Longrightarrow> label_pos fin ! l = int (code_len y) \<Longrightarrow> computes bs xs F D L P st s y (\<lambda>_. W v) s'"
    and "later (jump_if_nonzero A0 l x) fin \<Longrightarrow> v = 0 \<Longrightarrow> computes bs xs F D L P st s (jump_if_nonzero A0 l x) (\<lambda>_. W v) s'"
    and "later (jump_if_nonzero A0 l x) fin \<Longrightarrow> v \<noteq> 0 \<Longrightarrow> label_pos fin ! l = int (code_len y) \<Longrightarrow> computes bs xs F D L P st s y (\<lambda>_. W v) s'"
proof -
  have z: "regs m 10 = W v \<Longrightarrow> reg m A0 = 0 \<longleftrightarrow> v = 0" for m using W_eq_0 [OF v] by (simp add: reg_def A0_def)
  have r: "reg_no A0" by (simp add: A0_def)
  have j: "later (jump_if_zero A0 l x) fin \<Longrightarrow> runs bs m (m\<lparr>pc := if v = 0 then label_pos fin ! l else int (code_len (jump_if_zero A0 l x))\<rparr>)"
    "later (jump_if_nonzero A0 l x) fin \<Longrightarrow> runs bs m (m\<lparr>pc := if v \<noteq> 0 then label_pos fin ! l else int (code_len (jump_if_nonzero A0 l x))\<rparr>)"
    if "at x m" "regs m 10 = W v" for m
    using runs_cond [OF fin(1,2) that(1) fin(3) r] z [OF that(2)] by simp_all
  show "computes bs xs F D L P st s (jump_if_zero A0 l x) (\<lambda>_. W v) s'" if "later (jump_if_zero A0 l x) fin" "v \<noteq> 0"
    using j(1) [OF _ _ that(1)] that(2) by (intro computes_goto [OF c]) simp
  show "computes bs xs F D L P st s y (\<lambda>_. W v) s'" if "later (jump_if_zero A0 l x) fin" "v = 0" "label_pos fin ! l = int (code_len y)"
    using j(1) [OF _ _ that(1)] that(2,3) by (intro computes_goto [OF c]) simp
  show "computes bs xs F D L P st s (jump_if_nonzero A0 l x) (\<lambda>_. W v) s'" if "later (jump_if_nonzero A0 l x) fin" "v = 0"
    using j(2) [OF _ _ that(1)] that(2) by (intro computes_goto [OF c]) simp
  show "computes bs xs F D L P st s y (\<lambda>_. W v) s'" if "later (jump_if_nonzero A0 l x) fin" "v \<noteq> 0" "label_pos fin ! l = int (code_len y)"
    using j(2) [OF _ _ that(1)] that(2,3) by (intro computes_goto [OF c]) simp
qed

section \<open>The cases\<close>

text \<open>The code of \<open>e\<close>, in any place of the final code.\<close>

definition room :: "int \<Rightarrow> node \<Rightarrow> int" where
  "room D e = D + 16 * int (depth e)"

definition compiles :: "byte list \<Rightarrow> emit \<Rightarrow> genv \<Rightarrow> obj list \<Rightarrow> int \<Rightarrow> node \<Rightarrow> bool" where
  "compiles bs fin env xs F e \<longleftrightarrow>
     (\<forall>st st' s s' v D P. ev e s = Some (v, s') \<longrightarrow> gen_expr env e st = Ok st' \<longrightarrow> emit_ok st \<longrightarrow> later st' fin \<longrightarrow> ranges xs s \<longrightarrow>
       room D e < 2 ^ 63 \<longrightarrow> computes bs xs F D (room D e) P st s st' (\<lambda>_. W v) s')"

lemma compilesD:
  assumes "compiles bs fin env xs F e" "ev e s = Some (v, s')" "gen_expr env e st = Ok st'" "emit_ok st" "later st' fin" "ranges xs s"
    and "room D e \<le> L" "L < 2 ^ 63"
  shows "computes bs xs F D L P st s st' (\<lambda>_. W v) s'"
proof -
  have "room D e < 2 ^ 63" using assms(7,8) by linarith
  then have "computes bs xs F D (room D e) P st s st' (\<lambda>_. W v) s'" using assms unfolding compiles_def by blast
  then show ?thesis using assms(7) by (rule computes_mono)
qed

lemma compilesI:
  assumes "\<And>st st' s s' v D P. ev e s = Some (v, s') \<Longrightarrow> gen_expr env e st = Ok st' \<Longrightarrow> emit_ok st \<Longrightarrow> later st' fin \<Longrightarrow> ranges xs s \<Longrightarrow>
      room D e < 2 ^ 63 \<Longrightarrow> computes bs xs F D (room D e) P st s st' (\<lambda>_. W v) s'"
  shows "compiles bs fin env xs F e"
  unfolding compiles_def using assms by blast

lemma later_seq: "later (emit_all ws st) fin \<Longrightarrow> later st fin"
  by (rule keeps_later) (auto intro: keeps_emit_all)

lemma later_gen: "gen_expr env e st = Ok st' \<Longrightarrow> later st' fin \<Longrightarrow> later st fin"
  using gen_keeps(2) keeps_later by blast

lemma ok_gen: "gen_expr env e st = Ok st' \<Longrightarrow> emit_ok st \<Longrightarrow> emit_ok st'"
  using gen_keeps(2) keeps_ok by blast

lemma ok_seq: "emit_ok st \<Longrightarrow> emit_ok (emit_all ws st)"
  by (rule keeps_ok [OF keeps_emit_all [OF keeps_refl]])

lemma compiles_num: "final fin bs \<Longrightarrow> compiles bs fin env xs F (ND_NUM t v)"
proof (rule compilesI)
  fix st st' s s' u D P
  assume fin: "final fin bs" and e: "ev (ND_NUM t v) s = Some (u, s')" "gen_expr env (ND_NUM t v) st = Ok st'" "emit_ok st" "later st' fin"
  have st': "st' = emit_all (li_ins 10 v) st" "u = v" "s' = s" using e(1,2) by (simp_all add: i_li_all A0_def)
  have "computes bs xs F D (room D (ND_NUM t v)) P st s (emit_all (li_ins 10 v) st) (\<lambda>_. W v) s"
    by (rule computes_start [OF fin e(4) [unfolded st'] e(3)]) (use li_run [of 10 v] in auto)
  then show "computes bs xs F D (room D (ND_NUM t v)) P st s st' (\<lambda>_. W u) s'" unfolding st' .
qed

lemma compiles_var:
  assumes fin: "final fin bs" and lay: "layout_ok F xs" "x \<in> set xs"
  shows "compiles bs fin env xs F (ND_VAR (o_ty x) x)"
proof (rule compilesI)
  fix st st' s s' v D P
  assume e: "ev (ND_VAR (o_ty x) x) s = Some (v, s')" "gen_expr env (ND_VAR (o_ty x) x) st = Ok st'" "emit_ok st" "later st' fin"
  have l: "o_is_local x" "\<not> o_is_function x" using layout_local [OF lay] by auto
  obtain st1 where 1: "gen_addr env (ND_VAR (o_ty x) x) st = Ok st1" "st' = emit_all (load_ins (o_ty x)) st1"
    using e(2) l load_all [OF layout_type [OF lay]] by auto
  note p = later_seq [OF e(4) [unfolded 1(2)]]
  note a = computes_addr [OF fin p e(3) 1(1) l(1)]
  have ok: "emit_ok st1" using keeps_ok [OF a(2) [OF order_refl] e(3)] .
  have s: "v = s (o_offset x)" "s' = s" using e(1) by auto
  show "computes bs xs F D (room D (ND_VAR (o_ty x) x)) P st s st' (\<lambda>_. W v) s'"
    unfolding 1(2) s
    by (rule computes_then [OF a(1) fin e(4) [unfolded 1(2)] ok]) (use load_var lay in \<open>auto simp: room_def\<close>)
qed

text \<open>One operand.\<close>

lemma compiles_unary:
  assumes fin: "final fin bs" and l: "compiles bs fin env xs F l"
    and g: "\<And>st'. gen_expr env e st = Ok st' \<Longrightarrow> \<exists>st1. gen_expr env l st = Ok st1 \<and> st' = emit_all ws st1"
    and e: "gen_expr env e st = Ok st'" "emit_ok st" "later st' fin" "ranges xs s" "room D l < 2 ^ 63" "ev l s = Some (a, s')"
    and w: "\<And>m. regs m 10 = W a \<Longrightarrow> exec_seq ws m = Some (m\<lparr>regs := (regs m)(10 := W v), pc := pc m + 4 * int (length ws)\<rparr>)"
  shows "computes bs xs F D (room D l) P st s st' (\<lambda>_. W v) s'"
proof -
  obtain st1 where 1: "gen_expr env l st = Ok st1" "st' = emit_all ws st1" using g [OF e(1)] by blast
  note c = compilesD [OF l e(6) 1(1) e(2) later_seq [OF e(3) [unfolded 1(2)]] e(4) order_refl e(5)]
  show ?thesis unfolding 1(2)
    by (rule computes_then [OF c fin e(3) [unfolded 1(2)] ok_gen [OF 1(1) e(2)]]) (use w in auto)
qed

lemma ins_then_cast:
  assumes "int_type t" "exec w m = Some (m\<lparr>regs := (regs m)(10 := W x), pc := pc m + 4\<rparr>)"
  shows "exec_seq (w # cast_ins t) m = Some (m\<lparr>regs := (regs m)(10 := W (wrap t x)), pc := pc m + 4 * int (length (w # cast_ins t))\<rparr>)"
  using cast_run [OF assms(1), of "m\<lparr>regs := (regs m)(10 := W x), pc := pc m + 4\<rparr>" x] assms(2) by simp

lemma compiles_neg:
  assumes fin: "final fin bs" and l: "compiles bs fin env xs F l" and t: "int_type t" "t = nty l" "4 \<le> ty_size t"
  shows "compiles bs fin env xs F (ND_NEG t l)"
proof (rule compilesI)
  fix st st' s s' v D P
  assume e: "ev (ND_NEG t l) s = Some (v, s')" "gen_expr env (ND_NEG t l) st = Ok st'" "emit_ok st" "later st' fin" "ranges xs s"
    "room D (ND_NEG t l) < 2 ^ 63"
  have "promote (nty l) = t" using t by (simp add: promote_def)
  then obtain a where a: "ev l s = Some (a, s')" "v = wrap t (- a)" using e(1) c_val_range [OF t(1)] by (auto split: option.splits)
  have d: "room D (ND_NEG t l) = room D l" by (simp add: room_def)
  have w: "exec_seq (enc_r 0x20 10 0 0 10 0x33 # cast_ins t) m =
      Some (m\<lparr>regs := (regs m)(10 := W v), pc := pc m + 4 * int (length (enc_r 0x20 10 0 0 10 0x33 # cast_ins t))\<rparr>)" if m: "regs m 10 = W a" for m
  proof -
    have "exec (enc_r 0x20 10 0 0 10 0x33) m = Some (m\<lparr>regs := (regs m)(10 := W (- a)), pc := pc m + 4\<rparr>)"
      by (subst exec_reg) (use m in \<open>simp_all add: alu_def reg_regs next_set\<close>)
    then show ?thesis unfolding a(2) by (rule ins_then_cast [OF t(1)])
  qed
  show "computes bs xs F D (room D (ND_NEG t l)) P st s st' (\<lambda>_. W v) s'"
    unfolding d by (rule compiles_unary [OF fin l _ e(2-5) e(6) [unfolded d] a(1) w]) (auto simp: cast_all t(1) i_r_def A0_def X0_def)
qed

lemma compiles_not:
  assumes fin: "final fin bs" and l: "compiles bs fin env xs F l" "int_type (nty l)" and r: "\<And>s v s'. ranges xs s \<Longrightarrow> ev l s = Some (v, s') \<Longrightarrow> in_range (nty l) v"
  shows "compiles bs fin env xs F (ND_NOT t l)"
proof (rule compilesI)
  fix st st' s s' v D P
  assume e: "ev (ND_NOT t l) s = Some (v, s')" "gen_expr env (ND_NOT t l) st = Ok st'" "emit_ok st" "later st' fin" "ranges xs s"
    "room D (ND_NOT t l) < 2 ^ 63"
  obtain a where a: "ev l s = Some (a, s')" "v = of_bool (a = 0)" using e(1) by (auto split: option.splits)
  have d: "room D (ND_NOT t l) = room D l" by (simp add: room_def)
  have z: "W a < 1 \<longleftrightarrow> a = 0" using W_eq_0 [OF l(2) r [OF e(5) a(1)]] by (simp add: word_less_1)
  have w: "exec_seq [enc_i 0x13 10 3 10 1] m = Some (m\<lparr>regs := (regs m)(10 := W v), pc := pc m + 4 * int (length [enc_i 0x13 10 3 10 1])\<rparr>)"
    if m: "regs m 10 = W a" for m
    using m z by (simp add: exec_imm alu_imm_simps reg_regs next_set a(2) W_of_bool)
  show "computes bs xs F D (room D (ND_NOT t l)) P st s st' (\<lambda>_. W v) s'"
    unfolding d by (rule compiles_unary [OF fin l(1) _ e(2-5) e(6) [unfolded d] a(1) w]) (auto simp: i_seqz_def A0_def)
qed

lemma bitnot_wrap:
  assumes "int_type t" "in_range t a" "4 \<le> ty_size t" "t \<noteq> ty_uint"
  shows "W (NOT a) = W (wrap t (NOT a))"
proof -
  have n: "NOT a = - a - 1" by (rule not_int_def)
  consider "t = ty_int" | "t = ty_long" | "t = ty_ulong" using assms by (auto simp: int_type_def ty_simps)
  then show ?thesis
  proof cases
    case 1
    then have "in_range t (NOT a)" using assms(2) by (auto simp: in_range_bounds n int_type_def width_def ty_simps)
    then show ?thesis by (simp add: in_range_def)
  next
    case 2
    then show ?thesis by (simp add: wrap_def width_def ty_simps W_signed_take_bit)
  next
    case 3
    then show ?thesis by (simp add: wrap_def width_def ty_simps W_take_bit)
  qed
qed

lemma compiles_bitnot:
  assumes fin: "final fin bs" and l: "compiles bs fin env xs F l" "int_type t" "t = nty l" "4 \<le> ty_size t" "t \<noteq> ty_uint"
    and r: "\<And>s v s'. ranges xs s \<Longrightarrow> ev l s = Some (v, s') \<Longrightarrow> in_range (nty l) v"
  shows "compiles bs fin env xs F (ND_BITNOT t l)"
proof (rule compilesI)
  fix st st' s s' v D P
  assume e: "ev (ND_BITNOT t l) s = Some (v, s')" "gen_expr env (ND_BITNOT t l) st = Ok st'" "emit_ok st" "later st' fin" "ranges xs s"
    "room D (ND_BITNOT t l) < 2 ^ 63"
  have p: "promote (nty l) = t" using l(3,4) by (simp add: promote_def)
  obtain a where a: "ev l s = Some (a, s')" "v = wrap t (NOT a)" using e(1) p by (auto split: option.splits)
  have d: "room D (ND_BITNOT t l) = room D l" by (simp add: room_def)
  have b: "W v = W (NOT a)" using bitnot_wrap [OF l(2) _ l(4,5), of a] r [OF e(5) a(1)] l(3) a(2) by simp
  have w: "exec_seq [enc_i 0x13 10 4 10 (- 1)] m = Some (m\<lparr>regs := (regs m)(10 := W v), pc := pc m + 4 * int (length [enc_i 0x13 10 4 10 (- 1)])\<rparr>)"
    if m: "regs m 10 = W a" for m
    using m W_bits(4) [of a] unfolding b by (simp add: exec_imm alu_imm_simps reg_regs next_set)
  show "computes bs xs F D (room D (ND_BITNOT t l)) P st s st' (\<lambda>_. W v) s'"
    unfolding d by (rule compiles_unary [OF fin l(1) _ e(2-5) e(6) [unfolded d] a(1) w]) (auto simp: A0_def)
qed

lemma compiles_cast:
  assumes fin: "final fin bs" and l: "compiles bs fin env xs F l" and t: "int_type t"
  shows "compiles bs fin env xs F (ND_CAST t l)"
proof (rule compilesI)
  fix st st' s s' v D P
  assume e: "ev (ND_CAST t l) s = Some (v, s')" "gen_expr env (ND_CAST t l) st = Ok st'" "emit_ok st" "later st' fin" "ranges xs s"
    "room D (ND_CAST t l) < 2 ^ 63"
  obtain a where a: "ev l s = Some (a, s')" "v = wrap t a" using e(1) by (auto split: option.splits)
  have d: "room D (ND_CAST t l) = room D l" by (simp add: room_def)
  show "computes bs xs F D (room D (ND_CAST t l)) P st s st' (\<lambda>_. W v) s'"
    unfolding d a(2) by (rule compiles_unary [OF fin l _ e(2-5) e(6) [unfolded d] a(1) cast_run [OF t]]) (auto simp: cast_all t)
qed

lemma compiles_comma:
  assumes fin: "final fin bs" and l: "compiles bs fin env xs F l" and r: "compiles bs fin env xs F r"
    and ran: "\<And>s v s'. ranges xs s \<Longrightarrow> ev l s = Some (v, s') \<Longrightarrow> ranges xs s'"
  shows "compiles bs fin env xs F (ND_COMMA t l r)"
proof (rule compilesI)
  fix st st' s s' v D P
  let ?e = "ND_COMMA t l r"
  assume e: "ev ?e s = Some (v, s')" "gen_expr env ?e st = Ok st'" "emit_ok st" "later st' fin" "ranges xs s" "room D ?e < 2 ^ 63"
  obtain a s1 where a: "ev l s = Some (a, s1)" "ev r s1 = Some (v, s')" using e(1) by (auto split: option.splits)
  obtain st1 where g: "gen_expr env l st = Ok st1" "gen_expr env r st1 = Ok st'" using e(2) by auto
  have d: "room D l \<le> room D ?e" "room D r \<le> room D ?e" by (simp_all add: room_def)
  note l1 = compilesD [OF l a(1) g(1) e(3) later_gen [OF g(2) e(4)] e(5) d(1) e(6)]
  note r1 = compilesD [OF r a(2) g(2) ok_gen [OF g(1) e(3)] e(4) ran [OF e(5) a(1)] d(2) e(6)]
  show "computes bs xs F D (room D ?e) P st s st' (\<lambda>_. W v) s'"
    by (rule computes_trans [OF l1 r1 order_refl order_refl TrueI])
qed

text \<open>Two operands.\<close>

lemma compiles_bin:
  assumes fin: "final fin bs" and lay: "layout_ok F xs" and l: "compiles bs fin env xs F l" and r: "compiles bs fin env xs F r"
    and ty: "typed xs (ND_BIN k t l r)"
  shows "compiles bs fin env xs F (ND_BIN k t l r)"
proof (rule compilesI)
  fix st st' s s' v D P
  let ?e = "ND_BIN k t l r" and ?ws = "[enc_i 0x13 11 0 10 0] @ pop_ins 10" and ?bs = "bin_ins k t (nty l) (nty r)"
  assume e: "ev ?e s = Some (v, s')" "gen_expr env ?e st = Ok st'" "emit_ok st" "later st' fin" "ranges xs s" "room D ?e < 2 ^ 63"
  obtain a s1 b where a: "ev l s = Some (a, s1)" "ev r s1 = Some (b, s')" "c_bin k (nty l) (nty r) a b = Some v"
    using e(1) by (auto split: option.splits)
  have tl: "typed xs l" "typed xs r" using ty by auto
  have it: "int_type (nty l)" "int_type (nty r)" using tl lay by (auto intro: typed_int)
  have ct: "is_cmp k \<or> int_type t" using typed_int [OF ty lay] by simp
  have ra: "in_range (nty l) a" "ranges xs s1" using ev_range [OF tl(1) lay e(5) a(1)] by auto
  have rb: "in_range (nty r) b" using ev_range [OF tl(2) lay ra(2) a(2)] by simp
  obtain st1 st2 where g: "gen_expr env l st = Ok st1" "gen_expr env r (emit_all (push_ins 10) st1) = Ok st2"
      "st' = emit_all ?bs (emit_all ?ws st2)"
    using e(2) bin_all [OF it ct] int_type_not [OF it(1)] int_type_not [OF it(2)] by (auto simp: push_all pop_all mv_all A0_def A1_def)
  have d: "room D l \<le> room D ?e" "room (D + 16) r \<le> room D ?e" "D + 16 \<le> room D ?e" by (auto simp: room_def max_def)
  have p2: "later (emit_all ?ws st2) fin" using e(4) later_seq unfolding g(3) by blast
  have p1: "later (emit_all (push_ins 10) st1) fin" using later_gen [OF g(2) later_seq [OF p2]] .
  have ok1: "emit_ok st1" using ok_gen [OF g(1) e(3)] .
  have ok2: "emit_ok st2" using ok_gen [OF g(2) ok_seq [OF ok1]] .
  note cl = compilesD [OF l a(1) g(1) e(3) later_seq [OF p1] e(5) d(1) e(6)]
  note cr = compilesD [OF r a(2) g(2) ok_seq [OF ok1] later_seq [OF p2] ra(2) d(2) e(6)]
  have E: "D + 16 < 2 ^ 63" using d(3) e(6) by linarith
  note c2 = operands [OF cl order_refl refl E d(3) cr moves_mv fin p2 ok1 gen_keeps(2) [OF g(2)]]
  have run: "exec_seq ?bs m = Some (m\<lparr>regs := (regs m)(10 := W v), pc := pc m + 4 * int (length ?bs)\<rparr>)"
    if m: "regs m 10 = W a" "regs m 11 = W b" for m
  proof -
    consider "is_shift k" "4 \<le> ty_size (nty l)" "t = nty l" | "is_cmp k" "agree_types (nty l) (nty r)"
      | "\<not> is_shift k" "\<not> is_cmp k" "agree_types (nty l) (nty r)" "t = usual (nty l) (nty r)"
      using ty by (auto split: if_splits)
    then show ?thesis
    proof cases
      case 1
      then show ?thesis using bin_shift_run [OF 1(1) it(1) 1(2) ra(1) a(3) m] by simp
    next
      case 2
      show ?thesis using bin_cmp_run [OF 2(2,1) ra(1) rb a(3) m] by simp
    next
      case 3
      then show ?thesis using bin_arith_run [OF 3(3,2,1) ra(1) rb a(3) m] by simp
    qed
  qed
  show "computes bs xs F D (room D ?e) P st s st' (\<lambda>_. W v) s'" unfolding g(3)
  proof (rule computes2_then [OF c2 fin e(4) [unfolded g(3)] ok_seq [OF ok2]])
    fix m assume m: "regs m 10 = W a" "regs m 11 = W b" "frame xs F D s' m"
    let ?m = "m\<lparr>regs := (regs m)(10 := W v), pc := pc m + 4 * int (length ?bs)\<rparr>"
    have "frame xs F D s' ?m" by (rule frame_regs [OF m(3)]) simp_all
    moreover have "same F D (room D ?e) m ?m" by (rule same_regs) simp
    ultimately show "\<exists>m'. exec_seq ?bs m = Some m' \<and> regs m' 10 = W v \<and> frame xs F D s' m' \<and> same F D (room D ?e) m m'"
      using run [OF m(1,2)] by (intro exI [of _ ?m]) simp
  qed
qed

section \<open>Assignments\<close>

lemma compiles_assign:
  assumes fin: "final fin bs" and lay: "layout_ok F xs" and r: "compiles bs fin env xs F r" and ty: "typed xs (ND_ASSIGN t l r)"
  shows "compiles bs fin env xs F (ND_ASSIGN t l r)"
proof (rule compilesI)
  fix st st' s s' v D P
  let ?e = "ND_ASSIGN t l r" and ?ws = "[enc_i 0x13 11 0 10 0] @ pop_ins 10"
  assume e: "ev ?e s = Some (v, s')" "gen_expr env ?e st = Ok st'" "emit_ok st" "later st' fin" "ranges xs s" "room D ?e < 2 ^ 63"
  obtain x where x: "l = ND_VAR t x" "var_of l = Some x" "x \<in> set xs" "o_ty x = t" using ty by (auto elim: typed_varE)
  obtain b s1 where a: "ev r s = Some (b, s1)" "v = wrap t b" "s' = s1(o_offset x := wrap t b)"
    using e(1) x by (auto simp: Let_def split: option.splits)
  have t: "int_type t" using layout_type [OF lay x(3)] x(4) by simp
  obtain st1 st2 where g: "gen_addr env (ND_VAR t x) st = Ok st1" "gen_expr env r (emit_all (push_ins 10) st1) = Ok st2"
      "st' = emit_all (assign_ins t) (emit_all ?ws st2)"
    using e(2) int_type_not [OF t] store_code_all [OF t] x(1)
    by (auto simp: push_all pop_all mv_all A0_def A1_def Let_def simp del: gen_addr.simps)
  have d: "room (D + 16) r \<le> room D ?e" "D + 16 \<le> room D ?e" "D \<le> room D ?e" by (auto simp: room_def)
  have p2: "later (emit_all ?ws st2) fin" using e(4) later_seq unfolding g(3) by blast
  have p1: "later (emit_all (push_ins 10) st1) fin" using later_gen [OF g(2) later_seq [OF p2]] .
  note ad = computes_addr [OF fin later_seq [OF p1] e(3) g(1) conjunct1 [OF layout_local [OF lay x(3)]]]
  have ok1: "emit_ok st1" using keeps_ok [OF ad(2) [OF order_refl] e(3)] .
  have ok2: "emit_ok st2" using ok_gen [OF g(2) ok_seq [OF ok1]] .
  note cr = compilesD [OF r a(1) g(2) ok_seq [OF ok1] later_seq [OF p2] e(5) d(1) e(6)]
  have E: "D + 16 < 2 ^ 63" using d(2) e(6) by linarith
  note c2 = operands [OF ad(1) [OF order_refl] d(3) refl E d(2) cr moves_mv fin p2 ok1 gen_keeps(2) [OF g(2)]]
  show "computes bs xs F D (room D ?e) P st s st' (\<lambda>_. W v) s'" unfolding g(3)
  proof (rule computes2_then [OF c2 fin e(4) [unfolded g(3)] ok_seq [OF ok2]])
    fix m assume m: "regs m 10 = below (regs m 8) (o_offset x)" "regs m 11 = W b" "frame xs F D s1 m"
    show "\<exists>m'. exec_seq (assign_ins t) m = Some m' \<and> regs m' 10 = W v \<and> frame xs F D s' m' \<and> same F D (room D ?e) m m'"
      using assign_step [OF m(3) x(3) m(1,2) d(3)] unfolding x(4) a(2,3) .
  qed
qed

text \<open>The value of the variable is loaded behind its address.\<close>

lemma computes_load:
  assumes fin: "final fin bs" "later (emit_all (load_ins (o_ty x)) st) fin" "emit_ok st" and x: "x \<in> set xs"
  shows "computes bs xs F D L (\<lambda>m. regs m 10 = below (regs m 8) (o_offset x)) st s (emit_all (load_ins (o_ty x)) st) (\<lambda>_. W (s (o_offset x))) s"
  by (rule computes_start [OF fin]) (use load_var x in auto)

lemma compiles_opassign:
  assumes fin: "final fin bs" and lay: "layout_ok F xs" and r: "compiles bs fin env xs F r" and ty: "typed xs (ND_OPASSIGN k t l r)"
  shows "compiles bs fin env xs F (ND_OPASSIGN k t l r)"
proof (rule compilesI)
  fix st st' s s' v D P
  let ?e = "ND_OPASSIGN k t l r" and ?ws = "[enc_i 0x13 11 0 10 0] @ pop_ins 10" and ?vs = "(push_ins 10 @ pop_ins 11) @ pop_ins 10"
  let ?op = "[opassign_ins k t]" and ?p = "push_ins 10"
  assume e: "ev ?e s = Some (v, s')" "gen_expr env ?e st = Ok st'" "emit_ok st" "later st' fin" "ranges xs s" "room D ?e < 2 ^ 63"
  have ty': "typed_var xs t l" "typed xs r" "\<not> is_cmp k" "k = ND_DIV \<or> k = ND_MOD \<Longrightarrow> signed_division t (nty r)" using ty by auto
  obtain x where x: "l = ND_VAR t x" "var_of l = Some x" "x \<in> set xs" "o_ty x = t" using ty' by (auto elim: typed_varE)
  obtain b s1 u where a: "ev r s = Some (b, s1)" "c_bin k t (nty r) (s (o_offset x)) b = Some u" "v = wrap t u" "s' = s1(o_offset x := wrap t u)"
    using e(1) x by (auto simp: Let_def split: option.splits)
  have t: "int_type t" using layout_type [OF lay x(3)] x(4) by simp
  have ran: "in_range t (s (o_offset x))" using e(5) x(3,4) unfolding ranges_def by blast
  have rb: "in_range (nty r) b" using ev_range [OF ty'(2) lay e(5) a(1)] by simp
  obtain st1 st2 where g: "gen_addr env (ND_VAR t x) st = Ok st1"
      "gen_expr env r (emit_all ?p (emit_all (load_ins t) (emit_all ?p st1))) = Ok st2"
      "st' = emit_all (assign_ins t) (emit_all ?vs (emit_all ?op (emit_all ?ws st2)))"
    using e(2) opassign_all [OF t ty'(3)] store_code_all [OF t] load_all [OF t] x(1)
    by (auto simp: push_all pop_all mv_all A0_def A1_def simp del: gen_addr.simps)
  have d: "room (D + 16 + 16) r \<le> room D ?e" "D + 16 \<le> room D ?e" "D \<le> room D ?e" "D + 16 + 16 \<le> room D ?e" by (auto simp: room_def)
  have p4: "later (emit_all ?vs (emit_all ?op (emit_all ?ws st2))) fin" using e(4) later_seq unfolding g(3) by blast
  note p3 = later_seq [OF p4]
  note p2 = later_seq [OF p3]
  have p1: "later (emit_all ?p (emit_all (load_ins t) (emit_all ?p st1))) fin" using later_gen [OF g(2) later_seq [OF p2]] .
  note p0 = later_seq [OF p1]
  note ad = computes_addr [OF fin later_seq [OF later_seq [OF p0]] e(3) g(1) conjunct1 [OF layout_local [OF lay x(3)]]]
  have ok1: "emit_ok st1" using keeps_ok [OF ad(2) [OF order_refl] e(3)] .
  have okp: "emit_ok (emit_all (load_ins t) (emit_all ?p st1))" by (intro ok_seq ok1)
  have ok2: "emit_ok st2" using ok_gen [OF g(2) ok_seq [OF okp]] .
  have E: "D + 16 < 2 ^ 63" "D + 16 + 16 < 2 ^ 63" using d e(6) by linarith+
  note cl = computes_load [OF fin p0 [folded x(4)] ok_seq [OF ok1] x(3), unfolded x(4)]
  note cr = compilesD [OF r a(1) g(2) ok_seq [OF okp] later_seq [OF p2] e(5) d(1) e(6)]
  note c2 = operands [OF cl order_refl refl E(2) d(4) cr moves_mv fin p2 okp gen_keeps(2) [OF g(2)]]
  obtain f7 f3 z where z: "alu f7 f3 (W (s (o_offset x))) (W b) = Some (W z)" "wrap t z = v" "opassign_ins k t = enc_r f7 11 10 f3 10 0x33"
      "fun3 f3" "take_bit 7 f7 = f7"
    using opassign_value [OF t typed_int [OF ty'(2) lay] ran rb ty'(3,4) a(2)] a(3) by auto
  have c3: "computes bs xs F (D + 16) (room D ?e) (\<lambda>m. regs m 10 = below (regs m 8) (o_offset x)) (emit_all ?p st1) s
      (emit_all ?op (emit_all ?ws st2)) (\<lambda>_. W z) s1"
  proof (rule computes2_then [OF c2 fin p3 ok_seq [OF ok2]])
    fix m assume m: "regs m 10 = W (s (o_offset x))" "regs m 11 = W b" "frame xs F (D + 16) s1 m"
    let ?m = "m\<lparr>regs := (regs m)(10 := W z), pc := pc m + 4\<rparr>"
    have "exec (enc_r f7 11 10 f3 10 0x33) m = Some ?m" by (subst exec_reg) (use z m in \<open>auto simp: reg_regs next_set\<close>)
    moreover have "frame xs F (D + 16) s1 ?m" by (rule frame_regs [OF m(3)]) simp_all
    moreover have "same F (D + 16) (room D ?e) m ?m" by (rule same_regs) simp
    ultimately show "\<exists>m'. exec_seq ?op m = Some m' \<and> regs m' 10 = W z \<and> frame xs F (D + 16) s1 m' \<and> same F (D + 16) (room D ?e) m m'"
      unfolding z(3) by (intro exI [of _ ?m]) simp
  qed
  have k3: "keeps (emit_all ?p st1) (emit_all ?op (emit_all ?ws st2))"
    by (intro keeps_emit_all keeps_trans [OF _ gen_keeps(2) [OF g(2)]] keeps_refl)
  note c4 = operands [OF ad(1) [OF order_refl] d(3) refl E(1) d(2) c3 moves_stack [OF refl E(2) d(4)] fin p4 ok1 k3]
  show "computes bs xs F D (room D ?e) P st s st' (\<lambda>_. W v) s'" unfolding g(3)
  proof (rule computes2_then [OF c4 fin e(4) [unfolded g(3)] ok_seq [OF ok_seq [OF ok_seq [OF ok2]]]])
    fix m assume m: "regs m 10 = below (regs m 8) (o_offset x)" "regs m 11 = W z" "frame xs F D s1 m"
    show "\<exists>m'. exec_seq (assign_ins t) m = Some m' \<and> regs m' 10 = W v \<and> frame xs F D s' m' \<and> same F D (room D ?e) m m'"
      using assign_step [OF m(3) x(3) m(1,2) d(3)] unfolding x(4) z(2) a(4) a(3) [symmetric] .
  qed
qed

section \<open>Increments\<close>

lemma computes_straight:
  assumes "computes bs xs F D L P st s st' w s'" "final fin bs" "later (emit_all ws st') fin" "emit_ok st'"
    and "\<And>m. regs m 10 = w (regs m 8) \<Longrightarrow> frame xs F D s' m \<Longrightarrow>
      \<exists>m'. exec_seq ws m = Some m' \<and> regs m' 10 = v (regs m 8) \<and> frame xs F D s'' m' \<and> same F D L m m'"
  shows "computes bs xs F D L P st s (emit_all ws st') v s''"
  unfolding computes_def
proof (intro allI impI, elim conjE)
  fix m assume "at st m" "frame xs F D s m" "P m"
  then obtain m1 where 1: "runs bs m m1" "at st' m1" "regs m1 10 = w (regs m 8)" "frame xs F D s' m1" "same F D L m m1"
    using assms(1) unfolding computes_def by blast
  have fp: "regs m1 8 = regs m 8" using same_fp [OF 1(5)] by simp
  obtain m2 where 2: "exec_seq ws m1 = Some m2" "regs m2 10 = v (regs m 8)" "frame xs F D s'' m2" "same F D L m1 m2"
    using assms(5) [of m1] 1(3,4) fp by auto
  from runs_seq [OF assms(2-4) 1(2) 2(1)] show "\<exists>m'. runs bs m m' \<and> at (emit_all ws st') m' \<and> regs m' 10 = v (regs m 8) \<and>
      frame xs F D s'' m' \<and> same F D L m m'"
    using runs_trans [OF 1(1)] 2 same_trans [OF 1(5) 2(4) order_refl order_refl] by blast
qed

definition incdec_ins :: "bool \<Rightarrow> ctype \<Rightarrow> int \<Rightarrow> 32 word list" where
  "incdec_ins p t d =
     ((((((push_ins 10 @ load_ins t) @ push_ins 10) @ [enc_i 0x13 10 0 10 d]) @ push_ins 10 @ pop_ins 11) @ pop_ins 5) @ pop_ins 6) @
     [enc_i 0x13 10 0 6 0] @ store_ins t @ [enc_i 0x13 10 0 (if p then 11 else 5) 0] @ cast_ins t"

lemma incdec_loaded:
  assumes f: "frame xs F D s m" and x: "x \<in> set xs" and m: "regs m 10 = below (regs m 8) (o_offset x)"
    and L: "D + 48 \<le> L" "L < 2 ^ 63" and d: "- 2048 \<le> d" "d < 2048"
  shows "\<exists>m'. exec_seq ((((((push_ins 10 @ load_ins (o_ty x)) @ push_ins 10) @ [enc_i 0x13 10 0 10 d]) @ push_ins 10 @ pop_ins 11) @ pop_ins 5) @ pop_ins 6) m = Some m' \<and>
    regs m' 5 = W (s (o_offset x)) \<and> regs m' 6 = regs m 10 \<and> regs m' 11 = W (s (o_offset x) + d) \<and> frame xs F D s m' \<and> same F D L m m'"
proof -
  let ?a = "s (o_offset x)" and ?D = "D + 16" and ?E = "D + 16 + 16" and ?G = "D + 16 + 16 + 16"
  have e: "?D < 2 ^ 63" "?E < 2 ^ 63" "?G < 2 ^ 63" "?D \<le> L" "?E \<le> L" "?G \<le> L" using L by auto
  obtain m1 where 1: "exec_seq (push_ins 10) m = Some m1" "frame xs F ?D s m1" "saves F D ?D (regs m 10) m m1"
    using push_saves [OF f refl e(1), of 10] by auto
  have r1: "regs m1 10 = below (regs m1 8) (o_offset x)" using 1(3) m unfolding saves_def by simp
  let ?m2 = "m1\<lparr>regs := (regs m1)(10 := W ?a), pc := pc m1 + 4 * int (length (load_ins (o_ty x)))\<rparr>"
  note 2 = load_var [OF 1(2) x r1]
  have f2: "frame xs F ?D s ?m2" by (rule frame_regs [OF 1(2)]) simp_all
  have s2: "same F ?D L m1 ?m2" by (rule same_regs) simp
  obtain m3 where 3: "exec_seq (push_ins 10) ?m2 = Some m3" "frame xs F ?E s m3" "saves F ?D ?E (W ?a) ?m2 m3"
    using push_saves [OF f2 refl e(2), of 10] by auto
  let ?m4 = "m3\<lparr>regs := (regs m3)(10 := W (?a + d)), pc := pc m3 + 4\<rparr>"
  have r3: "regs m3 10 = W ?a" using 3(3) unfolding saves_def by simp
  have 4: "exec_seq [enc_i 0x13 10 0 10 d] m3 = Some ?m4" using d r3 by (simp add: exec_imm alu_imm_simps next_set reg_regs)
  have f4: "frame xs F ?E s ?m4" by (rule frame_regs [OF 3(2)]) simp_all
  have s4: "same F ?E L m3 ?m4" by (rule same_regs) simp
  obtain m5 where 5: "exec_seq (push_ins 10 @ pop_ins 11) ?m4 = Some m5" "regs m5 11 = W (?a + d)" "frame xs F ?E s m5" "same F ?E L ?m4 m5"
    using moves_stack [OF refl e(3,6), of xs F] f4 unfolding moves_def by fastforce
  obtain m6 where 6: "exec_seq (pop_ins 5) m5 = Some m6" "regs m6 = (regs m5)(5 := W ?a, 2 := regs ?m2 2)" "frame xs F ?D s m6" "same F ?D L ?m2 m6"
    using pop_saved [OF f2 refl e(2,5) 3(3) 5(3) same_trans [OF s4 5(4) order_refl order_refl], of 5] by auto
  obtain m7 where 7: "exec_seq (pop_ins 6) m6 = Some m7" "regs m7 = (regs m6)(6 := regs m 10, 2 := regs m 2)" "frame xs F D s m7" "same F D L m m7"
    using pop_saved [OF f refl e(1,4) 1(3) 6(3) same_trans [OF s2 6(4) order_refl order_refl], of 6] by auto
  show ?thesis
    using seq_run [OF seq_run [OF seq_run [OF seq_run [OF seq_run [OF seq_run [OF 1(1) 2] 3(1)] 4] 5(1)] 6(1)] 7(1)] 6(2) 7(2-4) 5(2) by auto
qed

lemma incdec_run:
  assumes f: "frame xs F D s m" and x: "x \<in> set xs" and m: "regs m 10 = below (regs m 8) (o_offset x)"
    and L: "D + 48 \<le> L" "L < 2 ^ 63" and d: "- 2048 \<le> d" "d < 2048"
  shows "\<exists>m'. exec_seq (incdec_ins p (o_ty x) d) m = Some m' \<and>
    regs m' 10 = W (if p then wrap (o_ty x) (s (o_offset x) + d) else s (o_offset x)) \<and>
    frame xs F D (s(o_offset x := wrap (o_ty x) (s (o_offset x) + d))) m' \<and> same F D L m m'"
proof -
  let ?t = "o_ty x" and ?a = "s (o_offset x)" and ?q = "if p then 11 else 5 :: int"
  let ?s = "s(o_offset x := wrap ?t (?a + d))"
  have t: "int_type ?t" using f x unfolding frame_def by (blast intro: layout_type)
  have ra: "wrap ?t ?a = ?a" using frame_ranges [OF f] x unfolding ranges_def in_range_def by blast
  obtain m7 where 7: "exec_seq ((((((push_ins 10 @ load_ins ?t) @ push_ins 10) @ [enc_i 0x13 10 0 10 d]) @ push_ins 10 @ pop_ins 11) @ pop_ins 5) @ pop_ins 6) m = Some m7"
      "regs m7 5 = W ?a" "regs m7 6 = regs m 10" "regs m7 11 = W (?a + d)" "frame xs F D s m7" "same F D L m m7"
    using incdec_loaded [OF assms] by blast
  let ?m8 = "m7\<lparr>regs := (regs m7)(10 := regs m7 6), pc := pc m7 + 4\<rparr>"
  have 8: "exec_seq [enc_i 0x13 10 0 6 0] m7 = Some ?m8" by (rule mv_run) simp_all
  have f8: "frame xs F D s ?m8" by (rule frame_regs [OF 7(5)]) simp_all
  have s8: "same F D L m ?m8" by (rule same_trans [OF 7(6) same_regs order_refl order_refl]) simp
  have r8: "regs ?m8 10 = below (regs ?m8 8) (o_offset x)" "regs ?m8 11 = W (?a + d)" using 7(3,4) m same_fp [OF 7(6)] by simp_all
  obtain m9 where 9: "exec_seq (store_ins ?t) ?m8 = Some m9" "regs m9 = regs ?m8" "frame xs F D ?s m9" "same F D L ?m8 m9"
    using store_step [OF f8 x r8, of L] L by fastforce
  let ?m10 = "m9\<lparr>regs := (regs m9)(10 := regs m9 ?q), pc := pc m9 + 4\<rparr>"
  let ?m11 = "?m10\<lparr>regs := (regs ?m10)(10 := W (wrap ?t (if p then ?a + d else ?a))), pc := pc ?m10 + 4 * int (length (cast_ins ?t))\<rparr>"
  have 10: "exec_seq [enc_i 0x13 10 0 ?q 0] m9 = Some ?m10" by (rule mv_run) simp_all
  have 11: "exec_seq (cast_ins ?t) ?m10 = Some ?m11" by (rule cast_run [OF t]) (use 9(2) 7(2,4) in simp)
  have "exec_seq (incdec_ins p ?t d) m = Some ?m11"
    unfolding incdec_ins_def by (rule seq_run [OF 7(1) seq_run [OF 8 seq_run [OF 9(1) seq_run [OF 10 11]]]])
  moreover have "frame xs F D ?s ?m11" by (rule frame_regs [OF 9(3)]) simp_all
  moreover have "same F D L m ?m11"
    by (rule same_trans [OF same_trans [OF s8 9(4) order_refl order_refl] _ order_refl order_refl]) (simp add: same_def)
  ultimately show ?thesis using ra by (intro exI [of _ ?m11]) simp
qed

lemma incdec_value:
  assumes "int_type t" "c_bin ND_ADD t ty_int a d = Some u"
  shows "wrap t u = wrap t (a + d)"
proof -
  let ?T = "usual t ty_int"
  have T: "int_type ?T" "width t \<le> width ?T" using assms(1) by (auto intro: int_type_usual width_usual)
  have "c_val ?T (wrap ?T a + wrap ?T d) = Some u" using assms(2) by (simp add: c_bin_def c_type_def c_op_def is_shift_def Let_def)
  then have "u = wrap ?T (wrap ?T a + wrap ?T d)" using c_val_range [OF T(1)] by blast
  then show ?thesis using take_bit_op(1) [OF T(2,1), of a d] by (intro wrap_cong [OF assms(1)]) simp
qed

lemma incdec_all:
  assumes "int_type t" "- 2048 \<le> d" "d < 2048"
  shows "bind_res (load_value t (push_reg A0 st)) (\<lambda>st. incdec_code p t d (push_reg A0 st)) = Ok (emit_all (incdec_ins p t d) st)"
  using assms int_type_not [OF assms(1)] load_all [OF assms(1)] store_all [OF assms(1)]
  by (simp add: incdec_code_def incdec_ins_def push_all pop_all mv_all cast_all i_addi_all addi_small Let_def A0_def A1_def T0_def T1_def)

lemma compiles_incdec:
  assumes fin: "final fin bs" and lay: "layout_ok F xs" and e: "e = (if p then ND_PREINC t l d else ND_POSTINC t l d)" and ty: "typed xs e"
  shows "compiles bs fin env xs F e"
proof (rule compilesI)
  fix st st' s s' v D P
  assume h: "ev e s = Some (v, s')" "gen_expr env e st = Ok st'" "emit_ok st" "later st' fin" "ranges xs s" "room D e < 2 ^ 63"
  have ty': "typed_var xs t l" "- 2048 \<le> d" "d < 2048" using ty e by (auto split: if_splits)
  obtain x where x: "l = ND_VAR t x" "var_of l = Some x" "x \<in> set xs" "o_ty x = t" using ty' by (auto elim: typed_varE)
  have t: "int_type t" using layout_type [OF lay x(3)] x(4) by simp
  let ?a = "s (o_offset x)"
  have a: "v = (if p then wrap t (?a + d) else ?a)" "s' = s(o_offset x := wrap t (?a + d))"
    using h(1) e x incdec_value [OF t] by (auto simp: Let_def split: option.splits if_splits)
  obtain st1 where g1: "gen_addr env (ND_VAR t x) st = Ok st1"
      "bind_res (load_value t (push_reg A0 st1)) (\<lambda>st. incdec_code p t d (push_reg A0 st)) = Ok st'"
    using h(2) e x(1) by (auto simp del: gen_addr.simps split: if_splits)
  then have g: "gen_addr env (ND_VAR t x) st = Ok st1" "st' = emit_all (incdec_ins p t d) st1"
    unfolding incdec_all [OF t ty'(2,3)] by simp_all
  have d: "D + 48 \<le> room D e" "D \<le> room D e" using e by (auto simp: room_def)
  note ad = computes_addr [OF fin later_seq [OF h(4) [unfolded g(2)]] h(3) g(1) conjunct1 [OF layout_local [OF lay x(3)]] d(2)]
  show "computes bs xs F D (room D e) P st s st' (\<lambda>_. W v) s'" unfolding g(2)
  proof (rule computes_straight [OF ad(1) fin h(4) [unfolded g(2)] keeps_ok [OF ad(2) h(3)]])
    fix m assume m: "regs m 10 = below (regs m 8) (o_offset x)" "frame xs F D s m"
    show "\<exists>m'. exec_seq (incdec_ins p t d) m = Some m' \<and> regs m' 10 = W v \<and> frame xs F D s' m' \<and> same F D (room D e) m m'"
      using incdec_run [OF m(2) x(3) m(1) d(1) h(6) ty'(2,3), of p] unfolding x(4) a .
  qed
qed

section \<open>Conditions\<close>

lemma later_place:
  assumes "later (place_label l st) fin" "l < nlabels st" "label_pos st ! l < 0"
  shows "later st fin"
proof -
  have "emits st (place_label l st)" by (rule emits.place) (rule assms(2))
  then have "emits_all st fin" using assms(1) unfolding later_def by (simp add: converse_rtranclp_into_rtranclp)
  moreover have "label_pos fin ! q = label_pos st ! q" if "q < nlabels st" "0 \<le> label_pos st ! q" for q
    using assms(1,3) that unfolding later_def by (cases "q = l") (simp_all add: place_label_def)
  ultimately show ?thesis unfolding later_def by blast
qed

text \<open>The two labels of a condition: what the emitter and the final code know of them.\<close>

lemma cond_code:
  assumes l: "new_label st = (l1, st1)" "new_label st1 = (l2, st2)" and kx: "keeps st2 x"
    and jz: "jz = jump_if_zero A0 \<or> jz = jump_if_nonzero A0" and ky: "keeps (jz l1 x) y"
    and kz: "keeps (place_label l1 (jump_to l2 y)) z" and fin: "later (place_label l2 z) fin" "emit_ok st"
  shows "later z fin" "later (place_label l1 (jump_to l2 y)) fin" "later (jump_to l2 y) fin" "later y fin" "later (jz l1 x) fin" "later x fin"
    "emit_ok st2" "emit_ok x" "emit_ok (jz l1 x)" "emit_ok y" "emit_ok (place_label l1 (jump_to l2 y))"
    "label_pos fin ! l1 = int (code_len (jump_to l2 y))" "label_pos fin ! l2 = int (code_len z)"
    "l1 < nlabels x" "l2 < nlabels y" "l1 < nlabels y" "code_len st2 = code_len st"
proof -
  note tl = two_labels [OF l]
  have n: "l1 = nlabels st" "l2 = Suc l1" "label_pos st2 ! l1 = -1" "label_pos st2 ! l2 = -1" "code_len st2 = code_len st"
    using l by (auto simp: new_label_def nth_append)
  then show "code_len st2 = code_len st" by simp
  have lx: "l1 < nlabels x" "l2 < nlabels x" using keeps_nl [OF kx] tl(2,3) by auto
  have px: "label_pos x ! l1 = -1" "label_pos x ! l2 = -1" using kx n(3,4) tl(2,3) unfolding keeps_def by auto
  have kj: "keeps x (jz l1 x)" "nlabels (jz l1 x) = nlabels x" using jz lx by auto
  have kxy: "keeps x y" using keeps_trans [OF kj(1) ky] .
  have ly: "l1 < nlabels y" "l2 < nlabels y" using keeps_nl [OF kxy] lx by auto
  have py: "label_pos y ! l1 = -1" "label_pos y ! l2 = -1" using kxy px lx unfolding keeps_def by auto
  have ke: "keeps y (jump_to l2 y)" using ly by auto
  have pe: "label_pos (jump_to l2 y) = label_pos y" by (simp add: jump_to_def add_fixup_def)
  have lz: "l2 < nlabels z" using keeps_nl [OF kz, of l2] ly by simp
  have "label_pos z ! l2 = label_pos (place_label l1 (jump_to l2 y)) ! l2" using kz ly unfolding keeps_def by simp
  also have "\<dots> = -1" using py pe n(2) by (simp add: place_label_def)
  finally have pz: "label_pos z ! l2 = -1" .
  show fz: "later z fin" by (rule later_place [OF fin(1) lz]) (simp add: pz)
  show fp: "later (place_label l1 (jump_to l2 y)) fin" by (rule keeps_later [OF kz fz])
  show fe: "later (jump_to l2 y) fin" by (rule later_place [OF fp]) (use ly py pe in simp_all)
  show fy: "later y fin" by (rule keeps_later [OF ke fe])
  show fj: "later (jz l1 x) fin" by (rule keeps_later [OF ky fy])
  show "later x fin" by (rule keeps_later [OF kj(1) fj])
  have k2: "keeps st st2" using tl(1) .
  show o2: "emit_ok st2" by (rule keeps_ok [OF k2 fin(2)])
  show ox: "emit_ok x" by (rule keeps_ok [OF kx o2])
  show oj: "emit_ok (jz l1 x)" by (rule keeps_ok [OF kj(1) ox])
  show oy: "emit_ok y" by (rule keeps_ok [OF ky oj])
  have kp: "keeps st (place_label l1 (jump_to l2 y))"
    by (intro keeps_place keeps_trans [OF k2 keeps_trans [OF kx keeps_trans [OF kxy ke]]]) (use n(1) ly in simp_all)
  show "emit_ok (place_label l1 (jump_to l2 y))" by (rule keeps_ok [OF kp fin(2)])
  show "label_pos fin ! l1 = int (code_len (jump_to l2 y))" by (rule placed_kept [OF kz fz]) (use ly in simp)
  show "label_pos fin ! l2 = int (code_len z)" by (rule placed_later [OF fin(1) lz])
  show "l1 < nlabels x" "l2 < nlabels y" "l1 < nlabels y" by fact+
qed

lemma code_len_place [simp]: "code_len (place_label l st) = code_len st"
  by (simp add: place_label_def)

lemma computes_li:
  assumes "computes bs xs F D L P st s st' w s'" "final fin bs" "later (i_li A0 v st') fin" "emit_ok st'"
  shows "computes bs xs F D L P st s (i_li A0 v st') (\<lambda>_. W v) s'"
proof -
  have i: "i_li A0 v st' = emit_all (li_ins 10 v) st'" by (simp add: i_li_all A0_def)
  show ?thesis unfolding i by (rule computes_then [OF assms(1,2) assms(3) [unfolded i] assms(4)]) (use li_run [of 10 v] in auto)
qed

lemma compiles_cond:
  assumes fin: "final fin bs" and c: "compiles bs fin env xs F c" "int_type (nty c)" and a: "compiles bs fin env xs F a" and b: "compiles bs fin env xs F b"
    and ran: "\<And>s v s'. ranges xs s \<Longrightarrow> ev c s = Some (v, s') \<Longrightarrow> in_range (nty c) v \<and> ranges xs s'"
  shows "compiles bs fin env xs F (ND_COND t c a b)"
proof (rule compilesI)
  fix st st' s s' v D P
  let ?e = "ND_COND t c a b"
  assume e: "ev ?e s = Some (v, s')" "gen_expr env ?e st = Ok st'" "emit_ok st" "later st' fin" "ranges xs s" "room D ?e < 2 ^ 63"
  obtain k s1 where k: "ev c s = Some (k, s1)" "(if k \<noteq> 0 then ev a s1 else ev b s1) = Some (v, s')" using e(1) by (auto split: option.splits)
  obtain l1 st1 l2 st2 where l: "new_label st = (l1, st1)" "new_label st1 = (l2, st2)" by fastforce
  then obtain x y z where g: "gen_expr env c st2 = Ok x" "gen_expr env a (jump_if_zero A0 l1 x) = Ok y"
    "gen_expr env b (place_label l1 (jump_to l2 y)) = Ok z" "st' = place_label l2 z" using e(2) by auto
  note q = cond_code [OF l gen_keeps(2) [OF g(1)] disjI1 [OF refl] gen_keeps(2) [OF g(2)] gen_keeps(2) [OF g(3)] e(4) [unfolded g(4)] e(3)]
  have d: "room D c \<le> room D ?e" "room D a \<le> room D ?e" "room D b \<le> room D ?e" by (auto simp: room_def)
  have r: "in_range (nty c) k" "ranges xs s1" using ran [OF e(5) k(1)] by auto
  have cc: "computes bs xs F D (room D ?e) P st s x (\<lambda>_. W k) s1"
    by (rule computes_at [OF compilesD [OF c(1) k(1) g(1) q(7,6) e(5) d(1) e(6)]]) (simp_all add: q(17))
  note br = computes_branch [OF cc fin q(8,14) c(2) r(1)]
  have "computes bs xs F D (room D ?e) P st s z (\<lambda>_. W v) s'"
  proof (cases "k = 0")
    case True
    have c0: "computes bs xs F D (room D ?e) P st s (place_label l1 (jump_to l2 y)) (\<lambda>_. W k) s1"
      by (rule br(2) [OF q(5) True]) (simp add: q(12))
    have "ev b s1 = Some (v, s')" using k(2) True by simp
    from compilesD [OF b this g(3) q(11,1) r(2) d(3) e(6)] show ?thesis
      by (rule computes_trans [OF c0 _ order_refl order_refl TrueI])
  next
    case False
    have "ev a s1 = Some (v, s')" using k(2) False by simp
    note ca = compilesD [OF a this g(2) q(9,4) r(2) d(2) e(6)]
    note c1 = computes_trans [OF br(1) [OF q(5) False] ca order_refl order_refl TrueI]
    show ?thesis by (rule computes_jump [OF c1 fin q(3,10,15,13)])
  qed
  then show "computes bs xs F D (room D ?e) P st s st' (\<lambda>_. W v) s'" unfolding g(4) by (rule computes_at) simp_all
qed

text \<open>The two logical operators: \<open>z\<close> is the value for which the right operand is not computed.\<close>

lemma compiles_logical:
  assumes fin: "final fin bs" and l: "compiles bs fin env xs F l" "int_type (nty l)" and r: "compiles bs fin env xs F r" "int_type (nty r)"
    and rl: "\<And>s v s'. ranges xs s \<Longrightarrow> ev l s = Some (v, s') \<Longrightarrow> in_range (nty l) v \<and> ranges xs s'"
    and rr: "\<And>s v s'. ranges xs s \<Longrightarrow> ev r s = Some (v, s') \<Longrightarrow> in_range (nty r) v \<and> ranges xs s'"
    and e: "e = (if cj then ND_LOGAND t l r else ND_LOGOR t l r)"
  shows "compiles bs fin env xs F e"
proof (rule compilesI)
  fix st st' s s' v D P
  let ?jz = "if cj then jump_if_zero A0 else jump_if_nonzero A0" and ?n = "of_bool cj :: int" and ?z = "of_bool (\<not> cj) :: int"
  assume h: "ev e s = Some (v, s')" "gen_expr env e st = Ok st'" "emit_ok st" "later st' fin" "ranges xs s" "room D e < 2 ^ 63"
  obtain a s1 where k: "ev l s = Some (a, s1)"
      "if (a = 0) = cj then v = ?z \<and> s' = s1 else \<exists>b. ev r s1 = Some (b, s') \<and> v = (if (b = 0) = cj then ?z else ?n)"
    using h(1) e by (cases cj) (auto split: option.splits if_splits)
  obtain l1 st1 l2 st2 where lab: "new_label st = (l1, st1)" "new_label st1 = (l2, st2)" by fastforce
  then obtain x y where g: "gen_expr env l st2 = Ok x" "gen_expr env r (?jz l1 x) = Ok y"
      "st' = place_label l2 (i_li A0 ?z (place_label l1 (jump_to l2 (i_li A0 ?n (?jz l1 y)))))"
    using h(2) e by (cases cj) (auto simp: Let_def)
  let ?Y = "i_li A0 ?n (?jz l1 y)" and ?S = "?jz l1 y"
  let ?Q = "place_label l1 (jump_to l2 ?Y)"
  have jz: "?jz = jump_if_zero A0 \<or> ?jz = jump_if_nonzero A0" by simp
  have kx: "keeps st2 x" using gen_keeps(2) [OF g(1)] .
  have kxy: "keeps (?jz l1 x) y" using gen_keeps(2) [OF g(2)] .
  have "l1 < nlabels (?jz l1 x)" using keeps_nl [OF kx] two_labels(2) [OF lab] by simp
  then have l1y: "l1 < nlabels y" using keeps_nl [OF kxy] by simp
  then have kj: "keeps (?jz l1 x) ?Y" "keeps y ?S" using kxy by (cases cj; auto)+
  have kz: "keeps ?Q (i_li A0 ?z ?Q)" by auto
  note q = cond_code [OF lab kx jz kj(1) kz h(4) [unfolded g(3)] h(3)]
  have d: "room D l \<le> room D e" "room D r \<le> room D e" using e by (auto simp: room_def)
  have ra: "in_range (nty l) a" "ranges xs s1" using rl [OF h(5) k(1)] by auto
  have fS: "later ?S fin" by (rule keeps_later [OF _ q(4)]) auto
  have fy: "later y fin" by (rule keeps_later [OF kj(2) fS])
  have oy: "emit_ok y" by (rule ok_gen [OF g(2) q(9)])
  have oS: "emit_ok ?S" by (rule keeps_ok [OF kj(2) oy])
  have pQ: "label_pos fin ! l1 = int (code_len ?Q)" using q(12) by simp
  have cl: "computes bs xs F D (room D e) P st s x (\<lambda>_. W a) s1"
    by (rule computes_at [OF compilesD [OF l(1) k(1) g(1) q(7,6) h(5) d(1) h(6)]]) (simp_all add: q(17))
  note bl = computes_branch [OF cl fin q(8,14) l(2) ra(1)]
  have skip: "computes bs xs F D (room D e) P st s (i_li A0 ?z ?Q) (\<lambda>_. W ?z) s'" if "computes bs xs F D (room D e) P st s ?Q (\<lambda>_. W u) s'" for u
    by (rule computes_li [OF that fin q(1,11)])
  have "computes bs xs F D (room D e) P st s (i_li A0 ?z ?Q) (\<lambda>_. W v) s'"
  proof (cases "(a = 0) = cj")
    case True
    then have v: "v = ?z" "s' = s1" using k(2) by auto
    have "computes bs xs F D (room D e) P st s ?Q (\<lambda>_. W a) s1"
      using bl(2) [of ?Q] bl(4) [of ?Q] q(5) pQ True by (cases cj) auto
    then show ?thesis using skip unfolding v by blast
  next
    case False
    then obtain b where b: "ev r s1 = Some (b, s')" "v = (if (b = 0) = cj then ?z else ?n)" using k(2) by auto
    have c1: "computes bs xs F D (room D e) P st s (?jz l1 x) (\<lambda>_. W a) s1" using bl(1,3) q(5) False by (cases cj) auto
    note cr = compilesD [OF r(1) b(1) g(2) q(9) fy ra(2) d(2) h(6)]
    note cy = computes_trans [OF c1 cr order_refl order_refl TrueI]
    have rb: "in_range (nty r) b" using rr [OF ra(2) b(1)] by simp
    note bq = computes_branch [OF cy fin oy l1y r(2) rb]
    show ?thesis
    proof (cases "(b = 0) = cj")
      case True
      have "computes bs xs F D (room D e) P st s ?Q (\<lambda>_. W b) s'"
        using bq(2) [of ?Q] bq(4) [of ?Q] fS pQ True by (cases cj) auto
      then show ?thesis using skip b(2) True by auto
    next
      case False
      have c2: "computes bs xs F D (room D e) P st s ?S (\<lambda>_. W b) s'" using bq(1,3) fS False by (cases cj) auto
      note c3 = computes_li [OF c2 fin q(4) oS]
      have "computes bs xs F D (room D e) P st s (i_li A0 ?z ?Q) (\<lambda>_. W ?n) s'" by (rule computes_jump [OF c3 fin q(3,10,15,13)])
      then show ?thesis using b(2) False by simp
    qed
  qed
  then show "computes bs xs F D (room D e) P st s st' (\<lambda>_. W v) s'" unfolding g(3) by (rule computes_at) simp_all
qed

section \<open>Expressions\<close>

lemma compiles_expr: "final fin bs \<Longrightarrow> layout_ok F xs \<Longrightarrow> typed xs e \<Longrightarrow> compiles bs fin env xs F e"
proof (induction xs e rule: typed.induct)
  case (1 xs t v)
  then show ?case by (simp add: compiles_num)
next
  case (2 xs t x)
  then show ?case using compiles_var by auto
next
  case (3 xs k t l r)
  then show ?case by (intro compiles_bin) auto
next
  case (4 xs t l r)
  note h = 4(3-5)
  have t: "typed xs l" "typed xs r" using h by auto
  show ?case using compiles_logical [where cj = True and t = t, OF h(1) 4(1) [OF h(1,2) t(1)] typed_int [OF t(1) h(2)] 4(2) [OF h(1,2) t(2)] typed_int [OF t(2) h(2)]
      ev_range [OF t(1) h(2)] ev_range [OF t(2) h(2)] refl] by simp
next
  case (5 xs t l r)
  note h = 5(3-5)
  have t: "typed xs l" "typed xs r" using h by auto
  show ?case using compiles_logical [where cj = False and t = t, OF h(1) 5(1) [OF h(1,2) t(1)] typed_int [OF t(1) h(2)] 5(2) [OF h(1,2) t(2)] typed_int [OF t(2) h(2)]
      ev_range [OF t(1) h(2)] ev_range [OF t(2) h(2)] refl] by simp
next
  case (6 xs t c a b)
  note h = 6(4-6)
  have t: "typed xs c" "typed xs a" "typed xs b" using h by auto
  show ?case using compiles_cond [OF h(1) 6(1) [OF h(1,2) t(1)] typed_int [OF t(1) h(2)] 6(2) [OF h(1,2) t(2)] 6(3) [OF h(1,2) t(3)]
      ev_range [OF t(1) h(2)]] .
next
  case (7 xs t l r)
  note h = 7(3-5)
  have t: "typed xs l" "typed xs r" using h by auto
  show ?case using compiles_comma [OF h(1) 7(1) [OF h(1,2) t(1)] 7(2) [OF h(1,2) t(2)]] ev_range [OF t(1) h(2)] by blast
next
  case (8 xs t l)
  then show ?case using compiles_neg typed_int by auto
next
  case (9 xs t l)
  note h = 9(2-4)
  have t: "typed xs l" using h by auto
  show ?case using compiles_not [OF h(1) 9(1) [OF h(1,2) t] typed_int [OF t h(2)]] ev_range [OF t h(2)] by blast
next
  case (10 xs t l)
  note h = 10(2-4)
  have t: "typed xs l" "t = nty l" "4 \<le> ty_size t" "t \<noteq> ty_uint" using h by auto
  have i: "int_type t" using typed_int [OF t(1) h(2)] t(2) by simp
  show ?case using compiles_bitnot [OF h(1) 10(1) [OF h(1,2) t(1)] i t(2-4)] ev_range [OF t(1) h(2)] by blast
next
  case (11 xs t l)
  then show ?case using compiles_cast by auto
next
  case (12 xs t l r)
  then show ?case by (intro compiles_assign) auto
next
  case (13 xs k t l r)
  then show ?case by (intro compiles_opassign) auto
next
  case (14 xs t l d)
  then show ?case using compiles_incdec [of fin bs F xs "ND_PREINC t l d" True t l d] by simp
next
  case (15 xs t l d)
  then show ?case using compiles_incdec [of fin bs F xs "ND_POSTINC t l d" False t l d] by simp
qed simp_all

text \<open>The compiler accepts every typed expression.\<close>

lemma new_label_pair: "\<exists>l st1. new_label st = (l, st1)"
  by (simp add: new_label_def)

lemma gen_expr_total: "typed xs e \<Longrightarrow> layout_ok F xs \<Longrightarrow> \<exists>st'. gen_expr env e st = Ok st'"
proof (induction xs e arbitrary: st rule: typed.induct)
  case (2 xs t x)
  then show ?case using layout_local [of F xs x] layout_type [of F xs x] load_all by auto
next
  case (3 xs k t l r)
  have i: "int_type (nty l)" "int_type (nty r)" "is_cmp k \<or> int_type t" using 3(3,4) typed_int [OF 3(3,4)] by (auto intro: typed_int)
  obtain x where x: "gen_expr env l st = Ok x" using 3 by fastforce
  obtain y where y: "gen_expr env r (push_reg A0 x) = Ok y" using 3 by fastforce
  show ?case using x y bin_all [OF i] int_type_not [OF i(1)] int_type_not [OF i(2)] by simp
next
  case (4 xs t l r)
  have t: "typed xs l" "typed xs r" using 4(3) by auto
  obtain l1 st1 l2 st2 where l: "new_label st = (l1, st1)" "new_label st1 = (l2, st2)" by fastforce
  obtain x where x: "gen_expr env l st2 = Ok x" using 4(1) [OF t(1) 4(4)] by blast
  show ?case using l x 4(2) [OF t(2) 4(4), of "jump_if_zero A0 l1 x"] by (auto simp: Let_def)
next
  case (5 xs t l r)
  have t: "typed xs l" "typed xs r" using 5(3) by auto
  obtain l1 st1 l2 st2 where l: "new_label st = (l1, st1)" "new_label st1 = (l2, st2)" by fastforce
  obtain x where x: "gen_expr env l st2 = Ok x" using 5(1) [OF t(1) 5(4)] by blast
  show ?case using l x 5(2) [OF t(2) 5(4), of "jump_if_nonzero A0 l1 x"] by (auto simp: Let_def)
next
  case (6 xs t c a b)
  have t: "typed xs c" "typed xs a" "typed xs b" using 6(4) by auto
  obtain l1 st1 l2 st2 where l: "new_label st = (l1, st1)" "new_label st1 = (l2, st2)" by fastforce
  obtain x where x: "gen_expr env c st2 = Ok x" using 6(1) [OF t(1) 6(5)] by blast
  obtain y where y: "gen_expr env a (jump_if_zero A0 l1 x) = Ok y" using 6(2) [OF t(2) 6(5)] by blast
  show ?case using l x y 6(3) [OF t(3) 6(5), of "place_label l1 (jump_to l2 y)"] by auto
next
  case (7 xs t l r)
  have t: "typed xs l" "typed xs r" using 7(3) by auto
  obtain x where x: "gen_expr env l st = Ok x" using 7(1) [OF t(1) 7(4)] by blast
  show ?case using x 7(2) [OF t(2) 7(4), of x] by auto
next
  case (12 xs t l r)
  obtain x where x: "l = ND_VAR t x" "x \<in> set xs" "o_ty x = t" using 12(2) by (auto elim: typed_varE)
  have i: "int_type t" using layout_type [OF 12(3) x(2)] x(3) by simp
  have "typed xs r" using 12(2) by simp
  then show ?case using 12(1) [OF _ 12(3)] x(1) int_type_not [OF i] store_code_all [OF i] by (auto simp: Let_def)
next
  case (13 xs k t l r)
  obtain x where x: "l = ND_VAR t x" "x \<in> set xs" "o_ty x = t" using 13(2) by (auto elim: typed_varE)
  have i: "int_type t" using layout_type [OF 13(3) x(2)] x(3) by simp
  have r: "typed xs r" "\<not> is_cmp k" using 13(2) by simp_all
  show ?case using 13(1) [OF r(1) 13(3)] x(1) load_all [OF i] opassign_all [OF i r(2)] store_code_all [OF i] by auto
next
  case (14 xs t l d)
  obtain x where x: "l = ND_VAR t x" "x \<in> set xs" "o_ty x = t" using 14(1) by (auto elim: typed_varE)
  have i: "int_type t" using layout_type [OF 14(2) x(2)] x(3) by simp
  have d: "- 2048 \<le> d" "d < 2048" using 14(1) by auto
  show ?case using incdec_all [OF i d, of "i_addi A0 S0 (- o_offset x) st" True] x(1) layout_local [OF _ x(2), of F] 14(2) by auto
next
  case (15 xs t l d)
  obtain x where x: "l = ND_VAR t x" "x \<in> set xs" "o_ty x = t" using 15(1) by (auto elim: typed_varE)
  have i: "int_type t" using layout_type [OF 15(2) x(2)] x(3) by simp
  have d: "- 2048 \<le> d" "d < 2048" using 15(1) by auto
  show ?case using incdec_all [OF i d, of "i_addi A0 S0 (- o_offset x) st" False] x(1) layout_local [OF _ x(2), of F] 15(2) by auto
qed fastforce+

lemma expr_run:
  assumes "typed xs e" "ev e s = Some (v, s')" "gen_expr env e st = Ok st'" "emit_ok st" "later st' fin" "final fin bs"
    and m: "at st m" "frame xs F D s m" and L: "room D e \<le> L" "L < 2 ^ 63"
  shows "\<exists>m'. runs bs m m' \<and> at st' m' \<and> regs m' 10 = W v \<and> frame xs F D s' m' \<and> same F D L m m'"
proof -
  have lay: "layout_ok F xs" using m(2) unfolding frame_def by blast
  have "computes bs xs F D L (\<lambda>_. True) st s st' (\<lambda>_. W v) s'"
    using compilesD [OF compiles_expr [OF assms(6) lay assms(1)] assms(2-5) frame_ranges [OF m(2)] L] .
  then show ?thesis using m unfolding computes_def by auto
qed

end
