(* ===== verification/Cc_Stmt.thy ===== *)
theory Cc_Stmt
  imports Cc_Correct
begin

text \<open>
  Statements: what C says that a statement does, as an inductive relation with the four ways to
  leave a statement, and the proof that the code of a statement does that. Loops are covered as
  far as they end. \<open>switch\<close>, \<open>goto\<close> and labels are not covered.
\<close>

section \<open>What statements do\<close>

datatype outcome = Normal | Brk | Cont | Ret int

fun stops :: "outcome \<Rightarrow> bool" where
  "stops Brk = True"
| "stops (Ret v) = True"
| "stops _ = False"

text \<open>How a loop is left when its body stops it.\<close>

fun left :: "outcome \<Rightarrow> outcome" where
  "left (Ret v) = Ret v"
| "left _ = Normal"

definition guard :: "node option \<Rightarrow> store \<Rightarrow> (bool \<times> store) option" where
  "guard c s = (case c of None \<Rightarrow> Some (True, s) | Some e \<Rightarrow> (case ev e s of None \<Rightarrow> None | Some (v, s') \<Rightarrow> Some (v \<noteq> 0, s')))"

definition effect :: "node option \<Rightarrow> store \<Rightarrow> store option" where
  "effect e s = (case e of None \<Rightarrow> Some s | Some e \<Rightarrow> map_option snd (ev e s))"

inductive does :: "node \<Rightarrow> store \<Rightarrow> outcome \<Rightarrow> store \<Rightarrow> bool"
  and loops :: "node option \<Rightarrow> node option \<Rightarrow> node \<Rightarrow> store \<Rightarrow> outcome \<Rightarrow> store \<Rightarrow> bool"
  and does_all :: "node list \<Rightarrow> store \<Rightarrow> outcome \<Rightarrow> store \<Rightarrow> bool"
where
  null: "does ND_NULL s Normal s"
| expr: "ev e s = Some (v, s') \<Longrightarrow> does (ND_EXPR_STMT e) s Normal s'"
| block: "does_all ss s oc s' \<Longrightarrow> does (ND_BLOCK ss) s oc s'"
| return: "ev e s = Some (v, s') \<Longrightarrow> does (ND_RETURN (Some e)) s (Ret v) s'"
| return_none: "does (ND_RETURN None) s (Ret 0) s"
| brk: "does ND_BREAK s Brk s"
| cont: "does ND_CONTINUE s Cont s"
| if_true: "ev c s = Some (v, s1) \<Longrightarrow> v \<noteq> 0 \<Longrightarrow> does a s1 oc s' \<Longrightarrow> does (ND_IF c a b) s oc s'"
| if_false: "ev c s = Some (0, s1) \<Longrightarrow> does b s1 oc s' \<Longrightarrow> does (ND_IF c a (Some b)) s oc s'"
| if_none: "ev c s = Some (0, s1) \<Longrightarrow> does (ND_IF c a None) s Normal s1"
| while_end: "ev c s = Some (0, s1) \<Longrightarrow> does (ND_WHILE c body) s Normal s1"
| while_stop: "ev c s = Some (v, s1) \<Longrightarrow> v \<noteq> 0 \<Longrightarrow> does body s1 oc s2 \<Longrightarrow> stops oc \<Longrightarrow> does (ND_WHILE c body) s (left oc) s2"
| while_next: "ev c s = Some (v, s1) \<Longrightarrow> v \<noteq> 0 \<Longrightarrow> does body s1 oc s2 \<Longrightarrow> \<not> stops oc \<Longrightarrow>
    does (ND_WHILE c body) s2 oc' s3 \<Longrightarrow> does (ND_WHILE c body) s oc' s3"
| do_stop: "does body s oc s1 \<Longrightarrow> stops oc \<Longrightarrow> does (ND_DO body c) s (left oc) s1"
| do_end: "does body s oc s1 \<Longrightarrow> \<not> stops oc \<Longrightarrow> ev c s1 = Some (0, s2) \<Longrightarrow> does (ND_DO body c) s Normal s2"
| do_next: "does body s oc s1 \<Longrightarrow> \<not> stops oc \<Longrightarrow> ev c s1 = Some (v, s2) \<Longrightarrow> v \<noteq> 0 \<Longrightarrow>
    does (ND_DO body c) s2 oc' s3 \<Longrightarrow> does (ND_DO body c) s oc' s3"
| for_none: "loops c inc body s oc s' \<Longrightarrow> does (ND_FOR None c inc body) s oc s'"
| for_init: "does ini s Normal s1 \<Longrightarrow> loops c inc body s1 oc s' \<Longrightarrow> does (ND_FOR (Some ini) c inc body) s oc s'"
| loop_end: "guard c s = Some (False, s1) \<Longrightarrow> loops c inc body s Normal s1"
| loop_stop: "guard c s = Some (True, s1) \<Longrightarrow> does body s1 oc s2 \<Longrightarrow> stops oc \<Longrightarrow> loops c inc body s (left oc) s2"
| loop_next: "guard c s = Some (True, s1) \<Longrightarrow> does body s1 oc s2 \<Longrightarrow> \<not> stops oc \<Longrightarrow> effect inc s2 = Some s3 \<Longrightarrow>
    loops c inc body s3 oc' s4 \<Longrightarrow> loops c inc body s oc' s4"
| all_nil: "does_all [] s Normal s"
| all_stop: "does n s oc s' \<Longrightarrow> oc \<noteq> Normal \<Longrightarrow> does_all (n # ns) s oc s'"
| all_next: "does n s Normal s1 \<Longrightarrow> does_all ns s1 oc s' \<Longrightarrow> does_all (n # ns) s oc s'"

text \<open>Statements of these kinds whose expressions are typed and need at most \<open>b\<close> saved registers.\<close>

definition plain_expr :: "obj list \<Rightarrow> nat \<Rightarrow> node \<Rightarrow> bool" where
  "plain_expr xs b e \<longleftrightarrow> typed xs e \<and> depth e \<le> b"

definition plain_opt :: "obj list \<Rightarrow> nat \<Rightarrow> node option \<Rightarrow> bool" where
  "plain_opt xs b e \<longleftrightarrow> (case e of None \<Rightarrow> True | Some e \<Rightarrow> plain_expr xs b e)"

fun plain :: "obj list \<Rightarrow> nat \<Rightarrow> node \<Rightarrow> bool" where
  "plain xs b ND_NULL \<longleftrightarrow> True"
| "plain xs b (ND_EXPR_STMT e) \<longleftrightarrow> plain_expr xs b e"
| "plain xs b (ND_BLOCK ss) \<longleftrightarrow> (\<forall>n\<in>set ss. plain xs b n)"
| "plain xs b (ND_RETURN e) \<longleftrightarrow> plain_opt xs b e"
| "plain xs b ND_BREAK \<longleftrightarrow> True"
| "plain xs b ND_CONTINUE \<longleftrightarrow> True"
| "plain xs b (ND_IF c x y) \<longleftrightarrow> plain_expr xs b c \<and> plain xs b x \<and> (case y of None \<Rightarrow> True | Some y \<Rightarrow> plain xs b y)"
| "plain xs b (ND_WHILE c body) \<longleftrightarrow> plain_expr xs b c \<and> plain xs b body"
| "plain xs b (ND_DO body c) \<longleftrightarrow> plain xs b body \<and> plain_expr xs b c"
| "plain xs b (ND_FOR ini c inc body) \<longleftrightarrow>
     (case ini of None \<Rightarrow> True | Some n \<Rightarrow> plain xs b n) \<and> plain_opt xs b c \<and> plain_opt xs b inc \<and> plain xs b body"
| "plain xs b _ \<longleftrightarrow> False"

section \<open>Labels of statements\<close>

text \<open>A label that is made and not placed yet.\<close>

definition fresh :: "nat \<Rightarrow> emit \<Rightarrow> bool" where
  "fresh l st \<longleftrightarrow> l < nlabels st \<and> label_pos st ! l = -1"

definition has :: "nat option \<Rightarrow> emit \<Rightarrow> bool" where
  "has l st \<longleftrightarrow> (case l of None \<Rightarrow> True | Some l \<Rightarrow> l < nlabels st)"

lemma fresh_keeps: "fresh l st \<Longrightarrow> keeps st st' \<Longrightarrow> fresh l st'"
  unfolding fresh_def keeps_def by auto

lemma fresh_place: "fresh l st \<Longrightarrow> l \<noteq> q \<Longrightarrow> fresh l (place_label q st)"
  unfolding fresh_def by (auto simp: place_label_def nth_list_update)

lemma fresh_nl: "fresh l st \<Longrightarrow> l < nlabels st"
  unfolding fresh_def by simp

lemma has_keeps: "has l st \<Longrightarrow> keeps st st' \<Longrightarrow> has l st'"
  unfolding has_def by (auto split: option.splits dest: keeps_nlabels)

lemma has_Some [simp]: "has (Some l) st \<longleftrightarrow> l < nlabels st"
  by (simp add: has_def)

lemma later_fresh: "later (place_label l st) fin \<Longrightarrow> fresh l st \<Longrightarrow> later st fin"
  unfolding fresh_def by (auto intro: later_place)

lemma label_new_all:
  assumes "label_new g = (l, g1)"
  shows "keeps (em g) (em g1)" "fresh l (em g1)" "nlabels (em g) = l" "code_len (em g1) = code_len (em g)" "clabels g1 = clabels g"
proof -
  have n: "new_label (em g) = (l, em g1)" "clabels g1 = clabels g" using assms by (auto simp: label_new_def split: prod.splits)
  note k = new_label_keeps [OF n(1)]
  show "keeps (em g) (em g1)" using k by simp
  have "em g1 = (em g)\<lparr>label_pos := label_pos (em g) @ [- 1]\<rparr>" "l = nlabels (em g)" using n(1) by (auto simp: new_label_def)
  then show "fresh l (em g1)" "nlabels (em g) = l" "code_len (em g1) = code_len (em g)"
    by (simp_all add: fresh_def nth_append)
  show "clabels g1 = clabels g" by fact
qed

lemma em_simps [simp]: "em (on_emit f g) = f (em g)" "clabels (on_emit f g) = clabels g"
  by (simp_all add: on_emit_def)

lemma expr_stmt_Ok: "expr_stmt env e g = Ok g' \<longleftrightarrow> (\<exists>st. gen_expr env e (em g) = Ok st \<and> g' = g\<lparr>em := st\<rparr>)"
  by (auto simp: expr_stmt_def)

lemma on_emit_em [simp]: "on_emit f (g\<lparr>em := st\<rparr>) = g\<lparr>em := f st\<rparr>" "(on_emit f g)\<lparr>em := st\<rparr> = g\<lparr>em := st\<rparr>"
  by (simp_all add: on_emit_def)

text \<open>The parts of the code of a statement.\<close>

lemma gen_if:
  assumes "gen_stmt env brk cont (ND_IF c a b) g = Ok g'"
  obtains l1 g1 l2 g2 x ga where "label_new g = (l1, g1)" "label_new g1 = (l2, g2)" "gen_expr env c (em g2) = Ok x"
    "gen_stmt env brk cont a (g2\<lparr>em := jump_if_zero A0 l1 x\<rparr>) = Ok ga"
    "case b of None \<Rightarrow> em g' = place_label l1 (em ga)
     | Some b \<Rightarrow> \<exists>gb. gen_stmt env brk cont b (on_emit (\<lambda>st. place_label l1 (jump_to l2 st)) ga) = Ok gb \<and> em g' = place_label l2 (em gb)"
proof -
  obtain l1 g1 l2 g2 where l: "label_new g = (l1, g1)" "label_new g1 = (l2, g2)" by fastforce
  then obtain x ga where "gen_expr env c (em g2) = Ok x" "gen_stmt env brk cont a (g2\<lparr>em := jump_if_zero A0 l1 x\<rparr>) = Ok ga"
    "case b of None \<Rightarrow> em g' = place_label l1 (em ga)
     | Some b \<Rightarrow> \<exists>gb. gen_stmt env brk cont b (on_emit (\<lambda>st. place_label l1 (jump_to l2 st)) ga) = Ok gb \<and> em g' = place_label l2 (em gb)"
    using assms by (cases b) (auto simp: expr_stmt_Ok)
  then show ?thesis using l that by blast
qed

lemma gen_while:
  assumes "gen_stmt env brk cont (ND_WHILE c body) g = Ok g'"
  obtains l1 g1 l2 g2 x g3 where "label_new g = (l1, g1)" "label_new g1 = (l2, g2)" "gen_expr env c (place_label l1 (em g2)) = Ok x"
    "gen_stmt env (Some l2) (Some l1) body (g2\<lparr>em := jump_if_zero A0 l2 x\<rparr>) = Ok g3" "em g' = place_label l2 (jump_to l1 (em g3))"
  using assms by (auto simp: expr_stmt_Ok split: prod.splits)

lemma gen_do:
  assumes "gen_stmt env brk cont (ND_DO body c) g = Ok g'"
  obtains l1 g1 l2 g2 l3 g3 g4 x where "label_new g = (l1, g1)" "label_new g1 = (l2, g2)" "label_new g2 = (l3, g3)"
    "gen_stmt env (Some l3) (Some l2) body (on_emit (place_label l1) g3) = Ok g4"
    "gen_expr env c (place_label l2 (em g4)) = Ok x" "em g' = place_label l3 (jump_if_nonzero A0 l1 x)"
  using assms by (auto simp: expr_stmt_Ok split: prod.splits)

text \<open>The code of a condition that may be missing, and of the step of a loop.\<close>

definition guard_code :: "genv \<Rightarrow> nat \<Rightarrow> node option \<Rightarrow> emit \<Rightarrow> emit res" where
  "guard_code env l c st = (case c of None \<Rightarrow> Ok st | Some c \<Rightarrow> bind_res (gen_expr env c st) (\<lambda>st. Ok (jump_if_zero A0 l st)))"

definition effect_code :: "genv \<Rightarrow> node option \<Rightarrow> emit \<Rightarrow> emit res" where
  "effect_code env e st = (case e of None \<Rightarrow> Ok st | Some e \<Rightarrow> gen_expr env e st)"

lemma gen_for:
  assumes "gen_stmt env brk cont (ND_FOR ini c inc body) g = Ok g'"
  obtains l1 g1 l2 g2 l3 g3 g4 x g5 y where "label_new g = (l1, g1)" "label_new g1 = (l2, g2)" "label_new g2 = (l3, g3)"
    "gen_opt env (Some l3) (Some l2) ini g3 = Ok g4"
    "guard_code env l3 c (place_label l1 (em g4)) = Ok x"
    "gen_stmt env (Some l3) (Some l2) body (g4\<lparr>em := x\<rparr>) = Ok g5"
    "effect_code env inc (place_label l2 (em g5)) = Ok y" "em g' = place_label l3 (jump_to l1 y)"
proof -
  obtain l1 g1 l2 g2 l3 g3 where l: "label_new g = (l1, g1)" "label_new g1 = (l2, g2)" "label_new g2 = (l3, g3)" by fastforce
  obtain g4 x g5 y where "gen_opt env (Some l3) (Some l2) ini g3 = Ok g4" "guard_code env l3 c (place_label l1 (em g4)) = Ok x"
    "gen_stmt env (Some l3) (Some l2) body (g4\<lparr>em := x\<rparr>) = Ok g5" "effect_code env inc (place_label l2 (em g5)) = Ok y"
    "em g' = place_label l3 (jump_to l1 y)"
    using assms l by (cases c; cases inc; fastforce simp: expr_stmt_Ok guard_code_def effect_code_def on_emit_def)
  then show ?thesis using l that by blast
qed

lemma keeps_effect: "effect_code env e st = Ok st' \<Longrightarrow> keeps st st'"
  by (auto simp: effect_code_def gen_keeps(2) split: option.splits)

lemma keeps_guard: "guard_code env l c st = Ok st' \<Longrightarrow> l < nlabels st \<Longrightarrow> keeps st st'"
  by (auto simp: guard_code_def split: option.splits dest!: gen_keeps(2) intro: keeps_nl)

text \<open>A label of our own is placed.\<close>

lemma keeps_own: "keeps st st' \<Longrightarrow> fresh l st' \<Longrightarrow> nlabels st \<le> l \<Longrightarrow> keeps st (place_label l st')"
  by (auto simp: fresh_def)

lemma labels2:
  assumes "label_new g = (l1, g1)" "label_new g1 = (l2, g2)"
  shows "keeps (em g) (em g2)" "fresh l1 (em g2)" "fresh l2 (em g2)" "nlabels (em g) \<le> l1" "nlabels (em g) \<le> l2" "l1 \<noteq> l2"
    "code_len (em g2) = code_len (em g)"
proof -
  note a = label_new_all [OF assms(1)] and b = label_new_all [OF assms(2)]
  show "keeps (em g) (em g2)" using keeps_trans [OF a(1) b(1)] .
  show "fresh l1 (em g2)" using fresh_keeps [OF a(2) b(1)] .
  show "fresh l2 (em g2)" by (rule b(2))
  show "nlabels (em g) \<le> l1" "l1 \<noteq> l2" "nlabels (em g) \<le> l2" using a(3) b(3) fresh_nl [OF a(2)] by auto
  show "code_len (em g2) = code_len (em g)" using a(4) b(4) by simp
qed

lemma labels3:
  assumes "label_new g = (l1, g1)" "label_new g1 = (l2, g2)" "label_new g2 = (l3, g3)"
  shows "keeps (em g) (em g3)" "fresh l1 (em g3)" "fresh l2 (em g3)" "fresh l3 (em g3)"
    "nlabels (em g) \<le> l1" "nlabels (em g) \<le> l2" "nlabels (em g) \<le> l3" "l1 \<noteq> l2" "l1 \<noteq> l3" "l2 \<noteq> l3"
    "code_len (em g3) = code_len (em g)"
proof -
  note a = labels2 [OF assms(1,2)] and b = label_new_all [OF assms(3)]
  show "keeps (em g) (em g3)" using keeps_trans [OF a(1) b(1)] .
  show "fresh l1 (em g3)" "fresh l2 (em g3)" using fresh_keeps [OF a(2) b(1)] fresh_keeps [OF a(3) b(1)] by auto
  show "fresh l3 (em g3)" by (rule b(2))
  show "nlabels (em g) \<le> l1" "nlabels (em g) \<le> l2" "l1 \<noteq> l2" by (rule a)+
  show "nlabels (em g) \<le> l3" "l1 \<noteq> l3" "l2 \<noteq> l3" using b(3) fresh_nl [OF a(2)] fresh_nl [OF a(3)] keeps_nlabels [OF a(1)] by auto
  show "code_len (em g3) = code_len (em g)" using a(7) b(4) by simp
qed

lemma jump_keeps:
  "l < nlabels st \<Longrightarrow> keeps st (jump_to l st)" "l < nlabels st \<Longrightarrow> keeps st (jump_if_zero r l st)" "l < nlabels st \<Longrightarrow> keeps st (jump_if_nonzero r l st)"
  by auto

text \<open>An \<open>if\<close>: to the end of the first branch, and to the end of the second.\<close>

lemma if_labels:
  assumes l: "label_new g = (l1, g1)" "label_new g1 = (l2, g2)" and x: "keeps (em g2) x"
  shows "l1 < nlabels x" "keeps x (jump_if_zero A0 l1 x)" "keeps (em g) (jump_if_zero A0 l1 x)"
    "keeps (jump_if_zero A0 l1 x) y \<Longrightarrow> fresh l1 y \<and> fresh l2 y \<and> keeps (em g) y \<and> keeps (em g) (place_label l1 y) \<and>
      fresh l1 (jump_to l2 y) \<and> keeps y (jump_to l2 y) \<and> keeps (em g) (place_label l1 (jump_to l2 y))"
    "keeps (jump_if_zero A0 l1 x) y \<Longrightarrow> keeps (place_label l1 (jump_to l2 y)) z \<Longrightarrow> fresh l2 z \<and> keeps (em g) (place_label l2 z)"
proof -
  note q = labels2 [OF l]
  have f: "fresh l1 x" "fresh l2 x" using fresh_keeps [OF q(2) x] fresh_keeps [OF q(3) x] by auto
  show "l1 < nlabels x" using fresh_nl [OF f(1)] .
  then show j: "keeps x (jump_if_zero A0 l1 x)" by (rule jump_keeps)
  then show gj: "keeps (em g) (jump_if_zero A0 l1 x)" using keeps_trans [OF keeps_trans [OF q(1) x]] by blast
  have y: "fresh l1 y \<and> fresh l2 y \<and> keeps (em g) y \<and> keeps (em g) (place_label l1 y) \<and> fresh l1 (jump_to l2 y) \<and>
      keeps y (jump_to l2 y) \<and> fresh l2 (jump_to l2 y) \<and> keeps (em g) (place_label l1 (jump_to l2 y))" if "keeps (jump_if_zero A0 l1 x) y" for y
  proof -
    have fy: "fresh l1 y" "fresh l2 y" using fresh_keeps [OF _ keeps_trans [OF j that]] f by auto
    have gy: "keeps (em g) y" using keeps_trans [OF gj that] .
    have jy: "keeps y (jump_to l2 y)" using jump_keeps(1) [OF fresh_nl [OF fy(2)]] .
    have fj: "fresh l1 (jump_to l2 y)" "fresh l2 (jump_to l2 y)" using fresh_keeps [OF _ jy] fy by auto
    show ?thesis using fy gy jy fj keeps_own [OF gy fy(1) q(4)] keeps_own [OF keeps_trans [OF gy jy] fj(1) q(4)] by blast
  qed
  then show "keeps (jump_if_zero A0 l1 x) y \<Longrightarrow> fresh l1 y \<and> fresh l2 y \<and> keeps (em g) y \<and> keeps (em g) (place_label l1 y) \<and>
      fresh l1 (jump_to l2 y) \<and> keeps y (jump_to l2 y) \<and> keeps (em g) (place_label l1 (jump_to l2 y))" by blast
  show "fresh l2 z \<and> keeps (em g) (place_label l2 z)" if "keeps (jump_if_zero A0 l1 x) y" "keeps (place_label l1 (jump_to l2 y)) z"
  proof -
    note yy = y [OF that(1)]
    have "fresh l2 z" using fresh_keeps [OF fresh_place [OF _ q(6) [symmetric]] that(2)] yy by blast
    then show ?thesis using keeps_own [OF keeps_trans [OF _ that(2)] _ q(5)] yy by blast
  qed
qed

lemma while_labels:
  assumes l: "label_new g = (l1, g1)" "label_new g1 = (l2, g2)" and x: "keeps (place_label l1 (em g2)) x"
  shows "keeps (em g) (place_label l1 (em g2))" "l2 < nlabels x" "keeps x (jump_if_zero A0 l2 x)" "keeps (em g) (jump_if_zero A0 l2 x)"
    "l1 < nlabels (jump_if_zero A0 l2 x)" "l2 < nlabels (jump_if_zero A0 l2 x)"
    "keeps (jump_if_zero A0 l2 x) y \<Longrightarrow> l1 < nlabels y \<and> keeps y (jump_to l1 y) \<and> fresh l2 (jump_to l1 y) \<and> keeps (em g) (place_label l2 (jump_to l1 y))"
proof -
  note q = labels2 [OF l]
  show a: "keeps (em g) (place_label l1 (em g2))" using keeps_own [OF q(1,2,4)] .
  have f2: "fresh l2 x" using fresh_keeps [OF fresh_place [OF q(3) q(6) [symmetric]] x] .
  have n1: "l1 < nlabels x" using keeps_nl [OF x, of l1] fresh_nl [OF q(2)] by simp
  show "l2 < nlabels x" using fresh_nl [OF f2] .
  then show j: "keeps x (jump_if_zero A0 l2 x)" by (rule jump_keeps)
  show gj: "keeps (em g) (jump_if_zero A0 l2 x)" using keeps_trans [OF keeps_trans [OF a x] j] .
  show n: "l1 < nlabels (jump_if_zero A0 l2 x)" "l2 < nlabels (jump_if_zero A0 l2 x)" using n1 fresh_nl [OF f2] by auto
  show "l1 < nlabels y \<and> keeps y (jump_to l1 y) \<and> fresh l2 (jump_to l1 y) \<and> keeps (em g) (place_label l2 (jump_to l1 y))"
    if y: "keeps (jump_if_zero A0 l2 x) y"
  proof -
    have ny: "l1 < nlabels y" using keeps_nl [OF y n(1)] .
    note jy = jump_keeps(1) [OF ny]
    have "fresh l2 (jump_to l1 y)" using fresh_keeps [OF f2 keeps_trans [OF j keeps_trans [OF y jy]]] .
    then show ?thesis using ny jy keeps_own [OF keeps_trans [OF keeps_trans [OF gj y] jy] _ q(5)] by blast
  qed
qed

text \<open>A loop with a place to continue at: \<open>x\<close> is before the body, \<open>y\<close> behind it, \<open>z\<close> behind the step.\<close>

lemma loop_labels:
  assumes f: "fresh l1 st" "fresh l2 st" "fresh l3 st" "l1 \<noteq> l2" "l1 \<noteq> l3" "l2 \<noteq> l3" "nlabels st0 \<le> l1" "nlabels st0 \<le> l2" "nlabels st0 \<le> l3"
    and st: "keeps st0 st" and x: "keeps (place_label l1 st) x"
  shows "keeps st0 x" "l1 < nlabels x" "l2 < nlabels x" "l3 < nlabels x" "fresh l3 (place_label l1 st)"
    "keeps x y \<Longrightarrow> fresh l2 y \<and> keeps st0 (place_label l2 y)"
    "keeps x y \<Longrightarrow> keeps (place_label l2 y) z \<Longrightarrow> l1 < nlabels z \<and> fresh l3 z \<and> keeps st0 z"
proof -
  have p: "keeps st0 (place_label l1 st)" using keeps_own [OF st f(1,7)] .
  show sx: "keeps st0 x" using keeps_trans [OF p x] .
  show f3: "fresh l3 (place_label l1 st)" using fresh_place [OF f(3) f(5) [symmetric]] .
  have fx: "fresh l2 x" "fresh l3 x" using fresh_keeps [OF fresh_place [OF f(2) f(4) [symmetric]] x] fresh_keeps [OF f3 x] by auto
  show n1: "l1 < nlabels x" using keeps_nl [OF x, of l1] fresh_nl [OF f(1)] by simp
  show "l2 < nlabels x" "l3 < nlabels x" using fx fresh_nl by auto
  have y: "fresh l2 y \<and> fresh l3 y \<and> keeps st0 (place_label l2 y)" if "keeps x y" for y
    using fresh_keeps [OF _ that] fx keeps_own [OF keeps_trans [OF sx that] _ f(8)] by blast
  show "keeps x y \<Longrightarrow> fresh l2 y \<and> keeps st0 (place_label l2 y)" using y by blast
  show "l1 < nlabels z \<and> fresh l3 z \<and> keeps st0 z" if "keeps x y" "keeps (place_label l2 y) z"
  proof -
    have "l1 < nlabels (place_label l2 y)" using keeps_nl [OF that(1) n1] by simp
    then have n: "l1 < nlabels z" by (rule keeps_nl [OF that(2)])
    have "fresh l3 (place_label l2 y)" using fresh_place [of l3 y l2] y [OF that(1)] f(6) by auto
    then show ?thesis using n fresh_keeps [OF _ that(2)] keeps_trans [OF _ that(2)] y [OF that(1)] by blast
  qed
qed

lemma block_keeps:
  assumes "\<And>n g g'. n \<in> set ns \<Longrightarrow> gen_stmt env brk cont n g = Ok g' \<Longrightarrow> has brk (em g) \<Longrightarrow> has cont (em g) \<Longrightarrow> keeps (em g) (em g')"
    and "gen_block env brk cont ns g = Ok g'" "has brk (em g)" "has cont (em g)"
  shows "keeps (em g) (em g')"
  using assms
proof (induction ns arbitrary: g)
  case (Cons n ns)
  obtain g1 where 1: "gen_stmt env brk cont n g = Ok g1" "gen_block env brk cont ns g1 = Ok g'" using Cons.prems(2) by auto
  have k: "keeps (em g) (em g1)" using Cons.prems(1) [OF _ 1(1) Cons.prems(3,4)] by simp
  have "keeps (em g1) (em g')"
    by (rule Cons.IH [OF _ 1(2) has_keeps [OF Cons.prems(3) k] has_keeps [OF Cons.prems(4) k]]) (rule Cons.prems(1), auto)
  with k show ?case by (rule keeps_trans)
qed simp

lemma return_keeps [simp]: "keeps st st' \<Longrightarrow> keeps st (return_code st')"
  by (simp add: return_code_def)

lemma stmt_keeps:
  "plain xs b n \<Longrightarrow> gen_stmt env brk cont n g = Ok g' \<Longrightarrow> has brk (em g) \<Longrightarrow> has cont (em g) \<Longrightarrow> keeps (em g) (em g')"
proof (induction xs b n arbitrary: brk cont g g' rule: plain.induct)
  case (2 xs b e)
  then show ?case by (auto simp: expr_stmt_Ok gen_keeps(2))
next
  case (3 xs b ss)
  have g: "gen_block env brk cont ss g = Ok g'" and p: "\<And>n. n \<in> set ss \<Longrightarrow> plain xs b n" using 3(2,3) by auto
  show ?case by (rule block_keeps [OF 3(1) [OF _ p] g 3(4,5)])
next
  case (4 xs b e)
  then show ?case by (cases e) (auto simp: expr_stmt_Ok gen_keeps(2))
next
  case (5 xs b)
  then show ?case by (auto split: option.splits)
next
  case (6 xs b)
  then show ?case by (auto split: option.splits)
next
  case (7 xs b c x y)
  from gen_if [OF 7(4)] obtain l1 g1 l2 g2 z ga where g: "label_new g = (l1, g1)" "label_new g1 = (l2, g2)" "gen_expr env c (em g2) = Ok z"
    "gen_stmt env brk cont x (g2\<lparr>em := jump_if_zero A0 l1 z\<rparr>) = Ok ga"
    and e: "case y of None \<Rightarrow> em g' = place_label l1 (em ga)
     | Some b \<Rightarrow> \<exists>gb. gen_stmt env brk cont b (on_emit (\<lambda>st. place_label l1 (jump_to l2 st)) ga) = Ok gb \<and> em g' = place_label l2 (em gb)" .
  note q = if_labels [OF g(1,2) gen_keeps(2) [OF g(3)]]
  have hj: "has brk (jump_if_zero A0 l1 z)" "has cont (jump_if_zero A0 l1 z)" using has_keeps [OF _ q(3)] 7(5,6) by auto
  have ka: "keeps (jump_if_zero A0 l1 z) (em ga)" using 7(1) [OF _ g(4)] 7(3) hj by simp
  show ?case
  proof (cases y)
    case None
    then show ?thesis using e q(4) [OF ka] by simp
  next
    case (Some w)
    then obtain gb where gb: "gen_stmt env brk cont w (on_emit (\<lambda>st. place_label l1 (jump_to l2 st)) ga) = Ok gb" "em g' = place_label l2 (em gb)"
      using e by auto
    have kp: "keeps (em g) (place_label l1 (jump_to l2 (em ga)))" using q(4) [OF ka] by blast
    have "keeps (place_label l1 (jump_to l2 (em ga))) (em gb)"
      using 7(2) [OF Some _ gb(1)] 7(3) Some has_keeps [OF _ kp] 7(5,6) by simp
    then show ?thesis using q(5) [OF ka] gb(2) by simp
  qed
next
  case (8 xs b c body)
  from gen_while [OF 8(3)] obtain l1 g1 l2 g2 x g3 where g: "label_new g = (l1, g1)" "label_new g1 = (l2, g2)" "gen_expr env c (place_label l1 (em g2)) = Ok x"
    "gen_stmt env (Some l2) (Some l1) body (g2\<lparr>em := jump_if_zero A0 l2 x\<rparr>) = Ok g3" "em g' = place_label l2 (jump_to l1 (em g3))" .
  note q = while_labels [OF g(1,2) gen_keeps(2) [OF g(3)]]
  have "keeps (jump_if_zero A0 l2 x) (em g3)" using 8(1) [OF _ g(4)] 8(2) q(5,6) by simp
  then show ?case using q(7) g(5) by simp
next
  case (9 xs b body c)
  from gen_do [OF 9(3)] obtain l1 g1 l2 g2 l3 g3 g4 x where g: "label_new g = (l1, g1)" "label_new g1 = (l2, g2)" "label_new g2 = (l3, g3)"
    "gen_stmt env (Some l3) (Some l2) body (on_emit (place_label l1) g3) = Ok g4"
    "gen_expr env c (place_label l2 (em g4)) = Ok x" "em g' = place_label l3 (jump_if_nonzero A0 l1 x)" .
  note q = labels3 [OF g(1-3)]
  note w = loop_labels [OF q(2-4,8-10,5-7,1) keeps_refl]
  have k4: "keeps (place_label l1 (em g3)) (em g4)" using 9(1) [OF _ g(4)] 9(2) w(3,4) by simp
  note z = w(7) [OF k4 gen_keeps(2) [OF g(5)]]
  have j: "keeps x (jump_if_nonzero A0 l1 x)" using z by (intro jump_keeps) simp
  show ?case unfolding g(6) using z fresh_keeps [OF _ j] keeps_trans [OF _ j] q(7) by (blast intro: keeps_own)
next
  case (10 xs b ini c inc body)
  from gen_for [OF 10(4)] obtain l1 g1 l2 g2 l3 g3 g4 x g5 y where g: "label_new g = (l1, g1)" "label_new g1 = (l2, g2)" "label_new g2 = (l3, g3)"
    "gen_opt env (Some l3) (Some l2) ini g3 = Ok g4"
    "guard_code env l3 c (place_label l1 (em g4)) = Ok x"
    "gen_stmt env (Some l3) (Some l2) body (g4\<lparr>em := x\<rparr>) = Ok g5"
    "effect_code env inc (place_label l2 (em g5)) = Ok y" "em g' = place_label l3 (jump_to l1 y)" .
  note q = labels3 [OF g(1-3)]
  have k4: "keeps (em g3) (em g4)"
  proof (cases ini)
    case (Some i)
    then show ?thesis using 10(1) [OF Some _, of "Some l3" "Some l2" g3 g4] 10(3) g(4) q(3,4) fresh_nl by simp
  qed (use g(4) in simp)
  note w0 = loop_labels [OF fresh_keeps [OF q(2) k4] fresh_keeps [OF q(3) k4] fresh_keeps [OF q(4) k4] q(8-10,5-7) keeps_trans [OF q(1) k4]]
  have kx: "keeps (place_label l1 (em g4)) x" using keeps_guard [OF g(5)] w0(4) [OF keeps_refl] by simp
  note w = w0 [OF kx]
  have k5: "keeps x (em g5)" using 10(2) [OF _ g(6)] 10(3) w(3,4) by simp
  note z = w(7) [OF k5 keeps_effect [OF g(7)]]
  have j: "keeps y (jump_to l1 y)" using z by (intro jump_keeps) simp
  show ?case unfolding g(8) using z fresh_keeps [OF _ j] keeps_trans [OF _ j] q(7) by (blast intro: keeps_own)
qed simp_all

section \<open>Where a statement leads\<close>

text \<open>Return: the caller's stack pointer, \<open>s0\<close> and the place to go on at are restored.\<close>

definition returned :: "int \<Rightarrow> int \<Rightarrow> int \<Rightarrow> machine \<Rightarrow> machine \<Rightarrow> bool" where
  "returned F L v m m' \<longleftrightarrow>
     (let ra = W (mem_read 8 (below (regs m 8) 8) (mem m))
      in regs m' 10 = W v \<and> regs m' 2 = regs m 8 \<and> regs m' 8 = W (mem_read 8 (below (regs m 8) 16) (mem m)) \<and>
         regs m' 1 = ra \<and> pc m' = uint (ra AND NOT 1) \<and>
         (\<forall>r. r \<notin> {1, 2, 8, 5, 6, 10, 11, 31} \<longrightarrow> regs m' r = regs m r) \<and> unchanged F F L (regs m 8) (mem m) (mem m'))"

definition arrives :: "emit \<Rightarrow> nat option \<Rightarrow> nat option \<Rightarrow> obj list \<Rightarrow> int \<Rightarrow> int \<Rightarrow> emit \<Rightarrow> outcome \<Rightarrow> store \<Rightarrow> machine \<Rightarrow> machine \<Rightarrow> bool" where
  "arrives fin brk cont xs F L st oc s m m' \<longleftrightarrow>
     (case oc of
        Normal \<Rightarrow> at st m' \<and> frame xs F F s m' \<and> same F F L m m'
      | Brk \<Rightarrow> (\<exists>l. brk = Some l \<and> pc m' = label_pos fin ! l) \<and> frame xs F F s m' \<and> same F F L m m'
      | Cont \<Rightarrow> (\<exists>l. cont = Some l \<and> pc m' = label_pos fin ! l) \<and> frame xs F F s m' \<and> same F F L m m'
      | Ret v \<Rightarrow> returned F L v m m')"

lemma unchanged_read:
  assumes "unchanged F D L fp M M'" "8 \<le> x" "x \<le> 16"
  shows "mem_read 8 (below fp x) M' = mem_read 8 (below fp x) M"
proof (rule read_below_cong)
  fix y :: int assume "x - int 8 < y" "y \<le> x"
  then show "M' (below fp y) = M (below fp y)" using assms unfolding unchanged_def by auto
qed

lemma same_returned:
  assumes "same F F L m m1" "returned F L v m1 m'"
  shows "returned F L v m m'"
proof -
  have fp: "regs m1 8 = regs m 8" using same_fp [OF assms(1)] by simp
  have u: "unchanged F F L (regs m 8) (mem m) (mem m1)" using assms(1) unfolding same_def by simp
  have r: "mem_read 8 (below (regs m 8) 8) (mem m1) = mem_read 8 (below (regs m 8) 8) (mem m)"
    "mem_read 8 (below (regs m 8) 16) (mem m1) = mem_read 8 (below (regs m 8) 16) (mem m)"
    by (rule unchanged_read [OF u]; simp)+
  have "unchanged F F L (regs m 8) (mem m) (mem m')"
    using unchanged_trans [OF u, of F L "mem m'" L] assms(2) fp unfolding returned_def Let_def by simp
  then show ?thesis using assms fp r unfolding returned_def Let_def same_def by simp
qed

lemma same_arrives:
  assumes "same F F L m m1" "arrives fin brk cont xs F L st oc s m1 m'"
  shows "arrives fin brk cont xs F L st oc s m m'"
  using assms(2) same_trans [OF assms(1) _ order_refl order_refl] same_returned [OF assms(1)]
  by (cases oc) (auto simp: arrives_def)

text \<open>The code of a \<open>return\<close>.\<close>

definition return_ins :: "32 word list" where
  "return_ins = [enc_i 0x13 2 0 8 0, enc_i 0x03 1 3 2 (- 8), enc_i 0x03 8 3 2 (- 16)]"

lemma return_all: "return_code st = emit32 (enc_i 0x67 0 0 1 0) (emit_all return_ins st)"
  by (simp add: return_code_def return_ins_def mv_all i_ret_def i_ld_def reg_nums)

lemma exec_ret:
  "exec (enc_i 0x67 0 0 1 0) m = Some (m\<lparr>pc := uint (regs m 1 AND NOT 1)\<rparr>)"
  by (simp add: exec_def Let_def enc_i_fields imm_i_enc to_pc_def set_reg_def reg_def)

lemma return_run:
  assumes fin: "final fin bs" "later (return_code st) fin" "emit_ok st" and m: "at st m" "frame xs F F s m" "regs m 10 = W v"
  shows "\<exists>m'. runs bs m m' \<and> returned F L v m m'"
proof -
  let ?fp = "regs m 8"
  let ?ra = "W (mem_read 8 (below ?fp 8) (mem m))" and ?s0 = "W (mem_read 8 (below ?fp 16) (mem m))"
  let ?m1 = "m\<lparr>regs := (regs m)(2 := ?fp, 1 := ?ra, 8 := ?s0), pc := pc m + 12\<rparr>"
  have a: "?fp + W (- 8) = below ?fp 8" "?fp + W (- 16) = below ?fp 16" by simp_all
  have e: "exec_seq return_ins m = Some ?m1"
    using a by (simp add: return_ins_def exec_imm alu_imm_simps next_set reg_regs exec_load load_mem_def fun_upd_twist)
  have l1: "later (emit32 (enc_i 0x67 0 0 1 0) (emit_all return_ins st)) fin" using fin(2) unfolding return_all .
  have l0: "later (emit_all return_ins st) fin" by (rule keeps_later [OF keeps_emit32 [OF keeps_refl] l1])
  note r1 = runs_seq [OF fin(1) l0 fin(3) m(1) e]
  let ?m2 = "?m1\<lparr>pc := uint (regs ?m1 1 AND NOT 1)\<rparr>"
  have "runs bs ?m1 ?m2" using runs_ins [OF fin(1) l1 ok_seq [OF fin(3)] conjunct2 [OF r1] exec_ret] .
  then have "runs bs m ?m2" using runs_trans [OF conjunct1 [OF r1]] by blast
  moreover have "returned F L v m ?m2" using m(3) unfolding returned_def Let_def by simp
  ultimately show ?thesis by blast
qed

section \<open>Conditions of statements\<close>

lemma plain_run:
  assumes e: "plain_expr xs b e" "ev e s = Some (v, s')" "gen_expr env e st = Ok st'" "emit_ok st" "later st' fin" "final fin bs"
    and m: "at st m" "frame xs F F s m" and L: "F + 16 * int b \<le> L" "L < 2 ^ 63"
  shows "\<exists>m'. runs bs m m' \<and> at st' m' \<and> regs m' 10 = W v \<and> frame xs F F s' m' \<and> same F F L m m'"
proof -
  have "typed xs e" "room F e \<le> L" using e(1) L(1) unfolding plain_expr_def room_def by auto
  then show ?thesis using expr_run [OF _ e(2-6) m _ L(2)] by blast
qed

lemma test_run:
  assumes e: "plain_expr xs b e" "ev e s = Some (v, s')" "gen_expr env e st = Ok x" "emit_ok st" "final fin bs"
    and m: "at st m" "frame xs F F s m" and L: "F + 16 * int b \<le> L" "L < 2 ^ 63"
    and j: "j = (if nz then jump_if_nonzero A0 l x else jump_if_zero A0 l x)" "later j fin" "l < nlabels x"
  shows "\<exists>m'. runs bs m m' \<and> (if (v \<noteq> 0) = nz then pc m' = label_pos fin ! l else at j m') \<and> frame xs F F s' m' \<and> same F F L m m'"
proof -
  have kx: "keeps x j" using j(1,3) by auto
  have ty: "typed xs e" "layout_ok F xs" using e(1) m(2) unfolding plain_expr_def frame_def by auto
  have ran: "int_type (nty e)" "in_range (nty e) v" using typed_int [OF ty] ev_range [OF ty frame_ranges [OF m(2)] e(2)] by auto
  obtain m1 where 1: "runs bs m m1" "at x m1" "regs m1 10 = W v" "frame xs F F s' m1" "same F F L m m1"
    using plain_run [OF e(1-4) keeps_later [OF kx j(2)] e(5) m L] by blast
  have z: "reg m1 A0 = 0 \<longleftrightarrow> v = 0" using W_eq_0 [OF ran] 1(3) by (simp add: reg_def A0_def)
  have r: "reg_no A0" by (simp add: A0_def)
  have ok: "emit_ok x" using ok_gen [OF e(3,4)] .
  have "runs bs m1 (m1\<lparr>pc := if (v \<noteq> 0) = nz then label_pos fin ! l else int (code_len j)\<rparr>)"
    using runs_cond [OF e(5) ok 1(2) j(3) r] j(1,2) z by (cases nz) auto
  moreover have "frame xs F F s' (m1\<lparr>pc := p\<rparr>)" for p by (rule frame_regs [OF 1(4)]) simp_all
  moreover have "same F F L m (m1\<lparr>pc := p\<rparr>)" for p using 1(5) unfolding same_def by simp
  ultimately show ?thesis using runs_trans [OF 1(1)]
    by (intro exI [of _ "m1\<lparr>pc := if (v \<noteq> 0) = nz then label_pos fin ! l else int (code_len j)\<rparr>"]) (auto simp: at_def)
qed

text \<open>A machine that is moved to another place only.\<close>

lemma jump_run:
  assumes "final fin bs" "later (jump_to l st) fin" "emit_ok st" "at st m" "l < nlabels st" "label_pos fin ! l = int (code_len st')"
    and "frame xs F F s m" "same F F L m0 m"
  shows "\<exists>m'. runs bs m m' \<and> at st' m' \<and> frame xs F F s m' \<and> same F F L m0 m'"
proof -
  let ?m = "m\<lparr>pc := int (code_len st')\<rparr>"
  have "runs bs m ?m" using runs_jump [OF assms(1-5)] assms(6) by simp
  moreover have "frame xs F F s ?m" by (rule frame_regs [OF assms(7)]) simp_all
  moreover have "same F F L m0 ?m" using assms(8) unfolding same_def by simp
  ultimately show ?thesis by (intro exI [of _ ?m]) (simp add: at_def)
qed

lemma arrives_stop:
  assumes "arrives fin (Some l) c xs F L y oc s m m'" "stops oc" "label_pos fin ! l = int (code_len st)"
  shows "arrives fin brk cont xs F L st (left oc) s m m'"
  using assms by (cases oc) (auto simp: arrives_def at_def)

lemma arrives_next:
  assumes "arrives fin b (Some l) xs F L y oc s m m'" "\<not> stops oc"
  shows "(at y m' \<or> pc m' = label_pos fin ! l) \<and> frame xs F F s m' \<and> same F F L m m'"
  using assms by (cases oc) (auto simp: arrives_def)

lemma ok_place: "emit_ok st \<Longrightarrow> l < nlabels st \<Longrightarrow> emit_ok (place_label l st)"
  by (rule emits_all_ok [of st]) (auto intro: emits.place)

section \<open>The code of loops in the end\<close>

lemma while_code:
  assumes l: "label_new g = (l1, g1)" "label_new g1 = (l2, g2)" and x: "keeps (place_label l1 (em g2)) x"
    and y: "keeps (jump_if_zero A0 l2 x) y" and fin: "later (place_label l2 (jump_to l1 y)) fin" and ok: "emit_ok (em g)"
  shows "later (jump_to l1 y) fin" "later y fin" "later (jump_if_zero A0 l2 x) fin"
    "emit_ok (place_label l1 (em g2))" "emit_ok (jump_if_zero A0 l2 x)" "emit_ok y"
    "label_pos fin ! l1 = int (code_len (em g))" "label_pos fin ! l2 = int (code_len (jump_to l1 y))"
    "l1 < nlabels y" "l2 < nlabels x" "code_len (place_label l1 (em g2)) = code_len (em g)"
proof -
  note q = labels2 [OF l] and w = while_labels [OF l x]
  have j: "l1 < nlabels y" "keeps y (jump_to l1 y)" "fresh l2 (jump_to l1 y)" using w(7) [OF y] by auto
  show fj: "later (jump_to l1 y) fin" using later_fresh [OF fin j(3)] .
  show fy: "later y fin" using keeps_later [OF j(2) fj] .
  show fz: "later (jump_if_zero A0 l2 x) fin" using keeps_later [OF y fy] .
  show "emit_ok (place_label l1 (em g2))" using keeps_ok [OF w(1) ok] .
  show oz: "emit_ok (jump_if_zero A0 l2 x)" using keeps_ok [OF w(4) ok] .
  show "emit_ok y" using keeps_ok [OF y oz] .
  show "label_pos fin ! l1 = int (code_len (em g))"
    using placed_kept [OF keeps_trans [OF x w(3)] fz fresh_nl [OF q(2)]] q(7) by simp
  show "label_pos fin ! l2 = int (code_len (jump_to l1 y))" using placed_later [OF fin fresh_nl [OF j(3)]] .
  show "l1 < nlabels y" "l2 < nlabels x" "code_len (place_label l1 (em g2)) = code_len (em g)" using j w(2) q(7) by simp_all
qed

text \<open>\<open>j\<close> ends with the jump back.\<close>

lemma loop_code:
  assumes f: "fresh l1 st" "fresh l2 st" "fresh l3 st" "l1 \<noteq> l2" "l1 \<noteq> l3" "l2 \<noteq> l3" "nlabels st0 \<le> l1" "nlabels st0 \<le> l2" "nlabels st0 \<le> l3"
    and st: "keeps st0 st" and x: "keeps (place_label l1 st) x" and y: "keeps x y" and z: "keeps (place_label l2 y) z"
    and j: "j = jump_to l1 z \<or> j = jump_if_nonzero A0 l1 z" and fin: "later (place_label l3 j) fin" and ok: "emit_ok st"
  shows "later j fin" "later z fin" "later y fin" "later x fin" "later (place_label l2 y) fin"
    "emit_ok (place_label l1 st)" "emit_ok x" "emit_ok y" "emit_ok (place_label l2 y)" "emit_ok z"
    "label_pos fin ! l1 = int (code_len st)" "label_pos fin ! l2 = int (code_len y)" "label_pos fin ! l3 = int (code_len j)"
    "l1 < nlabels z" "l2 < nlabels x" "l3 < nlabels x" "l3 < nlabels (place_label l1 st)"
proof -
  note w = loop_labels [OF f st x]
  have zz: "l1 < nlabels z" "fresh l3 z" using w(7) [OF y z] by auto
  have kj: "keeps z j" using j jump_keeps(1,3) [OF zz(1)] by auto
  have fj: "fresh l3 j" using fresh_keeps [OF zz(2) kj] .
  have yy: "fresh l2 y" using w(6) [OF y] by simp
  show lj: "later j fin" using later_fresh [OF fin fj] .
  show lz: "later z fin" using keeps_later [OF kj lj] .
  show lp: "later (place_label l2 y) fin" using keeps_later [OF z lz] .
  show ly: "later y fin" using later_fresh [OF lp yy] .
  show lx: "later x fin" using keeps_later [OF y ly] .
  show op: "emit_ok (place_label l1 st)" using ok_place [OF ok fresh_nl [OF f(1)]] .
  show ox: "emit_ok x" using keeps_ok [OF x op] .
  show oy: "emit_ok y" using keeps_ok [OF y ox] .
  show oq: "emit_ok (place_label l2 y)" using ok_place [OF oy fresh_nl [OF yy]] .
  show "emit_ok z" using keeps_ok [OF z oq] .
  show "label_pos fin ! l1 = int (code_len st)" using placed_kept [OF x lx fresh_nl [OF f(1)]] .
  show "label_pos fin ! l2 = int (code_len y)" using placed_kept [OF z lz fresh_nl [OF yy]] .
  show "label_pos fin ! l3 = int (code_len j)" using placed_later [OF fin fresh_nl [OF fj]] .
  show "l1 < nlabels z" "l2 < nlabels x" "l3 < nlabels x" using zz w(3,4) by auto
  show "l3 < nlabels (place_label l1 st)" using fresh_nl [OF w(5)] .
qed

section \<open>The code of a statement does what the statement does\<close>

text \<open>\<open>L\<close> is how far the stack is used.\<close>

definition deep_enough :: "int \<Rightarrow> nat \<Rightarrow> int \<Rightarrow> bool" where
  "deep_enough F b L \<longleftrightarrow> F + 16 * int b \<le> L \<and> L < 2 ^ 63"

definition carries :: "byte list \<Rightarrow> emit \<Rightarrow> genv \<Rightarrow> obj list \<Rightarrow> int \<Rightarrow> int \<Rightarrow> nat \<Rightarrow> node \<Rightarrow> store \<Rightarrow> outcome \<Rightarrow> store \<Rightarrow> bool" where
  "carries bs fin env xs F L b n s oc s' \<longleftrightarrow>
     (\<forall>brk cont g g' m. plain xs b n \<longrightarrow> gen_stmt env brk cont n g = Ok g' \<longrightarrow> has brk (em g) \<longrightarrow> has cont (em g) \<longrightarrow> emit_ok (em g) \<longrightarrow>
       later (em g') fin \<longrightarrow> at (em g) m \<longrightarrow> frame xs F F s m \<longrightarrow>
       (\<exists>m'. runs bs m m' \<and> arrives fin brk cont xs F L (em g') oc s' m m'))"

lemma carriesD:
  "carries bs fin env xs F L b n s oc s' \<Longrightarrow> plain xs b n \<Longrightarrow> gen_stmt env brk cont n g = Ok g' \<Longrightarrow> has brk (em g) \<Longrightarrow> has cont (em g) \<Longrightarrow>
   emit_ok (em g) \<Longrightarrow> later (em g') fin \<Longrightarrow> at (em g) m \<Longrightarrow> frame xs F F s m \<Longrightarrow>
   \<exists>m'. runs bs m m' \<and> arrives fin brk cont xs F L (em g') oc s' m m'"
  unfolding carries_def by blast

lemma carriesI:
  assumes "\<And>brk cont g g' m. plain xs b n \<Longrightarrow> gen_stmt env brk cont n g = Ok g' \<Longrightarrow> has brk (em g) \<Longrightarrow> has cont (em g) \<Longrightarrow> emit_ok (em g) \<Longrightarrow>
    later (em g') fin \<Longrightarrow> at (em g) m \<Longrightarrow> frame xs F F s m \<Longrightarrow> \<exists>m'. runs bs m m' \<and> arrives fin brk cont xs F L (em g') oc s' m m'"
  shows "carries bs fin env xs F L b n s oc s'"
  unfolding carries_def using assms by blast

lemma carries_expr:
  assumes fin: "final fin bs" and L: "deep_enough F b L" and e: "ev e s = Some (v, s')"
  shows "carries bs fin env xs F L b (ND_EXPR_STMT e) s Normal s'"
proof (rule carriesI)
  fix brk cont g g' m
  assume p: "plain xs b (ND_EXPR_STMT e)" and g: "gen_stmt env brk cont (ND_EXPR_STMT e) g = Ok g'" and o: "emit_ok (em g)" "later (em g') fin"
    and m: "at (em g) m" "frame xs F F s m"
  have "gen_expr env e (em g) = Ok (em g')" "plain_expr xs b e" using g p by (auto simp: expr_stmt_Ok)
  then show "\<exists>m'. runs bs m m' \<and> arrives fin brk cont xs F L (em g') Normal s' m m'"
    using plain_run [OF _ e _ o fin m] L unfolding deep_enough_def arrives_def by fastforce
qed

lemma carries_return:
  assumes fin: "final fin bs" and L: "deep_enough F b L"
    and e: "case e of None \<Rightarrow> v = 0 \<and> s' = s | Some e \<Rightarrow> ev e s = Some (v, s')"
  shows "carries bs fin env xs F L b (ND_RETURN e) s (Ret v) s'"
proof (rule carriesI)
  fix brk cont g g' m
  assume p: "plain xs b (ND_RETURN e)" and g: "gen_stmt env brk cont (ND_RETURN e) g = Ok g'" and o: "emit_ok (em g)" "later (em g') fin"
    and m: "at (em g) m" "frame xs F F s m"
  obtain st where st: "em g' = return_code st" "case e of None \<Rightarrow> st = i_li A0 0 (em g) | Some e \<Rightarrow> gen_expr env e (em g) = Ok st"
    using g by (cases e) (auto simp: expr_stmt_Ok)
  have k: "keeps (em g) st" using st(2) by (cases e) (auto simp: gen_keeps(2))
  have ls: "later st fin" using keeps_later [OF return_keeps [OF keeps_refl] o(2) [unfolded st(1)]] .
  have "\<exists>m1. runs bs m m1 \<and> at st m1 \<and> regs m1 10 = W v \<and> frame xs F F s' m1 \<and> same F F L m m1"
  proof (cases e)
    case None
    have i: "st = emit_all (li_ins 10 0) (em g)" using st(2) None by (simp add: i_li_all A0_def)
    let ?m = "m\<lparr>regs := (regs m)(10 := W 0), pc := pc m + 4 * int (length (li_ins 10 0))\<rparr>"
    have x: "exec_seq (li_ins 10 0) m = Some ?m" by (rule li_run) simp_all
    have "runs bs m ?m \<and> at st ?m" unfolding i by (rule runs_seq [OF fin ls [unfolded i] o(1) m(1) x])
    moreover have "frame xs F F s ?m" by (rule frame_regs [OF m(2)]) simp_all
    moreover have "same F F L m ?m" by (rule same_regs) simp
    ultimately show ?thesis using e None by (intro exI [of _ ?m]) simp
  next
    case (Some x)
    then show ?thesis using plain_run [OF _ _ _ o(1) ls fin m] e st(2) p L unfolding deep_enough_def by (fastforce simp: plain_opt_def)
  qed
  then obtain m1 where 1: "runs bs m m1" "at st m1" "regs m1 10 = W v" "frame xs F F s' m1" "same F F L m m1" by blast
  obtain m2 where 2: "runs bs m1 m2" "returned F L v m1 m2"
    using return_run [OF fin o(2) [unfolded st(1)] keeps_ok [OF k o(1)] 1(2,4,3)] by blast
  show "\<exists>m'. runs bs m m' \<and> arrives fin brk cont xs F L (em g') (Ret v) s' m m'"
    using runs_trans [OF 1(1) 2(1)] same_returned [OF 1(5) 2(2)] unfolding arrives_def by auto
qed

text \<open>\<open>break\<close> and \<open>continue\<close>.\<close>

lemma carries_jump:
  assumes fin: "final fin bs" and n: "n = ND_BREAK \<and> oc = Brk \<or> n = ND_CONTINUE \<and> oc = Cont"
  shows "carries bs fin env xs F L b n s oc s"
proof (rule carriesI)
  fix brk cont g g' m
  assume g: "gen_stmt env brk cont n g = Ok g'" and h: "has brk (em g)" "has cont (em g)" and o: "emit_ok (em g)" "later (em g') fin"
    and m: "at (em g) m" "frame xs F F s m"
  obtain l where l: "em g' = jump_to l (em g)" "oc = Brk \<and> brk = Some l \<or> oc = Cont \<and> cont = Some l"
    using g n by (auto split: option.splits)
  have nl: "l < nlabels (em g)" using l(2) h by auto
  let ?m = "m\<lparr>pc := label_pos fin ! l\<rparr>"
  have "runs bs m ?m" using runs_jump [OF fin o(2) [unfolded l(1)] o(1) m(1) nl] .
  moreover have "frame xs F F s ?m" by (rule frame_regs [OF m(2)]) simp_all
  moreover have "same F F L m ?m" unfolding same_def by simp
  ultimately show "\<exists>m'. runs bs m m' \<and> arrives fin brk cont xs F L (em g') oc s m m'"
    using l(2) unfolding arrives_def by (intro exI [of _ ?m]) auto
qed

lemma arrives_at: "code_len st' = code_len st \<Longrightarrow> arrives fin brk cont xs F L st oc s m m' \<Longrightarrow> arrives fin brk cont xs F L st' oc s m m'"
  by (cases oc) (auto simp: arrives_def at_def)

lemma arrives_other: "oc \<noteq> Normal \<Longrightarrow> arrives fin brk cont xs F L st oc s m m' \<Longrightarrow> arrives fin brk cont xs F L st' oc s m m'"
  by (cases oc) (auto simp: arrives_def)

lemma arrives_normal: "arrives fin brk cont xs F L st Normal s m m' \<longleftrightarrow> at st m' \<and> frame xs F F s m' \<and> same F F L m m'"
  by (simp add: arrives_def)

lemma runs_arrives:
  "runs bs m m1 \<Longrightarrow> same F F L m m1 \<Longrightarrow> \<exists>m'. runs bs m1 m' \<and> arrives fin brk cont xs F L st oc s m1 m' \<Longrightarrow>
   \<exists>m'. runs bs m m' \<and> arrives fin brk cont xs F L st oc s m m'"
  using runs_trans same_arrives by blast

lemma carries_if:
  assumes fin: "final fin bs" and L: "deep_enough F b L" and c: "ev c s = Some (v, s1)"
    and t: "v \<noteq> 0 \<Longrightarrow> carries bs fin env xs F L b x s1 oc s'"
    and f: "v = 0 \<Longrightarrow> case y of None \<Rightarrow> oc = Normal \<and> s' = s1 | Some y \<Rightarrow> carries bs fin env xs F L b y s1 oc s'"
  shows "carries bs fin env xs F L b (ND_IF c x y) s oc s'"
proof (rule carriesI)
  fix brk cont g g' m
  assume p: "plain xs b (ND_IF c x y)" and g: "gen_stmt env brk cont (ND_IF c x y) g = Ok g'" and h: "has brk (em g)" "has cont (em g)"
    and o: "emit_ok (em g)" "later (em g') fin" and m: "at (em g) m" "frame xs F F s m"
  from gen_if [OF g] obtain l1 g1 l2 g2 z ga where gg: "label_new g = (l1, g1)" "label_new g1 = (l2, g2)" "gen_expr env c (em g2) = Ok z"
    "gen_stmt env brk cont x (g2\<lparr>em := jump_if_zero A0 l1 z\<rparr>) = Ok ga"
    and e: "case y of None \<Rightarrow> em g' = place_label l1 (em ga)
     | Some b \<Rightarrow> \<exists>gb. gen_stmt env brk cont b (on_emit (\<lambda>st. place_label l1 (jump_to l2 st)) ga) = Ok gb \<and> em g' = place_label l2 (em gb)" .
  let ?J = "jump_if_zero A0 l1 z" and ?Q = "place_label l1 (jump_to l2 (em ga))"
  note q = if_labels [OF gg(1,2) gen_keeps(2) [OF gg(3)]]
  note lab = labels2 [OF gg(1,2)]
  have hj: "has brk ?J" "has cont ?J" using has_keeps [OF _ q(3)] h by auto
  have px: "plain_expr xs b c" "plain xs b x" using p by auto
  have kk: "keeps ?J (em ga)" using stmt_keeps [OF px(2) gg(4)] hj by simp
  note ka = q(4) [OF kk]
  have oga: "emit_ok (em ga)" "emit_ok ?Q" "emit_ok ?J" "emit_ok (em g2)" using keeps_ok [OF _ o(1)] ka q(3) lab(1) by blast+
  have la: "later (em ga) fin \<and> (\<exists>w. label_pos fin ! l1 = int (code_len w) \<and>
      (y = None \<longrightarrow> code_len w = code_len (em g')) \<and> (y \<noteq> None \<longrightarrow> w = ?Q)) \<and>
      (\<forall>w. y = Some w \<longrightarrow> (\<exists>gb. gen_stmt env brk cont w (on_emit (\<lambda>st. place_label l1 (jump_to l2 st)) ga) = Ok gb \<and>
         em g' = place_label l2 (em gb) \<and> later (em gb) fin \<and> later (jump_to l2 (em ga)) fin \<and> label_pos fin ! l2 = int (code_len (em g'))))"
  proof (cases y)
    case None
    then have g': "em g' = place_label l1 (em ga)" using e by simp
    have f1: "fresh l1 (em ga)" using ka by blast
    show ?thesis using None g' later_fresh [OF o(2) [unfolded g'] f1] placed_later [OF o(2) [unfolded g'] fresh_nl [OF f1]]
      by (intro conjI exI [of _ "em ga"]) simp_all
  next
    case (Some w)
    then obtain gb where gb: "gen_stmt env brk cont w (on_emit (\<lambda>st. place_label l1 (jump_to l2 st)) ga) = Ok gb" "em g' = place_label l2 (em gb)"
      using e by auto
    have kq: "keeps (em g) ?Q" "fresh l1 (jump_to l2 (em ga))" "keeps (em ga) (jump_to l2 (em ga))" using ka by auto
    have kb: "keeps ?Q (em gb)" using stmt_keeps [of xs b w, OF _ gb(1)] p Some has_keeps [OF _ kq(1)] h by simp
    have f2: "fresh l2 (em gb)" using q(5) [OF kk kb] by blast
    have lb: "later (em gb) fin" using later_fresh [OF o(2) [unfolded gb(2)] f2] .
    have lj: "later (jump_to l2 (em ga)) fin" using later_fresh [OF keeps_later [OF kb lb] kq(2)] .
    have "label_pos fin ! l1 = int (code_len ?Q)" using placed_kept [OF kb lb fresh_nl [OF kq(2)]] by simp
    moreover have "label_pos fin ! l2 = int (code_len (em g'))" using placed_later [OF o(2) [unfolded gb(2)] fresh_nl [OF f2]] gb(2) by simp
    ultimately show ?thesis using Some gb lb lj keeps_later [OF kq(3) lj] by (intro conjI exI [of _ ?Q]) simp_all
  qed
  have lJ: "later ?J fin" using keeps_later [OF kk] la by blast
  have m2: "at (em g2) m" using m(1) lab(7) by (simp add: at_def)
  obtain m1 where 1: "runs bs m m1" "if v = 0 then pc m1 = label_pos fin ! l1 else at ?J m1" "frame xs F F s1 m1" "same F F L m m1"
    using test_run [OF px(1) c gg(3) oga(4) fin m2 m(2) _ _ _ lJ q(1), of L False] L unfolding deep_enough_def by auto
  have "\<exists>m'. runs bs m1 m' \<and> arrives fin brk cont xs F L (em g') oc s' m1 m'"
  proof (cases "v = 0")
    case True
    show ?thesis
    proof (cases y)
      case None
      then have "at (em g') m1" using 1(2) True la unfolding at_def by auto
      then show ?thesis using f [OF True] None 1(3) by (intro exI [of _ m1]) (simp add: arrives_def)
    next
      case (Some w)
      then obtain gb where gb: "gen_stmt env brk cont w (on_emit (\<lambda>st. place_label l1 (jump_to l2 st)) ga) = Ok gb" "em g' = place_label l2 (em gb)"
        "later (em gb) fin" using la by auto
      have aQ: "at ?Q m1" using 1(2) True la Some unfolding at_def by auto
      have hq: "has brk ?Q" "has cont ?Q" using has_keeps [of _ "em g" ?Q] ka h by blast+
      have "carries bs fin env xs F L b w s1 oc s'" "plain xs b w" using f [OF True] p Some by auto
      then have "\<exists>m'. runs bs m1 m' \<and> arrives fin brk cont xs F L (em gb) oc s' m1 m'"
        using carriesD [OF _ _ gb(1) _ _ _ gb(3), of bs xs F L b s1 oc s' m1] hq oga(2) aQ 1(3) by simp
      then show ?thesis using arrives_at [of "em g'" "em gb"] gb(2) by auto
    qed
  next
    case False
    then have aJ: "at ?J m1" using 1(2) by simp
    obtain m2 where 2: "runs bs m1 m2" "arrives fin brk cont xs F L (em ga) oc s' m1 m2"
      using carriesD [OF t [OF False] px(2) gg(4), of m1] hj oga(3) la aJ 1(3) by auto
    show ?thesis
    proof (cases "y = None \<or> oc \<noteq> Normal")
      case True
      have "arrives fin brk cont xs F L (em g') oc s' m1 m2"
      proof (cases y)
        case None
        then have "code_len (em g') = code_len (em ga)" using e by simp
        then show ?thesis using arrives_at 2(2) by blast
      qed (use True arrives_other 2(2) in blast)
      then show ?thesis using 2(1) by blast
    next
      case False
      then have y: "y \<noteq> None" "oc = Normal" by auto
      then have lj: "later (jump_to l2 (em ga)) fin" "label_pos fin ! l2 = int (code_len (em g'))" using la by auto
      have n2: "l2 < nlabels (em ga)" using ka fresh_nl by blast
      obtain m3 where "runs bs m2 m3" "at (em g') m3" "frame xs F F s' m3" "same F F L m1 m3"
        using jump_run [OF fin lj(1) oga(1) _ n2 lj(2)] 2(2) unfolding y(2) arrives_normal by blast
      then show ?thesis using runs_trans [OF 2(1)] unfolding y(2) arrives_normal by blast
    qed
  qed
  then show "\<exists>m'. runs bs m m' \<and> arrives fin brk cont xs F L (em g') oc s' m m'" by (rule runs_arrives [OF 1(1,4)])
qed

section \<open>Loops\<close>

text \<open>One round of \<open>while\<close>: out of the loop, or back at its beginning.\<close>

lemma carries_while:
  assumes fin: "final fin bs" and L: "deep_enough F b L" and c: "ev c s = Some (v, s1)"
    and body: "v \<noteq> 0 \<Longrightarrow> carries bs fin env xs F L b body s1 oc s2"
    and out: "v = 0 \<Longrightarrow> oc' = Normal \<and> s' = s1" "v \<noteq> 0 \<Longrightarrow> stops oc \<Longrightarrow> oc' = left oc \<and> s' = s2"
    and again: "v \<noteq> 0 \<Longrightarrow> \<not> stops oc \<Longrightarrow> carries bs fin env xs F L b (ND_WHILE c body) s2 oc' s'"
  shows "carries bs fin env xs F L b (ND_WHILE c body) s oc' s'"
proof (rule carriesI)
  fix brk cont g g' m
  assume p: "plain xs b (ND_WHILE c body)" and g: "gen_stmt env brk cont (ND_WHILE c body) g = Ok g'" and h: "has brk (em g)" "has cont (em g)"
    and o: "emit_ok (em g)" "later (em g') fin" and m: "at (em g) m" "frame xs F F s m"
  from gen_while [OF g] obtain l1 g1 l2 g2 x g3 where gg: "label_new g = (l1, g1)" "label_new g1 = (l2, g2)"
    "gen_expr env c (place_label l1 (em g2)) = Ok x" "gen_stmt env (Some l2) (Some l1) body (g2\<lparr>em := jump_if_zero A0 l2 x\<rparr>) = Ok g3"
    and g': "em g' = place_label l2 (jump_to l1 (em g3))" .
  note w = while_labels [OF gg(1,2) gen_keeps(2) [OF gg(3)]]
  have px: "plain_expr xs b c" "plain xs b body" using p by auto
  have kk: "keeps (jump_if_zero A0 l2 x) (em g3)" using stmt_keeps [OF px(2) gg(4)] w(5,6) by simp
  note q = while_code [OF gg(1,2) gen_keeps(2) [OF gg(3)] kk o(2) [unfolded g'] o(1)]
  have m2: "at (place_label l1 (em g2)) m" using m(1) q(11) by (simp add: at_def)
  obtain m1 where 1: "runs bs m m1" "if v = 0 then pc m1 = label_pos fin ! l2 else at (jump_if_zero A0 l2 x) m1" "frame xs F F s1 m1" "same F F L m m1"
    using test_run [OF px(1) c gg(3) q(4) fin m2 m(2) _ _ _ q(3) q(10), of L False] L unfolding deep_enough_def by auto
  have "\<exists>m'. runs bs m1 m' \<and> arrives fin brk cont xs F L (em g') oc' s' m1 m'"
  proof (cases "v = 0")
    case True
    then show ?thesis using 1(2,3) out(1) q(8) g' by (intro exI [of _ m1]) (simp add: arrives_def at_def)
  next
    case False
    obtain m2 where 2: "runs bs m1 m2" "arrives fin (Some l2) (Some l1) xs F L (em g3) oc s2 m1 m2"
      using carriesD [OF body [OF False] px(2) gg(4), of m1] w(5,6) q(2,5) 1(2,3) False by auto
    show ?thesis
    proof (cases "stops oc")
      case True
      have "label_pos fin ! l2 = int (code_len (em g'))" using q(8) g' by simp
      from arrives_stop [OF 2(2) True this] show ?thesis using 2(1) out(2) [OF False True] by auto
    next
      case go: False
      note n = arrives_next [OF 2(2) go]
      have "\<exists>m3. runs bs m2 m3 \<and> at (em g) m3 \<and> frame xs F F s2 m3 \<and> same F F L m1 m3"
      proof (cases "at (em g3) m2")
        case True
        show ?thesis using jump_run [OF fin q(1,6) True q(9,7)] n by blast
      next
        case False
        then show ?thesis using n q(7) by (intro exI [of _ m2]) (simp add: at_def)
      qed
      then obtain m3 where 3: "runs bs m2 m3" "at (em g) m3" "frame xs F F s2 m3" "same F F L m1 m3" by blast
      from carriesD [OF again [OF False go] p g h o 3(2,3)] show ?thesis by (rule runs_arrives [OF runs_trans [OF 2(1) 3(1)] 3(4)])
    qed
  qed
  then show "\<exists>m'. runs bs m m' \<and> arrives fin brk cont xs F L (em g') oc' s' m m'" by (rule runs_arrives [OF 1(1,4)])
qed

lemma carries_do:
  assumes fin: "final fin bs" and L: "deep_enough F b L" and body: "carries bs fin env xs F L b body s oc s1"
    and c: "\<not> stops oc \<Longrightarrow> ev c s1 = Some (v, s2)"
    and out: "stops oc \<Longrightarrow> oc' = left oc \<and> s' = s1" "\<not> stops oc \<Longrightarrow> v = 0 \<Longrightarrow> oc' = Normal \<and> s' = s2"
    and again: "\<not> stops oc \<Longrightarrow> v \<noteq> 0 \<Longrightarrow> carries bs fin env xs F L b (ND_DO body c) s2 oc' s'"
  shows "carries bs fin env xs F L b (ND_DO body c) s oc' s'"
proof (rule carriesI)
  fix brk cont g g' m
  assume p: "plain xs b (ND_DO body c)" and g: "gen_stmt env brk cont (ND_DO body c) g = Ok g'" and h: "has brk (em g)" "has cont (em g)"
    and o: "emit_ok (em g)" "later (em g') fin" and m: "at (em g) m" "frame xs F F s m"
  from gen_do [OF g] obtain l1 g1 l2 g2 l3 g3 g4 x where gg: "label_new g = (l1, g1)" "label_new g1 = (l2, g2)" "label_new g2 = (l3, g3)"
    "gen_stmt env (Some l3) (Some l2) body (on_emit (place_label l1) g3) = Ok g4"
    "gen_expr env c (place_label l2 (em g4)) = Ok x" and g': "em g' = place_label l3 (jump_if_nonzero A0 l1 x)" .
  note lab = labels3 [OF gg(1-3)]
  note w = loop_labels [OF lab(2-4,8-10,5-7,1) keeps_refl]
  have px: "plain_expr xs b c" "plain xs b body" using p by auto
  have kk: "keeps (place_label l1 (em g3)) (em g4)" using stmt_keeps [OF px(2) gg(4)] w(3,4) by simp
  have o3: "emit_ok (em g3)" using keeps_ok [OF lab(1) o(1)] .
  note q = loop_code [OF lab(2-4,8-10,5-7,1) keeps_refl kk gen_keeps(2) [OF gg(5)] disjI2 [OF refl] o(2) [unfolded g'] o3]
  have a1: "at (place_label l1 (em g3)) m" using m(1) lab(11) by (simp add: at_def)
  obtain m1 where 1: "runs bs m m1" "arrives fin (Some l3) (Some l2) xs F L (em g4) oc s1 m m1"
    using carriesD [OF body px(2) gg(4), of m] w(3,4) q(3,6) a1 m(2) by auto
  show "\<exists>m'. runs bs m m' \<and> arrives fin brk cont xs F L (em g') oc' s' m m'"
  proof (cases "stops oc")
    case True
    have "label_pos fin ! l3 = int (code_len (em g'))" using q(13) g' by simp
    from arrives_stop [OF 1(2) True this] show ?thesis using 1(1) out(1) [OF True] by auto
  next
    case go: False
    note n = arrives_next [OF 1(2) go]
    then have at4: "at (place_label l2 (em g4)) m1" using q(12) by (auto simp: at_def)
    obtain m2 where 2: "runs bs m1 m2" "if v \<noteq> 0 then pc m2 = label_pos fin ! l1 else at (jump_if_nonzero A0 l1 x) m2" "frame xs F F s2 m2"
        "same F F L m1 m2"
      using test_run [OF px(1) c [OF go] gg(5) q(9) fin at4 _ _ _ _ q(1,14), of F L True] n L unfolding deep_enough_def by auto
    have s2: "same F F L m m2" using same_trans [OF _ 2(4) order_refl order_refl] n by blast
    show ?thesis
    proof (cases "v = 0")
      case True
      then have "at (em g') m2" using 2(2) g' by (simp add: at_def)
      then show ?thesis using runs_trans [OF 1(1) 2(1)] out(2) [OF go True] 2(3) s2 by (intro exI [of _ m2]) (simp add: arrives_def)
    next
      case False
      then have "at (em g) m2" using 2(2) q(11) lab(11) by (simp add: at_def)
      from carriesD [OF again [OF go False] p g h o this 2(3)] show ?thesis by (rule runs_arrives [OF runs_trans [OF 1(1) 2(1)] s2])
    qed
  qed
qed

text \<open>The loop of a \<open>for\<close>, behind its initialisation.\<close>

definition cycles :: "byte list \<Rightarrow> emit \<Rightarrow> genv \<Rightarrow> obj list \<Rightarrow> int \<Rightarrow> int \<Rightarrow> nat \<Rightarrow> node option \<Rightarrow> node option \<Rightarrow> node \<Rightarrow> store \<Rightarrow> outcome \<Rightarrow> store \<Rightarrow> bool" where
  "cycles bs fin env xs F L b c inc body s oc s' \<longleftrightarrow>
     (\<forall>brk cont st0 g l1 l2 l3 x g5 y m.
       plain_opt xs b c \<longrightarrow> plain_opt xs b inc \<longrightarrow> plain xs b body \<longrightarrow>
       fresh l1 (em g) \<longrightarrow> fresh l2 (em g) \<longrightarrow> fresh l3 (em g) \<longrightarrow> l1 \<noteq> l2 \<longrightarrow> l1 \<noteq> l3 \<longrightarrow> l2 \<noteq> l3 \<longrightarrow>
       nlabels st0 \<le> l1 \<longrightarrow> nlabels st0 \<le> l2 \<longrightarrow> nlabels st0 \<le> l3 \<longrightarrow> keeps st0 (em g) \<longrightarrow>
       guard_code env l3 c (place_label l1 (em g)) = Ok x \<longrightarrow> gen_stmt env (Some l3) (Some l2) body (g\<lparr>em := x\<rparr>) = Ok g5 \<longrightarrow>
       effect_code env inc (place_label l2 (em g5)) = Ok y \<longrightarrow> emit_ok (em g) \<longrightarrow> later (place_label l3 (jump_to l1 y)) fin \<longrightarrow>
       at (em g) m \<longrightarrow> frame xs F F s m \<longrightarrow>
       (\<exists>m'. runs bs m m' \<and> arrives fin brk cont xs F L (jump_to l1 y) oc s' m m'))"

lemma guard_run:
  assumes "plain_opt xs b c" "guard c s = Some (t, s')" "guard_code env l c st = Ok x" "emit_ok st" "final fin bs" "at st m" "frame xs F F s m"
    and "deep_enough F b L" "later x fin" "l < nlabels st"
  shows "\<exists>m'. runs bs m m' \<and> (if t then at x m' else pc m' = label_pos fin ! l) \<and> frame xs F F s' m' \<and> same F F L m m'"
proof (cases c)
  case None
  then show ?thesis using assms(2,3,6,7) by (intro exI [of _ m]) (simp add: guard_def guard_code_def)
next
  case (Some e)
  obtain v where v: "ev e s = Some (v, s')" "t = (v \<noteq> 0)" using assms(2) Some by (auto simp: guard_def split: option.splits)
  obtain st1 where st1: "gen_expr env e st = Ok st1" "x = jump_if_zero A0 l st1" using assms(3) Some by (auto simp: guard_code_def)
  have "l < nlabels st1" using keeps_nl [OF gen_keeps(2) [OF st1(1)] assms(10)] .
  moreover have "plain_expr xs b e" using assms(1) Some by (simp add: plain_opt_def)
  ultimately show ?thesis
    using test_run [OF _ v(1) st1(1) assms(4,5,6,7), of b L x False l] assms(8,9) st1(2) v(2) unfolding deep_enough_def by auto
qed

lemma effect_run:
  assumes "plain_opt xs b e" "effect e s = Some s'" "effect_code env e st = Ok x" "emit_ok st" "final fin bs" "at st m" "frame xs F F s m"
    and "deep_enough F b L" "later x fin"
  shows "\<exists>m'. runs bs m m' \<and> at x m' \<and> frame xs F F s' m' \<and> same F F L m m'"
proof (cases e)
  case None
  then show ?thesis using assms(2,3,6,7) by (intro exI [of _ m]) (simp add: effect_def effect_code_def)
next
  case (Some e')
  obtain v where v: "ev e' s = Some (v, s')" using assms(2) Some by (auto simp: effect_def)
  show ?thesis
    using plain_run [OF _ v _ assms(4,9,5,6,7)] assms(1,3,8) Some unfolding deep_enough_def by (fastforce simp: plain_opt_def effect_code_def)
qed

lemma cycles_step:
  assumes fin: "final fin bs" and L: "deep_enough F b L" and c: "guard c s = Some (t, s1)"
    and body: "t \<Longrightarrow> carries bs fin env xs F L b body s1 oc s2"
    and out: "\<not> t \<Longrightarrow> oc' = Normal \<and> s' = s1" "t \<Longrightarrow> stops oc \<Longrightarrow> oc' = left oc \<and> s' = s2"
    and again: "t \<Longrightarrow> \<not> stops oc \<Longrightarrow> effect inc s2 = Some s3 \<and> cycles bs fin env xs F L b c inc body s3 oc' s'"
  shows "cycles bs fin env xs F L b c inc body s oc' s'"
  unfolding cycles_def
proof (intro allI impI)
  fix brk cont st0 g l1 l2 l3 x g5 y m
  assume p: "plain_opt xs b c" "plain_opt xs b inc" "plain xs b body"
    and f: "fresh l1 (em g)" "fresh l2 (em g)" "fresh l3 (em g)" "l1 \<noteq> l2" "l1 \<noteq> l3" "l2 \<noteq> l3"
      "nlabels st0 \<le> l1" "nlabels st0 \<le> l2" "nlabels st0 \<le> l3" "keeps st0 (em g)"
    and g: "guard_code env l3 c (place_label l1 (em g)) = Ok x" "gen_stmt env (Some l3) (Some l2) body (g\<lparr>em := x\<rparr>) = Ok g5"
      "effect_code env inc (place_label l2 (em g5)) = Ok y"
    and o: "emit_ok (em g)" "later (place_label l3 (jump_to l1 y)) fin" and m: "at (em g) m" "frame xs F F s m"
  let ?stop = "jump_to l1 y"
  have kx: "keeps (place_label l1 (em g)) x" using keeps_guard [OF g(1)] fresh_nl [OF f(3)] by simp
  note w = loop_labels [OF f kx]
  have k5: "keeps x (em g5)" using stmt_keeps [OF p(3) g(2)] w(3,4) by simp
  note q = loop_code [OF f kx k5 keeps_effect [OF g(3)] disjI1 [OF refl] o(2,1)]
  have a1: "at (place_label l1 (em g)) m" using m(1) by (simp add: at_def)
  obtain m1 where 1: "runs bs m m1" "if t then at x m1 else pc m1 = label_pos fin ! l3" "frame xs F F s1 m1" "same F F L m m1"
    using guard_run [OF p(1) c g(1) q(6) fin a1 m(2) L q(4,17)] by blast
  have "\<exists>m'. runs bs m1 m' \<and> arrives fin brk cont xs F L ?stop oc' s' m1 m'"
  proof (cases t)
    case False
    then show ?thesis using 1(2,3) out(1) q(13) by (intro exI [of _ m1]) (simp add: arrives_def at_def)
  next
    case True
    obtain m2 where 2: "runs bs m1 m2" "arrives fin (Some l3) (Some l2) xs F L (em g5) oc s2 m1 m2"
      using carriesD [OF body [OF True] p(3) g(2), of m1] q(3,7,15,16) 1(2,3) True by auto
    show ?thesis
    proof (cases "stops oc")
      case stop: True
      from arrives_stop [OF 2(2) stop q(13)] show ?thesis using 2(1) out(2) [OF True stop] by auto
    next
      case go: False
      note n = arrives_next [OF 2(2) go]
      then have a5: "at (place_label l2 (em g5)) m2" using q(12) by (auto simp: at_def)
      have inc: "effect inc s2 = Some s3" "cycles bs fin env xs F L b c inc body s3 oc' s'" using again [OF True go] by auto
      obtain m3 where 3: "runs bs m2 m3" "at y m3" "frame xs F F s3 m3" "same F F L m2 m3"
        using effect_run [OF p(2) inc(1) g(3) q(9) fin a5 _ L q(2)] n by blast
      have s3: "same F F L m1 m3" using same_trans [OF _ 3(4) order_refl order_refl] n by blast
      obtain m4 where 4: "runs bs m3 m4" "at (em g) m4" "frame xs F F s3 m4" "same F F L m1 m4"
        using jump_run [OF fin q(1,10) 3(2) q(14,11) 3(3) s3] by blast
      have "\<exists>m'. runs bs m4 m' \<and> arrives fin brk cont xs F L ?stop oc' s' m4 m'"
        using inc(2) p f g o 4(2,3) unfolding cycles_def by blast
      then show ?thesis by (rule runs_arrives [OF runs_trans [OF 2(1) runs_trans [OF 3(1) 4(1)]] 4(4)])
    qed
  qed
  then show "\<exists>m'. runs bs m m' \<and> arrives fin brk cont xs F L ?stop oc' s' m m'" by (rule runs_arrives [OF 1(1,4)])
qed

lemma carries_for:
  assumes fin: "final fin bs" and ini: "case ini of None \<Rightarrow> s1 = s | Some n \<Rightarrow> carries bs fin env xs F L b n s Normal s1"
    and loop: "cycles bs fin env xs F L b c inc body s1 oc s'"
  shows "carries bs fin env xs F L b (ND_FOR ini c inc body) s oc s'"
proof (rule carriesI)
  fix brk cont g g' m
  assume p: "plain xs b (ND_FOR ini c inc body)" and g: "gen_stmt env brk cont (ND_FOR ini c inc body) g = Ok g'"
    and h: "has brk (em g)" "has cont (em g)" and o: "emit_ok (em g)" "later (em g') fin" and m: "at (em g) m" "frame xs F F s m"
  from gen_for [OF g] obtain l1 g1 l2 g2 l3 g3 g4 x g5 y where gg: "label_new g = (l1, g1)" "label_new g1 = (l2, g2)" "label_new g2 = (l3, g3)"
    "gen_opt env (Some l3) (Some l2) ini g3 = Ok g4" "guard_code env l3 c (place_label l1 (em g4)) = Ok x"
    "gen_stmt env (Some l3) (Some l2) body (g4\<lparr>em := x\<rparr>) = Ok g5"
    "effect_code env inc (place_label l2 (em g5)) = Ok y" and g': "em g' = place_label l3 (jump_to l1 y)" .
  note q = labels3 [OF gg(1-3)]
  have pp: "plain_opt xs b c" "plain_opt xs b inc" "plain xs b body" using p by auto
  have k4: "keeps (em g3) (em g4)"
  proof (cases ini)
    case (Some i)
    then show ?thesis using stmt_keeps [of xs b i env "Some l3" "Some l2" g3 g4] p gg(4) q(3,4) fresh_nl by simp
  qed (use gg(4) in simp)
  have f: "fresh l1 (em g4)" "fresh l2 (em g4)" "fresh l3 (em g4)" using fresh_keeps [OF _ k4] q(2-4) by auto
  have k0: "keeps (em g) (em g4)" using keeps_trans [OF q(1) k4] .
  have o3: "emit_ok (em g3)" "emit_ok (em g4)" using keeps_ok [OF _ o(1)] q(1) k0 by auto
  have kx: "keeps (place_label l1 (em g4)) x" using keeps_guard [OF gg(5)] fresh_nl [OF f(3)] by simp
  note w = loop_labels [OF f q(8-10,5-7) k0 kx]
  have k5: "keeps x (em g5)" using stmt_keeps [OF pp(3) gg(6)] w(3,4) by simp
  note qq = loop_code [OF f q(8-10,5-7) k0 kx k5 keeps_effect [OF gg(7)] disjI1 [OF refl] o(2) [unfolded g'] o3(2)]
  have l4: "later (em g4) fin" using later_fresh [OF keeps_later [OF kx qq(4)] f(1)] .
  have a3: "at (em g3) m" using m(1) q(11) by (simp add: at_def)
  obtain m1 where 1: "runs bs m m1" "at (em g4) m1" "frame xs F F s1 m1" "same F F L m m1"
  proof (cases ini)
    case None
    then have "g4 = g3" "s1 = s" using gg(4) ini by simp_all
    then show ?thesis using that [of m] a3 m(2) by simp
  next
    case (Some i)
    then have i: "gen_stmt env (Some l3) (Some l2) i g3 = Ok g4" "plain xs b i" "carries bs fin env xs F L b i s Normal s1" using gg(4) ini p by simp_all
    show ?thesis using carriesD [OF i(3,2,1) _ _ o3(1) l4 a3 m(2)] fresh_nl [OF q(3)] fresh_nl [OF q(4)] that by (auto simp: arrives_normal)
  qed
  have "\<exists>m'. runs bs m1 m' \<and> arrives fin brk cont xs F L (jump_to l1 y) oc s' m1 m'"
    using loop pp f q(5-10) k0 gg(5-7) o3(2) o(2) 1(2,3) unfolding cycles_def g' by blast
  then have "\<exists>m'. runs bs m1 m' \<and> arrives fin brk cont xs F L (em g') oc s' m1 m'"
    using arrives_at [of "em g'" "jump_to l1 y"] g' by auto
  then show "\<exists>m'. runs bs m m' \<and> arrives fin brk cont xs F L (em g') oc s' m m'" by (rule runs_arrives [OF 1(1,4)])
qed

section \<open>Blocks, and all statements\<close>

definition carries_all :: "byte list \<Rightarrow> emit \<Rightarrow> genv \<Rightarrow> obj list \<Rightarrow> int \<Rightarrow> int \<Rightarrow> nat \<Rightarrow> node list \<Rightarrow> store \<Rightarrow> outcome \<Rightarrow> store \<Rightarrow> bool" where
  "carries_all bs fin env xs F L b ns s oc s' \<longleftrightarrow>
     (\<forall>brk cont g g' m. (\<forall>n\<in>set ns. plain xs b n) \<longrightarrow> gen_block env brk cont ns g = Ok g' \<longrightarrow> has brk (em g) \<longrightarrow> has cont (em g) \<longrightarrow>
       emit_ok (em g) \<longrightarrow> later (em g') fin \<longrightarrow> at (em g) m \<longrightarrow> frame xs F F s m \<longrightarrow>
       (\<exists>m'. runs bs m m' \<and> arrives fin brk cont xs F L (em g') oc s' m m'))"

lemma carries_block: "carries_all bs fin env xs F L b ss s oc s' \<Longrightarrow> carries bs fin env xs F L b (ND_BLOCK ss) s oc s'"
  unfolding carries_all_def carries_def by simp

lemma carries_null: "carries bs fin env xs F L b ND_NULL s Normal s"
proof (rule carriesI)
  fix brk cont g g' m
  assume "gen_stmt env brk cont ND_NULL g = Ok g'" "at (em g) m" "frame xs F F s m"
  then show "\<exists>m'. runs bs m m' \<and> arrives fin brk cont xs F L (em g') Normal s m m'"
    by (intro exI [of _ m]) (simp add: arrives_normal)
qed

lemma carries_all_nil: "carries_all bs fin env xs F L b [] s Normal s"
  unfolding carries_all_def
proof (intro allI impI)
  fix brk cont g g' m
  assume "gen_block env brk cont [] g = Ok g'" "at (em g) m" "frame xs F F s m"
  then show "\<exists>m'. runs bs m m' \<and> arrives fin brk cont xs F L (em g') Normal s m m'"
    by (intro exI [of _ m]) (simp add: arrives_normal)
qed

lemma carries_all_cons:
  assumes n: "carries bs fin env xs F L b n s oc1 s1"
    and r: "if oc1 = Normal then carries_all bs fin env xs F L b ns s1 oc s' else oc = oc1 \<and> s' = s1"
  shows "carries_all bs fin env xs F L b (n # ns) s oc s'"
  unfolding carries_all_def
proof (intro allI impI)
  fix brk cont g g' m
  assume p: "\<forall>n\<in>set (n # ns). plain xs b n" and g: "gen_block env brk cont (n # ns) g = Ok g'" and h: "has brk (em g)" "has cont (em g)"
    and o: "emit_ok (em g)" "later (em g') fin" and m: "at (em g) m" "frame xs F F s m"
  obtain g1 where 1: "gen_stmt env brk cont n g = Ok g1" "gen_block env brk cont ns g1 = Ok g'" using g by auto
  have pn: "plain xs b n" "\<And>x. x \<in> set ns \<Longrightarrow> plain xs b x" using p by auto
  have k1: "keeps (em g) (em g1)" using stmt_keeps [OF pn(1) 1(1) h] .
  note h1 = has_keeps [OF h(1) k1] has_keeps [OF h(2) k1]
  have k2: "keeps (em g1) (em g')" by (rule block_keeps [OF stmt_keeps [OF pn(2)] 1(2) h1])
  have l1: "later (em g1) fin" using keeps_later [OF k2 o(2)] .
  obtain m1 where m1: "runs bs m m1" "arrives fin brk cont xs F L (em g1) oc1 s1 m m1"
    using carriesD [OF n pn(1) 1(1) h o(1) l1 m] by blast
  show "\<exists>m'. runs bs m m' \<and> arrives fin brk cont xs F L (em g') oc s' m m'"
  proof (cases "oc1 = Normal")
    case True
    then have a: "at (em g1) m1" "frame xs F F s1 m1" "same F F L m m1" using m1(2) by (simp_all add: arrives_normal)
    have rr: "carries_all bs fin env xs F L b ns s1 oc s'" "\<forall>x\<in>set ns. plain xs b x" using r True pn(2) by auto
    have "\<exists>m'. runs bs m1 m' \<and> arrives fin brk cont xs F L (em g') oc s' m1 m'"
      using rr 1(2) h1 keeps_ok [OF k1 o(1)] o(2) a(1,2) unfolding carries_all_def by blast
    then show ?thesis by (rule runs_arrives [OF m1(1) a(3)])
  next
    case False
    then show ?thesis using r m1 arrives_other by auto
  qed
qed

lemma stmt_carries:
  assumes fin: "final fin bs" and L: "deep_enough F b L"
  shows "does n s oc s' \<Longrightarrow> carries bs fin env xs F L b n s oc s'"
    and "loops c inc body s oc s' \<Longrightarrow> cycles bs fin env xs F L b c inc body s oc s'"
    and "does_all ns s oc s' \<Longrightarrow> carries_all bs fin env xs F L b ns s oc s'"
proof (induction rule: does_loops_does_all.inducts)
  case (null s)
  show ?case by (rule carries_null)
next
  case (expr e s v s')
  then show ?case by (rule carries_expr [OF fin L])
next
  case (block ss s oc s')
  then show ?case by (simp add: carries_block)
next
  case (return e s v s')
  then show ?case by (intro carries_return [OF fin L]) simp
next
  case (return_none s)
  show ?case by (intro carries_return [OF fin L]) simp
next
  case (brk s)
  show ?case by (intro carries_jump [OF fin]) simp
next
  case (cont s)
  show ?case by (intro carries_jump [OF fin]) simp
next
  case (if_true c s v s1 a oc s' b)
  show ?case by (rule carries_if [OF fin L if_true(1)]) (use if_true in simp_all)
next
  case (if_false c s s1 b oc s' a)
  show ?case by (rule carries_if [OF fin L if_false(1)]) (use if_false in simp_all)
next
  case (if_none c s s1 a)
  show ?case by (rule carries_if [OF fin L if_none(1)]) (use if_none in simp_all)
next
  case (while_end c s s1 body)
  show ?case by (rule carries_while [OF fin L while_end(1)]) (use while_end in simp_all)
next
  case (while_stop c s v s1 body oc s2)
  show ?case by (rule carries_while [OF fin L while_stop(1), where oc = oc and ?s2.0 = s2]) (use while_stop in simp_all)
next
  case (while_next c s v s1 body oc s2 oc' s3)
  show ?case by (rule carries_while [OF fin L while_next(1), where oc = oc and ?s2.0 = s2]) (use while_next in simp_all)
next
  case (do_stop body s oc s1 c)
  show ?case by (rule carries_do [OF fin L, where oc = oc and ?s1.0 = s1]) (use do_stop in simp_all)
next
  case (do_end body s oc s1 c s2)
  show ?case by (rule carries_do [OF fin L, where oc = oc and ?s1.0 = s1 and v = 0 and ?s2.0 = s2]) (use do_end in simp_all)
next
  case (do_next body s oc s1 c v s2 oc' s3)
  show ?case by (rule carries_do [OF fin L, where oc = oc and ?s1.0 = s1 and v = v and ?s2.0 = s2]) (use do_next in simp_all)
next
  case (for_none c inc body s oc s')
  then show ?case by (intro carries_for [OF fin, where ?s1.0 = s]) simp_all
next
  case (for_init ini s s1 c inc body oc s')
  then show ?case by (intro carries_for [OF fin, where ?s1.0 = s1]) simp_all
next
  case (loop_end c s s1 inc body)
  show ?case by (rule cycles_step [OF fin L loop_end(1)]) (use loop_end in simp_all)
next
  case (loop_stop c s s1 body oc s2 inc)
  show ?case by (rule cycles_step [OF fin L loop_stop(1), where oc = oc and ?s2.0 = s2]) (use loop_stop in simp_all)
next
  case (loop_next c s s1 body oc s2 inc s3 oc' s4)
  show ?case by (rule cycles_step [OF fin L loop_next(1), where oc = oc and ?s2.0 = s2 and ?s3.0 = s3]) (use loop_next in simp_all)
next
  case (all_nil s)
  show ?case by (rule carries_all_nil)
next
  case (all_stop n s oc s' ns)
  then show ?case by (intro carries_all_cons [where ?oc1.0 = oc and ?s1.0 = s']) simp_all
next
  case (all_next n s s1 ns oc s')
  then show ?case by (intro carries_all_cons [where ?oc1.0 = Normal and ?s1.0 = s1]) simp_all
qed

end
