(* ===== verification/Cc_Func.thy ===== *)
theory Cc_Func
  imports Cc_Stmt
begin

text \<open>
  Functions: the prologue builds the frame and stores the arguments in their variables, the body
  runs in it, and the epilogue gives the caller its registers back. So the code of a function
  does what its body does, from any place it is called from.
\<close>

section \<open>The prologue\<close>

fun param_ins :: "nat \<Rightarrow> obj list \<Rightarrow> 32 word list" where
  "param_ins i [] = []"
| "param_ins i (v # ps) = (addi_ins 5 8 (- o_offset v) @ [enc_s 0x23 3 5 (10 + int i) 0]) @ param_ins (Suc i) ps"

definition enter_ins :: "int \<Rightarrow> 32 word list" where
  "enter_ins f = [enc_i 0x13 5 0 8 0] @ addi_ins 2 2 (- f) @ addi_ins 8 2 f @ [enc_s 0x23 3 8 1 (- 8), enc_s 0x23 3 8 5 (- 16)]"

lemma store_params_all: "store_params i (map Some ps) st = Ok (emit_all (param_ins i ps) st)"
  by (induction ps arbitrary: i st) (simp_all add: i_addi_all i_sd_def reg_nums)

lemma prologue_all:
  assumes "\<not> fn_variadic fn" "fn_params fn = map Some ps"
  shows "emit_prologue fn st = Ok (emit_all (enter_ins (fn_frame_size fn) @ param_ins 0 ps) st)"
  using assms by (simp add: emit_prologue_def store_params_all Let_def enter_ins_def mv_all i_addi_all i_sd_def reg_nums)

lemma exec_sd:
  assumes "reg_no rs1" "reg_no rs2" "rs1 \<noteq> 0" "rs2 \<noteq> 0" "- 2048 \<le> imm" "imm < 2048"
  shows "exec (enc_s 0x23 3 rs1 rs2 imm) m =
    Some (m\<lparr>pc := pc m + 4, mem := mem_write 8 (regs m rs1 + W imm) (uint (regs m rs2)) (mem m)\<rparr>)"
  using assms by (simp add: exec_store store_mem_def next_mem reg_regs)

text \<open>The stack pointer and \<open>s0\<close> are set, and the return address and the caller's \<open>s0\<close> are saved.\<close>

lemma enter_run:
  assumes F: "16 \<le> F" "F < 2 ^ 63"
  shows "\<exists>m'. exec_seq (enter_ins F) m = Some m' \<and> regs m' 8 = regs m 2 \<and> regs m' 2 = below (regs m 2) F \<and>
    (\<forall>r. r \<notin> {2, 8, 5, 31} \<longrightarrow> regs m' r = regs m r) \<and>
    W (mem_read 8 (below (regs m 2) 8) (mem m')) = regs m 1 \<and> W (mem_read 8 (below (regs m 2) 16) (mem m')) = regs m 8 \<and>
    (\<forall>y. 0 \<le> y \<and> y < 2 ^ 64 \<and> (y = 0 \<or> 16 < y) \<longrightarrow> mem m' (below (regs m 2) y) = mem m (below (regs m 2) y))"
proof -
  let ?sp = "regs m 2"
  let ?m1 = "m\<lparr>regs := (regs m)(5 := regs m 8), pc := pc m + 4\<rparr>"
  have 1: "exec_seq [enc_i 0x13 5 0 8 0] m = Some ?m1" by (rule mv_run) simp_all
  obtain R2 where 2: "exec_seq (addi_ins 2 2 (- F)) ?m1 = Some (?m1\<lparr>regs := R2, pc := pc ?m1 + 4 * int (length (addi_ins 2 2 (- F)))\<rparr>)"
      "R2 2 = ?sp + W (- F)" "\<forall>r. r \<noteq> 2 \<and> r \<noteq> 31 \<longrightarrow> R2 r = regs ?m1 r"
    using addi_run [of 2 2 "- F" ?m1] by auto
  let ?m2 = "?m1\<lparr>regs := R2, pc := pc ?m1 + 4 * int (length (addi_ins 2 2 (- F)))\<rparr>"
  obtain R3 where 3: "exec_seq (addi_ins 8 2 F) ?m2 = Some (?m2\<lparr>regs := R3, pc := pc ?m2 + 4 * int (length (addi_ins 8 2 F))\<rparr>)"
      "R3 8 = regs ?m2 2 + W F" "\<forall>r. r \<noteq> 8 \<and> r \<noteq> 31 \<longrightarrow> R3 r = regs ?m2 r"
    using addi_run [of 8 2 F ?m2] by auto
  let ?m3 = "?m2\<lparr>regs := R3, pc := pc ?m2 + 4 * int (length (addi_ins 8 2 F))\<rparr>"
  have r3: "R3 8 = ?sp" "R3 2 = below ?sp F" "R3 1 = regs m 1" "R3 5 = regs m 8" "r \<notin> {2, 8, 5, 31} \<Longrightarrow> R3 r = regs m r" for r
    using 2(2,3) 3(2,3) by simp_all
  let ?M1 = "mem_write 8 (below ?sp 8) (uint (regs m 1)) (mem m)"
  let ?M2 = "mem_write 8 (below ?sp 16) (uint (regs m 8)) ?M1"
  let ?m4 = "?m3\<lparr>pc := pc ?m3 + 8, mem := ?M2\<rparr>"
  have a: "?sp + W (- 8) = below ?sp 8" "?sp + W (- 16) = below ?sp 16" by simp_all
  have 4: "exec_seq [enc_s 0x23 3 8 1 (- 8), enc_s 0x23 3 8 5 (- 16)] ?m3 = Some ?m4"
    using a by (simp add: exec_sd r3)
  have 5: "exec_seq (enter_ins F) m = Some ?m4" unfolding enter_ins_def by (rule seq_run [OF 1 seq_run [OF 2(1) seq_run [OF 3(1) 4]]])
  have w: "W (uint w mod 256 ^ 8) = w" for w :: "64 word"
  proof -
    have "uint w mod 256 ^ 8 = uint w" using uint_lt2p [of w] by (intro mod_pos_pos_trivial) simp_all
    then show ?thesis by simp
  qed
  have "mem_read 8 (below ?sp 16) ?M2 = uint (regs m 8) mod 256 ^ 8" by (rule mem_read_write) simp_all
  then have s16: "W (mem_read 8 (below ?sp 16) ?M2) = regs m 8" using w by simp
  have "mem_read 8 (below ?sp 8) ?M2 = mem_read 8 (below ?sp 8) ?M1" by (rule read_write_below_other) simp_all
  also have "\<dots> = uint (regs m 1) mod 256 ^ 8" by (rule mem_read_write) simp_all
  finally have s8: "W (mem_read 8 (below ?sp 8) ?M2) = regs m 1" using w by simp
  have "?M2 (below ?sp y) = mem m (below ?sp y)" if y: "0 \<le> y" "y < 2 ^ 64" "y = 0 \<or> 16 < y" for y
  proof -
    have "?M2 (below ?sp y) = ?M1 (below ?sp y)" by (rule write_below_other) (use y in auto)
    also have "\<dots> = mem m (below ?sp y)" by (rule write_below_other) (use y in auto)
    finally show ?thesis .
  qed
  then show ?thesis using 5 r3 s8 s16 by (intro exI [of _ ?m4]) simp
qed

text \<open>The arguments: the value of a parameter is the value of its register, converted to its type.\<close>

definition slot :: "int \<Rightarrow> obj \<Rightarrow> bool" where
  "slot F x \<longleftrightarrow> int_type (o_ty x) \<and> 24 \<le> o_offset x \<and> o_offset x \<le> F \<and> 8 dvd o_offset x"

lemma param_store:
  assumes "i < 8"
  shows "\<exists>m'. exec_seq (addi_ins 5 8 (- o_offset v) @ [enc_s 0x23 3 5 (10 + int i) 0]) m = Some m' \<and>
    (\<forall>r. r \<notin> {5, 31} \<longrightarrow> regs m' r = regs m r) \<and>
    mem m' = mem_write 8 (below (regs m 8) (o_offset v)) (uint (regs m (10 + int i))) (mem m)"
proof -
  obtain R where 1: "exec_seq (addi_ins 5 8 (- o_offset v)) m = Some (m\<lparr>regs := R, pc := pc m + 4 * int (length (addi_ins 5 8 (- o_offset v)))\<rparr>)"
      "R 5 = regs m 8 + W (- o_offset v)" "\<forall>r. r \<noteq> 5 \<and> r \<noteq> 31 \<longrightarrow> R r = regs m r"
    using addi_run [of 5 8 "- o_offset v" m] by auto
  let ?m1 = "m\<lparr>regs := R, pc := pc m + 4 * int (length (addi_ins 5 8 (- o_offset v)))\<rparr>"
  let ?m2 = "?m1\<lparr>pc := pc ?m1 + 4, mem := mem_write 8 (below (regs m 8) (o_offset v)) (uint (regs m (10 + int i))) (mem m)\<rparr>"
  have a: "R (10 + int i) = regs m (10 + int i)" using assms 1(3) by auto
  have r: "reg_no (10 + int i)" using assms by (simp add: take_bit_int_eq_self)
  have "exec (enc_s 0x23 3 5 (10 + int i) 0) ?m1 = Some ?m2"
    using exec_sd [OF _ r, of 5 0 ?m1] 1(2) a by simp
  then have 2: "exec_seq [enc_s 0x23 3 5 (10 + int i) 0] ?m1 = Some ?m2" by simp
  show ?thesis using seq_run [OF 1(1) 2] 1(3) by (intro exI [of _ ?m2]) simp
qed

lemma slot_write:
  fixes w :: "64 word" and M :: memory and fp :: "64 word"
  assumes v: "slot F v" and F: "F < 2 ^ 63"
  defines "M' \<equiv> mem_write 8 (below fp (o_offset v)) (uint w) M"
  shows "mem_value (o_ty v) (below fp (o_offset v)) M' = wrap (o_ty v) (uint w)"
    and "slot F x \<Longrightarrow> o_offset x \<noteq> o_offset v \<Longrightarrow> mem_value (o_ty x) (below fp (o_offset x)) M' = mem_value (o_ty x) (below fp (o_offset x)) M"
    and "0 \<le> y \<Longrightarrow> y < 2 ^ 64 \<Longrightarrow> y \<le> 16 \<or> F < y \<Longrightarrow> M' (below fp y) = M (below fp y)"
proof -
  have ov: "int_type (o_ty v)" "24 \<le> o_offset v" "o_offset v \<le> F" "8 dvd o_offset v" using v unfolding slot_def by blast+
  have n: "nat (ty_size (o_ty v)) \<le> 8" using int_type_size [OF ov(1)] by auto
  have t: "take_bit (width (o_ty v)) (uint w mod 256 ^ nat (ty_size (o_ty v))) = take_bit (width (o_ty v)) (uint w)"
    by (simp add: take_bit_eq_mod width_def power_mult)
  have "mem_read (nat (ty_size (o_ty v))) (below fp (o_offset v)) M' = uint w mod 256 ^ nat (ty_size (o_ty v))"
    unfolding M'_def using n by (rule mem_read_write) simp
  then show "mem_value (o_ty v) (below fp (o_offset v)) M' = wrap (o_ty v) (uint w)"
    unfolding mem_value_def using wrap_cong [OF ov(1) t] by simp
  show "mem_value (o_ty x) (below fp (o_offset x)) M' = mem_value (o_ty x) (below fp (o_offset x)) M"
    if x: "slot F x" "o_offset x \<noteq> o_offset v"
  proof -
    have ox: "int_type (o_ty x)" "24 \<le> o_offset x" "o_offset x \<le> F" "8 dvd o_offset x" using x(1) unfolding slot_def by blast+
    have nx: "int (nat (ty_size (o_ty x))) \<le> 8" using int_type_size [OF ox(1)] by auto
    have apart: "o_offset x + 8 \<le> o_offset v \<or> o_offset v + 8 \<le> o_offset x" using x(2) ox(4) ov(4) by (auto elim!: dvdE)
    have "mem_read (nat (ty_size (o_ty x))) (below fp (o_offset x)) M' = mem_read (nat (ty_size (o_ty x))) (below fp (o_offset x)) M"
      unfolding M'_def by (rule read_write_below_other) (use nx apart ox ov F in auto)
    then show ?thesis unfolding mem_value_def by (rule arg_cong)
  qed
  show "M' (below fp y) = M (below fp y)" if "0 \<le> y" "y < 2 ^ 64" "y \<le> 16 \<or> F < y"
    unfolding M'_def by (rule write_below_other) (use that ov F in auto)
qed

lemma params_run:
  assumes "\<forall>v\<in>set ps. slot F v" "F < 2 ^ 63" "distinct (map o_offset ps)" "i + length ps \<le> 8"
  shows "\<exists>m'. exec_seq (param_ins i ps) m = Some m' \<and> (\<forall>r. r \<notin> {5, 31} \<longrightarrow> regs m' r = regs m r) \<and>
    (\<forall>j<length ps. mem_value (o_ty (ps ! j)) (below (regs m 8) (o_offset (ps ! j))) (mem m') = wrap (o_ty (ps ! j)) (uint (regs m (10 + int (i + j))))) \<and>
    (\<forall>x. slot F x \<and> o_offset x \<notin> o_offset ` set ps \<longrightarrow>
      mem_value (o_ty x) (below (regs m 8) (o_offset x)) (mem m') = mem_value (o_ty x) (below (regs m 8) (o_offset x)) (mem m)) \<and>
    (\<forall>y. 0 \<le> y \<and> y < 2 ^ 64 \<and> (y \<le> 16 \<or> F < y) \<longrightarrow> mem m' (below (regs m 8) y) = mem m (below (regs m 8) y))"
  using assms
proof (induction ps arbitrary: i m)
  case Nil
  then show ?case by (intro exI [of _ m]) simp
next
  case (Cons v ps)
  let ?fp = "regs m 8"
  have v: "slot F v" "\<forall>v\<in>set ps. slot F v" "o_offset v \<notin> o_offset ` set ps" "distinct (map o_offset ps)" "Suc i + length ps \<le> 8" "i < 8"
    using Cons.prems by auto
  obtain m1 where 1: "exec_seq (addi_ins 5 8 (- o_offset v) @ [enc_s 0x23 3 5 (10 + int i) 0]) m = Some m1"
      "\<forall>r. r \<notin> {5, 31} \<longrightarrow> regs m1 r = regs m r" "mem m1 = mem_write 8 (below ?fp (o_offset v)) (uint (regs m (10 + int i))) (mem m)"
    using param_store [OF v(6)] by blast
  note w = slot_write [OF v(1) Cons.prems(2), where fp = ?fp and w = "regs m (10 + int i)" and M = "mem m", folded 1(3)]
  have fp: "regs m1 8 = ?fp" using 1(2) by simp
  obtain m2 where 2: "exec_seq (param_ins (Suc i) ps) m1 = Some m2" "\<forall>r. r \<notin> {5, 31} \<longrightarrow> regs m2 r = regs m1 r"
    "\<forall>j<length ps. mem_value (o_ty (ps ! j)) (below ?fp (o_offset (ps ! j))) (mem m2) = wrap (o_ty (ps ! j)) (uint (regs m1 (10 + int (Suc i + j))))"
    "\<forall>x. slot F x \<and> o_offset x \<notin> o_offset ` set ps \<longrightarrow>
      mem_value (o_ty x) (below ?fp (o_offset x)) (mem m2) = mem_value (o_ty x) (below ?fp (o_offset x)) (mem m1)"
    "\<forall>y. 0 \<le> y \<and> y < 2 ^ 64 \<and> (y \<le> 16 \<or> F < y) \<longrightarrow> mem m2 (below ?fp y) = mem m1 (below ?fp y)"
    using Cons.IH [OF v(2) Cons.prems(2) v(4,5), of m1] fp by auto
  have "\<forall>r. r \<notin> {5, 31} \<longrightarrow> regs m2 r = regs m r" using 1(2) 2(2) by simp
  moreover have "mem_value (o_ty ((v # ps) ! j)) (below ?fp (o_offset ((v # ps) ! j))) (mem m2) =
      wrap (o_ty ((v # ps) ! j)) (uint (regs m (10 + int (i + j))))" if j: "j < length (v # ps)" for j
  proof (cases j)
    case 0
    then show ?thesis using 2(4) v(1,3) w(1) by simp
  next
    case (Suc k)
    then have "regs m1 (10 + int (Suc i + k)) = regs m (10 + int (i + j))" using 1(2) j v(5) by auto
    then show ?thesis using 2(3) j Suc by simp
  qed
  moreover have "\<forall>x. slot F x \<and> o_offset x \<notin> o_offset ` set (v # ps) \<longrightarrow>
      mem_value (o_ty x) (below ?fp (o_offset x)) (mem m2) = mem_value (o_ty x) (below ?fp (o_offset x)) (mem m)"
    using 2(4) w(2) by simp
  moreover have "\<forall>y. 0 \<le> y \<and> y < 2 ^ 64 \<and> (y \<le> 16 \<or> F < y) \<longrightarrow> mem m2 (below ?fp y) = mem m (below ?fp y)"
    using 2(5) w(3) by simp
  ultimately show ?case using seq_run [OF 1(1) 2(1)] by (intro exI [of _ m2]) simp
qed

section \<open>Calling a function\<close>

text \<open>
  The variables when the body begins, for a machine that enters the function: parameters have the
  values of the argument registers, the others what is in memory.
\<close>

definition enters :: "obj list \<Rightarrow> obj list \<Rightarrow> store \<Rightarrow> machine \<Rightarrow> bool" where
  "enters xs ps s m \<longleftrightarrow>
     (\<forall>j<length ps. s (o_offset (ps ! j)) = wrap (o_ty (ps ! j)) (uint (regs m (10 + int j)))) \<and>
     (\<forall>x\<in>set xs. o_offset x \<notin> o_offset ` set ps \<longrightarrow> s (o_offset x) = mem_value (o_ty x) (below (regs m 2) (o_offset x)) (mem m))"

text \<open>The caller gets back its registers and all memory but \<open>L\<close> bytes below its stack pointer.\<close>

definition returns :: "int \<Rightarrow> int \<Rightarrow> machine \<Rightarrow> machine \<Rightarrow> bool" where
  "returns L v m m' \<longleftrightarrow>
     regs m' 10 = W v \<and> pc m' = uint (regs m 1 AND NOT 1) \<and> (\<forall>r. r \<notin> {5, 6, 10, 11, 31} \<longrightarrow> regs m' r = regs m r) \<and>
     (\<forall>y. 0 \<le> y \<and> y < 2 ^ 64 \<and> (y = 0 \<or> L < y) \<longrightarrow> mem m' (below (regs m 2) y) = mem m (below (regs m 2) y))"

text \<open>A function of this kind: \<open>xs\<close> are its variables, \<open>ps\<close> its parameters.\<close>

definition plain_func :: "obj list \<Rightarrow> obj list \<Rightarrow> nat \<Rightarrow> func \<Rightarrow> bool" where
  "plain_func xs ps b fn \<longleftrightarrow>
     \<not> fn_variadic fn \<and> fn_params fn = map Some ps \<and> set ps \<subseteq> set xs \<and> distinct (map o_offset ps) \<and> length ps \<le> 8 \<and>
     layout_ok (fn_frame_size fn) xs \<and> plain xs b (fn_body fn)"

lemma layout_slot: "layout_ok F xs \<Longrightarrow> x \<in> set xs \<Longrightarrow> slot F x"
  unfolding layout_ok_def local_int_def slot_def by blast

lemma prologue_run:
  assumes fn: "plain_func xs ps b fn" and F: "F = fn_frame_size fn" "F < 2 ^ 63" and en: "enters xs ps s m"
  shows "\<exists>m'. exec_seq (enter_ins F @ param_ins 0 ps) m = Some m' \<and> frame xs F F s m' \<and> regs m' 8 = regs m 2 \<and>
    (\<forall>r. r \<notin> {2, 8, 5, 31} \<longrightarrow> regs m' r = regs m r) \<and>
    W (mem_read 8 (below (regs m 2) 8) (mem m')) = regs m 1 \<and> W (mem_read 8 (below (regs m 2) 16) (mem m')) = regs m 8 \<and>
    (\<forall>y. 0 \<le> y \<and> y < 2 ^ 64 \<and> (y = 0 \<or> F < y) \<longrightarrow> mem m' (below (regs m 2) y) = mem m (below (regs m 2) y))"
proof -
  let ?sp = "regs m 2"
  have lay1: "layout_ok F xs" using fn unfolding plain_func_def F(1) by blast
  then have "16 \<le> F" unfolding layout_ok_def by blast
  note lay = lay1 this
  have ps: "\<forall>v\<in>set ps. slot F v" "distinct (map o_offset ps)" "length ps \<le> 8" "set ps \<subseteq> set xs"
    using fn layout_slot [OF lay(1)] unfolding plain_func_def by auto
  obtain m1 where 1: "exec_seq (enter_ins F) m = Some m1" "regs m1 8 = ?sp" "regs m1 2 = below ?sp F"
      "\<forall>r. r \<notin> {2, 8, 5, 31} \<longrightarrow> regs m1 r = regs m r"
      "W (mem_read 8 (below ?sp 8) (mem m1)) = regs m 1" "W (mem_read 8 (below ?sp 16) (mem m1)) = regs m 8"
      "\<forall>y. 0 \<le> y \<and> y < 2 ^ 64 \<and> (y = 0 \<or> 16 < y) \<longrightarrow> mem m1 (below ?sp y) = mem m (below ?sp y)"
    using enter_run [OF lay(2) F(2), of m] by blast
  obtain m2 where 2: "exec_seq (param_ins 0 ps) m1 = Some m2" "\<forall>r. r \<notin> {5, 31} \<longrightarrow> regs m2 r = regs m1 r"
      "\<forall>j<length ps. mem_value (o_ty (ps ! j)) (below ?sp (o_offset (ps ! j))) (mem m2) = wrap (o_ty (ps ! j)) (uint (regs m1 (10 + int j)))"
      "\<forall>x. slot F x \<and> o_offset x \<notin> o_offset ` set ps \<longrightarrow>
        mem_value (o_ty x) (below ?sp (o_offset x)) (mem m2) = mem_value (o_ty x) (below ?sp (o_offset x)) (mem m1)"
      "\<forall>y. 0 \<le> y \<and> y < 2 ^ 64 \<and> (y \<le> 16 \<or> F < y) \<longrightarrow> mem m2 (below ?sp y) = mem m1 (below ?sp y)"
    using params_run [OF ps(1) F(2) ps(2), of 0 m1] ps(3) 1(2) by auto
  have keep: "mem_read 8 (below ?sp x) (mem m2) = mem_read 8 (below ?sp x) (mem m1)" if "x = 8 \<or> x = 16" for x :: int
    by (rule read_below_cong) (use 2(5) that in auto)
  have "mem_value (o_ty x) (below ?sp (o_offset x)) (mem m2) = s (o_offset x)" if x: "x \<in> set xs" for x
  proof (cases "o_offset x \<in> o_offset ` set ps")
    case True
    then obtain j where j: "j < length ps" "o_offset x = o_offset (ps ! j)" by (auto simp: in_set_conv_nth)
    have "ps ! j \<in> set xs" using ps(4) j(1) nth_mem by blast
    then have "o_ty x = o_ty (ps ! j)" using lay(1) x j(2) unfolding layout_ok_def by blast
    moreover have "regs m1 (10 + int j) = regs m (10 + int j)" using 1(4) j(1) ps(3) by auto
    ultimately show ?thesis using 2(3) j en unfolding enters_def by simp
  next
    case False
    have sx: "slot F x" using layout_slot [OF lay(1) x] .
    have "mem_read (nat (ty_size (o_ty x))) (below ?sp (o_offset x)) (mem m1) = mem_read (nat (ty_size (o_ty x))) (below ?sp (o_offset x)) (mem m)"
    proof (rule read_below_cong)
      fix y :: int assume y: "o_offset x - int (nat (ty_size (o_ty x))) < y" "y \<le> o_offset x"
      have "int (nat (ty_size (o_ty x))) \<le> 8" using int_type_size [of "o_ty x"] sx unfolding slot_def by auto
      then have "0 \<le> y \<and> y < 2 ^ 64 \<and> 16 < y" using y sx F(2) unfolding slot_def by auto
      then show "mem m1 (below ?sp y) = mem m (below ?sp y)" using 1(7) by blast
    qed
    then have "mem_value (o_ty x) (below ?sp (o_offset x)) (mem m1) = mem_value (o_ty x) (below ?sp (o_offset x)) (mem m)"
      unfolding mem_value_def by (rule arg_cong)
    then show ?thesis using 2(4) sx False en x unfolding enters_def by simp
  qed
  then have ag: "agrees xs (regs m2 8) s (mem m2)" using 2(2) 1(2) unfolding agrees_def by simp
  have "frame xs F F s m2" unfolding frame_def using lay F(2) ag 2(2) 1(2,3) by simp
  moreover have "exec_seq (enter_ins F @ param_ins 0 ps) m = Some m2" using seq_run [OF 1(1) 2(1)] .
  moreover have "\<forall>y. 0 \<le> y \<and> y < 2 ^ 64 \<and> (y = 0 \<or> F < y) \<longrightarrow> mem m2 (below ?sp y) = mem m (below ?sp y)"
  proof (intro allI impI)
    fix y :: int assume y: "0 \<le> y \<and> y < 2 ^ 64 \<and> (y = 0 \<or> F < y)"
    have "mem m2 (below ?sp y) = mem m1 (below ?sp y)" using 2(5) y by auto
    also have "\<dots> = mem m (below ?sp y)" using 1(7) y lay(2) by auto
    finally show "mem m2 (below ?sp y) = mem m (below ?sp y)" .
  qed
  ultimately show ?thesis using 1(2,4,5,6) 2(2) keep [of 8] keep [of 16] by (intro exI [of _ m2]) simp
qed

text \<open>The value that a function returns when its body ends with an outcome: 0 at the end of the body.\<close>

fun result_of :: "outcome \<Rightarrow> int" where
  "result_of (Ret v) = v"
| "result_of _ = 0"

lemma later_refl [simp]: "later st st"
  by (simp add: later_def)

lemma function_run:
  assumes g: "gen_function env fn st = Ok (off, st')" and bs: "bs = data (code st') @ suf" and ok: "emit_ok st"
    and fn: "plain_func xs ps b fn" and L: "deep_enough (fn_frame_size fn) b L"
    and body: "does (fn_body fn) s oc s'" and en: "enters xs ps s m" and m: "pc m = off"
  shows "\<exists>m'. runs bs m m' \<and> returns L (result_of oc) m m'"
proof -
  define F where "F = fn_frame_size fn"
  have pf: "\<not> fn_variadic fn" "fn_params fn = map Some ps" "layout_ok F xs" "plain xs b (fn_body fn)" "16 \<le> F"
    using fn unfolding plain_func_def F_def layout_ok_def by blast+
  have FL: "F < 2 ^ 63" "F \<le> L" "L < 2 ^ 63" "deep_enough F b L" using L unfolding deep_enough_def F_def by auto
  define st1 where "st1 = emit_all (enter_ins F @ param_ins 0 ps) st"
  obtain g1 where g1: "gen_stmt (env\<lparr>g_fn := Some fn\<rparr>) None None (fn_body fn) \<lparr>em = st1, clabels = []\<rparr> = Ok g1"
      "patch_fixups (return_code (i_li A0 0 (em g1))) = Some st'" "off = int (code_len st)"
    using g prologue_all [OF pf(1,2)] unfolding gen_function_def st1_def F_def
    by (auto simp: check_clabels_def patched_def split: if_splits option.splits)
  define fin where "fin = return_code (i_li A0 0 (em g1))"
  have k1: "keeps st st1" unfolding st1_def by (intro keeps_emit_all keeps_refl)
  have k2: "keeps st1 (em g1)" using stmt_keeps [OF pf(4) g1(1)] by (simp add: has_def)
  have k3: "keeps (em g1) (i_li A0 0 (em g1))" "keeps (i_li A0 0 (em g1)) fin" unfolding fin_def by (intro keeps_i(2) return_keeps keeps_refl)+
  have ok1: "emit_ok st1" "emit_ok (em g1)" "emit_ok fin" using ok k1 k2 k3 keeps_ok by blast+
  have l: "later fin fin" "later (i_li A0 0 (em g1)) fin" "later (em g1) fin" "later st1 fin"
    using later_refl keeps_later k2 k3 by blast+
  have l0: "later (return_code (i_li A0 0 (em g1))) fin" using l(1) by (simp add: fin_def)
  have final: "final fin bs" unfolding final_def using ok1(3) g1(2) bs fin_def by blast
  have at0: "at st m" using m g1(3) by (simp add: at_def)
  obtain m1 where 1: "exec_seq (enter_ins F @ param_ins 0 ps) m = Some m1" "frame xs F F s m1" "regs m1 8 = regs m 2"
      "\<forall>r. r \<notin> {2, 8, 5, 31} \<longrightarrow> regs m1 r = regs m r"
      "W (mem_read 8 (below (regs m 2) 8) (mem m1)) = regs m 1" "W (mem_read 8 (below (regs m 2) 16) (mem m1)) = regs m 8"
      "\<forall>y. 0 \<le> y \<and> y < 2 ^ 64 \<and> (y = 0 \<or> F < y) \<longrightarrow> mem m1 (below (regs m 2) y) = mem m (below (regs m 2) y)"
    using prologue_run [OF fn F_def FL(1) en] by blast
  note r1 = runs_seq [OF final l(4) [unfolded st1_def] ok at0 1(1), folded st1_def]
  obtain m2 where 2: "runs bs m1 m2" "arrives fin None None xs F L (em g1) oc s' m1 m2"
    using carriesD [OF stmt_carries(1) [OF final FL(4) body] pf(4) g1(1), of m1] r1 1(2) ok1(1) l(3) by (auto simp: has_def)
  have "\<exists>m3. runs bs m1 m3 \<and> returned F L (result_of oc) m1 m3"
  proof (cases oc)
    case Normal
    then have a: "at (em g1) m2" "frame xs F F s' m2" "same F F L m1 m2" using 2(2) by (simp_all add: arrives_normal)
    have i: "i_li A0 0 (em g1) = emit_all (li_ins 10 0) (em g1)" by (simp add: i_li_all A0_def)
    let ?m = "m2\<lparr>regs := (regs m2)(10 := W 0), pc := pc m2 + 4 * int (length (li_ins 10 0))\<rparr>"
    have x: "exec_seq (li_ins 10 0) m2 = Some ?m" by (rule li_run) simp_all
    have r: "runs bs m2 ?m" "at (i_li A0 0 (em g1)) ?m" using runs_seq [OF final l(2) [unfolded i] ok1(2) a(1) x] unfolding i by auto
    have f: "frame xs F F s' ?m" by (rule frame_regs [OF a(2)]) simp_all
    obtain m3 where 3: "runs bs ?m m3" "returned F L 0 ?m m3"
      using return_run [OF final l0 keeps_ok [OF k3(1) ok1(2)] r(2) f, of 0 L] by auto
    have "same F F L m1 ?m" by (rule same_trans [OF a(3) same_regs order_refl order_refl]) simp
    from same_returned [OF this 3(2)] show ?thesis using runs_trans [OF 2(1) runs_trans [OF r(1) 3(1)]] Normal by auto
  next
    case (Ret v)
    then show ?thesis using 2 by (auto simp: arrives_def)
  qed (use 2(2) in \<open>simp_all add: arrives_def\<close>)
  then obtain m3 where 3: "runs bs m1 m3" "returned F L (result_of oc) m1 m3" by blast
  have "returns L (result_of oc) m m3" unfolding returns_def
  proof (intro conjI allI impI)
    have q: "regs m3 10 = W (result_of oc)" "regs m3 2 = regs m 2" "regs m3 8 = regs m 8" "regs m3 1 = regs m 1" "pc m3 = uint (regs m 1 AND NOT 1)"
        "\<forall>r. r \<notin> {1, 2, 8, 5, 6, 10, 11, 31} \<longrightarrow> regs m3 r = regs m1 r" "unchanged F F L (regs m 2) (mem m1) (mem m3)"
      using 3(2) 1(3,5,6) unfolding returned_def Let_def by simp_all
    show "regs m3 10 = W (result_of oc)" "pc m3 = uint (regs m 1 AND NOT 1)" by (rule q)+
    show "regs m3 r = regs m r" if "r \<notin> {5, 6, 10, 11, 31}" for r
      using q(2-4,6) 1(4) that by (cases "r = 1 \<or> r = 2 \<or> r = 8") auto
    fix y :: int assume y: "0 \<le> y \<and> y < 2 ^ 64 \<and> (y = 0 \<or> L < y)"
    have "mem m3 (below (regs m 2) y) = mem m1 (below (regs m 2) y)" using q(7) y unfolding unchanged_def by auto
    also have "\<dots> = mem m (below (regs m 2) y)" using 1(7) y FL(2) by auto
    finally show "mem m3 (below (regs m 2) y) = mem m (below (regs m 2) y)" .
  qed
  then show ?thesis using runs_trans [OF conjunct1 [OF r1] 3(1)] by blast
qed

end
