(* ===== verification/Cc_Total.thy ===== *)
theory Cc_Total
  imports Cc_Func
begin

text \<open>
  The compiler does not fail on the functions of the previous theory: every label that is made is
  placed, the code is at most 256 bytes for each part of the tree, and so all jumps reach their
  labels.
\<close>

section \<open>Labels and length\<close>

text \<open>Labels that are jumped to and not placed yet.\<close>

definition pending :: "emit \<Rightarrow> nat set" where
  "pending st = {l. l \<in> snd ` set (fixups st) \<and> l < nlabels st \<and> label_pos st ! l < 0}"

definition adds :: "nat set \<Rightarrow> nat \<Rightarrow> emit \<Rightarrow> emit \<Rightarrow> bool" where
  "adds B k st st' \<longleftrightarrow> pending st' \<subseteq> pending st \<union> B \<and> code_len st' \<le> code_len st + k"

lemma pending_simps [simp]: "pending (emit_all ws st) = pending st" "pending (emit32 w st) = pending st"
  by (simp_all add: pending_def)

lemma pending_jumps: "pending (jump_to l st) \<subseteq> insert l (pending st)" "pending (jump_if_zero r l st) \<subseteq> insert l (pending st)"
  "pending (jump_if_nonzero r l st) \<subseteq> insert l (pending st)"
  by (auto simp: pending_def jump_to_def jump_if_zero_def jump_if_nonzero_def i_bf_def add_fixup_def)

lemma pending_place [simp]: "pending (place_label l st) = pending st - {l}"
proof (rule set_eqI)
  fix x show "x \<in> pending (place_label l st) \<longleftrightarrow> x \<in> pending st - {l}"
    by (cases "x = l") (auto simp: pending_def place_label_def)
qed

lemma pending_new: "new_label st = (l, st') \<Longrightarrow> pending st' \<subseteq> insert l (pending st) \<and> code_len st' = code_len st \<and> l \<notin> pending st"
  by (auto simp: new_label_def pending_def nth_append)

lemma pending_placed:
  assumes "keeps (place_label l st) st'" "l < nlabels st"
  shows "l \<notin> pending st'"
proof -
  have "label_pos st' ! l = int (code_len st)" using assms unfolding keeps_def by (simp add: place_label_def)
  then show ?thesis by (simp add: pending_def)
qed

lemma ins_len: "length (ins_bytes w) = 4"
  by (simp add: ins_bytes_def)

lemma ins_len_all [simp]: "length (concat (map ins_bytes ws)) = 4 * length ws"
  by (induction ws) (simp_all add: ins_len)

lemma code_len_simps [simp]:
  "code_len (emit_all ws st) = code_len st + 4 * length ws" "code_len (jump_to l st) = code_len st + 4"
  "code_len (jump_if_zero r l st) = code_len st + 8" "code_len (jump_if_nonzero r l st) = code_len st + 8"
  by (simp_all add: jump_to_def jump_if_zero_def jump_if_nonzero_def i_bf_def add_fixup_def ins_len)

lemma byte_ins_len: "length (byte_ins rd v i) = 2 * i"
  by (induction i) auto

lemma ins_lens:
  "length (li_ins rd v) \<le> 17" "length (addi_ins rd rs v) \<le> 18" "length (cast_ins t) \<le> 2" "length (load_ins t) = 1" "length (store_ins t) = 1"
  "length (push_ins r) = 2" "length (pop_ins r) = 2" "length (bin_ins k t lt rt) \<le> 3" "length (assign_ins t) \<le> 4"
  by (auto simp: li_ins.simps addi_ins_def byte_ins_len cast_ins_def load_ins_def store_ins_def push_ins_def pop_ins_def bin_ins_def Let_def
      assign_ins_def split: binop.split)

lemmas [simp] = ins_lens(4-7)

lemma incdec_len: "length (incdec_ins p t d) \<le> 19"
  using ins_lens(3) [of t] by (simp add: incdec_ins_def)

section \<open>Expressions\<close>

definition span :: "nat \<Rightarrow> nat" where
  "span n = 256 * (3 * n + 1)"

lemma adds_addr: "gen_addr env (ND_VAR t x) st = Ok st' \<Longrightarrow> o_is_local x \<Longrightarrow> adds {} 72 st st'"
  using ins_lens(2) [of 10 8 "- o_offset x"] by (auto simp: i_addi_all A0_def S0_def adds_def)

lemma adds_li: "adds {} 68 st (i_li r v st)"
  using ins_lens(1) [of r v] by (simp add: i_li_all adds_def)

lemma adds_more: "adds {} k st st' \<Longrightarrow> adds B k st st'"
  unfolding adds_def by blast

text \<open>The two labels of a condition.\<close>

lemma adds_cond:
  assumes l: "new_label st = (l1, st1)" "new_label st1 = (l2, st2)" and x: "adds {} a st2 x" and jz: "jz = jump_if_zero A0 \<or> jz = jump_if_nonzero A0"
    and y: "adds {l1} b (jz l1 x) y" and z: "adds {} c (place_label l1 (jump_to l2 y)) z"
  shows "adds {} (a + b + c + 12) st (place_label l2 z)"
proof -
  note n1 = pending_new [OF l(1)] and n2 = pending_new [OF l(2)]
  have j: "pending (jz l1 x) \<subseteq> insert l1 (pending x)" "code_len (jz l1 x) = code_len x + 8" using jz pending_jumps(2,3) [of A0 l1 x] by auto
  have "pending y \<subseteq> insert l2 (insert l1 (pending st))" using x y n1 n2 j unfolding adds_def by blast
  then have "pending z \<subseteq> insert l2 (insert l1 (pending st)) - {l1} \<union> {l2}"
    using z pending_jumps(1) [of l2 y] unfolding adds_def by auto
  then have "pending (place_label l2 z) \<subseteq> pending st" by auto
  then show ?thesis using x y z n1 n2 j unfolding adds_def by simp
qed

lemma expr_adds: "typed xs e \<Longrightarrow> layout_ok F xs \<Longrightarrow> gen_expr env e st = Ok st' \<Longrightarrow> adds {} (span (size e)) st st'"
proof (induction xs e arbitrary: st st' rule: typed.induct)
  case (1 xs t v)
  then show ?case using adds_li [of st A0 v] by (auto simp: span_def adds_def)
next
  case (2 xs t x)
  have x: "o_is_local x" "\<not> o_is_function x" "int_type t" using 2 layout_local [of F xs x] layout_type [of F xs x] by auto
  obtain st1 where 1: "gen_addr env (ND_VAR t x) st = Ok st1" "st' = emit_all (load_ins t) st1"
    using 2(3) x(2) load_all [OF x(3)] by auto
  show ?case using adds_addr [OF 1(1) x(1)] unfolding 1(2) adds_def span_def by auto
next
  case (3 xs k t l r)
  have i: "int_type (nty l)" "int_type (nty r)" "is_cmp k \<or> int_type t" using 3(3,4) typed_int [OF 3(3,4)] by (auto intro: typed_int)
  have ty: "typed xs l" "typed xs r" using 3(3) by auto
  obtain st1 st2 where g: "gen_expr env l st = Ok st1" "gen_expr env r (emit_all (push_ins 10) st1) = Ok st2"
      "st' = emit_all (bin_ins k t (nty l) (nty r)) (emit_all ([enc_i 0x13 11 0 10 0] @ pop_ins 10) st2)"
    using 3(5) bin_all [OF i] int_type_not [OF i(1)] int_type_not [OF i(2)] by (auto simp: push_all pop_all mv_all A0_def A1_def)
  show ?case using 3(1) [OF ty(1) 3(4) g(1)] 3(2) [OF ty(2) 3(4) g(2)] ins_lens(8) [of k t "nty l" "nty r"]
    unfolding g(3) adds_def span_def by auto
next
  case (4 xs t l r)
  have ty: "typed xs l" "typed xs r" using 4(3) by auto
  obtain l1 st1 l2 st2 where lab: "new_label st = (l1, st1)" "new_label st1 = (l2, st2)" by fastforce
  then obtain x y where g: "gen_expr env l st2 = Ok x" "gen_expr env r (jump_if_zero A0 l1 x) = Ok y"
      "st' = place_label l2 (i_li A0 0 (place_label l1 (jump_to l2 (i_li A0 1 (jump_if_zero A0 l1 y)))))"
    using 4(5) by (auto simp: Let_def)
  have y: "adds {l1} (span (size r) + 76) (jump_if_zero A0 l1 x) (i_li A0 1 (jump_if_zero A0 l1 y))"
    using 4(2) [OF ty(2) 4(4) g(2)] adds_li [of "jump_if_zero A0 l1 y" A0 1] pending_jumps(2) [of A0 l1 y] unfolding adds_def by auto
  from adds_cond [OF lab 4(1) [OF ty(1) 4(4) g(1)] disjI1 [OF refl] y adds_li [of _ A0 0]] show ?case
    unfolding g(3) by (auto simp: adds_def span_def)
next
  case (5 xs t l r)
  have ty: "typed xs l" "typed xs r" using 5(3) by auto
  obtain l1 st1 l2 st2 where lab: "new_label st = (l1, st1)" "new_label st1 = (l2, st2)" by fastforce
  then obtain x y where g: "gen_expr env l st2 = Ok x" "gen_expr env r (jump_if_nonzero A0 l1 x) = Ok y"
      "st' = place_label l2 (i_li A0 1 (place_label l1 (jump_to l2 (i_li A0 0 (jump_if_nonzero A0 l1 y)))))"
    using 5(5) by (auto simp: Let_def)
  have y: "adds {l1} (span (size r) + 76) (jump_if_nonzero A0 l1 x) (i_li A0 0 (jump_if_nonzero A0 l1 y))"
    using 5(2) [OF ty(2) 5(4) g(2)] adds_li [of "jump_if_nonzero A0 l1 y" A0 0] pending_jumps(3) [of A0 l1 y] unfolding adds_def by auto
  from adds_cond [OF lab 5(1) [OF ty(1) 5(4) g(1)] disjI2 [OF refl] y adds_li [of _ A0 1]] show ?case
    unfolding g(3) by (auto simp: adds_def span_def)
next
  case (6 xs t c a b)
  have ty: "typed xs c" "typed xs a" "typed xs b" using 6(4) by auto
  obtain l1 st1 l2 st2 where lab: "new_label st = (l1, st1)" "new_label st1 = (l2, st2)" by fastforce
  then obtain x y z where g: "gen_expr env c st2 = Ok x" "gen_expr env a (jump_if_zero A0 l1 x) = Ok y"
      "gen_expr env b (place_label l1 (jump_to l2 y)) = Ok z" "st' = place_label l2 z"
    using 6(6) by auto
  from adds_cond [OF lab 6(1) [OF ty(1) 6(5) g(1)] disjI1 [OF refl] adds_more [OF 6(2) [OF ty(2) 6(5) g(2)]] 6(3) [OF ty(3) 6(5) g(3)]] show ?case
    unfolding g(4) by (auto simp: adds_def span_def)
next
  case (7 xs t l r)
  have ty: "typed xs l" "typed xs r" using 7(3) by auto
  obtain x where g: "gen_expr env l st = Ok x" "gen_expr env r x = Ok st'" using 7(5) by auto
  show ?case using 7(1) [OF ty(1) 7(4) g(1)] 7(2) [OF ty(2) 7(4) g(2)] by (auto simp: adds_def span_def)
next
  case (8 xs t l)
  have ty: "typed xs l" "int_type t" using 8(2) typed_int [OF 8(2,3)] by auto
  obtain x where g: "gen_expr env l st = Ok x" "st' = emit_all (enc_r 0x20 10 0 0 10 0x33 # cast_ins t) x"
    using 8(4) cast_all [OF ty(2)] by (auto simp: i_r_def A0_def X0_def)
  show ?case using 8(1) [OF ty(1) 8(3) g(1)] ins_lens(3) [of t] unfolding g(2) adds_def span_def by auto
next
  case (9 xs t l)
  have ty: "typed xs l" using 9(2) by auto
  obtain x where g: "gen_expr env l st = Ok x" "st' = emit_all [enc_i 0x13 10 3 10 1] x" using 9(4) by (auto simp: i_seqz_def A0_def)
  show ?case using 9(1) [OF ty 9(3) g(1)] unfolding g(2) adds_def span_def by auto
next
  case (10 xs t l)
  have ty: "typed xs l" using 10(2) by auto
  obtain x where g: "gen_expr env l st = Ok x" "st' = emit_all [enc_i 0x13 10 4 10 (- 1)] x" using 10(4) by (auto simp: A0_def)
  show ?case using 10(1) [OF ty 10(3) g(1)] unfolding g(2) adds_def span_def by auto
next
  case (11 xs t l)
  have ty: "typed xs l" "int_type t" using 11(2) by auto
  obtain x where g: "gen_expr env l st = Ok x" "st' = emit_all (cast_ins t) x" using 11(4) cast_all [OF ty(2)] by auto
  show ?case using 11(1) [OF ty(1) 11(3) g(1)] ins_lens(3) [of t] unfolding g(2) adds_def span_def by auto
next
  case (12 xs t l r)
  obtain x where x: "l = ND_VAR t x" "x \<in> set xs" "o_ty x = t" using 12(2) by (auto elim: typed_varE)
  have ty: "typed xs r" "int_type t" "o_is_local x" using 12(2) layout_type [OF 12(3) x(2)] layout_local [OF 12(3) x(2)] x(3) by auto
  obtain st1 st2 where g: "gen_addr env (ND_VAR t x) st = Ok st1" "gen_expr env r (emit_all (push_ins 10) st1) = Ok st2"
      "st' = emit_all (assign_ins t) (emit_all ([enc_i 0x13 11 0 10 0] @ pop_ins 10) st2)"
    using 12(4) int_type_not [OF ty(2)] store_code_all [OF ty(2)] x(1)
    by (auto simp: push_all pop_all mv_all A0_def A1_def Let_def simp del: gen_addr.simps)
  show ?case using adds_addr [OF g(1) ty(3)] 12(1) [OF ty(1) 12(3) g(2)] ins_lens(9) [of t] unfolding g(3) adds_def span_def by auto
next
  case (13 xs k t l r)
  obtain x where x: "l = ND_VAR t x" "x \<in> set xs" "o_ty x = t" using 13(2) by (auto elim: typed_varE)
  have ty: "typed xs r" "int_type t" "o_is_local x" "\<not> is_cmp k" using 13(2) layout_type [OF 13(3) x(2)] layout_local [OF 13(3) x(2)] x(3) by auto
  obtain st1 st2 where g: "gen_addr env (ND_VAR t x) st = Ok st1"
      "gen_expr env r (emit_all (push_ins 10) (emit_all (load_ins t) (emit_all (push_ins 10) st1))) = Ok st2"
      "st' = emit_all (assign_ins t) (emit_all ((push_ins 10 @ pop_ins 11) @ pop_ins 10) (emit_all [opassign_ins k t]
         (emit_all ([enc_i 0x13 11 0 10 0] @ pop_ins 10) st2)))"
    using 13(4) opassign_all [OF ty(2,4)] store_code_all [OF ty(2)] load_all [OF ty(2)] x(1)
    by (auto simp: push_all pop_all mv_all A0_def A1_def simp del: gen_addr.simps)
  show ?case using adds_addr [OF g(1) ty(3)] 13(1) [OF ty(1) 13(3) g(2)] ins_lens(9) [of t] unfolding g(3) adds_def span_def by auto
next
  case (14 xs t l d)
  obtain x where x: "l = ND_VAR t x" "x \<in> set xs" "o_ty x = t" using 14(1) by (auto elim: typed_varE)
  have ty: "int_type t" "o_is_local x" "- 2048 \<le> d" "d < 2048" using 14(1) layout_type [OF 14(2) x(2)] layout_local [OF 14(2) x(2)] x(3) by auto
  obtain st1 where g: "gen_addr env (ND_VAR t x) st = Ok st1"
      "bind_res (load_value t (push_reg A0 st1)) (\<lambda>st. incdec_code True t d (push_reg A0 st)) = Ok st'"
    using 14(3) x(1) by (auto simp del: gen_addr.simps)
  then have "st' = emit_all (incdec_ins True t d) st1" unfolding incdec_all [OF ty(1,3,4)] by simp
  then show ?case using adds_addr [OF g(1) ty(2)] incdec_len [of True t d] by (simp add: adds_def span_def)
next
  case (15 xs t l d)
  obtain x where x: "l = ND_VAR t x" "x \<in> set xs" "o_ty x = t" using 15(1) by (auto elim: typed_varE)
  have ty: "int_type t" "o_is_local x" "- 2048 \<le> d" "d < 2048" using 15(1) layout_type [OF 15(2) x(2)] layout_local [OF 15(2) x(2)] x(3) by auto
  obtain st1 where g: "gen_addr env (ND_VAR t x) st = Ok st1"
      "bind_res (load_value t (push_reg A0 st1)) (\<lambda>st. incdec_code False t d (push_reg A0 st)) = Ok st'"
    using 15(3) x(1) by (auto simp del: gen_addr.simps)
  then have "st' = emit_all (incdec_ins False t d) st1" unfolding incdec_all [OF ty(1,3,4)] by simp
  then show ?case using adds_addr [OF g(1) ty(2)] incdec_len [of False t d] by (simp add: adds_def span_def)
qed simp_all

section \<open>Statements\<close>

text \<open>\<open>break\<close> and \<open>continue\<close> are inside of a loop.\<close>

fun exits :: "bool \<Rightarrow> node \<Rightarrow> bool" where
  "exits lp (ND_BLOCK ss) \<longleftrightarrow> (\<forall>n\<in>set ss. exits lp n)"
| "exits lp ND_BREAK \<longleftrightarrow> lp"
| "exits lp ND_CONTINUE \<longleftrightarrow> lp"
| "exits lp (ND_IF c x y) \<longleftrightarrow> exits lp x \<and> (case y of None \<Rightarrow> True | Some y \<Rightarrow> exits lp y)"
| "exits lp (ND_WHILE c body) \<longleftrightarrow> exits True body"
| "exits lp (ND_DO body c) \<longleftrightarrow> exits True body"
| "exits lp (ND_FOR ini c inc body) \<longleftrightarrow> (case ini of None \<Rightarrow> True | Some n \<Rightarrow> exits True n) \<and> exits True body"
| "exits lp _ \<longleftrightarrow> True"

definition inside :: "bool \<Rightarrow> nat option \<Rightarrow> nat option \<Rightarrow> bool" where
  "inside lp brk cont \<longleftrightarrow> (lp \<longrightarrow> brk \<noteq> None \<and> cont \<noteq> None)"

abbreviation targets :: "nat option \<Rightarrow> nat option \<Rightarrow> nat set" where
  "targets brk cont \<equiv> set_option brk \<union> set_option cont"

definition compiled :: "genv \<Rightarrow> nat option \<Rightarrow> nat option \<Rightarrow> node \<Rightarrow> cgen \<Rightarrow> nat \<Rightarrow> bool" where
  "compiled env brk cont n g k \<longleftrightarrow>
     (\<exists>g'. gen_stmt env brk cont n g = Ok g' \<and> adds (targets brk cont) k (em g) (em g') \<and> clabels g' = clabels g)"

lemma plain_adds:
  assumes "plain_expr xs b e" "layout_ok F xs"
  shows "\<exists>st'. gen_expr env e st = Ok st' \<and> adds {} (span (size e)) st st'"
proof -
  have t: "typed xs e" using assms(1) by (simp add: plain_expr_def)
  obtain st' where "gen_expr env e st = Ok st'" using gen_expr_total [OF t assms(2)] by blast
  then show ?thesis using expr_adds [OF t assms(2)] by blast
qed

lemma guard_adds:
  assumes "plain_opt xs b c" "layout_ok F xs"
  shows "\<exists>st'. guard_code env l c st = Ok st' \<and> adds {l} (768 * size_option size c + 256 + 8) st st'"
proof (cases c)
  case (Some e)
  then obtain st' where "gen_expr env e st = Ok st'" "adds {} (span (size e)) st st'" using plain_adds [of xs b e F env st] assms by (auto simp: plain_opt_def)
  then show ?thesis using Some pending_jumps(2) [of A0 l st'] by (auto simp: guard_code_def adds_def span_def)
qed (auto simp: guard_code_def adds_def)

lemma effect_adds:
  assumes "plain_opt xs b c" "layout_ok F xs"
  shows "\<exists>st'. effect_code env c st = Ok st' \<and> adds {} (768 * size_option size c + 256) st st'"
proof (cases c)
  case (Some e)
  then obtain st' where "gen_expr env e st = Ok st'" "adds {} (span (size e)) st st'" using plain_adds [of xs b e F env st] assms by (auto simp: plain_opt_def)
  then show ?thesis using Some by (simp add: effect_code_def adds_def span_def)
qed (simp add: effect_code_def adds_def)

lemma label_new_adds: "label_new g = (l, g') \<Longrightarrow> pending (em g') \<subseteq> insert l (pending (em g)) \<and> code_len (em g') = code_len (em g) \<and> clabels g' = clabels g"
  using pending_new [of "em g" l "em g'"] by (auto simp: label_new_def split: prod.splits)

text \<open>A jump goes to a label that was made.\<close>

lemma labels2_pending:
  assumes "label_new g = (l1, g1)" "label_new g1 = (l2, g2)" "emit_ok (em g)"
  shows "pending (em g2) \<subseteq> pending (em g)"
proof -
  have e: "em g2 = (em g)\<lparr>label_pos := label_pos (em g) @ [- 1, - 1]\<rparr>"
    using assms(1,2) by (auto simp: label_new_def new_label_def)
  have "l < nlabels (em g)" if "l \<in> snd ` set (fixups (em g))" for l
    using assms(3) that by (auto simp: emit_ok_def fixup_ok_def)
  then show ?thesis unfolding e pending_def by (auto simp: nth_append)
qed

lemma compiled_block:
  assumes "\<And>n g. n \<in> set ns \<Longrightarrow> emit_ok (em g) \<Longrightarrow> has brk (em g) \<Longrightarrow> has cont (em g) \<Longrightarrow> compiled env brk cont n g (span (size n))"
    and "\<And>n. n \<in> set ns \<Longrightarrow> plain xs b n" "emit_ok (em g)" "has brk (em g)" "has cont (em g)"
  shows "\<exists>g'. gen_block env brk cont ns g = Ok g' \<and> adds (targets brk cont) (768 * size_list size ns + 256) (em g) (em g') \<and> clabels g' = clabels g"
  using assms
proof (induction ns arbitrary: g)
  case Nil
  then show ?case by (simp add: adds_def)
next
  case (Cons n ns)
  have "compiled env brk cont n g (span (size n))" using Cons.prems by simp
  then obtain g1 where 1: "gen_stmt env brk cont n g = Ok g1" "adds (targets brk cont) (span (size n)) (em g) (em g1)" "clabels g1 = clabels g"
    unfolding compiled_def by blast
  have k: "keeps (em g) (em g1)" using stmt_keeps [of xs b n, OF _ 1(1) Cons.prems(4,5)] Cons.prems(2) by simp
  have "\<exists>g'. gen_block env brk cont ns g1 = Ok g' \<and> adds (targets brk cont) (768 * size_list size ns + 256) (em g1) (em g') \<and> clabels g' = clabels g1"
    by (rule Cons.IH [OF _ _ keeps_ok [OF k Cons.prems(3)] has_keeps [OF Cons.prems(4) k] has_keeps [OF Cons.prems(5) k]]) (use Cons.prems(1,2) in auto)
  then obtain g2 where 2: "gen_block env brk cont ns g1 = Ok g2" "adds (targets brk cont) (768 * size_list size ns + 256) (em g1) (em g2)" "clabels g2 = clabels g1" by blast
  have "adds (targets brk cont) (768 * size_list size (n # ns) + 256) (em g) (em g2)" using 1(2) 2(2) unfolding adds_def span_def by auto
  then show ?case using 1 2 by simp
qed

lemma stmt_compiled:
  "plain xs b n \<Longrightarrow> layout_ok F xs \<Longrightarrow> exits lp n \<Longrightarrow> inside lp brk cont \<Longrightarrow> emit_ok (em g) \<Longrightarrow> has brk (em g) \<Longrightarrow> has cont (em g) \<Longrightarrow>
   compiled env brk cont n g (span (size n))"
proof (induction xs b n arbitrary: lp brk cont g rule: plain.induct)
  case (1 xs b)
  show ?case by (simp add: compiled_def adds_def)
next
  case (2 xs b e)
  then obtain st' where "gen_expr env e (em g) = Ok st'" "adds {} (span (size e)) (em g) st'" using plain_adds [of xs b e F env "em g"] by auto
  then show ?case by (auto simp: compiled_def expr_stmt_def adds_def span_def)
next
  case (3 xs b ss)
  have "\<exists>g'. gen_block env brk cont ss g = Ok g' \<and> adds (targets brk cont) (768 * size_list size ss + 256) (em g) (em g') \<and> clabels g' = clabels g"
  proof (rule compiled_block [OF _ _ 3(6-8)])
    fix n and g :: cgen assume n: "n \<in> set ss" and h: "emit_ok (em g)" "has brk (em g)" "has cont (em g)"
    show "compiled env brk cont n g (span (size n))" by (rule 3(1) [OF n _ 3(3) _ 3(5) h]) (use 3(2,4) n in auto)
  qed (use 3(2) in auto)
  then show ?case by (auto simp: compiled_def adds_def span_def)
next
  case (4 xs b e)
  show ?case
  proof (cases e)
    case None
    have "length (li_ins 10 0) = 1" by (simp add: li_ins.simps)
    then show ?thesis using None by (simp add: compiled_def adds_def span_def return_all i_li_all A0_def return_ins_def)
  next
    case (Some x)
    then obtain st' where "gen_expr env x (em g) = Ok st'" "adds {} (span (size x)) (em g) st'"
      using plain_adds [of xs b x F env "em g"] 4 by (auto simp: plain_opt_def)
    then show ?thesis using Some by (auto simp: compiled_def expr_stmt_def adds_def span_def return_all return_ins_def)
  qed
next
  case (5 xs b)
  then obtain l where "brk = Some l" by (auto simp: inside_def)
  then show ?case using pending_jumps(1) [of l "em g"] by (auto simp: compiled_def adds_def span_def)
next
  case (6 xs b)
  then obtain l where "cont = Some l" by (auto simp: inside_def)
  then show ?case using pending_jumps(1) [of l "em g"] by (auto simp: compiled_def adds_def span_def)
next
  case (7 xs b c x y)
  let ?B = "targets brk cont"
  have p: "plain_expr xs b c" "plain xs b x" "exits lp x" using 7(3,5) by auto
  obtain l1 g1 l2 g2 where l: "label_new g = (l1, g1)" "label_new g1 = (l2, g2)" by fastforce
  note n = label_new_adds [OF l(1)] label_new_adds [OF l(2)] and pn = labels2_pending [OF l 7(7)]
  obtain z where z: "gen_expr env c (em g2) = Ok z" "adds {} (span (size c)) (em g2) z" using plain_adds [OF p(1) 7(4)] by blast
  note q = if_labels [OF l gen_keeps(2) [OF z(1)]]
  let ?J = "jump_if_zero A0 l1 z"
  have hJ: "emit_ok ?J" "has brk ?J" "has cont ?J" using keeps_ok [OF q(3) 7(7)] has_keeps [OF _ q(3)] 7(8,9) by auto
  obtain ga where ga: "gen_stmt env brk cont x (g2\<lparr>em := ?J\<rparr>) = Ok ga" "adds ?B (span (size x)) ?J (em ga)" "clabels ga = clabels g2"
    using 7(1) [OF p(2) 7(4) p(3) 7(6), of "g2\<lparr>em := ?J\<rparr>"] hJ unfolding compiled_def by auto
  have kk: "keeps ?J (em ga)" using stmt_keeps [OF p(2) ga(1)] hJ by simp
  have pa: "pending (em ga) \<subseteq> insert l1 (pending (em g)) \<union> ?B"
    using pn z(2) ga(2) pending_jumps(2) [of A0 l1 z] unfolding adds_def by blast
  show ?case
  proof (cases y)
    case None
    have "gen_stmt env brk cont (ND_IF c x y) g = Ok (on_emit (place_label l1) ga)" using l z(1) ga(1) None by (simp add: expr_stmt_def)
    moreover have "adds ?B (span (size (ND_IF c x y))) (em g) (place_label l1 (em ga))"
      using pa ga(2) z(2) n unfolding adds_def span_def by auto
    ultimately show ?thesis using ga(3) n unfolding compiled_def by simp
  next
    case (Some w)
    let ?Q = "place_label l1 (jump_to l2 (em ga))"
    have kQ: "keeps (em g) ?Q" using q(4) [OF kk] by blast
    have "compiled env brk cont w (on_emit (\<lambda>st. place_label l1 (jump_to l2 st)) ga) (span (size w))"
      using 7(2) [OF Some _ 7(4) _ 7(6), of "on_emit (\<lambda>st. place_label l1 (jump_to l2 st)) ga"] 7(3,5) Some
        keeps_ok [OF kQ 7(7)] has_keeps [OF _ kQ] 7(8,9) by simp
    then obtain gb where gb: "gen_stmt env brk cont w (on_emit (\<lambda>st. place_label l1 (jump_to l2 st)) ga) = Ok gb"
        "adds ?B (span (size w)) ?Q (em gb)" "clabels gb = clabels ga" unfolding compiled_def by auto
    have "gen_stmt env brk cont (ND_IF c x y) g = Ok (on_emit (place_label l2) gb)" using l z(1) ga(1) gb(1) Some by (simp add: expr_stmt_def)
    moreover have "adds ?B (span (size (ND_IF c x y))) (em g) (place_label l2 (em gb))"
    proof -
      have "pending (em gb) - {l2} \<subseteq> pending (em g) \<union> ?B" using pa gb(2) pending_jumps(1) [of l2 "em ga"] unfolding adds_def by auto
      then show ?thesis using gb(2) ga(2) z(2) n Some unfolding adds_def span_def by auto
    qed
    ultimately show ?thesis using gb(3) ga(3) n unfolding compiled_def by simp
  qed
next
  case (8 xs b c body)
  have p: "plain_expr xs b c" "plain xs b body" "exits True body" using 8(2,4) by auto
  obtain l1 g1 l2 g2 where l: "label_new g = (l1, g1)" "label_new g1 = (l2, g2)" by fastforce
  note n = label_new_adds [OF l(1)] label_new_adds [OF l(2)]
  obtain x where x: "gen_expr env c (place_label l1 (em g2)) = Ok x" "adds {} (span (size c)) (place_label l1 (em g2)) x"
    using plain_adds [OF p(1) 8(3)] by blast
  let ?J = "jump_if_zero A0 l2 x"
  note w = while_labels [OF l gen_keeps(2) [OF x(1)]]
  obtain g3 where g3: "gen_stmt env (Some l2) (Some l1) body (g2\<lparr>em := ?J\<rparr>) = Ok g3"
      "adds {l1, l2} (span (size body)) ?J (em g3)" "clabels g3 = clabels g2"
    using 8(1) [OF p(2) 8(3) p(3), of "Some l2" "Some l1" "g2\<lparr>em := ?J\<rparr>"] keeps_ok [OF w(4) 8(6)] w(5,6)
    unfolding compiled_def inside_def by auto
  have kb: "keeps ?J (em g3)" using stmt_keeps [OF p(2) g3(1)] w(5,6) by simp
  have l1: "l1 \<notin> pending (em g3)"
    using pending_placed [OF keeps_trans [OF gen_keeps(2) [OF x(1)] keeps_trans [OF w(3) kb]]] fresh_nl [OF labels2(2) [OF l]] by blast
  have l1': "l1 \<notin> pending (jump_to l1 (em g3))"
    using pending_placed [OF keeps_trans [OF gen_keeps(2) [OF x(1)] keeps_trans [OF w(3) keeps_trans [OF kb]]], of "jump_to l1 (em g3)"]
      w(7) [OF kb] fresh_nl [OF labels2(2) [OF l]] by blast
  have "gen_stmt env brk cont (ND_WHILE c body) g = Ok (on_emit (\<lambda>st. place_label l2 (jump_to l1 st)) g3)"
    using l x(1) g3(1) by (simp add: expr_stmt_def)
  moreover have "adds (targets brk cont) (span (size (ND_WHILE c body))) (em g) (place_label l2 (jump_to l1 (em g3)))"
  proof -
    let ?S = "insert l2 (insert l1 (pending (em g)))"
    have "pending x \<subseteq> ?S" using x(2) n unfolding adds_def pending_place by blast
    then have "pending (em g3) \<subseteq> ?S" using pending_jumps(2) [of A0 l2 x] g3(2) unfolding adds_def by blast
    then have "pending (jump_to l1 (em g3)) - {l2} \<subseteq> pending (em g)" using pending_jumps(1) [of l1 "em g3"] l1' by blast
    then show ?thesis using g3(2) x(2) n unfolding adds_def span_def by auto
  qed
  ultimately show ?case using g3(3) n unfolding compiled_def by simp
next
  case (9 xs b body c)
  have p: "plain_expr xs b c" "plain xs b body" "exits True body" using 9(2,4) by auto
  obtain l1 g1 l2 g2 l3 g3 where l: "label_new g = (l1, g1)" "label_new g1 = (l2, g2)" "label_new g2 = (l3, g3)" by fastforce
  note n = label_new_adds [OF l(1)] label_new_adds [OF l(2)] label_new_adds [OF l(3)] and lab = labels3 [OF l]
  note w = loop_labels [OF lab(2-4,8-10,5-7,1) keeps_refl]
  have h1: "emit_ok (place_label l1 (em g3))" using keeps_ok [OF w(1) 9(6)] .
  obtain g4 where g4: "gen_stmt env (Some l3) (Some l2) body (on_emit (place_label l1) g3) = Ok g4"
      "adds {l2, l3} (span (size body)) (place_label l1 (em g3)) (em g4)" "clabels g4 = clabels g3"
    using 9(1) [OF p(2) 9(3) p(3), of "Some l3" "Some l2" "on_emit (place_label l1) g3"] h1 w(3,4)
    unfolding compiled_def inside_def by auto
  have kb: "keeps (place_label l1 (em g3)) (em g4)" using stmt_keeps [OF p(2) g4(1)] w(3,4) by simp
  obtain x where x: "gen_expr env c (place_label l2 (em g4)) = Ok x" "adds {} (span (size c)) (place_label l2 (em g4)) x" using plain_adds [OF p(1) 9(3)] by blast
  let ?j = "jump_if_nonzero A0 l1 x"
  have "gen_stmt env brk cont (ND_DO body c) g = Ok (g4\<lparr>em := place_label l3 ?j\<rparr>)"
    using l x(1) g4(1) by (simp add: expr_stmt_def)
  moreover have "adds (targets brk cont) (span (size (ND_DO body c))) (em g) (place_label l3 ?j)"
  proof -
    note z = w(7) [OF kb gen_keeps(2) [OF x(1)]]
    have "label_pos ?j ! l1 = int (code_len (em g3))"
    proof -
      have a: "label_pos (em g4) ! l1 = int (code_len (em g3))"
        using kb fresh_nl [OF lab(2)] unfolding keeps_def by (simp add: place_label_def)
      have "l1 < nlabels (em g4)" using keeps_nl [OF kb] fresh_nl [OF lab(2)] by simp
      then have "label_pos x ! l1 = int (code_len (em g3))"
        using gen_keeps(2) [OF x(1)] a lab(8) unfolding keeps_def by (simp add: place_label_def)
      then show ?thesis by (simp add: jump_if_nonzero_def i_bf_def add_fixup_def)
    qed
    then have l1: "l1 \<notin> pending ?j" by (simp add: pending_def)
    let ?S = "insert l3 (insert l2 (insert l1 (pending (em g))))"
    have "pending (em g4) \<subseteq> ?S" using g4(2) n unfolding adds_def pending_place by blast
    then have "pending x \<subseteq> ?S - {l2}" using x(2) unfolding adds_def pending_place by blast
    then have "pending ?j - {l3} \<subseteq> pending (em g)" using pending_jumps(3) [of A0 l1 x] l1 lab(8) by blast
    then show ?thesis using g4(2) x(2) n unfolding adds_def span_def by auto
  qed
  ultimately show ?case using g4(3) n unfolding compiled_def by simp
next
  case (10 xs b ini c inc body)
  have p: "plain_opt xs b c" "plain_opt xs b inc" "plain xs b body" "exits True body" using 10(3,5) by auto
  obtain l1 g1 l2 g2 l3 g3 where l: "label_new g = (l1, g1)" "label_new g1 = (l2, g2)" "label_new g2 = (l3, g3)" by fastforce
  note n = label_new_adds [OF l(1)] label_new_adds [OF l(2)] label_new_adds [OF l(3)] and lab = labels3 [OF l]
  have o3: "emit_ok (em g3)" using keeps_ok [OF lab(1) 10(7)] .
  obtain g4 where g4: "gen_opt env (Some l3) (Some l2) ini g3 = Ok g4" "adds {l2, l3} (768 * size_option size ini) (em g3) (em g4)" "clabels g4 = clabels g3"
    "keeps (em g3) (em g4)"
  proof (cases ini)
    case None
    then show ?thesis using that [of g3] by (auto simp: adds_def)
  next
    case (Some i)
    then have i: "plain xs b i" "exits True i" using 10(3,5) by auto
    have "compiled env (Some l3) (Some l2) i g3 (span (size i))"
      using 10(1) [OF Some i(1) 10(4) i(2), of "Some l3" "Some l2" g3] o3 fresh_nl [OF lab(3)] fresh_nl [OF lab(4)] unfolding inside_def by auto
    then obtain g4 where g: "gen_stmt env (Some l3) (Some l2) i g3 = Ok g4" "adds {l2, l3} (span (size i)) (em g3) (em g4)" "clabels g4 = clabels g3"
      unfolding compiled_def by auto
    have "keeps (em g3) (em g4)" using stmt_keeps [OF i(1) g(1)] fresh_nl [OF lab(3)] fresh_nl [OF lab(4)] by simp
    moreover have "adds {l2, l3} (768 * size_option size ini) (em g3) (em g4)" using g(2) Some unfolding adds_def span_def by auto
    ultimately show ?thesis using that [of g4] g(1,3) Some by simp
  qed
  have f: "fresh l1 (em g4)" "fresh l2 (em g4)" "fresh l3 (em g4)" using fresh_keeps [OF _ g4(4)] lab(2-4) by auto
  have k0: "keeps (em g) (em g4)" using keeps_trans [OF lab(1) g4(4)] .
  obtain x where x: "guard_code env l3 c (place_label l1 (em g4)) = Ok x" "adds {l3} (768 * size_option size c + 256 + 8) (place_label l1 (em g4)) x"
    using guard_adds [OF p(1) 10(4)] by blast
  have kx: "keeps (place_label l1 (em g4)) x" using keeps_guard [OF x(1)] fresh_nl [OF f(3)] by simp
  note w = loop_labels [OF f lab(8-10,5-7) k0 kx]
  obtain g5 where g5: "gen_stmt env (Some l3) (Some l2) body (g4\<lparr>em := x\<rparr>) = Ok g5" "adds {l2, l3} (span (size body)) x (em g5)" "clabels g5 = clabels g4"
    using 10(2) [OF p(3) 10(4) p(4), of "Some l3" "Some l2" "g4\<lparr>em := x\<rparr>"] keeps_ok [OF w(1) 10(7)] w(3,4)
    unfolding compiled_def inside_def by auto
  have kb: "keeps x (em g5)" using stmt_keeps [OF p(3) g5(1)] w(3,4) by simp
  obtain y where y: "effect_code env inc (place_label l2 (em g5)) = Ok y" "adds {} (768 * size_option size inc + 256) (place_label l2 (em g5)) y"
    using effect_adds [OF p(2) 10(4)] by blast
  have "gen_stmt env brk cont (ND_FOR ini c inc body) g = Ok (g5\<lparr>em := place_label l3 (jump_to l1 y)\<rparr>)"
    using l g4(1) x(1) g5(1) y(1) by (cases c; cases inc) (auto simp: expr_stmt_def guard_code_def effect_code_def on_emit_def)
  moreover have "adds (targets brk cont) (span (size (ND_FOR ini c inc body))) (em g) (place_label l3 (jump_to l1 y))"
  proof -
    have "label_pos (jump_to l1 y) ! l1 = int (code_len (em g4))"
    proof -
      have k: "keeps (place_label l1 (em g4)) (em g5)" using keeps_trans [OF kx kb] .
      have a: "label_pos (em g5) ! l1 = int (code_len (em g4))"
        using k fresh_nl [OF f(1)] unfolding keeps_def by (simp add: place_label_def)
      have "l1 < nlabels (em g5)" using keeps_nl [OF k] fresh_nl [OF f(1)] by simp
      then have "label_pos y ! l1 = int (code_len (em g4))"
        using keeps_effect [OF y(1)] a lab(8) unfolding keeps_def by (simp add: place_label_def)
      then show ?thesis by (simp add: jump_to_def add_fixup_def)
    qed
    then have l1: "l1 \<notin> pending (jump_to l1 y)" by (simp add: pending_def)
    let ?S = "insert l3 (insert l2 (insert l1 (pending (em g))))"
    have "pending (em g4) \<subseteq> ?S" using g4(2) n unfolding adds_def by blast
    then have "pending x \<subseteq> ?S" using x(2) unfolding adds_def pending_place by blast
    then have "pending (em g5) \<subseteq> ?S" using g5(2) unfolding adds_def by blast
    then have "pending y \<subseteq> ?S - {l2}" using y(2) unfolding adds_def pending_place by blast
    then have "pending (jump_to l1 y) - {l3} \<subseteq> pending (em g)" using pending_jumps(1) [of l1 y] l1 lab(8) by blast
    then show ?thesis using g4(2) x(2) g5(2) y(2) n unfolding adds_def span_def by auto
  qed
  ultimately show ?case using g5(3) g4(3) n unfolding compiled_def by simp
qed simp_all

section \<open>Functions\<close>

lemma patch_loop_total:
  "\<forall>f\<in>set fs. fst f \<le> N \<and> 0 \<le> lp ! snd f \<and> lp ! snd f \<le> int N \<Longrightarrow> N < 2 ^ 20 \<Longrightarrow> \<exists>bs'. patch_loop lp fs bs = Some bs'"
  by (induction lp fs bs rule: patch_loop.induct) (auto simp: Let_def)

lemma patch_total:
  assumes "emit_ok st" "pending st = {}" "code_len st < 2 ^ 20"
  shows "\<exists>st'. patch_fixups st = Some st'"
proof -
  have "fst f \<le> code_len st \<and> 0 \<le> label_pos st ! snd f \<and> label_pos st ! snd f \<le> int (code_len st)" if f: "f \<in> set (fixups st)" for f
  proof -
    have a: "fst f + 4 \<le> code_len st" "snd f < nlabels st" using assms(1) f by (auto simp: emit_ok_def fixup_ok_def)
    then have "0 \<le> label_pos st ! snd f" using assms(2) f unfolding pending_def by force
    moreover have "label_pos st ! snd f \<in> set (label_pos st)" using a(2) by simp
    ultimately show ?thesis using a(1) assms(1) unfolding emit_ok_def by force
  qed
  then obtain bs where "patch_loop (label_pos st) (fixups st) (data (code st)) = Some bs"
    using patch_loop_total [of "fixups st" "code_len st" "label_pos st" "data (code st)"] assms(3) by blast
  then show ?thesis by (simp add: patch_fixups_def)
qed

lemma param_ins_len: "length (param_ins i ps) \<le> 19 * length ps"
proof (induction ps arbitrary: i)
  case (Cons v ps)
  show ?case using Cons [of "Suc i"] ins_lens(2) [of 5 8 "- o_offset v"] by simp
qed simp

lemma enter_ins_len: "length (enter_ins F) \<le> 39"
  using ins_lens(2) [of 2 2 "- F"] ins_lens(2) [of 8 2 F] by (simp add: enter_ins_def)

lemma function_compiles:
  assumes fn: "plain_func xs ps b fn" "exits False (fn_body fn)" and st: "emit_ok st" "pending st = {}"
    and len: "code_len st + span (size (fn_body fn)) + 1024 < 2 ^ 20"
  shows "\<exists>st'. gen_function env fn st = Ok (int (code_len st), st')"
proof -
  have pf: "\<not> fn_variadic fn" "fn_params fn = map Some ps" "layout_ok (fn_frame_size fn) xs" "plain xs b (fn_body fn)" "length ps \<le> 8"
    using fn(1) unfolding plain_func_def by blast+
  define st1 where "st1 = emit_all (enter_ins (fn_frame_size fn) @ param_ins 0 ps) st"
  have p: "emit_prologue fn st = Ok st1" unfolding st1_def by (rule prologue_all [OF pf(1,2)])
  have "keeps st st1" unfolding st1_def by (intro keeps_emit_all keeps_refl)
  then have o1: "emit_ok st1" using st(1) by (rule keeps_ok)
  have l1: "code_len st1 \<le> code_len st + 764" "pending st1 = {}"
    using enter_ins_len [of "fn_frame_size fn"] param_ins_len [of 0 ps] pf(5) st(2) unfolding st1_def by auto
  have "compiled (env\<lparr>g_fn := Some fn\<rparr>) None None (fn_body fn) \<lparr>em = st1, clabels = []\<rparr> (span (size (fn_body fn)))"
    by (rule stmt_compiled [OF pf(4,3) fn(2)]) (use o1 in \<open>simp_all add: inside_def has_def\<close>)
  then obtain g where g: "gen_stmt (env\<lparr>g_fn := Some fn\<rparr>) None None (fn_body fn) \<lparr>em = st1, clabels = []\<rparr> = Ok g"
      "adds {} (span (size (fn_body fn))) st1 (em g)" "clabels g = []"
    unfolding compiled_def by auto
  have k: "keeps st1 (em g)" using stmt_keeps [OF pf(4) g(1)] by (simp add: has_def)
  let ?fin = "return_code (i_li A0 0 (em g))"
  have "keeps (em g) ?fin" by (intro return_keeps keeps_i(2) keeps_refl)
  then have ok: "emit_ok ?fin" using keeps_ok [OF _ keeps_ok [OF k o1]] by blast
  have "length (li_ins 10 0) = 1" by (simp add: li_ins.simps)
  then have fin: "pending ?fin = pending (em g)" "code_len ?fin = code_len (em g) + 20"
    by (simp_all add: return_all i_li_all A0_def return_ins_def)
  have "pending ?fin = {}" "code_len ?fin < 2 ^ 20" using fin g(2) l1 len unfolding adds_def by auto
  then obtain st' where "patch_fixups ?fin = Some st'" using patch_total [OF ok] by blast
  then show ?thesis using p g(1,3) by (auto simp: gen_function_def check_clabels_def patched_def)
qed

section \<open>The compiler is correct\<close>

text \<open>
  C1. For every function of at most eight parameters whose variables are integers and whose body
  is made of expressions on them, \<open>if\<close>, \<open>while\<close>, \<open>do\<close>, \<open>for\<close>, \<open>break\<close>, \<open>continue\<close>, blocks and
  \<open>return\<close>, \<open>gen_function\<close> does not fail as long as the code stays below one megabyte; and from
  every machine that enters the code with arguments in the registers, whatever the rest of the
  program and of the memory is, the code returns to its caller with the value that C gives the
  function, with all registers of the caller restored, and has written only to its frame.
\<close>

theorem function_correct:
  assumes "plain_func xs ps b fn" "exits False (fn_body fn)" "deep_enough (fn_frame_size fn) b L"
    and "emit_ok st" "pending st = {}" "code_len st + span (size (fn_body fn)) + 1024 < 2 ^ 20"
  shows "\<exists>st'. gen_function env fn st = Ok (int (code_len st), st') \<and>
    (\<forall>suf s oc s' m. does (fn_body fn) s oc s' \<longrightarrow> enters xs ps s m \<longrightarrow> pc m = int (code_len st) \<longrightarrow>
       (\<exists>m'. runs (data (code st') @ suf) m m' \<and> returns L (result_of oc) m m'))"
proof -
  obtain st' where g: "gen_function env fn st = Ok (int (code_len st), st')"
    using function_compiles [OF assms(1,2,4-6)] by blast
  show ?thesis using g function_run [OF g refl assms(4,1,3)] by blast
qed

text \<open>A witness: \<open>int f(int n) { int s = 0; while (n) { s += n; n--; } return s; }\<close>\<close>

definition var_n :: obj where
  "var_n = \<lparr>o_name = bytes ''n'', o_ty = ty_int, o_is_local = True, o_is_function = False, o_defined = False, o_offset = 24, o_sym = 0\<rparr>"

definition var_s :: obj where
  "var_s = \<lparr>o_name = bytes ''s'', o_ty = ty_int, o_is_local = True, o_is_function = False, o_defined = False, o_offset = 32, o_sym = 0\<rparr>"

definition sum_loop :: node where
  "sum_loop = ND_WHILE (ND_VAR ty_int var_n)
     (ND_BLOCK [ND_EXPR_STMT (ND_OPASSIGN ND_ADD ty_int (ND_VAR ty_int var_s) (ND_VAR ty_int var_n)),
                ND_EXPR_STMT (ND_POSTINC ty_int (ND_VAR ty_int var_n) (- 1))])"

definition sum_body :: node where
  "sum_body = ND_BLOCK
     [ND_EXPR_STMT (ND_ASSIGN ty_int (ND_VAR ty_int var_s) (ND_NUM ty_int 0)), sum_loop, ND_RETURN (Some (ND_VAR ty_int var_s))]"

definition sum_fn :: func where
  "sum_fn = \<lparr>fn_sym = 0, fn_params = [Some var_n], fn_variadic = False, fn_va_area = None, fn_frame_size = 32, fn_body = sum_body\<rparr>"

definition no_env :: genv where
  "no_env = \<lparr>g_fn = None, puts_sym = 0, memcpy_sym = 0, memset_sym = 0, SYS_read = 0, SYS_write = 0, SYS_open = 0, SYS_close = 0, SYS_exit = 0\<rparr>"

lemma sum_types: "wrap ty_int v = signed_take_bit 31 v" "in_range ty_int v \<longleftrightarrow> - (2 ^ 31) \<le> v \<and> v < 2 ^ 31" "usual ty_int ty_int = ty_int"
  by (simp_all add: wrap_def width_def in_range_bounds ty_simps int_type_def usual_def promote_def)

lemma sum_int: "in_range ty_int v \<Longrightarrow> wrap ty_int v = v"
  by (simp add: in_range_def)

lemma sum_add: "in_range ty_int a \<Longrightarrow> in_range ty_int b \<Longrightarrow> in_range ty_int (a + b) \<Longrightarrow> c_bin ND_ADD ty_int ty_int a b = Some (a + b)"
  by (simp add: c_bin_def c_type_def is_shift_def c_op_def sum_types(3) sum_int c_val_def)

lemma sum_step:
  assumes "s 24 = n" "s 32 = a" "0 < n" "0 \<le> a" "a + n < 2 ^ 31"
  shows "does (ND_BLOCK [ND_EXPR_STMT (ND_OPASSIGN ND_ADD ty_int (ND_VAR ty_int var_s) (ND_VAR ty_int var_n)),
      ND_EXPR_STMT (ND_POSTINC ty_int (ND_VAR ty_int var_n) (- 1))]) s Normal (s(32 := a + n, 24 := n - 1))"
proof -
  have 1: "ev (ND_OPASSIGN ND_ADD ty_int (ND_VAR ty_int var_s) (ND_VAR ty_int var_n)) s = Some (a + n, s(32 := a + n))"
    using assms sum_add [of a n] by (simp add: var_of_def var_s_def var_n_def sum_types(2) sum_int Let_def)
  have 2: "ev (ND_POSTINC ty_int (ND_VAR ty_int var_n) (- 1)) (s(32 := a + n)) = Some (n, s(32 := a + n, 24 := n - 1))"
    using assms sum_add [of n "- 1"] by (simp add: var_of_def var_n_def sum_types(2) sum_int Let_def)
  show ?thesis by (intro does_loops_does_all.block all_next [OF expr [OF 1]] all_next [OF expr [OF 2]] all_nil)
qed

lemma sum_loop_does: "does sum_loop (\<lambda>x. if x = 24 then 2 else if x = 32 then 0 else r x) Normal (\<lambda>x. if x = 24 then 0 else if x = 32 then 3 else r x)"
proof -
  have v: "ev (ND_VAR ty_int var_n) s = Some (s 24, s)" for s by (simp add: var_n_def)
  let ?s0 = "\<lambda>x. if x = 24 then 2 else if x = 32 then 0 else r x" and ?s2 = "\<lambda>x. if x = 24 then 0 else if x = 32 then 3 else r x"
  let ?s1 = "\<lambda>x. if x = 24 then 1 else if x = 32 then 2 else r x"
  have u: "?s1 = ?s0(32 := 0 + 2, 24 := 2 - 1)" "?s2 = ?s1(32 := 2 + 1, 24 := 1 - 1)" by auto
  have c: "does sum_loop ?s2 Normal ?s2" unfolding sum_loop_def by (rule while_end) (simp add: var_n_def)
  have b: "does sum_loop ?s1 Normal ?s2" unfolding sum_loop_def
    by (rule while_next [OF v _ sum_step [of ?s1 1 2, folded u(2)]]) (use c in \<open>simp_all add: sum_loop_def\<close>)
  show ?thesis unfolding sum_loop_def
    by (rule while_next [OF v _ sum_step [of ?s0 2 0, folded u(1)]]) (use b in \<open>simp_all add: sum_loop_def\<close>)
qed

theorem function_correct_witness:
  "\<exists>st'. gen_function no_env sum_fn no_code = Ok (0, st') \<and>
    (\<forall>m. pc m = 0 \<and> regs m 10 = 2 \<longrightarrow> (\<exists>m'. runs (data (code st')) m m' \<and> returns 80 3 m m'))"
proof -
  have p: "plain_func [var_n, var_s] [var_n] 3 sum_fn"
    by (auto simp: plain_func_def sum_fn_def layout_ok_def local_int_def var_n_def var_s_def sum_body_def sum_loop_def plain_expr_def plain_opt_def
        typed_var_def var_of_def sum_types(2) is_cmp_def)
  have o: "emit_ok no_code" "pending no_code = {}" "code_len no_code = 0"
    by (simp_all add: emit_ok_def no_code_def pending_def buf_init_def)
  have e: "exits False (fn_body sum_fn)" "deep_enough (fn_frame_size sum_fn) 3 80" "code_len no_code + span (size (fn_body sum_fn)) + 1024 < 2 ^ 20"
    using o(3) by (simp_all add: sum_fn_def sum_body_def sum_loop_def deep_enough_def span_def)
  from function_correct [OF p e(1,2) o(1,2) e(3), of no_env] obtain st' where g: "gen_function no_env sum_fn no_code = Ok (0, st')"
    and r: "\<forall>suf s oc s' m. does (fn_body sum_fn) s oc s' \<longrightarrow> enters [var_n, var_s] [var_n] s m \<longrightarrow> pc m = 0 \<longrightarrow>
       (\<exists>m'. runs (data (code st') @ suf) m m' \<and> returns 80 (result_of oc) m m')"
    using o(3) by auto
  have "\<exists>m'. runs (data (code st')) m m' \<and> returns 80 3 m m'" if m: "pc m = 0" "regs m 10 = 2" for m
  proof -
    let ?g = "mem_value ty_int (below (regs m 2) 32) (mem m)"
    let ?pre = "\<lambda>x :: int. if x = 24 then 2 else ?g" and ?mid = "\<lambda>x :: int. if x = 24 then 2 else if x = 32 then 0 else ?g"
    let ?post = "\<lambda>x :: int. if x = 24 then 0 else if x = 32 then 3 else ?g"
    have u: "?pre(32 := 0) = ?mid" by auto
    have "ev (ND_ASSIGN ty_int (ND_VAR ty_int var_s) (ND_NUM ty_int 0)) s = Some (0, s(32 := 0))" for s
      by (simp add: var_of_def var_s_def Let_def sum_int sum_types(2))
    from this [of ?pre] have "ev (ND_ASSIGN ty_int (ND_VAR ty_int var_s) (ND_NUM ty_int 0)) ?pre = Some (0, ?mid)" unfolding u .
    then have 1: "does (ND_EXPR_STMT (ND_ASSIGN ty_int (ND_VAR ty_int var_s) (ND_NUM ty_int 0))) ?pre Normal ?mid" by (rule expr)
    have "ev (ND_VAR ty_int var_s) ?post = Some (3, ?post)" by (simp add: var_s_def)
    then have 3: "does (ND_RETURN (Some (ND_VAR ty_int var_s))) ?post (Ret 3) ?post" by (rule return)
    have "does sum_body ?pre (Ret 3) ?post" unfolding sum_body_def
      by (intro does_loops_does_all.block all_next [OF 1] all_next [OF sum_loop_does [of "\<lambda>_. ?g"]] all_stop [OF 3]) simp
    then have d: "does (fn_body sum_fn) ?pre (Ret 3) ?post" by (simp add: sum_fn_def)
    have "enters [var_n, var_s] [var_n] ?pre m" using m(2) by (simp add: enters_def var_n_def var_s_def sum_int sum_types(2))
    from r [rule_format, OF d this m(1), of "[]"] show ?thesis by simp
  qed
  then show ?thesis using g by blast
qed

end
