(* ===== verification/Cc_Const.thy ===== *)
theory Cc_Const
  imports Cc_Correct
begin

text \<open>
  Constant expressions of \<open>case\<close> labels, array sizes, enumerations and initialisers: \<open>eval_const\<close>
  computes in \<open>long\<close> what C computes in the types of the operands. And a place where the compiler
  and C part.
\<close>

section \<open>Constant expressions\<close>

text \<open>Signed operands; the value of a conversion to an unsigned type may be tested only.\<close>

fun const_expr :: "node \<Rightarrow> bool" where
  "const_expr (ND_NUM t v) \<longleftrightarrow> (t = ty_int \<or> t = ty_long) \<and> in_range t v"
| "const_expr (ND_NEG t e) \<longleftrightarrow> const_expr e \<and> t = nty e \<and> 4 \<le> ty_size t \<and> \<not> is_unsigned t"
| "const_expr (ND_NOT t e) \<longleftrightarrow> const_expr e \<and> t = ty_int"
| "const_expr (ND_BITNOT t e) \<longleftrightarrow> const_expr e \<and> t = nty e \<and> 4 \<le> ty_size t \<and> \<not> is_unsigned t"
| "const_expr (ND_CAST t e) \<longleftrightarrow> const_expr e \<and> int_type t \<and> t \<noteq> ty_ulong"
| "const_expr (ND_BIN k t l r) \<longleftrightarrow>
     const_expr l \<and> const_expr r \<and> \<not> is_unsigned (nty l) \<and> \<not> is_unsigned (nty r) \<and>
     t = (if is_cmp k then ty_int else c_type k (nty l) (nty r))"
| "const_expr (ND_LOGAND t l r) \<longleftrightarrow> const_expr l \<and> const_expr r \<and> t = ty_int"
| "const_expr (ND_LOGOR t l r) \<longleftrightarrow> const_expr l \<and> const_expr r \<and> t = ty_int"
| "const_expr (ND_COND t c a b) \<longleftrightarrow> const_expr c \<and> const_expr a \<and> const_expr b \<and> nty a = t \<and> nty b = t"
| "const_expr _ \<longleftrightarrow> False"

lemma c_type_int: "int_type lt \<Longrightarrow> int_type rt \<Longrightarrow> int_type (c_type k lt rt)"
  by (simp add: c_type_def int_type_promote int_type_usual)

lemma const_int: "const_expr e \<Longrightarrow> int_type (nty e)"
  by (induction e rule: const_expr.induct) (auto simp: c_type_int split: if_splits)

lemma signed_type:
  assumes "int_type lt" "int_type rt" "\<not> is_unsigned lt" "\<not> is_unsigned rt"
  shows "\<not> is_unsigned (c_type k lt rt)" "in_range lt a \<Longrightarrow> in_range (c_type k lt rt) a"
    "\<not> is_shift k \<Longrightarrow> in_range rt b \<Longrightarrow> in_range (c_type k lt rt) b"
proof -
  show "\<not> is_unsigned (c_type k lt rt)" using assms by (elim int_type_cases) (simp_all add: c_type_def usual_def promote_def Let_def ty_simps)
  show "in_range lt a \<Longrightarrow> in_range (c_type k lt rt) a"
    using assms by (elim int_type_cases) (auto simp: in_range_bounds c_type_def usual_def promote_def Let_def width_def ty_simps int_type_def)
  show "\<not> is_shift k \<Longrightarrow> in_range rt b \<Longrightarrow> in_range (c_type k lt rt) b"
    using assms by (elim int_type_cases) (auto simp: in_range_bounds c_type_def usual_def promote_def Let_def width_def ty_simps int_type_def)
qed

lemma long_ok: "int_type t \<Longrightarrow> \<not> is_unsigned t \<Longrightarrow> in_range t v \<Longrightarrow> long v = Ok v"
  by (auto simp: long_def in_range_bounds int_type_def width_def ty_simps)

lemma const_bin_ok:
  assumes t: "int_type t" "\<not> is_unsigned t" and a: "in_range t a" and v: "c_op k t a b = Some v"
  shows "const_bin k a b = Ok v"
proof -
  have l: "c_val t x = Some v \<Longrightarrow> long x = Ok v" for x using long_ok [OF t, of x] t(2) by (auto simp: c_val_def split: if_splits)
  have w: "width t \<le> 64" using int_type_width [OF t(1)] by auto
  show ?thesis
  proof (cases k)
    case ND_MOD
    then have "b \<noteq> 0" "c_val t (a sdiv b) \<noteq> None" "v = a smod b" using v by (auto simp: c_op_def split: if_splits)
    moreover from this(2) have "long (a sdiv b) = Ok (a sdiv b)" using long_ok [OF t] t(2) by (auto simp: c_val_def split: if_splits)
    ultimately show ?thesis using ND_MOD by (simp add: const_bin_def)
  next
    case ND_SHL
    then show ?thesis using v l w t(2) by (auto simp: c_op_def const_bin_def split: if_splits)
  next
    case ND_SHR
    then show ?thesis using v w by (auto simp: c_op_def const_bin_def split: if_splits)
  qed (use v l in \<open>auto simp: c_op_def const_bin_def split: if_splits\<close>)
qed

lemma flip_top:
  fixes v :: int
  shows "(take_bit (Suc n) v XOR 2 ^ n) - 2 ^ n = signed_take_bit n v"
proof -
  have b: "bit (take_bit (Suc n) v) n = bit v n" by (simp add: bit_take_bit_iff)
  have "take_bit (Suc n) v XOR 2 ^ n = flip_bit n (take_bit (Suc n) v)" by (simp add: flip_bit_eq_xor push_bit_eq_mult)
  also have "\<dots> = (if bit v n then take_bit (Suc n) v - 2 ^ n else take_bit (Suc n) v + 2 ^ n)"
    using b by (simp add: flip_bit_eq_if unset_bit_eq set_bit_eq)
  finally show ?thesis by (simp add: signed_take_bit_eq_take_bit_minus)
qed

lemma and_low: "v AND 0xff = take_bit 8 v" "v AND 0xffff = take_bit 16 v" "v AND 0xffffffff = take_bit 32 v" for v :: int
  by (simp_all add: take_bit_eq_mask mask_eq_exp_minus_1)

lemma truncate_wrap:
  assumes "int_type t" "t \<noteq> ty_ulong" "- (2 ^ 63) \<le> v" "v < 2 ^ 63"
  shows "truncate_const v t = wrap t v"
proof -
  note f = flip_top [of 7 v, simplified] flip_top [of 15 v, simplified] flip_top [of 31 v, simplified]
  have s: "signed_take_bit 63 v = v" using assms(3,4) by (simp add: signed_take_bit_int_eq_self)
  show ?thesis using assms(1)
    by (cases rule: int_type_cases) (use assms(2) s in \<open>simp_all add: truncate_const_def wrap_def width_def ty_simps and_low f\<close>)
qed

lemma const_long:
  assumes "const_expr e" "in_range (nty e) v"
  shows "- (2 ^ 63) \<le> v \<and> v < 2 ^ 63"
proof -
  have "nty e \<noteq> ty_ulong" using assms(1)
  proof (induction e rule: const_expr.induct)
    case (6 k t l r)
    then have "int_type (nty l)" "int_type (nty r)" "\<not> is_unsigned (nty l)" "\<not> is_unsigned (nty r)" using const_int by auto
    from signed_type(1) [OF this, where k = k] show ?case using 6(3) by (auto simp: ty_simps split: if_splits)
  qed (auto simp: ty_simps)
  then show ?thesis using assms(2) const_int [OF assms(1)] by (auto simp: in_range_bounds int_type_def width_def ty_simps)
qed

lemma const_ev: "const_expr e \<Longrightarrow> ev e s = Some (v, s') \<Longrightarrow> eval_const e = Ok v \<and> s' = s \<and> in_range (nty e) v"
proof (induction e arbitrary: v s' rule: const_expr.induct)
  case (2 t e)
  from 2(3) obtain a where a: "ev e s = Some (a, s')" "c_val (promote (nty e)) (- a) = Some v" by (auto split: option.splits)
  have t: "const_expr e" "nty e = t" "promote t = t" "int_type t" "\<not> is_unsigned t" using 2(2) const_int by (auto simp: promote_def)
  then have "v = - a" "in_range t v" using a(2) by (auto simp: c_val_def split: if_splits)
  then show ?case using 2(1) [OF t(1) a(1)] t long_ok [OF t(4,5)] by simp
next
  case (3 t e)
  from 3(3) obtain a where a: "ev e s = Some (a, s')" "v = of_bool (a = 0)" by (auto split: option.splits)
  have t: "const_expr e" "t = ty_int" using 3(2) by auto
  show ?case using 3(1) [OF t(1) a(1)] t(2) a(2) in_range_bool [of ty_int] by simp
next
  case (4 t e)
  from 4(3) obtain a where a: "ev e s = Some (a, s')" "v = wrap (promote (nty e)) (NOT a)" by (auto split: option.splits)
  have t: "const_expr e" "nty e = t" "promote t = t" "int_type t" "\<not> is_unsigned t" using 4(2) const_int by (auto simp: promote_def)
  note i = 4(1) [OF t(1) a(1)]
  have "in_range t (NOT a)" using i t(2,4,5) by (auto simp: in_range_bounds not_int_def int_type_def width_def ty_simps)
  then have "v = NOT a" "in_range t v" using a(2) t(2,3) by (simp_all add: in_range_def)
  then show ?case using i by simp
next
  case (5 t e)
  from 5(3) obtain a where a: "ev e s = Some (a, s')" "v = wrap t a" by (auto split: option.splits)
  have t: "const_expr e" "int_type t" "t \<noteq> ty_ulong" using 5(2) by auto
  note i = 5(1) [OF t(1) a(1)]
  show ?case using i a(2) truncate_wrap [OF t(2,3)] const_long [OF t(1)] in_range_wrap [OF t(2)] by simp
next
  case (6 k t l r)
  from 6(4) obtain a s1 b where a: "ev l s = Some (a, s1)" "ev r s1 = Some (b, s')" "c_bin k (nty l) (nty r) a b = Some v" by (auto split: option.splits)
  have t: "const_expr l" "const_expr r" "\<not> is_unsigned (nty l)" "\<not> is_unsigned (nty r)" "t = (if is_cmp k then ty_int else c_type k (nty l) (nty r))"
    using 6(3) by auto
  note il = 6(1) [OF t(1) a(1)]
  then have ir: "eval_const r = Ok b \<and> s' = s \<and> in_range (nty r) b" using 6(2) [OF t(2)] a(2) by simp
  let ?T = "c_type k (nty l) (nty r)"
  note ty = const_int [OF t(1)] const_int [OF t(2)]
  note sg = signed_type [OF ty t(3,4), where k = k]
  have T: "int_type ?T" using c_type_int [OF ty] .
  have ra: "in_range ?T a" using sg(2) il by simp
  have o: "c_op k ?T a b = Some v"
    using a(3) sg(3) [of b] ra ir by (cases "is_shift k") (simp_all add: c_bin_def in_range_def)
  have cb: "const_bin k a b = Ok v" using const_bin_ok [OF T sg(1) ra o] .
  have "in_range t v"
  proof (cases "is_cmp k")
    case True
    then show ?thesis using t(5) o in_range_bool [of ty_int] by (auto simp: c_op_def is_cmp_def)
  next
    case cmp: False
    have "in_range ?T v"
    proof (cases "is_shift k")
      case True
      then obtain x where "wrap ?T x = v" using c_shift_word [OF T ra True o] by blast
      then show ?thesis using in_range_wrap [OF T] by blast
    next
      case False
      have "in_range ?T b" using sg(3) ir False by simp
      then obtain x where "wrap ?T x = v" using c_op_word [OF T ra _ cmp False refl o] by blast
      then show ?thesis using in_range_wrap [OF T] by blast
    qed
    then show ?thesis using t(5) cmp by simp
  qed
  moreover have "k = ND_DIV \<or> k = ND_MOD \<Longrightarrow> b \<noteq> 0" using o by (auto simp: c_op_def split: if_splits)
  ultimately show ?case using il ir cb by auto
next
  case (7 t l r)
  from 7(4) obtain a s1 where a: "ev l s = Some (a, s1)" "a = 0 \<and> v = 0 \<and> s' = s1 \<or> a \<noteq> 0 \<and> (\<exists>b. ev r s1 = Some (b, s') \<and> v = of_bool (b \<noteq> 0))"
    by (auto split: option.splits if_splits)
  have t: "const_expr l" "const_expr r" "t = ty_int" using 7(3) by auto
  show ?case using 7(1) [OF t(1) a(1)] 7(2) [OF t(2)] a(2) t(3) in_range_bool [of ty_int] in_range_bool [of ty_int False] by auto
next
  case (8 t l r)
  from 8(4) obtain a s1 where a: "ev l s = Some (a, s1)" "a \<noteq> 0 \<and> v = 1 \<and> s' = s1 \<or> a = 0 \<and> (\<exists>b. ev r s1 = Some (b, s') \<and> v = of_bool (b \<noteq> 0))"
    by (auto split: option.splits if_splits)
  have t: "const_expr l" "const_expr r" "t = ty_int" using 8(3) by auto
  show ?case using 8(1) [OF t(1) a(1)] 8(2) [OF t(2)] a(2) t(3) in_range_bool [of ty_int] in_range_bool [of ty_int True] by auto
next
  case (9 t c x y)
  from 9(5) obtain a s1 where a: "ev c s = Some (a, s1)" "(if a \<noteq> 0 then ev x s1 else ev y s1) = Some (v, s')" by (auto split: option.splits)
  have t: "const_expr c" "const_expr x" "const_expr y" "nty x = t" "nty y = t" using 9(4) by auto
  show ?case using 9(1) [OF t(1) a(1)] 9(2) [OF t(2)] 9(3) [OF t(3)] a(2) t(4,5) by (auto split: if_splits)
qed auto



section \<open>A value that is not reduced\<close>

lemma bitnot_bits:
  assumes "in_range ty_uint a"
  shows "W (NOT a) \<noteq> W (wrap ty_uint (NOT a))"
proof -
  have a: "0 \<le> a" "a < 2 ^ 32" using assms by (auto simp: in_range_bounds int_type_def width_def ty_simps)
  have n: "bit (NOT a) 40"
  proof -
    have "\<not> bit a 40" using a by (simp add: bit_iff_odd)
    then show ?thesis by (simp add: bit_not_iff)
  qed
  have "\<not> bit (wrap ty_uint (NOT a)) 40" by (simp add: wrap_def width_def ty_simps bit_take_bit_iff)
  then have "bit (W (NOT a)) 40 \<noteq> bit (W (wrap ty_uint (NOT a))) 40" using n by (simp add: bit_word_of_int_iff)
  then show ?thesis by metis
qed

text \<open>
  C24. \<open>gen_expr\<close> ends the code of \<open>~\<close> without a conversion to its type. For an \<open>unsigned int\<close>
  variable the code leaves the bits above the 32nd set, in every frame, and so never the value
  that C gives the expression.
\<close>

theorem bitnot_not_reduced:
  assumes "layout_ok F xs" "x \<in> set xs" "o_ty x = ty_uint"
  shows "\<exists>ws. gen_expr env (ND_BITNOT ty_uint (ND_VAR ty_uint x)) st = Ok (emit_all ws st) \<and>
    (\<forall>D s m. frame xs F D s m \<longrightarrow> (\<exists>m' v. exec_seq ws m = Some m' \<and> ev (ND_BITNOT ty_uint (ND_VAR ty_uint x)) s = Some (v, s) \<and>
       regs m' 10 = W (NOT (s (o_offset x))) \<and> regs m' 10 \<noteq> W v))"
proof -
  let ?ad = "addi_ins 10 8 (- o_offset x)"
  let ?ws = "?ad @ load_ins ty_uint @ [enc_i 0x13 10 4 10 (- 1)]"
  have l: "o_is_local x" "\<not> o_is_function x" using layout_local [OF assms(1,2)] by auto
  have g: "gen_expr env (ND_BITNOT ty_uint (ND_VAR ty_uint x)) st = Ok (emit_all ?ws st)"
    using l by (simp add: i_addi_all load_all A0_def S0_def)
  have "\<exists>m' v. exec_seq ?ws m = Some m' \<and> ev (ND_BITNOT ty_uint (ND_VAR ty_uint x)) s = Some (v, s) \<and>
      regs m' 10 = W (NOT (s (o_offset x))) \<and> regs m' 10 \<noteq> W v" if f: "frame xs F D s m" for D s m
  proof -
    obtain R where 1: "exec_seq ?ad m = Some (m\<lparr>regs := R, pc := pc m + 4 * int (length ?ad)\<rparr>)" "R 10 = below (regs m 8) (o_offset x)"
        "\<forall>r. r \<notin> scratch \<longrightarrow> R r = regs m r"
      using addi_run [of 10 8 "- o_offset x" m] by auto
    let ?m1 = "m\<lparr>regs := R, pc := pc m + 4 * int (length ?ad)\<rparr>"
    have f1: "frame xs F D s ?m1" using 1(3) by (intro frame_regs [OF f]) simp_all
    have "regs ?m1 10 = below (regs ?m1 8) (o_offset x)" using 1(2,3) by simp
    note 2 = load_var [OF f1 assms(2) this, unfolded assms(3)]
    let ?m2 = "?m1\<lparr>regs := (regs ?m1)(10 := W (s (o_offset x))), pc := pc ?m1 + 4 * int (length (load_ins ty_uint))\<rparr>"
    have 3: "exec_seq [enc_i 0x13 10 4 10 (- 1)] ?m2 = Some (?m2\<lparr>regs := (regs ?m2)(10 := W (NOT (s (o_offset x)))), pc := pc ?m2 + 4\<rparr>)"
      using W_bits(4) [of "s (o_offset x)"] by (simp add: exec_imm alu_imm_simps reg_regs next_set)
    have r: "in_range ty_uint (s (o_offset x))" using frame_ranges [OF f] assms(2,3) unfolding ranges_def by auto
    have "ev (ND_BITNOT ty_uint (ND_VAR ty_uint x)) s = Some (wrap ty_uint (NOT (s (o_offset x))), s)" by (simp add: promote_def ty_simps)
    then show ?thesis using seq_run [OF 1(1) seq_run [OF 2 3]] bitnot_bits [OF r] by auto
  qed
  then show ?thesis using g by blast
qed

definition var_u :: obj where
  "var_u = \<lparr>o_name = bytes ''u'', o_ty = ty_uint, o_is_local = True, o_is_function = False, o_defined = False, o_offset = 24, o_sym = 0\<rparr>"

theorem bitnot_not_reduced_witness:
  "\<forall>env st. \<exists>ws. gen_expr env (ND_BITNOT ty_uint (ND_VAR ty_uint var_u)) st = Ok (emit_all ws st) \<and>
    (\<exists>m' v. exec_seq ws \<lparr>regs = (\<lambda>r. if r = 2 then - 32 else 0), pc = 0, mem = (\<lambda>_. 5)\<rparr> = Some m' \<and>
       ev (ND_BITNOT ty_uint (ND_VAR ty_uint var_u)) (\<lambda>_. 84215045) = Some (v, \<lambda>_. 84215045) \<and>
       regs m' 10 = W (NOT 84215045) \<and> regs m' 10 \<noteq> W v)"
proof (intro allI)
  fix env st
  let ?m = "\<lparr>regs = (\<lambda>r. if r = 2 then - 32 else 0), pc = 0, mem = (\<lambda>_. 5)\<rparr>"
  have l: "layout_ok 32 [var_u]" "var_u \<in> set [var_u]" "o_ty var_u = ty_uint" by (simp_all add: layout_ok_def local_int_def var_u_def)
  have "(4 :: nat) = Suc (Suc (Suc (Suc 0)))" by simp
  then have r: "mem_read 4 a (\<lambda>_. 5) = 84215045" for a by (simp only: mem_read.simps) simp
  then have "mem_value ty_uint a (\<lambda>_. 5) = 84215045" for a by (simp add: mem_value_def wrap_def width_def ty_simps)
  then have "frame [var_u] 32 32 (\<lambda>_. 84215045) ?m" using l(1) by (simp add: frame_def agrees_def var_u_def)
  with bitnot_not_reduced [OF l, of env st]
  show "\<exists>ws. gen_expr env (ND_BITNOT ty_uint (ND_VAR ty_uint var_u)) st = Ok (emit_all ws st) \<and>
    (\<exists>m' v. exec_seq ws ?m = Some m' \<and> ev (ND_BITNOT ty_uint (ND_VAR ty_uint var_u)) (\<lambda>_. 84215045) = Some (v, \<lambda>_. 84215045) \<and>
       regs m' 10 = W (NOT 84215045) \<and> regs m' 10 \<noteq> W v)" by blast
qed

end
