(* ===== verification/Cc_Lexer.thy ===== *)
theory Cc_Lexer
  imports Cc_Object Convert
begin

text \<open>
  The lexer of the compiler, \<open>cmd/cc/lexer.c\<close>. The position in the source is the text that is not
  read yet; the tokens are a list. The functions end with a state, with \<open>Fatal\<close> (the call of
  \<open>fatal\<close>) or with \<open>Fault\<close> (an overflow of \<open>int\<close>). A character is -1 at the end of the source.
\<close>

section \<open>State\<close>

datatype tkind = TK_EOF | TK_IDENT | TK_NUM | TK_STR | TK_PUNCT

record token =
  t_kind :: tkind
  t_text :: string
  t_val :: "64 word"
  t_str :: string
  t_line :: int
  t_col :: int

record lexer =
  l_rest :: string
  l_line :: int
  l_col :: int
  l_tokens :: "token list"

definition ch_code :: "char \<Rightarrow> int" where
  "ch_code c = of_char c"

lemma ch_code_nat: "ch_code c = int (of_char c)"
  unfolding ch_code_def by (rule of_nat_of_char [symmetric])

lemma ch_code_range [simp]: "0 \<le> ch_code c" "ch_code c < 256" "\<not> ch_code c < 0"
  using nat_of_char_less_256 [of c] unfolding ch_code_nat by simp_all

definition peekc :: "lexer \<Rightarrow> int" where
  "peekc lx = (case l_rest lx of [] \<Rightarrow> - 1 | c # _ \<Rightarrow> ch_code c)"

definition peekc2 :: "lexer \<Rightarrow> int" where
  "peekc2 lx = (case l_rest lx of _ # c # _ \<Rightarrow> ch_code c | _ \<Rightarrow> - 1)"

definition advancec :: "lexer \<Rightarrow> int \<times> lexer" where
  "advancec lx =
     (case l_rest lx of
        [] \<Rightarrow> (- 1, lx)
      | c # cs \<Rightarrow>
          (ch_code c,
           if c = CHR 0x0A then lx\<lparr>l_rest := cs, l_line := l_line lx + 1, l_col := 1\<rparr>
           else lx\<lparr>l_rest := cs, l_col := l_col lx + 1\<rparr>))"

text \<open>\<open>advancec\<close> where the character is not used.\<close>

definition adv :: "lexer \<Rightarrow> lexer" where
  "adv lx = snd (advancec lx)"

definition push_token :: "tkind \<Rightarrow> string \<Rightarrow> 64 word \<Rightarrow> string \<Rightarrow> int \<Rightarrow> int \<Rightarrow> lexer \<Rightarrow> lexer" where
  "push_token k text v str line col lx =
     lx\<lparr>l_tokens := l_tokens lx @ [\<lparr>t_kind = k, t_text = text, t_val = v, t_str = str, t_line = line, t_col = col\<rparr>]\<rparr>"

text \<open>The text between two positions.\<close>

definition text_between :: "lexer \<Rightarrow> lexer \<Rightarrow> string" where
  "text_between a b = take (length (l_rest a) - length (l_rest b)) (l_rest a)"

lemma adv_rest [simp]: "l_rest (adv lx) = tl (l_rest lx)"
  by (simp add: adv_def advancec_def split: list.split)

lemma peekc_nonneg: "0 \<le> peekc lx \<Longrightarrow> l_rest lx \<noteq> []"
  by (auto simp: peekc_def)

text \<open>The loops that only advance.\<close>

function advance_while :: "(int \<Rightarrow> bool) \<Rightarrow> lexer \<Rightarrow> lexer" where
  "advance_while P lx = (if 0 \<le> peekc lx \<and> P (peekc lx) then advance_while P (adv lx) else lx)"
  by pat_completeness auto
termination by (relation "measure (\<lambda>(P, lx). length (l_rest lx))") (auto dest: peekc_nonneg)

declare advance_while.simps [simp del]

section \<open>Escapes\<close>

definition hexval :: "int \<Rightarrow> int" where
  "hexval c =
     (if ch_code CHR ''0'' \<le> c \<and> c \<le> ch_code CHR ''9'' then c - ch_code CHR ''0''
      else if ch_code CHR ''a'' \<le> c \<and> c \<le> ch_code CHR ''f'' then c - ch_code CHR ''a'' + 10
      else if ch_code CHR ''A'' \<le> c \<and> c \<le> ch_code CHR ''F'' then c - ch_code CHR ''A'' + 10
      else - 1)"

lemma hexval_nonneg: "0 \<le> hexval c \<Longrightarrow> 0 \<le> c"
  by (auto simp: hexval_def ch_code_def split: if_splits)

function hex_loop :: "int \<Rightarrow> nat \<Rightarrow> lexer \<Rightarrow> (int \<times> nat \<times> lexer) res" where
  "hex_loop v n lx =
     (let d = hexval (peekc lx)
      in if 0 \<le> d then if v * 16 + d < 2 ^ 31 then hex_loop (v * 16 + d) (Suc n) (adv lx) else Fault
         else Ok (v, n, lx))"
  by pat_completeness auto
termination
  by (relation "measure (\<lambda>(v, n, lx). length (l_rest lx))") (auto dest!: hexval_nonneg peekc_nonneg)

declare hex_loop.simps [simp del]

definition is_octal :: "int \<Rightarrow> bool" where
  "is_octal c \<longleftrightarrow> ch_code CHR ''0'' \<le> c \<and> c \<le> ch_code CHR ''7''"

fun oct_loop :: "nat \<Rightarrow> int \<Rightarrow> lexer \<Rightarrow> int \<times> lexer" where
  "oct_loop 0 v lx = (v, lx)"
| "oct_loop (Suc n) v lx =
     (if is_octal (peekc lx) then oct_loop n (v * 8 + (peekc lx - ch_code CHR ''0'')) (adv lx) else (v, lx))"

definition escapes :: "(char \<times> int) list" where
  "escapes = [(CHR ''n'', 10), (CHR ''t'', 9), (CHR ''r'', 13), (CHR ''a'', 7), (CHR ''b'', 8), (CHR ''f'', 12), (CHR ''v'', 11),
     (CHR 0x5C, 92), (CHR 0x27, 39), (CHR 0x22, 34), (CHR ''?'', 63)]"

definition read_escape :: "lexer \<Rightarrow> (int \<times> lexer) res" where
  "read_escape lx =
     (case advancec lx of
        (c, lx) \<Rightarrow>
          if c < 0 then Ok (- 1, lx)
          else case map_of (map (\<lambda>(x, v). (ch_code x, v)) escapes) c of
                 Some v \<Rightarrow> Ok (v, lx)
               | None \<Rightarrow>
                   if c = ch_code CHR ''x'' then
                     bind_res (hex_loop 0 0 lx) (\<lambda>(v, n, lx). if n = 0 then Fatal else Ok (v mod 256, lx))
                   else if is_octal c then
                     case oct_loop 2 (c - ch_code CHR ''0'') lx of (v, lx) \<Rightarrow> Ok (v mod 256, lx)
                   else Ok (c, lx))"

lemma hex_loop_rest: "hex_loop v n lx = Ok (w, k, lx') \<Longrightarrow> length (l_rest lx') \<le> length (l_rest lx)"
proof (induction v n lx rule: hex_loop.induct)
  case (1 v n lx)
  from 1(2) show ?case
    by (subst (asm) hex_loop.simps) (use 1(1) in \<open>fastforce simp: Let_def split: if_splits\<close>)
qed

lemma oct_loop_rest: "oct_loop n v lx = (w, lx') \<Longrightarrow> length (l_rest lx') \<le> length (l_rest lx)"
  by (induction n v lx rule: oct_loop.induct) (fastforce split: if_splits)+

lemma read_escape_rest: "read_escape lx = Ok (c, lx') \<Longrightarrow> length (l_rest lx') \<le> length (l_rest lx)"
  unfolding read_escape_def
  by (cases "hex_loop 0 0 (snd (advancec lx))"; cases "oct_loop 2 (fst (advancec lx) - ch_code CHR ''0'') (snd (advancec lx))")
    (auto simp: adv_def [symmetric] split_beta bind_res_def split: if_splits option.splits prod.splits dest!: hex_loop_rest oct_loop_rest)

section \<open>Literals\<close>

lemma bind_res_cong [fundef_cong]: "r = r' \<Longrightarrow> (\<And>x. r' = Ok x \<Longrightarrow> f x = g x) \<Longrightarrow> bind_res r f = bind_res r' g"
  by (cases r') auto

text \<open>\<open>buf_byte\<close> stores the low byte.\<close>

definition byte_char :: "int \<Rightarrow> char" where
  "byte_char c = char_of (nat (c mod 256))"

lemma advancec_rest: "advancec lx = (c, lx') \<Longrightarrow> 0 \<le> c \<Longrightarrow> length (l_rest lx') < length (l_rest lx)"
  by (auto simp: advancec_def split: list.splits if_splits)

function string_loop :: "string \<Rightarrow> lexer \<Rightarrow> (string \<times> lexer) res" where
  "string_loop b lx =
     (case advancec lx of
        (c, lx1) \<Rightarrow>
          if c < 0 \<or> c = 10 then Fatal
          else if c = ch_code CHR 0x22 then Ok (b, lx1)
          else if c = ch_code CHR 0x5C then
            bind_res (read_escape lx1) (\<lambda>x. case x of (c, lx2) \<Rightarrow> string_loop (b @ [byte_char c]) lx2)
          else string_loop (b @ [byte_char c]) lx1)"
  by pat_completeness auto
termination
  by (relation "measure (\<lambda>(b, lx). length (l_rest lx))")
    (auto simp: not_less dest!: advancec_rest [OF sym] read_escape_rest intro: le_less_trans)

declare string_loop.simps [simp del]

text \<open>The text of the token is the C string in the buffer; its bytes end with a NUL.\<close>

definition lex_string :: "lexer \<Rightarrow> lexer res" where
  "lex_string lx =
     bind_res (string_loop [] (adv lx)) (\<lambda>(b, lx').
       Ok (push_token TK_STR (takeWhile (\<lambda>c. c \<noteq> CHR 0x00) b) 0 (b @ [CHR 0x00]) (l_line lx) (l_col lx) lx'))"

definition lex_char :: "lexer \<Rightarrow> lexer res" where
  "lex_char lx =
     (let lx1 = adv lx
      in if peekc lx1 < 0 then Fatal
         else bind_res (if peekc lx1 = ch_code CHR 0x5C then read_escape (adv lx1) else Ok (advancec lx1)) (\<lambda>(c, lx2).
           case advancec lx2 of
             (q, lx3) \<Rightarrow>
               if q \<noteq> ch_code CHR 0x27 then Fatal
               else Ok (push_token TK_NUM ''0'' (word_of_int (c mod 256)) [] (l_line lx) (l_col lx) lx3)))"

function hex_digits :: "64 word \<Rightarrow> lexer \<Rightarrow> 64 word \<times> lexer" where
  "hex_digits v lx =
     (let c = hexval (peekc lx) in if 0 \<le> c then hex_digits (v * 16 + word_of_int c) (adv lx) else (v, lx))"
  by pat_completeness auto
termination by (relation "measure (\<lambda>(v, lx). length (l_rest lx))") (auto dest!: hexval_nonneg peekc_nonneg)

definition is_digit :: "int \<Rightarrow> bool" where
  "is_digit c \<longleftrightarrow> ch_code CHR ''0'' \<le> c \<and> c \<le> ch_code CHR ''9''"

lemma is_digit_nonneg: "is_digit c \<Longrightarrow> 0 \<le> c"
  by (auto simp: is_digit_def ch_code_def)

function digits :: "int \<Rightarrow> 64 word \<Rightarrow> lexer \<Rightarrow> (64 word \<times> lexer) res" where
  "digits base v lx =
     (if is_digit (peekc lx) then
        let d = peekc lx - ch_code CHR ''0''
        in if d \<ge> base then Fatal else digits base (v * word_of_int base + word_of_int d) (adv lx)
      else Ok (v, lx))"
  by pat_completeness auto
termination by (relation "measure (\<lambda>(base, v, lx). length (l_rest lx))") (auto dest!: is_digit_nonneg peekc_nonneg)

declare hex_digits.simps [simp del] digits.simps [simp del]

definition is_suffix :: "int \<Rightarrow> bool" where
  "is_suffix c \<longleftrightarrow> c \<in> ch_code ` {CHR ''u'', CHR ''U'', CHR ''l'', CHR ''L''}"

definition lex_number :: "lexer \<Rightarrow> lexer res" where
  "lex_number lx =
     bind_res
       (if peekc lx = ch_code CHR ''0'' \<and> (peekc2 lx = ch_code CHR ''x'' \<or> peekc2 lx = ch_code CHR ''X'')
        then Ok (hex_digits 0 (adv (adv lx)))
        else digits (if peekc lx = ch_code CHR ''0'' then 8 else 10) 0 lx)
       (\<lambda>(v, lx').
         let lx' = advance_while is_suffix lx'
         in Ok (push_token TK_NUM (text_between lx lx') v [] (l_line lx) (l_col lx) lx'))"

section \<open>Names and operators\<close>

definition starts_ident :: "int \<Rightarrow> bool" where
  "starts_ident c \<longleftrightarrow>
     ch_code CHR ''a'' \<le> c \<and> c \<le> ch_code CHR ''z'' \<or> ch_code CHR ''A'' \<le> c \<and> c \<le> ch_code CHR ''Z'' \<or> c = ch_code CHR ''_''"

definition is_ident_char :: "int \<Rightarrow> bool" where
  "is_ident_char c \<longleftrightarrow> starts_ident c \<or> is_digit c"

definition lex_ident :: "lexer \<Rightarrow> lexer" where
  "lex_ident lx =
     (let lx' = advance_while is_ident_char lx
      in push_token TK_IDENT (text_between lx lx') 0 [] (l_line lx) (l_col lx) lx')"

definition multi_ops :: "string list" where
  "multi_ops = [''<<='', ''>>='', ''...'', ''=='', ''!='', ''<='', ''>='', ''&&'', ''||'', ''<<'', ''>>'',
     ''++'', ''--'', ''->'', ''+='', ''-='', ''*='', ''/='', ''%='', ''&='', ''|='', ''^='']"

definition single_ops :: string where
  "single_ops = ''+-*/%(){}[];,.<>=!~&|^?:''"

text \<open>\<open>strchr\<close> also finds the NUL that ends the list of operators.\<close>

definition lex_operator :: "lexer \<Rightarrow> lexer option" where
  "lex_operator lx =
     (case find (\<lambda>op. take (length op) (l_rest lx) = op) multi_ops of
        Some op \<Rightarrow>
          Some (push_token TK_PUNCT op 0 [] (l_line lx) (l_col lx)
            (lx\<lparr>l_rest := drop (length op) (l_rest lx), l_col := l_col lx + int (length op)\<rparr>))
      | None \<Rightarrow>
          if peekc lx = 0 then Some (push_token TK_PUNCT [] 0 [] (l_line lx) (l_col lx) (adv lx))
          else if peekc lx \<in> ch_code ` set single_ops then
            Some (push_token TK_PUNCT [byte_char (peekc lx)] 0 [] (l_line lx) (l_col lx) (adv lx))
          else None)"

section \<open>The source\<close>

text \<open>The loop over a comment, to its end.\<close>

function cc_comment_loop :: "lexer \<Rightarrow> lexer res" where
  "cc_comment_loop lx =
     (if peekc lx = ch_code CHR ''*'' \<and> peekc2 lx = ch_code CHR ''/'' then Ok lx
      else if peekc lx < 0 then Fatal
      else cc_comment_loop (adv lx))"
  by pat_completeness auto
termination by (relation "measure (\<lambda>lx. length (l_rest lx))") (auto dest!: peekc_nonneg simp: not_less)

declare cc_comment_loop.simps [simp del]

text \<open>One round of the loop of \<open>lex_all\<close>, for a character that is not the end.\<close>

definition lex_step :: "lexer \<Rightarrow> lexer res" where
  "lex_step lx =
     (let c = peekc lx
      in if c \<in> ch_code ` {CHR '' '', CHR 0x09, CHR 0x0D, CHR 0x0A} then Ok (adv lx)
         else if c = ch_code CHR ''/'' \<and> peekc2 lx = ch_code CHR ''/'' then Ok (advance_while (\<lambda>c. c \<noteq> 10) lx)
         else if c = ch_code CHR ''/'' \<and> peekc2 lx = ch_code CHR ''*'' then
           bind_res (cc_comment_loop (adv (adv lx))) (\<lambda>lx. Ok (adv (adv lx)))
         else if c = ch_code CHR ''#'' then Fatal
         else if starts_ident c then Ok (lex_ident lx)
         else if is_digit c then lex_number lx
         else if c = ch_code CHR 0x27 then lex_char lx
         else if c = ch_code CHR 0x22 then lex_string lx
         else case lex_operator lx of Some lx \<Rightarrow> Ok lx | None \<Rightarrow> Fatal)"

text \<open>Every round reads at least one character.\<close>

abbreviation left :: "lexer \<Rightarrow> nat" where
  "left lx \<equiv> length (l_rest lx)"

lemma push_token_rest [simp]: "l_rest (push_token k t v s l c lx) = l_rest lx"
  by (simp add: push_token_def)

lemma advance_while_rest: "left (advance_while P lx) \<le> left lx"
proof (induction P lx rule: advance_while.induct)
  case (1 P lx)
  then show ?case by (subst advance_while.simps) (auto intro: le_trans)
qed

lemma advance_while_less: "0 \<le> peekc lx \<Longrightarrow> P (peekc lx) \<Longrightarrow> left (advance_while P lx) < left lx"
  using advance_while_rest [of P "adv lx"] peekc_nonneg [of lx]
  by (subst advance_while.simps) (cases "l_rest lx"; simp add: le_imp_less_Suc)

lemma advancec_left: "advancec lx = (c, lx') \<Longrightarrow> left lx' \<le> left lx"
  by (auto simp: advancec_def split: list.splits if_splits)

lemma hex_digits_rest: "hex_digits v lx = (w, lx') \<Longrightarrow> left lx' \<le> left lx"
proof (induction v lx rule: hex_digits.induct)
  case (1 v lx)
  from 1(2) show ?case
    by (subst (asm) hex_digits.simps) (use 1(1) in \<open>fastforce simp: Let_def split: if_splits\<close>)
qed

lemma digits_rest: "digits base v lx = Ok (w, lx') \<Longrightarrow> left lx' \<le> left lx"
proof (induction base v lx rule: digits.induct)
  case (1 base v lx)
  from 1(2) show ?case
    by (subst (asm) digits.simps) (use 1(1) in \<open>fastforce simp: Let_def split: if_splits\<close>)
qed

lemma digits_less:
  assumes "digits base v lx = Ok (w, lx')" "is_digit (peekc lx)"
  shows "left lx' < left lx"
proof -
  have "digits base (v * word_of_int base + word_of_int (peekc lx - ch_code CHR ''0'')) (adv lx) = Ok (w, lx')"
    using assms by (subst (asm) digits.simps) (simp add: Let_def split: if_splits)
  from digits_rest [OF this] show ?thesis using peekc_nonneg [OF is_digit_nonneg [OF assms(2)]] by (simp add: Suc_le_eq [symmetric])
    (cases "l_rest lx"; simp)
qed

lemma cc_comment_rest: "cc_comment_loop lx = Ok lx' \<Longrightarrow> left lx' \<le> left lx"
proof (induction lx rule: cc_comment_loop.induct)
  case (1 lx)
  from 1(2) show ?case
    by (subst (asm) cc_comment_loop.simps) (use 1(1) in \<open>fastforce split: if_splits\<close>)
qed

lemma string_loop_rest: "string_loop b lx = Ok (s, lx') \<Longrightarrow> left lx' \<le> left lx"
proof (induction b lx rule: string_loop.induct)
  case (1 b lx)
  obtain c lx1 where a: "advancec lx = (c, lx1)" by force
  have le: "left lx1 \<le> left lx" by (rule advancec_left [OF a])
  from 1(3) consider "lx' = lx1" | "c = ch_code CHR 0x5C" "\<not> (c < 0 \<or> c = 10)" "c \<noteq> ch_code CHR 0x22"
      "bind_res (read_escape lx1) (\<lambda>(c, lx2). string_loop (b @ [byte_char c]) lx2) = Ok (s, lx')"
    | "c \<noteq> ch_code CHR 0x5C" "\<not> (c < 0 \<or> c = 10)" "c \<noteq> ch_code CHR 0x22" "string_loop (b @ [byte_char c]) lx1 = Ok (s, lx')"
    by (subst (asm) string_loop.simps) (auto simp: a split: if_splits)
  then show ?case
  proof cases
    case 2
    then obtain d lx2 where d: "read_escape lx1 = Ok (d, lx2)" "string_loop (b @ [byte_char d]) lx2 = Ok (s, lx')"
      by (cases "read_escape lx1") auto
    show ?thesis using 1(1) [OF a [symmetric] 2(2,3,1) d(1) refl d(2)] read_escape_rest [OF d(1)] le by linarith
  next
    case 3
    show ?thesis using 1(2) [OF a [symmetric] 3(2,3,1) 3(4)] le by linarith
  qed (use le in simp)
qed

lemma lex_string_rest: "lex_string lx = Ok lx' \<Longrightarrow> left lx' \<le> left (adv lx)"
  unfolding lex_string_def by (cases "string_loop [] (adv lx)") (auto dest: string_loop_rest)

lemma lex_char_rest: "lex_char lx = Ok lx' \<Longrightarrow> left lx' \<le> left (adv lx)"
proof -
  assume "lex_char lx = Ok lx'"
  then obtain c lx2 where r: "(if peekc (adv lx) = ch_code CHR 0x5C then read_escape (adv (adv lx)) else Ok (advancec (adv lx))) = Ok (c, lx2)"
      and s: "left lx' = left (snd (advancec lx2))"
    unfolding lex_char_def Let_def
    by (cases "if peekc (adv lx) = ch_code CHR 0x5C then read_escape (adv (adv lx)) else Ok (advancec (adv lx))")
      (auto split: if_splits prod.splits)
  have "left lx2 \<le> left (adv lx)" using r read_escape_rest [of "adv (adv lx)" c lx2] advancec_left [of "adv lx" c lx2]
    by (auto split: if_splits)
  then show ?thesis using s advancec_left [of lx2 "fst (advancec lx2)" "snd (advancec lx2)"] by simp
qed

lemma lex_number_rest: "lex_number lx = Ok lx' \<Longrightarrow> is_digit (peekc lx) \<Longrightarrow> left lx' < left lx"
proof -
  assume n: "lex_number lx = Ok lx'" and d: "is_digit (peekc lx)"
  have ne: "l_rest lx \<noteq> []" using peekc_nonneg [OF is_digit_nonneg [OF d]] .
  from n obtain v lx1 where r: "(if peekc lx = ch_code CHR ''0'' \<and> (peekc2 lx = ch_code CHR ''x'' \<or> peekc2 lx = ch_code CHR ''X'')
        then Ok (hex_digits 0 (adv (adv lx))) else digits (if peekc lx = ch_code CHR ''0'' then 8 else 10) 0 lx) = Ok (v, lx1)"
      and s: "left lx' = left (advance_while is_suffix lx1)"
    unfolding lex_number_def Let_def by (auto simp: bind_res_def split: res.splits if_splits prod.splits)
  have "left (adv (adv lx)) < left lx" using ne by (cases "l_rest lx") auto
  then have "left lx1 < left lx"
    using r digits_less [of _ 0 lx v lx1] hex_digits_rest [of 0 "adv (adv lx)" v lx1] d by (auto split: if_splits)
  then show ?thesis using s advance_while_rest [of is_suffix lx1] by linarith
qed

lemma lex_operator_rest: "lex_operator lx = Some lx' \<Longrightarrow> l_rest lx \<noteq> [] \<Longrightarrow> left lx' < left lx"
proof -
  assume o: "lex_operator lx = Some lx'" and ne: "l_rest lx \<noteq> []"
  show ?thesis
  proof (cases "find (\<lambda>op. take (length op) (l_rest lx) = op) multi_ops")
    case None
    then show ?thesis using o ne by (auto simp: lex_operator_def split: if_splits)
  next
    case (Some op)
    then have "op \<in> set multi_ops" by (auto simp: find_Some_iff)
    then have "op \<noteq> []" by (auto simp: multi_ops_def)
    then show ?thesis using o ne Some by (auto simp: lex_operator_def)
  qed
qed

lemma lex_step_rest:
  assumes "lex_step lx = Ok lx'" "l_rest lx \<noteq> []"
  shows "left lx' < left lx"
proof -
  have a: "left (adv lx) < left lx" using assms(2) by (cases "l_rest lx") auto
  have p: "0 \<le> peekc lx" using assms(2) by (auto simp: peekc_def split: list.split)
  have i: "starts_ident (peekc lx) \<Longrightarrow> is_ident_char (peekc lx)" by (simp add: is_ident_char_def)
  have c: "left (adv (adv l)) < left lx" if "cc_comment_loop (adv (adv lx)) = Ok l" for l
    using cc_comment_rest [OF that] a by simp
  have s: "peekc lx = ch_code CHR ''/'' \<Longrightarrow> peekc lx \<noteq> 10" by (simp add: ch_code_def)
  have l: "lex_string lx = Ok lx' \<or> lex_char lx = Ok lx' \<Longrightarrow> left lx' < left lx"
    using lex_string_rest [of lx lx'] lex_char_rest [of lx lx'] a by linarith
  show ?thesis
    using assms a c p s l lex_number_rest [of lx lx'] lex_operator_rest [of lx lx']
      advance_while_less [of lx is_ident_char] advance_while_less [of lx "\<lambda>c. c \<noteq> 10"] i
    unfolding lex_step_def Let_def lex_ident_def
    by (auto split: if_splits option.splits simp: bind_res_def split: res.splits)
qed

function lex_loop :: "lexer \<Rightarrow> lexer res" where
  "lex_loop lx = (if peekc lx < 0 then Ok lx else bind_res (lex_step lx) lex_loop)"
  by pat_completeness auto
termination
  by (relation "measure left") (auto intro!: lex_step_rest dest: peekc_nonneg simp: not_less)

declare lex_loop.simps [simp del]

text \<open>The tokens so far, and the line, stay from unit to unit.\<close>

definition lex_all :: "string \<Rightarrow> lexer \<Rightarrow> lexer res" where
  "lex_all src lx =
     bind_res (lex_loop (lx\<lparr>l_rest := src\<rparr>)) (\<lambda>lx. Ok (push_token TK_EOF [] 0 [] (l_line lx) (l_col lx) lx))"

definition reset_lexer_state :: "lexer \<Rightarrow> lexer" where
  "reset_lexer_state lx = lx\<lparr>l_tokens := []\<rparr>"

section \<open>Printed tokens\<close>

text \<open>What a token says, without its place.\<close>

definition strip :: "token \<Rightarrow> tkind \<times> string \<times> 64 word \<times> string" where
  "strip t = (t_kind t, t_text t, t_val t, t_str t)"

datatype item = Name string | Number "64 word" | Operator string | Str string | Chr char

definition plain_char :: "char \<Rightarrow> bool" where
  "plain_char c \<longleftrightarrow> 32 \<le> ch_code c \<and> ch_code c < 127 \<and> c \<noteq> CHR 0x22 \<and> c \<noteq> CHR 0x27 \<and> c \<noteq> CHR 0x5C"

definition oct_digit :: "nat \<Rightarrow> char" where
  "oct_digit k = char_of (48 + k)"

text \<open>Other characters are written in octal, with three digits.\<close>

definition print_char :: "char \<Rightarrow> string" where
  "print_char c =
     (if plain_char c then [c]
      else let n = (of_char c :: nat) in [CHR 0x5C, oct_digit (n div 64), oct_digit (n div 8 mod 8), oct_digit (n mod 8)])"

fun print_item :: "item \<Rightarrow> string" where
  "print_item (Name s) = s"
| "print_item (Number v) = dec (unat v)"
| "print_item (Operator op) = op"
| "print_item (Str s) = CHR 0x22 # concat (map print_char s) @ [CHR 0x22]"
| "print_item (Chr c) = CHR 0x27 # print_char c @ [CHR 0x27]"

fun lex_item_ok :: "item \<Rightarrow> bool" where
  "lex_item_ok (Name s) \<longleftrightarrow> s \<noteq> [] \<and> starts_ident (ch_code (hd s)) \<and> (\<forall>c\<in>set s. is_ident_char (ch_code c))"
| "lex_item_ok (Operator op) \<longleftrightarrow> op \<in> set multi_ops \<or> op \<in> (\<lambda>c. [c]) ` set single_ops"
| "lex_item_ok _ \<longleftrightarrow> True"

fun item_token :: "item \<Rightarrow> tkind \<times> string \<times> 64 word \<times> string" where
  "item_token (Name s) = (TK_IDENT, s, 0, [])"
| "item_token (Number v) = (TK_NUM, dec (unat v), v, [])"
| "item_token (Operator op) = (TK_PUNCT, op, 0, [])"
| "item_token (Str s) = (TK_STR, takeWhile (\<lambda>c. c \<noteq> CHR 0x00) s, 0, s @ [CHR 0x00])"
| "item_token (Chr c) = (TK_NUM, ''0'', word_of_int (ch_code c), [])"

definition blanks :: "char set" where
  "blanks = {CHR '' '', CHR 0x09, CHR 0x0D, CHR 0x0A}"

definition print_items :: "(item \<times> string) list \<Rightarrow> string" where
  "print_items its = concat (map (\<lambda>(i, sep). print_item i @ sep) its)"

subsection \<open>Reading them\<close>

lemma adv_tokens [simp]: "l_tokens (adv lx) = l_tokens lx"
  by (simp add: adv_def advancec_def split: list.split)

lemma push_tokens: "map strip (l_tokens (push_token k t v s l c lx)) = map strip (l_tokens lx) @ [(k, t, v, s)]"
  by (simp add: push_token_def strip_def)

lemma peekc_Cons: "l_rest lx = c # u \<Longrightarrow> peekc lx = ch_code c"
  by (simp add: peekc_def)

lemma advancec_Cons: "l_rest lx = c # u \<Longrightarrow> advancec lx = (ch_code c, adv lx)"
  by (simp add: advancec_def adv_def)

lemma ch_code_inject [simp]: "ch_code c = ch_code d \<longleftrightarrow> c = d"
  using of_char_eq_iff [of c d, where 'a = nat] by (simp add: ch_code_nat)

lemma ch_code_char_of: "n < 256 \<Longrightarrow> ch_code (char_of n) = int n"
  by (simp add: ch_code_nat)

lemma byte_char_code [simp]: "byte_char (ch_code c) = c"
  by (simp add: byte_char_def ch_code_nat)

lemma ch_code_lit [simp]:
  "ch_code CHR ''0'' = 48" "ch_code CHR ''9'' = 57" "ch_code CHR ''a'' = 97" "ch_code CHR ''z'' = 122" "ch_code CHR ''A'' = 65"
  "ch_code CHR ''Z'' = 90" "ch_code CHR ''_'' = 95" "ch_code CHR ''x'' = 120" "ch_code CHR ''X'' = 88" "ch_code CHR ''7'' = 55"
  "ch_code CHR 0x5C = 92" "ch_code CHR 0x22 = 34" "ch_code CHR 0x27 = 39" "ch_code CHR '' '' = 32" "ch_code CHR 0x09 = 9"
  "ch_code CHR 0x0D = 13" "ch_code CHR 0x0A = 10" "ch_code CHR ''/'' = 47" "ch_code CHR ''*'' = 42" "ch_code CHR ''#'' = 35"
  "ch_code CHR ''u'' = 117" "ch_code CHR ''U'' = 85" "ch_code CHR ''l'' = 108" "ch_code CHR ''L'' = 76"
  by (simp_all add: ch_code_def)

lemma blank_codes: "w \<in> blanks \<Longrightarrow> ch_code w \<in> {32, 9, 13, 10}"
  by (auto simp: blanks_def)

lemma advance_while_all:
  assumes "l_rest lx = s @ w # u" "\<forall>c\<in>set s. P (ch_code c)" "\<not> P (ch_code w)"
  shows "l_rest (advance_while P lx) = w # u" "l_tokens (advance_while P lx) = l_tokens lx"
  using assms
proof (induction s arbitrary: lx)
  case Nil
  case 1 then show ?case by (subst advance_while.simps) (simp add: peekc_Cons)
  case 2 then show ?case by (subst advance_while.simps) (simp add: peekc_Cons)
next
  case (Cons c s)
  case 1 then show ?case using Cons(1) [of "adv lx"] by (subst advance_while.simps) (simp add: peekc_Cons)
  case 2 then show ?case using Cons(2) [of "adv lx"] by (subst advance_while.simps) (simp add: peekc_Cons)
qed

lemma text_between_append: "l_rest a = s @ u \<Longrightarrow> l_rest b = u \<Longrightarrow> text_between a b = s"
  by (simp add: text_between_def)

text \<open>Numbers.\<close>

definition digits_val :: "64 word \<Rightarrow> string \<Rightarrow> 64 word" where
  "digits_val v ds = foldl (\<lambda>v c. v * 10 + word_of_int (ch_code c - 48)) v ds"

lemma digits_all:
  assumes "l_rest lx = ds @ w # u" "\<forall>c\<in>set ds. is_digit (ch_code c)" "\<not> is_digit (ch_code w)"
  shows "\<exists>lx'. digits 10 v lx = Ok (digits_val v ds, lx') \<and> l_rest lx' = w # u \<and> l_tokens lx' = l_tokens lx"
  using assms
proof (induction ds arbitrary: lx v)
  case Nil
  then show ?case by (subst digits.simps) (simp add: peekc_Cons digits_val_def)
next
  case (Cons c ds)
  then have "is_digit (ch_code c)" "ch_code c - 48 < 10" by (simp_all add: is_digit_def)
  then show ?case
    using Cons.IH [of "adv lx" "v * 10 + word_of_int (ch_code c - 48)"] Cons.prems
    by (subst digits.simps) (simp add: peekc_Cons digits_val_def Let_def)
qed

lemma lower_digit: "k < 10 \<Longrightarrow> ch_code (lower_digits ! k) = 48 + int k"
  using digit_char [of k] by (simp add: ch_code_nat)

lemma dec_digits: "\<forall>c\<in>set (dec n). is_digit (ch_code c)"
proof (induction n rule: less_induct)
  case (less n)
  show ?case
  proof (cases "n < 10")
    case False
    then have "\<forall>c\<in>set (dec (n div 10)). is_digit (ch_code c)" by (intro less) simp
    then show ?thesis using False by (subst dec_rec) (auto simp: lower_digit is_digit_def)
  qed (subst dec_rec, simp add: lower_digit is_digit_def)
qed

lemma digits_val_dec: "digits_val 0 (dec n) = of_nat n"
proof (induction n rule: less_induct)
  case (less n)
  show ?case
  proof (cases "n < 10")
    case False
    then have "digits_val 0 (dec (n div 10)) = of_nat (n div 10)" by (intro less) simp
    moreover have "(of_nat (n div 10) * 10 + of_nat (n mod 10) :: 64 word) = of_nat n"
      by (metis of_nat_add of_nat_mult of_nat_numeral div_mult_mod_eq)
    ultimately show ?thesis using False by (subst dec_rec) (simp add: digits_val_def lower_digit)
  qed (subst dec_rec, simp add: digits_val_def lower_digit)
qed

lemma dec_head: "0 < n \<Longrightarrow> \<exists>c ds. dec n = c # ds \<and> ch_code c \<noteq> 48"
proof (induction n rule: less_induct)
  case (less n)
  show ?case
  proof (cases "n < 10")
    case True
    then show ?thesis using less.prems by (subst dec_rec) (simp add: lower_digit)
  next
    case False
    then obtain c ds where "dec (n div 10) = c # ds" "ch_code c \<noteq> 48" using less.IH [of "n div 10"] by fastforce
    then show ?thesis using False by (subst dec_rec) simp
  qed
qed

lemma lex_number_dec:
  assumes "l_rest lx = dec (unat v) @ w # u" "w \<in> blanks"
  shows "\<exists>lx'. lex_number lx = Ok lx' \<and> l_rest lx' = w # u \<and> map strip (l_tokens lx') = map strip (l_tokens lx) @ [item_token (Number v)]"
proof -
  have w: "\<not> is_digit (ch_code w)" "\<not> is_suffix (ch_code w)" using blank_codes [OF assms(2)] by (auto simp: is_digit_def is_suffix_def)
  have "\<exists>lx1. (if peekc lx = ch_code CHR ''0'' \<and> (peekc2 lx = ch_code CHR ''x'' \<or> peekc2 lx = ch_code CHR ''X'')
      then Ok (hex_digits 0 (adv (adv lx))) else digits (if peekc lx = ch_code CHR ''0'' then 8 else 10) 0 lx) = Ok (v, lx1) \<and>
      l_rest lx1 = w # u \<and> l_tokens lx1 = l_tokens lx"
  proof (cases "v = 0")
    case True
    then have r: "l_rest lx = CHR ''0'' # w # u" using assms(1) by (subst (asm) dec_rec) (simp add: lower_digits_def)
    have "peekc2 lx \<noteq> 120" "peekc2 lx \<noteq> 88" using r blank_codes [OF assms(2)] by (auto simp: peekc2_def)
    then show ?thesis
      using r w(1) True by (subst digits.simps, subst digits.simps) (auto simp: peekc_Cons is_digit_def Let_def peekc_def)
  next
    case False
    then have "0 < unat v" by (simp add: unat_gt_0)
    then obtain c ds where c: "dec (unat v) = c # ds" "ch_code c \<noteq> 48" using dec_head by blast
    then have "peekc lx = ch_code c" using assms(1) by (simp add: peekc_Cons)
    then show ?thesis using digits_all [OF assms(1) dec_digits w(1), of 0] c(2) by (simp add: digits_val_dec)
  qed
  then obtain lx1 where lx1: "lex_number lx = Ok (push_token TK_NUM (text_between lx (advance_while is_suffix lx1)) v [] (l_line lx) (l_col lx) (advance_while is_suffix lx1))"
      "l_rest lx1 = [] @ w # u" "l_tokens lx1 = l_tokens lx"
    unfolding lex_number_def Let_def by auto
  note a = advance_while_all [OF lx1(2), of is_suffix]
  show ?thesis using lx1(1,3) a w(2) text_between_append [OF assms(1), of "advance_while is_suffix lx1"]
    by (auto simp: push_tokens)
qed

text \<open>Characters: an escape of three octal digits is read as the character.\<close>

lemma oct_code: "k < 8 \<Longrightarrow> ch_code (oct_digit k) = 48 + int k"
  by (simp add: oct_digit_def ch_code_char_of)

lemma oct_no_escape: "k < 8 \<Longrightarrow> map_of (map (\<lambda>(x, v). (ch_code x, v)) escapes) (48 + int k) = None"
  unfolding map_of_eq_None_iff by (auto simp: escapes_def ch_code_def)

lemma read_octal:
  assumes "l_rest lx = [oct_digit (n div 64), oct_digit (n div 8 mod 8), oct_digit (n mod 8)] @ u" "n < 256"
  shows "read_escape lx = Ok (int n, adv (adv (adv lx)))"
proof -
  have d: "n div 64 < 8" "n div 8 mod 8 < 8" "n mod 8 < 8" using assms(2) by simp_all
  note c = oct_code [OF d(1)] oct_code [OF d(2)] oct_code [OF d(3)]
  have o: "is_octal (48 + int k)" if "k < 8" for k using that by (simp add: is_octal_def)
  have "(n div 64 * 8 + n div 8 mod 8) * 8 + n mod 8 = n"
    using div_mult_mod_eq [of n 8] div_mult_mod_eq [of "n div 8" 8] by (simp add: div_mult2_eq [symmetric])
  then have "int ((n div 64 * 8 + n div 8 mod 8) * 8 + n mod 8) = int n" by (simp only:)
  then have v: "(int (n div 64) * 8 + int (n div 8 mod 8)) * 8 + int (n mod 8) = int n"
    by (simp only: of_nat_add of_nat_mult of_nat_numeral)
  have "oct_loop 2 (int (n div 64)) (adv lx) = (int n, adv (adv (adv lx)))"
    using assms(1) v by (simp add: numeral_2_eq_2 peekc_Cons c o d)
  moreover have "n div 64 \<noteq> 72" using d(1) by simp
  ultimately show ?thesis
    using assms oct_no_escape [OF d(1)] by (simp add: read_escape_def advancec_Cons c o d)
qed

lemma char_code_nat: "(of_char c :: nat) < 256" "ch_code c = int (of_char c)"
  using nat_of_char_less_256 [of c] by (simp_all add: ch_code_nat)

lemma string_all:
  assumes "l_rest lx = concat (map print_char s) @ CHR 0x22 # u"
  shows "\<exists>lx'. string_loop b lx = Ok (b @ s, lx') \<and> l_rest lx' = u \<and> l_tokens lx' = l_tokens lx"
  using assms
proof (induction s arbitrary: lx b)
  case Nil
  then show ?case by (subst string_loop.simps) (simp add: advancec_Cons)
next
  case (Cons c s)
  show ?case
  proof (cases "plain_char c")
    case True
    then have n: "\<not> ch_code c < 0" "ch_code c \<noteq> 10" "ch_code c \<noteq> 34" "ch_code c \<noteq> 92"
      using ch_code_inject [of c "CHR 0x22"] ch_code_inject [of c "CHR 0x5C"] by (auto simp: plain_char_def simp del: ch_code_inject)
    have "print_char c = [c]" using True by (simp add: print_char_def)
    then have "l_rest lx = c # concat (map print_char s) @ CHR 0x22 # u" using Cons.prems by simp
    then show ?thesis using Cons.IH [of "adv lx" "b @ [c]"] n by (subst string_loop.simps) (simp add: advancec_Cons)
  next
    case False
    let ?n = "of_char c :: nat" and ?u = "concat (map print_char s) @ CHR 0x22 # u"
    have "print_char c = [CHR 0x5C, oct_digit (?n div 64), oct_digit (?n div 8 mod 8), oct_digit (?n mod 8)]"
      using False by (simp add: print_char_def Let_def)
    then have r: "l_rest lx = CHR 0x5C # [oct_digit (?n div 64), oct_digit (?n div 8 mod 8), oct_digit (?n mod 8)] @ ?u"
      using Cons.prems by simp
    have "read_escape (adv lx) = Ok (ch_code c, adv (adv (adv (adv lx))))"
      using read_octal [of "adv lx" ?n ?u] r char_code_nat [of c] by simp
    then show ?thesis
      using Cons.IH [of "adv (adv (adv (adv lx)))" "b @ [c]"] r by (subst string_loop.simps) (simp add: advancec_Cons)
  qed
qed

lemma lex_string_all:
  assumes "l_rest lx = print_item (Str s) @ u"
  shows "\<exists>lx'. lex_string lx = Ok lx' \<and> l_rest lx' = u \<and> map strip (l_tokens lx') = map strip (l_tokens lx) @ [item_token (Str s)]"
proof -
  obtain lx' where "string_loop [] (adv lx) = Ok ([] @ s, lx')" "l_rest lx' = u" "l_tokens lx' = l_tokens (adv lx)"
    using string_all [of "adv lx" s u "[]"] assms by auto
  then show ?thesis by (simp add: lex_string_def push_tokens)
qed

lemma lex_char_all:
  assumes "l_rest lx = print_item (Chr c) @ u"
  shows "\<exists>lx'. lex_char lx = Ok lx' \<and> l_rest lx' = u \<and> map strip (l_tokens lx') = map strip (l_tokens lx) @ [item_token (Chr c)]"
proof -
  have m: "ch_code c mod 256 = ch_code c" by simp
  show ?thesis
  proof (cases "plain_char c")
    case True
    then have "ch_code c \<noteq> 92" using ch_code_inject [of c "CHR 0x5C"] by (auto simp: plain_char_def simp del: ch_code_inject)
    moreover have "l_rest lx = CHR 0x27 # c # CHR 0x27 # u" using assms True by (simp add: print_char_def)
    ultimately show ?thesis by (simp add: lex_char_def Let_def peekc_Cons advancec_Cons push_tokens m)
  next
    case False
    let ?n = "of_char c :: nat" and ?u = "CHR 0x27 # u"
    have r: "l_rest lx = CHR 0x27 # CHR 0x5C # [oct_digit (?n div 64), oct_digit (?n div 8 mod 8), oct_digit (?n mod 8)] @ ?u"
      using assms False by (simp add: print_char_def Let_def)
    have "read_escape (adv (adv lx)) = Ok (ch_code c, adv (adv (adv (adv (adv lx)))))"
      using read_octal [of "adv (adv lx)" ?n ?u] r char_code_nat [of c] by simp
    then show ?thesis using r by (simp add: lex_char_def Let_def peekc_Cons advancec_Cons push_tokens m)
  qed
qed

text \<open>Names and operators. An operator that is followed by a blank is not part of a longer one.\<close>

lemma lex_ident_all:
  assumes "l_rest lx = s @ w # u" "\<forall>c\<in>set s. is_ident_char (ch_code c)" "w \<in> blanks"
  shows "l_rest (lex_ident lx) = w # u" "map strip (l_tokens (lex_ident lx)) = map strip (l_tokens lx) @ [item_token (Name s)]"
proof -
  have w: "\<not> is_ident_char (ch_code w)" using blank_codes [OF assms(3)] by (auto simp: is_ident_char_def starts_ident_def is_digit_def)
  note a = advance_while_all [OF assms(1,2) w]
  show "l_rest (lex_ident lx) = w # u" "map strip (l_tokens (lex_ident lx)) = map strip (l_tokens lx) @ [item_token (Name s)]"
    using a text_between_append [OF assms(1) a(1)] by (simp_all add: lex_ident_def Let_def push_tokens)
qed

lemma blank_no_op: "w \<in> blanks \<Longrightarrow> w \<notin> {CHR ''='', CHR ''<'', CHR ''>'', CHR ''.'', CHR ''&'', CHR ''|'', CHR ''+'', CHR ''-''}"
  by (auto simp: blanks_def)

lemma find_op:
  assumes "op \<in> set multi_ops" "w \<in> blanks"
  shows "find (\<lambda>x. take (length x) (op @ w # u) = x) multi_ops = Some op"
  using assms(1) blank_no_op [OF assms(2)] by (simp add: multi_ops_def) (elim disjE; simp)

lemma find_no_op:
  assumes "w \<in> blanks"
  shows "find (\<lambda>x. take (length x) (c # w # u) = x) multi_ops = None"
  using blank_no_op [OF assms] by (simp add: multi_ops_def)

lemma lex_operator_all:
  assumes "lex_item_ok (Operator op)" "l_rest lx = op @ w # u" "w \<in> blanks"
  shows "\<exists>lx'. lex_operator lx = Some lx' \<and> l_rest lx' = w # u \<and> map strip (l_tokens lx') = map strip (l_tokens lx) @ [item_token (Operator op)]"
proof (cases "op \<in> set multi_ops")
  case True
  then show ?thesis using find_op [OF True assms(3), of u] assms(2) by (simp add: lex_operator_def push_tokens)
next
  case False
  then obtain c where c: "op = [c]" "c \<in> set single_ops" using assms(1) by auto
  have "ch_code c \<noteq> 0" using c(2) by (auto simp: single_ops_def ch_code_def)
  moreover have "ch_code c \<in> ch_code ` set single_ops" using c(2) by blast
  ultimately show ?thesis using find_no_op [OF assms(3), of c u] assms(2) c(1) by (simp add: lex_operator_def push_tokens peekc_Cons)
qed

section \<open>The round trip\<close>

lemma lex_step_item:
  assumes "lex_item_ok i" "l_rest lx = print_item i @ w # u" "w \<in> blanks"
  shows "0 \<le> peekc lx \<and> (\<exists>lx'. lex_step lx = Ok lx' \<and> l_rest lx' = w # u \<and> map strip (l_tokens lx') = map strip (l_tokens lx) @ [item_token i])"
proof (cases i)
  case (Name s)
  then obtain c cs where s: "s = c # cs" "starts_ident (ch_code c)" using assms(1) by (cases s) auto
  have "peekc lx = ch_code c" using assms(2) Name s by (simp add: peekc_Cons)
  then show ?thesis
    using lex_ident_all [of lx s w u] assms Name s(2) by (auto simp: lex_step_def starts_ident_def)
next
  case (Number v)
  have ne: "dec (unat v) \<noteq> []" using dec_Cons [of "unat v"] by auto
  then obtain c cs where c: "dec (unat v) = c # cs" by (cases "dec (unat v)") auto
  then have "is_digit (ch_code c)" using dec_digits [of "unat v"] by simp
  moreover have "peekc lx = ch_code c" using assms(2) Number c by (simp add: peekc_Cons)
  ultimately show ?thesis
    using lex_number_dec [of lx v w u] assms(2,3) Number by (auto simp: lex_step_def starts_ident_def is_digit_def)
next
  case (Str s)
  then have "peekc lx = 34" using assms(2) by (simp add: peekc_def)
  then show ?thesis
    using lex_string_all [of lx s "w # u"] assms(2) Str by (simp add: lex_step_def starts_ident_def is_digit_def image_iff)
next
  case (Chr c)
  then have "peekc lx = 39" using assms(2) by (simp add: peekc_def)
  then show ?thesis
    using lex_char_all [of lx c "w # u"] assms(2) Chr by (simp add: lex_step_def starts_ident_def is_digit_def image_iff)
next
  case (Operator op)
  have op: "lex_item_ok (Operator op)" "l_rest lx = op @ w # u" using assms(1,2) Operator by simp_all
  have "op \<noteq> [] \<and> hd op \<in> set single_ops" using op(1) by (auto simp: multi_ops_def single_ops_def)
  then obtain c cs where c: "op = c # cs" "c \<in> set single_ops" by (cases op) auto
  have h: "hd (cs @ w # u) \<noteq> CHR ''/'' \<and> hd (cs @ w # u) \<noteq> CHR ''*''" if "c = CHR ''/''"
    using op(1) c that assms(3) by (auto simp: multi_ops_def blanks_def)
  have p: "peekc lx = ch_code c" "peekc2 lx = ch_code (hd (cs @ w # u))" using op(2) c(1)
    by (simp add: peekc_Cons) (cases cs; simp add: peekc2_def op(2) c(1))
  have s: "ch_code c \<notin> {32, 9, 13, 10, 35, 34, 39} \<and> \<not> starts_ident (ch_code c) \<and> \<not> is_digit (ch_code c)"
    using c(2) by (auto simp: single_ops_def starts_ident_def is_digit_def ch_code_def)
  have k: "ch_code c = 47 \<longleftrightarrow> c = CHR ''/''" "ch_code x = 47 \<longleftrightarrow> x = CHR ''/''" "ch_code x = 42 \<longleftrightarrow> x = CHR ''*''" for x
    using ch_code_inject [of c "CHR ''/''"] ch_code_inject [of x "CHR ''/''"] ch_code_inject [of x "CHR ''*''"] by (simp_all del: ch_code_inject)
  obtain lx' where "lex_operator lx = Some lx'" "l_rest lx' = w # u" "map strip (l_tokens lx') = map strip (l_tokens lx) @ [item_token (Operator op)]"
    using lex_operator_all [OF op assms(3)] by blast
  moreover have "\<not> (ch_code c = 47 \<and> peekc2 lx = 47)" "\<not> (ch_code c = 47 \<and> peekc2 lx = 42)"
    using h k(1) k(2,3) [of "hd (cs @ w # u)"] p(2) by metis+
  then have "lex_step lx = (case lex_operator lx of Some lx \<Rightarrow> Ok lx | None \<Rightarrow> Fatal)"
    using p(1) s by (auto simp: lex_step_def Let_def)
  ultimately show ?thesis using p(1) Operator by simp
qed

lemma lex_blanks:
  assumes "l_rest lx = sep @ u" "set sep \<subseteq> blanks"
  shows "\<exists>lx'. lex_loop lx = lex_loop lx' \<and> l_rest lx' = u \<and> l_tokens lx' = l_tokens lx"
  using assms
proof (induction sep arbitrary: lx)
  case (Cons c sep)
  have c: "peekc lx = ch_code c" "ch_code c \<in> {32, 9, 13, 10}" using Cons.prems blank_codes [of c] by (auto simp: peekc_Cons)
  then have "lex_loop lx = lex_loop (adv lx)" by (subst lex_loop.simps) (auto simp: lex_step_def)
  then show ?case using Cons.IH [of "adv lx"] Cons.prems by auto
qed auto

lemma lex_loop_items:
  assumes "\<forall>(i, sep)\<in>set its. lex_item_ok i \<and> sep \<noteq> [] \<and> set sep \<subseteq> blanks" "l_rest lx = print_items its"
  shows "\<exists>lx'. lex_loop lx = Ok lx' \<and> map strip (l_tokens lx') = map strip (l_tokens lx) @ map (item_token \<circ> fst) its"
  using assms
proof (induction its arbitrary: lx)
  case Nil
  then show ?case by (subst lex_loop.simps) (simp add: peekc_def print_items_def)
next
  case (Cons x its)
  obtain i w sep where x: "x = (i, w # sep)" "lex_item_ok i" "w \<in> blanks" "set sep \<subseteq> blanks"
    using Cons.prems(1) by (cases x; cases "snd x") auto
  have r: "l_rest lx = print_item i @ w # sep @ print_items its" using Cons.prems(2) x(1) by (simp add: print_items_def)
  obtain lx1 where s: "0 \<le> peekc lx" "lex_step lx = Ok lx1" "l_rest lx1 = (w # sep) @ print_items its"
      "map strip (l_tokens lx1) = map strip (l_tokens lx) @ [item_token i]"
    using lex_step_item [OF x(2) r x(3)] by auto
  obtain lx2 where b: "lex_loop lx1 = lex_loop lx2" "l_rest lx2 = print_items its" "l_tokens lx2 = l_tokens lx1"
    using lex_blanks [OF s(3)] x(3,4) by auto
  have "lex_loop lx = lex_loop lx2" using s(1,2) b(1) by (subst lex_loop.simps) simp
  then show ?case using Cons.IH [OF _ b(2)] Cons.prems(1) b(3) s(4) x(1) by auto
qed

text \<open>
  C25. The lexer reads every sequence of names, numbers, operators, string and character
  literals, printed with blanks between them, as exactly these tokens and the end token:
  operators are not split or joined, numbers keep their 64-bit value and literals every byte.
\<close>

theorem lex_print_roundtrip:
  assumes "\<forall>(i, sep)\<in>set its. lex_item_ok i \<and> sep \<noteq> [] \<and> set sep \<subseteq> blanks"
  shows "\<exists>lx'. lex_all (print_items its) (reset_lexer_state lx) = Ok lx' \<and>
    map strip (l_tokens lx') = map (item_token \<circ> fst) its @ [(TK_EOF, [], 0, [])]"
proof -
  obtain lx' where "lex_loop (reset_lexer_state lx\<lparr>l_rest := print_items its\<rparr>) = Ok lx'"
      "map strip (l_tokens lx') = map strip (l_tokens (reset_lexer_state lx)) @ map (item_token \<circ> fst) its"
    using lex_loop_items [OF assms, of "reset_lexer_state lx\<lparr>l_rest := print_items its\<rparr>"] by auto
  then show ?thesis by (simp add: lex_all_def push_tokens reset_lexer_state_def)
qed

definition start_lexer :: lexer where
  "start_lexer = \<lparr>l_rest = [], l_line = 1, l_col = 1, l_tokens = []\<rparr>"

theorem lex_print_roundtrip_witness:
  "\<exists>lx'. lex_all (print_items [(Name ''x1'', '' ''), (Operator ''<<='', [CHR 0x0A]), (Number 255, '' ''), (Str ''a\"'', '' ''), (Chr CHR 0x27, ''  '')])
      (reset_lexer_state start_lexer) = Ok lx' \<and>
    map strip (l_tokens lx') = map (item_token \<circ> fst)
      [(Name ''x1'', '' ''), (Operator ''<<='', [CHR 0x0A]), (Number 255, '' ''), (Str ''a\"'', '' ''), (Chr CHR 0x27, ''  '')] @ [(TK_EOF, [], 0, [])]"
proof (rule lex_print_roundtrip)
  have "is_ident_char (ch_code CHR ''1'')" "starts_ident (ch_code CHR ''x'')"
    by (simp_all add: is_ident_char_def is_digit_def starts_ident_def ch_code_def)
  then show "\<forall>(i, sep)\<in>set [(Name ''x1'', '' ''), (Operator ''<<='', [CHR 0x0A]), (Number 255, '' ''), (Str ''a\"'', '' ''), (Chr CHR 0x27, ''  '')].
      lex_item_ok i \<and> sep \<noteq> [] \<and> set sep \<subseteq> blanks"
    by (simp add: blanks_def is_ident_char_def multi_ops_def)
qed

end
