(* ===== verification/Spec2Isabelle.thy ===== *)
theory Spec2Isabelle
  imports Ctype Strings_Read Strings_Write Numconv Qsort Environ Bits Tlsf_Heap Printf Stdio_Streams
    Convert Pwd Sha256 Pw Inet Uu Optparse Sh_Lexer Sh_Parser Sh_Exec Sh_Builtin Cc_Jumps Cc_Link Cc_Total Cc_Const Cc_Lexer
begin

text \<open>
  User land of the BRK system: the C library \<open>libbrkc\<close>, the support library \<open>libbrkcmd\<close> of the
  commands, the shell \<open>cmd/sh\<close>, the compiler \<open>cmd/cc\<close> and some of the commands. All paths are below
  \<open>src/src\<close>. Every theory holds the definitions of one component, translated from the source in the
  order of the source, and what makes the component correct.

  \<^bold>\<open>How C is modelled.\<close> (theory Prelude) An integer type that is computed with bit operations, or
  whose overflow matters, is a word of its width; a number that the code keeps in range is an
  \<open>int\<close> or \<open>nat\<close>, and where signed overflow is undefined the definition returns a fault. Text is a list
  of characters (or bytes), a C string the bytes before its NUL. A pointer that is only read is the
  rest of its object, memory that is written is a list updated by index, and an access outside of
  the object is a fault (\<open>None\<close>). State is passed explicitly in records with the fields of the
  structures of the code. Failure is a value: \<open>option\<close>, the error codes of the code, or \<open>res\<close> in the
  compiler (\<open>Ok\<close>, \<open>Fatal\<close> for a call of \<open>fatal\<close>, \<open>Fault\<close> for undefined behaviour). Loops are recursive
  functions with termination proofs; where only an assumption on the kernel makes a loop end,
  fuel is a parameter and the theorems say how much is enough.

  \<^bold>\<open>The library.\<close>
  \<^item> Ctype, Strings_Read, Strings_Write, Numconv, Convert, Qsort, Environ: one definition for each
    function of \<open>ctype/\<close>, \<open>string/\<close>, \<open>stdlib/strtol.c\<close>, \<open>atoi.c\<close> and its like, \<open>qsort.c\<close>, \<open>bsearch.c\<close>,
    \<open>env.c\<close> and \<open>exit.c\<close>, each with the result that the standard asks for on every argument: first
    occurrences, tokens, clamped numbers with end pointer and \<open>errno\<close>, sorted permutations (for
    every comparison that meets the locale \<open>comparator\<close>), the environment as a map (locale
    \<open>env_store\<close>).
  \<^item> Bits, Tlsf, Tlsf_Lists, Tlsf_Heap: the allocator \<open>stdlib/malloc.c\<close>. A block is its header at an
    address; the heap is a map from addresses to blocks with the free lists and bitmaps of the
    code; \<open>mmap\<close> is a function from the state to an address. Tlsf_Lists proves the arithmetic of the
    size classes and the free lists, Tlsf_Heap the invariant of the heap (regions are tiled by
    blocks, sizes and previous sizes agree, no two free neighbours, every free block in the list
    of its class), which all operations keep, and what they do to the live blocks and to their
    contents.
  \<^item> Printf: the conversion machine of \<open>stdio/vfprintf.c\<close> over any function that takes text (locale
    \<open>text_sink\<close>), and \<open>snprintf\<close>. Stdio, Stdio_Streams: buffered streams over \<open>read\<close>, \<open>write\<close> and
    \<open>lseek\<close> of a kernel that may transfer less than it is asked to (locales \<open>sink_os\<close>, \<open>source_os\<close>, with
    a file as their interpretation): nothing is lost, duplicated or reordered.
  \<^item> Pwd: the searches of \<open>pwd/\<close> in the user, group and shadow databases, over the streams; on a file
    of printed records they return the first that matches.
  \<^item> Sha256, Pw, Inet: \<open>crypto/sha256.c\<close> against FIPS 180-4, the password hashes of \<open>crypto/pw.c\<close>, and
    the dotted notation of \<open>net/inet.c\<close>.

  \<^bold>\<open>Commands and shell.\<close>
  \<^item> Optparse: the option parser \<open>libbrkcmd/optparse.c\<close>. Uu: \<open>cmd/uuencode.c\<close> and \<open>cmd/uudecode.c\<close> over
    the streams.
  \<^item> Sh_Lexer, Sh_Parser, Sh_Exec, Sh_Builtin: \<open>cmd/sh\<close>. Memory is a parameter \<open>room\<close>, the sizes that an
    allocation can still have, so that every path that runs out of memory is covered; \<open>getenv\<close> is
    a parameter. Sh_Exec runs a pipeline over a table of descriptors, with the outcomes of \<open>pipe\<close>,
    \<open>fork\<close> and \<open>open\<close> as parameters. Sh_Builtin composes the parts into the run of a line.

  \<^bold>\<open>The compiler.\<close> \<open>cmd/cc\<close> translates a unit from C to RV64 code, writes and reads object files, and
  links. The state of the emitter (\<open>emit\<close>) is the code, the labels with their positions, the jumps
  to be patched and the relocations.
  \<^item> Cc_Emit, Cc_Object, Cc_Link: \<open>emit.c\<close> and \<open>util.c\<close>; \<open>write_object\<close> and \<open>read_object\<close>; the layout, the
    resolution of symbols, relocation and the image of the executable in \<open>link.c\<close>.
  \<^item> Cc_Lexer: \<open>lexer.c\<close>; printed tokens are read back.
  \<^item> Cc_Riscv is the machine: the part of RV64 that is emitted, with its decoding as in the RISC-V
    manual. Cc_Jumps: patched jumps land on their labels.
  \<^item> Cc_Types: types, syntax trees, the functions of \<open>parser.c\<close> that give trees their types, and
    constant expressions. Cc_Codegen: \<open>codegen.c\<close>.
  \<^item> Cc_Csem is the specification: what C says that expressions over integer variables mean. Cc_Run
    turns the invariant of the emitter into runs of the machine; Cc_Arith and Cc_Effects hold the
    arithmetic and the effect of the straight pieces of code; Cc_Frame and Cc_Operands the stack;
    Cc_Correct compiled expressions, Cc_Stmt compiled statements (an inductive relation with the
    ways to leave a statement), Cc_Func prologue and epilogue, Cc_Total that nothing fails; there
    stands the theorem that the code of a function computes what C says. Cc_Const compares
    \<open>eval_const\<close> with it.

  \<^bold>\<open>Bounds and fuel.\<close> The code of a tree is at most 256 bytes for each of its parts, and so a function
  whose tree is small enough keeps all jumps within the megabyte that \<open>jal\<close> reaches; an expression
  of depth \<open>d\<close> needs \<open>16 * d\<close> bytes of stack. The loops over a kernel that makes progress need as
  many rounds as there are characters. \<open>malloc\<close> is proved to succeed up to 128 GiB, where the size
  of a region still has a class.

  \<^bold>\<open>Not modelled.\<close>
  \<^item> The preprocessor of the compiler, its grammar of expressions, declarations and statements
    (only the functions that build the trees are modelled), and its command line.
  \<^item> In the proof of the compiler: calls, pointers, structures, \<open>switch\<close> and \<open>goto\<close>. Their code
    generation is modelled, their correctness is not stated.
  \<^item> The line editor of the shell and \<open>cmd/edit.c\<close>, and the tools for terminals and sockets: what
    they do is input and output on a device.
  \<^item> The commands on files and processes, which are sequences of system calls on a file system
    that is not part of the repository, and most of the text filters.
  \<^item> The resolver and the wrappers of system calls.
  \<^item> \<open>brktest\<close>, which tests the kernel.
\<close>

end
